(* ===== verification/Prelude.thy ===== *)
theory Prelude
  imports Main "HOL-Library.Word" "HOL-Library.Monad_Syntax"
begin

unbundle bit_operations_syntax

section \<open>Prelude: machine types, buffers and generic lemmas\<close>

text \<open>
  The vocabulary shared by the component theories. The C code is written for a
  32-bit little-endian machine, so \<open>uint8_t\<close>, \<open>uint16_t\<close>, \<open>uint32_t\<close> and
  \<open>uint64_t\<close> are words of that width whose arithmetic wraps, and a buffer is a
  list of bytes. Reads and writes through a pointer go through \<open>rd\<close> and
  \<open>wr\<close>, which return \<open>None\<close> where the C code would touch memory outside the
  buffer: an out-of-bounds access is a value of the model, never an unspecified
  element of a list.
\<close>

type_synonym byte = "8 word"
type_synonym u16 = "16 word"
type_synonym u32 = "32 word"
type_synonym u64 = "64 word"
type_synonym buf = "byte list"

text \<open>A C string literal as the bytes of its characters, without the final NUL.\<close>

definition str :: "string \<Rightarrow> buf" where
  "str s = map (\<lambda>c. of_nat (of_char c)) s"

named_theorems buf_simps \<open>facts about bounded buffer accesses\<close>

subsection \<open>Bounded accesses to a buffer\<close>

definition rd :: "'a list \<Rightarrow> nat \<Rightarrow> 'a option" where
  "rd xs i = (if i < length xs then Some (xs ! i) else None)"

definition wr :: "'a list \<Rightarrow> nat \<Rightarrow> 'a \<Rightarrow> 'a list option" where
  "wr xs i v = (if i < length xs then Some (xs[i := v]) else None)"

text \<open>\<open>memcpy(dst + off, src, n)\<close> with \<open>n = length src\<close>, and \<open>memset\<close>.\<close>

definition blit :: "'a list \<Rightarrow> nat \<Rightarrow> 'a list \<Rightarrow> 'a list option" where
  "blit dst off src =
     (if off + length src \<le> length dst
      then Some (take off dst @ src @ drop (off + length src) dst) else None)"

definition slice :: "'a list \<Rightarrow> nat \<Rightarrow> nat \<Rightarrow> 'a list option" where
  "slice xs off n = (if off + n \<le> length xs then Some (take n (drop off xs)) else None)"

definition fill :: "'a list \<Rightarrow> nat \<Rightarrow> 'a \<Rightarrow> nat \<Rightarrow> 'a list option" where
  "fill dst off v n = blit dst off (replicate n v)"

subsection \<open>Little-endian integers in a buffer\<close>

definition le16 :: "byte \<Rightarrow> byte \<Rightarrow> u16" where
  "le16 b0 b1 = ucast b0 OR push_bit 8 (ucast b1)"

definition le32 :: "byte \<Rightarrow> byte \<Rightarrow> byte \<Rightarrow> byte \<Rightarrow> u32" where
  "le32 b0 b1 b2 b3 =
     ucast b0 OR push_bit 8 (ucast b1) OR push_bit 16 (ucast b2) OR push_bit 24 (ucast b3)"

definition rd16 :: "buf \<Rightarrow> nat \<Rightarrow> u16 option" where
  "rd16 b i = do { b0 \<leftarrow> rd b i; b1 \<leftarrow> rd b (i + 1); Some (le16 b0 b1) }"

definition rd32 :: "buf \<Rightarrow> nat \<Rightarrow> u32 option" where
  "rd32 b i = do { b0 \<leftarrow> rd b i; b1 \<leftarrow> rd b (i + 1); b2 \<leftarrow> rd b (i + 2); b3 \<leftarrow> rd b (i + 3);
                   Some (le32 b0 b1 b2 b3) }"

definition bytes32 :: "u32 \<Rightarrow> buf" where
  "bytes32 w = [ucast w, ucast (drop_bit 8 w), ucast (drop_bit 16 w), ucast (drop_bit 24 w)]"

definition wr32 :: "buf \<Rightarrow> nat \<Rightarrow> u32 \<Rightarrow> buf option" where
  "wr32 b i w = blit b i (bytes32 w)"

subsection \<open>Lemmas on bounded accesses\<close>

lemma rd_Some [buf_simps]: "i < length xs \<Longrightarrow> rd xs i = Some (xs ! i)"
  by (simp add: rd_def)

lemma rd_None [buf_simps]: "length xs \<le> i \<Longrightarrow> rd xs i = None"
  by (simp add: rd_def)

lemma rd_eq_Some: "rd xs i = Some v \<longleftrightarrow> i < length xs \<and> xs ! i = v"
  by (auto simp: rd_def)

lemma rd_append: "rd (xs @ ys) i = (if i < length xs then rd xs i else rd ys (i - length xs))"
  by (auto simp: rd_def nth_append)

lemma length_blit: "blit dst off src = Some d \<Longrightarrow> length d = length dst"
  by (auto simp: blit_def split: if_splits)

lemma blit_Some [buf_simps]:
  "off + length src \<le> length dst \<Longrightarrow>
   blit dst off src = Some (take off dst @ src @ drop (off + length src) dst)"
  by (simp add: blit_def)

lemma blit_nth:
  assumes "blit dst off src = Some d" and "i < length dst"
  shows "d ! i = (if off \<le> i \<and> i < off + length src then src ! (i - off) else dst ! i)"
  using assms by (auto simp: blit_def nth_append min_def not_less split: if_splits)

lemma rd16_at: "i + 1 < length b \<Longrightarrow> rd16 b i = Some (le16 (b ! i) (b ! (i + 1)))"
  by (simp add: rd16_def rd_def)

lemma rd32_at:
  "i + 3 < length b \<Longrightarrow> rd32 b i = Some (le32 (b ! i) (b ! (i + 1)) (b ! (i + 2)) (b ! (i + 3)))"
  by (simp add: rd32_def rd_def)

lemma length_slice: "slice xs off n = Some ys \<Longrightarrow> length ys = n"
  by (auto simp: slice_def split: if_splits)

lemma slice_Some [buf_simps]:
  "off + n \<le> length xs \<Longrightarrow> slice xs off n = Some (take n (drop off xs))"
  by (simp add: slice_def)

lemma length_fill: "fill dst off v n = Some d \<Longrightarrow> length d = length dst"
  by (auto simp: fill_def dest: length_blit)

lemma length_bytes32 [simp]: "length (bytes32 w) = 4"
  by (simp add: bytes32_def)

lemma length_wr32: "wr32 b i w = Some b' \<Longrightarrow> length b' = length b"
  by (auto simp: wr32_def dest: length_blit)

lemma le32_bytes32:
  "le32 (ucast w) (ucast (drop_bit 8 w)) (ucast (drop_bit 16 w)) (ucast (drop_bit 24 w)) = w"
proof (rule bit_word_eqI)
  fix n :: nat
  consider "n < 8" | "8 \<le> n" "n < 16" | "16 \<le> n" "n < 24" | "24 \<le> n"
    by linarith
  then show "bit (le32 (ucast w) (ucast (drop_bit 8 w)) (ucast (drop_bit 16 w))
               (ucast (drop_bit 24 w))) n = bit w n" if "n < LENGTH(32)"
    using that by cases (auto simp: le32_def bit_simps)
qed

lemma length_str [simp]: "length (str s) = length s"
  by (simp add: str_def)

subsection \<open>Lemmas on words\<close>

lemma unat_ucast: "unat (ucast (w :: 'a::len word) :: 'b::len word) = unat w mod 2 ^ LENGTH('b)"
  by (simp add: unsigned_ucast_eq take_bit_eq_mod)

lemma unat_less: "unat (w :: 'a::len word) < 2 ^ LENGTH('a)"
  by (rule unsigned_less)

lemma unat_of_nat_id: "n < 2 ^ LENGTH('a) \<Longrightarrow> unat (of_nat n :: 'a::len word) = n"
  by (simp add: unat_of_nat)

lemma unat_add_id: "unat a + unat b < 2 ^ LENGTH('a) \<Longrightarrow> unat (a + b :: 'a::len word) = unat a + unat b"
  by (simp add: unat_word_ariths)

lemma unat_inc: "(a :: 'a::len word) < b \<Longrightarrow> unat (a + 1) = Suc (unat a)"
proof -
  assume "a < b"
  then have "unat a + 1 \<le> unat b" by (simp add: word_less_nat_alt)
  then have "unat a + 1 < 2 ^ LENGTH('a)" using unat_less by (rule le_less_trans)
  then show ?thesis using unat_add_id [of a 1] by (cases "LENGTH('a) = 1") auto
qed

lemma unat_inc_measure: "(a :: 'a::len word) < b \<Longrightarrow> unat b - unat (a + 1) < unat b - unat a"
  by (simp add: unat_inc word_less_nat_alt diff_less_mono2)

lemma unat_minus_id: "b \<le> a \<Longrightarrow> unat (a - b :: 'a::len word) = unat a - unat b"
  by (rule unat_sub)

text \<open>Signed comparisons of 32-bit values that are not negative, and masks of low bits.\<close>

lemma sint_small: "unat (a :: 32 word) < 2 ^ 31 \<Longrightarrow> sint a = int (unat a)"
proof -
  assume "unat a < 2 ^ 31"
  then have "int (unat a) < int (2 ^ 31)" by (simp only: of_nat_less_iff)
  then have "uint a < 2 ^ 31" by (simp only: uint_nat of_nat_power of_nat_numeral)
  moreover have "- (2 ^ 31) \<le> uint a" using uint_ge_0 [of a] by (rule order_trans [rotated]) simp
  ultimately have "signed_take_bit (LENGTH(32) - Suc 0) (uint a) = uint a"
    using signed_take_bit_int_eq_self [of 31 "uint a"] by simp
  then show ?thesis unfolding sint_uint uint_nat .
qed

lemma sless_unat:
  "unat (a :: 32 word) < 2 ^ 31 \<Longrightarrow> unat b < 2 ^ 31 \<Longrightarrow> a <s b \<longleftrightarrow> unat a < unat b"
  unfolding word_sless_alt by (simp only: sint_small of_nat_less_iff)

lemma sle_unat:
  "unat (a :: 32 word) < 2 ^ 31 \<Longrightarrow> unat b < 2 ^ 31 \<Longrightarrow> a \<le>s b \<longleftrightarrow> unat a \<le> unat b"
  unfolding word_sle_eq by (simp only: sint_small of_nat_le_iff)

lemma unat_and_mask: "unat (w AND mask n :: 'a::len word) = unat w mod 2 ^ n"
  by (metis take_bit_eq_mask take_bit_eq_mod unsigned_take_bit_eq)

lemma unat_drop_bit: "unat (drop_bit n w :: 'a::len word) = unat w div 2 ^ n"
  unfolding unsigned_drop_bit_eq by (metis drop_bit_eq_div unsigned_less take_bit_nat_eq_self)

lemma unat_push_bit:
  "unat w * 2 ^ n < 2 ^ LENGTH('a) \<Longrightarrow> unat (push_bit n w :: 'a::len word) = unat w * 2 ^ n"
  by (metis unsigned_push_bit_eq push_bit_eq_mult take_bit_nat_eq_self)

lemma unat_or_low:
  assumes "unat a < 2 ^ n"
  shows "unat (a OR push_bit n b :: 'a::len word) = unat a + unat (push_bit n b)"
proof -
  have "take_bit n a = a"
    using assms by (metis take_bit_nat_eq_self unsigned_take_bit_eq word_unat_eq_iff)
  then have "\<And>i. bit a i \<Longrightarrow> i < n" by (metis bit_take_bit_iff)
  then have "a AND push_bit n b = 0" by (intro bit_word_eqI) (auto simp: bit_simps not_less [symmetric])
  then have d: "unat a AND unat (push_bit n b) = 0" by (metis unsigned_and_eq unsigned_0)
  show ?thesis unfolding unsigned_or_eq by (rule disjunctive_add_eq_or [OF d, symmetric])
qed

lemma unat_byte: "unat (a :: byte) < 256"
  using unsigned_less [of a] by simp

lemma unat_ucast_byte: "8 \<le> LENGTH('a) \<Longrightarrow> unat (ucast (a :: byte) :: 'a::len word) = unat a"
  using unat_byte [of a] power_increasing [of 8 "LENGTH('a)" "2 :: nat"]
  by (simp add: unsigned_ucast_eq take_bit_nat_eq_self)

lemma unat_le16: "unat (le16 a b) = unat a + 256 * unat b"
proof -
  have u: "unat (ucast a :: u16) = unat a" "unat (ucast b :: u16) = unat b"
    by (rule unat_ucast_byte; simp)+
  have p: "unat (push_bit 8 (ucast b) :: u16) = unat b * 2 ^ 8"
    using unat_byte [of b] by (subst unat_push_bit) (simp_all add: u)
  show ?thesis unfolding le16_def using unat_byte [of a] by (subst unat_or_low) (simp_all add: u p)
qed

lemma unat_le32: "unat (le32 a b c d) = unat a + 256 * unat b + 65536 * unat c + 16777216 * unat d"
proof -
  have u: "unat (ucast a :: u32) = unat a" "unat (ucast b :: u32) = unat b"
     "unat (ucast c :: u32) = unat c" "unat (ucast d :: u32) = unat d"
    by (rule unat_ucast_byte; simp)+
  have p: "unat (push_bit 8 (ucast b) :: u32) = unat b * 2 ^ 8" "unat (push_bit 16 (ucast c) :: u32) = unat c * 2 ^ 16"
    "unat (push_bit 24 (ucast d) :: u32) = unat d * 2 ^ 24"
    using unat_byte [of b] unat_byte [of c] unat_byte [of d] by (subst unat_push_bit; simp add: u)+
  note l = unat_byte [of a] unat_byte [of b] unat_byte [of c]
  have 1: "unat (ucast a OR push_bit 8 (ucast b) :: u32) = unat a + unat b * 2 ^ 8"
    using l by (subst unat_or_low) (simp_all add: u p)
  have 2: "unat (ucast a OR push_bit 8 (ucast b) OR push_bit 16 (ucast c) :: u32) = unat a + unat b * 2 ^ 8 + unat c * 2 ^ 16"
    using l 1 unfolding or.assoc [symmetric] by (subst unat_or_low) (simp_all add: u p)
  show ?thesis unfolding le32_def or.assoc [symmetric] 
    using l 2 unfolding or.assoc [symmetric] by (subst unat_or_low) (simp_all add: u p)
qed

lemma unat_or_bytes:
  "unat (ucast (a :: byte) OR push_bit 8 (ucast (b :: byte)) :: u32) = unat a + 256 * unat b"
proof -
  have u: "unat (ucast a :: u32) = unat a" "unat (ucast b :: u32) = unat b"
    by (rule unat_ucast_byte; simp)+
  have p: "unat (push_bit 8 (ucast b) :: u32) = unat b * 2 ^ 8"
    using unat_byte [of b] by (subst unat_push_bit) (simp_all add: u)
  show ?thesis using unat_byte [of a] by (subst unat_or_low) (simp_all add: u p)
qed

lemma and_1_odd: "w AND 1 \<noteq> 0 \<longleftrightarrow> odd (unat (w :: 'a::len word))"
proof -
  have "unat (w AND 1) = unat w mod 2" using unat_and_mask [of w 1] by (simp add: mask_eq_exp_minus_1)
  then show ?thesis by (simp add: word_unat_eq_iff odd_iff_mod_2_eq_one)
qed

lemma of_natI: "unat (w :: 'a::len word) = n \<Longrightarrow> w = of_nat n"
  by auto

lemma of_natI_sint: "sint (w :: 'a::len word) = int n \<Longrightarrow> w = of_nat n"
  by (drule arg_cong [of _ _ "of_int :: int \<Rightarrow> 'a word"]) simp

lemma signed_drop_bit_small:
  assumes "unat (c :: 32 word) < 2 ^ 31"
  shows "unat (signed_drop_bit n c) = unat c div 2 ^ n"
proof -
  have "sint (signed_drop_bit n c) = int (unat c div 2 ^ n)"
    using sint_small [OF assms] by (simp add: sint_signed_drop_bit_eq drop_bit_eq_div zdiv_int)
  then have "signed_drop_bit n c = of_nat (unat c div 2 ^ n)" by (rule of_natI_sint)
  moreover have "unat c div 2 ^ n < 2 ^ LENGTH(32)" using unat_less [of c] by (meson div_le_dividend le_less_trans)
  ultimately show ?thesis by (simp only: unat_of_nat_id)
qed

lemma unat_mask: "n \<le> LENGTH('a) \<Longrightarrow> unat (mask n :: 'a::len word) = 2 ^ n - 1"
proof -
  assume "n \<le> LENGTH('a)"
  then have "unat (mask n :: 'a word) = mask n" by (intro bit_eqI) (auto simp: bit_unsigned_iff bit_mask_iff)
  then show ?thesis by (simp only: mask_eq_exp_minus_1)
qed

lemma not_and_mask:
  assumes "n \<le> LENGTH('a)"
  shows "NOT w AND mask n = (0 :: 'a::len word) \<longleftrightarrow> unat w mod 2 ^ n = 2 ^ n - 1"
proof -
  have "NOT w AND mask n = 0 \<longleftrightarrow> (\<forall>i < n. i < LENGTH('a) \<longrightarrow> bit w i)"
    by (auto simp: bit_eq_iff bit_simps)
  also have "\<dots> \<longleftrightarrow> take_bit n w = mask n"
    by (auto simp: bit_eq_iff bit_simps)
  also have "\<dots> \<longleftrightarrow> unat w mod 2 ^ n = 2 ^ n - 1"
    by (simp only: word_unat_eq_iff take_bit_eq_mask [of n w] unat_and_mask unat_mask [OF assms])
  finally show ?thesis .
qed

lemma div_mod_add:
  assumes "x mod n + j < (n :: nat)"
  shows "(x + j) div n = x div n \<and> (x + j) mod n = x mod n + j"
proof -
  have "x + j = x div n * n + (x mod n + j)" using div_mult_mod_eq [of x n] by linarith
  then show ?thesis using assms by (metis div_mult_self3 div_less add.right_neutral mod_mult_self3 mod_less less_nat_zero_code)
qed

lemma div_mod_last:
  assumes "x mod 2 ^ n = 2 ^ n - (1 :: nat)"
  shows "(x + 1) div 2 ^ n = x div 2 ^ n + 1 \<and> (x + 1) mod 2 ^ n = 0"
proof -
  have "0 < (2 :: nat) ^ n" by simp
  then have "x + 1 = (x div 2 ^ n + 1) * 2 ^ n"
    using div_mult_mod_eq [of x "2 ^ n"] assms by (simp only: distrib_right mult_1)
  then show ?thesis by (metis mod_mult_self2_is_0 nonzero_mult_div_cancel_right power_not_zero zero_neq_numeral)
qed

subsection \<open>Lemmas on lists\<close>

lemma take_Suc_snoc: "i < length xs \<Longrightarrow> take (Suc i) xs = take i xs @ [xs ! i]"
  by (rule take_Suc_conv_app_nth)

lemma drop_nth_Cons: "i < length xs \<Longrightarrow> drop i xs = xs ! i # drop (Suc i) xs"
  by (simp add: Cons_nth_drop_Suc)

end
