(* ===== verification/Rllpack.thy ===== *)
theory Rllpack
  imports Prelude
begin

section \<open>core/rllpack.c: the run-length packer\<close>

text \<open>
  \<open>rllpack\<close> compresses a byte array downwards in memory, \<open>rllunpack\<close> reads it
  back. The packed bytes are written at decreasing addresses (\<open>*--o = c\<close>) and
  read at decreasing addresses (\<open>*--i\<close>), so the model keeps them as a list in the
  order in which they are written and read: appending is \<open>--o\<close>, and the pending
  header \<open>hdr\<close> is an index of that list. \<open>hdr = NULL\<close> is \<open>None\<close>, and storing
  through it would be the result \<open>None\<close>; reading past the packed data is
  \<open>None\<close> too.
\<close>

subsection \<open>The packer\<close>

text \<open>\<open>while (run < tcnt && i[run] == c) run++;\<close>\<close>

function rll_run :: "byte \<Rightarrow> buf \<Rightarrow> nat \<Rightarrow> nat \<Rightarrow> nat" where
  "rll_run c inp tcnt run =
     (if run < tcnt \<and> rd inp run = Some c then rll_run c inp tcnt (run + 1) else run)"
  by pat_completeness auto
termination
  by (relation "measure (\<lambda>(c, inp, tcnt, run). tcnt - run)") auto

declare rll_run.simps [simp del]

record rll_out =
  out :: buf
  hdr :: "nat option"
  vrun :: u32

text \<open>The branch for a run shorter than three bytes: one more verbatim byte.\<close>

definition rll_verbatim :: "byte \<Rightarrow> rll_out \<Rightarrow> rll_out option" where
  "rll_verbatim c s =
     (let s = (if 128 \<le> vrun s
               then \<lparr>out = out s @ [0], hdr = Some (length (out s)), vrun = 0\<rparr> else s);
          o' = out s @ [c]; v = vrun s + 1
      in do { h \<leftarrow> hdr s; o'' \<leftarrow> wr o' h (ucast v);
              Some \<lparr>out = o'', hdr = hdr s, vrun = v\<rparr> })"

text \<open>
  The branch for a longer run. \<open>*(uint16_t *) o = run + (224 << 8)\<close> stores the high
  byte at the higher address, which is the one written first in this order.
\<close>

definition rll_repeat :: "byte \<Rightarrow> nat \<Rightarrow> rll_out \<Rightarrow> rll_out" where
  "rll_repeat c run s =
     (let w = (of_nat run + push_bit 8 224 :: u16);
          o' = (if run < 224 - 126 then out s @ [of_nat (run + 126)]
                else out s @ [ucast (drop_bit 8 w), ucast w])
      in s\<lparr>out := o' @ [c], vrun := - 1\<rparr>)"

lemma rll_run_ge: "run \<le> rll_run c inp tcnt run"
  by (induction c inp tcnt run rule: rll_run.induct) (subst rll_run.simps, auto)

lemma rll_run_le: "run \<le> tcnt \<Longrightarrow> rll_run c inp tcnt run \<le> tcnt"
  by (induction c inp tcnt run rule: rll_run.induct) (subst rll_run.simps, auto)

function rllpack_loop :: "buf \<Rightarrow> rll_out \<Rightarrow> rll_out option" where
  "rllpack_loop inp s =
     (case inp of [] \<Rightarrow> Some s
      | c # rest \<Rightarrow>
          (let tcnt = (if 8191 < length inp then 8191 else length inp);
               run = rll_run c inp tcnt 1
           in if run < 3 then Option.bind (rll_verbatim c s) (rllpack_loop rest)
              else rllpack_loop (drop run inp) (rll_repeat c run s)))"
  by pat_completeness auto
termination
  by (relation "measure (\<lambda>(inp, s). length inp)") auto

declare rllpack_loop.simps [simp del]

definition rllpack :: "buf \<Rightarrow> buf option" where
  "rllpack inp =
     map_option (\<lambda>s. out s @ [0]) (rllpack_loop inp \<lparr>out = [], hdr = None, vrun = - 1\<rparr>)"

subsection \<open>The unpacker\<close>

text \<open>
  One iteration consumes a code byte and its operands; the result is the unpacked data
  and the packed bytes that are left, as \<open>regs->edi\<close> and \<open>regs->esi\<close> tell the
  caller.
\<close>

function rllunpack_loop :: "buf \<Rightarrow> buf \<Rightarrow> (buf \<times> buf) option" where
  "rllunpack_loop inp acc =
     (case inp of [] \<Rightarrow> None
      | c # r \<Rightarrow>
          if c = 0 then Some (acc, r)
          else if c \<le> 128
          then (if unat c \<le> length r
                then rllunpack_loop (drop (unat c) r) (acc @ take (unat c) r) else None)
          else if c < 224
          then (case r of [] \<Rightarrow> None
                | b # r' \<Rightarrow> rllunpack_loop r' (acc @ replicate (unat c - 126) b))
          else (case r of lo # b # r' \<Rightarrow>
                  rllunpack_loop r' (acc @ replicate ((unat c - 224) * 256 + unat lo) b)
                | _ \<Rightarrow> None))"
  by pat_completeness auto
termination
  by (relation "measure (\<lambda>(inp, acc). length inp)") auto

declare rllunpack_loop.simps [simp del]

definition rllunpack :: "buf \<Rightarrow> (buf \<times> buf) option" where
  "rllunpack inp = rllunpack_loop inp []"

subsection \<open>The packed format\<close>

text \<open>
  The format the comment of the file describes, as a list of tokens: at most 128
  verbatim bytes, or a run of 3 to 8191 equal bytes.
\<close>

datatype token = Verbatim buf | Run nat byte

fun token_ok :: "token \<Rightarrow> bool" where
  "token_ok (Verbatim bs) = (1 \<le> length bs \<and> length bs \<le> 128)"
| "token_ok (Run n b) = (3 \<le> n \<and> n \<le> 8191)"

fun token_bytes :: "token \<Rightarrow> buf" where
  "token_bytes (Verbatim bs) = bs"
| "token_bytes (Run n b) = replicate n b"

fun token_code :: "token \<Rightarrow> buf" where
  "token_code (Verbatim bs) = of_nat (length bs) # bs"
| "token_code (Run n b) =
     (if n < 98 then [of_nat (n + 126), b] else [of_nat (224 + n div 256), of_nat n, b])"

abbreviation tokens_code :: "token list \<Rightarrow> buf" where
  "tokens_code ts \<equiv> concat (map token_code ts)"

abbreviation tokens_bytes :: "token list \<Rightarrow> buf" where
  "tokens_bytes ts \<equiv> concat (map token_bytes ts)"

text \<open>The unpacker implements the format.\<close>

lemma unpack_token:
  assumes "token_ok t"
  shows "rllunpack_loop (token_code t @ r) acc = rllunpack_loop r (acc @ token_bytes t)"
proof (cases t)
  case (Verbatim bs)
  then have u: "unat (of_nat (length bs) :: byte) = length bs"
    using assms by (simp add: unat_of_nat)
  have "(of_nat (length bs) :: byte) \<noteq> 0" "(of_nat (length bs) :: byte) \<le> 128"
    using assms u Verbatim by (auto simp: word_le_nat_alt unat_eq_0 [symmetric])
  then show ?thesis
    using Verbatim u by (subst rllunpack_loop.simps) simp
next
  case (Run n b)
  show ?thesis
  proof (cases "n < 98")
    case True
    then have u: "unat (of_nat (n + 126) :: byte) = n + 126"
      by (subst unat_of_nat) simp
    have "(of_nat (n + 126) :: byte) \<noteq> 0" "\<not> (of_nat (n + 126) :: byte) \<le> 128"
      "(of_nat (n + 126) :: byte) < 224"
      using assms u Run True
      by (simp_all del: of_nat_add add: word_le_nat_alt word_less_nat_alt unat_eq_0 [symmetric])
    then show ?thesis
      using Run True u by (subst rllunpack_loop.simps) (simp del: of_nat_add)
  next
    case False
    have d: "n div 256 \<le> 31"
      using assms Run div_le_mono [of n 8191 256] by simp
    then have u: "unat (of_nat (224 + n div 256) :: byte) = 224 + n div 256"
      by (subst unat_of_nat) simp
    have l: "unat (of_nat n :: byte) = n mod 256"
      by (simp add: unat_of_nat)
    have "(of_nat (224 + n div 256) :: byte) \<noteq> 0" "\<not> (of_nat (224 + n div 256) :: byte) \<le> 128"
      "\<not> (of_nat (224 + n div 256) :: byte) < 224"
      using u
      by (simp_all del: of_nat_add add: word_le_nat_alt word_less_nat_alt unat_eq_0 [symmetric])
    then show ?thesis
      using Run False u l
      by (subst rllunpack_loop.simps) (simp del: of_nat_add add: mult.commute)
  qed
qed

lemma unpack_tokens:
  assumes "\<forall>t \<in> set ts. token_ok t"
  shows "rllunpack_loop (tokens_code ts @ r) acc = rllunpack_loop r (acc @ tokens_bytes ts)"
  using assms by (induction ts arbitrary: acc) (simp_all add: unpack_token)

subsection \<open>The packer writes that format\<close>

text \<open>
  \<open>packed ts s\<close>: the output holds the tokens \<open>ts\<close>, and when the header is still open
  (\<open>vrun < 128\<close>) the last of them is the verbatim token it counts.
\<close>

definition packed :: "token list \<Rightarrow> rll_out \<Rightarrow> bool" where
  "packed ts s \<longleftrightarrow> out s = tokens_code ts \<and> (\<forall>t \<in> set ts. token_ok t) \<and>
     (vrun s < 128 \<longrightarrow>
        (\<exists>us bs. ts = us @ [Verbatim bs] \<and> hdr s = Some (length (tokens_code us)) \<and>
                 vrun s = of_nat (length bs)))"

lemma packed_verbatim:
  assumes "packed ts s"
  shows "\<exists>s' ts'. rll_verbatim c s = Some s' \<and> packed ts' s' \<and>
           tokens_bytes ts' = tokens_bytes ts @ [c]"
proof (cases "128 \<le> vrun s")
  case True
  let ?ts = "ts @ [Verbatim [c]]"
  have "rll_verbatim c s =
      Some \<lparr>out = tokens_code ?ts, hdr = Some (length (tokens_code ts)), vrun = 1\<rparr>"
    using True assms by (simp add: rll_verbatim_def packed_def wr_def list_update_append)
  moreover have "packed ?ts \<lparr>out = tokens_code ?ts, hdr = Some (length (tokens_code ts)), vrun = 1\<rparr>"
    using assms by (auto simp: packed_def)
  ultimately show ?thesis by (intro exI conjI) auto
next
  case False
  then obtain us bs where ts: "ts = us @ [Verbatim bs]"
    and h: "hdr s = Some (length (tokens_code us))" and v: "vrun s = of_nat (length bs)"
    using assms by (auto simp: packed_def not_le)
  have ok: "token_ok (Verbatim bs)" using assms ts by (simp add: packed_def)
  have "unat (of_nat (length bs) :: u32) = length bs"
    using ok by (subst unat_of_nat) simp
  then have l: "length bs < 128"
    using False v by (simp add: word_le_nat_alt not_le)
  let ?ts = "us @ [Verbatim (bs @ [c])]"
  let ?s = "\<lparr>out = tokens_code ?ts, hdr = Some (length (tokens_code us)),
             vrun = of_nat (Suc (length bs))\<rparr>"
  have v': "vrun s + 1 = of_nat (Suc (length bs))" using v by simp
  have "(ucast (of_nat (Suc (length bs)) :: u32) :: byte) = of_nat (Suc (length bs))"
    using l by (simp only: word_unat_eq_iff unat_ucast unat_of_nat) simp
  then have "rll_verbatim c s = Some ?s"
    using False assms h v' ts
    by (simp del: of_nat_Suc
             add: rll_verbatim_def packed_def wr_def list_update_append Let_def not_le)
  moreover have "packed ?ts ?s"
    using assms ts l by (auto simp: packed_def)
  ultimately show ?thesis using ts by (intro exI conjI) auto
qed

lemma packed_repeat:
  assumes "packed ts s" and "3 \<le> n" and "n \<le> 8191"
  shows "packed (ts @ [Run n c]) (rll_repeat c n s)"
proof -
  have "out (rll_repeat c n s) = tokens_code (ts @ [Run n c])"
  proof (cases "n < 98")
    case True
    then show ?thesis using assms by (simp add: rll_repeat_def packed_def Let_def)
  next
    case False
    let ?w = "of_nat n + push_bit 8 224 :: u16"
    have "unat ?w = n + 57344"
      using assms by (simp add: unat_word_ariths unat_of_nat push_bit_eq_mult)
    moreover from this have "unat (drop_bit 8 ?w) = n div 256 + 224"
      by (simp only: unat_drop_bit_eq) (simp add: drop_bit_eq_div)
    moreover have "n div 256 \<le> 31" "(n + 57344) mod 256 = n mod 256"
      using assms(3) div_le_mono [of n 8191 256] mod_mult_self1 [of n 224 256] by simp_all
    ultimately have "unat (ucast (drop_bit 8 ?w) :: byte) = 224 + n div 256"
      "unat (ucast ?w :: byte) = n mod 256"
      by (simp_all only: unat_ucast) simp_all
    then have "(ucast (drop_bit 8 ?w) :: byte) = of_nat (224 + n div 256)"
      "(ucast ?w :: byte) = of_nat n"
      using \<open>n div 256 \<le> 31\<close> by (simp_all only: word_unat_eq_iff unat_of_nat) simp_all
    then show ?thesis using False assms(1)
      by (simp add: rll_repeat_def packed_def Let_def)
  qed
  then show ?thesis using assms by (simp add: packed_def rll_repeat_def Let_def)
qed

text \<open>The run that was counted is a run of the input.\<close>

lemma rll_run_replicate:
  assumes "take run inp = replicate run c" and "run \<le> length inp" and "tcnt \<le> length inp"
  shows "take (rll_run c inp tcnt run) inp = replicate (rll_run c inp tcnt run) c"
  using assms
proof (induction c inp tcnt run rule: rll_run.induct)
  case (1 c inp tcnt run)
  show ?case
  proof (cases "run < tcnt \<and> rd inp run = Some c")
    case True
    then have "take (run + 1) inp = replicate (run + 1) c"
      using 1 by (auto simp: take_Suc_snoc rd_eq_Some replicate_append_same)
    with 1 True show ?thesis by (subst (1 2) rll_run.simps) simp
  next
    case False
    with 1 show ?thesis by (subst (1 2) rll_run.simps) auto
  qed
qed

lemma rllpack_loop_packed:
  assumes "packed ts s"
  shows "\<exists>s' ts'. rllpack_loop inp s = Some s' \<and> packed ts' s' \<and>
           tokens_bytes ts' = tokens_bytes ts @ inp"
  using assms
proof (induction inp s arbitrary: ts rule: rllpack_loop.induct)
  case (1 inp s)
  show ?case
  proof (cases inp)
    case Nil
    with "1.prems" show ?thesis by (auto simp: rllpack_loop.simps)
  next
    case (Cons c rest)
    define tcnt where "tcnt = (if 8191 < length inp then 8191 else length inp)"
    define run where "run = rll_run c inp tcnt 1"
    have b: "run \<le> 8191" "run \<le> length inp"
      using rll_run_le [of 1 tcnt c inp] Cons by (auto simp: run_def tcnt_def split: if_splits)
    show ?thesis
    proof (cases "run < 3")
      case True
      obtain s1 ts1 where s1: "rll_verbatim c s = Some s1" "packed ts1 s1"
        "tokens_bytes ts1 = tokens_bytes ts @ [c]"
        using packed_verbatim [OF "1.prems"] by blast
      have "rllpack_loop inp s = rllpack_loop rest s1"
        using Cons True s1 by (subst rllpack_loop.simps) (simp add: run_def tcnt_def)
      then show ?thesis
        using "1.IH"(1) [OF Cons tcnt_def run_def True s1(1) s1(2)] s1(3) Cons by simp
    next
      case False
      have p: "packed (ts @ [Run run c]) (rll_repeat c run s)"
        using packed_repeat [OF "1.prems"] False b by simp
      have t: "take run inp = replicate run c"
        unfolding run_def using Cons by (intro rll_run_replicate) (auto simp: tcnt_def)
      then have i: "inp = replicate run c @ drop run inp"
        by (metis append_take_drop_id)
      have "rllpack_loop inp s = rllpack_loop (drop run inp) (rll_repeat c run s)"
        using Cons False by (subst rllpack_loop.simps) (simp add: run_def tcnt_def Let_def)
      then show ?thesis
        using "1.IH"(2) [OF Cons tcnt_def run_def False p] i by auto
    qed
  qed
qed

subsection \<open>Properties\<close>

text \<open>C23. Packing never stores through the null header pointer, and unpacking what was
  packed gives back the input and leaves exactly the bytes that followed the packed data.\<close>

theorem rllunpack_rllpack:
  "\<exists>p. rllpack inp = Some p \<and> (\<forall>rest. rllunpack (p @ rest) = Some (inp, rest))"
proof -
  have "packed [] \<lparr>out = [], hdr = None, vrun = - 1\<rparr>"
    by (simp add: packed_def)
  then obtain s ts where s: "rllpack_loop inp \<lparr>out = [], hdr = None, vrun = - 1\<rparr> = Some s"
    "packed ts s" "tokens_bytes ts = inp"
    using rllpack_loop_packed by fastforce
  have "rllunpack_loop (tokens_code ts @ 0 # rest) [] = Some (inp, rest)" for rest
    using s(2,3) by (subst unpack_tokens) (auto simp: packed_def rllunpack_loop.simps)
  then show ?thesis
    using s(1,2) by (auto simp: rllpack_def rllunpack_def packed_def)
qed

end
