(* ===== verification/RangeMap.thy ===== *)
theory RangeMap
  imports Prelude
begin

section \<open>Memory maps as sorted lists of range starts\<close>

text \<open>
  \<open>com32/lib/syslinux/zonelist.c\<close> (a linked list) and \<open>memdisk/e820func.c\<close> (an
  array) both represent a map from all of memory to a type by the start addresses at
  which the type changes. This theory holds what the two share: the abstract meaning of
  such a list, and the interface that their insert operations implement, as a locale
  with the lemmas that clients of either use.
\<close>

type_synonym ('w, 't) ranges = "('w word \<times> 't) list"

text \<open>
  The type of address \<open>a\<close> is that of the last range that starts at or below it; \<open>d\<close>
  is the type of the addresses below the first range.
\<close>

fun rlook :: "'t \<Rightarrow> ('w::len, 't) ranges \<Rightarrow> 'w word \<Rightarrow> 't" where
  "rlook d [] a = d"
| "rlook d ((s, t) # rs) a = (if a < s then d else rlook t rs a)"

definition rlast :: "'t \<Rightarrow> ('w::len, 't) ranges \<Rightarrow> 't" where
  "rlast d rs = (if rs = [] then d else snd (last rs))"

definition rsorted :: "('w::len, 't) ranges \<Rightarrow> bool" where
  "rsorted rs \<longleftrightarrow> sorted_wrt (<) (map fst rs)"

definition rwf :: "('w::len, 't) ranges \<Rightarrow> bool" where
  "rwf rs \<longleftrightarrow> rs \<noteq> [] \<and> fst (hd rs) = 0 \<and> rsorted rs"

text \<open>No two neighbours have the same type: the map is as short as it can be.\<close>

definition rcompact :: "('w::len, 't) ranges \<Rightarrow> bool" where
  "rcompact rs \<longleftrightarrow> successively (\<noteq>) (map snd rs)"

subsection \<open>Lookup lemmas\<close>

lemma rlast_simps [simp]:
  "rlast d [] = d" "rlast d (rs @ [r]) = snd r" "rlast d (r # rs) = rlast (snd r) rs"
  by (auto simp: rlast_def)

lemma rlast_append: "rlast d (rs @ ss) = rlast (rlast d rs) ss"
  by (auto simp: rlast_def)

lemma rlook_below: "\<forall>r \<in> set rs. a < fst r \<Longrightarrow> rlook d rs a = d"
  by (cases rs) auto

lemma rlook_prefix: "\<forall>r \<in> set ss. a < fst r \<Longrightarrow> rlook d (rs @ ss) a = rlook d rs a"
  by (induction d rs a rule: rlook.induct) (auto simp: rlook_below)

lemma rlook_above:
  "\<forall>r \<in> set rs. fst r \<le> a \<Longrightarrow> rlook d (rs @ ss) a = rlook (rlast d rs) ss a"
  by (induction d rs a rule: rlook.induct) (auto simp: not_less)

lemma rsorted_append:
  "rsorted (rs @ ss) \<longleftrightarrow> rsorted rs \<and> rsorted ss \<and> (\<forall>r \<in> set rs. \<forall>s \<in> set ss. fst r < fst s)"
  by (auto simp: rsorted_def sorted_wrt_append)

lemma rsorted_Cons: "rsorted (r # rs) \<longleftrightarrow> (\<forall>s \<in> set rs. fst r < fst s) \<and> rsorted rs"
  by (auto simp: rsorted_def)

lemma rsorted_Nil [simp]: "rsorted []"
  by (simp add: rsorted_def)

lemmas rsorted_simps = rsorted_append rsorted_Cons

lemma rsorted_overwritten:
  assumes "rsorted P" "\<forall>r \<in> set P. fst r < s" "rsorted M" "\<forall>r \<in> set M. s < fst r \<and> fst r \<le> e"
    and "rsorted S" "\<forall>r \<in> set S. e < fst r" "s \<le> e"
  shows "rsorted (P @ (s, t) # M @ S)"
proof -
  have "\<forall>r \<in> set S. s < fst r" using assms by (auto intro: order.strict_trans1)
  moreover from this have "\<forall>p \<in> set P. \<forall>r \<in> set M \<union> set S. fst p < fst r"
    using assms by (auto intro: order.strict_trans)
  moreover have "\<forall>p \<in> set M. \<forall>r \<in> set S. fst p < fst r"
    using assms by (auto intro: order.strict_trans1)
  ultimately show ?thesis using assms by (simp add: rsorted_simps ball_Un)
qed

lemma rlook_append_cong:
  "(\<And>d. rlook d ss a = rlook d ss' a) \<Longrightarrow> rlook d (rs @ ss) a = rlook d (rs @ ss') a"
  by (induction d rs a rule: rlook.induct) auto

text \<open>
  The lemma both implementations rest on. The ranges \<open>mid\<close> that start inside
  \<open>[s, e]\<close> are replaced: the type \<open>t\<close> starts at \<open>s\<close> (unless it was in force there
  already) and the type that was in force at the end resumes after \<open>e\<close>.
\<close>

lemma rlook_overwrite:
  assumes pre: "\<forall>r \<in> set pre. fst r < s"
    and mid: "\<forall>r \<in> set mid. s \<le> fst r \<and> fst r \<le> e"
    and suf: "\<forall>r \<in> set suf. e < fst r"
    and se: "s \<le> e"
    and P: "P = pre @ [(s, t)] \<or> P = pre \<and> rlast d pre = t"
    and S: "(e + 1, rlast d (pre @ mid)) # suf = S \<and> e < e + 1 \<or>
            S = suf \<and> t = rlast d (pre @ mid) \<or>
            (\<exists>u. suf = (e + 1, u) # S \<and> t = u) \<or>
            (\<exists>u suf'. suf = (e + 1, u) # suf' \<and> S = suf) \<or> S = suf \<and> e = - 1"
  shows "rlook d (P @ S) a =
           (if s \<le> a \<and> a \<le> e then t else rlook d (pre @ mid @ suf) a)"
proof -
  have Se: "e < fst r" if "r \<in> set S" for r
    using S suf that by auto
  consider "a < s" | "s \<le> a" "a \<le> e" | "e < a" by fastforce
  then show ?thesis
  proof cases
    case 1
    then have "\<forall>r \<in> set S. a < fst r" "\<forall>r \<in> set (mid @ suf). a < fst r"
      using Se se mid suf by (auto intro: order.strict_trans order.strict_trans1 order.strict_trans2)
    then have "rlook d (P @ S) a = rlook d P a" "rlook d (pre @ mid @ suf) a = rlook d pre a"
      by (simp_all only: rlook_prefix)
    moreover have "rlook d P a = rlook d pre a"
      using P 1 by (auto simp: rlook_prefix)
    ultimately show ?thesis using 1 by (simp add: not_le [symmetric])
  next
    case 2
    then have "\<forall>r \<in> set S. a < fst r" "\<forall>r \<in> set P. fst r \<le> a"
      using Se pre P by (fastforce intro: order.strict_trans1)+
    then have "rlook d (P @ S) a = rlast d P"
      by (simp add: rlook_above rlook_below)
    then show ?thesis using 2 P by auto
  next
    case 3
    then have P': "\<forall>r \<in> set P. fst r \<le> a" "\<forall>r \<in> set (pre @ mid). fst r \<le> a"
      using pre mid P se by fastforce+
    have "rlook d (P @ S) a = rlook t S a"
      using P by (subst rlook_above [OF P'(1)]) auto
    moreover have "rlook d (pre @ mid @ suf) a = rlook (rlast d (pre @ mid)) suf a"
      using rlook_above [OF P'(2), of d suf] by simp
    moreover have "rlook t S a = rlook (rlast d (pre @ mid)) suf a"
      using S
    proof (elim disjE exE conjE)
      fix u assume "suf = (e + 1, u) # S" "t = u"
      then show ?thesis using 3 suf by (auto dest: inc_le)
    next
      fix u suf' assume "suf = (e + 1, u) # suf'" "S = suf"
      then show ?thesis using 3 by (auto dest: inc_le)
    next
      assume "S = suf" "e = - 1"
      then show ?thesis using 3 by simp
    next
      assume "(e + 1, rlast d (pre @ mid)) # suf = S"
      moreover have "\<not> a < e + 1" using inc_le [OF 3] by (simp add: not_less)
      ultimately show ?thesis by auto
    qed simp
    ultimately show ?thesis using 3 by auto
  qed
qed

subsection \<open>The interface of a memory map\<close>

text \<open>
  What a client of either map relies on. \<open>put m s l t\<close> overwrites the \<open>l\<close> bytes from
  \<open>s\<close> with type \<open>t\<close>; \<open>fits n m\<close> says that there is room (free heap nodes, free array
  slots) for \<open>n\<close> more of them.
\<close>

abbreviation no_wrap :: "'w::len word \<Rightarrow> 'w word \<Rightarrow> bool" where
  "no_wrap s l \<equiv> unat s + unat l \<le> 2 ^ LENGTH('w)"

abbreviation covers :: "'w::len word \<Rightarrow> 'w word \<Rightarrow> 'w word \<Rightarrow> bool" where
  "covers s l a \<equiv> l \<noteq> 0 \<and> s \<le> a \<and> a \<le> s + l - 1"

lemma less_inc_self: "(v :: 'w::len word) \<noteq> - 1 \<Longrightarrow> v < v + 1"
  by (metis inc_less_eq_self_iff_eq linorder_not_less)

lemma no_wrap_last:
  fixes start len :: "'w::len word"
  assumes "no_wrap start len" and "len \<noteq> 0"
  shows "start \<le> start + len - 1" "unat (start + len - 1) = unat start + unat len - 1"
proof -
  have l: "unat (len - 1) = unat len - 1" "0 < unat len"
    using assms by (auto simp: unat_minus_one unat_gt_0)
  then have "unat (start + (len - 1)) = unat start + unat (len - 1)"
    using assms by (intro unat_add_id) simp
  moreover have "start + (len - 1) = start + len - 1" by simp
  ultimately show "unat (start + len - 1) = unat start + unat len - 1"
    using l by simp
  then show "start \<le> start + len - 1"
    using l by (simp add: word_le_nat_alt)
qed

text \<open>Entering a whole list of ranges, as the memory scanners of both programs do, and
  what an address must hold afterwards: the type of the last range that covers it.\<close>

fun put_all :: "('m \<Rightarrow> 'w::len word \<Rightarrow> 'w word \<Rightarrow> 't \<Rightarrow> 'm option) \<Rightarrow> 'm \<Rightarrow>
    ('w word \<times> 'w word \<times> 't) list \<Rightarrow> 'm option" where
  "put_all put m [] = Some m"
| "put_all put m ((s, l, t) # rs) = Option.bind (put m s l t) (\<lambda>m'. put_all put m' rs)"

fun written :: "'t \<Rightarrow> ('w::len word \<times> 'w word \<times> 't) list \<Rightarrow> 'w word \<Rightarrow> 't" where
  "written d [] a = d"
| "written d ((s, l, t) # rs) a = written (if covers s l a then t else d) rs a"

locale memory_map =
  fixes look :: "'m \<Rightarrow> 'w::len word \<Rightarrow> 't"
    and put :: "'m \<Rightarrow> 'w word \<Rightarrow> 'w word \<Rightarrow> 't \<Rightarrow> 'm option"
    and invar :: "'m \<Rightarrow> bool"
    and fits :: "nat \<Rightarrow> 'm \<Rightarrow> bool"
    and okt :: "'t \<Rightarrow> bool"
  assumes put_ok:
    "invar m \<Longrightarrow> fits (Suc n) m \<Longrightarrow> okt t \<Longrightarrow> no_wrap s l \<Longrightarrow>
     \<exists>m'. put m s l t = Some m' \<and> invar m' \<and> fits n m' \<and>
          (\<forall>a. look m' a = (if covers s l a then t else look m a))"
begin

lemma put_all_look:
  assumes "invar m" and "fits (length rs) m"
    and "\<forall>(s, l, t) \<in> set rs. okt t \<and> no_wrap s l"
  shows "\<exists>m'. put_all put m rs = Some m' \<and> invar m' \<and> (\<forall>a. look m' a = written (look m a) rs a)"
  using assms
proof (induction rs arbitrary: m)
  case (Cons r rs)
  obtain s l t where r: "r = (s, l, t)" by (cases r)
  with Cons.prems obtain m1 where m1: "put m s l t = Some m1" "invar m1" "fits (length rs) m1"
    "\<forall>a. look m1 a = (if covers s l a then t else look m a)"
    using put_ok [of m "length rs" t s l] by auto
  then obtain m2 where "put_all put m1 rs = Some m2" "invar m2"
    "\<forall>a. look m2 a = written (look m1 a) rs a"
    using Cons.IH [of m1] Cons.prems by auto
  with r m1 show ?case by auto
qed simp

end

end
