(* ===== verification/Zonelist.thy ===== *)
theory Zonelist
  imports RangeMap
begin

section \<open>com32/lib/syslinux/zonelist.c: the memory map\<close>

text \<open>
  A \<open>syslinux_memmap\<close> is a singly linked list of zones, sorted by start address and
  closed by an end token of type \<open>SMT_END\<close> and start 0. The model keeps the list
  itself, its last node being the end token; following a null \<open>next\<close> pointer is the
  result \<open>None\<close>. The operations that change a list take the outcome of the calls of
  \<open>malloc\<close> as a parameter \<open>ok\<close>: \<open>ok n\<close> says whether the \<open>n\<close>-th allocation of the
  run succeeds, and the next number is returned. Addresses are 32-bit words, and the
  code's \<open>mp->start - 1\<close> on the end token is \<open>0xffffffff\<close> as in C.
\<close>

type_synonym addr_t = u32

datatype syslinux_memmap_types =
  SMT_ERROR | SMT_END | SMT_UNDEFINED | SMT_FREE | SMT_RESERVED | SMT_ALLOC | SMT_ZERO
| SMT_TERMINAL

record zone =
  zstart :: addr_t
  ztype :: syslinux_memmap_types

type_synonym memmap = "zone list"

definition valid_terminal_type :: "syslinux_memmap_types \<Rightarrow> bool" where
  "valid_terminal_type t \<longleftrightarrow> t = SMT_FREE \<or> t = SMT_TERMINAL"

definition align_down :: "u32 \<Rightarrow> u32 \<Rightarrow> u32" where
  "align_down p a = p AND NOT (a - 1)"

definition align_up :: "u32 \<Rightarrow> u32 \<Rightarrow> u32" where
  "align_up p a = (p + a - 1) AND NOT (a - 1)"

subsection \<open>Operations\<close>

abbreviation end_token :: zone where
  "end_token \<equiv> \<lparr>zstart = 0, ztype = SMT_END\<rparr>"

definition syslinux_init_memmap :: "(nat \<Rightarrow> bool) \<Rightarrow> nat \<Rightarrow> memmap option \<times> nat" where
  "syslinux_init_memmap ok n =
     (if \<not> ok n then (None, n + 1)
      else if \<not> ok (n + 1) then (None, n + 2)
      else (Some [\<lparr>zstart = 0, ztype = SMT_UNDEFINED\<rparr>, end_token], n + 2))"

text \<open>
  The two loops of \<open>syslinux_add_memmap\<close>. The parent pointer \<open>mpp\<close> splits the list:
  the nodes before it, and the ones from \<open>*mpp\<close> on.
\<close>

fun add_seek :: "addr_t \<Rightarrow> memmap \<Rightarrow> syslinux_memmap_types \<Rightarrow> memmap \<Rightarrow>
    memmap \<times> syslinux_memmap_types \<times> memmap" where
  "add_seek start pre oldtype [] = (pre, oldtype, [])"
| "add_seek start pre oldtype (mp # rest) =
     (if start > zstart mp \<and> ztype mp \<noteq> SMT_END
      then add_seek start (pre @ [mp]) (ztype mp) rest
      else (pre, oldtype, mp # rest))"

fun add_trim :: "addr_t \<Rightarrow> syslinux_memmap_types \<Rightarrow> memmap \<Rightarrow> syslinux_memmap_types \<times> memmap" where
  "add_trim lst oldtype [] = (oldtype, [])"
| "add_trim lst oldtype (mp # rest) =
     (if lst > zstart mp - 1 then add_trim lst (ztype mp) rest else (oldtype, mp # rest))"

text \<open>The second half of the function, from the second loop on.\<close>

definition add_finish :: "(nat \<Rightarrow> bool) \<Rightarrow> nat \<Rightarrow> addr_t \<Rightarrow> syslinux_memmap_types \<Rightarrow>
    memmap \<Rightarrow> syslinux_memmap_types \<Rightarrow> memmap \<Rightarrow> (int \<times> memmap \<times> nat) option" where
  "add_finish ok n lst typ pre oldtype suf =
     (let (oldtype, suf) = add_trim lst oldtype suf in
      case suf of [] \<Rightarrow> None
      | mp # rest \<Rightarrow>
          if lst < zstart mp - 1 then
            (if oldtype \<noteq> typ then
               (if ok n
                then Some (0, pre @ \<lparr>zstart = lst + 1, ztype = oldtype\<rparr> # mp # rest, n + 1)
                else Some (- 1, pre @ mp # rest, n + 1))
             else Some (0, pre @ mp # rest, n))
          else if ztype mp = typ then Some (0, pre @ rest, n)
          else Some (0, pre @ mp # rest, n))"

definition syslinux_add_memmap :: "(nat \<Rightarrow> bool) \<Rightarrow> nat \<Rightarrow> memmap \<Rightarrow> addr_t \<Rightarrow> addr_t \<Rightarrow>
    syslinux_memmap_types \<Rightarrow> (int \<times> memmap \<times> nat) option" where
  "syslinux_add_memmap ok n list start len typ =
     (if len = 0 then Some (0, list, n)
      else let lst = start + len - 1; (pre, oldtype, suf) = add_seek start [] SMT_END list in
        case suf of [] \<Rightarrow> None
        | mp # rest \<Rightarrow>
            if start < zstart mp \<or> ztype mp = SMT_END then
              (if typ \<noteq> oldtype then
                 (if ok n
                  then add_finish ok (n + 1) lst typ (pre @ [\<lparr>zstart = start, ztype = typ\<rparr>])
                         oldtype suf
                  else Some (- 1, list, n + 1))
               else add_finish ok n lst typ pre oldtype suf)
            else if typ \<noteq> oldtype
            then add_finish ok n lst typ (pre @ [mp\<lparr>ztype := typ\<rparr>]) (ztype mp) rest
            else add_finish ok n lst typ pre oldtype suf)"

text \<open>\<open>syslinux_memmap_type\<close>: the inner loop, entered when the region crosses the end of the
  zone it starts in, and the outer one.\<close>

fun type_cross :: "addr_t \<Rightarrow> memmap \<Rightarrow> syslinux_memmap_types option" where
  "type_cross lst [] = None"
| "type_cross lst (z # list) =
     (if valid_terminal_type (ztype z)
      then (case list of z' # z'' # _ \<Rightarrow>
              if zstart z'' - 1 \<ge> lst then Some SMT_TERMINAL else type_cross lst list
            | _ \<Rightarrow> None)
      else Some SMT_ERROR)"

fun type_loop :: "addr_t \<Rightarrow> addr_t \<Rightarrow> memmap \<Rightarrow> syslinux_memmap_types option" where
  "type_loop start lst [] = None"
| "type_loop start lst (z # list) =
     (if ztype z = SMT_END then Some SMT_ERROR
      else case list of [] \<Rightarrow> None
        | z' # _ \<Rightarrow>
            let llast = zstart z' - 1 in
            if zstart z \<le> start then
              (if llast \<ge> lst then Some (ztype z)
               else if llast \<ge> start then type_cross lst (z # list)
               else type_loop start lst list)
            else type_loop start lst list)"

definition syslinux_memmap_type :: "memmap \<Rightarrow> addr_t \<Rightarrow> addr_t \<Rightarrow> syslinux_memmap_types option" where
  "syslinux_memmap_type list start len = type_loop start (start + len - 1) list"

text \<open>\<open>Some None\<close> is the return value -1, \<open>None\<close> a null pointer followed.\<close>

fun largest_loop :: "syslinux_memmap_types \<Rightarrow> (addr_t \<times> addr_t) option \<Rightarrow> memmap \<Rightarrow>
    (addr_t \<times> addr_t) option option" where
  "largest_loop typ best [] = None"
| "largest_loop typ best (z # list) =
     (if ztype z = SMT_END then Some best
      else case list of [] \<Rightarrow> None
        | z' # _ \<Rightarrow>
            let size = zstart z' - zstart z;
                best_size = (case best of None \<Rightarrow> 0 | Some (_, b) \<Rightarrow> b)
            in if ztype z = typ \<and> size > best_size
               then largest_loop typ (Some (zstart z, size)) list
               else largest_loop typ best list)"

definition syslinux_memmap_largest :: "memmap \<Rightarrow> syslinux_memmap_types \<Rightarrow>
    (addr_t \<times> addr_t) option option" where
  "syslinux_memmap_largest list typ = largest_loop typ None list"

fun highest_loop :: "syslinux_memmap_types \<Rightarrow> addr_t \<Rightarrow> addr_t \<Rightarrow> addr_t \<Rightarrow> addr_t \<Rightarrow>
    addr_t \<Rightarrow> memmap \<Rightarrow> addr_t option" where
  "highest_loop typ start len ceil algn best [] = None"
| "highest_loop typ start len ceil algn best (z # list) =
     (if ztype z = SMT_END then Some best
      else case list of [] \<Rightarrow> None
        | z' # _ \<Rightarrow>
            let size = zstart z' - zstart z in
            if ztype z \<noteq> typ then highest_loop typ start len ceil algn best list
            else if zstart z + size \<le> start then highest_loop typ start len ceil algn best list
            else if zstart z + len \<ge> ceil then highest_loop typ start len ceil algn best list
            else
              let best = (if zstart z + size < ceil then align_down (zstart z + size - len) algn
                          else align_down (ceil - len) algn);
                  best = (if best < start then 0 else best)
              in highest_loop typ start len ceil algn best list)"

definition syslinux_memmap_highest :: "memmap \<Rightarrow> syslinux_memmap_types \<Rightarrow> addr_t \<Rightarrow> addr_t \<Rightarrow>
    addr_t \<Rightarrow> addr_t \<Rightarrow> addr_t option option" where
  "syslinux_memmap_highest list typ start len ceil algn =
     map_option (\<lambda>best. if best = 0 then None else Some best)
       (highest_loop typ start len ceil algn 0 list)"

fun find_type_loop :: "syslinux_memmap_types \<Rightarrow> addr_t \<Rightarrow> addr_t \<Rightarrow> addr_t \<Rightarrow> memmap \<Rightarrow>
    (addr_t \<times> addr_t) option option" where
  "find_type_loop typ min_start min_len algn [] = None"
| "find_type_loop typ min_start min_len algn (z # list) =
     (if ztype z = SMT_END then Some None
      else if ztype z = typ then
        (case list of [] \<Rightarrow> None
         | z' # _ \<Rightarrow>
             let xstart = align_up (if min_start > zstart z then min_start else zstart z) algn;
                 xlen = zstart z' - xstart
             in if xstart < zstart z' \<and> xlen \<ge> min_len then Some (Some (xstart, xlen))
                else find_type_loop typ min_start min_len algn list)
      else find_type_loop typ min_start min_len algn list)"

definition syslinux_memmap_find_type :: "memmap \<Rightarrow> syslinux_memmap_types \<Rightarrow> addr_t \<Rightarrow> addr_t \<Rightarrow>
    addr_t \<Rightarrow> (addr_t \<times> addr_t) option option" where
  "syslinux_memmap_find_type list typ start len algn = find_type_loop typ start len algn list"

text \<open>\<open>syslinux_dup_memmap\<close>: the copy, or \<open>None\<close> when an allocation fails; the nodes copied so
  far are then freed.\<close>

fun syslinux_dup_memmap :: "(nat \<Rightarrow> bool) \<Rightarrow> nat \<Rightarrow> memmap \<Rightarrow> memmap option \<times> nat" where
  "syslinux_dup_memmap ok n [] = (Some [], n)"
| "syslinux_dup_memmap ok n (z # list) =
     (if ok n
      then (case syslinux_dup_memmap ok (n + 1) list of
              (Some l, n') \<Rightarrow> (Some (\<lparr>zstart = zstart z, ztype = ztype z\<rparr> # l), n')
            | (None, n') \<Rightarrow> (None, n'))
      else (None, n + 1))"

fun find_loop :: "u32 \<Rightarrow> u32 \<Rightarrow> addr_t \<Rightarrow> addr_t \<Rightarrow> addr_t \<Rightarrow> addr_t \<Rightarrow> memmap \<Rightarrow>
    addr_t option option" where
  "find_loop sz algn start_min start_max end_min end_max [] = Some None"
| "find_loop sz algn start_min start_max end_min end_max (mp # list) =
     (if ztype mp = SMT_END then Some None
      else case list of [] \<Rightarrow> None
        | mp' # _ \<Rightarrow>
            let start = zstart mp; en = zstart mp' in
            if ztype mp \<noteq> SMT_FREE then find_loop sz algn start_min start_max end_min end_max list
            else if en \<le> end_min then find_loop sz algn start_min start_max end_min end_max list
            else
              let start = (if start < start_min then start_min else start);
                  en = (if en > end_max then end_max else en);
                  start = align_up start algn
              in if start > start_max \<or> start \<ge> en
                 then find_loop sz algn start_min start_max end_min end_max list
                 else if en - start \<ge> sz then Some (Some start)
                 else find_loop sz algn start_min start_max end_min end_max list)"

text \<open>\<open>Some None\<close> is -1, \<open>Some (Some b)\<close> is 0 with \<open>*base = b\<close> on return.\<close>

definition syslinux_memmap_find :: "memmap \<Rightarrow> addr_t \<Rightarrow> u32 \<Rightarrow> bool \<Rightarrow> u32 \<Rightarrow> addr_t \<Rightarrow> addr_t \<Rightarrow>
    addr_t \<Rightarrow> addr_t \<Rightarrow> addr_t option option" where
  "syslinux_memmap_find mmap base sz relocate algn start_min start_max end_min end_max =
     (if sz = 0 then Some (Some base)
      else do {
        typ \<leftarrow> syslinux_memmap_type mmap base sz;
        if valid_terminal_type typ then Some (Some base)
        else if \<not> relocate then Some None
        else find_loop sz algn start_min start_max end_min end_max mmap })"

text \<open>
  \<open>syslinux_memory_map\<close> (\<open>memmap.c\<close>): the registered scanners (\<open>memscan.c\<close>) report ranges to
  a callback that enters them; the first error ends the scan and the map is dropped.
\<close>

fun scan_memory :: "(nat \<Rightarrow> bool) \<Rightarrow> nat \<Rightarrow> memmap \<Rightarrow>
    (addr_t \<times> addr_t \<times> syslinux_memmap_types) list \<Rightarrow> (int \<times> memmap \<times> nat) option" where
  "scan_memory ok n list [] = Some (0, list, n)"
| "scan_memory ok n list ((start, len, typ) # rs) =
     do { (rv, list', n') \<leftarrow> syslinux_add_memmap ok n list start len typ;
          if rv \<noteq> 0 then Some (rv, list', n') else scan_memory ok n' list' rs }"

definition syslinux_memory_map :: "(nat \<Rightarrow> bool) \<Rightarrow>
    (addr_t \<times> addr_t \<times> syslinux_memmap_types) list \<Rightarrow> memmap option option" where
  "syslinux_memory_map ok rs =
     (case syslinux_init_memmap ok 0 of
        (None, _) \<Rightarrow> Some None
      | (Some mmap, n) \<Rightarrow>
          do { (rv, mmap', _) \<leftarrow> scan_memory ok n mmap rs;
               Some (if rv \<noteq> 0 then None else Some mmap') })"

subsection \<open>The invariant and the abstract map\<close>

definition zpair :: "zone \<Rightarrow> addr_t \<times> syslinux_memmap_types" where
  "zpair z = (zstart z, ztype z)"

definition zones :: "memmap \<Rightarrow> (32, syslinux_memmap_types) ranges" where
  "zones list = map zpair (butlast list)"

definition zone_at :: "memmap \<Rightarrow> addr_t \<Rightarrow> syslinux_memmap_types" where
  "zone_at list a = rlook SMT_END (zones list) a"

text \<open>
  What the comment of the file promises: the list is sorted, no two adjacent zones have
  the same type, and every address has one (the first zone starts at 0).
\<close>

definition zl_invar :: "memmap \<Rightarrow> bool" where
  "zl_invar list \<longleftrightarrow> (\<exists>zs. list = zs @ [end_token] \<and> (\<forall>z \<in> set zs. ztype z \<noteq> SMT_END) \<and>
     rwf (map zpair zs) \<and> rcompact (map zpair zs))"

subsection \<open>What the loops compute\<close>

lemma zpair_sel [simp]: "fst (zpair z) = zstart z" "snd (zpair z) = ztype z"
  by (simp_all add: zpair_def)

lemma dec_less_iff: "(w :: addr_t) \<noteq> 0 \<Longrightarrow> v > w - 1 \<longleftrightarrow> w \<le> v"
  by unat_arith

lemma add_seek_split:
  assumes "\<forall>z \<in> set zs. ztype z \<noteq> SMT_END"
  shows "\<exists>p s. zs = p @ s \<and>
     add_seek start pre old (zs @ [end_token]) =
       (pre @ p, rlast old (map zpair p), s @ [end_token]) \<and>
     (\<forall>z \<in> set p. zstart z < start) \<and> (s \<noteq> [] \<longrightarrow> start \<le> zstart (hd s))"
  using assms
proof (induction zs arbitrary: pre old)
  case (Cons z zs)
  show ?case
  proof (cases "zstart z < start")
    case True
    obtain p s where "zs = p @ s" "add_seek start (pre @ [z]) (ztype z) (zs @ [end_token]) =
        ((pre @ [z]) @ p, rlast (ztype z) (map zpair p), s @ [end_token])"
      "\<forall>z \<in> set p. zstart z < start" "s \<noteq> [] \<longrightarrow> start \<le> zstart (hd s)"
      using Cons.IH [of "pre @ [z]" "ztype z"] Cons.prems by (metis list.set_intros(2))
    with True Cons.prems show ?thesis
      by (intro exI [of _ "z # p"] exI [of _ s]) auto
  next
    case False
    then show ?thesis by (intro exI [of _ "[]"] exI [of _ "z # zs"]) auto
  qed
qed simp

lemma add_trim_split:
  assumes "\<forall>z \<in> set zs. zstart z \<noteq> 0" and "rsorted (map zpair zs)"
  shows "\<exists>m s. zs = m @ s \<and>
     add_trim lst old (zs @ [end_token]) = (rlast old (map zpair m), s @ [end_token]) \<and>
     (\<forall>z \<in> set m. zstart z \<le> lst) \<and> (\<forall>z \<in> set s. lst < zstart z)"
  using assms
proof (induction zs arbitrary: old)
  case Nil
  then show ?case by simp
next
  case (Cons z zs)
  show ?case
  proof (cases "zstart z \<le> lst")
    case True
    then have "lst > zstart z - 1" using Cons.prems by (simp add: dec_less_iff)
    moreover obtain m s where "zs = m @ s"
      "add_trim lst (ztype z) (zs @ [end_token]) = (rlast (ztype z) (map zpair m), s @ [end_token])"
      "\<forall>z \<in> set m. zstart z \<le> lst" "\<forall>z \<in> set s. lst < zstart z"
      using Cons.IH [of "ztype z"] Cons.prems by (auto simp: rsorted_simps)
    ultimately show ?thesis
      using True by (intro exI [of _ "z # m"] exI [of _ s]) auto
  next
    case False
    then have "\<not> lst > zstart z - 1" using Cons.prems by (simp add: dec_less_iff)
    moreover have "\<forall>z' \<in> set (z # zs). lst < zstart z'"
      using False Cons.prems by (auto simp: rsorted_simps intro: order.strict_trans)
    ultimately show ?thesis by (intro exI [of _ "[]"] exI [of _ "z # zs"]) auto
  qed
qed

text \<open>How the list continues after the inserted range: with a new end token, with the old
  type still in force, merged with the zone that starts there, or at the top of memory.\<close>

definition resumes :: "addr_t \<Rightarrow> syslinux_memmap_types \<Rightarrow> syslinux_memmap_types \<Rightarrow>
    (32, syslinux_memmap_types) ranges \<Rightarrow> (32, syslinux_memmap_types) ranges \<Rightarrow> bool" where
  "resumes lst typ old suf S \<longleftrightarrow>
     S = (lst + 1, old) # suf \<and> lst < lst + 1 \<and> old \<noteq> typ \<and> (\<forall>r \<in> set suf. lst + 1 < fst r) \<or>
     S = suf \<and> old = typ \<or>
     suf = (lst + 1, typ) # S \<or>
     (\<exists>u suf'. suf = (lst + 1, u) # suf' \<and> S = suf \<and> u \<noteq> typ) \<or>
     suf = [] \<and> S = [] \<and> lst = - 1"

lemma less_dec_iff: "(v :: addr_t) < w \<Longrightarrow> v < w - 1 \<longleftrightarrow> v + 1 < w"
  by unat_arith

lemma add_finish_resumes:
  assumes "\<forall>z \<in> set zs. zstart z \<noteq> 0" and "rsorted (map zpair zs)"
    and "ok n" and "typ \<noteq> SMT_END"
  shows "\<exists>m s S n'. zs = m @ s \<and> (\<forall>z \<in> set m. zstart z \<le> lst) \<and> (\<forall>z \<in> set s. lst < zstart z) \<and>
     add_finish ok n lst typ P old (zs @ [end_token]) = Some (0, P @ S @ [end_token], n') \<and>
     n \<le> n' \<and> n' \<le> n + 1 \<and>
     resumes lst typ (rlast old (map zpair m)) (map zpair s) (map zpair S)"
proof -
  obtain m s where ms: "zs = m @ s" "\<forall>z \<in> set m. zstart z \<le> lst" "\<forall>z \<in> set s. lst < zstart z"
    and t: "add_trim lst old (zs @ [end_token]) = (rlast old (map zpair m), s @ [end_token])"
    using add_trim_split [OF assms(1,2), of lst old] by blast
  let ?old = "rlast old (map zpair m)"
  let ?new = "\<lparr>zstart = lst + 1, ztype = ?old\<rparr>"
  have "\<exists>S n'. add_finish ok n lst typ P old (zs @ [end_token]) = Some (0, P @ S @ [end_token], n') \<and>
     n \<le> n' \<and> n' \<le> n + 1 \<and> resumes lst typ ?old (map zpair s) (map zpair S)"
  proof (cases s)
    case Nil
    show ?thesis
    proof (cases "lst = - 1 \<or> ?old = typ")
      case True
      with t Nil assms(4) show ?thesis
        by (intro exI [of _ "[]"] exI [of _ n]) (auto simp: add_finish_def resumes_def)
    next
      case False
      then have "lst < - 1" "lst < lst + 1"
        by (simp_all add: word_order.not_eq_extremum less_inc_self)
      with t Nil assms(3) False show ?thesis
        by (intro exI [of _ "[?new]"] exI [of _ "n + 1"])
           (simp add: add_finish_def resumes_def zpair_def)
    qed
  next
    case (Cons z s')
    then have lz: "lst < zstart z" using ms by simp
    show ?thesis
    proof (cases "zstart z = lst + 1")
      case True
      with lz have "\<not> lst < zstart z - 1" by simp
      with t Cons True show ?thesis
        by (intro exI [of _ "if ztype z = typ then s' else s"] exI [of _ n])
           (auto simp: add_finish_def resumes_def zpair_def)
    next
      case False
      then have l: "lst + 1 < zstart z"
        using lz by (metis inc_le order.not_eq_order_implies_strict)
      then have b: "lst < zstart z - 1" using lz by (simp add: less_dec_iff)
      have "lst < lst + 1" using lz word_order.extremum_strict by (intro less_inc_self) blast
      moreover have "\<forall>z \<in> set s. lst + 1 < zstart z"
        using l assms(2) ms(1) Cons by (auto simp: rsorted_simps dest: order.strict_trans)
      ultimately show ?thesis
        using t Cons b assms(3)
        by (intro exI [of _ "if ?old = typ then s else ?new # s"]
                  exI [of _ "if ?old = typ then n else n + 1"])
           (auto simp: add_finish_def resumes_def zpair_def)
    qed
  qed
  with ms show ?thesis by metis
qed

subsection \<open>Inserting a range\<close>

text \<open>
  The situation after the two loops: the zones of the list are \<open>pre\<close> (before the new
  range), \<open>mid\<close> (starting inside it) and \<open>suf\<close> (after it), and the new list is \<open>P @ S\<close>.
\<close>

definition overwrites where
  "overwrites pre mid suf start lst ty P S \<longleftrightarrow>
     rwf (pre @ mid @ suf) \<and> rcompact (pre @ mid @ suf) \<and>
     (\<forall>r \<in> set (pre @ mid @ suf). snd r \<noteq> SMT_END) \<and> ty \<noteq> SMT_END \<and>
     (\<forall>r \<in> set pre. fst r < start) \<and> (\<forall>r \<in> set mid. start \<le> fst r \<and> fst r \<le> lst) \<and>
     (\<forall>r \<in> set suf. lst < fst r) \<and> start \<le> lst \<and>
     (P = pre @ [(start, ty)] \<and> rlast SMT_END pre \<noteq> ty \<or> P = pre \<and> rlast SMT_END pre = ty) \<and>
     resumes lst ty (rlast SMT_END (pre @ mid)) suf S"

lemma overwrites_look:
  assumes "overwrites pre mid suf start lst ty P S"
  shows "rlook SMT_END (P @ S) a =
    (if start \<le> a \<and> a \<le> lst then ty else rlook SMT_END (pre @ mid @ suf) a)"
proof (rule rlook_overwrite)
  show "(lst + 1, rlast SMT_END (pre @ mid)) # suf = S \<and> lst < lst + 1 \<or>
        S = suf \<and> ty = rlast SMT_END (pre @ mid) \<or>
        (\<exists>u. suf = (lst + 1, u) # S \<and> ty = u) \<or>
        (\<exists>u suf'. suf = (lst + 1, u) # suf' \<and> S = suf) \<or> S = suf \<and> lst = - 1"
  proof -
    have "resumes lst ty (rlast SMT_END (pre @ mid)) suf S"
      using assms by (simp add: overwrites_def)
    then show ?thesis by (auto simp: resumes_def)
  qed
qed (use assms in \<open>auto simp: overwrites_def\<close>)

lemma overwrites_nonempty:
  assumes "overwrites pre mid suf start lst ty P S"
  shows "pre @ mid \<noteq> []"
proof
  assume e: "pre @ mid = []"
  then have "suf \<noteq> [] \<and> fst (hd suf) = 0" using assms by (auto simp: rwf_def overwrites_def)
  then show False using assms by (cases suf) (auto simp: overwrites_def)
qed

lemma overwrites_noend:
  assumes "overwrites pre mid suf start lst ty P S"
  shows "\<forall>r \<in> set (P @ S). snd r \<noteq> SMT_END"
proof -
  have "rlast SMT_END (pre @ mid) \<noteq> SMT_END"
    using overwrites_nonempty [OF assms] last_in_set [OF overwrites_nonempty [OF assms]] assms
    by (auto simp: rlast_def overwrites_def)
  then show ?thesis using assms by (auto simp: overwrites_def resumes_def)
qed

lemma overwrites_last:
  assumes "overwrites pre mid suf start lst ty P S"
  shows "P \<noteq> []" "snd (last P) = ty"
  using assms by (auto simp: overwrites_def rlast_def split: if_splits)

lemma overwrites_head:
  assumes "overwrites pre mid suf start lst ty P S"
  shows "fst (hd P) = 0"
proof (cases pre)
  case Nil
  then have "mid \<noteq> []" "fst (hd mid) = 0"
    using overwrites_nonempty [OF assms] assms by (auto simp: overwrites_def rwf_def)
  moreover from this have "start \<le> fst (hd mid)"
    using assms hd_in_set [of mid] unfolding overwrites_def by blast
  ultimately have "start = 0" by simp
  with Nil assms show ?thesis by (auto simp: overwrites_def)
next
  case (Cons r rs)
  with assms show ?thesis by (auto simp: overwrites_def rwf_def)
qed

lemma overwrites_wf:
  assumes "overwrites pre mid suf start lst ty P S"
  shows "rwf (P @ S)"
proof -
  have "\<forall>r \<in> set pre. fst r \<le> lst"
    using assms unfolding overwrites_def by (meson less_imp_le order.trans)
  then have "rsorted P" "\<forall>r \<in> set P. fst r \<le> lst"
    using assms by (auto simp: overwrites_def rwf_def rsorted_simps)
  moreover have "rsorted S" "\<forall>r \<in> set S. lst < fst r"
    using assms by (auto simp: overwrites_def resumes_def rwf_def rsorted_simps)
  ultimately have "rsorted (P @ S)"
    by (auto simp: rsorted_append intro: order.strict_trans1)
  then show ?thesis
    using overwrites_last [OF assms] overwrites_head [OF assms] by (simp add: rwf_def)
qed

lemma overwrites_compact:
  assumes "overwrites pre mid suf start lst ty P S"
  shows "rcompact (P @ S)"
proof -
  have "rcompact ((pre @ mid) @ suf)" "pre @ mid \<noteq> []"
    using assms overwrites_nonempty [OF assms] by (simp_all add: overwrites_def)
  then have c: "rcompact pre" "rcompact suf"
    "suf \<noteq> [] \<Longrightarrow> snd (hd suf) \<noteq> rlast SMT_END (pre @ mid)"
    unfolding rcompact_def map_append successively_append_iff
    by (auto simp: rlast_def last_map hd_map last_append split: if_splits)
  have "rcompact P"
    using assms c(1)
    by (auto simp: overwrites_def rcompact_def successively_append_iff rlast_def last_map
             split: if_splits)
  moreover have "rcompact S" "S \<noteq> [] \<Longrightarrow> snd (hd S) \<noteq> ty"
    using assms c(2,3)
    by (auto simp: overwrites_def resumes_def rcompact_def successively_Cons hd_map
             split: list.splits)
  ultimately show ?thesis
    using overwrites_last [OF assms]
    by (auto simp: rcompact_def successively_append_iff last_map hd_map)
qed

lemma overwrites_memmap:
  assumes "overwrites (map zpair p) (map zpair m) (map zpair s) start lst ty (map zpair P) (map zpair S)"
    and "list = p @ m @ s @ [end_token]"
  shows "zl_invar (P @ S @ [end_token])"
    and "zone_at (P @ S @ [end_token]) a = (if start \<le> a \<and> a \<le> lst then ty else zone_at list a)"
proof -
  have "\<forall>z \<in> set (P @ S). ztype z \<noteq> SMT_END"
    using overwrites_noend [OF assms(1)] by (auto simp: ball_Un)
  then show "zl_invar (P @ S @ [end_token])"
    using overwrites_wf [OF assms(1)] overwrites_compact [OF assms(1)]
    by (auto simp: zl_invar_def intro!: exI [of _ "P @ S"])
  have "butlast (P @ S @ [end_token]) = P @ S" "butlast list = p @ m @ s"
    using assms(2) by (simp_all add: butlast_append)
  then show "zone_at (P @ S @ [end_token]) a = (if start \<le> a \<and> a \<le> lst then ty else zone_at list a)"
    using overwrites_look [OF assms(1), of a] by (simp add: zone_at_def zones_def)
qed

lemma add_memmap_overwrites:
  assumes inv: "zl_invar list" and ty: "ty \<noteq> SMT_END" and len: "len \<noteq> 0"
    and w: "no_wrap start len" and ok: "ok n" "ok (n + 1)"
  shows "\<exists>p m s P S n'. list = p @ m @ s @ [end_token] \<and>
     overwrites (map zpair p) (map zpair m) (map zpair s) start (start + len - 1) ty
       (map zpair P) (map zpair S) \<and>
     syslinux_add_memmap ok n list start len ty = Some (0, P @ S @ [end_token], n') \<and>
     n \<le> n' \<and> n' \<le> n + 2"
proof -
  let ?lst = "start + len - 1"
  obtain zs where zs: "list = zs @ [end_token]" "\<forall>z \<in> set zs. ztype z \<noteq> SMT_END"
    "rwf (map zpair zs)" "rcompact (map zpair zs)"
    using inv by (auto simp: zl_invar_def)
  obtain p t where pt: "zs = p @ t" "\<forall>z \<in> set p. zstart z < start"
      "t \<noteq> [] \<longrightarrow> start \<le> zstart (hd t)"
    and seek: "add_seek start [] SMT_END list = (p, rlast SMT_END (map zpair p), t @ [end_token])"
    using add_seek_split [OF zs(2), of start "[]" SMT_END] zs(1) by (metis append_Nil)
  have sl: "start \<le> ?lst" using no_wrap_last [OF w len] by simp
  have sorted: "rsorted (map zpair t)"
    using zs(3) pt(1) by (simp add: rwf_def rsorted_simps)
  have ge: "\<forall>z \<in> set t. start \<le> zstart z"
    using pt(3) sorted by (cases t) (auto simp: rsorted_simps dest: order.strict_implies_order)
  define new where "new \<longleftrightarrow> ty \<noteq> rlast SMT_END (map zpair p)"
  define P where "P = (if new then p @ [\<lparr>zstart = start, ztype = ty\<rparr>] else p)"
  have split: "overwrites (map zpair p) (map zpair m) (map zpair s) start ?lst ty
       (map zpair P) (map zpair S)"
    if "t = m @ s" "\<forall>z \<in> set m. zstart z \<le> ?lst" "\<forall>z \<in> set s. ?lst < zstart z"
      "resumes ?lst ty (rlast SMT_END (map zpair (p @ m))) (map zpair s) (map zpair S)" for m s S
    using that zs pt ge sl ty
    by (auto simp: overwrites_def P_def new_def zpair_def)
  have finish: ?thesis
    if nz: "\<forall>z \<in> set t. zstart z \<noteq> 0"
      and add: "syslinux_add_memmap ok n list start len ty =
        add_finish ok k ?lst ty P (rlast SMT_END (map zpair p)) (t @ [end_token])"
      and k: "ok k" "n \<le> k" "k \<le> n + 1" for k
  proof -
    obtain m s S n' where r: "t = m @ s" "\<forall>z \<in> set m. zstart z \<le> ?lst"
      "\<forall>z \<in> set s. ?lst < zstart z" "n \<le> n'" "n' \<le> n + 2"
      "syslinux_add_memmap ok n list start len ty = Some (0, P @ S @ [end_token], n')"
      "resumes ?lst ty (rlast (rlast SMT_END (map zpair p)) (map zpair m)) (map zpair s) (map zpair S)"
      using add_finish_resumes [of t ok k ty ?lst P "rlast SMT_END (map zpair p)",
          OF nz sorted k(1) ty] k(2,3) unfolding add by fastforce
    then show ?thesis
      using split [of m s S] zs(1) pt(1)
      by (intro exI [of _ p] exI [of _ m] exI [of _ s] exI [of _ P] exI [of _ S] exI [of _ n'])
         (simp add: rlast_append)
  qed
  have unaligned: ?thesis if "t = [] \<or> start < zstart (hd t)"
  proof (rule finish [of "if new then n + 1 else n"])
    show "\<forall>z \<in> set t. zstart z \<noteq> 0"
      using that sorted by (cases t) (auto simp: rsorted_simps)
  qed (use that len seek ok in
        \<open>cases t; simp add: syslinux_add_memmap_def Let_def P_def new_def\<close>)+
  show ?thesis
  proof (cases "t = [] \<or> start < zstart (hd t)")
    case False
    then obtain z t' where t: "t = z # t'" "zstart z = start"
      using pt(3) by (cases t) auto
    have nz: "\<forall>z \<in> set t'. zstart z \<noteq> 0" "rsorted (map zpair t')"
      using sorted t by (auto simp: rsorted_simps)
    have nend: "ztype z \<noteq> SMT_END" using zs(2) pt(1) t(1) by simp
    show ?thesis
    proof (cases new)
      case True
      have "syslinux_add_memmap ok n list start len ty =
          add_finish ok n ?lst ty P (ztype z) (t' @ [end_token])"
        using t nend len seek True
        by (cases z) (simp add: syslinux_add_memmap_def Let_def P_def new_def)
      then obtain m s S n' where r: "t' = m @ s" "\<forall>z \<in> set m. zstart z \<le> ?lst"
        "\<forall>z \<in> set s. ?lst < zstart z" "n \<le> n'" "n' \<le> n + 1"
        "syslinux_add_memmap ok n list start len ty = Some (0, P @ S @ [end_token], n')"
        "resumes ?lst ty (rlast (ztype z) (map zpair m)) (map zpair s) (map zpair S)"
        using add_finish_resumes [of t' ok n ty ?lst P "ztype z", OF nz ok(1) ty] by metis
      then show ?thesis
        using split [of "z # m" s S] zs(1) pt(1) t sl
        by (intro exI [of _ p] exI [of _ "z # m"] exI [of _ s] exI [of _ P] exI [of _ S]
                  exI [of _ n']) (simp add: rlast_append)
    next
      case False
      then have "p \<noteq> []" using ty by (auto simp: new_def)
      then have "start \<noteq> 0" using pt(2) by (cases p) auto
      then have nz': "\<forall>z \<in> set t. zstart z \<noteq> 0" using nz t by simp
      show ?thesis
        using t nend len seek False ok
        by (intro finish [OF nz', of n]) (simp_all add: syslinux_add_memmap_def Let_def P_def new_def)
    qed
  qed (rule unaligned)
qed

text \<open>C6. Entering a range in a memory map succeeds when the two allocations it may make do, keeps
  the list sorted and without equal neighbours, and changes the type of exactly the bytes of
  the range.\<close>

theorem syslinux_add_memmap_correct:
  assumes "zl_invar list" and "ty \<noteq> SMT_END" and "no_wrap start len" and "ok n" and "ok (n + 1)"
  shows "\<exists>list' n'. syslinux_add_memmap ok n list start len ty = Some (0, list', n') \<and>
           zl_invar list' \<and>
           (\<forall>a. zone_at list' a = (if covers start len a then ty else zone_at list a))"
proof (cases "len = 0")
  case True
  then show ?thesis using assms by (simp add: syslinux_add_memmap_def)
next
  case False
  then obtain p m s P S n' where r: "list = p @ m @ s @ [end_token]"
    "overwrites (map zpair p) (map zpair m) (map zpair s) start (start + len - 1) ty
       (map zpair P) (map zpair S)"
    "syslinux_add_memmap ok n list start len ty = Some (0, P @ S @ [end_token], n')"
    using add_memmap_overwrites [of list ty len start ok n] assms by blast
  show ?thesis
    using r(3) overwrites_memmap [OF r(2,1)] False by (intro exI conjI allI) auto
qed

text \<open>The map of the second half of memory reserved is a witness.\<close>

theorem syslinux_add_memmap_correct_witness:
  "\<exists>list' n'. syslinux_add_memmap (\<lambda>_. True) 0
       [\<lparr>zstart = 0, ztype = SMT_FREE\<rparr>, \<lparr>zstart = 0x80000000, ztype = SMT_RESERVED\<rparr>, end_token]
       0x1000 0x2000 SMT_ALLOC = Some (0, list', n') \<and>
     zl_invar list' \<and> zone_at list' 0x2fff = SMT_ALLOC"
proof -
  let ?l = "[\<lparr>zstart = 0, ztype = SMT_FREE\<rparr>, \<lparr>zstart = 0x80000000, ztype = SMT_RESERVED\<rparr>, end_token]"
  have "zl_invar ?l"
    unfolding zl_invar_def
    by (intro exI [of _ "butlast ?l"]) (simp add: zpair_def rwf_def rsorted_def rcompact_def)
  then show ?thesis
    using syslinux_add_memmap_correct [of ?l SMT_ALLOC "0x1000" "0x2000" "\<lambda>_. True" 0] by fastforce
qed

subsection \<open>The zone list as a memory map\<close>

definition zl_put :: "memmap \<Rightarrow> addr_t \<Rightarrow> addr_t \<Rightarrow> syslinux_memmap_types \<Rightarrow> memmap option" where
  "zl_put list start len ty =
     (case syslinux_add_memmap (\<lambda>_. True) 0 list start len ty of
        Some (rv, list', _) \<Rightarrow> if rv = 0 then Some list' else None
      | None \<Rightarrow> None)"

lemma zl_put_ok:
  assumes "zl_invar m" and "t \<noteq> SMT_END" and "no_wrap s l"
  shows "\<exists>m'. zl_put m s l t = Some m' \<and> zl_invar m' \<and>
           (\<forall>a. zone_at m' a = (if covers s l a then t else zone_at m a))"
proof (cases "l = 0")
  case True
  then show ?thesis using assms by (simp add: zl_put_def syslinux_add_memmap_def)
next
  case False
  then obtain p m1 s1 P S n' where r: "m = p @ m1 @ s1 @ [end_token]"
    "overwrites (map zpair p) (map zpair m1) (map zpair s1) s (s + l - 1) t
       (map zpair P) (map zpair S)"
    "syslinux_add_memmap (\<lambda>_. True) 0 m s l t = Some (0, P @ S @ [end_token], n')"
    using add_memmap_overwrites [of m t l s "\<lambda>_. True" 0] assms by blast
  then show ?thesis
    using overwrites_memmap [OF r(2,1)] False by (simp add: zl_put_def)
qed

interpretation zl: memory_map zone_at zl_put zl_invar "\<lambda>_ _. True" "\<lambda>t. t \<noteq> SMT_END"
  by unfold_locales (simp add: zl_put_ok)

text \<open>With an allocator that never fails, the number of the allocation does not matter.\<close>

definition uncounted :: "(int \<times> memmap \<times> nat) option \<Rightarrow> (int \<times> memmap) option" where
  "uncounted = map_option (\<lambda>(rv, l, _). (rv, l))"

lemma uncounted_Some [simp]: "uncounted (Some (rv, l, n)) = Some (rv, l)"
  by (simp add: uncounted_def)

lemma add_finish_count:
  "uncounted (add_finish (\<lambda>_. True) n lst ty P old suf) =
   uncounted (add_finish (\<lambda>_. True) k lst ty P old suf)"
proof -
  obtain o' suf' where "add_trim lst old suf = (o', suf')" by fastforce
  then show ?thesis by (cases suf') (simp_all add: add_finish_def uncounted_def)
qed

lemma add_memmap_count:
  "uncounted (syslinux_add_memmap (\<lambda>_. True) n list start len ty) =
   uncounted (syslinux_add_memmap (\<lambda>_. True) k list start len ty)"
proof -
  obtain pre o' suf where "add_seek start [] SMT_END list = (pre, o', suf)"
    by (metis prod_cases3)
  then show ?thesis
    by (cases suf) (auto simp: syslinux_add_memmap_def Let_def
                         intro: add_finish_count)
qed

lemma scan_memory_put_all:
  assumes "put_all zl_put list rs = Some list'"
  shows "\<exists>n'. scan_memory (\<lambda>_. True) n list rs = Some (0, list', n')"
  using assms
proof (induction rs arbitrary: list n)
  case (Cons r rs)
  obtain s l t where r: "r = (s, l, t)" by (cases r)
  with Cons.prems obtain m where m: "zl_put list s l t = Some m" "put_all zl_put m rs = Some list'"
    by (auto simp: bind_eq_Some_conv)
  then have "uncounted (syslinux_add_memmap (\<lambda>_. True) 0 list s l t) = Some (0, m)"
    by (auto simp: zl_put_def uncounted_def split: option.splits if_splits)
  then have "uncounted (syslinux_add_memmap (\<lambda>_. True) n list s l t) = Some (0, m)"
    using add_memmap_count by metis
  then obtain n' where "syslinux_add_memmap (\<lambda>_. True) n list s l t = Some (0, m, n')"
    by (auto simp: uncounted_def)
  with r Cons.IH [OF m(2), of n'] show ?case by simp
qed simp

lemma zl_invar_init: "zl_invar [\<lparr>zstart = 0, ztype = SMT_UNDEFINED\<rparr>, end_token]"
  unfolding zl_invar_def
  by (intro exI [of _ "[\<lparr>zstart = 0, ztype = SMT_UNDEFINED\<rparr>]"])
     (simp add: zpair_def rwf_def rsorted_def rcompact_def)

lemma zone_at_init: "zone_at [\<lparr>zstart = 0, ztype = SMT_UNDEFINED\<rparr>, end_token] a = SMT_UNDEFINED"
  by (simp add: zone_at_def zones_def zpair_def)

text \<open>Building the memory map of the machine from the ranges the scanners report gives every
  address the type of the last range that covers it, and \<open>SMT_UNDEFINED\<close> where there is none.\<close>

theorem syslinux_memory_map_correct:
  assumes "\<forall>(s, l, t) \<in> set rs. t \<noteq> SMT_END \<and> no_wrap s l"
  shows "\<exists>mmap. syslinux_memory_map (\<lambda>_. True) rs = Some (Some mmap) \<and> zl_invar mmap \<and>
           (\<forall>a. zone_at mmap a = written SMT_UNDEFINED rs a)"
proof -
  let ?i = "[\<lparr>zstart = 0, ztype = SMT_UNDEFINED\<rparr>, end_token]"
  obtain m where m: "put_all zl_put ?i rs = Some m" "zl_invar m"
    "\<forall>a. zone_at m a = written SMT_UNDEFINED rs a"
    using zl.put_all_look [OF zl_invar_init _ assms] by (auto simp: zone_at_init)
  obtain n' where "scan_memory (\<lambda>_. True) 2 ?i rs = Some (0, m, n')"
    using scan_memory_put_all [OF m(1)] by blast
  then have "syslinux_memory_map (\<lambda>_. True) rs = Some (Some m)"
    by (simp add: syslinux_memory_map_def syslinux_init_memmap_def numeral_2_eq_2)
  with m show ?thesis by blast
qed

theorem syslinux_memory_map_correct_witness:
  "\<exists>mmap. syslinux_memory_map (\<lambda>_. True)
      [(0, 0xa0000, SMT_FREE), (0x100000, 0x7f00000, SMT_FREE), (0x500, 0x100, SMT_RESERVED)] =
      Some (Some mmap) \<and> zone_at mmap 0x580 = SMT_RESERVED \<and> zone_at mmap 0x100000 = SMT_FREE \<and>
      zone_at mmap 0xb8000 = SMT_UNDEFINED"
proof -
  let ?rs = "[(0, 0xa0000, SMT_FREE), (0x100000, 0x7f00000, SMT_FREE),
      (0x500, 0x100, SMT_RESERVED)] :: (addr_t \<times> addr_t \<times> syslinux_memmap_types) list"
  have "\<forall>(s, l, t) \<in> set ?rs. t \<noteq> SMT_END \<and> no_wrap s l" by simp
  from syslinux_memory_map_correct [OF this] show ?thesis by fastforce
qed

subsection \<open>Queries\<close>

text \<open>The zones of a list with the address after the last byte of each; the last one ends at the
  top of memory, where the address wraps to 0.\<close>

fun extents :: "memmap \<Rightarrow> (zone \<times> addr_t) list" where
  "extents (z # z' # list) = (z, zstart z') # extents (z' # list)"
| "extents _ = []"

lemma extents_snoc:
  "extents (zs @ [end_token]) = zip zs (map zstart (tl zs @ [end_token]))"
  by (induction zs rule: induct_list012) simp_all

lemma rlook_zpair [simp]:
  "rlook d (zpair z # rs) a = (if a < zstart z then d else rlook (ztype z) rs a)"
  by (simp add: zpair_def)

text \<open>Every byte from the start of a zone to its end has the type of the zone.\<close>

lemma rlook_zone:
  assumes "rsorted (map zpair zs)" and "(z, e) \<in> set (extents (zs @ [end_token]))"
    and "zstart z \<le> a" and "a \<le> e - 1"
  shows "rlook d (map zpair zs) a = ztype z"
  using assms
proof (induction zs arbitrary: d rule: induct_list012)
  case (2 y)
  then show ?case by (auto simp: zpair_def not_less)
next
  case (3 y y' zs)
  show ?case
  proof (cases "z = y \<and> e = zstart y'")
    case True
    have "zstart y < zstart y'" using "3.prems"(1) by (simp add: rsorted_simps)
    then have "zstart y' \<noteq> 0" by auto
    then have "a < zstart y'" using True "3.prems"(4) by (simp add: less_eq_dec_iff)
    then show ?thesis using True "3.prems"(3) by (auto simp: zpair_def dest: leD)
  next
    case False
    then have m: "(z, e) \<in> set (extents ((y' # zs) @ [end_token]))"
      using "3.prems"(2) by auto
    then have "z \<in> set (y' # zs)" by (simp only: extents_snoc) (auto dest: set_zip_leftD)
    then have "zstart y < zstart z" using "3.prems"(1) by (auto simp: rsorted_simps)
    then have "\<not> a < zstart y" using "3.prems"(3) by auto
    moreover have "rlook (ztype y) (map zpair (y' # zs)) a = ztype z"
      using "3.IH"(2) [OF _ m "3.prems"(3,4)] "3.prems"(1) by (simp add: rsorted_simps)
    ultimately show ?thesis by simp
  qed
qed simp

lemma zone_at_extent:
  assumes "zl_invar list" and "(z, e) \<in> set (extents list)" and "zstart z \<le> a" and "a \<le> e - 1"
  shows "zone_at list a = ztype z"
  using assms rlook_zone by (auto simp: zl_invar_def zone_at_def zones_def rwf_def)

lemma extents_suffix: "set (extents ys) \<subseteq> set (extents (xs @ ys))"
proof (induction xs)
  case (Cons x xs)
  then show ?case by (cases "xs @ ys") auto
qed simp

lemma type_cross_result: "type_cross lst l = Some t \<Longrightarrow> t = SMT_ERROR \<or> t = SMT_TERMINAL"
  by (induction lst l rule: type_cross.induct) (auto split: if_splits list.splits)

lemma type_loop_extent:
  assumes "type_loop start lst list = Some t" and "t \<noteq> SMT_ERROR" and "t \<noteq> SMT_TERMINAL"
  shows "\<exists>z e. (z, e) \<in> set (extents list) \<and> ztype z = t \<and> zstart z \<le> start \<and> lst \<le> e - 1"
  using assms(1)
proof (induction list)
  case (Cons z list)
  show ?case
  proof (cases "\<exists>z' l. list = z' # l \<and> zstart z \<le> start \<and> lst \<le> zstart z' - 1 \<and> t = ztype z")
    case False
    then obtain z' l where l: "list = z' # l"
      using Cons.prems assms(2) by (cases list) (auto split: if_splits)
    then have "type_loop start lst list = Some t"
      using Cons.prems False assms(2,3) type_cross_result [of lst "z # list" t]
      by (auto simp: Let_def split: if_splits)
    from Cons.IH [OF this] l show ?thesis by auto
  qed fastforce
qed simp

text \<open>When \<open>syslinux_memmap_type\<close> reports a definite type for a region (not an error and not
  the last-resort type), every byte of the region has that type.\<close>

theorem syslinux_memmap_type_sound:
  assumes "zl_invar list" and "syslinux_memmap_type list start len = Some t"
    and "t \<noteq> SMT_ERROR" and "t \<noteq> SMT_TERMINAL"
    and "start \<le> a" and "a \<le> start + len - 1"
  shows "zone_at list a = t"
proof -
  obtain z e where "(z, e) \<in> set (extents list)" "ztype z = t" "zstart z \<le> start"
    "start + len - 1 \<le> e - 1"
    using type_loop_extent [OF assms(2) [unfolded syslinux_memmap_type_def] assms(3,4)] by blast
  then show ?thesis using zone_at_extent [OF assms(1)] assms(5,6) by auto
qed

theorem syslinux_memmap_type_sound_witness:
  "syslinux_memmap_type [\<lparr>zstart = 0, ztype = SMT_UNDEFINED\<rparr>, end_token] 0x100 0x200 =
     Some SMT_UNDEFINED \<and>
   zone_at [\<lparr>zstart = 0, ztype = SMT_UNDEFINED\<rparr>, end_token] 0x2ff = SMT_UNDEFINED"
proof -
  have "syslinux_memmap_type [\<lparr>zstart = 0, ztype = SMT_UNDEFINED\<rparr>, end_token] 0x100 0x200 =
     Some SMT_UNDEFINED" by (simp add: syslinux_memmap_type_def)
  with syslinux_memmap_type_sound [OF zl_invar_init this] show ?thesis by simp
qed

text \<open>
  The region test is meant to reject a region that runs into a zone of another type. The
  inner loop steps to the next zone and compares its end with the end of the region before
  it looks at its type, so the type of the zone the region ends in is never tested.
\<close>

text \<open>C29. In a map whose memory is free up to \<open>m\<close> and of any type \<open>t\<close> from there on, a region that
  starts below \<open>m\<close> and ends above it is reported as usable and granted by
  \<open>syslinux_memmap_find\<close>, although its last byte has type \<open>t\<close>.\<close>

theorem syslinux_memmap_find_ignores_last_type:
  assumes "t \<noteq> SMT_END" and "base < m" and "m \<le> base + sz - 1" and "sz \<noteq> 0"
  shows "let list = [\<lparr>zstart = 0, ztype = SMT_FREE\<rparr>, \<lparr>zstart = m, ztype = t\<rparr>, end_token] in
     syslinux_memmap_type list base sz = Some SMT_TERMINAL \<and>
     syslinux_memmap_find list base sz rel algn smin smax emin emax = Some (Some base) \<and>
     zone_at list (base + sz - 1) = t"
proof -
  have "m \<noteq> 0" using assms(2) by auto
  then have "base \<le> m - 1" "\<not> base + sz - 1 \<le> m - 1"
    using assms(2,3) less_eq_dec_iff [of base m] less_eq_dec_iff [of "base + sz - 1" m]
    by (blast, metis leD)
  then show ?thesis
    using assms leD [OF assms(3)]
    by (simp add: syslinux_memmap_type_def syslinux_memmap_find_def valid_terminal_type_def
        zone_at_def zones_def)
qed

theorem syslinux_memmap_find_ignores_last_type_witness:
  "let list = [\<lparr>zstart = 0, ztype = SMT_FREE\<rparr>, \<lparr>zstart = 0x9f000, ztype = SMT_RESERVED\<rparr>, end_token] in
     syslinux_memmap_type list 0x90000 0x20000 = Some SMT_TERMINAL \<and>
     syslinux_memmap_find list 0x90000 0x20000 True 16 0 (- 1) 0 (- 1) = Some (Some 0x90000) \<and>
     zone_at list (0x90000 + 0x20000 - 1) = SMT_RESERVED"
  by (rule syslinux_memmap_find_ignores_last_type) simp_all

text \<open>The zone \<open>syslinux_memmap_largest\<close> returns.\<close>

lemma largest_loop_correct:
  assumes "list = zs @ [end_token]" and "\<forall>z \<in> set zs. ztype z \<noteq> SMT_END"
  shows "\<exists>r. largest_loop t best list = Some r \<and>
     (\<forall>s l. r = Some (s, l) \<longrightarrow> r = best \<or>
        (\<exists>z e. (z, e) \<in> set (extents list) \<and> ztype z = t \<and> s = zstart z \<and> l = e - s \<and> l \<noteq> 0)) \<and>
     (\<forall>z e. (z, e) \<in> set (extents list) \<and> ztype z = t \<longrightarrow>
        e - zstart z \<le> (case r of None \<Rightarrow> 0 | Some (_, l) \<Rightarrow> l)) \<and>
     (case best of None \<Rightarrow> 0 | Some (_, l) \<Rightarrow> l) \<le> (case r of None \<Rightarrow> 0 | Some (_, l) \<Rightarrow> l)"
  using assms
proof (induction zs arbitrary: list best)
  case (Cons z zs)
  obtain z' l where l: "zs @ [end_token] = z' # l" by (cases zs) auto
  define best' where "best' = (if ztype z = t \<and> zstart z' - zstart z > (case best of None \<Rightarrow> 0 | Some (_, b) \<Rightarrow> b)
     then Some (zstart z, zstart z' - zstart z) else best)"
  have u: "largest_loop t best list = largest_loop t best' (zs @ [end_token])"
    unfolding Cons.prems(1) append_Cons l using Cons.prems(2)
    by (simp add: best'_def Let_def del: largest_loop.simps) (simp only: largest_loop.simps(2) [of t best z] Let_def, simp del: largest_loop.simps)
  have x: "extents list = (z, zstart z') # extents (zs @ [end_token])"
    using Cons.prems l by simp
  obtain r where r: "largest_loop t best' (zs @ [end_token]) = Some r"
    "\<forall>s l. r = Some (s, l) \<longrightarrow> r = best' \<or>
        (\<exists>z e. (z, e) \<in> set (extents (zs @ [end_token])) \<and> ztype z = t \<and> s = zstart z \<and> l = e - s \<and> l \<noteq> 0)"
    "\<forall>z e. (z, e) \<in> set (extents (zs @ [end_token])) \<and> ztype z = t \<longrightarrow>
        e - zstart z \<le> (case r of None \<Rightarrow> 0 | Some (_, l) \<Rightarrow> l)"
    "(case best' of None \<Rightarrow> 0 | Some (_, l) \<Rightarrow> l) \<le> (case r of None \<Rightarrow> 0 | Some (_, l) \<Rightarrow> l)"
    using Cons.IH [OF refl, of best'] Cons.prems by auto
  have b: "(case best of None \<Rightarrow> 0 | Some (_, l) \<Rightarrow> l) \<le> (case best' of None \<Rightarrow> 0 | Some (_, l) \<Rightarrow> l)"
    "ztype z = t \<Longrightarrow> zstart z' - zstart z \<le> (case best' of None \<Rightarrow> 0 | Some (_, l) \<Rightarrow> l)"
    by (auto simp: best'_def not_less)
  show ?case
  proof (intro exI [of _ r] conjI allI impI)
    show "largest_loop t best list = Some r" using u r(1) by simp
  next
    fix s l assume "r = Some (s, l)"
    then have "r = best' \<or> (\<exists>z e. (z, e) \<in> set (extents list) \<and> ztype z = t \<and> s = zstart z \<and> l = e - s \<and> l \<noteq> 0)"
      using r(2) x by auto
    then show "r = best \<or> (\<exists>z e. (z, e) \<in> set (extents list) \<and> ztype z = t \<and> s = zstart z \<and> l = e - s \<and> l \<noteq> 0)"
      using x \<open>r = Some (s, l)\<close> by (fastforce simp: best'_def split: if_splits)
  next
    fix y e assume "(y, e) \<in> set (extents list) \<and> ztype y = t"
    then show "e - zstart y \<le> (case r of None \<Rightarrow> 0 | Some (_, l) \<Rightarrow> l)"
      using r(3) x b(2) r(4) by (auto intro: order.trans)
  qed (use b(1) r(4) in \<open>rule order.trans\<close>)
qed simp

text \<open>\<open>syslinux_memmap_largest\<close> never follows a null pointer; what it returns is a whole zone of
  the wanted type, and no zone of that type is larger; it fails exactly when all of them have
  (wrapped) size 0.\<close>

theorem syslinux_memmap_largest_correct:
  assumes "zl_invar list"
  shows "\<exists>r. syslinux_memmap_largest list t = Some r \<and>
     (case r of
        None \<Rightarrow> \<forall>z e. (z, e) \<in> set (extents list) \<and> ztype z = t \<longrightarrow> e - zstart z = 0
      | Some (s, l) \<Rightarrow> l \<noteq> 0 \<and> (\<exists>z e. (z, e) \<in> set (extents list) \<and> ztype z = t \<and> s = zstart z \<and> l = e - s) \<and>
          (\<forall>z e. (z, e) \<in> set (extents list) \<and> ztype z = t \<longrightarrow> e - zstart z \<le> l))"
proof -
  obtain zs where "list = zs @ [end_token]" "\<forall>z \<in> set zs. ztype z \<noteq> SMT_END"
    using assms by (auto simp: zl_invar_def)
  from largest_loop_correct [OF this, of t None] obtain r where "largest_loop t None list = Some r"
    "\<forall>s l. r = Some (s, l) \<longrightarrow>
        (\<exists>z e. (z, e) \<in> set (extents list) \<and> ztype z = t \<and> s = zstart z \<and> l = e - s \<and> l \<noteq> 0)"
    "\<forall>z e. (z, e) \<in> set (extents list) \<and> ztype z = t \<longrightarrow>
        e - zstart z \<le> (case r of None \<Rightarrow> 0 | Some (_, l) \<Rightarrow> l)"
    by auto
  then show ?thesis
    by (intro exI [of _ r]; cases r) (auto simp: syslinux_memmap_largest_def, blast)
qed

theorem syslinux_memmap_largest_correct_witness:
  "syslinux_memmap_largest [\<lparr>zstart = 0, ztype = SMT_UNDEFINED\<rparr>, end_token] SMT_FREE = Some None"
proof -
  from syslinux_memmap_largest_correct [OF zl_invar_init, of SMT_FREE] obtain r where
    "syslinux_memmap_largest [\<lparr>zstart = 0, ztype = SMT_UNDEFINED\<rparr>, end_token] SMT_FREE = Some r"
    "r = None \<or> (\<exists>s l. r = Some (s, l) \<and> l \<noteq> 0 \<and> (\<exists>z e. (z, e) \<in> set (extents
       [\<lparr>zstart = 0, ztype = SMT_UNDEFINED\<rparr>, end_token]) \<and> ztype z = SMT_FREE \<and> s = zstart z \<and> l = e - s))"
    by (auto split: option.splits) (metis option.exhaust prod.exhaust)
  then show ?thesis by auto
qed

end
