(* ===== verification/Movebits.thy ===== *)
theory Movebits
  imports Zonelist
begin

section \<open>The planner of memory moves\<close>

text \<open>
  \<open>com32/lib/syslinux/movebits.c\<close>: given the fragments of memory that must be elsewhere when a kernel is started, and a memory map,
  compute a sequence of moves. The linked list of fragments is a list, a parent pointer the number of a node. An allocation that fails
  leaves the planner by \<open>longjmp\<close>; the calls of \<open>malloc\<close> are numbered, and \<open>ok\<close> says which succeed. The outer option is a null pointer
  followed or a loop that does not end.
\<close>

subsection \<open>Move lists\<close>

record movelist =
  mdst :: addr_t
  msrc :: addr_t
  mlen :: addr_t

datatype bail = Nomem | No_free_memory | No_critical_chunk

definition andthen :: "(bail + 'a) option \<Rightarrow> ('a \<Rightarrow> (bail + 'b) option) \<Rightarrow> (bail + 'b) option" where
  "andthen r f = (case r of None \<Rightarrow> None | Some (Inl e) \<Rightarrow> Some (Inl e) | Some (Inr x) \<Rightarrow> f x)"

definition new_movelist :: "(nat \<Rightarrow> bool) \<Rightarrow> addr_t \<Rightarrow> addr_t \<Rightarrow> addr_t \<Rightarrow> nat \<Rightarrow> (bail + movelist \<times> nat) option" where
  "new_movelist ok dst src len n =
    (if ok n then Some (Inr (\<lparr>mdst = dst, msrc = src, mlen = len\<rparr>, n + 1)) else Some (Inl Nomem))"

fun dup_movelist :: "(nat \<Rightarrow> bool) \<Rightarrow> movelist list \<Rightarrow> nat \<Rightarrow> (bail + movelist list \<times> nat) option" where
  "dup_movelist ok [] n = Some (Inr ([], n))"
| "dup_movelist ok (ml # src) n =
    andthen (new_movelist ok (mdst ml) (msrc ml) (mlen ml) n) (\<lambda>(m, n).
    andthen (dup_movelist ok src n) (\<lambda>(ms, n). Some (Inr (m # ms, n))))"

definition add_freelist :: "(nat \<Rightarrow> bool) \<Rightarrow> memmap \<Rightarrow> addr_t \<Rightarrow> addr_t \<Rightarrow> syslinux_memmap_types \<Rightarrow> nat \<Rightarrow> (bail + memmap \<times> nat) option" where
  "add_freelist ok mmap start len type n =
    (case syslinux_add_memmap ok n mmap start len type of
       None \<Rightarrow> None
     | Some (rv, mmap, n) \<Rightarrow> if rv \<noteq> 0 then Some (Inl Nomem) else Some (Inr (mmap, n)))"

text \<open>The chunk at node \<open>i\<close> that starts at \<open>start\<close> gets a node of its own; the result is the number of that node.\<close>

definition insert_at :: "nat \<Rightarrow> 'a \<Rightarrow> 'a list \<Rightarrow> 'a list" where
  "insert_at i x xs = take i xs @ x # drop i xs"

definition split_begin :: "(nat \<Rightarrow> bool) \<Rightarrow> addr_t \<Rightarrow> nat \<Rightarrow> movelist list \<Rightarrow> nat \<Rightarrow> (bail + nat \<times> movelist list \<times> nat) option" where
  "split_begin ok start i fs n =
    (let ml = fs ! i
     in if start > msrc ml then
          let l = start - msrc ml
          in andthen (new_movelist ok (mdst ml + l) start (mlen ml - l) n) (\<lambda>(m, n).
             Some (Inr (i + 1, insert_at (i + 1) m (fs[i := ml\<lparr>mlen := l\<rparr>]), n)))
        else Some (Inr (i, fs, n)))"

definition split_end :: "(nat \<Rightarrow> bool) \<Rightarrow> addr_t \<Rightarrow> nat \<Rightarrow> movelist list \<Rightarrow> nat \<Rightarrow> (bail + movelist list \<times> nat) option" where
  "split_end ok len i fs n =
    (let ml = fs ! i
     in if mlen ml > len then
          let l = mlen ml - len
          in andthen (new_movelist ok (mdst ml + len) (msrc ml + len) l n) (\<lambda>(m, n).
             Some (Inr (insert_at (i + 1) m (fs[i := ml\<lparr>mlen := len\<rparr>]), n)))
        else Some (Inr (fs, n)))"

definition split_movelist :: "(nat \<Rightarrow> bool) \<Rightarrow> addr_t \<Rightarrow> addr_t \<Rightarrow> nat \<Rightarrow> movelist list \<Rightarrow> nat \<Rightarrow> (bail + nat \<times> movelist list \<times> nat) option" where
  "split_movelist ok start len i fs n =
    andthen (split_begin ok start i fs n) (\<lambda>(i, fs, n).
    andthen (split_end ok len i fs n) (\<lambda>(fs, n). Some (Inr (i, fs, n))))"

definition delete_movelist :: "nat \<Rightarrow> movelist list \<Rightarrow> movelist list" where
  "delete_movelist i fs = take i fs @ drop (i + 1) fs"

subsection \<open>Free memory\<close>

text \<open>
  \<open>is_free_zone\<close>: the zones from the result on, \<open>None\<close> inside when the region is not free. The inner loop stops in the zone that ends behind
  the region (\<open>True\<close>) or at the first one that is not available.
\<close>

fun free_inner :: "addr_t \<Rightarrow> memmap \<Rightarrow> (bool \<times> memmap) option" where
  "free_inner lst [] = None"
| "free_inner lst (z # zs) =
    (if valid_terminal_type (ztype z) then
       (case zs of [] \<Rightarrow> None | z' # _ \<Rightarrow> if zstart z' - 1 \<ge> lst then Some (True, z # zs) else free_inner lst zs)
     else Some (False, z # zs))"

lemma free_inner_length: "free_inner lst zs = Some (b, ys) \<Longrightarrow> length ys \<le> length zs"
  by (induction lst zs rule: free_inner.induct) (auto split: if_splits list.splits)

function free_loop :: "addr_t \<Rightarrow> addr_t \<Rightarrow> memmap \<Rightarrow> memmap option option" where
  "free_loop start lst list =
    (case list of [] \<Rightarrow> None
     | z # zs \<Rightarrow>
         if ztype z = SMT_END then Some None
         else if zstart z \<le> start then
           (case free_inner lst list of
              None \<Rightarrow> None
            | Some (True, _) \<Rightarrow> Some (Some list)
            | Some (False, ys) \<Rightarrow> (case ys of [] \<Rightarrow> None | y # ys \<Rightarrow> if zstart y > start then Some None else free_loop start lst ys))
         else free_loop start lst zs)"
  by pat_completeness auto
termination
  by (relation "measure (\<lambda>(_, _, l). length l)") (auto simp del: free_inner.simps dest: free_inner_length)

declare free_loop.simps [simp del]

definition is_free_zone :: "memmap \<Rightarrow> addr_t \<Rightarrow> addr_t \<Rightarrow> memmap option option" where
  "is_free_zone list start len = free_loop start (start + len - 1) list"

text \<open>The smallest free zone of at least \<open>len\<close> bytes, with its length.\<close>

fun area_loop :: "addr_t \<Rightarrow> (addr_t \<times> addr_t) option \<Rightarrow> memmap \<Rightarrow> (addr_t \<times> addr_t) option option" where
  "area_loop len best [] = None"
| "area_loop len best (s # ss) =
    (if ztype s = SMT_END then Some best
     else if ztype s \<noteq> SMT_FREE then area_loop len best ss
     else case ss of [] \<Rightarrow> None
       | s' # _ \<Rightarrow>
           let slen = zstart s' - zstart s;
               better = (case best of None \<Rightarrow> True | Some (_, best_len) \<Rightarrow> best_len > slen)
           in area_loop len (if slen \<ge> len \<and> better then Some (zstart s, slen) else best) ss)"

text \<open>The result is the start of the zone, \<open>None\<close> inside for the return value 0.\<close>

definition free_area :: "memmap \<Rightarrow> addr_t \<Rightarrow> addr_t option option" where
  "free_area mmap len =
    map_option (\<lambda>best. case best of None \<Rightarrow> None | Some (start, best_len) \<Rightarrow> if best_len = 0 then None else Some start) (area_loop len None mmap)"

text \<open>\<open>allocate_from\<close> does not look at the result.\<close>

definition allocate_from :: "(nat \<Rightarrow> bool) \<Rightarrow> memmap \<Rightarrow> addr_t \<Rightarrow> addr_t \<Rightarrow> nat \<Rightarrow> (bail + memmap \<times> nat) option" where
  "allocate_from ok mmap start len n = map_option (\<lambda>(_, mmap, n). Inr (mmap, n)) (syslinux_add_memmap ok n mmap start len SMT_ALLOC)"

subsection \<open>Fragments with the same source\<close>

text \<open>
  \<open>shuffle_dealias\<close>. The state of the inner loop is the number \<open>j\<close> of \<open>mx\<close>; \<open>k\<close> is the number of \<open>mp\<close>, \<open>ps\<close> and \<open>pe\<close> its first and last
  byte as they were computed at the start of the round. \<open>clip_end\<close> and \<open>clip_start\<close> cut off what sticks out of \<open>mx\<close>.
\<close>

definition clip_end :: "(nat \<Rightarrow> bool) \<Rightarrow> nat \<Rightarrow> addr_t \<Rightarrow> movelist \<times> addr_t \<times> movelist list \<times> bool \<times> nat \<Rightarrow>
    (bail + movelist \<times> addr_t \<times> movelist list \<times> bool \<times> nat) option" where
  "clip_end ok k xe = (\<lambda>(mp, pe, fs, advance, n).
    if pe > xe then
      let delta = pe - xe
      in andthen (new_movelist ok (mdst mp + mlen mp - delta) (msrc mp + mlen mp - delta) delta n) (\<lambda>(np, n).
         Some (Inr (mp\<lparr>mlen := mlen mp - delta\<rparr>, xe, insert_at k np fs, True, n)))
    else Some (Inr (mp, pe, fs, advance, n)))"

definition clip_start :: "(nat \<Rightarrow> bool) \<Rightarrow> nat \<Rightarrow> addr_t \<Rightarrow> movelist \<times> addr_t \<times> movelist list \<times> bool \<times> nat \<Rightarrow>
    (bail + movelist \<times> addr_t \<times> movelist list \<times> bool \<times> nat) option" where
  "clip_start ok k xs = (\<lambda>(mp, ps, fs, advance, n).
    if ps < xs then
      let delta = xs - ps
      in andthen (new_movelist ok (mdst mp) ps delta n) (\<lambda>(np, n).
         let mp = mp\<lparr>msrc := msrc mp + delta\<rparr>;
             ps = msrc mp;
             mp = mp\<lparr>mdst := mdst mp + delta, mlen := mlen mp - delta\<rparr>
         in Some (Inr (mp, ps, insert_at k np fs, True, n)))
    else Some (Inr (mp, ps, fs, advance, n)))"

datatype dealias_result = Restart "movelist list" "movelist list" nat | Advance "movelist list" "movelist list" nat

function dealias_inner :: "(nat \<Rightarrow> bool) \<Rightarrow> nat \<Rightarrow> nat \<Rightarrow> addr_t \<Rightarrow> addr_t \<Rightarrow> movelist list \<Rightarrow> movelist list \<Rightarrow> nat \<Rightarrow> (bail + dealias_result) option" where
  "dealias_inner ok k j ps pe fs post n =
    (if j < k then
       let mp = fs ! k;
           mx = fs ! j;
           xs = msrc mx;
           xe = msrc mx + mlen mx - 1
       in if pe \<le> xs \<or> ps \<ge> xe then dealias_inner ok k (j + 1) ps pe fs post n
          else
            andthen (clip_end ok k xe (mp, pe, delete_movelist k fs, False, n)) (\<lambda>(mp, pe, fs, advance, n).
            andthen (clip_start ok k xs (mp, ps, fs, advance, n)) (\<lambda>(mp, ps, fs, advance, n).
              let post = mp\<lparr>msrc := mdst mx + (ps - xs)\<rparr> # post
              in if \<not> advance then Some (Inr (Restart fs post n))
                 else dealias_inner ok k (j + 1) ps pe fs post n))
     else Some (Inr (Advance fs post n)))"
  by pat_completeness auto
termination
  by (relation "measure (\<lambda>(_, k, j, _). k - j)") auto

declare dealias_inner.simps [simp del]

partial_function (option) dealias_loop :: "(nat \<Rightarrow> bool) \<Rightarrow> nat \<Rightarrow> movelist list \<Rightarrow> movelist list \<Rightarrow> nat \<Rightarrow> (bail + movelist list \<times> movelist list \<times> nat) option" where
  "dealias_loop ok k fs post n =
    (if k < length fs then
       let mp = fs ! k
       in case dealias_inner ok k 0 (msrc mp) (msrc mp + mlen mp - 1) fs post n of
            None \<Rightarrow> None
          | Some (Inl e) \<Rightarrow> Some (Inl e)
          | Some (Inr (Restart fs post n)) \<Rightarrow> dealias_loop ok k fs post n
          | Some (Inr (Advance fs post n)) \<Rightarrow> dealias_loop ok (k + 1) fs post n
     else Some (Inr (fs, post, n)))"

definition shuffle_dealias :: "(nat \<Rightarrow> bool) \<Rightarrow> movelist list \<Rightarrow> nat \<Rightarrow> (bail + movelist list \<times> movelist list \<times> nat) option" where
  "shuffle_dealias ok fs n = dealias_loop ok 0 fs [] n"

subsection \<open>The planner\<close>

record planner =
  frags :: "movelist list"
  mmap :: memmap
  moves :: "movelist list"
  nalloc :: nat

text \<open>
  The memory that a fragment needs at its destination beside its own source: its length and its start, whether the copy goes down from the
  end, and the critical byte.
\<close>

definition chunk_need :: "movelist \<Rightarrow> addr_t \<times> addr_t \<times> bool \<times> addr_t" where
  "chunk_need o' =
    (if msrc o' < mdst o' \<and> mdst o' - msrc o' < mlen o' then
       let needlen = mdst o' - msrc o'
       in (needlen, mdst o' + (mlen o' - needlen), True, mdst o' + mlen o' - 1)
     else if msrc o' > mdst o' \<and> msrc o' - mdst o' < mlen o' then (msrc o' - mdst o', mdst o', False, mdst o')
     else (mlen o', mdst o', False, mdst o'))"

text \<open>\<open>move_chunk\<close>: the fragment, or the part of it for which there is room, and the memory that it frees.\<close>

definition freed :: "movelist \<Rightarrow> addr_t \<times> addr_t" where
  "freed f =
    (if mdst f > msrc f then (msrc f, min (mlen f) (mdst f - msrc f))
     else if msrc f \<ge> mdst f + mlen f then (msrc f, mlen f)
     else (mdst f + mlen f, msrc f - mdst f))"

definition emit_move :: "(nat \<Rightarrow> bool) \<Rightarrow> nat \<Rightarrow> planner \<Rightarrow> (bail + planner) option" where
  "emit_move ok i st =
    (let f = frags st ! i
     in andthen (new_movelist ok (mdst f) (msrc f) (mlen f) (nalloc st)) (\<lambda>(mv, n).
        let (freebase, freelen) = freed f
        in andthen (add_freelist ok (mmap st) freebase freelen SMT_FREE n) (\<lambda>(mm, n).
           Some (Inr (st\<lparr>moves := moves st @ [mv], mmap := mm, frags := delete_movelist i (frags st), nalloc := n\<rparr>)))))"

definition move_chunk :: "(nat \<Rightarrow> bool) \<Rightarrow> nat \<Rightarrow> addr_t \<Rightarrow> planner \<Rightarrow> (bail + planner) option" where
  "move_chunk ok i copylen st =
    (let f = frags st ! i;
         (needlen, _, reverse, _) = chunk_need f
     in if copylen < needlen then
          let copysrc = (if reverse then msrc f + (mlen f - copylen) else msrc f)
          in andthen (split_movelist ok copysrc copylen i (frags st) (nalloc st)) (\<lambda>(i, fs, n).
             emit_move ok i (st\<lparr>frags := fs, nalloc := n\<rparr>))
        else emit_move ok i st)"

text \<open>The first fragment whose needed memory is free.\<close>

fun find_movable :: "memmap \<Rightarrow> nat \<Rightarrow> movelist list \<Rightarrow> (nat \<times> addr_t \<times> addr_t) option option" where
  "find_movable mm i [] = Some None"
| "find_movable mm i (o' # fs) =
    (let (needlen, needbase, _, _) = chunk_need o'
     in case is_free_zone mm needbase needlen of
          None \<Rightarrow> None
        | Some None \<Rightarrow> find_movable mm (i + 1) fs
        | Some (Some _) \<Rightarrow> Some (Some (i, needbase, needlen)))"

text \<open>The bytes at the critical end of the destination of the first fragment that can be claimed.\<close>

definition claimable :: "memmap \<Rightarrow> movelist \<Rightarrow> addr_t option" where
  "claimable mm f =
    (let (needlen, needbase, reverse, cbyte) = chunk_need f
     in case is_free_zone mm cbyte 1 of
          Some (Some (ep # ep' # _)) \<Rightarrow>
            let ep_len = zstart ep' - zstart ep
            in Some (if reverse then needbase + needlen - zstart ep else ep_len - (needbase - zstart ep))
        | Some None \<Rightarrow> Some 0
        | _ \<Rightarrow> None)"

text \<open>
  Eviction: another fragment \<open>o\<close> holds the critical byte. It goes to its destination, to a free zone that is large enough, or a part of it with the
  critical byte to the largest free zone.
\<close>

fun find_critical :: "addr_t \<Rightarrow> nat \<Rightarrow> movelist list \<Rightarrow> (nat \<times> movelist) option" where
  "find_critical cbyte i [] = None"
| "find_critical cbyte i (o' # fs) =
    (if \<not> (msrc o' \<le> cbyte \<and> msrc o' + mlen o' > cbyte) then find_critical cbyte (i + 1) fs else Some (i, o'))"

definition evict_target :: "memmap \<Rightarrow> movelist \<Rightarrow> bool \<Rightarrow> addr_t \<Rightarrow> (bail + addr_t \<times> addr_t \<times> addr_t) option" where
  "evict_target mm o' reverse cbyte =
    (case is_free_zone mm (mdst o') (mlen o') of
       None \<Rightarrow> None
     | Some (Some _) \<Rightarrow> Some (Inr (mdst o', msrc o', mlen o'))
     | Some None \<Rightarrow>
         (case free_area mm (mlen o') of
            None \<Rightarrow> None
          | Some (Some fstart) \<Rightarrow> Some (Inr (fstart, msrc o', mlen o'))
          | Some None \<Rightarrow>
              (case syslinux_memmap_largest mm SMT_FREE of
                 None \<Rightarrow> None
               | Some None \<Rightarrow> Some (Inl No_free_memory)
               | Some (Some (fstart, flen)) \<Rightarrow>
                   if reverse then let copysrc = max (msrc o') (cbyte + 1 - flen) in Some (Inr (fstart, copysrc, cbyte + 1 - copysrc))
                   else Some (Inr (fstart, cbyte, min flen (mlen o' - (cbyte - msrc o')))))))"

definition give_back :: "(nat \<Rightarrow> bool) \<Rightarrow> memmap \<Rightarrow> addr_t \<Rightarrow> addr_t \<Rightarrow> addr_t \<Rightarrow> addr_t \<Rightarrow> nat \<Rightarrow> (bail + addr_t \<times> memmap \<times> nat) option" where
  "give_back ok mm copysrc copylen needbase needlen n =
    (if copylen > needlen then
       andthen (if copysrc < needbase
                then andthen (add_freelist ok mm copysrc (needbase - copysrc) SMT_FREE n) (\<lambda>(mm, n). Some (Inr (copylen - (needbase - copysrc), mm, n)))
                else Some (Inr (copylen, mm, n))) (\<lambda>(copylen, mm, n).
       if copylen > needlen
       then andthen (add_freelist ok mm (copysrc + needlen) (copylen - needlen) SMT_FREE n) (\<lambda>(mm, n). Some (Inr (needlen, mm, n)))
       else Some (Inr (copylen, mm, n)))
     else Some (Inr (copylen, mm, n)))"

definition evict_chunk :: "(nat \<Rightarrow> bool) \<Rightarrow> planner \<Rightarrow> (bail + planner) option" where
  "evict_chunk ok st =
    (let f = frags st ! 0;
         (needlen, needbase, reverse, cbyte) = chunk_need f
     in case find_critical cbyte 1 (tl (frags st)) of
          None \<Rightarrow> Some (Inl No_critical_chunk)
        | Some (i, o') \<Rightarrow>
            andthen (evict_target (mmap st) o' reverse cbyte) (\<lambda>(copydst, copysrc, copylen).
            andthen (allocate_from ok (mmap st) copydst copylen (nalloc st)) (\<lambda>(mm, n).
            andthen (if copylen < mlen o' then split_movelist ok copysrc copylen i (frags st) n else Some (Inr (i, frags st, n))) (\<lambda>(i, fs, n).
            andthen (new_movelist ok copydst copysrc copylen n) (\<lambda>(mv, n).
            andthen (give_back ok mm copysrc copylen needbase needlen n) (\<lambda>(copylen, mm, n).
            move_chunk ok 0 copylen
              (st\<lparr>moves := moves st @ [mv], frags := fs[i := (fs ! i)\<lparr>msrc := copydst\<rparr>], mmap := mm, nalloc := n\<rparr>)))))))"

text \<open>One round of the main loop, for a non-empty list; \<open>evict\<close> is what happens when no fragment can be moved and nothing can be claimed.\<close>

definition plan_step :: "(planner \<Rightarrow> (bail + planner) option) \<Rightarrow> (nat \<Rightarrow> bool) \<Rightarrow> planner \<Rightarrow> (bail + planner) option" where
  "plan_step evict ok st =
    (let f = frags st ! 0
     in if msrc f = mdst f then Some (Inr (st\<lparr>frags := delete_movelist 0 (frags st)\<rparr>))
        else
          let st = st\<lparr>frags := f # filter (\<lambda>o'. msrc o' \<noteq> mdst o') (tl (frags st))\<rparr>
          in case find_movable (mmap st) 0 (frags st) of
               None \<Rightarrow> None
             | Some (Some (i, needbase, needlen)) \<Rightarrow>
                 andthen (allocate_from ok (mmap st) needbase needlen (nalloc st)) (\<lambda>(mm, n). move_chunk ok i needlen (st\<lparr>mmap := mm, nalloc := n\<rparr>))
             | Some None \<Rightarrow>
                 (let (needlen, needbase, reverse, cbyte) = chunk_need f
                  in case claimable (mmap st) f of
                       None \<Rightarrow> None
                     | Some avail \<Rightarrow>
                         if avail \<noteq> 0 then
                           let copylen = min needlen avail
                           in andthen (allocate_from ok (mmap st) (if reverse then needbase + needlen - copylen else needbase) copylen (nalloc st)) (\<lambda>(mm, n).
                              move_chunk ok 0 copylen (st\<lparr>mmap := mm, nalloc := n\<rparr>))
                         else evict st))"

partial_function (option) plan_loop :: "(planner \<Rightarrow> (bail + planner) option) \<Rightarrow> (nat \<Rightarrow> bool) \<Rightarrow> planner \<Rightarrow> (bail + planner) option" where
  "plan_loop evict ok st =
    (if frags st = [] then Some (Inr st)
     else case plan_step evict ok st of None \<Rightarrow> None | Some (Inl e) \<Rightarrow> Some (Inl e) | Some (Inr st) \<Rightarrow> plan_loop evict ok st)"

text \<open>The working map: the zones of the given one with \<open>SMT_ZERO\<close> as free, and then the sources as allocated.\<close>

fun add_zones :: "(nat \<Rightarrow> bool) \<Rightarrow> memmap \<Rightarrow> memmap \<Rightarrow> nat \<Rightarrow> (bail + memmap \<times> nat) option" where
  "add_zones ok [] mm n = None"
| "add_zones ok (z # zs) mm n =
    (if ztype z = SMT_END then Some (Inr (mm, n))
     else case zs of [] \<Rightarrow> None
       | z' # _ \<Rightarrow> andthen (add_freelist ok mm (zstart z) (zstart z' - zstart z) (if ztype z = SMT_ZERO then SMT_FREE else ztype z) n)
           (\<lambda>(mm, n). add_zones ok zs mm n))"

fun add_sources :: "(nat \<Rightarrow> bool) \<Rightarrow> movelist list \<Rightarrow> memmap \<Rightarrow> nat \<Rightarrow> (bail + memmap \<times> nat) option" where
  "add_sources ok [] mm n = Some (Inr (mm, n))"
| "add_sources ok (f # fs) mm n = andthen (add_freelist ok mm (msrc f) (mlen f) SMT_ALLOC n) (\<lambda>(mm, n). add_sources ok fs mm n)"

text \<open>The result is the list of moves for the return value 0.\<close>

definition compute_movelist :: "(planner \<Rightarrow> (bail + planner) option) \<Rightarrow> (nat \<Rightarrow> bool) \<Rightarrow> movelist list \<Rightarrow> memmap \<Rightarrow> (bail + movelist list) option" where
  "compute_movelist evict ok ifrags memmap =
    (case syslinux_init_memmap ok 0 of
       (None, _) \<Rightarrow> Some (Inl Nomem)
     | (Some mm, n) \<Rightarrow>
         andthen (dup_movelist ok ifrags n) (\<lambda>(fs, n).
         andthen (shuffle_dealias ok fs n) (\<lambda>(fs, postcopy, n).
         andthen (add_zones ok memmap mm n) (\<lambda>(mm, n).
         andthen (add_sources ok fs mm n) (\<lambda>(mm, n).
         andthen (plan_loop evict ok \<lparr>frags = fs, mmap = mm, moves = [], nalloc = n\<rparr>) (\<lambda>st.
         Some (Inr (moves st @ postcopy))))))))"

definition syslinux_compute_movelist :: "(nat \<Rightarrow> bool) \<Rightarrow> movelist list \<Rightarrow> memmap \<Rightarrow> (bail + movelist list) option" where
  "syslinux_compute_movelist ok ifrags memmap = compute_movelist (evict_chunk ok) ok ifrags memmap"

declare dealias_loop.simps [code] plan_loop.simps [code]

end
