(* ===== verification/MovePlan.thy ===== *)
theory MovePlan
  imports Movebits
begin

section \<open>The planner of memory moves: what the moves do\<close>

text \<open>
  Executed in order, the moves put every fragment in its place. The invariant relates the fragments that are left, the memory map and
  the memory after the moves so far. It is kept by every round of the planner that does not evict a fragment; fragments
  that can be brought into an order are planned without eviction. A round that evicts does not keep it, and the last theorem says when.
\<close>

subsection \<open>Words and maps\<close>

lemma andthen_simps [simp]:
  "andthen (Some (Inr x)) f = f x" "andthen (Some (Inl e)) f = Some (Inl e)" "andthen None f = None"
  by (simp_all add: andthen_def)

text \<open>The type of a byte, by its number.\<close>

definition ztat :: "memmap \<Rightarrow> nat \<Rightarrow> syslinux_memmap_types" where
  "ztat mm a = zone_at mm (word_of_nat a)"

definition rng :: "addr_t \<Rightarrow> addr_t \<Rightarrow> nat set" where
  "rng s l = {unat s..<unat s + unat l}"

lemma covers_rng: "no_wrap s l \<Longrightarrow> a < 2 ^ 32 \<Longrightarrow> covers s l (word_of_nat a) \<longleftrightarrow> a \<in> rng s l" for s l :: addr_t
proof -
  assume w: "no_wrap s l" and a: "a < 2 ^ 32"
  have ua: "unat (word_of_nat a :: addr_t) = a" using a by (simp add: unsigned_of_nat take_bit_nat_eq_self)
  show ?thesis
  proof (cases "l = 0")
    case False
    note n = no_wrap_last [OF w False]
    have "0 < unat l" using False by (simp add: unat_gt_0)
    then show ?thesis using False by (auto simp: rng_def word_le_nat_alt ua n(2))
  qed (simp add: rng_def)
qed

lemma rng_limit: "no_wrap s l \<Longrightarrow> a \<in> rng s l \<Longrightarrow> a < 2 ^ 32" for s l :: addr_t
  by (auto simp: rng_def)

lemma add_memmap_ok:
  assumes "zl_invar mm" and "t \<noteq> SMT_END" and "no_wrap s l"
  shows "\<exists>mm' n'. syslinux_add_memmap (\<lambda>_. True) n mm s l t = Some (0, mm', n') \<and> zl_invar mm' \<and>
    (\<forall>a < 2 ^ 32. ztat mm' a = (if a \<in> rng s l then t else ztat mm a))"
proof -
  obtain mm' where m: "zl_put mm s l t = Some mm'" "zl_invar mm'" "\<forall>a. zone_at mm' a = (if covers s l a then t else zone_at mm a)"
    using zl_put_ok [OF assms] by blast
  then have "uncounted (syslinux_add_memmap (\<lambda>_. True) 0 mm s l t) = Some (0, mm')"
    by (auto simp: zl_put_def uncounted_def split: option.splits if_splits)
  then have "uncounted (syslinux_add_memmap (\<lambda>_. True) n mm s l t) = Some (0, mm')" using add_memmap_count by metis
  then obtain n' where "syslinux_add_memmap (\<lambda>_. True) n mm s l t = Some (0, mm', n')" by (auto simp: uncounted_def)
  then show ?thesis using m(2,3) covers_rng [OF assms(3)] by (auto simp: ztat_def)
qed

lemma add_freelist_ok:
  assumes "zl_invar mm" and "t \<noteq> SMT_END" and "no_wrap s l"
  shows "\<exists>mm' n'. add_freelist (\<lambda>_. True) mm s l t n = Some (Inr (mm', n')) \<and> zl_invar mm' \<and>
    (\<forall>a < 2 ^ 32. ztat mm' a = (if a \<in> rng s l then t else ztat mm a))"
  using add_memmap_ok [OF assms, of n] by (auto simp: add_freelist_def)

lemma allocate_from_ok:
  assumes "zl_invar mm" and "no_wrap s l"
  shows "\<exists>mm' n'. allocate_from (\<lambda>_. True) mm s l n = Some (Inr (mm', n')) \<and> zl_invar mm' \<and>
    (\<forall>a < 2 ^ 32. ztat mm' a = (if a \<in> rng s l then SMT_ALLOC else ztat mm a))"
  using add_memmap_ok [OF assms(1) _ assms(2), of SMT_ALLOC n] by (auto simp: allocate_from_def)

subsection \<open>Free zones\<close>

text \<open>A map without memory of last resort.\<close>

definition no_terminal :: "memmap \<Rightarrow> bool" where
  "no_terminal mm \<longleftrightarrow> (\<forall>a < 2 ^ 32. ztat mm a \<noteq> SMT_TERMINAL)"

text \<open>The zones of a suffix of the list: neighbours differ in their type, and none but the last is the end token.\<close>

definition zsuffix :: "memmap \<Rightarrow> bool" where
  "zsuffix zs \<longleftrightarrow> (\<forall>z \<in> set zs. ztype z \<noteq> SMT_END \<and> ztype z \<noteq> SMT_TERMINAL) \<and> successively (\<lambda>z z'. ztype z \<noteq> ztype z') zs"

lemma zsuffix_Cons: "zsuffix (z # zs) \<Longrightarrow> zsuffix zs"
  by (cases zs) (auto simp: zsuffix_def)

lemma free_inner_cases:
  assumes "zsuffix (z # zs)"
  shows "free_inner lst ((z # zs) @ [end_token]) =
    (if ztype z = SMT_FREE then
       if lst \<le> zstart (hd (zs @ [end_token])) - 1 then Some (True, (z # zs) @ [end_token]) else Some (False, zs @ [end_token])
     else Some (False, (z # zs) @ [end_token]))"
proof (cases zs)
  case Nil
  then show ?thesis using assms by (auto simp: zsuffix_def valid_terminal_type_def)
next
  case (Cons z' zs')
  then show ?thesis using assms by (auto simp: zsuffix_def valid_terminal_type_def)
qed

lemma free_loop_cases:
  assumes "zsuffix zs"
  shows "free_loop start lst (zs @ [end_token]) = Some None \<or>
    (\<exists>z z' r. free_loop start lst (zs @ [end_token]) = Some (Some (z # z' # r)) \<and> (z, zstart z') \<in> set (extents (zs @ [end_token])) \<and>
       ztype z = SMT_FREE \<and> zstart z \<le> start \<and> lst \<le> zstart z' - 1)"
  using assms
proof (induction "length zs" arbitrary: zs rule: less_induct)
  case less
  show ?case
  proof (cases zs)
    case Nil
    then show ?thesis by (subst free_loop.simps) simp
  next
    case (Cons z ys)
    have nend: "ztype z \<noteq> SMT_END" using less.prems Cons by (simp add: zsuffix_def)
    obtain z' r where t: "ys @ [end_token] = z' # r" by (cases ys) auto
    note I = free_inner_cases [OF less.prems [unfolded Cons], of lst, unfolded t]
    have rec: ?thesis if "free_loop start lst (zs @ [end_token]) = free_loop start lst (us @ [end_token])" "\<exists>xs. zs = xs @ us" "length us < length zs" "zsuffix us" for us
      using less.hyps [OF that(3,4)] that(1,2) extents_suffix [of "us @ [end_token]"] by fastforce
    have recy: ?thesis if "free_loop start lst (zs @ [end_token]) = free_loop start lst (ys @ [end_token])"
      using rec [OF that] Cons less.prems zsuffix_Cons by fastforce
    consider "\<not> zstart z \<le> start" | "zstart z \<le> start" "ztype z \<noteq> SMT_FREE" | "zstart z \<le> start" "ztype z = SMT_FREE" "lst \<le> zstart z' - 1"
      | "zstart z \<le> start" "ztype z = SMT_FREE" "\<not> lst \<le> zstart z' - 1" by blast
    then show ?thesis
    proof cases
      case 1
      then show ?thesis using Cons nend by (intro recy) (subst free_loop.simps, simp)
    next
      case 2
      then have "\<not> start < zstart z" by simp
      then show ?thesis using 2 Cons nend I t by (intro recy) (subst free_loop.simps, simp del: free_inner.simps)
    next
      case 3
      then have "free_loop start lst (zs @ [end_token]) = Some (Some (z # z' # r))"
        using Cons nend I t by (subst free_loop.simps) (simp del: free_inner.simps)
      then show ?thesis using 3 Cons t by auto
    next
      case 4
      have ne: "ys \<noteq> []"
      proof
        assume "ys = []"
        then have "zstart z' - 1 = - 1" using t by auto
        then show False using 4(3) by simp
      qed
      then obtain ys' where ys: "ys = z' # ys'" "r = ys' @ [end_token]" using t by (cases ys) auto
      have eq: "free_loop start lst (zs @ [end_token]) = (if zstart z' > start then Some None else free_loop start lst (ys' @ [end_token]))"
        using 4 Cons nend I t ys by (subst free_loop.simps) (simp del: free_inner.simps)
      show ?thesis
      proof (cases "zstart z' > start")
        case False
        have "zsuffix ys'" using less.prems unfolding Cons ys(1) by (rule zsuffix_Cons [OF zsuffix_Cons])
        with False show ?thesis using eq Cons ys by (intro rec [of ys']) auto
      qed (simp add: eq)
    qed
  qed
qed

lemma zone_type_at:
  assumes inv: "zl_invar mm" and z: "(z, e) \<in> set (extents mm)"
  shows "zone_at mm (zstart z) = ztype z"
proof (cases "e = 0")
  case True
  then show ?thesis using zone_at_extent [OF inv z, of "zstart z"] by simp
next
  case False
  obtain zs where zs: "mm = zs @ [end_token]" "rsorted (map zpair zs)" using inv by (auto simp: zl_invar_def rwf_def)
  have "zstart z < e"
    using z False zs(2) unfolding zs(1)
  proof (induction zs rule: induct_list012)
    case (3 y y' ys)
    then show ?case by (auto simp: rsorted_simps)
  qed simp_all
  then have "zstart z \<le> e - 1" using False by (simp add: less_eq_dec_iff)
  then show ?thesis using zone_at_extent [OF inv z, of "zstart z"] by simp
qed

lemma zl_invar_zsuffix:
  assumes inv: "zl_invar mm" and nt: "no_terminal mm"
  obtains zs where "mm = zs @ [end_token]" "zsuffix zs"
proof -
  obtain zs where zs: "mm = zs @ [end_token]" "\<forall>z \<in> set zs. ztype z \<noteq> SMT_END" "rcompact (map zpair zs)" using inv by (auto simp: zl_invar_def)
  have "ztype z \<noteq> SMT_TERMINAL" if z: "z \<in> set zs" for z
  proof -
    obtain i where i: "i < length zs" "zs ! i = z" using z by (auto simp: in_set_conv_nth)
    then have "length zs = length (map zstart (tl zs @ [end_token]))" by (cases zs) auto
    then have "(z, map zstart (tl zs @ [end_token]) ! i) \<in> set (extents mm)" unfolding zs(1) extents_snoc using i by (auto simp: set_zip)
    from zone_type_at [OF inv this] have "ztat mm (unat (zstart z)) = ztype z" by (simp add: ztat_def)
    moreover have "unat (zstart z) < 2 ^ 32" using unat_less [of "zstart z"] by simp
    ultimately show ?thesis using nt unfolding no_terminal_def by metis
  qed
  moreover have "successively (\<lambda>z z'. ztype z \<noteq> ztype z') zs" using zs(3) by (simp add: rcompact_def successively_map)
  ultimately show thesis using that zs(1,2) by (simp add: zsuffix_def)
qed

lemma is_free_zone_cases:
  assumes inv: "zl_invar mm" and nt: "no_terminal mm" and w: "no_wrap s l" "l \<noteq> 0"
  obtains "is_free_zone mm s l = Some None"
  | z z' r where "is_free_zone mm s l = Some (Some (z # z' # r))" "(z, zstart z') \<in> set (extents mm)" "ztype z = SMT_FREE" "zstart z \<le> s"
      "s + l - 1 \<le> zstart z' - 1"
proof -
  obtain zs where "mm = zs @ [end_token]" "zsuffix zs" using zl_invar_zsuffix [OF inv nt] .
  then show thesis using free_loop_cases [of zs s "s + l - 1"] that unfolding is_free_zone_def by blast
qed

lemma extent_free:
  assumes inv: "zl_invar mm" and z: "(z, e) \<in> set (extents mm)" "ztype z = SMT_FREE" and a: "unat (zstart z) \<le> a" "a \<le> unat (e - 1)"
  shows "ztat mm a = SMT_FREE"
proof -
  have "a < 2 ^ 32" using a(2) unat_less [of "e - 1"] by simp
  then have "unat (word_of_nat a :: addr_t) = a" by (simp add: unsigned_of_nat take_bit_nat_eq_self)
  then show ?thesis using zone_at_extent [OF inv z(1), of "word_of_nat a"] a z(2) by (simp add: ztat_def word_le_nat_alt)
qed

lemma unat_diff: "unat b \<le> unat a \<Longrightarrow> unat (a - b) = unat a - unat b" for a b :: addr_t
  by (simp add: unat_sub word_le_nat_alt)

lemma unat_plus: "unat a + unat b < 2 ^ 32 \<Longrightarrow> unat (a + b) = unat a + unat b" for a b :: addr_t
  by (simp add: unat_word_ariths)

lemma word_last_diff:
  fixes s e :: addr_t
  assumes "e - s \<noteq> 0" and "s \<le> e - 1"
  shows "unat s + unat (e - s) = unat (e - 1) + 1"
proof -
  have "unat (e - 1 - s) = unat (e - 1) - unat s" using assms(2) by (intro unat_diff) (simp add: word_le_nat_alt)
  moreover have "e - 1 - s = e - s - 1" by simp
  moreover have "unat (e - s - 1) = unat (e - s) - 1" "0 < unat (e - s)" using assms(1) by (auto simp: unat_minus_one unat_gt_0)
  ultimately show ?thesis using assms(2) by (simp add: word_le_nat_alt)
qed

lemma extent_order:
  assumes inv: "zl_invar mm" and z: "(z, e) \<in> set (extents mm)"
  shows "zstart z \<le> e - 1"
proof (cases "e = 0")
  case False
  obtain zs where zs: "mm = zs @ [end_token]" "rsorted (map zpair zs)" using inv by (auto simp: zl_invar_def rwf_def)
  have "zstart z < e"
    using z False zs(2) unfolding zs(1)
  proof (induction zs rule: induct_list012)
    case (3 y y' ys)
    then show ?case by (auto simp: rsorted_simps)
  qed simp_all
  then show ?thesis using False by (simp add: less_eq_dec_iff)
qed simp

lemma extent_rng:
  assumes inv: "zl_invar mm" and z: "(z, e) \<in> set (extents mm)" and ne: "e - zstart z \<noteq> 0"
  shows "no_wrap (zstart z) (e - zstart z)" and "a \<in> rng (zstart z) (e - zstart z) \<Longrightarrow> ztat mm a = ztype z"
proof -
  have w: "unat (zstart z) + unat (e - zstart z) = unat (e - 1) + 1" by (rule word_last_diff [OF ne extent_order [OF inv z]])
  have lim: "unat (e - 1) < 2 ^ 32" using unat_less [of "e - 1"] by simp
  show "no_wrap (zstart z) (e - zstart z)" using w lim by simp
  assume "a \<in> rng (zstart z) (e - zstart z)"
  then have a: "unat (zstart z) \<le> a" "a \<le> unat (e - 1)" using w by (auto simp: rng_def)
  then have "unat (word_of_nat a :: addr_t) = a" using lim by (simp add: unsigned_of_nat take_bit_nat_eq_self)
  then show "ztat mm a = ztype z" using zone_at_extent [OF inv z, of "word_of_nat a"] a by (simp add: ztat_def word_le_nat_alt)
qed

lemma extents_cover:
  assumes "rsorted (map zpair zs)" and "zs \<noteq> []" and "zstart (hd zs) \<le> a"
  shows "\<exists>(z, e) \<in> set (extents (zs @ [end_token])). zstart z \<le> a \<and> a \<le> e - 1"
  using assms
proof (induction zs rule: induct_list012)
  case (3 y y' ys)
  show ?case
  proof (cases "zstart y' \<le> a")
    case True
    then show ?thesis using "3.IH"(2) "3.prems"(1) by (auto simp: rsorted_simps)
  next
    case False
    then have "zstart y' \<noteq> 0" by auto
    then have "a \<le> zstart y' - 1" using False by (simp add: less_eq_dec_iff)
    then show ?thesis using "3.prems"(3) by auto
  qed
qed simp_all

text \<open>The zone behind a zone has another type.\<close>

lemma extent_next:
  assumes "successively (\<lambda>z z'. ztype z \<noteq> ztype z') zs" and "(z, e) \<in> set (extents (zs @ [end_token]))"
  shows "e = 0 \<or> (\<exists>z' e'. (z', e') \<in> set (extents (zs @ [end_token])) \<and> zstart z' = e \<and> ztype z' \<noteq> ztype z)"
  using assms
proof (induction zs rule: induct_list012)
  case (3 y y' ys)
  show ?case
  proof (cases "(z, e) = (y, zstart y')")
    case True
    obtain e' r where "extents ((y' # ys) @ [end_token]) = (y', e') # r" by (cases ys) auto
    then show ?thesis using True "3.prems"(1) by auto
  next
    case False
    then have "(z, e) \<in> set (extents ((y' # ys) @ [end_token]))" using "3.prems"(2) by auto
    then show ?thesis using "3.IH"(2) "3.prems"(1) by fastforce
  qed
qed auto

text \<open>Memory that is free is found.\<close>

lemma free_loop_finds:
  assumes "zsuffix zs" and "rsorted (map zpair zs)" and "(z0, e0) \<in> set (extents (zs @ [end_token]))" and "ztype z0 = SMT_FREE"
    and "zstart z0 \<le> start" and "lst \<le> e0 - 1" and "start \<le> lst"
  shows "free_loop start lst (zs @ [end_token]) \<noteq> Some None"
  using assms(1-3)
proof (induction "length zs" arbitrary: zs rule: less_induct)
  case less
  obtain z ys where zs: "zs = z # ys" using less.prems(3) by (cases zs) auto
  have nend: "ztype z \<noteq> SMT_END" using less.prems(1) zs by (simp add: zsuffix_def)
  obtain z' r where t: "ys @ [end_token] = z' # r" by (cases ys) auto
  note I = free_inner_cases [OF less.prems(1) [unfolded zs], of lst, unfolded t]
  have x: "extents (zs @ [end_token]) = (z, zstart z') # extents (ys @ [end_token])" using zs t by simp
  show ?case
  proof (cases "(z0, e0) = (z, zstart z')")
    case True
    then show ?thesis using assms(4-6) zs nend I t by (subst free_loop.simps) (simp del: free_inner.simps)
  next
    case False
    then have m: "(z0, e0) \<in> set (extents (ys @ [end_token]))" using less.prems(3) x by auto
    then have y0: "z0 \<in> set ys" by (simp only: extents_snoc) (auto dest: set_zip_leftD)
    then obtain ys' where ys: "ys = z' # ys'" "r = ys' @ [end_token]" using t by (cases ys) auto
    have sorted: "zstart z < zstart z'" "zstart z' \<le> zstart z0" "rsorted (map zpair ys)" "rsorted (map zpair ys')"
      using less.prems(2) y0 unfolding zs ys by (auto simp: rsorted_simps)
    have zst: "zstart z \<le> start" "zstart z' \<le> start" using sorted assms(5) by auto
    show ?thesis
    proof (cases "ztype z = SMT_FREE")
      case free: True
      have "zstart z' \<noteq> 0" using sorted(1) by auto
      then have nl: "\<not> lst \<le> zstart z' - 1" using zst(2) assms(7) by (auto simp: less_eq_dec_iff)
      have "free_loop start lst (zs @ [end_token]) = free_loop start lst (ys' @ [end_token])"
        using free zs nend I t ys zst nl leD [OF zst(2)] by (subst free_loop.simps) (simp del: free_inner.simps)
      moreover have "ztype z' \<noteq> SMT_FREE" using less.prems(1) free by (auto simp: zs ys zsuffix_def)
      then have "z0 \<noteq> z'" using assms(4) by auto
      then have "(z0, e0) \<in> set (extents (ys' @ [end_token]))" using m unfolding ys by (cases ys') auto
      moreover have "zsuffix ys'" using less.prems(1) unfolding zs ys(1) by (rule zsuffix_Cons [OF zsuffix_Cons])
      ultimately show ?thesis using less.hyps [of ys'] sorted(4) zs ys by simp
    next
      case nf: False
      have "free_loop start lst (zs @ [end_token]) = free_loop start lst (ys @ [end_token])"
        using nf zs nend I t zst leD [OF zst(1)] by (subst free_loop.simps) (simp del: free_inner.simps)
      moreover have "zsuffix ys" using less.prems(1) unfolding zs by (rule zsuffix_Cons)
      ultimately show ?thesis using less.hyps [of ys] sorted(3) m zs by simp
    qed
  qed
qed

lemma is_free_zone_complete:
  assumes inv: "zl_invar mm" and nt: "no_terminal mm" and w: "no_wrap s l" "l \<noteq> 0" and free: "\<forall>a \<in> rng s l. ztat mm a = SMT_FREE"
  shows "is_free_zone mm s l \<noteq> Some None"
proof -
  obtain zs where zs: "mm = zs @ [end_token]" "zsuffix zs" using zl_invar_zsuffix [OF inv nt] .
  have wf: "rsorted (map zpair zs)" "zs \<noteq> []" "zstart (hd zs) = 0" using inv zs(1) by (auto simp: zl_invar_def rwf_def hd_map)
  obtain z e where z: "(z, e) \<in> set (extents mm)" "zstart z \<le> s" "s \<le> e - 1" using extents_cover [OF wf(1,2), of s] wf(3) zs(1) by auto
  note L = no_wrap_last [OF w]
  have us: "unat s \<in> rng s l" using w(2) by (simp add: rng_def unat_gt_0)
  have "zone_at mm s = ztype z" by (rule zone_at_extent [OF inv z])
  then have f: "ztype z = SMT_FREE" using bspec [OF free us] by (simp add: ztat_def)
  have last: "s + l - 1 \<le> e - 1"
  proof (rule ccontr)
    assume n: "\<not> s + l - 1 \<le> e - 1"
    then have "e \<noteq> 0" by auto
    have "successively (\<lambda>z z'. ztype z \<noteq> ztype z') zs" using zs(2) by (simp add: zsuffix_def)
    from extent_next [OF this] z(1) zs(1) \<open>e \<noteq> 0\<close> obtain z' e' where z': "(z', e') \<in> set (extents mm)" "zstart z' = e" "ztype z' \<noteq> ztype z" by blast
    have "unat (e - 1) = unat e - 1" "0 < unat e" using \<open>e \<noteq> 0\<close> by (auto simp: unat_minus_one unat_gt_0)
    then have "unat e \<in> rng s l" using n z(3) L(2) w by (auto simp: rng_def word_le_nat_alt)
    moreover have "ztat mm (unat e) = ztype z'" using zone_type_at [OF inv z'(1)] z'(2) by (simp add: ztat_def)
    ultimately show False using free z'(3) f by auto
  qed
  have "s \<le> s + l - 1" by (rule L(1))
  then show ?thesis unfolding is_free_zone_def zs(1) using free_loop_finds [OF zs(2) wf(1) _ f z(2) last] z(1) zs(1) by simp
qed

subsection \<open>Fragments\<close>

type_synonym contents = "nat \<Rightarrow> byte"

definition src_rng :: "movelist \<Rightarrow> nat set" where
  "src_rng f = rng (msrc f) (mlen f)"

definition dst_rng :: "movelist \<Rightarrow> nat set" where
  "dst_rng f = rng (mdst f) (mlen f)"

definition frag_ok :: "movelist \<Rightarrow> bool" where
  "frag_ok f \<longleftrightarrow> mlen f \<noteq> 0 \<and> no_wrap (msrc f) (mlen f) \<and> no_wrap (mdst f) (mlen f)"

text \<open>A move copies as \<open>memmove\<close> does, whatever overlaps.\<close>

definition exec_move :: "movelist \<Rightarrow> contents \<Rightarrow> contents" where
  "exec_move mv mem = (\<lambda>a. if a \<in> dst_rng mv then mem (unat (msrc mv) + (a - unat (mdst mv))) else mem a)"

definition exec_moves :: "movelist list \<Rightarrow> contents \<Rightarrow> contents" where
  "exec_moves mvs mem = fold exec_move mvs mem"

lemma exec_moves_snoc: "exec_moves (mvs @ [mv]) mem = exec_move mv (exec_moves mvs mem)"
  by (simp add: exec_moves_def)

lemma frag_rng:
  assumes "frag_ok f"
  shows "src_rng f = {unat (msrc f)..<unat (msrc f) + unat (mlen f)}" and "dst_rng f = {unat (mdst f)..<unat (mdst f) + unat (mlen f)}"
    and "unat (msrc f) + unat (mlen f) \<le> 2 ^ 32" and "unat (mdst f) + unat (mlen f) \<le> 2 ^ 32" and "0 < unat (mlen f)"
  using assms by (simp_all add: src_rng_def dst_rng_def rng_def frag_ok_def unat_gt_0)

lemma freed_ok:
  assumes ok: "frag_ok f" and ne: "msrc f \<noteq> mdst f" and fr: "freed f = (b, l)"
  shows "rng b l = src_rng f - dst_rng f" and "no_wrap b l"
proof -
  note R = frag_rng [OF ok]
  consider (up) "msrc f < mdst f" | (down) "mdst f < msrc f" using ne by (metis linorder_neqE)
  then have "rng b l = src_rng f - dst_rng f \<and> no_wrap b l"
  proof cases
    case up
    then have "b = msrc f" "l = min (mlen f) (mdst f - msrc f)" using fr by (auto simp: freed_def)
    moreover have "unat (mdst f - msrc f) = unat (mdst f) - unat (msrc f)" "unat (msrc f) < unat (mdst f)" using up by (auto simp: word_less_nat_alt intro!: unat_diff)
    moreover from this have "unat (min (mlen f) (mdst f - msrc f)) = min (unat (mlen f)) (unat (mdst f) - unat (msrc f))"
      by (auto simp: min_def word_le_nat_alt)
    ultimately show ?thesis using R by (auto simp: rng_def)
  next
    case down
    then have lt: "unat (mdst f) < unat (msrc f)" "\<not> mdst f > msrc f" by (auto simp: word_less_nat_alt)
    then have "unat (mdst f) + unat (mlen f) < 2 ^ 32" using R(3) by simp
    then have e: "unat (mdst f + mlen f) = unat (mdst f) + unat (mlen f)" by (rule unat_plus)
    show ?thesis
    proof (cases "msrc f \<ge> mdst f + mlen f")
      case True
      then have "b = msrc f" "l = mlen f" using fr lt by (auto simp: freed_def)
      moreover have "unat (mdst f) + unat (mlen f) \<le> unat (msrc f)" using True e by (simp add: word_le_nat_alt)
      ultimately show ?thesis using R by (auto simp: rng_def)
    next
      case False
      then have "b = mdst f + mlen f" "l = msrc f - mdst f" using fr lt by (auto simp: freed_def)
      moreover have "unat (msrc f - mdst f) = unat (msrc f) - unat (mdst f)" using lt(1) by (simp add: unat_diff)
      moreover have "unat (msrc f) < unat (mdst f) + unat (mlen f)" using False e by (simp add: word_le_nat_alt)
      ultimately show ?thesis using R e lt by (auto simp: rng_def)
    qed
  qed
  then show "rng b l = src_rng f - dst_rng f" "no_wrap b l" by auto
qed

text \<open>The needed memory is the destination without the part in the source, at one end of the destination.\<close>

lemma chunk_need_ok:
  assumes ok: "frag_ok f" and ne: "msrc f \<noteq> mdst f" and nd: "chunk_need f = (nl, nb, rv, cb)"
  shows "nl \<noteq> 0" and "no_wrap nb nl" and "nl \<le> mlen f" and "dst_rng f \<subseteq> rng nb nl \<union> src_rng f"
    and "rv \<Longrightarrow> unat nb + unat nl = unat (mdst f) + unat (mlen f) \<and> unat cb + 1 = unat (mdst f) + unat (mlen f)" and "\<not> rv \<Longrightarrow> nb = mdst f \<and> cb = mdst f"
proof -
  note R = frag_rng [OF ok]
  consider (up) "msrc f < mdst f \<and> mdst f - msrc f < mlen f" | (down) "\<not> (msrc f < mdst f \<and> mdst f - msrc f < mlen f)" "msrc f > mdst f \<and> msrc f - mdst f < mlen f"
    | (apart) "\<not> (msrc f < mdst f \<and> mdst f - msrc f < mlen f)" "\<not> (msrc f > mdst f \<and> msrc f - mdst f < mlen f)" by blast
  then have "nl \<noteq> 0 \<and> no_wrap nb nl \<and> nl \<le> mlen f \<and> dst_rng f \<subseteq> rng nb nl \<union> src_rng f \<and>
    (rv \<longrightarrow> unat nb + unat nl = unat (mdst f) + unat (mlen f) \<and> unat cb + 1 = unat (mdst f) + unat (mlen f)) \<and> (\<not> rv \<longrightarrow> nb = mdst f \<and> cb = mdst f)"
  proof cases
    case up
    then have v: "nl = mdst f - msrc f" "nb = mdst f + (mlen f - nl)" "rv" "cb = mdst f + mlen f - 1" using nd by (auto simp: chunk_need_def Let_def)
    have nl: "unat nl = unat (mdst f) - unat (msrc f)" "unat (msrc f) < unat (mdst f)" "unat nl < unat (mlen f)"
      using up by (auto simp: v(1) word_less_nat_alt intro!: unat_diff)
    have "unat (mlen f - nl) = unat (mlen f) - unat nl" using nl(3) by (intro unat_diff) simp
    moreover have "unat (mdst f) + (unat (mlen f) - unat nl) < 2 ^ 32" using R(4) nl by simp
    ultimately have nb: "unat nb = unat (mdst f) + (unat (mlen f) - unat nl)" unfolding v(2) using unat_plus [of "mdst f" "mlen f - nl"] by simp
    have "unat cb = unat (mdst f) + unat (mlen f) - 1" unfolding v(4) using no_wrap_last(2) [of "mdst f" "mlen f"] ok by (simp add: frag_ok_def)
    moreover have "nl \<noteq> 0" "nl \<le> mlen f" using nl by (auto simp: word_le_nat_alt unat_eq_0)
    ultimately show ?thesis using R nl nb v(3) by (auto simp: rng_def)
  next
    case down
    then have v: "nl = msrc f - mdst f" "nb = mdst f" "\<not> rv" "cb = mdst f" using nd by (auto simp: chunk_need_def Let_def)
    have nl: "unat nl = unat (msrc f) - unat (mdst f)" "unat (mdst f) < unat (msrc f)" "unat nl < unat (mlen f)"
      using down(2) by (auto simp: v(1) word_less_nat_alt intro!: unat_diff)
    moreover have "nl \<noteq> 0" "nl \<le> mlen f" using nl by (auto simp: word_le_nat_alt unat_eq_0)
    ultimately show ?thesis using R v by (auto simp: rng_def)
  next
    case apart
    then have "nl = mlen f" "nb = mdst f" "\<not> rv" "cb = mdst f" using nd unfolding chunk_need_def if_not_P [OF apart(1)] if_not_P [OF apart(2)] by auto
    then show ?thesis using R ok by (auto simp: rng_def frag_ok_def)
  qed
  then show "nl \<noteq> 0" "no_wrap nb nl" "nl \<le> mlen f" "dst_rng f \<subseteq> rng nb nl \<union> src_rng f"
    "rv \<Longrightarrow> unat nb + unat nl = unat (mdst f) + unat (mlen f) \<and> unat cb + 1 = unat (mdst f) + unat (mlen f)" "\<not> rv \<Longrightarrow> nb = mdst f \<and> cb = mdst f" by auto
qed

lemma chunk_need_sub:
  assumes ok: "frag_ok f" and nd: "chunk_need f = (nl, nb, rv, cb)" and ne: "msrc f \<noteq> mdst f"
  shows "rng nb nl \<subseteq> dst_rng f - src_rng f"
proof -
  note R = frag_rng [OF ok]
  note N = chunk_need_ok [OF ok ne nd]
  consider (up) "msrc f < mdst f \<and> mdst f - msrc f < mlen f" | (down) "\<not> (msrc f < mdst f \<and> mdst f - msrc f < mlen f)" "msrc f > mdst f \<and> msrc f - mdst f < mlen f"
    | (apart) "\<not> (msrc f < mdst f \<and> mdst f - msrc f < mlen f)" "\<not> (msrc f > mdst f \<and> msrc f - mdst f < mlen f)" by blast
  then show ?thesis
  proof cases
    case up
    then have v: "nl = mdst f - msrc f" "rv" using nd by (auto simp: chunk_need_def Let_def)
    have "unat nl = unat (mdst f) - unat (msrc f)" "unat (msrc f) < unat (mdst f)" "unat nl < unat (mlen f)"
      using up by (auto simp: v(1) word_less_nat_alt intro!: unat_diff)
    then show ?thesis using R N(5) v(2) by (auto simp: rng_def)
  next
    case down
    then have v: "nl = msrc f - mdst f" "nb = mdst f" using nd by (auto simp: chunk_need_def Let_def)
    have "unat nl = unat (msrc f) - unat (mdst f)" "unat (mdst f) < unat (msrc f)" "unat nl < unat (mlen f)"
      using down(2) by (auto simp: v(1) word_less_nat_alt intro!: unat_diff)
    then show ?thesis using R v(2) by (auto simp: rng_def)
  next
    case apart
    then have v: "nl = mlen f" "nb = mdst f" using nd unfolding chunk_need_def if_not_P [OF apart(1)] if_not_P [OF apart(2)] by auto
    have "unat (mlen f) \<le> unat (mdst f) - unat (msrc f) \<and> unat (msrc f) < unat (mdst f) \<or> unat (mlen f) \<le> unat (msrc f) - unat (mdst f) \<and> unat (mdst f) < unat (msrc f)"
    proof (cases "msrc f < mdst f")
      case True
      then have "unat (mdst f - msrc f) = unat (mdst f) - unat (msrc f)" by (intro unat_diff) (simp add: word_less_nat_alt)
      then show ?thesis using apart(1) True by (simp add: word_less_nat_alt)
    next
      case False
      then have lt: "mdst f < msrc f" using ne by simp
      then have "unat (msrc f - mdst f) = unat (msrc f) - unat (mdst f)" by (intro unat_diff) (simp add: word_less_nat_alt)
      then show ?thesis using apart(2) lt by (simp add: word_less_nat_alt)
    qed
    then show ?thesis using R v by (auto simp: rng_def)
  qed
qed

subsection \<open>The invariant\<close>

text \<open>
  \<open>want\<close> is the contents that the destinations shall have, \<open>avail\<close> the memory that may change, \<open>mem0\<close> the memory at the start, \<open>mem\<close> after the
  moves so far. The sources of the fragments that are left are disjoint, not free, and hold what their destinations shall have; a destination
  that is not one of theirs holds what it shall have, is not free and in no source.
\<close>

definition plan_ok :: "(nat \<rightharpoonup> byte) \<Rightarrow> nat set \<Rightarrow> contents \<Rightarrow> contents \<Rightarrow> memmap \<Rightarrow> movelist list \<Rightarrow> bool" where
  "plan_ok want avail mem0 mem mm fs \<longleftrightarrow>
     zl_invar mm \<and> no_terminal mm \<and> (\<forall>f \<in> set fs. frag_ok f) \<and> sorted_wrt (\<lambda>f g. src_rng f \<inter> src_rng g = {}) fs \<and>
     (\<forall>f \<in> set fs. \<forall>a \<in> src_rng f. ztat mm a \<noteq> SMT_FREE \<and> a \<in> avail) \<and>
     (\<forall>a < 2 ^ 32. ztat mm a = SMT_FREE \<longrightarrow> a \<in> avail) \<and>
     (\<forall>f \<in> set fs. \<forall>i < unat (mlen f). want (unat (mdst f) + i) = Some (mem (unat (msrc f) + i))) \<and>
     (\<forall>d v. want d = Some v \<longrightarrow> (\<exists>f \<in> set fs. d \<in> dst_rng f) \<or> mem d = v \<and> d < 2 ^ 32 \<and> ztat mm d \<noteq> SMT_FREE \<and> (\<forall>f \<in> set fs. d \<notin> src_rng f)) \<and>
     (\<forall>a. a \<notin> avail \<longrightarrow> mem a = mem0 a)"

lemma plan_okD:
  assumes "plan_ok want avail mem0 mem mm fs"
  shows "zl_invar mm" and "no_terminal mm" and "\<And>f. f \<in> set fs \<Longrightarrow> frag_ok f" and "sorted_wrt (\<lambda>f g. src_rng f \<inter> src_rng g = {}) fs"
    and "\<And>f a. f \<in> set fs \<Longrightarrow> a \<in> src_rng f \<Longrightarrow> ztat mm a \<noteq> SMT_FREE \<and> a \<in> avail"
    and "\<And>a. a < 2 ^ 32 \<Longrightarrow> ztat mm a = SMT_FREE \<Longrightarrow> a \<in> avail"
    and "\<And>f i. f \<in> set fs \<Longrightarrow> i < unat (mlen f) \<Longrightarrow> want (unat (mdst f) + i) = Some (mem (unat (msrc f) + i))"
    and "\<And>d v. want d = Some v \<Longrightarrow> (\<exists>f \<in> set fs. d \<in> dst_rng f) \<or> mem d = v \<and> d < 2 ^ 32 \<and> ztat mm d \<noteq> SMT_FREE \<and> (\<forall>f \<in> set fs. d \<notin> src_rng f)"
    and "\<And>a. a \<notin> avail \<Longrightarrow> mem a = mem0 a"
  using assms unfolding plan_ok_def by blast+

lemma sorted_mid: "sorted_wrt (\<lambda>f g. src_rng f \<inter> src_rng g = {}) (xs @ f # ys) \<Longrightarrow> g \<in> set xs \<union> set ys \<Longrightarrow> src_rng f \<inter> src_rng g = {}"
  by (auto simp: sorted_wrt_append)

lemma src_limit: "frag_ok f \<Longrightarrow> a \<in> src_rng f \<Longrightarrow> a < 2 ^ 32" and dst_limit: "frag_ok f \<Longrightarrow> a \<in> dst_rng f \<Longrightarrow> a < 2 ^ 32"
  using rng_limit by (auto simp: src_rng_def dst_rng_def frag_ok_def)

text \<open>The move of a fragment whose destination is clear: its own source, or memory that belongs to no one.\<close>

lemma move_ok:
  assumes ok: "plan_ok want avail mem0 mem mm (xs @ f # ys)" and clear: "\<forall>a \<in> dst_rng f. a \<in> src_rng f \<or> ztat mm a \<noteq> SMT_FREE \<and> a \<in> avail \<and> (\<forall>g \<in> set (xs @ ys). a \<notin> src_rng g)"
    and inv: "zl_invar mm'" and mm': "\<forall>a < 2 ^ 32. ztat mm' a = (if a \<in> src_rng f - dst_rng f then SMT_FREE else ztat mm a)"
  shows "plan_ok want avail mem0 (exec_move f mem) mm' (xs @ ys)"
proof -
  note D = plan_okD [OF ok]
  have f: "frag_ok f" using D(3) by simp
  note R = frag_rng [OF f]
  have dis: "src_rng f \<inter> src_rng g = {}" if "g \<in> set (xs @ ys)" for g using sorted_mid [OF D(4)] that by simp
  have dd: "a \<notin> dst_rng f" if "g \<in> set (xs @ ys)" "a \<in> src_rng g" for g a using clear dis [OF that(1)] that by blast
  have same: "exec_move f mem a = mem a" if "a \<notin> dst_rng f" for a using that by (simp add: exec_move_def)
  have kept: "ztat mm' a = ztat mm a" if "a < 2 ^ 32" "a \<notin> src_rng f - dst_rng f" for a using that mm' by auto
  have lim: "a < 2 ^ 32" if "g \<in> set (xs @ ys)" "a \<in> src_rng g" for g a using src_limit D(3) that by auto
  show ?thesis
    unfolding plan_ok_def
  proof (intro conjI ballI allI impI)
    show "no_terminal mm'" using D(2) mm' by (auto simp: no_terminal_def)
    show "sorted_wrt (\<lambda>f g. src_rng f \<inter> src_rng g = {}) (xs @ ys)" using D(4) by (auto simp: sorted_wrt_append)
    fix g
    assume g: "g \<in> set (xs @ ys)"
    then have g': "g \<in> set (xs @ f # ys)" by auto
    show "frag_ok g" using D(3) [OF g'] .
    show "ztat mm' a \<noteq> SMT_FREE" if a: "a \<in> src_rng g" for a
    proof -
      have "a \<notin> src_rng f - dst_rng f" using dis [OF g] a by blast
      then show ?thesis using kept [OF lim [OF g a]] D(5) [OF g' a] by simp
    qed
    show "a \<in> avail" if "a \<in> src_rng g" for a using D(5) [OF g' that] by simp
    show "want (unat (mdst g) + i) = Some (exec_move f mem (unat (msrc g) + i))" if "i < unat (mlen g)" for i
    proof -
      have "unat (msrc g) + i \<in> src_rng g" using that by (simp add: src_rng_def rng_def)
      then show ?thesis using D(7) [OF g' that] same [OF dd [OF g]] by simp
    qed
  next
    fix a
    assume a: "a < 2 ^ 32" "ztat mm' a = SMT_FREE"
    show "a \<in> avail"
    proof (cases "a \<in> src_rng f - dst_rng f")
      case True
      then show ?thesis using D(5) [of f a] by simp
    next
      case False
      then show ?thesis using kept [OF a(1)] a D(6) by simp
    qed
  next
    fix d v
    assume w: "want d = Some v"
    show "(\<exists>g \<in> set (xs @ ys). d \<in> dst_rng g) \<or> exec_move f mem d = v \<and> d < 2 ^ 32 \<and> ztat mm' d \<noteq> SMT_FREE \<and> (\<forall>g \<in> set (xs @ ys). d \<notin> src_rng g)"
    proof (cases "d \<in> dst_rng f")
      case True
      then have i: "d - unat (mdst f) < unat (mlen f)" "unat (mdst f) + (d - unat (mdst f)) = d" using R(2) by auto
      have "want d = Some (mem (unat (msrc f) + (d - unat (mdst f))))" using D(7) [of f, OF _ i(1)] i(2) by simp
      then have "exec_move f mem d = v" using True w by (simp add: exec_move_def)
      moreover have "ztat mm' d \<noteq> SMT_FREE" using kept [OF dst_limit [OF f True]] True clear D(5) [of f d] by auto
      ultimately show ?thesis using dst_limit [OF f True] dd True by blast
    next
      case False
      from D(8) [OF w] show ?thesis
      proof (elim disjE bexE conjE)
        fix g
        assume "g \<in> set (xs @ f # ys)" "d \<in> dst_rng g"
        then show ?thesis using False by auto
      next
        assume "mem d = v" "d < 2 ^ 32" "ztat mm d \<noteq> SMT_FREE" "\<forall>g \<in> set (xs @ f # ys). d \<notin> src_rng g"
        then show ?thesis using same [OF False] kept [of d] by simp
      qed
    qed
  next
    fix a
    assume a: "a \<notin> avail"
    then have "a \<notin> dst_rng f" using clear D(5) [of f a] by auto
    then show "exec_move f mem a = mem0 a" using same D(9) [OF a] by simp
  qed (rule inv)
qed

lemma alloc_ok:
  assumes ok: "plan_ok want avail mem0 mem mm fs" and inv: "zl_invar mm'"
    and mm': "\<forall>a < 2 ^ 32. ztat mm' a = (if a \<in> R then SMT_ALLOC else ztat mm a)"
  shows "plan_ok want avail mem0 mem mm' fs"
proof -
  note D = plan_okD [OF ok]
  have nf: "ztat mm' a \<noteq> SMT_FREE" if "a < 2 ^ 32" "ztat mm a \<noteq> SMT_FREE" for a using mm' that by simp
  show ?thesis
    unfolding plan_ok_def
  proof (intro conjI ballI allI impI)
    show "no_terminal mm'" using D(2) mm' by (auto simp: no_terminal_def)
    show "ztat mm' a \<noteq> SMT_FREE" "a \<in> avail" if "f \<in> set fs" "a \<in> src_rng f" for f a
      using nf [OF src_limit [OF D(3) [OF that(1)] that(2)]] D(5) [OF that] by auto
    show "a \<in> avail" if "a < 2 ^ 32" "ztat mm' a = SMT_FREE" for a using nf [OF that(1)] that(2) D(6) [OF that(1)] by auto
    show "(\<exists>f \<in> set fs. d \<in> dst_rng f) \<or> mem d = v \<and> d < 2 ^ 32 \<and> ztat mm' d \<noteq> SMT_FREE \<and> (\<forall>f \<in> set fs. d \<notin> src_rng f)" if "want d = Some v" for d v
      using D(8) [OF that] nf by blast
  qed (use inv D in auto)
qed

text \<open>A fragment is cut in two.\<close>

lemma cut_ok:
  assumes ok: "plan_ok want avail mem0 mem mm (xs @ f # ys)" and l: "0 < unat l" "unat l < unat (mlen f)"
  defines "f1 \<equiv> f\<lparr>mlen := l\<rparr>" and "f2 \<equiv> \<lparr>mdst = mdst f + l, msrc = msrc f + l, mlen = mlen f - l\<rparr>"
  shows "plan_ok want avail mem0 mem mm (xs @ f1 # f2 # ys)" and "unat (mlen f2) = unat (mlen f) - unat l"
    and "unat (mdst f2) = unat (mdst f) + unat l" and "unat (msrc f2) = unat (msrc f) + unat l"
proof -
  note D = plan_okD [OF ok]
  have f: "frag_ok f" using D(3) by simp
  note R = frag_rng [OF f]
  have u: "unat (mlen f2) = unat (mlen f) - unat l" "unat (mdst f2) = unat (mdst f) + unat l" "unat (msrc f2) = unat (msrc f) + unat l"
    using l R unat_plus [of "mdst f" l] unat_plus [of "msrc f" l] by (simp_all add: f2_def unat_diff)
  then show "unat (mlen f2) = unat (mlen f) - unat l" "unat (mdst f2) = unat (mdst f) + unat l" "unat (msrc f2) = unat (msrc f) + unat l" .
  have e1: "mlen f1 = l" "mdst f1 = mdst f" "msrc f1 = msrc f" by (simp_all add: f1_def)
  have ok12: "frag_ok f1" "frag_ok f2" using l R u e1 by (auto simp: frag_ok_def unat_eq_0 simp flip: unat_gt_0)
  have src: "src_rng f = src_rng f1 \<union> src_rng f2" "src_rng f1 \<inter> src_rng f2 = {}"
    and dst: "dst_rng f = dst_rng f1 \<union> dst_rng f2"
    using l u by (auto simp: src_rng_def dst_rng_def rng_def e1)
  show "plan_ok want avail mem0 mem mm (xs @ f1 # f2 # ys)"
    unfolding plan_ok_def
  proof (intro conjI ballI allI impI)
    show "sorted_wrt (\<lambda>f g. src_rng f \<inter> src_rng g = {}) (xs @ f1 # f2 # ys)" using D(4) src by (auto simp: sorted_wrt_append)
    show "frag_ok g" if "g \<in> set (xs @ f1 # f2 # ys)" for g using that D(3) ok12 by auto
    show "ztat mm a \<noteq> SMT_FREE" "a \<in> avail" if "g \<in> set (xs @ f1 # f2 # ys)" "a \<in> src_rng g" for g a
    proof -
      have "\<exists>h \<in> set (xs @ f # ys). a \<in> src_rng h" using that src(1) by auto
      then show "ztat mm a \<noteq> SMT_FREE" "a \<in> avail" using D(5) by blast+
    qed
    show "want (unat (mdst g) + i) = Some (mem (unat (msrc g) + i))" if g: "g \<in> set (xs @ f1 # f2 # ys)" and i: "i < unat (mlen g)" for g i
    proof -
      consider "g \<in> set xs \<union> set ys" | "g = f1" | "g = f2" using g by auto
      then show ?thesis
      proof cases
        case 1
        then show ?thesis using D(7) [of g i] i by auto
      next
        case 2
        then show ?thesis using D(7) [of f i] i l e1 by simp
      next
        case 3
        then show ?thesis using D(7) [of f "unat l + i"] i l u by (simp add: add.assoc)
      qed
    qed
    show "(\<exists>g \<in> set (xs @ f1 # f2 # ys). d \<in> dst_rng g) \<or> mem d = v \<and> d < 2 ^ 32 \<and> ztat mm d \<noteq> SMT_FREE \<and> (\<forall>g \<in> set (xs @ f1 # f2 # ys). d \<notin> src_rng g)"
      if "want d = Some v" for d v
      using D(8) [OF that] src(1) dst by auto
  qed (use D in auto)
qed

subsection \<open>One move of the planner\<close>

abbreviation always :: "nat \<Rightarrow> bool" where
  "always \<equiv> \<lambda>_. True"

definition move_fine :: "nat set \<Rightarrow> movelist \<Rightarrow> bool" where
  "move_fine avail mv \<longleftrightarrow> frag_ok mv \<and> src_rng mv \<subseteq> avail"

definition plan_size :: "movelist list \<Rightarrow> nat" where
  "plan_size fs = sum_list (map (\<lambda>f. unat (mlen f)) fs) + length fs"

lemma new_movelist_always: "new_movelist always d s l n = Some (Inr (\<lparr>mdst = d, msrc = s, mlen = l\<rparr>, n + 1))"
  by (simp add: new_movelist_def)

lemma insert_at_length: "insert_at (Suc (length xs)) m (xs @ f # ys) = xs @ f # m # ys"
  by (simp add: insert_at_def)

lemma delete_at_length: "delete_movelist (length xs) (xs @ f # ys) = xs @ ys"
  by (simp add: delete_movelist_def)

lemma emit_move_ok:
  assumes inv: "zl_invar (mmap st)" and fs: "frags st = xs @ f # ys" and f: "frag_ok f" and ne: "msrc f \<noteq> mdst f"
  shows "\<exists>st'. emit_move always (length xs) st = Some (Inr st') \<and> moves st' = moves st @ [f] \<and> frags st' = xs @ ys \<and> zl_invar (mmap st') \<and>
    (\<forall>a < 2 ^ 32. ztat (mmap st') a = (if a \<in> src_rng f - dst_rng f then SMT_FREE else ztat (mmap st) a))"
proof -
  obtain b l where bl: "freed f = (b, l)" by (cases "freed f")
  note F = freed_ok [OF f ne bl]
  obtain mm' n' where m: "add_freelist always (mmap st) b l SMT_FREE (nalloc st + 1) = Some (Inr (mm', n'))" "zl_invar mm'"
    "\<forall>a < 2 ^ 32. ztat mm' a = (if a \<in> src_rng f - dst_rng f then SMT_FREE else ztat (mmap st) a)"
    using add_freelist_ok [OF inv _ F(2), of SMT_FREE "nalloc st + 1"] F(1) by auto
  have "\<lparr>mdst = mdst f, msrc = msrc f, mlen = mlen f\<rparr> = f" by simp
  then have "emit_move always (length xs) st = Some (Inr (st\<lparr>moves := moves st @ [f], mmap := mm', frags := xs @ ys, nalloc := n'\<rparr>))"
    using m(1) bl by (simp add: emit_move_def fs new_movelist_always delete_at_length Let_def)
  then show ?thesis using m(2,3) by simp
qed

lemma emit_ok:
  assumes ok: "plan_ok want avail mem0 mem (mmap st) (xs @ f # ys)" and fs: "frags st = xs @ f # ys" and ne: "msrc f \<noteq> mdst f"
    and clear: "\<forall>a \<in> dst_rng f. a \<in> src_rng f \<or> ztat (mmap st) a \<noteq> SMT_FREE \<and> a \<in> avail \<and> (\<forall>g \<in> set (xs @ ys). a \<notin> src_rng g)"
  shows "\<exists>st'. emit_move always (length xs) st = Some (Inr st') \<and> moves st' = moves st @ [f] \<and> frags st' = xs @ ys \<and>
    plan_ok want avail mem0 (exec_move f mem) (mmap st') (xs @ ys) \<and>
    (\<forall>a < 2 ^ 32. ztat (mmap st') a = (if a \<in> src_rng f - dst_rng f then SMT_FREE else ztat (mmap st) a))"
proof -
  have "frag_ok f" using plan_okD(3) [OF ok] by simp
  from emit_move_ok [OF plan_okD(1) [OF ok] fs this ne] show ?thesis using move_ok [OF ok clear] by blast
qed

lemma claimed_range:
  fixes nb nl c :: addr_t
  assumes "0 < unat c" and "unat c \<le> unat nl" and "no_wrap nb nl"
  shows "unat (nb + nl - c) = unat nb + unat nl - unat c"
proof -
  have e: "nb + nl - c = nb + (nl - c)" by simp
  have d: "unat (nl - c) = unat nl - unat c" using assms(2) by (rule unat_diff)
  then have "unat nb + unat (nl - c) < 2 ^ 32" using assms by simp
  then show ?thesis unfolding e using unat_plus [of nb "nl - c"] d assms(2) by simp
qed

lemma split_first:
  assumes "unat c < unat (mlen f)"
  shows "split_movelist always (msrc f) c (length xs) (xs @ f # ys) n =
    Some (Inr (length xs, xs @ f\<lparr>mlen := c\<rparr> # \<lparr>mdst = mdst f + c, msrc = msrc f + c, mlen = mlen f - c\<rparr> # ys, n + 1))"
  using assms by (simp add: split_movelist_def split_begin_def split_end_def new_movelist_always insert_at_length word_less_nat_alt Let_def)

lemma split_last:
  assumes "frag_ok f" and "0 < unat c" and "unat c < unat (mlen f)"
  defines "l \<equiv> mlen f - c"
  shows "split_movelist always (msrc f + (mlen f - c)) c (length xs) (xs @ f # ys) n =
    Some (Inr (length xs + 1, xs @ f\<lparr>mlen := l\<rparr> # \<lparr>mdst = mdst f + l, msrc = msrc f + l, mlen = mlen f - l\<rparr> # ys, n + 1))"
proof -
  note R = frag_rng [OF assms(1)]
  have l: "unat l = unat (mlen f) - unat c" using assms(3) by (simp add: l_def unat_diff)
  then have "unat (msrc f + l) = unat (msrc f) + unat l" using R(3) assms(2,3) by (intro unat_plus) simp
  then have "msrc f < msrc f + l" using l assms(3) by (simp add: word_less_nat_alt)
  moreover have "mlen f - l = c" by (simp add: l_def)
  moreover have "(xs @ f\<lparr>mlen := l\<rparr> # m # ys) ! Suc (length xs) = m" for m by (simp add: nth_append)
  ultimately show ?thesis unfolding l_def [symmetric]
    by (simp add: split_movelist_def split_begin_def split_end_def new_movelist_always insert_at_length Let_def)
qed

text \<open>A fragment of which only a part is moved stays with the rest; one that is moved whole leaves its source free.\<close>

definition moved_whole :: "planner \<Rightarrow> movelist list \<Rightarrow> movelist \<Rightarrow> movelist list \<Rightarrow> nat set \<Rightarrow> planner \<Rightarrow> bool" where
  "moved_whole st xs f ys need st' \<longleftrightarrow> frags st' = xs @ ys \<and>
     (\<forall>a < 2 ^ 32. ztat (mmap st') a = (if a \<in> src_rng f - dst_rng f then SMT_FREE else if a \<in> need then SMT_ALLOC else ztat (mmap st) a))"

lemma chunk_step:
  assumes ok: "plan_ok want avail mem0 mem (mmap st) (frags st)" and fs: "frags st = xs @ f # ys" and ne: "msrc f \<noteq> mdst f"
    and nd: "chunk_need f = (nl, nb, rv, cb)" and c: "0 < unat c" "unat c \<le> unat nl"
    and start: "start = (if rv then nb + nl - c else nb)" and free: "\<forall>a \<in> rng start c. ztat (mmap st) a = SMT_FREE"
  shows "\<exists>st' mv. andthen (allocate_from always (mmap st) start c (nalloc st)) (\<lambda>(mm, n). move_chunk always (length xs) c (st\<lparr>mmap := mm, nalloc := n\<rparr>)) = Some (Inr st') \<and>
    moves st' = moves st @ [mv] \<and> move_fine avail mv \<and> plan_ok want avail mem0 (exec_move mv mem) (mmap st') (frags st') \<and> plan_size (frags st') < plan_size (frags st) \<and>
    (c = nl \<longrightarrow> moved_whole st xs f ys (rng nb nl) st')"
proof -
  note D = plan_okD [OF ok]
  have f: "frag_ok f" using D(3) fs by simp
  note R = frag_rng [OF f]
  note N = chunk_need_ok [OF f ne nd]
  have sa: "src_rng f \<subseteq> avail" using D(5) [of f] fs by auto
  have us: "unat start = (if rv then unat nb + unat nl - unat c else unat nb)" using claimed_range [OF c N(2)] start by simp
  then have w: "no_wrap start c" using N(2) c by auto
  have clear: "a < 2 ^ 32" "a \<in> avail" "g \<in> set (frags st) \<Longrightarrow> a \<notin> src_rng g" if "a \<in> rng start c" for a g
    using rng_limit [OF w that] free that D(5,6) by auto
  obtain mm n where al: "allocate_from always (mmap st) start c (nalloc st) = Some (Inr (mm, n))" and inv: "zl_invar mm"
    and zt: "\<forall>a < 2 ^ 32. ztat mm a = (if a \<in> rng start c then SMT_ALLOC else ztat (mmap st) a)" using allocate_from_ok [OF D(1) w] by blast
  have ok1: "plan_ok want avail mem0 mem mm (xs @ f # ys)" using alloc_ok [OF ok inv zt] fs by simp
  have alloc: "ztat mm a \<noteq> SMT_FREE" if "a \<in> rng start c" for a using zt clear(1) [OF that] that by simp
  define st1 where "st1 = st\<lparr>mmap := mm, nalloc := n\<rparr>"
  have s1: "mmap st1 = mm" "frags st1 = xs @ f # ys" "moves st1 = moves st" "nalloc st1 = n" by (simp_all add: st1_def fs)
  have "\<exists>st' mv. move_chunk always (length xs) c st1 = Some (Inr st') \<and> moves st' = moves st1 @ [mv] \<and> move_fine avail mv \<and>
    plan_ok want avail mem0 (exec_move mv mem) (mmap st') (frags st') \<and> plan_size (frags st') < plan_size (frags st) \<and>
    (c = nl \<longrightarrow> moved_whole st xs f ys (rng nb nl) st')"
  proof (cases "unat c < unat nl")
    case False
    then have cn: "c = nl" using c(2) by (simp add: word_unat_eq_iff)
    have same: "rng start c = rng nb nl" using start cn by auto
    then have "\<forall>a \<in> dst_rng f. a \<in> src_rng f \<or> ztat (mmap st1) a \<noteq> SMT_FREE \<and> a \<in> avail \<and> (\<forall>g \<in> set (xs @ ys). a \<notin> src_rng g)"
      using N(4) clear alloc fs s1(1) by fastforce
    from emit_ok [OF ok1 [folded s1(1)] s1(2) ne this] obtain st' where e: "emit_move always (length xs) st1 = Some (Inr st')" "moves st' = moves st1 @ [f]"
      "frags st' = xs @ ys" "plan_ok want avail mem0 (exec_move f mem) (mmap st') (xs @ ys)"
      "\<forall>a < 2 ^ 32. ztat (mmap st') a = (if a \<in> src_rng f - dst_rng f then SMT_FREE else ztat (mmap st1) a)" by blast
    have "move_chunk always (length xs) c st1 = emit_move always (length xs) st1" using nd s1(2) cn by (simp add: move_chunk_def)
    moreover have "moved_whole st xs f ys (rng nb nl) st'" using e(3,5) zt same by (simp add: moved_whole_def s1(1))
    ultimately show ?thesis using e(1-4) fs f sa by (intro exI [of _ st'] exI [of _ f]) (simp add: plan_size_def move_fine_def)
  next
    case True
    then have lt: "c < nl" "c \<noteq> nl" "unat c < unat (mlen f)" using N(3) by (auto simp: word_less_nat_alt word_le_nat_alt)
    define l where "l = (if rv then mlen f - c else c)"
    define f1 where "f1 = f\<lparr>mlen := l\<rparr>"
    define f2 where "f2 = \<lparr>mdst = mdst f + l, msrc = msrc f + l, mlen = mlen f - l\<rparr>"
    have ul: "unat l = (if rv then unat (mlen f) - unat c else unat c)" using lt(3) by (simp add: l_def unat_diff)
    have l: "0 < unat l" "unat l < unat (mlen f)" using ul lt(3) c(1) by auto
    note C = cut_ok [OF ok1 l, folded f1_def f2_def]
    define st2 where "st2 = st1\<lparr>frags := xs @ f1 # f2 # ys, nalloc := n + 1\<rparr>"
    have s2: "mmap st2 = mm" "frags st2 = xs @ f1 # f2 # ys" "moves st2 = moves st" by (simp_all add: st2_def s1)
    have fo: "frag_ok f1" "frag_ok f2" using plan_okD(3) [OF C(1)] by auto
    have sub: "src_rng f1 \<subseteq> src_rng f" "src_rng f2 \<subseteq> src_rng f" using C(2-4) l by (auto simp: src_rng_def rng_def f1_def)
    have mf: "move_fine avail f1" "move_fine avail f2" using fo sub sa by (auto simp: move_fine_def)
    have szl: "unat (mlen f1) = unat l" by (simp add: f1_def)
    have out: "a \<notin> src_rng g" if "a \<in> rng start c" "g \<in> set (xs @ f1 # f2 # ys)" for a g
    proof -
      have "\<exists>h \<in> set (frags st). src_rng g \<subseteq> src_rng h" using that(2) sub fs by auto
      then show ?thesis using clear(3) [OF that(1)] by blast
    qed
    show ?thesis
    proof (cases rv)
      case True
      have mc: "move_chunk always (length xs) c st1 = emit_move always (length (xs @ [f1])) st2"
        using nd s1(2,4) True lt(1) split_last [OF f c(1) lt(3), of xs ys n] by (simp add: move_chunk_def Let_def st2_def f1_def f2_def l_def)
      have d2: "dst_rng f2 = rng start c"
        using C(2-3) ul True us N(5) lt(3) by (auto simp: dst_rng_def rng_def)
      have "\<forall>a \<in> dst_rng f2. a \<in> src_rng f2 \<or> ztat (mmap st2) a \<noteq> SMT_FREE \<and> a \<in> avail \<and> (\<forall>g \<in> set ((xs @ [f1]) @ ys). a \<notin> src_rng g)"
        unfolding d2 s2(1) using alloc clear(2) out by auto
      moreover have "plan_ok want avail mem0 mem (mmap st2) ((xs @ [f1]) @ f2 # ys)" "frags st2 = (xs @ [f1]) @ f2 # ys" using C(1) s2 by simp_all
      moreover have "msrc f2 \<noteq> mdst f2" using ne by (simp add: f2_def)
      ultimately obtain st' where e: "emit_move always (length (xs @ [f1])) st2 = Some (Inr st')" "moves st' = moves st2 @ [f2]"
        "frags st' = (xs @ [f1]) @ ys" "plan_ok want avail mem0 (exec_move f2 mem) (mmap st') ((xs @ [f1]) @ ys)" using emit_ok by blast
      then show ?thesis using mc s1(3) s2(3) szl l fs mf lt(2) by (intro exI [of _ st'] exI [of _ f2]) (simp add: plan_size_def)
    next
      case False
      have mc: "move_chunk always (length xs) c st1 = emit_move always (length xs) st2"
        using nd s1(2,4) False lt(1) split_first [OF lt(3), of xs ys n] by (simp add: move_chunk_def Let_def st2_def f1_def f2_def l_def)
      have d1: "dst_rng f1 = rng start c" using False us N(6) by (simp add: dst_rng_def f1_def l_def start)
      have "\<forall>a \<in> dst_rng f1. a \<in> src_rng f1 \<or> ztat (mmap st2) a \<noteq> SMT_FREE \<and> a \<in> avail \<and> (\<forall>g \<in> set (xs @ f2 # ys). a \<notin> src_rng g)"
        unfolding d1 s2(1) using alloc clear(2) out by auto
      moreover have "plan_ok want avail mem0 mem (mmap st2) (xs @ f1 # f2 # ys)" using C(1) s2 by simp
      moreover have "msrc f1 \<noteq> mdst f1" using ne by (simp add: f1_def)
      ultimately obtain st' where e: "emit_move always (length xs) st2 = Some (Inr st')" "moves st' = moves st2 @ [f1]"
        "frags st' = xs @ f2 # ys" "plan_ok want avail mem0 (exec_move f1 mem) (mmap st') (xs @ f2 # ys)" using emit_ok s2(2) by blast
      then show ?thesis using mc s1(3) s2(3) C(2) l fs mf lt(2) by (intro exI [of _ st'] exI [of _ f1]) (simp add: plan_size_def)
    qed
  qed
  then show ?thesis using al by (simp add: st1_def)
qed

subsection \<open>One round\<close>

lemma free_zone_free:
  assumes "zl_invar mm" and "no_terminal mm" and w: "no_wrap s l" "l \<noteq> 0" and "is_free_zone mm s l = Some (Some ys)" and "a \<in> rng s l"
  shows "ztat mm a = SMT_FREE"
  using assms(1-4)
proof (cases rule: is_free_zone_cases)
  case 1
  then show ?thesis using assms(5) by simp
next
  case (2 z z' r)
  have "unat s \<le> a" "a \<le> unat (s + l - 1)" using assms(6) no_wrap_last(2) [OF w] by (auto simp: rng_def)
  then show ?thesis using extent_free [OF assms(1) 2(2,3), of a] 2(4,5) by (simp add: word_le_nat_alt)
qed

lemma find_movable_ok:
  assumes "zl_invar mm" and "no_terminal mm" and "\<forall>f \<in> set fs. frag_ok f \<and> msrc f \<noteq> mdst f"
  shows "find_movable mm i fs = Some None \<or>
    (\<exists>xs f ys nl nb rv cb. find_movable mm i fs = Some (Some (i + length xs, nb, nl)) \<and> fs = xs @ f # ys \<and> chunk_need f = (nl, nb, rv, cb) \<and>
       (\<forall>a \<in> rng nb nl. ztat mm a = SMT_FREE))"
  using assms(3)
proof (induction fs arbitrary: i)
  case (Cons g fs)
  obtain nl nb rv cb where n: "chunk_need g = (nl, nb, rv, cb)" by (cases "chunk_need g")
  have N: "no_wrap nb nl" "nl \<noteq> 0" using chunk_need_ok [OF _ _ n] Cons.prems by auto
  from assms(1,2) N show ?case
  proof (cases rule: is_free_zone_cases)
    case 1
    then have e: "find_movable mm i (g # fs) = find_movable mm (i + 1) fs" using n by simp
    have "\<forall>f \<in> set fs. frag_ok f \<and> msrc f \<noteq> mdst f" using Cons.prems by simp
    from Cons.IH [OF this, of "i + 1"] show ?thesis
    proof (elim disjE exE conjE)
      fix xs f ys nl nb rv cb
      assume "find_movable mm (i + 1) fs = Some (Some (i + 1 + length xs, nb, nl))" "fs = xs @ f # ys" "chunk_need f = (nl, nb, rv, cb)"
        "\<forall>a \<in> rng nb nl. ztat mm a = SMT_FREE"
      then show ?thesis unfolding e
        by (intro disjI2 exI [of _ "g # xs"] exI [of _ f] exI [of _ ys] exI [of _ nl] exI [of _ nb] exI [of _ rv] exI [of _ cb]) simp
    qed (simp add: e del: find_movable.simps)
  next
    case (2 z z' r)
    then have "find_movable mm i (g # fs) = Some (Some (i + length ([] :: movelist list), nb, nl))" using n by simp
    then show ?thesis using n free_zone_free [OF assms(1,2) N 2(1)]
      by (intro disjI2 exI [of _ "[]"] exI [of _ g] exI [of _ fs] exI [of _ nl] exI [of _ nb] exI [of _ rv] exI [of _ cb]) simp
  qed
qed simp

lemma claimable_ok:
  assumes inv: "zl_invar mm" and nt: "no_terminal mm" and f: "frag_ok f" "msrc f \<noteq> mdst f" and nd: "chunk_need f = (nl, nb, rv, cb)"
  shows "\<exists>v. claimable mm f = Some v \<and> (v \<noteq> 0 \<longrightarrow> (\<forall>a \<in> rng (if rv then nb + nl - min nl v else nb) (min nl v). ztat mm a = SMT_FREE))"
proof -
  note R = frag_rng [OF f(1)]
  note N = chunk_need_ok [OF f nd]
  have cw: "no_wrap cb 1" using N(5,6) R(4,5) by (cases rv) auto
  have "(1 :: addr_t) \<noteq> 0" by simp
  from inv nt cw this show ?thesis
  proof (cases rule: is_free_zone_cases)
    case 1
    then show ?thesis using nd by (simp add: claimable_def)
  next
    case (2 z z' r)
    let ?e = "zstart z'"
    define v where "v = (if rv then nb + nl - zstart z else ?e - zstart z - (nb - zstart z))"
    have cl: "claimable mm f = Some v" using nd 2(1) by (simp add: claimable_def v_def)
    have z: "unat (zstart z) \<le> unat cb" "unat cb \<le> unat (?e - 1)" using 2(4,5) by (simp_all add: word_le_nat_alt)
    have "ztat mm a = SMT_FREE" if v0: "v \<noteq> 0" and a: "a \<in> rng (if rv then nb + nl - min nl v else nb) (min nl v)" for a
    proof -
      have m: "0 < unat (min nl v)" "unat (min nl v) \<le> unat nl" "unat (min nl v) \<le> unat v"
        using v0 N(1) by (auto simp: min_def word_le_nat_alt unat_gt_0)
      show ?thesis
      proof (cases rv)
        case True
        then have n5: "unat nb + unat nl = unat cb + 1" using N(5) by simp
        have "nb + nl = cb + 1" using n5 by (metis of_nat_add of_nat_1 of_nat_unat ucast_id)
        then have e: "v = cb + 1 - zstart z" using True by (simp add: v_def)
        have "zstart z \<le> cb + 1 - 1" using 2(4) by simp
        from word_last_diff [of "cb + 1" "zstart z", OF _ this] v0 e have "unat (zstart z) + unat v = unat cb + 1" by simp
        moreover have "unat (nb + nl - min nl v) = unat nb + unat nl - unat (min nl v)" by (rule claimed_range [OF m(1,2) N(2)])
        ultimately have "unat (zstart z) \<le> a" "a \<le> unat cb" using a True m n5 by (auto simp: rng_def)
        then show ?thesis using extent_free [OF inv 2(2,3), of a] z by simp
      next
        case False
        then have e: "v = ?e - nb" "nb = cb" using N(6) by (simp_all add: v_def)
        from word_last_diff [of ?e nb] v0 e 2(5) have "unat nb + unat v = unat (?e - 1) + 1" by simp
        then have "unat cb \<le> a" "a \<le> unat (?e - 1)" using a False m e(2) by (auto simp: rng_def)
        then show ?thesis using extent_free [OF inv 2(2,3), of a] z by simp
      qed
    qed
    then show ?thesis using cl by blast
  qed
qed

lemma discard_ok:
  assumes ok: "plan_ok want avail mem0 mem mm (xs @ f # ys)" and eq: "msrc f = mdst f"
  shows "plan_ok want avail mem0 mem mm (xs @ ys)"
proof -
  have d: "dst_rng f = src_rng f" by (simp add: dst_rng_def src_rng_def eq)
  have "exec_move f mem = mem" by (auto simp: exec_move_def eq dst_rng_def rng_def)
  then show ?thesis using move_ok [OF ok _ plan_okD(1) [OF ok]] d by simp
qed

lemma filter_ok: "plan_ok want avail mem0 mem mm (xs @ ys) \<Longrightarrow> plan_ok want avail mem0 mem mm (xs @ filter (\<lambda>f. msrc f \<noteq> mdst f) ys)"
proof (induction ys arbitrary: xs)
  case (Cons y ys)
  then show ?case using Cons.IH [of "xs @ [y]"] Cons.IH [of xs] discard_ok by auto
qed simp

lemma filter_size: "plan_size (f # filter P fs) \<le> plan_size (f # fs)"
  by (induction fs) (auto simp: plan_size_def)

text \<open>
  When no round evicts. In every set of the fragments that are left there is one whose destination meets the source of no other one, and every
  byte of a destination is free or in one of the sources. Then there is always a fragment that can be moved as a whole, and that stays so.
\<close>

definition unblocked :: "movelist list \<Rightarrow> bool" where
  "unblocked fs \<longleftrightarrow> (\<forall>G \<subseteq> set fs. G \<noteq> {} \<longrightarrow> (\<exists>f \<in> G. \<forall>g \<in> G. g \<noteq> f \<longrightarrow> dst_rng f \<inter> src_rng g = {}))"

definition clear_plan :: "memmap \<Rightarrow> movelist list \<Rightarrow> bool" where
  "clear_plan mm fs \<longleftrightarrow> unblocked fs \<and> sorted_wrt (\<lambda>f g. dst_rng f \<inter> dst_rng g = {}) fs \<and>
     (\<forall>f \<in> set fs. \<forall>a \<in> dst_rng f. ztat mm a = SMT_FREE \<or> (\<exists>g \<in> set fs. a \<in> src_rng g))"

lemma unblocked_mono: "unblocked fs \<Longrightarrow> set gs \<subseteq> set fs \<Longrightarrow> unblocked gs"
  by (auto simp: unblocked_def)

lemma unblocked_order:
  assumes "sorted_wrt (\<lambda>f g. dst_rng f \<inter> src_rng g = {}) gs"
  shows "unblocked gs"
  unfolding unblocked_def
proof (intro allI impI)
  fix G
  assume G: "G \<subseteq> set gs" "G \<noteq> {}"
  from assms G(1) \<open>G \<noteq> {}\<close> show "\<exists>f \<in> G. \<forall>g \<in> G. g \<noteq> f \<longrightarrow> dst_rng f \<inter> src_rng g = {}"
  proof (induction gs)
    case (Cons x gs)
    show ?case
    proof (cases "x \<in> G")
      case True
      then show ?thesis using Cons.prems(1,2) by (intro bexI [of _ x]) auto
    next
      case False
      then show ?thesis using Cons.IH Cons.prems by auto
    qed
  qed auto
qed

lemma clear_discard:
  assumes "clear_plan mm (xs @ f # ys)" and "msrc f = mdst f"
  shows "clear_plan mm (xs @ ys)"
proof -
  have d: "dst_rng f = src_rng f" by (simp add: dst_rng_def src_rng_def assms(2))
  have s: "sorted_wrt (\<lambda>f g. dst_rng f \<inter> dst_rng g = {}) (xs @ f # ys)" "unblocked (xs @ f # ys)"
    "\<And>g a. g \<in> set (xs @ f # ys) \<Longrightarrow> a \<in> dst_rng g \<Longrightarrow> ztat mm a = SMT_FREE \<or> (\<exists>h \<in> set (xs @ f # ys). a \<in> src_rng h)" using assms(1) by (auto simp: clear_plan_def)
  have "ztat mm a = SMT_FREE \<or> (\<exists>h \<in> set (xs @ ys). a \<in> src_rng h)" if g: "g \<in> set (xs @ ys)" "a \<in> dst_rng g" for g a
  proof -
    have "a \<notin> src_rng f" using s(1) g unfolding d [symmetric] by (auto simp: sorted_wrt_append)
    then show ?thesis using s(3) [of g a] g by auto
  qed
  moreover have "unblocked (xs @ ys)" by (rule unblocked_mono [OF s(2)]) auto
  moreover have "sorted_wrt (\<lambda>f g. dst_rng f \<inter> dst_rng g = {}) (xs @ ys)" using s(1) by (auto simp: sorted_wrt_append)
  ultimately show ?thesis by (simp add: clear_plan_def)
qed

lemma clear_filter: "clear_plan mm (xs @ ys) \<Longrightarrow> clear_plan mm (xs @ filter (\<lambda>f. msrc f \<noteq> mdst f) ys)"
proof (induction ys arbitrary: xs)
  case (Cons y ys)
  then show ?case using Cons.IH [of "xs @ [y]"] Cons.IH [of xs] clear_discard by auto
qed simp

lemma clear_finds:
  assumes ok: "plan_ok want avail mem0 mem mm fs" and ne: "\<forall>f \<in> set fs. msrc f \<noteq> mdst f" and cl: "clear_plan mm fs" and "fs \<noteq> []"
  shows "find_movable mm i fs \<noteq> Some None"
proof -
  note D = plan_okD [OF ok]
  obtain f where f: "f \<in> set fs" "\<And>g. g \<in> set fs \<Longrightarrow> g \<noteq> f \<Longrightarrow> dst_rng f \<inter> src_rng g = {}"
    using cl \<open>fs \<noteq> []\<close> unfolding clear_plan_def unblocked_def by (metis set_empty2 subset_refl)
  obtain nl nb rv cb where n: "chunk_need f = (nl, nb, rv, cb)" by (cases "chunk_need f")
  have fo: "frag_ok f" "msrc f \<noteq> mdst f" using D(3) ne f(1) by auto
  have "ztat mm a = SMT_FREE" if "a \<in> rng nb nl" for a
  proof -
    have a: "a \<in> dst_rng f" "a \<notin> src_rng f" using that chunk_need_sub [OF fo(1) n fo(2)] by auto
    then show ?thesis using cl f unfolding clear_plan_def by (metis disjoint_iff)
  qed
  then have "is_free_zone mm nb nl \<noteq> Some None" using is_free_zone_complete [OF D(1,2) chunk_need_ok(2,1) [OF fo n]] by blast
  then have "find_movable mm i (xs @ f # ys) \<noteq> Some None" for xs ys
    using n by (induction xs arbitrary: i) (auto split: option.splits prod.splits)
  then show ?thesis using split_list [OF f(1)] by blast
qed

lemma clear_step:
  assumes cl: "clear_plan (mmap st) (xs @ f # ys)" and fo: "frag_ok f" and g: "\<forall>g \<in> set (xs @ ys). frag_ok g" and need: "need \<subseteq> dst_rng f"
    and mv: "moved_whole st xs f ys need st'"
  shows "clear_plan (mmap st') (frags st')"
proof -
  have fs: "frags st' = xs @ ys" using mv by (simp add: moved_whole_def)
  have "ztat (mmap st') a = SMT_FREE \<or> (\<exists>h \<in> set (xs @ ys). a \<in> src_rng h)" if h: "h \<in> set (xs @ ys)" "a \<in> dst_rng h" for h a
  proof -
    have a: "a < 2 ^ 32" using dst_limit g h by blast
    have nd: "a \<notin> dst_rng f" using cl h by (auto simp: clear_plan_def sorted_wrt_append)
    have "ztat (mmap st) a = SMT_FREE \<or> a \<in> src_rng f \<or> (\<exists>h \<in> set (xs @ ys). a \<in> src_rng h)" using cl h unfolding clear_plan_def by auto
    then show ?thesis using mv a nd need by (auto simp: moved_whole_def)
  qed
  moreover have "unblocked (xs @ ys)" using cl unblocked_mono [of "xs @ f # ys" "xs @ ys"] by (auto simp: clear_plan_def)
  ultimately show ?thesis using cl by (auto simp: clear_plan_def fs sorted_wrt_append)
qed

text \<open>A round that does not evict makes at most one move, and there is less to do afterwards; whether it evicts depends on the state alone.\<close>

lemma plan_step_ok:
  assumes ok: "plan_ok want avail mem0 mem (mmap st) (frags st)" and ne: "frags st \<noteq> []"
  shows "\<not> clear_plan (mmap st) (frags st) \<and> (\<exists>st'. \<forall>ev. plan_step ev always st = ev st') \<or>
    (\<exists>st' mvs. (\<forall>ev. plan_step ev always st = Some (Inr st')) \<and> moves st' = moves st @ mvs \<and> list_all (move_fine avail) mvs \<and> length mvs \<le> 1 \<and>
       plan_ok want avail mem0 (exec_moves mvs mem) (mmap st') (frags st') \<and> plan_size (frags st') < plan_size (frags st) \<and>
       (clear_plan (mmap st) (frags st) \<longrightarrow> clear_plan (mmap st') (frags st') \<and> length (frags st') < length (frags st)))"
proof -
  obtain f fs where fs: "frags st = f # fs" using ne by (cases "frags st") auto
  show ?thesis
  proof (cases "msrc f = mdst f")
    case True
    have "plan_ok want avail mem0 mem (mmap st) fs" using discard_ok [of want avail mem0 mem "mmap st" "[]" f fs] ok fs True by simp
    moreover have "plan_step ev always st = Some (Inr (st\<lparr>frags := fs\<rparr>))" for ev using True fs by (simp add: plan_step_def delete_movelist_def)
    moreover have "clear_plan (mmap st) (frags st) \<longrightarrow> clear_plan (mmap st) fs" using clear_discard [of "mmap st" "[]" f fs] True fs by simp
    ultimately show ?thesis by (intro disjI2 exI [of _ "st\<lparr>frags := fs\<rparr>"] exI [of _ "[]"]) (simp add: fs plan_size_def exec_moves_def)
  next
    case False
    define st1 where "st1 = st\<lparr>frags := f # filter (\<lambda>o'. msrc o' \<noteq> mdst o') fs\<rparr>"
    have ok1: "plan_ok want avail mem0 mem (mmap st1) (frags st1)" using filter_ok [of want avail mem0 mem "mmap st" "[f]" fs] ok fs by (simp add: st1_def)
    note D = plan_okD [OF ok1]
    have s1: "moves st1 = moves st" "plan_size (frags st1) \<le> plan_size (frags st)" using filter_size by (simp_all add: st1_def fs)
    have cl1: "clear_plan (mmap st1) (frags st1)" if "clear_plan (mmap st) (frags st)" using clear_filter [of "mmap st" "[f]" fs] that fs by (simp add: st1_def)
    have len: "length (frags st1) \<le> length (frags st)" by (simp add: st1_def fs)
    have all: "\<forall>g \<in> set (frags st1). frag_ok g \<and> msrc g \<noteq> mdst g" using D(3) False by (auto simp: st1_def)
    obtain nl nb rv cb where n: "chunk_need f = (nl, nb, rv, cb)" by (cases "chunk_need f")
    have step: "plan_step ev always st = (case find_movable (mmap st1) 0 (frags st1) of
               None \<Rightarrow> None
             | Some (Some (i, needbase, needlen)) \<Rightarrow>
                 andthen (allocate_from always (mmap st1) needbase needlen (nalloc st1)) (\<lambda>(mm, n). move_chunk always i needlen (st1\<lparr>mmap := mm, nalloc := n\<rparr>))
             | Some None \<Rightarrow>
                 (case claimable (mmap st1) f of
                       None \<Rightarrow> None
                     | Some avail \<Rightarrow>
                         if avail \<noteq> 0 then
                           andthen (allocate_from always (mmap st1) (if rv then nb + nl - min nl avail else nb) (min nl avail) (nalloc st1)) (\<lambda>(mm, n).
                              move_chunk always 0 (min nl avail) (st1\<lparr>mmap := mm, nalloc := n\<rparr>))
                         else ev st1))" for ev
      unfolding plan_step_def Let_def fs nth_Cons_0 list.sel if_not_P [OF False] st1_def [symmetric] n prod.case ..
    have fin: ?thesis if p: "\<And>ev. plan_step ev always st = Some (Inr st')" and m: "moves st' = moves st1 @ [mv]" "move_fine avail mv"
      and k: "plan_ok want avail mem0 (exec_move mv mem) (mmap st') (frags st')" "plan_size (frags st') < plan_size (frags st1)"
      and c: "clear_plan (mmap st) (frags st) \<longrightarrow> clear_plan (mmap st') (frags st') \<and> length (frags st') < length (frags st)" for st' mv
      using p m k s1 c by (intro disjI2 exI [of _ st'] exI [of _ "[mv]"]) (simp add: exec_moves_def)
    from find_movable_ok [OF D(1,2) all, of 0] show ?thesis
    proof (elim disjE exE conjE)
      assume none: "find_movable (mmap st1) 0 (frags st1) = Some None"
      have "frags st1 \<noteq> []" "\<forall>g \<in> set (frags st1). msrc g \<noteq> mdst g" using all by (simp_all add: st1_def)
      then have nc: "\<not> clear_plan (mmap st) (frags st)" using clear_finds [OF ok1 _ cl1] none by metis
      have f: "frag_ok f" "msrc f \<noteq> mdst f" "frags st1 = [] @ f # filter (\<lambda>o'. msrc o' \<noteq> mdst o') fs" using all by (auto simp: st1_def)
      obtain v where v: "claimable (mmap st1) f = Some v"
        "v \<noteq> 0 \<longrightarrow> (\<forall>a \<in> rng (if rv then nb + nl - min nl v else nb) (min nl v). ztat (mmap st1) a = SMT_FREE)"
        using claimable_ok [OF D(1,2) f(1,2) n] by blast
      show ?thesis
      proof (cases "v = 0")
        case True
        then have "plan_step ev always st = ev st1" for ev unfolding step none using v(1) by simp
        then show ?thesis using nc by blast
      next
        case False
        have "nl \<noteq> 0" using chunk_need_ok(1) [OF f(1,2) n] .
        then have c: "0 < unat (min nl v)" "unat (min nl v) \<le> unat nl" using False by (auto simp: min_def word_le_nat_alt unat_gt_0)
        from chunk_step [OF ok1 f(3) f(2) n c refl] v(2) False obtain st' mv where
          r: "andthen (allocate_from always (mmap st1) (if rv then nb + nl - min nl v else nb) (min nl v) (nalloc st1))
              (\<lambda>(mm, n). move_chunk always 0 (min nl v) (st1\<lparr>mmap := mm, nalloc := n\<rparr>)) = Some (Inr st')"
            "moves st' = moves st1 @ [mv]" "move_fine avail mv" "plan_ok want avail mem0 (exec_move mv mem) (mmap st') (frags st')" "plan_size (frags st') < plan_size (frags st1)"
          by auto
        have "plan_step ev always st = Some (Inr st')" for ev unfolding step none using v(1) False r(1) by simp
        then show ?thesis using fin r(2-5) nc by blast
      qed
    next
      fix xs g ys nl' nb' rv' cb'
      assume fm: "find_movable (mmap st1) 0 (frags st1) = Some (Some (0 + length xs, nb', nl'))" and g: "frags st1 = xs @ g # ys"
        and n': "chunk_need g = (nl', nb', rv', cb')" and free: "\<forall>a \<in> rng nb' nl'. ztat (mmap st1) a = SMT_FREE"
      have g': "frag_ok g" "msrc g \<noteq> mdst g" using all g by auto
      have c: "0 < unat nl'" "unat nl' \<le> unat nl'" using chunk_need_ok(1) [OF g' n'] by (simp_all add: unat_gt_0)
      have st: "nb' = (if rv' then nb' + nl' - nl' else nb')" by simp
      from chunk_step [OF ok1 g g'(2) n' c st free] obtain st' mv where
        r: "andthen (allocate_from always (mmap st1) nb' nl' (nalloc st1)) (\<lambda>(mm, n). move_chunk always (length xs) nl' (st1\<lparr>mmap := mm, nalloc := n\<rparr>)) = Some (Inr st')"
          "moves st' = moves st1 @ [mv]" "move_fine avail mv" "plan_ok want avail mem0 (exec_move mv mem) (mmap st') (frags st')" "plan_size (frags st') < plan_size (frags st1)"
          "moved_whole st1 xs g ys (rng nb' nl') st'"
        by blast
      have "clear_plan (mmap st) (frags st) \<longrightarrow> clear_plan (mmap st') (frags st') \<and> length (frags st') < length (frags st)"
      proof
        assume c: "clear_plan (mmap st) (frags st)"
        have "rng nb' nl' \<subseteq> dst_rng g" "\<forall>h \<in> set (xs @ ys). frag_ok h" using chunk_need_sub [OF g'(1) n' g'(2)] all g by auto
        then have "clear_plan (mmap st') (frags st')" using clear_step [OF _ g'(1) _ _ r(6)] cl1 [OF c] g by simp
        moreover have "length (frags st') < length (frags st1)" using r(6) g by (simp add: moved_whole_def)
        ultimately show "clear_plan (mmap st') (frags st') \<and> length (frags st') < length (frags st)" using len by simp
      qed
      moreover have "plan_step ev always st = Some (Inr st')" for ev unfolding step fm using r(1) by simp
      ultimately show ?thesis using fin r(2-5) by blast
    qed
  qed
qed

subsection \<open>The whole run\<close>

definition no_evict :: "planner \<Rightarrow> (bail + planner) option" where
  "no_evict st = Some (Inl No_critical_chunk)"

lemma exec_moves_append: "exec_moves (as @ bs) mem = exec_moves bs (exec_moves as mem)"
  by (simp add: exec_moves_def)

lemma plan_loop_ok:
  assumes "plan_ok want avail mem0 (exec_moves (moves st) mem0) (mmap st) (frags st)" and "list_all (move_fine avail) (moves st)"
  shows "\<not> clear_plan (mmap st) (frags st) \<and> plan_loop no_evict always st = Some (Inl No_critical_chunk) \<or>
    (\<exists>st'. (\<forall>ev. plan_loop ev always st = Some (Inr st')) \<and> frags st' = [] \<and> list_all (move_fine avail) (moves st') \<and>
       (clear_plan (mmap st) (frags st) \<longrightarrow> length (moves st') \<le> length (moves st) + length (frags st)) \<and> plan_ok want avail mem0 (exec_moves (moves st') mem0) (mmap st') [])"
  using assms
proof (induction "plan_size (frags st)" arbitrary: st rule: less_induct)
  case less
  show ?case
  proof (cases "frags st = []")
    case True
    then have "plan_loop ev always st = Some (Inr st)" for ev by (subst plan_loop.simps) simp
    then show ?thesis using True less.prems by auto
  next
    case False
    from plan_step_ok [OF less.prems(1) False] show ?thesis
    proof (elim disjE exE conjE)
      fix st'
      assume nc: "\<not> clear_plan (mmap st) (frags st)" and "\<forall>ev. plan_step ev always st = ev st'"
      then have "plan_loop no_evict always st = Some (Inl No_critical_chunk)" using False by (subst plan_loop.simps) (simp add: no_evict_def)
      then show ?thesis using nc by blast
    next
      fix st' mvs
      assume step: "\<forall>ev. plan_step ev always st = Some (Inr st')" and mv: "moves st' = moves st @ mvs" "list_all (move_fine avail) mvs" "length mvs \<le> 1"
        and ok: "plan_ok want avail mem0 (exec_moves mvs (exec_moves (moves st) mem0)) (mmap st') (frags st')" and lt: "plan_size (frags st') < plan_size (frags st)"
        and cl: "clear_plan (mmap st) (frags st) \<longrightarrow> clear_plan (mmap st') (frags st') \<and> length (frags st') < length (frags st)"
      have "plan_loop ev always st = plan_loop ev always st'" for ev using False step by (subst plan_loop.simps) simp
      moreover have "\<not> clear_plan (mmap st') (frags st') \<and> plan_loop no_evict always st' = Some (Inl No_critical_chunk) \<or>
        (\<exists>st''. (\<forall>ev. plan_loop ev always st' = Some (Inr st'')) \<and> frags st'' = [] \<and> list_all (move_fine avail) (moves st'') \<and>
          (clear_plan (mmap st') (frags st') \<longrightarrow> length (moves st'') \<le> length (moves st') + length (frags st')) \<and>
          plan_ok want avail mem0 (exec_moves (moves st'') mem0) (mmap st'') [])"
        using less.hyps [OF lt] ok less.prems(2) mv(2) by (simp add: mv(1) exec_moves_append)
      moreover have "length (moves st') + length (frags st') \<le> length (moves st) + length (frags st)" if "clear_plan (mmap st) (frags st)"
        using mv(1,3) cl that by simp
      ultimately show ?thesis using cl by (elim disjE exE conjE) (simp, fastforce)
    qed
  qed
qed

text \<open>Fragments with disjoint sources are left alone by \<open>shuffle_dealias\<close>.\<close>

lemma disjoint_no_overlap:
  assumes "frag_ok f" and "frag_ok g" and "src_rng f \<inter> src_rng g = {}"
  shows "msrc f + mlen f - 1 \<le> msrc g \<or> msrc g + mlen g - 1 \<le> msrc f"
proof -
  note F = frag_rng [OF assms(1)]
  note G = frag_rng [OF assms(2)]
  have e: "unat (msrc f + mlen f - 1) = unat (msrc f) + unat (mlen f) - 1" "unat (msrc g + mlen g - 1) = unat (msrc g) + unat (mlen g) - 1"
    using no_wrap_last(2) [of "msrc f" "mlen f"] no_wrap_last(2) [of "msrc g" "mlen g"] assms(1,2) by (simp_all add: frag_ok_def)
  have "max (unat (msrc f)) (unat (msrc g)) \<notin> src_rng f \<inter> src_rng g" using assms(3) by simp
  then show ?thesis using F G e by (auto simp: word_le_nat_alt)
qed

lemma dealias_inner_id:
  assumes "\<forall>f \<in> set fs. frag_ok f" and "sorted_wrt (\<lambda>f g. src_rng f \<inter> src_rng g = {}) fs" and "k < length fs" and "j \<le> k"
  shows "dealias_inner ok k j (msrc (fs ! k)) (msrc (fs ! k) + mlen (fs ! k) - 1) fs post n = Some (Inr (Advance fs post n))"
  using assms(4)
proof (induction "k - j" arbitrary: j)
  case 0
  then show ?case by (subst dealias_inner.simps) simp
next
  case (Suc d)
  then have j: "j < k" "d = k - (j + 1)" "j + 1 \<le> k" by auto
  have "src_rng (fs ! j) \<inter> src_rng (fs ! k) = {}" using sorted_wrt_nth_less [OF assms(2) j(1) assms(3)] .
  then have "src_rng (fs ! k) \<inter> src_rng (fs ! j) = {}" by auto
  moreover have "frag_ok (fs ! j)" "frag_ok (fs ! k)" using assms(1,3) j(1) by auto
  ultimately have "msrc (fs ! k) + mlen (fs ! k) - 1 \<le> msrc (fs ! j) \<or> msrc (fs ! j) + mlen (fs ! j) - 1 \<le> msrc (fs ! k)"
    using disjoint_no_overlap by blast
  then show ?case using j(1) Suc.hyps(1) [OF j(2,3)] by (subst dealias_inner.simps) (simp add: Let_def)
qed

lemma shuffle_dealias_id:
  assumes "\<forall>f \<in> set fs. frag_ok f" and "sorted_wrt (\<lambda>f g. src_rng f \<inter> src_rng g = {}) fs"
  shows "shuffle_dealias ok fs n = Some (Inr (fs, [], n))"
proof -
  have "dealias_loop ok k fs [] n = Some (Inr (fs, [], n))" for k
  proof (induction "length fs - k" arbitrary: k)
    case 0
    then show ?case by (subst dealias_loop.simps) simp
  next
    case (Suc d)
    then have k: "k < length fs" "d = length fs - (k + 1)" by auto
    then show ?case using Suc.hyps(1) [OF k(2)] dealias_inner_id [OF assms k(1), of 0] by (subst dealias_loop.simps) (simp add: Let_def)
  qed
  then show ?thesis by (simp add: shuffle_dealias_def)
qed

lemma dup_movelist_id: "\<exists>n'. dup_movelist always fs n = Some (Inr (fs, n'))"
proof (induction fs arbitrary: n)
  case (Cons f fs)
  have "\<lparr>mdst = mdst f, msrc = msrc f, mlen = mlen f\<rparr> = f" by simp
  then show ?case using Cons.IH [of "n + 1"] by (auto simp: new_movelist_always)
qed simp

text \<open>Memory that is free or to be zeroed lies in a zone whose length does not wrap, unless it extends to the last byte.\<close>

lemma free_extent:
  assumes inv: "zl_invar mm" and top: "\<not> (ztat mm (2 ^ 32 - 1) = SMT_FREE \<or> ztat mm (2 ^ 32 - 1) = SMT_ZERO)" and a: "a < 2 ^ 32" "ztat mm a = SMT_FREE \<or> ztat mm a = SMT_ZERO"
  shows "\<exists>z e. (z, e) \<in> set (extents mm) \<and> (ztype z = SMT_FREE \<or> ztype z = SMT_ZERO) \<and> a \<in> rng (zstart z) (e - zstart z)"
proof -
  have u: "unat (word_of_nat a :: addr_t) = a" using a(1) by (simp add: unsigned_of_nat take_bit_nat_eq_self)
  obtain zs where zs: "mm = zs @ [end_token]" "rsorted (map zpair zs)" "zs \<noteq> []" "zstart (hd zs) = 0" using inv by (auto simp: zl_invar_def rwf_def hd_map)
  obtain z e where z: "(z, e) \<in> set (extents mm)" "zstart z \<le> word_of_nat a" "word_of_nat a \<le> e - 1"
    using extents_cover [OF zs(2,3), of "word_of_nat a"] zs(1,4) by auto
  have t: "ztat mm a = ztype z" using zone_at_extent [OF inv z] by (simp add: ztat_def)
  have "e \<noteq> 0"
  proof
    assume "e = 0"
    then have "zone_at mm (- 1) = ztype z" using zone_at_extent [OF inv z(1), of "- 1"] by simp
    moreover have "(- 1 :: addr_t) = word_of_nat (2 ^ 32 - 1)" by simp
    ultimately show False using top a(2) t by (simp add: ztat_def)
  qed
  then have "e - zstart z \<noteq> 0" using extent_order [OF inv z(1)] by (auto simp: less_eq_dec_iff)
  then have "a \<in> rng (zstart z) (e - zstart z)" using word_last_diff [OF _ extent_order [OF inv z(1)]] z(2,3) by (auto simp: rng_def word_le_nat_alt u)
  then show ?thesis using z(1) t a(2) by auto
qed

text \<open>The working map.\<close>

lemma add_zones_ok:
  assumes inv: "zl_invar memmap" and suf: "memmap = xs @ zs @ [end_token]" and nt: "no_terminal memmap" "no_terminal mm" and mm: "zl_invar mm"
    and fr: "\<forall>a < 2 ^ 32. ztat mm a = SMT_FREE \<longrightarrow> ztat memmap a = SMT_FREE \<or> ztat memmap a = SMT_ZERO"
  shows "\<exists>mm' n'. add_zones always (zs @ [end_token]) mm n = Some (Inr (mm', n')) \<and> zl_invar mm' \<and> no_terminal mm' \<and>
    (\<forall>a < 2 ^ 32. ztat mm' a = SMT_FREE \<longrightarrow> ztat memmap a = SMT_FREE \<or> ztat memmap a = SMT_ZERO) \<and> (\<forall>a < 2 ^ 32. ztat mm a = SMT_FREE \<longrightarrow> ztat mm' a = SMT_FREE) \<and>
    (\<forall>(z, e) \<in> set (extents (zs @ [end_token])). ztype z = SMT_FREE \<or> ztype z = SMT_ZERO \<longrightarrow> (\<forall>a \<in> rng (zstart z) (e - zstart z). ztat mm' a = SMT_FREE))"
  using assms(2,4-)
proof (induction zs arbitrary: xs mm n)
  case Nil
  then show ?case by simp
next
  case (Cons z zs)
  obtain z' r where t: "zs @ [end_token] = z' # r" by (cases zs) auto
  have z: "z \<in> set (xs @ z # zs)" by simp
  have "(z, zstart z') \<in> set (extents ((z # zs) @ [end_token]))" using t by simp
  then have e: "(z, zstart z') \<in> set (extents memmap)" using extents_suffix [of "(z # zs) @ [end_token]" xs] Cons.prems(1) by auto
  obtain ys where ys: "memmap = ys @ [end_token]" "\<forall>z \<in> set ys. ztype z \<noteq> SMT_END" "rsorted (map zpair ys)" using inv by (auto simp: zl_invar_def rwf_def)
  have "ys = xs @ z # zs" using Cons.prems(1) ys(1) by (metis append_assoc append_Cons butlast_snoc)
  then have ne: "ztype z \<noteq> SMT_END" and lt: "zs \<noteq> [] \<longrightarrow> zstart z < zstart z'" using ys(2,3) t by (cases zs; auto simp: rsorted_simps)+
  let ?l = "zstart z' - zstart z"
  let ?t = "if ztype z = SMT_ZERO then SMT_FREE else ztype z"
  have w: "no_wrap (zstart z) ?l \<and> (\<forall>a \<in> rng (zstart z) ?l. ztat memmap a = ztype z)"
  proof (cases "?l = 0")
    case True
    then show ?thesis using unat_less [of "zstart z"] by (simp add: rng_def)
  next
    case False
    have le: "zstart z \<le> zstart z' - 1"
    proof (cases zs)
      case Nil
      then have "zstart z' = 0" using t by auto
      then show ?thesis by simp
    next
      case Cons2: (Cons y ys')
      then have "zstart z < zstart z'" using lt by simp
      moreover from this have "zstart z' \<noteq> 0" by auto
      ultimately show ?thesis by (simp add: less_eq_dec_iff)
    qed
    note W = word_last_diff [OF False le]
    have "unat (zstart z' - 1) < 2 ^ 32" using unat_less [of "zstart z' - 1"] by simp
    moreover have "ztat memmap a = ztype z" if "a \<in> rng (zstart z) ?l" for a
    proof -
      have a: "unat (zstart z) \<le> a" "a \<le> unat (zstart z' - 1)" using that W by (auto simp: rng_def)
      then have "unat (word_of_nat a :: addr_t) = a" using \<open>unat (zstart z' - 1) < 2 ^ 32\<close> by (simp add: unsigned_of_nat take_bit_nat_eq_self)
      then show ?thesis using zone_at_extent [OF inv e, of "word_of_nat a"] a by (simp add: ztat_def word_le_nat_alt)
    qed
    ultimately show ?thesis using W by auto
  qed
  have nt': "ztype z \<noteq> SMT_TERMINAL"
  proof -
    have "ztat memmap (unat (zstart z)) = ztype z" using zone_type_at [OF inv e] by (simp add: ztat_def)
    then show ?thesis using nt(1) unat_less [of "zstart z"] by (auto simp: no_terminal_def)
  qed
  have "?t \<noteq> SMT_END" using ne by simp
  from add_freelist_ok [OF Cons.prems(3) this conjunct1 [OF w], of n] obtain mm1 n1 where
    m: "add_freelist always mm (zstart z) ?l ?t n = Some (Inr (mm1, n1))" "zl_invar mm1" "\<forall>a < 2 ^ 32. ztat mm1 a = (if a \<in> rng (zstart z) ?l then ?t else ztat mm a)"
    by blast
  have "no_terminal mm1" using m(3) Cons.prems(2) nt' by (auto simp: no_terminal_def)
  moreover have "\<forall>a < 2 ^ 32. ztat mm1 a = SMT_FREE \<longrightarrow> ztat memmap a = SMT_FREE \<or> ztat memmap a = SMT_ZERO"
    using m(3) Cons.prems(4) conjunct2 [OF w] by (auto split: if_splits)
  moreover have "memmap = (xs @ [z]) @ zs @ [end_token]" using Cons.prems(1) by simp
  moreover have "add_zones always ((z # zs) @ [end_token]) mm n = add_zones always (zs @ [end_token]) mm1 n1" using ne t m(1) by simp
  ultimately obtain mm' n' where r: "add_zones always ((z # zs) @ [end_token]) mm n = Some (Inr (mm', n'))" "zl_invar mm'" "no_terminal mm'"
    "\<forall>a < 2 ^ 32. ztat mm' a = SMT_FREE \<longrightarrow> ztat memmap a = SMT_FREE \<or> ztat memmap a = SMT_ZERO" "\<forall>a < 2 ^ 32. ztat mm1 a = SMT_FREE \<longrightarrow> ztat mm' a = SMT_FREE"
    "\<forall>(z, e) \<in> set (extents (zs @ [end_token])). ztype z = SMT_FREE \<or> ztype z = SMT_ZERO \<longrightarrow> (\<forall>a \<in> rng (zstart z) (e - zstart z). ztat mm' a = SMT_FREE)"
    using Cons.IH [of "xs @ [z]" mm1 n1] m(2) by auto
  have "ztat mm' a = SMT_FREE" if a: "a < 2 ^ 32" "ztat mm a = SMT_FREE" for a
  proof (cases "a \<in> rng (zstart z) ?l")
    case True
    then have "?t = SMT_FREE" using conjunct2 [OF w] Cons.prems(4) a by auto
    then have "ztat mm1 a = SMT_FREE" using m(3) a(1) True by simp
    then show ?thesis using r(5) a(1) by simp
  next
    case False
    then show ?thesis using m(3) r(5) a by simp
  qed
  moreover have "ztat mm' a = SMT_FREE" if "ztype z = SMT_FREE \<or> ztype z = SMT_ZERO" "a \<in> rng (zstart z) ?l" for a
    using that rng_limit [OF conjunct1 [OF w] that(2)] r(5) m(3) by auto
  ultimately show ?case using r(1-4,6) t by auto
qed

lemma add_sources_ok:
  assumes "zl_invar mm" and "no_terminal mm" and "\<forall>f \<in> set fs. frag_ok f"
  shows "\<exists>mm' n'. add_sources always fs mm n = Some (Inr (mm', n')) \<and> zl_invar mm' \<and> no_terminal mm' \<and>
    (\<forall>a < 2 ^ 32. ztat mm' a = (if \<exists>f \<in> set fs. a \<in> src_rng f then SMT_ALLOC else ztat mm a))"
  using assms
proof (induction fs arbitrary: mm n)
  case (Cons f fs)
  have w: "no_wrap (msrc f) (mlen f)" using Cons.prems(3) by (simp add: frag_ok_def)
  obtain mm1 n1 where m: "add_freelist always mm (msrc f) (mlen f) SMT_ALLOC n = Some (Inr (mm1, n1))" "zl_invar mm1"
    "\<forall>a < 2 ^ 32. ztat mm1 a = (if a \<in> src_rng f then SMT_ALLOC else ztat mm a)"
    using add_freelist_ok [OF Cons.prems(1) _ w, of SMT_ALLOC n] by (auto simp: src_rng_def)
  have "no_terminal mm1" using m(3) Cons.prems(2) by (auto simp: no_terminal_def)
  from Cons.IH [OF m(2) this, of n1] Cons.prems(3) obtain mm' n' where "add_sources always fs mm1 n1 = Some (Inr (mm', n'))" "zl_invar mm'" "no_terminal mm'"
    "\<forall>a < 2 ^ 32. ztat mm' a = (if \<exists>f \<in> set fs. a \<in> src_rng f then SMT_ALLOC else ztat mm1 a)" by auto
  then show ?case using m(1,3) by auto
qed simp

text \<open>What the destinations shall hold.\<close>

definition wanted :: "movelist list \<Rightarrow> contents \<Rightarrow> nat \<rightharpoonup> byte" where
  "wanted fs mem d = map_option (\<lambda>f. mem (unat (msrc f) + (d - unat (mdst f)))) (find (\<lambda>f. d \<in> dst_rng f) fs)"

lemma find_dst:
  "sorted_wrt (\<lambda>f g. dst_rng f \<inter> dst_rng g = {}) fs \<Longrightarrow> f \<in> set fs \<Longrightarrow> d \<in> dst_rng f \<Longrightarrow> find (\<lambda>f. d \<in> dst_rng f) fs = Some f"
  by (induction fs) auto

definition movable :: "movelist list \<Rightarrow> memmap \<Rightarrow> nat set" where
  "movable fs mm = \<Union> (src_rng ` set fs) \<union> {a. ztat mm a = SMT_FREE \<or> ztat mm a = SMT_ZERO}"

text \<open>
  The fragments can be brought into an order in which no destination meets the source of a later fragment, and the destinations are memory that
  may change, which does not reach to the last byte.
\<close>

definition orderly :: "movelist list \<Rightarrow> memmap \<Rightarrow> bool" where
  "orderly fs mm \<longleftrightarrow> 2 ^ 32 - 1 \<notin> movable fs mm \<and> (\<forall>f \<in> set fs. dst_rng f \<subseteq> movable fs mm) \<and>
     (\<exists>gs. set gs = set fs \<and> sorted_wrt (\<lambda>f g. dst_rng f \<inter> src_rng g = {}) gs)"

lemma initial_ok:
  assumes fs: "\<forall>f \<in> set fs. frag_ok f" and dis: "sorted_wrt (\<lambda>f g. src_rng f \<inter> src_rng g = {}) fs" "sorted_wrt (\<lambda>f g. dst_rng f \<inter> dst_rng g = {}) fs"
    and mm: "zl_invar mm" "no_terminal mm" "\<forall>a < 2 ^ 32. ztat mm a = SMT_FREE \<longrightarrow> ztat memmap a = SMT_FREE \<or> ztat memmap a = SMT_ZERO"
    and mm': "zl_invar mm'" "no_terminal mm'" "\<forall>a < 2 ^ 32. ztat mm' a = (if \<exists>f \<in> set fs. a \<in> src_rng f then SMT_ALLOC else ztat mm a)"
  shows "plan_ok (wanted fs mem) (movable fs memmap) mem mem mm' fs"
  unfolding plan_ok_def
proof (intro conjI ballI allI impI)
  show "ztat mm' a \<noteq> SMT_FREE" if "f \<in> set fs" "a \<in> src_rng f" for f a
  proof -
    have "a < 2 ^ 32" using src_limit fs that by blast
    then show ?thesis using mm'(3) that by auto
  qed
  show "a \<in> movable fs memmap" if "f \<in> set fs" "a \<in> src_rng f" for f a using that by (auto simp: movable_def)
  show "a \<in> movable fs memmap" if "a < 2 ^ 32" "ztat mm' a = SMT_FREE" for a
    using that mm(3) mm'(3) by (auto simp: movable_def split: if_splits)
  show "wanted fs mem (unat (mdst f) + i) = Some (mem (unat (msrc f) + i))" if "f \<in> set fs" "i < unat (mlen f)" for f i
  proof -
    have "unat (mdst f) + i \<in> dst_rng f" using that by (simp add: dst_rng_def rng_def)
    then show ?thesis using find_dst [OF dis(2) that(1)] by (simp add: wanted_def)
  qed
  show "(\<exists>f \<in> set fs. d \<in> dst_rng f) \<or> mem d = v \<and> d < 2 ^ 32 \<and> ztat mm' d \<noteq> SMT_FREE \<and> (\<forall>f \<in> set fs. d \<notin> src_rng f)" if "wanted fs mem d = Some v" for d v
    using that by (auto simp: wanted_def find_Some_iff)
qed (use fs dis mm' in auto)

lemma compute_start:
  assumes inv: "zl_invar memmap" and nt: "no_terminal memmap" and fs: "\<forall>f \<in> set fs. frag_ok f"
    and dis: "sorted_wrt (\<lambda>f g. src_rng f \<inter> src_rng g = {}) fs" "sorted_wrt (\<lambda>f g. dst_rng f \<inter> dst_rng g = {}) fs"
  shows "\<exists>st. (\<forall>ev. compute_movelist ev always fs memmap = andthen (plan_loop ev always st) (\<lambda>st. Some (Inr (moves st)))) \<and> moves st = [] \<and> frags st = fs \<and>
    (orderly fs memmap \<longrightarrow> clear_plan (mmap st) fs) \<and> plan_ok (wanted fs mem) (movable fs memmap) mem mem (mmap st) (frags st)"
proof -
  let ?m0 = "[\<lparr>zstart = 0, ztype = SMT_UNDEFINED\<rparr>, end_token]"
  have i: "syslinux_init_memmap always 0 = (Some ?m0, 2)" by (simp add: syslinux_init_memmap_def)
  obtain n1 where d: "dup_movelist always fs 2 = Some (Inr (fs, n1))" using dup_movelist_id by blast
  obtain zs where zs: "memmap = zs @ [end_token]" using inv by (auto simp: zl_invar_def)
  have m0: "no_terminal ?m0" "\<forall>a < 2 ^ 32. ztat ?m0 a = SMT_FREE \<longrightarrow> ztat memmap a = SMT_FREE \<or> ztat memmap a = SMT_ZERO"
    by (simp_all add: no_terminal_def ztat_def zone_at_init)
  obtain mm n2 where z: "add_zones always memmap ?m0 n1 = Some (Inr (mm, n2))" and m: "zl_invar mm" "no_terminal mm"
    "\<forall>a < 2 ^ 32. ztat mm a = SMT_FREE \<longrightarrow> ztat memmap a = SMT_FREE \<or> ztat memmap a = SMT_ZERO"
    and all: "\<forall>(z, e) \<in> set (extents memmap). ztype z = SMT_FREE \<or> ztype z = SMT_ZERO \<longrightarrow> (\<forall>a \<in> rng (zstart z) (e - zstart z). ztat mm a = SMT_FREE)"
    using add_zones_ok [OF inv _ nt m0(1) zl_invar_init m0(2), of "[]" zs n1] zs by auto
  obtain mm' n3 where s: "add_sources always fs mm n2 = Some (Inr (mm', n3))" and m': "zl_invar mm'" "no_terminal mm'"
    "\<forall>a < 2 ^ 32. ztat mm' a = (if \<exists>f \<in> set fs. a \<in> src_rng f then SMT_ALLOC else ztat mm a)" using add_sources_ok [OF m(1,2) fs] by blast
  have "plan_ok (wanted fs mem) (movable fs memmap) mem mem mm' fs" by (rule initial_ok [OF fs dis m m'])
  moreover have rd: "ztat mm' a = SMT_FREE \<or> (\<exists>g \<in> set fs. a \<in> src_rng g)" if top: "2 ^ 32 - 1 \<notin> movable fs memmap" and a: "a < 2 ^ 32" "a \<in> movable fs memmap" for a
  proof (cases "\<exists>g \<in> set fs. a \<in> src_rng g")
    case False
    then have ty: "ztat memmap a = SMT_FREE \<or> ztat memmap a = SMT_ZERO" using a(2) by (auto simp: movable_def)
    have "\<not> (ztat memmap (2 ^ 32 - 1) = SMT_FREE \<or> ztat memmap (2 ^ 32 - 1) = SMT_ZERO)" using top by (auto simp: movable_def)
    from free_extent [OF inv this a(1) ty] obtain z e where "(z, e) \<in> set (extents memmap)" "ztype z = SMT_FREE \<or> ztype z = SMT_ZERO" "a \<in> rng (zstart z) (e - zstart z)" by blast
    then have "ztat mm a = SMT_FREE" using all by blast
    then show ?thesis using m'(3) a(1) False by simp
  qed simp
  moreover have "clear_plan mm' fs" if o: "orderly fs memmap"
  proof -
    have "unblocked fs" using o unblocked_order unblocked_mono unfolding orderly_def by (metis subset_refl)
    moreover have "ztat mm' a = SMT_FREE \<or> (\<exists>g \<in> set fs. a \<in> src_rng g)" if "f \<in> set fs" "a \<in> dst_rng f" for f a
      using rd [of a] o that dst_limit fs unfolding orderly_def by blast
    ultimately show ?thesis using dis(2) by (simp add: clear_plan_def)
  qed
  moreover have "compute_movelist ev always fs memmap =
    andthen (plan_loop ev always \<lparr>frags = fs, mmap = mm', moves = [], nalloc = n3\<rparr>) (\<lambda>st. Some (Inr (moves st)))" for ev
    using d z s by (simp add: compute_movelist_def i shuffle_dealias_id [OF fs dis(1)])
  ultimately show ?thesis by (intro exI [of _ "\<lparr>frags = fs, mmap = mm', moves = [], nalloc = n3\<rparr>"]) simp
qed

text \<open>The run of the planner that does not evict is that of the code; its moves have no empty range, and start in memory that may change.
  With fragments that can be brought into order no run evicts, and there is at most one move per fragment.\<close>

lemma compute_movelist_plan:
  assumes "zl_invar memmap" and "no_terminal memmap" and "\<forall>f \<in> set fs. frag_ok f"
    and "sorted_wrt (\<lambda>f g. src_rng f \<inter> src_rng g = {}) fs" and "sorted_wrt (\<lambda>f g. dst_rng f \<inter> dst_rng g = {}) fs"
  shows "\<not> orderly fs memmap \<and> compute_movelist no_evict always fs memmap = Some (Inl No_critical_chunk) \<or>
    (\<exists>mvs. (\<forall>ev. compute_movelist ev always fs memmap = Some (Inr mvs)) \<and> list_all (move_fine (movable fs memmap)) mvs \<and> (orderly fs memmap \<longrightarrow> length mvs \<le> length fs) \<and>
       (\<forall>f \<in> set fs. \<forall>i < unat (mlen f). exec_moves mvs mem (unat (mdst f) + i) = mem (unat (msrc f) + i)) \<and>
       (\<forall>a. a \<notin> movable fs memmap \<longrightarrow> exec_moves mvs mem a = mem a))"
proof -
  obtain st where st: "\<And>ev. compute_movelist ev always fs memmap = andthen (plan_loop ev always st) (\<lambda>st. Some (Inr (moves st)))" and mv: "moves st = []" "frags st = fs"
    and cl: "orderly fs memmap \<longrightarrow> clear_plan (mmap st) fs"
    and ok: "plan_ok (wanted fs mem) (movable fs memmap) mem mem (mmap st) (frags st)" using compute_start [OF assms] by blast
  have "plan_ok (wanted fs mem) (movable fs memmap) mem (exec_moves (moves st) mem) (mmap st) (frags st)" using ok by (simp add: mv exec_moves_def)
  moreover have "list_all (move_fine (movable fs memmap)) (moves st)" by (simp add: mv)
  ultimately have "\<not> clear_plan (mmap st) (frags st) \<and> plan_loop no_evict always st = Some (Inl No_critical_chunk) \<or>
    (\<exists>st'. (\<forall>ev. plan_loop ev always st = Some (Inr st')) \<and> frags st' = [] \<and> list_all (move_fine (movable fs memmap)) (moves st') \<and>
      (clear_plan (mmap st) (frags st) \<longrightarrow> length (moves st') \<le> length (moves st) + length (frags st)) \<and> plan_ok (wanted fs mem) (movable fs memmap) mem (exec_moves (moves st') mem) (mmap st') [])"
    by (rule plan_loop_ok)
  then show ?thesis
  proof (elim disjE exE conjE)
    assume "\<not> clear_plan (mmap st) (frags st)" "plan_loop no_evict always st = Some (Inl No_critical_chunk)"
    then show ?thesis using st cl mv by auto
  next
    fix st'
    assume l: "\<forall>ev. plan_loop ev always st = Some (Inr st')" "list_all (move_fine (movable fs memmap)) (moves st')" "clear_plan (mmap st) (frags st) \<longrightarrow> length (moves st') \<le> length (moves st) + length (frags st)"
      and ok': "plan_ok (wanted fs mem) (movable fs memmap) mem (exec_moves (moves st') mem) (mmap st') []"
    note D = plan_okD [OF ok']
    have "exec_moves (moves st') mem (unat (mdst f) + i) = mem (unat (msrc f) + i)" if f: "f \<in> set fs" "i < unat (mlen f)" for f i
    proof -
      have "unat (mdst f) + i \<in> dst_rng f" using f(2) by (simp add: dst_rng_def rng_def)
      then have "wanted fs mem (unat (mdst f) + i) = Some (mem (unat (msrc f) + i))" using find_dst [OF assms(5) f(1)] by (simp add: wanted_def)
      from D(8) [OF this] show ?thesis by simp
    qed
    then show ?thesis using st l D(9) cl by (intro disjI2 exI [of _ "moves st'"]) (auto simp: mv)
  qed
qed

subsection \<open>Properties\<close>

text \<open>C11. The planner succeeds when it does not come to evict a fragment from the destination of another; and it does not when the fragments can
  be brought into an order in which no destination meets the source of a later fragment, with the destinations in memory that may change: then there
  is at most one move per fragment. The moves, executed in order, put the contents that every source had at the start to its destination and change
  only free memory and sources. The fragments have disjoint sources and disjoint destinations, no memory is of last resort, and no allocation fails.\<close>

theorem syslinux_compute_movelist_correct:
  assumes "zl_invar memmap" and "no_terminal memmap" and "\<forall>f \<in> set fs. frag_ok f"
    and "sorted_wrt (\<lambda>f g. src_rng f \<inter> src_rng g = {}) fs" and "sorted_wrt (\<lambda>f g. dst_rng f \<inter> dst_rng g = {}) fs"
    and "orderly fs memmap \<or> compute_movelist no_evict always fs memmap \<noteq> Some (Inl No_critical_chunk)"
  shows "\<exists>mvs. syslinux_compute_movelist always fs memmap = Some (Inr mvs) \<and> (orderly fs memmap \<longrightarrow> length mvs \<le> length fs) \<and>
    (\<forall>f \<in> set fs. \<forall>i < unat (mlen f). exec_moves mvs mem (unat (mdst f) + i) = mem (unat (msrc f) + i)) \<and>
    (\<forall>a. a \<notin> movable fs memmap \<longrightarrow> exec_moves mvs mem a = mem a)"
  using compute_movelist_plan [OF assms(1-5), of mem] assms(6) unfolding syslinux_compute_movelist_def by blast

definition demo_map :: memmap where
  "demo_map = [\<lparr>zstart = 0, ztype = SMT_FREE\<rparr>, \<lparr>zstart = 0x10000, ztype = SMT_RESERVED\<rparr>, end_token]"

lemma demo_map_ok: "zl_invar demo_map" "no_terminal demo_map"
proof -
  show "zl_invar demo_map"
    unfolding zl_invar_def demo_map_def
    by (intro exI [of _ "[\<lparr>zstart = 0, ztype = SMT_FREE\<rparr>, \<lparr>zstart = 0x10000, ztype = SMT_RESERVED\<rparr>]"]) (simp add: zpair_def rwf_def rsorted_def rcompact_def)
  show "no_terminal demo_map" by (simp add: no_terminal_def ztat_def zone_at_def zones_def demo_map_def)
qed

definition swap_frags :: "movelist list" where
  "swap_frags = [\<lparr>mdst = 0x1000, msrc = 0x1010, mlen = 0x100\<rparr>, \<lparr>mdst = 0x1100, msrc = 0x4000, mlen = 0x80\<rparr>]"

theorem syslinux_compute_movelist_correct_witness:
  "\<forall>mem. \<exists>mvs. syslinux_compute_movelist always swap_frags demo_map = Some (Inr mvs) \<and> exec_moves mvs mem 0x1105 = mem 0x4005 \<and> exec_moves mvs mem 0x1000 = mem 0x1010"
proof
  fix mem
  have n: "compute_movelist no_evict always swap_frags demo_map \<noteq> Some (Inl No_critical_chunk)" by code_simp
  have "\<forall>f \<in> set swap_frags. frag_ok f" "sorted_wrt (\<lambda>f g. src_rng f \<inter> src_rng g = {}) swap_frags" "sorted_wrt (\<lambda>f g. dst_rng f \<inter> dst_rng g = {}) swap_frags"
    by (auto simp: swap_frags_def frag_ok_def src_rng_def dst_rng_def rng_def)
  from syslinux_compute_movelist_correct [OF demo_map_ok this, of mem] n obtain mvs where
    m: "syslinux_compute_movelist always swap_frags demo_map = Some (Inr mvs)"
      "\<forall>f \<in> set swap_frags. \<forall>i < unat (mlen f). exec_moves mvs mem (unat (mdst f) + i) = mem (unat (msrc f) + i)" by blast
  have "\<forall>i < 0x80. exec_moves mvs mem (0x1100 + i) = mem (0x4000 + i)" "\<forall>i < 0x100. exec_moves mvs mem (0x1000 + i) = mem (0x1010 + i)"
    using m(2) by (simp_all add: swap_frags_def)
  from this(1) [rule_format, of 5] this(2) [rule_format, of 0] m(1)
  show "\<exists>mvs. syslinux_compute_movelist always swap_frags demo_map = Some (Inr mvs) \<and> exec_moves mvs mem 0x1105 = mem 0x4005 \<and> exec_moves mvs mem 0x1000 = mem 0x1010"
    by simp
qed

subsection \<open>Eviction\<close>






definition evict_map :: memmap where
  "evict_map = [\<lparr>zstart = 0, ztype = SMT_FREE\<rparr>, \<lparr>zstart = 0xff0, ztype = SMT_ALLOC\<rparr>, \<lparr>zstart = 0x1028, ztype = SMT_FREE\<rparr>, \<lparr>zstart = 0x5000, ztype = SMT_ALLOC\<rparr>,
    \<lparr>zstart = 0x5020, ztype = SMT_FREE\<rparr>, \<lparr>zstart = 0x10000, ztype = SMT_RESERVED\<rparr>, end_token]"

definition evict_frags :: "movelist list" where
  "evict_frags = [\<lparr>mdst = 0x1000, msrc = 0x5000, mlen = 0x20\<rparr>, \<lparr>mdst = 0x5000, msrc = 0xff0, mlen = 0x18\<rparr>, \<lparr>mdst = 0x5018, msrc = 0x1008, mlen = 0x20\<rparr>]"


text \<open>The planner comes to this state, and its plan moves bytes of the first fragment to the destination of the third.\<close>

lemma evict_plan:
  "case add_sources always evict_frags demo_map 0 of Some (Inr (mm, _)) \<Rightarrow> mm = evict_map | _ \<Rightarrow> False"
  "syslinux_compute_movelist always evict_frags demo_map = Some (Inr
    [\<lparr>mdst = 0, msrc = 0xff0, mlen = 0x18\<rparr>, \<lparr>mdst = 0x1000, msrc = 0x5000, mlen = 0x18\<rparr>, \<lparr>mdst = 0x5000, msrc = 0, mlen = 0x18\<rparr>,
     \<lparr>mdst = 0, msrc = 0x1008, mlen = 0x20\<rparr>, \<lparr>mdst = 0x1018, msrc = 0x5018, mlen = 8\<rparr>, \<lparr>mdst = 0x5018, msrc = 0, mlen = 0x20\<rparr>])"
  by code_simp+


text \<open>
  Memory of last resort. \<open>is_free_zone\<close> answers with the first of the zones that are available, and when the critical byte is in the zone behind it the
  size of the room wraps around: all of the destination counts as free.
\<close>

lemma claimable_wraps:
  assumes "chunk_need f = (nl, nb, False, cb)" and "is_free_zone mm cb 1 = Some (Some (ep # ep' # r))" and "zstart ep' < nb"
  shows "\<exists>v. claimable mm f = Some v \<and> unat v = 2 ^ 32 - (unat nb - unat (zstart ep'))"
proof -
  have "claimable mm f = Some (zstart ep' - nb)" using assms(1,2) by (simp add: claimable_def)
  moreover have "unat (zstart ep' - nb) = 2 ^ 32 - (unat nb - unat (zstart ep'))"
    using assms(3) unat_less [of nb] by (simp add: unat_sub_if' word_less_nat_alt)
  ultimately show ?thesis by simp
qed

end
