(* ===== verification/Shuffle.thy ===== *)
theory Shuffle
  imports MovePlan
begin

section \<open>Shuffle and boot\<close>

text \<open>
  \<open>com32/lib/syslinux/shuffle.c\<close> and \<open>addlist.c\<close>: the moves of the planner and the areas to be zeroed become a list of descriptors, for which room is
  found in memory that no fragment uses; the list is handed to the code that executes it and starts the kernel. The counters are natural numbers: the nodes
  of a list of moves fill the memory long before an \<open>int\<close> overflows.
\<close>

subsection \<open>Definitions\<close>

record shuffle_descriptor =
  ddst :: addr_t
  dsrc :: addr_t
  dlen :: addr_t

definition syslinux_add_movelist :: "(nat \<Rightarrow> bool) \<Rightarrow> nat \<Rightarrow> movelist list \<Rightarrow> addr_t \<Rightarrow> addr_t \<Rightarrow> addr_t \<Rightarrow> int \<times> movelist list \<times> nat" where
  "syslinux_add_movelist ok n list dst src len =
    (if \<not> ok n then (- 1, list, n + 1) else (0, \<lparr>mdst = dst, msrc = src, mlen = len\<rparr> # list, n + 1))"

text \<open>A copy of the map, or out of memory.\<close>

definition dup_or_bail :: "(nat \<Rightarrow> bool) \<Rightarrow> memmap \<Rightarrow> nat \<Rightarrow> (bail + memmap \<times> nat) option" where
  "dup_or_bail ok memmap n = (case syslinux_dup_memmap ok n memmap of (None, n) \<Rightarrow> Some (Inl Nomem) | (Some l, n) \<Rightarrow> Some (Inr (l, n)))"

text \<open>\<open>syslinux_target_memmap\<close>: the map without the destinations.\<close>

fun blot_targets :: "(nat \<Rightarrow> bool) \<Rightarrow> movelist list \<Rightarrow> memmap \<Rightarrow> nat \<Rightarrow> (bail + memmap \<times> nat) option" where
  "blot_targets ok [] tmap n = Some (Inr (tmap, n))"
| "blot_targets ok (mp # fs) tmap n = andthen (add_freelist ok tmap (mdst mp) (mlen mp) SMT_ALLOC n) (\<lambda>(tmap, n). blot_targets ok fs tmap n)"

definition syslinux_target_memmap :: "(nat \<Rightarrow> bool) \<Rightarrow> movelist list \<Rightarrow> memmap \<Rightarrow> nat \<Rightarrow> (bail + memmap \<times> nat) option" where
  "syslinux_target_memmap ok fraglist memmap n = andthen (dup_or_bail ok memmap n) (\<lambda>(tmap, n). blot_targets ok fraglist tmap n)"

fun count_zero :: "memmap \<Rightarrow> nat option" where
  "count_zero [] = None"
| "count_zero (ml # list) = (if ztype ml = SMT_END then Some 0 else map_option (\<lambda>nzero. if ztype ml = SMT_ZERO then nzero + 1 else nzero) (count_zero list))"

text \<open>The largest free zone above 1 MB that is used neither by the sources nor by the destinations.\<close>

fun blot_frags :: "(nat \<Rightarrow> bool) \<Rightarrow> movelist list \<Rightarrow> memmap \<Rightarrow> nat \<Rightarrow> (bail + memmap \<times> nat) option" where
  "blot_frags ok [] rxmap n = Some (Inr (rxmap, n))"
| "blot_frags ok (mp # fs) rxmap n =
    andthen (add_freelist ok rxmap (msrc mp) (mlen mp) SMT_ALLOC n) (\<lambda>(rxmap, n).
    andthen (add_freelist ok rxmap (mdst mp) (mlen mp) SMT_ALLOC n) (\<lambda>(rxmap, n). blot_frags ok fs rxmap n))"

definition desc_zone :: "(nat \<Rightarrow> bool) \<Rightarrow> movelist list \<Rightarrow> memmap \<Rightarrow> nat \<Rightarrow> (bail + addr_t \<times> addr_t \<times> nat) option" where
  "desc_zone ok fraglist memmap n =
    andthen (dup_or_bail ok memmap n) (\<lambda>(rxmap, n).
    andthen (add_freelist ok rxmap 0 (1024 * 1024) SMT_RESERVED n) (\<lambda>(rxmap, n).
    andthen (blot_frags ok fraglist rxmap n) (\<lambda>(rxmap, n).
    case syslinux_memmap_largest rxmap SMT_FREE of
      None \<Rightarrow> None
    | Some None \<Rightarrow> Some (Inl No_free_memory)
    | Some (Some (desczone, descfree)) \<Rightarrow> Some (Inr (desczone, descfree, n)))))"

definition DESC_BLOCK_SIZE :: nat where
  "DESC_BLOCK_SIZE = 256"

definition blocks_for :: "nat \<Rightarrow> nat" where
  "blocks_for k = (k + DESC_BLOCK_SIZE - 1) div DESC_BLOCK_SIZE"

text \<open>The descriptors, the terminating one and the code that executes them; \<open>ssize\<close> is the size of that code.\<close>

definition desc_mem :: "addr_t \<Rightarrow> nat \<Rightarrow> addr_t" where
  "desc_mem ssize desc_blocks = of_nat desc_blocks * 12 * of_nat DESC_BLOCK_SIZE + 12 + ssize"

text \<open>
  The room grows until the moves, planned around it, fit. \<open>plan k\<close> is the \<open>k\<close>-th call of the planner. The result is the address of the descriptors, the
  number of blocks that were reserved for them and the moves.
\<close>

definition desc_round :: "(nat \<Rightarrow> memmap \<Rightarrow> (bail + movelist list) option) \<Rightarrow> (nat \<Rightarrow> bool) \<Rightarrow> addr_t \<Rightarrow> addr_t \<Rightarrow> addr_t \<Rightarrow> nat \<Rightarrow> nat \<Rightarrow> memmap \<Rightarrow> nat \<Rightarrow>
    (bail + addr_t \<times> movelist list \<times> memmap \<times> nat) option" where
  "desc_round plan ok ssize desczone descfree k desc_blocks rxmap n =
    (let descmem = desc_mem ssize desc_blocks;
         descaddr = (desczone + descfree - descmem) AND NOT 3
     in if descaddr < desczone then Some (Inl No_free_memory)
        else
          andthen (add_freelist ok rxmap descaddr descmem SMT_RESERVED n) (\<lambda>(rxmap, n).
          andthen (plan k rxmap) (\<lambda>mvs. Some (Inr (descaddr, mvs, rxmap, n)))))"

partial_function (option) desc_loop :: "(nat \<Rightarrow> memmap \<Rightarrow> (bail + movelist list) option) \<Rightarrow> (nat \<Rightarrow> bool) \<Rightarrow> addr_t \<Rightarrow> addr_t \<Rightarrow> addr_t \<Rightarrow> nat \<Rightarrow> nat \<Rightarrow> nat \<Rightarrow>
    memmap \<Rightarrow> nat \<Rightarrow> (bail + addr_t \<times> nat \<times> movelist list \<times> nat) option" where
  "desc_loop plan ok ssize desczone descfree nzero k desc_blocks rxmap n =
    (case desc_round plan ok ssize desczone descfree k desc_blocks rxmap n of
       None \<Rightarrow> None
     | Some (Inl e) \<Rightarrow> Some (Inl e)
     | Some (Inr (descaddr, mvs, rxmap, n)) \<Rightarrow>
         let need_blocks = blocks_for (length mvs + nzero)
         in if desc_blocks \<ge> need_blocks then Some (Inr (descaddr, desc_blocks, mvs, n))
            else desc_loop plan ok ssize desczone descfree nzero (k + 1) need_blocks rxmap n)"

definition move_desc :: "movelist \<Rightarrow> shuffle_descriptor" where
  "move_desc mp = \<lparr>ddst = mdst mp, dsrc = msrc mp, dlen = mlen mp\<rparr>"

fun zero_descs :: "memmap \<Rightarrow> shuffle_descriptor list option" where
  "zero_descs [] = None"
| "zero_descs (ml # list) =
    (if ztype ml = SMT_END then Some []
     else if ztype ml = SMT_ZERO then
       (case list of [] \<Rightarrow> None
        | ml' # _ \<Rightarrow> map_option ((#) \<lparr>ddst = zstart ml, dsrc = - 1, dlen = zstart ml' - zstart ml\<rparr>) (zero_descs list))
     else zero_descs list)"

text \<open>The arguments of the call of \<open>bios_do_shuffle_and_boot\<close>, and the number of blocks, which determines how much memory is reserved for it.\<close>

record handoff =
  hdescaddr :: addr_t
  hblocks :: nat
  hdbuf :: "shuffle_descriptor list"

definition do_shuffle :: "(nat \<Rightarrow> memmap \<Rightarrow> (bail + movelist list) option) \<Rightarrow> (nat \<Rightarrow> bool) \<Rightarrow> addr_t \<Rightarrow> movelist list \<Rightarrow> memmap \<Rightarrow> addr_t \<Rightarrow> addr_t \<Rightarrow>
    (bail + handoff) option" where
  "do_shuffle plan ok ssize fraglist memmap entry_point entry_type =
    (case count_zero memmap of
       None \<Rightarrow> None
     | Some nzero \<Rightarrow>
         andthen (desc_zone ok fraglist memmap 0) (\<lambda>(desczone, descfree, n).
         andthen (dup_or_bail ok memmap n) (\<lambda>(rxmap, n).
         andthen (desc_loop plan ok ssize desczone descfree nzero 0 (blocks_for nzero) rxmap n) (\<lambda>(descaddr, desc_blocks, mvs, n).
         if \<not> ok n then Some (Inl Nomem)
         else case zero_descs memmap of
                None \<Rightarrow> None
              | Some zs \<Rightarrow>
                  Some (Inr \<lparr>hdescaddr = descaddr, hblocks = desc_blocks,
                    hdbuf = map move_desc mvs @ zs @ [\<lparr>ddst = entry_point, dsrc = entry_type, dlen = 0\<rparr>]\<rparr>)))))"

text \<open>\<open>pok k\<close> are the answers of \<open>malloc\<close> in the \<open>k\<close>-th call of the planner.\<close>

definition syslinux_do_shuffle :: "(nat \<Rightarrow> nat \<Rightarrow> bool) \<Rightarrow> (nat \<Rightarrow> bool) \<Rightarrow> addr_t \<Rightarrow> movelist list \<Rightarrow> memmap \<Rightarrow> addr_t \<Rightarrow> addr_t \<Rightarrow> (bail + handoff) option" where
  "syslinux_do_shuffle pok ok ssize fraglist memmap entry_point entry_type =
    do_shuffle (\<lambda>k. syslinux_compute_movelist (pok k) fraglist) ok ssize fraglist memmap entry_point entry_type"

declare desc_loop.simps [code]

text \<open>
  What the code of \<open>core/bcopyxx.inc\<close> does with the descriptors: it zeroes or copies until the length 0, whose descriptor is the entry point. It runs
  behind the descriptors, at a multiple of 16, with a stack of 128 bytes behind its own end.
\<close>

definition exec_desc :: "shuffle_descriptor \<Rightarrow> contents \<Rightarrow> contents" where
  "exec_desc d mem =
    (if dsrc d = - 1 then (\<lambda>a. if a \<in> rng (ddst d) (dlen d) then 0 else mem a)
     else exec_move \<lparr>mdst = ddst d, msrc = dsrc d, mlen = dlen d\<rparr> mem)"

fun pm_shuffle :: "shuffle_descriptor list \<Rightarrow> contents \<Rightarrow> (contents \<times> addr_t \<times> addr_t) option" where
  "pm_shuffle [] mem = None"
| "pm_shuffle (d # ds) mem = (if dlen d = 0 then Some (mem, ddst d, dsrc d) else pm_shuffle ds (exec_desc d mem))"

definition shuffler_stack :: "addr_t \<Rightarrow> handoff \<Rightarrow> addr_t" where
  "shuffler_stack ssize h = ((hdescaddr h + of_nat (12 * length (hdbuf h)) + 15) AND NOT 15) + ssize + 128"

subsection \<open>Zones\<close>

lemma dup_always: "\<exists>n'. dup_or_bail always l n = Some (Inr (l, n'))"
proof -
  have "syslinux_dup_memmap always n l = (Some l, n + length l)" by (induction l arbitrary: n) auto
  then show ?thesis by (simp add: dup_or_bail_def)
qed

lemma blot_frags_ok:
  assumes "zl_invar rx" and "\<forall>f \<in> set fs. frag_ok f"
  shows "\<exists>rx' n'. blot_frags always fs rx n = Some (Inr (rx', n')) \<and> zl_invar rx' \<and>
    (\<forall>a < 2 ^ 32. ztat rx' a = (if \<exists>f \<in> set fs. a \<in> src_rng f \<union> dst_rng f then SMT_ALLOC else ztat rx a))"
  using assms
proof (induction fs arbitrary: rx n)
  case (Cons f fs)
  have f: "no_wrap (msrc f) (mlen f)" "no_wrap (mdst f) (mlen f)" using Cons.prems(2) by (simp_all add: frag_ok_def)
  obtain r1 n1 where r1: "add_freelist always rx (msrc f) (mlen f) SMT_ALLOC n = Some (Inr (r1, n1))" "zl_invar r1"
    "\<forall>a < 2 ^ 32. ztat r1 a = (if a \<in> src_rng f then SMT_ALLOC else ztat rx a)"
    using add_freelist_ok [OF Cons.prems(1) _ f(1), of SMT_ALLOC n] by (auto simp: src_rng_def)
  obtain r2 n2 where r2: "add_freelist always r1 (mdst f) (mlen f) SMT_ALLOC n1 = Some (Inr (r2, n2))" "zl_invar r2"
    "\<forall>a < 2 ^ 32. ztat r2 a = (if a \<in> dst_rng f then SMT_ALLOC else ztat r1 a)"
    using add_freelist_ok [OF r1(2) _ f(2), of SMT_ALLOC n1] by (auto simp: dst_rng_def)
  have "\<forall>f \<in> set fs. frag_ok f" using Cons.prems(2) by simp
  from Cons.IH [OF r2(2) this, of n2] show ?case using r1 r2 by auto
qed simp

lemma blot_targets_ok:
  assumes "zl_invar rx" and "\<forall>f \<in> set fs. frag_ok f"
  shows "\<exists>rx' n'. blot_targets always fs rx n = Some (Inr (rx', n')) \<and> zl_invar rx' \<and>
    (\<forall>a < 2 ^ 32. ztat rx' a = (if \<exists>f \<in> set fs. a \<in> dst_rng f then SMT_ALLOC else ztat rx a))"
  using assms
proof (induction fs arbitrary: rx n)
  case (Cons f fs)
  have f: "no_wrap (mdst f) (mlen f)" using Cons.prems(2) by (simp add: frag_ok_def)
  obtain r1 n1 where r1: "add_freelist always rx (mdst f) (mlen f) SMT_ALLOC n = Some (Inr (r1, n1))" "zl_invar r1"
    "\<forall>a < 2 ^ 32. ztat r1 a = (if a \<in> dst_rng f then SMT_ALLOC else ztat rx a)"
    using add_freelist_ok [OF Cons.prems(1) _ f, of SMT_ALLOC n] by (auto simp: dst_rng_def)
  have "\<forall>f \<in> set fs. frag_ok f" using Cons.prems(2) by simp
  from Cons.IH [OF r1(2) this, of n1] show ?case using r1 by auto
qed simp

lemma syslinux_target_memmap_ok:
  assumes "zl_invar memmap" and "\<forall>f \<in> set fs. frag_ok f"
  shows "\<exists>tmap n'. syslinux_target_memmap always fs memmap n = Some (Inr (tmap, n')) \<and> zl_invar tmap \<and>
    (\<forall>a < 2 ^ 32. ztat tmap a = (if \<exists>f \<in> set fs. a \<in> dst_rng f then SMT_ALLOC else ztat memmap a))"
proof -
  obtain n1 where "dup_or_bail always memmap n = Some (Inr (memmap, n1))" using dup_always by blast
  then show ?thesis using blot_targets_ok [OF assms] by (simp add: syslinux_target_memmap_def)
qed

text \<open>The zone for the descriptors lies above 1 MB, is free in the given map and used by no fragment.\<close>

lemma desc_zone_ok:
  assumes inv: "zl_invar memmap" and fs: "\<forall>f \<in> set fs. frag_ok f"
  shows "desc_zone always fs memmap n = Some (Inl No_free_memory) \<or>
    (\<exists>s l n'. desc_zone always fs memmap n = Some (Inr (s, l, n')) \<and> no_wrap s l \<and> l \<noteq> 0 \<and> 2 ^ 20 \<le> unat s \<and>
       (\<forall>a \<in> rng s l. ztat memmap a = SMT_FREE \<and> (\<forall>f \<in> set fs. a \<notin> src_rng f \<union> dst_rng f)))"
proof -
  obtain n1 where d: "dup_or_bail always memmap n = Some (Inr (memmap, n1))" using dup_always by blast
  obtain r1 n2 where r1: "add_freelist always memmap 0 (1024 * 1024) SMT_RESERVED n1 = Some (Inr (r1, n2))" "zl_invar r1"
    "\<forall>a < 2 ^ 32. ztat r1 a = (if a \<in> rng 0 (1024 * 1024) then SMT_RESERVED else ztat memmap a)"
    using add_freelist_ok [OF inv, of SMT_RESERVED 0 "1024 * 1024" n1] by auto
  obtain r2 n3 where r2: "blot_frags always fs r1 n2 = Some (Inr (r2, n3))" "zl_invar r2"
    "\<forall>a < 2 ^ 32. ztat r2 a = (if \<exists>f \<in> set fs. a \<in> src_rng f \<union> dst_rng f then SMT_ALLOC else ztat r1 a)"
    using blot_frags_ok [OF r1(2) fs] by blast
  have e: "desc_zone always fs memmap n = (case syslinux_memmap_largest r2 SMT_FREE of None \<Rightarrow> None
    | Some None \<Rightarrow> Some (Inl No_free_memory) | Some (Some (desczone, descfree)) \<Rightarrow> Some (Inr (desczone, descfree, n3)))"
    using d r1(1) r2(1) by (simp add: desc_zone_def)
  obtain r where l: "syslinux_memmap_largest r2 SMT_FREE = Some r" and
    r: "case r of None \<Rightarrow> \<forall>z e. (z, e) \<in> set (extents r2) \<and> ztype z = SMT_FREE \<longrightarrow> e - zstart z = 0
      | Some (s, l) \<Rightarrow> l \<noteq> 0 \<and> (\<exists>z e. (z, e) \<in> set (extents r2) \<and> ztype z = SMT_FREE \<and> s = zstart z \<and> l = e - s) \<and>
          (\<forall>z e. (z, e) \<in> set (extents r2) \<and> ztype z = SMT_FREE \<longrightarrow> e - zstart z \<le> l)"
    using syslinux_memmap_largest_correct [OF r2(2), of SMT_FREE] by blast
  show ?thesis
  proof (cases r)
    case (Some p)
    obtain s k where p: "r = Some (s, k)" using Some by (cases p) auto
    then obtain z e' where z: "(z, e') \<in> set (extents r2)" "ztype z = SMT_FREE" "s = zstart z" "k = e' - zstart z" "k \<noteq> 0" using r by auto
    have ne: "e' - zstart z \<noteq> 0" using z(4,5) by simp
    note X = extent_rng [OF r2(2) z(1) ne, folded z(4), folded z(3)]
    have free: "ztat memmap a = SMT_FREE \<and> a \<notin> rng 0 (1024 * 1024) \<and> (\<forall>f \<in> set fs. a \<notin> src_rng f \<union> dst_rng f)" if a: "a \<in> rng s k" for a
    proof -
      have "a < 2 ^ 32" using X(1) a by (rule rng_limit)
      then show ?thesis using X(2) [OF a] z(2) r2(3) r1(3) by (auto split: if_splits)
    qed
    have "unat s \<in> rng s k" using z(5) by (simp add: rng_def unat_gt_0)
    from free [OF this] have "2 ^ 20 \<le> unat s" by (simp add: rng_def)
    then show ?thesis using X(1) z(5) free e l p by auto
  qed (use e l in simp)
qed

subsection \<open>Room for the descriptors\<close>

text \<open>The map with some memory of the zone reserved.\<close>

definition around :: "memmap \<Rightarrow> addr_t \<Rightarrow> addr_t \<Rightarrow> memmap \<Rightarrow> bool" where
  "around memmap s l rx \<longleftrightarrow> zl_invar rx \<and> no_terminal rx \<and> (\<forall>a < 2 ^ 32. ztat rx a = ztat memmap a \<or> a \<in> rng s l \<and> ztat rx a = SMT_RESERVED)"

lemma desc_mem_unat:
  assumes "3072 * blocks + 12 + unat ssize \<le> 2 ^ 20"
  shows "unat (desc_mem ssize blocks) = 3072 * blocks + 12 + unat ssize"
proof -
  have "desc_mem ssize blocks = word_of_nat (3072 * blocks + 12 + unat ssize)" by (simp add: desc_mem_def DESC_BLOCK_SIZE_def)
  moreover have "unat (word_of_nat (3072 * blocks + 12 + unat ssize) :: addr_t) = 3072 * blocks + 12 + unat ssize"
    unfolding unsigned_of_nat of_nat_id using assms by (intro take_bit_nat_eq_self) simp
  ultimately show ?thesis by (simp only:)
qed

lemma desc_addr:
  fixes s l m :: addr_t
  assumes "no_wrap s l" and "unat m \<le> unat s" and "0 < unat m"
  shows "unat ((s + l - m) AND NOT 3) + unat m \<le> unat s + unat l"
proof -
  have "unat (s - m) = unat s - unat m" using assms(2) by (rule unat_diff)
  then have "unat (s - m + l) = unat s - unat m + unat l" using assms by (intro trans [OF unat_plus]) auto
  moreover have "s - m + l = s + l - m" by simp
  moreover have "unat ((s + l - m) AND NOT 3) \<le> unat (s + l - m)" using word_and_le2 [of "s + l - m" "NOT 3"] by (simp only: word_le_nat_alt)
  ultimately show ?thesis using assms(2) by simp
qed

lemma desc_round_ok:
  assumes rx: "around memmap s l rx" and w: "no_wrap s l" "2 ^ 20 \<le> unat s" and b: "3072 * blocks + 12 + unat ssize \<le> 2 ^ 20"
  shows "(\<forall>plan. desc_round plan always ssize s l k blocks rx n = Some (Inl No_free_memory)) \<or>
    (\<exists>da rx' n'. unat s \<le> unat da \<and> unat da + unat (desc_mem ssize blocks) \<le> unat s + unat l \<and> around memmap s l rx' \<and>
       (\<forall>a \<in> rng da (desc_mem ssize blocks). ztat rx' a = SMT_RESERVED) \<and>
       (\<forall>plan. desc_round plan always ssize s l k blocks rx n = andthen (plan k rx') (\<lambda>mvs. Some (Inr (da, mvs, rx', n')))))"
proof (cases "(s + l - desc_mem ssize blocks) AND NOT 3 < s")
  case True
  then show ?thesis by (simp add: desc_round_def Let_def)
next
  case False
  define da where "da = (s + l - desc_mem ssize blocks) AND NOT 3"
  note M = desc_mem_unat [OF b]
  have hi: "unat da + unat (desc_mem ssize blocks) \<le> unat s + unat l" unfolding da_def using M b w(2) by (intro desc_addr [OF w(1)]) auto
  have lo: "unat s \<le> unat da" using False by (simp add: da_def word_less_nat_alt)
  have wd: "no_wrap da (desc_mem ssize blocks)" using hi w(1) by simp
  have inv: "zl_invar rx" "no_terminal rx" using rx by (auto simp: around_def)
  obtain rx' n' where r: "add_freelist always rx da (desc_mem ssize blocks) SMT_RESERVED n = Some (Inr (rx', n'))" "zl_invar rx'"
    "\<forall>a < 2 ^ 32. ztat rx' a = (if a \<in> rng da (desc_mem ssize blocks) then SMT_RESERVED else ztat rx a)"
    using add_freelist_ok [OF inv(1) _ wd, of SMT_RESERVED n] by auto
  have sub: "rng da (desc_mem ssize blocks) \<subseteq> rng s l" using lo hi by (auto simp: rng_def)
  have "around memmap s l rx'" using r(2,3) rx sub by (auto simp: around_def no_terminal_def)
  moreover have "\<forall>a \<in> rng da (desc_mem ssize blocks). ztat rx' a = SMT_RESERVED" using r(3) rng_limit [OF wd] by auto
  moreover have "desc_round plan always ssize s l k blocks rx n = andthen (plan k rx') (\<lambda>mvs. Some (Inr (da, mvs, rx', n')))" for plan
    using False r(1) by (simp add: desc_round_def Let_def da_def)
  ultimately show ?thesis using lo hi by blast
qed

lemma blocks_mono: "j \<le> k \<Longrightarrow> blocks_for j \<le> blocks_for k"
  by (simp add: blocks_for_def DESC_BLOCK_SIZE_def div_le_mono)

lemma desc_loop_ok:
  assumes w: "no_wrap s l" "2 ^ 20 \<le> unat s" and lim: "3072 * blocks_for N + 12 + unat ssize \<le> 2 ^ 20"
    and plan: "\<forall>k rx. around memmap s l rx \<longrightarrow> (\<exists>mvs. plan k rx = Some (Inr mvs) \<and> length mvs + nzero \<le> N \<and> good rx mvs)"
    and "around memmap s l rx" and "blocks \<le> blocks_for N"
  shows "desc_loop plan always ssize s l nzero k blocks rx n = Some (Inl No_free_memory) \<or>
    (\<exists>da blocks' mvs n' rx'. desc_loop plan always ssize s l nzero k blocks rx n = Some (Inr (da, blocks', mvs, n')) \<and>
       blocks_for (length mvs + nzero) \<le> blocks' \<and> blocks' \<le> blocks_for N \<and>
       unat s \<le> unat da \<and> unat da + unat (desc_mem ssize blocks') \<le> unat s + unat l \<and> around memmap s l rx' \<and>
       (\<forall>a \<in> rng da (desc_mem ssize blocks'). ztat rx' a = SMT_RESERVED) \<and> good rx' mvs)"
  using assms(5-)
proof (induction "blocks_for N - blocks" arbitrary: k blocks rx n rule: less_induct)
  case less
  have "3072 * blocks + 12 + unat ssize \<le> 2 ^ 20" using lim less.prems(2) by linarith
  from desc_round_ok [OF less.prems(1) w this, of k n] show ?case
  proof (elim disjE exE conjE)
    assume "\<forall>plan. desc_round plan always ssize s l k blocks rx n = Some (Inl No_free_memory)"
    then show ?thesis by (subst desc_loop.simps) simp
  next
    fix da rx' n'
    assume da: "unat s \<le> unat da" "unat da + unat (desc_mem ssize blocks) \<le> unat s + unat l" and rx': "around memmap s l rx'"
      "\<forall>a \<in> rng da (desc_mem ssize blocks). ztat rx' a = SMT_RESERVED"
      and r: "\<forall>plan. desc_round plan always ssize s l k blocks rx n = andthen (plan k rx') (\<lambda>mvs. Some (Inr (da, mvs, rx', n')))"
    obtain mvs where m: "plan k rx' = Some (Inr mvs)" "length mvs + nzero \<le> N" "good rx' mvs" using plan rx'(1) by blast
    let ?need = "blocks_for (length mvs + nzero)"
    show ?thesis
    proof (cases "?need \<le> blocks")
      case True
      then have "desc_loop plan always ssize s l nzero k blocks rx n = Some (Inr (da, blocks, mvs, n'))" using r m(1) by (subst desc_loop.simps) (simp add: Let_def)
      then show ?thesis using True da rx' m(3) less.prems(2) by blast
    next
      case False
      then have "desc_loop plan always ssize s l nzero k blocks rx n = desc_loop plan always ssize s l nzero (k + 1) ?need rx' n'"
        using r m(1) by (subst desc_loop.simps) (simp add: Let_def)
      moreover have "blocks_for N - ?need < blocks_for N - blocks" "?need \<le> blocks_for N" using False blocks_mono [OF m(2)] by auto
      ultimately show ?thesis using less.hyps [of ?need rx' "k + 1" n'] rx'(1) by simp
    qed
  qed
qed

subsection \<open>What the descriptors do\<close>

lemma pm_shuffle_moves:
  assumes "list_all (\<lambda>m. mlen m \<noteq> 0 \<and> msrc m \<noteq> - 1) mvs"
  shows "pm_shuffle (map move_desc mvs @ ds) mem = pm_shuffle ds (exec_moves mvs mem)"
  using assms
proof (induction mvs arbitrary: mem)
  case (Cons m mvs)
  have "exec_desc (move_desc m) mem = exec_move m mem" using Cons.prems by (cases m) (simp add: move_desc_def exec_desc_def)
  moreover have "dlen (move_desc m) = mlen m" by (simp add: move_desc_def)
  ultimately show ?case using Cons by (simp add: exec_moves_def)
qed (simp add: exec_moves_def)

definition zeroed :: "memmap \<Rightarrow> contents \<Rightarrow> contents" where
  "zeroed mm mem = (\<lambda>a. if \<exists>(z, e) \<in> set (extents mm). ztype z = SMT_ZERO \<and> a \<in> rng (zstart z) (e - zstart z) then 0 else mem a)"

lemma zero_descs_ok:
  assumes "\<forall>z \<in> set zs. ztype z \<noteq> SMT_END" and "\<forall>(z, e) \<in> set (extents (zs @ [end_token])). ztype z = SMT_ZERO \<longrightarrow> e - zstart z \<noteq> 0"
  shows "\<exists>ds. zero_descs (zs @ [end_token]) = Some ds \<and> count_zero (zs @ [end_token]) = Some (length ds) \<and>
    (\<forall>mem rest. pm_shuffle (ds @ rest) mem = pm_shuffle rest (zeroed (zs @ [end_token]) mem))"
  using assms
proof (induction zs)
  case Nil
  show ?case by (simp add: zeroed_def)
next
  case (Cons z zs)
  obtain z' r where t: "zs @ [end_token] = z' # r" by (cases zs) auto
  have x: "extents ((z # zs) @ [end_token]) = (z, zstart z') # extents (zs @ [end_token])" using t by simp
  obtain ds where d: "zero_descs (zs @ [end_token]) = Some ds" "count_zero (zs @ [end_token]) = Some (length ds)"
    "\<forall>mem rest. pm_shuffle (ds @ rest) mem = pm_shuffle rest (zeroed (zs @ [end_token]) mem)"
    using Cons.IH Cons.prems x by auto
  have ne: "ztype z \<noteq> SMT_END" using Cons.prems(1) by simp
  show ?case
  proof (cases "ztype z = SMT_ZERO")
    case True
    let ?d = "\<lparr>ddst = zstart z, dsrc = - 1, dlen = zstart z' - zstart z\<rparr>"
    have "zero_descs ((z # zs) @ [end_token]) = Some (?d # ds)" "count_zero ((z # zs) @ [end_token]) = Some (length (?d # ds))"
      using True d(1,2) t by simp_all
    moreover have "zstart z' - zstart z \<noteq> 0" using Cons.prems(2) x True by auto
    moreover have "zeroed (zs @ [end_token]) (exec_desc ?d mem) = zeroed ((z # zs) @ [end_token]) mem" for mem
      unfolding zeroed_def x by (auto simp: exec_desc_def True)
    ultimately show ?thesis using d(3) by (intro exI [of _ "?d # ds"]) simp
  next
    case False
    have "zeroed ((z # zs) @ [end_token]) mem = zeroed (zs @ [end_token]) mem" for mem unfolding zeroed_def x using False by auto
    then show ?thesis using False ne d by simp
  qed
qed

lemma zeroed_iff:
  assumes inv: "zl_invar mm" and top: "ztat mm (2 ^ 32 - 1) \<noteq> SMT_ZERO"
  shows "(z, e) \<in> set (extents mm) \<Longrightarrow> ztype z = SMT_ZERO \<Longrightarrow> e - zstart z \<noteq> 0"
    and "a < 2 ^ 32 \<Longrightarrow> zeroed mm mem a = (if ztat mm a = SMT_ZERO then 0 else mem a)"
proof -
  show ne: "e - zstart z \<noteq> 0" if z: "(z, e) \<in> set (extents mm)" "ztype z = SMT_ZERO" for z e
  proof
    assume "e - zstart z = 0"
    then have "e = 0" using extent_order [OF inv z(1)] by (cases "zstart z = 0") (auto simp: less_eq_dec_iff)
    then have "zone_at mm (- 1) = SMT_ZERO" using zone_at_extent [OF inv z(1), of "- 1"] z(2) by simp
    moreover have "(- 1 :: addr_t) = word_of_nat (2 ^ 32 - 1)" by simp
    ultimately show False using top by (simp add: ztat_def)
  qed
  assume a: "a < 2 ^ 32"
  then have u: "unat (word_of_nat a :: addr_t) = a" by (simp add: unsigned_of_nat take_bit_nat_eq_self)
  obtain zs where zs: "mm = zs @ [end_token]" "rsorted (map zpair zs)" "zs \<noteq> []" "zstart (hd zs) = 0"
    using inv by (auto simp: zl_invar_def rwf_def hd_map)
  obtain z e where z: "(z, e) \<in> set (extents mm)" "zstart z \<le> word_of_nat a" "word_of_nat a \<le> e - 1"
    using extents_cover [OF zs(2,3), of "word_of_nat a"] zs(1,4) by auto
  have t: "ztat mm a = ztype z" using zone_at_extent [OF inv z] by (simp add: ztat_def)
  show "zeroed mm mem a = (if ztat mm a = SMT_ZERO then 0 else mem a)"
  proof (cases "ztat mm a = SMT_ZERO")
    case True
    then have "e - zstart z \<noteq> 0" using ne [OF z(1)] t by simp
    then have "a \<in> rng (zstart z) (e - zstart z)"
      using word_last_diff [OF _ extent_order [OF inv z(1)]] z(2,3) by (auto simp: rng_def word_le_nat_alt u)
    then show ?thesis using True t z(1) by (auto simp: zeroed_def)
  next
    case False
    then have "\<not> (y, e') \<in> set (extents mm) \<or> ztype y \<noteq> SMT_ZERO \<or> a \<notin> rng (zstart y) (e' - zstart y)" for y e'
      using extent_rng(2) [OF inv _ ne, of y e' a] by metis
    then show ?thesis using False by (auto simp: zeroed_def)
  qed
qed

text \<open>What remains true of a plan that was made around the reserved memory.\<close>

definition plan_good :: "movelist list \<Rightarrow> contents \<Rightarrow> memmap \<Rightarrow> movelist list \<Rightarrow> bool" where
  "plan_good fs mem rx mvs \<longleftrightarrow> list_all (move_fine (movable fs rx)) mvs \<and>
     (\<forall>f \<in> set fs. \<forall>i < unat (mlen f). exec_moves mvs mem (unat (mdst f) + i) = mem (unat (msrc f) + i)) \<and>
     (\<forall>a. a \<notin> movable fs rx \<longrightarrow> exec_moves mvs mem a = mem a)"

lemma movable_around:
  assumes "around memmap s l rx" and "a < 2 ^ 32" and "a \<in> movable fs rx"
  shows "a \<in> movable fs memmap"
  using assms by (auto simp: around_def movable_def)

lemma top_not_source:
  assumes rx: "around memmap s l rx" and top: "2 ^ 32 - 1 \<notin> movable fs memmap" and m: "list_all (move_fine (movable fs rx)) mvs"
  shows "list_all (\<lambda>m. mlen m \<noteq> 0 \<and> msrc m \<noteq> - 1) mvs"
proof -
  have "mlen m \<noteq> 0 \<and> msrc m \<noteq> - 1" if "m \<in> set mvs" for m
  proof -
    have f: "frag_ok m" "src_rng m \<subseteq> movable fs rx" using m that by (auto simp: list_all_iff move_fine_def)
    have "unat (msrc m) \<in> src_rng m" using frag_rng(1,5) [OF f(1)] by simp
    then have "unat (msrc m) \<in> movable fs memmap" using movable_around [OF rx] f src_limit [OF f(1)] by blast
    then have "unat (msrc m) \<noteq> 2 ^ 32 - 1" using top by metis
    moreover have "unat (- 1 :: addr_t) = 2 ^ 32 - 1" by (simp add: unsigned_minus_1_eq_mask mask_eq_exp_minus_1)
    ultimately show ?thesis using f(1) by (auto simp: frag_ok_def)
  qed
  then show ?thesis by (simp add: list_all_iff)
qed

lemma blocks_hold: "k \<le> 256 * blocks_for k"
  by (simp add: blocks_for_def DESC_BLOCK_SIZE_def)

lemma orderly_around:
  assumes o: "orderly fs memmap" and fs: "\<forall>f \<in> set fs. frag_ok f" and rx: "around memmap s l rx" and zone: "\<forall>a \<in> rng s l. \<forall>f \<in> set fs. a \<notin> src_rng f \<union> dst_rng f"
  shows "orderly fs rx"
proof -
  have "2 ^ 32 - 1 \<notin> movable fs rx" using movable_around [OF rx, of "2 ^ 32 - 1"] o by (auto simp: orderly_def)
  moreover have "a \<in> movable fs rx" if f: "f \<in> set fs" "a \<in> dst_rng f" for f a
  proof -
    have "a \<notin> rng s l" "a < 2 ^ 32" using zone f dst_limit fs by blast+
    then have "ztat rx a = ztat memmap a" using rx by (auto simp: around_def)
    moreover have "a \<in> movable fs memmap" using o f by (auto simp: orderly_def)
    ultimately show ?thesis by (simp add: movable_def)
  qed
  ultimately show ?thesis using o by (auto simp: orderly_def)
qed

lemma plan_around:
  assumes fs: "\<forall>f \<in> set fs. frag_ok f"
    and dis: "sorted_wrt (\<lambda>f g. src_rng f \<inter> src_rng g = {}) fs" "sorted_wrt (\<lambda>f g. dst_rng f \<inter> dst_rng g = {}) fs"
    and o: "orderly fs memmap" and rx: "around memmap s l rx" and zone: "\<forall>a \<in> rng s l. \<forall>f \<in> set fs. a \<notin> src_rng f \<union> dst_rng f"
  shows "\<exists>mvs. syslinux_compute_movelist always fs rx = Some (Inr mvs) \<and> length mvs \<le> length fs \<and> plan_good fs mem rx mvs"
proof -
  have r: "zl_invar rx" "no_terminal rx" using rx by (auto simp: around_def)
  from compute_movelist_plan [OF r fs dis, of mem] orderly_around [OF o fs rx zone] show ?thesis by (auto simp: plan_good_def syslinux_compute_movelist_def)
qed

text \<open>The memory after the moves and the zeroing.\<close>

lemma shuffle_memory:
  assumes inv: "zl_invar memmap" and fs: "\<forall>f \<in> set fs. frag_ok f" and zero: "\<forall>f \<in> set fs. \<forall>a \<in> dst_rng f. ztat memmap a \<noteq> SMT_ZERO"
    and top: "2 ^ 32 - 1 \<notin> movable fs memmap" and rx: "around memmap s l rx" and g: "plan_good fs mem rx mvs"
    and zone: "\<forall>a \<in> rng s l. ztat memmap a = SMT_FREE \<and> (\<forall>f \<in> set fs. a \<notin> src_rng f \<union> dst_rng f)" "no_wrap s l"
  defines "mem' \<equiv> zeroed memmap (exec_moves mvs mem)"
  shows "f \<in> set fs \<Longrightarrow> i < unat (mlen f) \<Longrightarrow> mem' (unat (mdst f) + i) = mem (unat (msrc f) + i)"
    and "a < 2 ^ 32 \<Longrightarrow> ztat memmap a = SMT_ZERO \<Longrightarrow> mem' a = 0"
    and "a < 2 ^ 32 \<Longrightarrow> a \<notin> movable fs memmap \<Longrightarrow> mem' a = mem a"
    and "a \<in> rng s l \<Longrightarrow> ztat rx a = SMT_RESERVED \<Longrightarrow> mem' a = mem a"
proof -
  have "ztat memmap (2 ^ 32 - 1) \<noteq> SMT_ZERO" using top by (auto simp: movable_def)
  note Z = zeroed_iff(2) [OF inv this, of _ "exec_moves mvs mem", folded mem'_def]
  note G = g [unfolded plan_good_def]
  show "mem' (unat (mdst f) + i) = mem (unat (msrc f) + i)" if f: "f \<in> set fs" "i < unat (mlen f)"
  proof -
    have d: "unat (mdst f) + i \<in> dst_rng f" using f(2) by (simp add: dst_rng_def rng_def)
    then have "unat (mdst f) + i < 2 ^ 32" using dst_limit fs f(1) by blast
    then show ?thesis using Z zero d f G by simp
  qed
  show "mem' a = 0" if "a < 2 ^ 32" "ztat memmap a = SMT_ZERO" using Z that by simp
  show "mem' a = mem a" if a: "a < 2 ^ 32" "a \<notin> movable fs memmap"
  proof -
    have "a \<notin> movable fs rx" "ztat memmap a \<noteq> SMT_ZERO" using movable_around [OF rx a(1)] a(2) by (auto simp: movable_def)
    then show ?thesis using Z [OF a(1)] G by simp
  qed
  show "mem' a = mem a" if a: "a \<in> rng s l" "ztat rx a = SMT_RESERVED"
  proof -
    have "a \<notin> movable fs rx" "ztat memmap a \<noteq> SMT_ZERO" using zone(1) a by (auto simp: movable_def)
    then show ?thesis using Z [OF rng_limit [OF zone(2) a(1)]] G by simp
  qed
qed

subsection \<open>Properties\<close>

text \<open>C12. \<open>syslinux_do_shuffle\<close> with fragments that can be brought into an order in which no destination meets the source of a later one: it ends, and
  fails only when there is no room for the descriptors. When it does not fail, the descriptors that it hands over bring every fragment to its destination,
  zero exactly the memory that is to be zeroed, change nothing but free memory and sources besides, and end with the entry point.
  The descriptors and the code that executes them fit into the memory that was reserved, which is free, used by no fragment and left alone by the
  descriptors. The sources and the destinations are disjoint, no memory is of last resort, no allocation fails, and there are at most 80000 fragments and zones to be zeroed.\<close>

theorem syslinux_do_shuffle_correct:
  assumes "zl_invar memmap" and "no_terminal memmap" and "\<forall>f \<in> set fs. frag_ok f"
    and "sorted_wrt (\<lambda>f g. src_rng f \<inter> src_rng g = {}) fs" and "sorted_wrt (\<lambda>f g. dst_rng f \<inter> dst_rng g = {}) fs"
    and "orderly fs memmap" and "\<forall>f \<in> set fs. \<forall>a \<in> dst_rng f. ztat memmap a \<noteq> SMT_ZERO"
    and "count_zero memmap = Some nzero" and "length fs + nzero \<le> 80000" and "unat ssize \<le> 2 ^ 16"
  shows "syslinux_do_shuffle (\<lambda>_. always) always ssize fs memmap entry_point entry_type = Some (Inl No_free_memory) \<or>
    (\<exists>h mem'. syslinux_do_shuffle (\<lambda>_. always) always ssize fs memmap entry_point entry_type = Some (Inr h) \<and>
       pm_shuffle (hdbuf h) mem = Some (mem', entry_point, entry_type) \<and>
       (\<forall>f \<in> set fs. \<forall>i < unat (mlen f). mem' (unat (mdst f) + i) = mem (unat (msrc f) + i)) \<and>
       (\<forall>a < 2 ^ 32. ztat memmap a = SMT_ZERO \<longrightarrow> mem' a = 0) \<and> (\<forall>a < 2 ^ 32. a \<notin> movable fs memmap \<longrightarrow> mem' a = mem a) \<and>
       12 * length (hdbuf h) + unat ssize \<le> unat (desc_mem ssize (hblocks h)) \<and>
       (\<forall>a \<in> rng (hdescaddr h) (desc_mem ssize (hblocks h)). ztat memmap a = SMT_FREE \<and> (\<forall>f \<in> set fs. a \<notin> src_rng f \<union> dst_rng f) \<and> mem' a = mem a))"
proof -
  note inv = assms(1)
  note fs = assms(3)
  let ?plan = "\<lambda>_ :: nat. syslinux_compute_movelist always fs"
  have top: "2 ^ 32 - 1 \<notin> movable fs memmap" using assms(6) by (simp add: orderly_def)
  from desc_zone_ok [OF inv fs, of 0] show ?thesis
  proof (elim disjE exE conjE)
    assume "desc_zone always fs memmap 0 = Some (Inl No_free_memory)"
    then show ?thesis using assms(8) by (simp add: syslinux_do_shuffle_def do_shuffle_def)
  next
    fix s l n
    assume dz: "desc_zone always fs memmap 0 = Some (Inr (s, l, n))" and w: "no_wrap s l" and s: "2 ^ 20 \<le> unat s"
      and zone: "\<forall>a \<in> rng s l. ztat memmap a = SMT_FREE \<and> (\<forall>f \<in> set fs. a \<notin> src_rng f \<union> dst_rng f)"
    obtain n1 where d: "dup_or_bail always memmap n = Some (Inr (memmap, n1))" using dup_always by blast
    obtain zs where zs: "memmap = zs @ [end_token]" "\<forall>z \<in> set zs. ztype z \<noteq> SMT_END" using inv by (auto simp: zl_invar_def)
    have tz: "ztat memmap (2 ^ 32 - 1) \<noteq> SMT_ZERO" using top by (auto simp: movable_def)
    have "\<forall>(z, e) \<in> set (extents (zs @ [end_token])). ztype z = SMT_ZERO \<longrightarrow> e - zstart z \<noteq> 0" using zeroed_iff(1) [OF inv tz] zs(1) by blast
    from zero_descs_ok [OF zs(2) this] obtain ds where ds: "zero_descs memmap = Some ds" "nzero = length ds"
      "\<forall>mem rest. pm_shuffle (ds @ rest) mem = pm_shuffle rest (zeroed memmap mem)" using zs(1) assms(8) by auto
    have sh: "syslinux_do_shuffle (\<lambda>_. always) always ssize fs memmap entry_point entry_type =
      andthen (desc_loop ?plan always ssize s l nzero 0 (blocks_for nzero) memmap n1) (\<lambda>(da, blocks, mvs, n). Some (Inr \<lparr>hdescaddr = da, hblocks = blocks,
        hdbuf = map move_desc mvs @ ds @ [\<lparr>ddst = entry_point, dsrc = entry_type, dlen = 0\<rparr>]\<rparr>))"
      using assms(8) dz d ds(1) by (simp add: syslinux_do_shuffle_def do_shuffle_def)
    have lim: "3072 * blocks_for 80000 + 12 + unat ssize \<le> 2 ^ 20" using assms(10) by (simp add: blocks_for_def DESC_BLOCK_SIZE_def)
    have ar: "around memmap s l memmap" using inv assms(2) by (simp add: around_def)
    have pl: "\<forall>k rx. around memmap s l rx \<longrightarrow> (\<exists>mvs. ?plan k rx = Some (Inr mvs) \<and> length mvs + nzero \<le> 80000 \<and> plan_good fs mem rx mvs)"
    proof (intro allI impI)
      fix k rx
      assume "around memmap s l rx"
      from plan_around [OF fs assms(4-6) this, of mem] zone obtain mvs where "?plan k rx = Some (Inr mvs)" "length mvs \<le> length fs" "plan_good fs mem rx mvs" by blast
      then show "\<exists>mvs. ?plan k rx = Some (Inr mvs) \<and> length mvs + nzero \<le> 80000 \<and> plan_good fs mem rx mvs" using assms(9) by auto
    qed
    have bl: "blocks_for nzero \<le> blocks_for 80000" using assms(9) by (intro blocks_mono) simp
    from desc_loop_ok [where good = "plan_good fs mem" and k = 0 and n = n1, OF w s lim pl ar bl] show ?thesis
    proof (elim disjE exE conjE)
      fix da blocks mvs n' rx
      assume l: "desc_loop ?plan always ssize s l nzero 0 (blocks_for nzero) memmap n1 = Some (Inr (da, blocks, mvs, n'))"
        and b: "blocks_for (length mvs + nzero) \<le> blocks" "blocks \<le> blocks_for 80000" and da: "unat s \<le> unat da" "unat da + unat (desc_mem ssize blocks) \<le> unat s + unat l"
        and rx: "around memmap s l rx" and res: "\<forall>a \<in> rng da (desc_mem ssize blocks). ztat rx a = SMT_RESERVED" and g: "plan_good fs mem rx mvs"
      note M = shuffle_memory [OF inv fs assms(7) top rx g zone w]
      define h where "h = \<lparr>hdescaddr = da, hblocks = blocks, hdbuf = map move_desc mvs @ ds @ [\<lparr>ddst = entry_point, dsrc = entry_type, dlen = 0\<rparr>]\<rparr>"
      have "syslinux_do_shuffle (\<lambda>_. always) always ssize fs memmap entry_point entry_type = Some (Inr h)" using l by (simp add: sh h_def)
      moreover have "pm_shuffle (hdbuf h) mem = Some (zeroed memmap (exec_moves mvs mem), entry_point, entry_type)"
        using top_not_source [OF rx top] g ds(3) by (simp add: h_def pm_shuffle_moves plan_good_def)
      moreover have "12 * length (hdbuf h) + unat ssize \<le> unat (desc_mem ssize (hblocks h))"
      proof -
        have "3072 * blocks + 12 + unat ssize \<le> 2 ^ 20" using b(2) lim by linarith
        then show ?thesis using blocks_hold [of "length mvs + nzero"] b(1) ds(2) desc_mem_unat by (simp add: h_def)
      qed
      moreover have "rng da (desc_mem ssize blocks) \<subseteq> rng s l" using da by (auto simp: rng_def)
      then have "\<forall>a \<in> rng (hdescaddr h) (desc_mem ssize (hblocks h)). ztat memmap a = SMT_FREE \<and> (\<forall>f \<in> set fs. a \<notin> src_rng f \<union> dst_rng f) \<and>
          zeroed memmap (exec_moves mvs mem) a = mem a" using M(4) zone res by (auto simp: h_def)
      ultimately show ?thesis using M(1-3) by (intro disjI2 exI [of _ h] exI [of _ "zeroed memmap (exec_moves mvs mem)"]) auto
    qed (simp add: sh)
  qed
qed

definition boot_map :: memmap where
  "boot_map = [\<lparr>zstart = 0, ztype = SMT_FREE\<rparr>, \<lparr>zstart = 0x800000, ztype = SMT_ZERO\<rparr>, \<lparr>zstart = 0x801000, ztype = SMT_FREE\<rparr>,
    \<lparr>zstart = 0x1000000, ztype = SMT_RESERVED\<rparr>, end_token]"

definition boot_frags :: "movelist list" where
  "boot_frags = [\<lparr>mdst = 0x200000, msrc = 0x200010, mlen = 0x100\<rparr>, \<lparr>mdst = 0x200100, msrc = 0x400000, mlen = 0x80\<rparr>]"

lemma boot_ok:
  "zl_invar boot_map" "no_terminal boot_map" "\<forall>f \<in> set boot_frags. frag_ok f" "sorted_wrt (\<lambda>f g. src_rng f \<inter> src_rng g = {}) boot_frags"
  "sorted_wrt (\<lambda>f g. dst_rng f \<inter> dst_rng g = {}) boot_frags" "orderly boot_frags boot_map"
  "\<forall>f \<in> set boot_frags. \<forall>a \<in> dst_rng f. ztat boot_map a \<noteq> SMT_ZERO"
proof -
  show "zl_invar boot_map"
    unfolding zl_invar_def boot_map_def
    by (intro exI [of _ "[\<lparr>zstart = 0, ztype = SMT_FREE\<rparr>, \<lparr>zstart = 0x800000, ztype = SMT_ZERO\<rparr>, \<lparr>zstart = 0x801000, ztype = SMT_FREE\<rparr>,
      \<lparr>zstart = 0x1000000, ztype = SMT_RESERVED\<rparr>]"]) (simp add: zpair_def rwf_def rsorted_def rcompact_def)
  have t: "ztat boot_map a = (if a < 0x800000 then SMT_FREE else if a < 0x801000 then SMT_ZERO else if a < 0x1000000 then SMT_FREE else SMT_RESERVED)" if "a < 2 ^ 32" for a
    using that by (simp add: ztat_def zone_at_def zones_def boot_map_def zpair_def word_less_nat_alt unsigned_of_nat take_bit_nat_eq_self)
  show "no_terminal boot_map" by (simp add: no_terminal_def t)
  show "\<forall>f \<in> set boot_frags. frag_ok f" "sorted_wrt (\<lambda>f g. src_rng f \<inter> src_rng g = {}) boot_frags" "sorted_wrt (\<lambda>f g. dst_rng f \<inter> dst_rng g = {}) boot_frags"
    by (auto simp: boot_frags_def frag_ok_def src_rng_def dst_rng_def rng_def)
  have "2 ^ 32 - 1 \<notin> movable boot_frags boot_map" by (simp add: movable_def t boot_frags_def src_rng_def rng_def)
  moreover have "dst_rng f \<subseteq> movable boot_frags boot_map" if "f \<in> set boot_frags" for f
    using that by (auto simp: boot_frags_def dst_rng_def rng_def movable_def t)
  moreover have "sorted_wrt (\<lambda>f g. dst_rng f \<inter> src_rng g = {}) boot_frags" by (auto simp: boot_frags_def src_rng_def dst_rng_def rng_def)
  ultimately show "orderly boot_frags boot_map" unfolding orderly_def by blast
  show "\<forall>f \<in> set boot_frags. \<forall>a \<in> dst_rng f. ztat boot_map a \<noteq> SMT_ZERO" by (auto simp: boot_frags_def dst_rng_def rng_def t)
qed

theorem syslinux_do_shuffle_correct_witness:
  "\<forall>mem. \<exists>h mem'. syslinux_do_shuffle (\<lambda>_. always) always 0x200 boot_frags boot_map 0x200000 1 = Some (Inr h) \<and>
     pm_shuffle (hdbuf h) mem = Some (mem', 0x200000, 1) \<and> mem' 0x200105 = mem 0x400005 \<and> mem' 0x800000 = 0"
proof
  fix mem
  have n: "syslinux_do_shuffle (\<lambda>_. always) always 0x200 boot_frags boot_map 0x200000 1 \<noteq> Some (Inl No_free_memory)" by code_simp
  have nz: "count_zero boot_map = Some 1" "length boot_frags + 1 \<le> 80000" "unat (0x200 :: addr_t) \<le> 2 ^ 16" by (simp_all add: boot_map_def boot_frags_def)
  from syslinux_do_shuffle_correct [OF boot_ok nz, of "0x200000" 1 mem] n obtain h mem' where
    h: "syslinux_do_shuffle (\<lambda>_. always) always 0x200 boot_frags boot_map 0x200000 1 = Some (Inr h)" "pm_shuffle (hdbuf h) mem = Some (mem', 0x200000, 1)"
      "\<forall>f \<in> set boot_frags. \<forall>i < unat (mlen f). mem' (unat (mdst f) + i) = mem (unat (msrc f) + i)" "\<forall>a < 2 ^ 32. ztat boot_map a = SMT_ZERO \<longrightarrow> mem' a = 0"
    by fastforce
  have "\<forall>i < 0x80. mem' (0x200100 + i) = mem (0x400000 + i)" using h(3) by (simp add: boot_frags_def)
  from this [rule_format, of 5] have "mem' 0x200105 = mem 0x400005" by simp
  moreover have "ztat boot_map 0x800000 = SMT_ZERO" by (simp add: ztat_def zone_at_def zones_def boot_map_def zpair_def)
  then have "mem' 0x800000 = 0" using h(4) by simp
  ultimately show "\<exists>h mem'. syslinux_do_shuffle (\<lambda>_. always) always 0x200 boot_frags boot_map 0x200000 1 = Some (Inr h) \<and>
     pm_shuffle (hdbuf h) mem = Some (mem', 0x200000, 1) \<and> mem' 0x200105 = mem 0x400005 \<and> mem' 0x800000 = 0" using h(1,2) by blast
qed

subsection \<open>The stack of the code that executes the descriptors\<close>

text \<open>Whatever the plans are: the descriptors end in the zone, and they fit into the blocks.\<close>

definition desc_fits :: "addr_t \<Rightarrow> addr_t \<Rightarrow> addr_t \<Rightarrow> nat \<Rightarrow> bail + addr_t \<times> nat \<times> movelist list \<times> nat \<Rightarrow> bool" where
  "desc_fits ssize s l nzero r \<longleftrightarrow> (case r of Inl _ \<Rightarrow> True | Inr (da, blocks, mvs, _) \<Rightarrow>
     da = (s + l - desc_mem ssize blocks) AND NOT 3 \<and> s \<le> da \<and> blocks_for (length mvs + nzero) \<le> blocks)"

lemma desc_loop_fits:
  assumes "desc_loop plan ok ssize s l nzero k blocks rx n = Some r"
  shows "desc_fits ssize s l nzero r"
proof (rule desc_loop.raw_induct [where P = "\<lambda>plan ok ssize s l nzero k blocks rx n r. desc_fits ssize s l nzero r", OF _ assms])
  fix loop plan ok ssize s l nzero k blocks rx n r
  assume IH: "\<And>plan ok ssize s l nzero k blocks rx n r. loop plan ok ssize s l nzero k blocks rx n = Some r \<Longrightarrow> desc_fits ssize s l nzero r"
    and body: "(case desc_round plan ok ssize s l k blocks rx n of None \<Rightarrow> None | Some (Inl e) \<Rightarrow> Some (Inl e)
      | Some (Inr (descaddr, mvs, rxmap, n)) \<Rightarrow>
          let need_blocks = blocks_for (length mvs + nzero)
          in if need_blocks \<le> blocks then Some (Inr (descaddr, blocks, mvs, n)) else loop plan ok ssize s l nzero (k + 1) need_blocks rxmap n) = Some r"
  show "desc_fits ssize s l nzero r"
  proof (cases "\<exists>da mvs rx' n'. desc_round plan ok ssize s l k blocks rx n = Some (Inr (da, mvs, rx', n'))")
    case True
    then obtain da mvs rx' n' where d: "desc_round plan ok ssize s l k blocks rx n = Some (Inr (da, mvs, rx', n'))" by blast
    then have "da = (s + l - desc_mem ssize blocks) AND NOT 3" "s \<le> da"
      by (auto simp: desc_round_def Let_def andthen_def split: if_splits option.splits sum.splits prod.splits)
    then show ?thesis using body d IH by (auto simp: desc_fits_def Let_def split: if_splits)
  next
    case False
    then show ?thesis using body by (auto simp: desc_fits_def split: option.splits sum.splits)
  qed
qed

lemma zero_descs_count: "zero_descs mm = Some zs \<Longrightarrow> count_zero mm = Some k \<Longrightarrow> length zs = k"
proof (induction mm arbitrary: zs k)
  case (Cons m mm)
  then show ?case by (cases mm) (auto split: if_splits simp del: zero_descs.simps(1))
qed simp

lemma and_not_low:
  fixes x :: addr_t
  shows "unat (x AND NOT (mask k)) \<le> unat x" and "unat x \<le> unat (x AND NOT (mask k)) + (2 ^ k - 1)"
proof -
  have "(x AND NOT (mask k)) AND (x AND mask k) = 0" by (simp add: bit_eq_iff bit_simps)
  moreover have "(x AND NOT (mask k)) OR (x AND mask k) = x" by (auto simp: bit_eq_iff bit_simps)
  ultimately have e: "(x AND NOT (mask k)) + (x AND mask k) = x" by (metis disjunctive_add_eq_or)
  have le: "x AND NOT (mask k) \<le> x" by (rule word_and_le2)
  then show u: "unat (x AND NOT (mask k)) \<le> unat x" by (simp only: word_le_nat_alt)
  have "x AND mask k = x - (x AND NOT (mask k))" using e by (simp add: algebra_simps)
  then have "unat (take_bit k x) = unat x - unat (x AND NOT (mask k))" unfolding take_bit_eq_mask using unat_diff [OF u] by simp
  moreover have "unat (take_bit k x) < 2 ^ k" unfolding unsigned_take_bit_eq by (rule take_bit_nat_less_exp)
  ultimately show "unat x \<le> unat (x AND NOT (mask k)) + (2 ^ k - 1)" by linarith
qed

text \<open>C38. The memory reserved for the descriptors and the code that executes them has no room for the stack of that code. Whatever the allocator and the planner
  answer, when at most nine of the descriptors that were reserved in blocks are left over, as when there is nothing to be moved or zeroed, the first word
  on the stack lies behind the reserved memory and behind the free zone that was found for it. The zone ends 256 bytes before
  the end of the address space or earlier, and the reserved memory is at most 1 MB; the size of the code is any.\<close>

theorem shuffler_stack_outside:
  assumes "zl_invar memmap" and "\<forall>f \<in> set fs. frag_ok f" and dz: "desc_zone always fs memmap 0 = Some (Inr (s, l, n))" and top: "unat s + unat l + 256 \<le> 2 ^ 32"
    and sh: "syslinux_do_shuffle pok always ssize fs memmap entry_point entry_type = Some (Inr h)"
    and small: "3072 * hblocks h + 12 + unat ssize \<le> 2 ^ 20" and full: "256 * hblocks h \<le> length (hdbuf h) + 9"
  shows "unat (hdescaddr h) + unat (desc_mem ssize (hblocks h)) \<le> unat s + unat l \<and> unat s + unat l \<le> unat (shuffler_stack ssize h) - 4"
proof -
  have s: "2 ^ 20 \<le> unat s" using desc_zone_ok [OF assms(1,2), of 0] dz by auto
  obtain n1 where d: "dup_or_bail always memmap n = Some (Inr (memmap, n1))" using dup_always by blast
  obtain nzero where nz: "count_zero memmap = Some nzero" using sh by (cases "count_zero memmap") (auto simp: syslinux_do_shuffle_def do_shuffle_def)
  obtain da blocks mvs n' zs where r: "desc_loop (\<lambda>k. syslinux_compute_movelist (pok k) fs) always ssize s l nzero 0 (blocks_for nzero) memmap n1 = Some (Inr (da, blocks, mvs, n'))"
    "zero_descs memmap = Some zs" "h = \<lparr>hdescaddr = da, hblocks = blocks, hdbuf = map move_desc mvs @ zs @ [\<lparr>ddst = entry_point, dsrc = entry_type, dlen = 0\<rparr>]\<rparr>"
    using sh dz d nz by (auto simp: syslinux_do_shuffle_def do_shuffle_def andthen_def split: option.splits sum.splits)
  define m where "m = desc_mem ssize blocks"
  have da: "da = (s + l - m) AND NOT 3" "blocks_for (length mvs + nzero) \<le> blocks" using desc_loop_fits [OF r(1)] by (auto simp: desc_fits_def m_def)
  have m: "unat m = 3072 * blocks + 12 + unat ssize" using desc_mem_unat small by (simp add: m_def r(3))
  have len: "length (hdbuf h) = length mvs + nzero + 1" using zero_descs_count [OF r(2) nz] by (simp add: r(3))
  then have k: "length (hdbuf h) \<le> 256 * blocks + 1" using blocks_hold [of "length mvs + nzero"] da(2) by simp
  have "unat (s - m) = unat s - unat m" using m s small by (intro unat_diff) (simp add: r(3))
  then have "unat (s - m + l) = unat s - unat m + unat l" using top by (intro trans [OF unat_plus]) auto
  moreover have "s - m + l = s + l - m" by simp
  ultimately have u: "unat (s + l - m) = unat s + unat l - unat m" using m s small by (simp add: r(3))
  have m3: "(3 :: addr_t) = mask 2" "(15 :: addr_t) = mask 4" by (simp_all add: mask_eq_exp_minus_1)
  have e: "unat da \<le> unat s + unat l - unat m" "unat s + unat l - unat m \<le> unat da + 3" using and_not_low [of "s + l - m" 2] by (simp_all add: da(1) m3(1) u)
  let ?x = "da + of_nat (12 * length (hdbuf h)) + 15"
  have ml: "unat m \<le> unat s + unat l" using m s small by (simp add: r(3))
  have kl: "unat (of_nat (12 * length (hdbuf h)) :: addr_t) = 12 * length (hdbuf h)"
    unfolding unsigned_of_nat of_nat_id using k small by (intro take_bit_nat_eq_self) (simp add: r(3))
  have "unat (da + of_nat (12 * length (hdbuf h))) = unat da + 12 * length (hdbuf h)" using e(1) k m ml top kl by (intro trans [OF unat_plus]) auto
  then have x: "unat ?x = unat da + 12 * length (hdbuf h) + 15" using e(1) k m ml top by (intro trans [OF unat_plus]) auto
  note B = and_not_low [of ?x 4, folded m3(2)]
  have "unat ((?x AND NOT 15) + ssize) = unat (?x AND NOT 15) + unat ssize" using B(1) x e(1) k m ml top by (intro unat_plus) simp
  then have st: "unat (shuffler_stack ssize h) = unat (?x AND NOT 15) + unat ssize + 128"
    unfolding shuffler_stack_def using B(1) x e(1) k m ml top by (simp only: r(3) handoff.simps(1)) (intro trans [OF unat_plus], auto)
  have hb: "hdescaddr h = da" "hblocks h = blocks" by (simp_all add: r(3))
  have "unat da + 12 * length (hdbuf h) \<le> unat (?x AND NOT 15)" using B(2) x by simp
  moreover have "unat s + unat l \<le> unat da + 3 + unat m" "unat da + unat m \<le> unat s + unat l" using e ml by simp_all
  moreover have "3072 * blocks \<le> 12 * length (hdbuf h) + 108" using full hb(2) by simp
  ultimately show ?thesis unfolding st hb m_def [symmetric] using m by linarith
qed

definition placed_frags :: "movelist list" where
  "placed_frags = [\<lparr>mdst = 0xf00000, msrc = 0xf00000, mlen = 0x1000\<rparr>]"

definition placed_map :: memmap where
  "placed_map = [\<lparr>zstart = 0, ztype = SMT_FREE\<rparr>, \<lparr>zstart = 0x1000000, ztype = SMT_RESERVED\<rparr>, end_token]"

text \<open>A fragment that is already in its place behind the largest free zone: the stack lies in it.\<close>

theorem shuffler_stack_outside_witness:
  "\<exists>h. syslinux_do_shuffle (\<lambda>_. always) always 0x200 placed_frags placed_map 0xf00000 1 = Some (Inr h) \<and>
     0xf00000 \<le> unat (shuffler_stack 0x200 h) - 4 \<and> unat (shuffler_stack 0x200 h) - 4 \<in> dst_rng (placed_frags ! 0)"
proof -
  let ?h = "\<lparr>hdescaddr = 0xeffdf4, hblocks = 0, hdbuf = [\<lparr>ddst = 0xf00000, dsrc = 1, dlen = 0\<rparr>]\<rparr>"
  have r: "syslinux_do_shuffle (\<lambda>_. always) always 0x200 placed_frags placed_map 0xf00000 1 = Some (Inr ?h)" by code_simp
  have "case desc_zone always placed_frags placed_map 0 of Some (Inr (s, l, n)) \<Rightarrow> s = 0x100000 \<and> l = 0xe00000 | _ \<Rightarrow> False" by code_simp
  then obtain n where z: "desc_zone always placed_frags placed_map 0 = Some (Inr (0x100000, 0xe00000, n))" by (auto split: option.splits sum.splits)
  have "zl_invar placed_map"
    unfolding zl_invar_def placed_map_def
    by (intro exI [of _ "[\<lparr>zstart = 0, ztype = SMT_FREE\<rparr>, \<lparr>zstart = 0x1000000, ztype = SMT_RESERVED\<rparr>]"]) (simp add: zpair_def rwf_def rsorted_def rcompact_def)
  moreover have "\<forall>f \<in> set placed_frags. frag_ok f" by (simp add: placed_frags_def frag_ok_def)
  ultimately have "0xf00000 \<le> unat (shuffler_stack 0x200 ?h) - 4" using shuffler_stack_outside [OF _ _ z _ r] by simp
  moreover have "unat (shuffler_stack 0x200 ?h) - 4 \<in> dst_rng (placed_frags ! 0)" by (simp add: shuffler_stack_def placed_frags_def dst_rng_def rng_def)
  ultimately show ?thesis using r by blast
qed

end
