(* ===== verification/E820.thy ===== *)
theory E820
  imports RangeMap
begin

section \<open>The E820 range database of memdisk\<close>

text \<open>
  \<open>memdisk/e820func.c\<close> keeps the memory map that memdisk hands to the booted system as an
  array of 1024 range starts, closed by a sentinel of type \<open>-1U\<close>; \<open>memdisk/msetup.c\<close> fills
  it from the BIOS and derives the sizes the older BIOS calls report. The array and the
  count are explicit state; each access to the array is bounded, so that running off the
  1024 entries is the value \<open>None\<close>. The correctness statement is the interface
  \<open>memory_map\<close> of theory RangeMap, which the linked list of the com32 library implements as well.
\<close>

subsection \<open>State and operations\<close>

record e820range =
  rstart :: u64
  rtype :: u32

record e820map =
  ranges :: "e820range list"
  nranges :: nat

definition MAXRANGES :: nat where
  "MAXRANGES = 1024"

definition sentinel :: e820range where
  "sentinel = \<lparr>rstart = 0, rtype = - 1\<rparr>"

text \<open>\<open>memset(ranges, 0, ...)\<close>, then the type of entry 1 becomes that of the sentinel.\<close>

definition e820map_init :: e820map where
  "e820map_init =
     (let rs = replicate MAXRANGES \<lparr>rstart = 0, rtype = 0\<rparr>
      in \<lparr>ranges = rs[1 := (rs ! 1)\<lparr>rtype := - 1\<rparr>], nranges = 1\<rparr>)"

fun shift_up :: "e820range list \<Rightarrow> nat \<Rightarrow> nat \<Rightarrow> e820range list option" where
  "shift_up rs at i =
     (if at < i then do { r \<leftarrow> rd rs (i - 1); rs \<leftarrow> wr rs i r; shift_up rs at (i - 1) }
      else Some rs)"

definition insertrange_at :: "e820map \<Rightarrow> nat \<Rightarrow> u64 \<Rightarrow> u32 \<Rightarrow> e820map option" where
  "insertrange_at m at start ty = do {
     rs \<leftarrow> shift_up (ranges m) at (nranges m);
     rs \<leftarrow> wr rs at \<lparr>rstart = start, rtype = ty\<rparr>;
     let n = nranges m + 1;
     rs \<leftarrow> wr rs n sentinel;
     Some \<lparr>ranges = rs, nranges = n\<rparr> }"

text \<open>The four loops of \<open>insertrange\<close>: the search for the first range that does not start
  below \<open>start\<close>, the overwriting of the ranges that start inside the new one, and the removal
  of ranges that no longer differ from their predecessor.\<close>

function seek_loop :: "e820range list \<Rightarrow> u64 \<Rightarrow> nat \<Rightarrow> u32 \<Rightarrow> (nat \<times> u32) option" where
  "seek_loop rs start i oldtype =
     (if i < length rs then
        (if start > rstart (rs ! i) \<and> rtype (rs ! i) \<noteq> - 1
         then seek_loop rs start (i + 1) (rtype (rs ! i))
         else Some (i, oldtype))
      else None)"
  by auto
termination by (relation "measure (\<lambda>(rs, _, i, _). length rs - i)") auto

function mark_loop :: "e820range list \<Rightarrow> u64 \<Rightarrow> u32 \<Rightarrow> nat \<Rightarrow> u32 \<Rightarrow>
    (e820range list \<times> nat \<times> u32) option" where
  "mark_loop rs lst ty i oldtype =
     (if i < length rs then
        (if i = 0 \<or> lst > rstart (rs ! i) - 1
         then mark_loop (rs[i := (rs ! i)\<lparr>rtype := ty\<rparr>]) lst ty (i + 1) (rtype (rs ! i))
         else Some (rs, i, oldtype))
      else None)"
  by auto
termination by (relation "measure (\<lambda>(rs, _, _, i, _). length rs - i)") auto

function compact_loop :: "e820range list \<Rightarrow> nat \<Rightarrow> nat \<Rightarrow> nat \<Rightarrow> u32 \<Rightarrow>
    (e820range list \<times> nat \<times> nat) option" where
  "compact_loop rs n i j oldtype =
     (if i < n then do {
        r \<leftarrow> rd rs i;
        (if rtype r = oldtype then compact_loop rs n (i + 1) j oldtype
         else do {
           rs \<leftarrow> (if i \<noteq> j then wr rs j r else Some rs);
           compact_loop rs n (i + 1) (j + 1) (rtype r) }) }
      else Some (rs, i, j))"
  by auto
termination by (relation "measure (\<lambda>(_, n, i, _, _). n - i)") auto

definition compact_ranges :: "e820map \<Rightarrow> e820map option" where
  "compact_ranges m = do {
     r0 \<leftarrow> rd (ranges m) 0;
     (rs, i, j) \<leftarrow> compact_loop (ranges m) (nranges m) 1 1 (rtype r0);
     (if i \<noteq> j then do {
        r \<leftarrow> rd rs i;
        rs \<leftarrow> wr rs j r;
        Some \<lparr>ranges = rs, nranges = nranges m - (i - j)\<rparr> }
      else Some (m\<lparr>ranges := rs\<rparr>)) }"

definition insertrange :: "e820map \<Rightarrow> u64 \<Rightarrow> u64 \<Rightarrow> u32 \<Rightarrow> e820map option" where
  "insertrange m start len ty =
     (if len = 0 then Some m
      else do {
        let lst = start + len - 1;
        (i, oldtype) \<leftarrow> seek_loop (ranges m) start 0 (- 2);
        r \<leftarrow> rd (ranges m) i;
        (m, i) \<leftarrow> (if start < rstart r \<or> rtype r = - 1
                   then map_option (\<lambda>m. (m, i + 1)) (insertrange_at m i start ty)
                   else Some (m, i));
        (rs, i, oldtype) \<leftarrow> mark_loop (ranges m) lst ty i oldtype;
        r \<leftarrow> rd rs i;
        m \<leftarrow> (if lst < rstart r - 1
              then insertrange_at (m\<lparr>ranges := rs\<rparr>) i (lst + 1) oldtype
              else Some (m\<lparr>ranges := rs\<rparr>));
        compact_ranges m })"

subsection \<open>Filling the map from the BIOS\<close>

text \<open>
  What one \<open>int 15h, AX=E820h\<close> leaves in the registers and in the bounce buffer. The BIOS is
  not part of the program: its successive answers are the argument of the scan, and a scan
  that wants more answers than it is given is \<open>None\<close>.
\<close>

record e820_reply =
  r_cf :: bool
  r_eax :: u32
  r_ebx :: u32
  r_ecx :: u32
  b_base :: u64
  b_len :: u64
  b_type :: u32

fun get_e820_loop :: "e820_reply list \<Rightarrow> e820map \<Rightarrow> nat \<Rightarrow> (e820map \<times> nat) option" where
  "get_e820_loop [] m range_count = None"
| "get_e820_loop (r # rs) m range_count =
     (let copied = (if r_cf r then 0 else r_ecx r) in
      if r_eax r \<noteq> 0x534d4150 \<or> copied < 20 then Some (m, range_count)
      else do {
        m \<leftarrow> insertrange m (b_base r) (b_len r) (b_type r);
        (if r_ebx r \<noteq> 0 then get_e820_loop rs m (range_count + 1)
         else Some (m, range_count + 1)) })"

definition get_e820 :: "e820_reply list \<Rightarrow> e820map \<Rightarrow> (e820map \<times> bool) option" where
  "get_e820 rs m = map_option (\<lambda>(m, range_count). (m, range_count = 0)) (get_e820_loop rs m 0)"

definition get_dos_mem :: "u16 \<Rightarrow> e820map \<Rightarrow> e820map option" where
  "get_dos_mem ax m = insertrange m 0 (ucast (push_bit 10 (ucast ax :: u32))) 1"

definition get_e801 :: "bool \<Rightarrow> u16 \<Rightarrow> u16 \<Rightarrow> e820map \<Rightarrow> (e820map \<times> bool) option" where
  "get_e801 cf ax bx m =
     (if \<not> cf then do {
        m \<leftarrow> (if ax \<noteq> 0 then insertrange m 0x100000 (ucast (push_bit 10 (ucast ax :: u32))) 1
              else Some m);
        m \<leftarrow> (if bx \<noteq> 0 then insertrange m 0x1000000 (ucast (push_bit 16 (ucast bx :: u32))) 1
              else Some m);
        Some (m, cf) }
      else Some (m, cf))"

definition get_88 :: "bool \<Rightarrow> u16 \<Rightarrow> e820map \<Rightarrow> (e820map \<times> bool) option" where
  "get_88 cf ax m =
     (if \<not> cf then do {
        m \<leftarrow> (if ax \<noteq> 0 then insertrange m 0x100000 (ucast (push_bit 10 (ucast ax :: u32))) 1
              else Some m);
        Some (m, cf) }
      else Some (m, cf))"

text \<open>The answers of the four BIOS calls, and the scan; \<open>die\<close> is the error value.\<close>

record bios =
  int_e820 :: "e820_reply list"
  int_12 :: u16
  int_e801 :: "bool \<times> u16 \<times> u16"
  int_88 :: "bool \<times> u16"

datatype get_mem_error = Unable_to_obtain_memory_map

definition get_mem :: "bios \<Rightarrow> e820map \<Rightarrow> (get_mem_error + e820map) option" where
  "get_mem b m = do {
     (m, failed) \<leftarrow> get_e820 (int_e820 b) m;
     (if failed then do {
        m \<leftarrow> get_dos_mem (int_12 b) m;
        (m, failed) \<leftarrow> (case int_e801 b of (cf, ax, bx) \<Rightarrow> get_e801 cf ax bx m);
        (if failed then do {
           (m, failed) \<leftarrow> (case int_88 b of (cf, ax) \<Rightarrow> get_88 cf ax m);
           Some (if failed then Inl Unable_to_obtain_memory_map else Inr m) }
         else Some (Inr m)) }
      else Some (Inr m)) }"

subsection \<open>Sizes of conventional, low and high memory\<close>

record mem_sizes =
  dos_mem :: u32
  low_mem :: u32
  high_mem :: u32

definition PW :: "nat \<Rightarrow> u64" where
  "PW x = push_bit x 1"

definition parse_range :: "e820range \<Rightarrow> u64 \<Rightarrow> mem_sizes \<Rightarrow> mem_sizes" where
  "parse_range ep next_start s =
     (if rtype ep = 1 then
        let s = (if rstart ep = 0
                 then s\<lparr>dos_mem := (if next_start > PW 20 then ucast (PW 20) else ucast next_start)\<rparr>
                 else s);
            s = (if rstart ep \<le> PW 20 \<and> next_start > PW 20
                 then s\<lparr>low_mem := (if next_start > PW 24 then ucast (PW 24 - PW 20)
                                    else ucast (next_start - PW 20))\<rparr>
                 else s)
        in (if rstart ep \<le> PW 24 \<and> next_start > PW 24
            then s\<lparr>high_mem := (if next_start > PW 32 then ucast (PW 32 - PW 24)
                                else ucast (next_start - PW 24))\<rparr>
            else s)
      else s)"

function parse_mem_loop :: "e820range list \<Rightarrow> nat \<Rightarrow> mem_sizes \<Rightarrow> mem_sizes option" where
  "parse_mem_loop rs i s =
     (if i < length rs then
        (if rtype (rs ! i) \<noteq> - 1
         then do { r \<leftarrow> rd rs (i + 1); parse_mem_loop rs (i + 1) (parse_range (rs ! i) (rstart r) s) }
         else Some s)
      else None)"
  by auto
termination by (relation "measure (\<lambda>(rs, i, _). length rs - i)") auto

definition parse_mem :: "e820map \<Rightarrow> mem_sizes option" where
  "parse_mem m = parse_mem_loop (ranges m) 0 \<lparr>dos_mem = 0, low_mem = 0, high_mem = 0\<rparr>"

declare shift_up.simps [simp del] seek_loop.simps [simp del] mark_loop.simps [simp del]
  compact_loop.simps [simp del] parse_mem_loop.simps [simp del]


subsection \<open>Meaning and invariant\<close>

definition epair :: "e820range \<Rightarrow> u64 \<times> u32" where
  "epair r = (rstart r, rtype r)"

lemma epair_sel [simp]: "fst (epair r) = rstart r" "snd (epair r) = rtype r"
  by (simp_all add: epair_def)

lemma rlook_epair: "rlook d (epair r # rs) a = (if a < rstart r then d else rlook (rtype r) rs a)"
  by (simp add: epair_def)

definition e820_live :: "e820map \<Rightarrow> (64, u32) ranges" where
  "e820_live m = map epair (take (nranges m) (ranges m))"

definition type_at :: "e820map \<Rightarrow> u64 \<Rightarrow> u32" where
  "type_at m a = rlook 0 (e820_live m) a"

definition e820_invar :: "e820map \<Rightarrow> bool" where
  "e820_invar m \<longleftrightarrow> length (ranges m) = MAXRANGES \<and> nranges m < MAXRANGES \<and>
     ranges m ! nranges m = sentinel \<and> rwf (e820_live m) \<and> rcompact (e820_live m) \<and>
     (\<forall>r \<in> set (e820_live m). snd r \<noteq> - 1)"

definition e820_fits :: "nat \<Rightarrow> e820map \<Rightarrow> bool" where
  "e820_fits n m \<longleftrightarrow> nranges m + 2 * n < MAXRANGES"

lemma sentinel_sel [simp]: "rstart sentinel = 0" "rtype sentinel = - 1"
  by (simp_all add: sentinel_def)

text \<open>The array of a map: the live ranges, the sentinel, and what is left of the array.\<close>

lemma e820_invar_split:
  assumes "e820_invar m"
  obtains L R where "ranges m = L @ sentinel # R" "nranges m = length L"
    "e820_live m = map epair L" "length L + length R + 1 = MAXRANGES"
proof
  have n: "nranges m < length (ranges m)" "ranges m ! nranges m = sentinel" "length (ranges m) = MAXRANGES"
    using assms by (auto simp: e820_invar_def)
  then show "ranges m = take (nranges m) (ranges m) @ sentinel # drop (Suc (nranges m)) (ranges m)"
    by (metis id_take_nth_drop)
  show "nranges m = length (take (nranges m) (ranges m))"
    "e820_live m = map epair (take (nranges m) (ranges m))"
    "length (take (nranges m) (ranges m)) + length (drop (Suc (nranges m)) (ranges m)) + 1 = MAXRANGES"
    using n by (auto simp: e820_live_def)
qed

lemma e820_live_eq [simp]: "e820_live \<lparr>ranges = L @ R, nranges = length L\<rparr> = map epair L"
  by (simp add: e820_live_def)

lemma e820_invarI:
  assumes "length L + length R + 1 = MAXRANGES" "rwf (map epair L)" "rcompact (map epair L)"
    "\<forall>r \<in> set L. rtype r \<noteq> - 1"
  shows "e820_invar \<lparr>ranges = L @ sentinel # R, nranges = length L\<rparr>"
  using assms by (auto simp: e820_invar_def)

subsection \<open>Inserting into the array\<close>

lemma shift_up_list:
  "shift_up (P @ ys @ z # R) (length P) (length P + length ys) = Some (P @ hd (ys @ [z]) # ys @ R)"
proof (induction ys arbitrary: z R rule: rev_induct)
  case (snoc y ys)
  have "rd (P @ (ys @ [y]) @ z # R) (length P + length ys) = Some y"
    by (simp add: rd_def nth_append)
  moreover have "wr (P @ (ys @ [y]) @ z # R) (length P + length (ys @ [y])) y = Some (P @ ys @ y # y # R)"
    by (simp add: wr_def list_update_append)
  ultimately show ?case
    using snoc.IH [of y "y # R"] by (subst shift_up.simps) (simp add: hd_append)
qed (simp add: shift_up.simps)

lemma insertrange_at_list:
  "insertrange_at \<lparr>ranges = P @ S @ sentinel # x # R, nranges = length P + length S\<rparr> (length P) a t =
   Some \<lparr>ranges = P @ \<lparr>rstart = a, rtype = t\<rparr> # S @ sentinel # R, nranges = length P + length S + 1\<rparr>"
  using shift_up_list [of P S sentinel "x # R"]
  by (simp add: insertrange_at_def wr_def list_update_append)

lemma seek_loop_list:
  assumes "\<forall>r \<in> set pre. rstart r < start \<and> rtype r \<noteq> - 1"
    and "start \<le> rstart z \<or> rtype z = - 1"
  shows "seek_loop (P @ pre @ z # R) start (length P) old =
         Some (length P + length pre, rlast old (map epair pre))"
  using assms(1)
proof (induction pre arbitrary: P old)
  case Nil
  then show ?case using assms(2) by (subst seek_loop.simps) auto
next
  case (Cons r pre)
  then show ?case
    using Cons.IH [of "P @ [r]"] by (subst seek_loop.simps) (simp add: nth_append)
qed

definition set_type :: "u32 \<Rightarrow> e820range \<Rightarrow> e820range" where
  "set_type t r = r\<lparr>rtype := t\<rparr>"

lemma set_type_sel [simp]: "rstart (set_type t r) = rstart r" "rtype (set_type t r) = t"
  by (simp_all add: set_type_def)

lemma mark_loop_list:
  assumes "\<forall>r \<in> set mid. rstart r \<le> lst"
    and "\<forall>r \<in> set (tl (P @ mid)). rstart r \<noteq> 0" "P @ mid \<noteq> []"
    and "\<not> lst > rstart z - 1"
  shows "mark_loop (P @ mid @ z # R) lst t (length P) old =
         Some (P @ map (set_type t) mid @ z # R, length P + length mid, rlast old (map epair mid))"
  using assms(1-3)
proof (induction mid arbitrary: P old)
  case Nil
  then show ?case using assms(4) by (subst mark_loop.simps) auto
next
  case (Cons r mid)
  have "length P = 0 \<or> lst > rstart r - 1"
  proof (cases "length P = 0")
    case False
    then have "rstart r \<noteq> 0" using Cons.prems(2) by (cases P) auto
    then have "\<not> lst \<le> rstart r - 1 \<longleftrightarrow> rstart r \<le> lst"
      using less_eq_dec_iff [of lst "rstart r"] by (auto simp: not_less)
    then show ?thesis using Cons.prems(1) by (simp add: not_le)
  qed simp
  moreover have "mark_loop ((P @ [set_type t r]) @ mid @ z # R) lst t (length (P @ [set_type t r])) (rtype r) =
    Some ((P @ [set_type t r]) @ map (set_type t) mid @ z # R, length (P @ [set_type t r]) + length mid,
          rlast (rtype r) (map epair mid))"
    using Cons.prems by (intro Cons.IH) (cases P; auto)+
  ultimately show ?case
    by (subst mark_loop.simps) (simp add: set_type_def list_update_append)
qed

subsection \<open>Removing redundant ranges\<close>

fun dedup :: "u32 \<Rightarrow> e820range list \<Rightarrow> e820range list" where
  "dedup t [] = []"
| "dedup t (r # rs) = (if rtype r = t then dedup t rs else r # dedup (rtype r) rs)"

lemma length_dedup: "length (dedup t rs) \<le> length rs"
  by (induction t rs rule: dedup.induct) auto

lemma set_dedup: "set (dedup t rs) \<subseteq> set rs"
  by (induction t rs rule: dedup.induct) auto

lemma rsorted_dedup: "rsorted (map epair rs) \<Longrightarrow> rsorted (map epair (dedup t rs))"
  using set_dedup by (induction t rs rule: dedup.induct) (fastforce simp: rsorted_Cons)+

lemma rcompact_dedup: "rcompact ((a, t) # map epair (dedup t rs))"
  by (induction t rs rule: dedup.induct) (auto simp: rcompact_def)

lemma rlook_dedup: "rsorted (map epair rs) \<Longrightarrow> rlook t (map epair (dedup t rs)) a = rlook t (map epair rs) a"
proof (induction t rs rule: dedup.induct)
  case (2 t r rs)
  then have "a < rstart r \<Longrightarrow> rlook t (map epair rs) a = t"
    by (intro rlook_below) (auto simp: rsorted_Cons intro: order.strict_trans)
  with 2 show ?case by (auto simp: rlook_epair rsorted_Cons)
qed simp

lemma compact_loop_list:
  "\<exists>X. compact_loop (K @ J @ todo @ R) (length K + length J + length todo)
          (length K + length J) (length K) old =
       Some (K @ dedup old todo @ X @ R, length K + length J + length todo,
             length K + length (dedup old todo)) \<and>
     length (dedup old todo) + length X = length J + length todo"
proof (induction todo arbitrary: K J old)
  case Nil
  then show ?case by (auto simp: compact_loop.simps)
next
  case (Cons r todo)
  have rd: "rd (K @ J @ r # todo @ R) (length K + length J) = Some r"
    by (simp add: rd_def nth_append)
  show ?case
  proof (cases "rtype r = old")
    case True
    with Cons.IH [of K "J @ [r]" old] rd show ?thesis
      by (subst compact_loop.simps) simp
  next
    case False
    show ?thesis
    proof (cases J)
      case Nil
      with Cons.IH [of "K @ [r]" "[]" "rtype r"] rd False show ?thesis
        by (subst compact_loop.simps) simp
    next
      case (Cons x J')
      with Cons.IH [of "K @ [r]" "J' @ [r]" "rtype r"] rd False show ?thesis
        by (subst compact_loop.simps) (simp add: wr_def list_update_append)
    qed
  qed
qed

lemma compact_ranges_list:
  "\<exists>X. compact_ranges \<lparr>ranges = (r # rs) @ sentinel # R, nranges = length (r # rs)\<rparr> =
       Some \<lparr>ranges = (r # dedup (rtype r) rs) @ sentinel # X, nranges = length (r # dedup (rtype r) rs)\<rparr> \<and>
     length (dedup (rtype r) rs) + length X = length rs + length R"
proof -
  obtain X where X: "compact_loop ([r] @ [] @ rs @ sentinel # R) (length [r] + length [] + length rs)
          (length [r] + length []) (length [r]) (rtype r) =
       Some ([r] @ dedup (rtype r) rs @ X @ sentinel # R, length [r] + length [] + length rs,
             length [r] + length (dedup (rtype r) rs))"
    "length (dedup (rtype r) rs) + length X = length rs"
    using compact_loop_list [of "[r]" "[]" rs "sentinel # R" "rtype r"] by auto
  show ?thesis
  proof (cases X)
    case Nil
    with X show ?thesis
      by (intro exI [of _ R]) (simp add: compact_ranges_def rd_def)
  next
    case (Cons x X')
    have n: "length rs = Suc (length (dedup (rtype r) rs) + length X')" using X(2) Cons by simp
    from X Cons show ?thesis
      by (intro exI [of _ "X' @ sentinel # R"])
         (simp add: compact_ranges_def rd_def wr_def nth_append list_update_append n)
  qed
qed


subsection \<open>Inserting a range\<close>

text \<open>Where the two searches of \<open>insertrange\<close> stop: the ranges before, inside and after the
  new one.\<close>

lemma sorted_split3:
  assumes "rsorted (map epair L)" and "start \<le> lst"
  obtains pre mid suf where "L = pre @ mid @ suf" "\<forall>r \<in> set pre. rstart r < start"
    "\<forall>r \<in> set mid. start \<le> rstart r \<and> rstart r \<le> lst" "\<forall>r \<in> set suf. lst < rstart r"
proof
  define Q where "Q = dropWhile (\<lambda>r. rstart r < start) L"
  have drop: "\<forall>r \<in> set (dropWhile (\<lambda>r. rstart r < b) xs). b \<le> rstart r"
    "\<forall>r \<in> set (dropWhile (\<lambda>r. rstart r \<le> b) xs). b < rstart r"
    if "rsorted (map epair xs)" for b and xs :: "e820range list"
    using that by (induction xs) (auto simp: rsorted_Cons)
  have "L = takeWhile (\<lambda>r. rstart r < start) L @ Q"
    by (simp add: Q_def)
  with assms(1) have Q: "rsorted (map epair Q)" by (metis map_append rsorted_append)
  show "L = takeWhile (\<lambda>r. rstart r < start) L @ takeWhile (\<lambda>r. rstart r \<le> lst) Q @
          dropWhile (\<lambda>r. rstart r \<le> lst) Q"
    by (simp add: Q_def)
  show "\<forall>r \<in> set (takeWhile (\<lambda>r. rstart r < start) L). rstart r < start"
    by (auto dest: set_takeWhileD)
  show "\<forall>r \<in> set (takeWhile (\<lambda>r. rstart r \<le> lst) Q). start \<le> rstart r \<and> rstart r \<le> lst"
    using drop(1) [OF assms(1), of start] by (auto simp: Q_def dest: set_takeWhileD)
  show "\<forall>r \<in> set (dropWhile (\<lambda>r. rstart r \<le> lst) Q). lst < rstart r"
    using drop(2) [OF Q] .
qed

text \<open>The ranges before the last step, in which redundant ones are removed: the head of the
  new range, the retyped ranges inside it, and what resumes after it.\<close>

definition e820_resume :: "u64 \<Rightarrow> u32 \<Rightarrow> e820range list \<Rightarrow> e820range list" where
  "e820_resume lst old suf =
     (if lst = - 1 \<or> (suf \<noteq> [] \<and> rstart (hd suf) = lst + 1) then suf
      else \<lparr>rstart = lst + 1, rtype = old\<rparr> # suf)"

definition e820_raw :: "e820range list \<Rightarrow> e820range list \<Rightarrow> e820range list \<Rightarrow> u64 \<Rightarrow> u64 \<Rightarrow> u32 \<Rightarrow> e820range list" where
  "e820_raw pre mid suf start lst t =
     pre @ \<lparr>rstart = start, rtype = t\<rparr> # map (set_type t) (dropWhile (\<lambda>r. rstart r = start) mid) @
     e820_resume lst (rlast (- 2) (map epair (pre @ mid))) suf"

lemma length_e820_raw: "length (e820_raw pre mid suf start lst t) \<le> length (pre @ mid @ suf) + 2"
  using length_dropWhile_le [of "\<lambda>r. rstart r = start" mid]
  by (simp add: e820_raw_def e820_resume_def)

lemma set_type_same: "rstart r = a \<Longrightarrow> set_type t r = \<lparr>rstart = a, rtype = t\<rparr>"
  by (cases r) (simp add: set_type_def)

lemma insertrange_at_tail:
  assumes "\<not> lst > rstart (hd (suf @ [sentinel])) - 1"
  shows "\<exists>X. (if lst < rstart (hd (suf @ [sentinel])) - 1
       then insertrange_at \<lparr>ranges = P @ suf @ sentinel # x # R, nranges = length P + length suf\<rparr>
              (length P) (lst + 1) old
       else Some \<lparr>ranges = P @ suf @ sentinel # x # R, nranges = length P + length suf\<rparr>) =
     Some \<lparr>ranges = (P @ e820_resume lst old suf) @ sentinel # X,
           nranges = length (P @ e820_resume lst old suf)\<rparr> \<and>
     length X + length (e820_resume lst old suf) = length suf + length R + 1"
proof (cases "lst < rstart (hd (suf @ [sentinel])) - 1")
  case True
  then have "\<not> (lst = - 1 \<or> (suf \<noteq> [] \<and> rstart (hd suf) = lst + 1))"
    by (cases suf) auto
  with True show ?thesis
    using insertrange_at_list [of P suf x R "lst + 1" old]
    by (auto simp: e820_resume_def intro: exI [of _ R])
next
  case False
  then have "lst = rstart (hd (suf @ [sentinel])) - 1" using assms by auto
  then have "lst = - 1 \<or> (suf \<noteq> [] \<and> rstart (hd suf) = lst + 1)"
    by (cases suf) auto
  with False show ?thesis by (auto simp: e820_resume_def intro: exI [of _ "x # R"])
qed


text \<open>The situation \<open>insertrange\<close> finds: the live ranges are \<open>pre @ mid @ suf\<close>.\<close>

definition e820_split where
  "e820_split pre mid suf start lst \<longleftrightarrow>
     rwf (map epair (pre @ mid @ suf)) \<and> (\<forall>r \<in> set (pre @ mid @ suf). rtype r \<noteq> - 1) \<and>
     (\<forall>r \<in> set pre. rstart r < start) \<and> (\<forall>r \<in> set mid. start \<le> rstart r \<and> rstart r \<le> lst) \<and>
     (\<forall>r \<in> set suf. lst < rstart r) \<and> start \<le> lst"

lemma e820_split_nonempty:
  assumes "e820_split pre mid suf start lst"
  shows "pre @ mid \<noteq> []"
proof
  assume e: "pre @ mid = []"
  with assms have "suf \<noteq> []" "rstart (hd suf) = 0" by (auto simp: e820_split_def rwf_def hd_map)
  with assms show False by (cases suf) (auto simp: e820_split_def)
qed

lemma e820_split_zero:
  assumes "e820_split pre mid suf start lst"
  shows "\<forall>r \<in> set (tl (pre @ mid)). rstart r \<noteq> 0"
proof -
  have "rsorted (map epair (pre @ mid))"
    using assms by (simp add: e820_split_def rwf_def rsorted_append ball_Un)
  then show ?thesis by (cases "pre @ mid") (auto simp: rsorted_Cons)
qed

lemma e820_split_suf:
  assumes "e820_split pre mid suf start lst"
  shows "\<not> lst > rstart (hd (suf @ [sentinel])) - 1"
proof (cases suf)
  case (Cons r s)
  then have "lst < rstart r" using assms by (simp add: e820_split_def)
  moreover from this have "rstart r \<noteq> 0" by auto
  ultimately have "lst \<le> rstart r - 1" by (simp add: less_eq_dec_iff)
  then show ?thesis using Cons by (simp add: leD)
qed simp

lemma hd_snoc_split: "\<exists>Z. xs @ z # R = hd (xs @ [z]) # Z"
  by (cases xs) auto

lemma e820_seek:
  assumes "e820_split pre mid suf start lst"
  shows "seek_loop (pre @ mid @ suf @ sentinel # R) start 0 old = Some (length pre, rlast old (map epair pre))"
    and "rd (pre @ mid @ suf @ sentinel # R) (length pre) = Some (hd (mid @ suf @ [sentinel]))"
proof -
  let ?n = "hd (mid @ suf @ [sentinel])"
  obtain Z where Z: "mid @ suf @ sentinel # R = ?n # Z"
    using hd_snoc_split [of "mid @ suf" sentinel R] by auto
  have "start \<le> rstart ?n \<or> rtype ?n = - 1"
    using assms by (cases mid; cases suf) (auto simp: e820_split_def)
  then show "seek_loop (pre @ mid @ suf @ sentinel # R) start 0 old = Some (length pre, rlast old (map epair pre))"
    using seek_loop_list [of pre start ?n "[]" Z old] assms by (auto simp: Z e820_split_def)
  show "rd (pre @ mid @ suf @ sentinel # R) (length pre) = Some ?n"
    by (simp add: Z rd_def)
qed

lemma e820_mark:
  assumes "e820_split pre mid suf start lst"
    and "\<forall>r \<in> set m2. rstart r \<le> lst" "\<forall>r \<in> set (tl (P @ m2)). rstart r \<noteq> 0" "P @ m2 \<noteq> []"
  shows "mark_loop (P @ m2 @ suf @ sentinel # Q) lst t (length P) old =
       Some (P @ map (set_type t) m2 @ suf @ sentinel # Q, length P + length m2, rlast old (map epair m2))"
proof -
  obtain Z where Z: "suf @ sentinel # Q = hd (suf @ [sentinel]) # Z"
    using hd_snoc_split by metis
  show ?thesis unfolding Z by (rule mark_loop_list [OF assms(2-4) e820_split_suf [OF assms(1)]])
qed

lemma e820_tail:
  "rd (P @ suf @ sentinel # Q) (length P) = Some (hd (suf @ [sentinel]))"
  by (cases suf) (auto simp: rd_def nth_append)

lemma e820_raw_inside:
  assumes "e820_split pre mid suf start lst" and "mid \<noteq> []" "rstart (hd mid) = start"
  shows "e820_raw pre mid suf start lst t =
     (pre @ map (set_type t) mid) @ e820_resume lst (rlast (- 2) (map epair (pre @ mid))) suf"
proof -
  obtain r m2 where m2: "mid = r # m2" "rstart r = start" using assms by (cases mid) auto
  then have "\<forall>z \<in> set m2. rstart z \<noteq> start"
    using assms by (auto simp: e820_split_def rwf_def rsorted_simps ball_Un)
  then have "dropWhile (\<lambda>r. rstart r = start) m2 = m2" by (cases m2) auto
  then show ?thesis using m2 by (simp add: e820_raw_def set_type_same)
qed

lemma e820_raw_between:
  assumes "e820_split pre mid suf start lst" and "\<not> (mid \<noteq> [] \<and> rstart (hd mid) = start)"
  shows "\<forall>z \<in> set mid. start < rstart z"
    and "e820_raw pre mid suf start lst t =
     (pre @ \<lparr>rstart = start, rtype = t\<rparr> # map (set_type t) mid) @
     e820_resume lst (rlast (- 2) (map epair (pre @ mid))) suf"
proof -
  show *: "\<forall>z \<in> set mid. start < rstart z"
  proof (cases mid)
    case (Cons r m2)
    then have "start < rstart r" using assms by (auto simp: e820_split_def order.strict_iff_order)
    moreover have "rsorted (map epair mid)"
      using assms(1) by (simp add: e820_split_def rwf_def rsorted_append)
    ultimately show ?thesis using Cons by (auto simp: rsorted_Cons intro: order.strict_trans)
  qed simp
  then have "dropWhile (\<lambda>r. rstart r = start) mid = mid" by (cases mid) auto
  then show "e820_raw pre mid suf start lst t =
     (pre @ \<lparr>rstart = start, rtype = t\<rparr> # map (set_type t) mid) @
     e820_resume lst (rlast (- 2) (map epair (pre @ mid))) suf"
    by (simp add: e820_raw_def)
qed

text \<open>The part of \<open>insertrange\<close> after the first search.\<close>

definition insert_rest :: "e820map \<Rightarrow> nat \<Rightarrow> u64 \<Rightarrow> u32 \<Rightarrow> u32 \<Rightarrow> e820map option" where
  "insert_rest m i lst ty oldtype = do {
     (rs, i, oldtype) \<leftarrow> mark_loop (ranges m) lst ty i oldtype;
     r \<leftarrow> rd rs i;
     m \<leftarrow> (if lst < rstart r - 1
           then insertrange_at (m\<lparr>ranges := rs\<rparr>) i (lst + 1) oldtype
           else Some (m\<lparr>ranges := rs\<rparr>));
     compact_ranges m }"

lemma insert_rest_list:
  assumes sp: "e820_split pre mid suf start lst"
    and m2: "\<forall>r \<in> set m2. rstart r \<le> lst" "\<forall>r \<in> set (tl (P @ m2)). rstart r \<noteq> 0" "P @ m2 \<noteq> []"
  shows "\<exists>X. insert_rest \<lparr>ranges = P @ m2 @ suf @ sentinel # x # R, nranges = length (P @ m2 @ suf)\<rparr>
         (length P) lst t old =
       compact_ranges \<lparr>ranges = (P @ map (set_type t) m2 @ e820_resume lst (rlast old (map epair m2)) suf) @ sentinel # X,
          nranges = length (P @ map (set_type t) m2 @ e820_resume lst (rlast old (map epair m2)) suf)\<rparr> \<and>
     length X + length (e820_resume lst (rlast old (map epair m2)) suf) = length suf + length R + 1"
proof -
  let ?P = "P @ map (set_type t) m2" and ?old = "rlast old (map epair m2)"
  have "insert_rest \<lparr>ranges = P @ m2 @ suf @ sentinel # x # R, nranges = length (P @ m2 @ suf)\<rparr>
         (length P) lst t old =
    Option.bind (if lst < rstart (hd (suf @ [sentinel])) - 1
       then insertrange_at \<lparr>ranges = ?P @ suf @ sentinel # x # R, nranges = length ?P + length suf\<rparr>
              (length ?P) (lst + 1) ?old
       else Some \<lparr>ranges = ?P @ suf @ sentinel # x # R, nranges = length ?P + length suf\<rparr>) compact_ranges"
    using e820_mark [OF sp m2] e820_tail [of ?P suf "x # R"] by (simp add: insert_rest_def add.assoc)
  moreover obtain X where "(if lst < rstart (hd (suf @ [sentinel])) - 1
       then insertrange_at \<lparr>ranges = ?P @ suf @ sentinel # x # R, nranges = length ?P + length suf\<rparr>
              (length ?P) (lst + 1) ?old
       else Some \<lparr>ranges = ?P @ suf @ sentinel # x # R, nranges = length ?P + length suf\<rparr>) =
     Some \<lparr>ranges = (?P @ e820_resume lst ?old suf) @ sentinel # X,
           nranges = length (?P @ e820_resume lst ?old suf)\<rparr>"
     "length X + length (e820_resume lst ?old suf) = length suf + length R + 1"
    using insertrange_at_tail [OF e820_split_suf [OF sp]] by metis
  ultimately show ?thesis by (intro exI [of _ X]) simp
qed


lemma insertrange_raw:
  assumes sp: "e820_split pre mid suf start (start + len - 1)" and len: "len \<noteq> 0"
  shows "\<exists>X. insertrange \<lparr>ranges = (pre @ mid @ suf) @ sentinel # x # y # R,
                          nranges = length (pre @ mid @ suf)\<rparr> start len t =
       compact_ranges \<lparr>ranges = e820_raw pre mid suf start (start + len - 1) t @ sentinel # X,
                       nranges = length (e820_raw pre mid suf start (start + len - 1) t)\<rparr> \<and>
     length X + length (e820_raw pre mid suf start (start + len - 1) t) =
     length (pre @ mid @ suf) + length R + 2"
proof -
  let ?lst = "start + len - 1" and ?n = "hd (mid @ suf @ [sentinel])"
  let ?new = "\<lparr>rstart = start, rtype = t\<rparr>" and ?old = "rlast (- 2) (map epair pre)"
  note seek = e820_seek [OF sp, of "x # y # R"]
  show ?thesis
  proof (cases "mid \<noteq> [] \<and> rstart (hd mid) = start")
    case True
    then have n: "\<not> (start < rstart ?n \<or> rtype ?n = - 1)"
      using sp by (cases mid) (auto simp: e820_split_def)
    have "insertrange \<lparr>ranges = (pre @ mid @ suf) @ sentinel # x # y # R,
            nranges = length (pre @ mid @ suf)\<rparr> start len t =
          insert_rest \<lparr>ranges = pre @ mid @ suf @ sentinel # x # y # R,
            nranges = length (pre @ mid @ suf)\<rparr> (length pre) ?lst t ?old"
      using seek n len by (simp add: insertrange_def insert_rest_def Let_def)
    moreover have "\<forall>r \<in> set mid. rstart r \<le> ?lst" using sp by (simp add: e820_split_def)
    ultimately show ?thesis
      using insert_rest_list [OF sp _ e820_split_zero [OF sp] e820_split_nonempty [OF sp], of x "y # R" t ?old]
        e820_raw_inside [OF sp conjunct1 [OF True] conjunct2 [OF True], of t]
      by (auto simp: rlast_append)
  next
    case False
    note gt = e820_raw_between [OF sp False]
    have n: "start < rstart ?n \<or> rtype ?n = - 1"
      using gt(1) sp by (cases mid; cases suf) (auto simp: e820_split_def)
    have "insertrange \<lparr>ranges = (pre @ mid @ suf) @ sentinel # x # y # R,
            nranges = length (pre @ mid @ suf)\<rparr> start len t =
          insert_rest \<lparr>ranges = (pre @ [?new]) @ mid @ suf @ sentinel # y # R,
            nranges = length ((pre @ [?new]) @ mid @ suf)\<rparr> (length (pre @ [?new])) ?lst t ?old"
      using seek n len insertrange_at_list [of pre "mid @ suf" x "y # R" start t]
      by (simp add: insertrange_def insert_rest_def Let_def)
    moreover have "pre \<noteq> []"
      using gt(1) e820_split_nonempty [OF sp] sp by (cases mid) (auto simp: e820_split_def rwf_def)
    then have "\<forall>r \<in> set (tl ((pre @ [?new]) @ mid)). rstart r \<noteq> 0"
      using e820_split_zero [OF sp] sp by (cases pre) (auto simp: e820_split_def)
    moreover have "\<forall>r \<in> set mid. rstart r \<le> ?lst" using sp by (simp add: e820_split_def)
    ultimately show ?thesis
      using insert_rest_list [OF sp, of mid "pre @ [?new]" y R t ?old] gt(2) [of t]
      by (auto simp: rlast_append)
  qed
qed

text \<open>What the raw list means.\<close>

lemma rlook_retyped:
  assumes "\<forall>r \<in> set ms. \<forall>s \<in> set S. rstart r \<le> fst s"
  shows "rlook t (map epair (map (set_type t) ms) @ S) a = rlook t S a"
  using assms
proof (induction ms)
  case (Cons r ms)
  have "a < rstart r \<Longrightarrow> rlook t S a = t"
    using Cons.prems by (intro rlook_below) (auto intro: order.strict_trans2)
  with Cons show ?case by (auto simp: rlook_epair)
qed simp

lemma e820_resume_cases:
  assumes "e820_split pre mid suf start lst"
  obtains "lst < lst + 1" "e820_resume lst old suf = \<lparr>rstart = lst + 1, rtype = old\<rparr> # suf"
        "\<forall>r \<in> set suf. lst + 1 < rstart r"
    | u suf' where "suf = u # suf'" "rstart u = lst + 1" "e820_resume lst old suf = suf"
    | "lst = - 1" "suf = []" "e820_resume lst old suf = suf"
proof -
  have s: "\<forall>r \<in> set suf. lst < rstart r" using assms by (simp add: e820_split_def)
  consider "lst = - 1" | "lst \<noteq> - 1" "suf \<noteq> []" "rstart (hd suf) = lst + 1"
    | "lst \<noteq> - 1" "\<not> (suf \<noteq> [] \<and> rstart (hd suf) = lst + 1)" by blast
  then show thesis
  proof cases
    case 1
    then have "suf = []" using s word_order.extremum_strict by (cases suf) auto
    with 1 that(3) show thesis by (simp add: e820_resume_def)
  next
    case 2
    with that(2) show thesis by (cases suf) (auto simp: e820_resume_def)
  next
    case 3
    have "\<forall>r \<in> set suf. lst + 1 < rstart r"
    proof (cases suf)
      case (Cons r s')
      then have "lst + 1 < rstart r" using 3 s
        by (metis inc_le list.discI list.sel(1) list.set_intros(1) order.not_eq_order_implies_strict)
      moreover have "rsorted (map epair suf)"
        using assms by (simp add: e820_split_def rwf_def rsorted_append)
      ultimately show ?thesis using Cons by (auto simp: rsorted_Cons intro: order.strict_trans)
    qed simp
    with 3 that(1) show thesis by (simp add: e820_resume_def less_inc_self)
  qed
qed

lemma e820_resume_above:
  assumes "e820_split pre mid suf start lst"
  shows "\<forall>r \<in> set (e820_resume lst old suf). lst < rstart r"
    and "rsorted (map epair (e820_resume lst old suf))"
proof -
  have s: "\<forall>r \<in> set suf. lst < rstart r" "rsorted (map epair suf)"
    using assms by (simp_all add: e820_split_def rwf_def rsorted_append)
  from assms show "\<forall>r \<in> set (e820_resume lst old suf). lst < rstart r"
    "rsorted (map epair (e820_resume lst old suf))"
    by (cases rule: e820_resume_cases [where old = old]; use s in \<open>auto simp: rsorted_Cons\<close>)+
qed


lemma e820_raw_sorted:
  assumes sp: "e820_split pre mid suf start lst"
  shows "rsorted (map epair (e820_raw pre mid suf start lst t))"
proof -
  let ?m = "dropWhile (\<lambda>r. rstart r = start) mid" and ?S = "e820_resume lst (rlast (- 2) (map epair (pre @ mid))) suf"
  have m: "rsorted (map epair mid)" "\<forall>r \<in> set mid. start \<le> rstart r \<and> rstart r \<le> lst" "rsorted (map epair pre)"
    "\<forall>r \<in> set pre. rstart r < start" "start \<le> lst"
    using sp by (simp_all add: e820_split_def rwf_def rsorted_append)
  have M: "rsorted (map epair ?m) \<and> (\<forall>r \<in> set ?m. start < rstart r \<and> rstart r \<le> lst)"
    using m(1,2)
  proof (induction mid)
    case (Cons r rs)
    show ?case
    proof (cases "rstart r = start")
      case False
      then have "start < rstart r" using Cons.prems by auto
      then show ?thesis using False Cons.prems
        by (auto simp: rsorted_Cons intro: order.strict_trans)
    qed (use Cons in \<open>simp add: rsorted_Cons\<close>)
  qed simp
  have "map epair (map (set_type t) ?m) = map (\<lambda>r. (rstart r, t)) ?m"
    by (simp add: epair_def)
  moreover have "rsorted (map (\<lambda>r. (rstart r, t)) ?m)"
    using M by (simp add: rsorted_def o_def)
  moreover have "rsorted (map epair pre @ (start, t) # map (\<lambda>r. (rstart r, t)) ?m @ map epair ?S)"
    using e820_resume_above [OF sp, of "rlast (- 2) (map epair (pre @ mid))"] m M calculation(2)
    by (intro rsorted_overwritten [where e = lst]) auto
  ultimately show ?thesis by (simp add: e820_raw_def epair_def o_def)
qed

lemma e820_raw_wf:
  assumes sp: "e820_split pre mid suf start lst"
  shows "rwf (map epair (e820_raw pre mid suf start lst t))"
proof -
  have "rstart (hd (e820_raw pre mid suf start lst t)) = 0"
  proof (cases pre)
    case Nil
    then have m: "mid \<noteq> []" "rstart (hd mid) = 0"
      using e820_split_nonempty [OF sp] sp by (auto simp: e820_split_def rwf_def hd_map)
    then have "start \<le> rstart (hd mid)" using sp hd_in_set unfolding e820_split_def by blast
    then show ?thesis using Nil m by (simp add: e820_raw_def)
  qed (use sp in \<open>simp add: e820_raw_def e820_split_def rwf_def\<close>)
  moreover have "e820_raw pre mid suf start lst t \<noteq> []" by (simp add: e820_raw_def)
  ultimately show ?thesis
    using e820_raw_sorted [OF sp, of t] by (simp add: rwf_def hd_map)
qed

lemma e820_raw_look:
  assumes sp: "e820_split pre mid suf start lst"
  shows "rlook d (map epair (e820_raw pre mid suf start lst t)) a =
         (if start \<le> a \<and> a \<le> lst then t else rlook d (map epair (pre @ mid @ suf)) a)"
proof -
  let ?old = "rlast (- 2) (map epair (pre @ mid))"
  let ?M = "dropWhile (\<lambda>r. rstart r = start) mid" and ?S = "e820_resume lst ?old suf"
  have "rstart r \<le> lst" if "r \<in> set ?M" for r
    using that sp unfolding e820_split_def by (blast dest: set_dropWhileD)
  moreover have "lst < fst s" if "s \<in> set (map epair ?S)" for s
    using that e820_resume_above(1) [OF sp, of ?old] by (auto simp del: map_append)
  ultimately have "\<forall>r \<in> set ?M. \<forall>s \<in> set (map epair ?S). rstart r \<le> fst s"
    by (blast intro: less_imp_le order.strict_trans1)
  note same = rlook_retyped [OF this, of t]
  have raw: "rlook d (map epair (e820_raw pre mid suf start lst t)) a =
      rlook d ((map epair pre @ [(start, t)]) @ map epair ?S) a"
    unfolding e820_raw_def map_append append_assoc
    by (rule rlook_append_cong) (use same in \<open>simp add: epair_def\<close>)
  have old: "?old = rlast d (map epair pre @ map epair mid)"
    using e820_split_nonempty [OF sp] by (auto simp: rlast_def)
  have S: "(lst + 1, rlast d (map epair pre @ map epair mid)) # map epair suf = map epair ?S \<and> lst < lst + 1 \<or>
      (\<exists>u suf'. map epair suf = (lst + 1, u) # suf' \<and> map epair ?S = map epair suf) \<or>
      map epair ?S = map epair suf \<and> lst = - 1"
    using sp by (cases rule: e820_resume_cases [where old = ?old]) (auto simp: old [unfolded map_append] epair_def)
  have "rlook d ((map epair pre @ [(start, t)]) @ map epair ?S) a =
      (if start \<le> a \<and> a \<le> lst then t else rlook d (map epair pre @ map epair mid @ map epair suf) a)"
  proof (rule rlook_overwrite)
    show "(lst + 1, rlast d (map epair pre @ map epair mid)) # map epair suf = map epair ?S \<and> lst < lst + 1 \<or>
      map epair ?S = map epair suf \<and> t = rlast d (map epair pre @ map epair mid) \<or>
      (\<exists>u. map epair suf = (lst + 1, u) # map epair ?S \<and> t = u) \<or>
      (\<exists>u suf'. map epair suf = (lst + 1, u) # suf' \<and> map epair ?S = map epair suf) \<or>
      map epair ?S = map epair suf \<and> lst = - 1"
      using S by blast
  qed (use sp in \<open>simp_all add: e820_split_def\<close>)
  with raw show ?thesis by simp
qed


lemma e820_raw_types:
  assumes "e820_split pre mid suf start lst" and "t \<noteq> - 1"
  shows "\<forall>r \<in> set (e820_raw pre mid suf start lst t). rtype r \<noteq> - 1"
proof -
  have "rlast (- 2) (map epair (pre @ mid)) \<noteq> - 1"
    using e820_split_nonempty [OF assms(1)] last_in_set [of "pre @ mid"] assms(1)
    by (auto simp: rlast_def e820_split_def last_map simp flip: map_append)
  then show ?thesis using assms by (auto simp: e820_raw_def e820_resume_def e820_split_def)
qed

lemma compact_ranges_ok:
  assumes rw: "rwf (map epair raw)" "\<forall>r \<in> set raw. rtype r \<noteq> - 1"
    and len: "length raw + length X + 1 = MAXRANGES"
  shows "\<exists>m'. compact_ranges \<lparr>ranges = raw @ sentinel # X, nranges = length raw\<rparr> = Some m' \<and>
     e820_invar m' \<and> nranges m' \<le> length raw \<and> (\<forall>a. type_at m' a = rlook 0 (map epair raw) a)"
proof -
  obtain r rs where raw: "raw = r # rs" using rw(1) by (cases raw) (auto simp: rwf_def)
  let ?D = "r # dedup (rtype r) rs"
  obtain Y where Y: "compact_ranges \<lparr>ranges = raw @ sentinel # X, nranges = length raw\<rparr> =
      Some \<lparr>ranges = ?D @ sentinel # Y, nranges = length ?D\<rparr>"
    "length (dedup (rtype r) rs) + length Y = length rs + length X"
    using compact_ranges_list [of r rs X] raw by auto
  let ?m = "\<lparr>ranges = ?D @ sentinel # Y, nranges = length ?D\<rparr>"
  have "rwf (map epair ?D)"
    using rw(1) raw rsorted_dedup [of rs "rtype r"] set_dedup [of "rtype r" rs]
    by (auto simp: rwf_def rsorted_Cons)
  moreover have "rcompact (map epair ?D)" using rcompact_dedup [of "rstart r" "rtype r" rs] by (simp add: epair_def)
  moreover have "\<forall>r \<in> set ?D. rtype r \<noteq> - 1" using rw(2) raw set_dedup [of "rtype r" rs] by auto
  moreover have "length ?D + length Y + 1 = MAXRANGES" using Y(2) raw len by simp
  ultimately have "e820_invar ?m" using e820_invarI by blast
  moreover have "type_at ?m a = rlook 0 (map epair raw) a" for a
    using rw(1) raw rlook_dedup [of rs "rtype r" a]
    unfolding type_at_def e820_live_eq by (auto simp: rwf_def rsorted_Cons rlook_epair)
  moreover have "nranges ?m \<le> length raw"
    using length_dedup [of "rtype r" rs] raw by simp
  ultimately show ?thesis using Y(1) by (intro exI [of _ ?m] conjI allI)
qed

lemma insertrange_ok:
  assumes inv: "e820_invar m" and room: "nranges m + 2 < MAXRANGES" and ty: "ty \<noteq> - 1"
    and w: "no_wrap start len"
  shows "\<exists>m'. insertrange m start len ty = Some m' \<and> e820_invar m' \<and> nranges m' \<le> nranges m + 2 \<and>
    (\<forall>a. type_at m' a = (if covers start len a then ty else type_at m a))"
proof (cases "len = 0")
  case True
  then show ?thesis using inv by (auto simp: insertrange_def)
next
  case False
  let ?lst = "start + len - 1"
  have le: "start \<le> ?lst" using no_wrap_last(1) [OF w False] .
  obtain L R where LR: "ranges m = L @ sentinel # R" "nranges m = length L"
    "e820_live m = map epair L" "length L + length R + 1 = MAXRANGES"
    using e820_invar_split [OF inv] .
  then obtain x y R' where R: "R = x # y # R'" using room by (cases R; cases "tl R") auto
  have wf: "rwf (map epair L)" "\<forall>r \<in> set L. rtype r \<noteq> - 1"
    using inv LR(3) by (auto simp: e820_invar_def)
  then have srt: "rsorted (map epair L)" by (simp add: rwf_def)
  obtain pre mid suf where L: "L = pre @ mid @ suf" "\<forall>r \<in> set pre. rstart r < start"
    "\<forall>r \<in> set mid. start \<le> rstart r \<and> rstart r \<le> ?lst" "\<forall>r \<in> set suf. ?lst < rstart r"
    by (rule sorted_split3 [OF srt le])
  with wf le have sp: "e820_split pre mid suf start ?lst" by (auto simp: e820_split_def)
  define raw where "raw = e820_raw pre mid suf start ?lst ty"
  obtain X where X: "insertrange m start len ty = compact_ranges \<lparr>ranges = raw @ sentinel # X, nranges = length raw\<rparr>"
     "length X + length raw = length L + length R' + 2"
    using insertrange_raw [OF sp False, of x y R' ty] LR R L(1) raw_def by (cases m) auto
  have len: "length raw \<le> length L + 2" "length raw + length X + 1 = MAXRANGES"
    using length_e820_raw L(1) X(2) LR(4) R by (simp_all add: raw_def)
  have rw: "rwf (map epair raw)" "\<forall>r \<in> set raw. rtype r \<noteq> - 1"
    "\<And>a. rlook 0 (map epair raw) a = (if start \<le> a \<and> a \<le> ?lst then ty else rlook 0 (map epair L) a)"
    using e820_raw_wf [OF sp] e820_raw_types [OF sp ty] e820_raw_look [OF sp] L(1) by (simp_all add: raw_def)
  obtain m' where "compact_ranges \<lparr>ranges = raw @ sentinel # X, nranges = length raw\<rparr> = Some m'"
     "e820_invar m'" "nranges m' \<le> length raw" "\<forall>a. type_at m' a = rlook 0 (map epair raw) a"
    using compact_ranges_ok [OF rw(1,2) len(2)] by blast
  then show ?thesis
    using X(1) len(1) LR(2,3) False by (intro exI [of _ m']) (simp add: rw(3) type_at_def)
qed

lemma e820_put_ok:
  assumes "e820_invar m" and "e820_fits (Suc n) m" and "ty \<noteq> - 1" and "no_wrap start len"
  shows "\<exists>m'. insertrange m start len ty = Some m' \<and> e820_invar m' \<and> e820_fits n m' \<and>
    (\<forall>a. type_at m' a = (if covers start len a then ty else type_at m a))"
proof -
  have "nranges m + 2 < MAXRANGES" using assms(2) by (simp add: e820_fits_def)
  from insertrange_ok [OF assms(1) this assms(3,4)] obtain m' where "insertrange m start len ty = Some m'"
    "e820_invar m'" "nranges m' \<le> nranges m + 2"
    "\<forall>a. type_at m' a = (if covers start len a then ty else type_at m a)" by blast
  with assms(2) show ?thesis by (auto simp: e820_fits_def)
qed

interpretation e8: memory_map type_at insertrange e820_invar e820_fits "\<lambda>t. t \<noteq> - 1"
  by unfold_locales (rule e820_put_ok)

lemma e820_invar_init: "e820_invar e820map_init"
proof -
  have "e820map_init = \<lparr>ranges = [\<lparr>rstart = 0, rtype = 0\<rparr>] @ sentinel # replicate 1022 \<lparr>rstart = 0, rtype = 0\<rparr>,
     nranges = length [\<lparr>rstart = 0, rtype = 0\<rparr> :: e820range]\<rparr>"
  proof -
    have "replicate MAXRANGES (r :: e820range) = r # r # replicate 1022 r" for r
      by (simp add: MAXRANGES_def numeral_eq_Suc)
    then show ?thesis by (simp add: e820map_init_def sentinel_def)
  qed
  moreover have "e820_invar \<dots>"
    by (rule e820_invarI) (auto simp: MAXRANGES_def rwf_def rcompact_def rsorted_Cons epair_def)
  ultimately show ?thesis by simp
qed

lemma type_at_init: "type_at e820map_init a = 0"
  by (simp add: type_at_def e820_live_def e820map_init_def MAXRANGES_def epair_def take_Suc_snoc
      del: take_Suc_snoc)


text \<open>C7. Inserting a range into a well-formed map with room for two more entries stays inside the
  array, keeps the entries sorted, free of equal neighbours and closed by the sentinel, and changes
  the type of exactly the addresses of the range (the overwrite policy).\<close>

theorem insertrange_correct:
  assumes "e820_invar m" and "nranges m + 2 < MAXRANGES" and "ty \<noteq> - 1" and "no_wrap start len"
  shows "\<exists>m'. insertrange m start len ty = Some m' \<and> e820_invar m' \<and> nranges m' \<le> nranges m + 2 \<and>
    (\<forall>a. type_at m' a = (if covers start len a then ty else type_at m a))"
  by (rule insertrange_ok [OF assms])

theorem insertrange_correct_witness:
  "\<exists>m'. insertrange e820map_init 0x1000 0x8000 1 = Some m' \<and> e820_invar m' \<and>
     type_at m' 0x8fff = 1 \<and> type_at m' 0x9000 = 0"
proof -
  have "nranges e820map_init + 2 < MAXRANGES" by (simp add: e820map_init_def MAXRANGES_def)
  from insertrange_correct [OF e820_invar_init this, of 1 "0x1000" "0x8000"] show ?thesis
    by (auto simp: type_at_init)
qed

subsection \<open>The scan of the BIOS map\<close>

definition reply_range :: "e820_reply \<Rightarrow> u64 \<times> u64 \<times> u32" where
  "reply_range r = (b_base r, b_len r, b_type r)"

definition reply_ok :: "e820_reply \<Rightarrow> bool" where
  "reply_ok r \<longleftrightarrow> r_eax r = 0x534d4150 \<and> \<not> r_cf r \<and> 20 \<le> r_ecx r"

definition range_ok :: "u64 \<times> u64 \<times> u32 \<Rightarrow> bool" where
  "range_ok = (\<lambda>(s, l, t). t \<noteq> - 1 \<and> no_wrap s l)"

lemma get_e820_loop_put_all:
  assumes "\<forall>r \<in> set rs. reply_ok r" and "\<forall>r \<in> set rs. r_ebx r \<noteq> 0"
    and "reply_ok z" "r_ebx z = 0"
  shows "get_e820_loop (rs @ z # rest) m n =
    map_option (\<lambda>m. (m, n + length rs + 1)) (put_all insertrange m (map reply_range (rs @ [z])))"
  using assms(1,2)
proof (induction rs arbitrary: m n)
  case Nil
  then show ?case using assms(3,4)
    by (cases "insertrange m (b_base z) (b_len z) (b_type z)")
       (auto simp: reply_ok_def reply_range_def)
next
  case (Cons r rs)
  then show ?case
    by (cases "insertrange m (b_base r) (b_len r) (b_type r)")
       (auto simp: reply_ok_def reply_range_def)
qed

text \<open>C24. With a BIOS that answers the E820 calls, \<open>get_mem\<close> stops at the first answer with a zero
  continuation value, never leaves the array while the answers fit, and gives every address the
  type of the last answer that covers it.\<close>

theorem get_mem_e820:
  assumes "\<forall>r \<in> set (rs @ [z]). reply_ok r \<and> range_ok (reply_range r)"
    and "\<forall>r \<in> set rs. r_ebx r \<noteq> 0" and "r_ebx z = 0"
    and "2 * length (rs @ [z]) + 1 < MAXRANGES" and "int_e820 b = rs @ z # rest"
  shows "\<exists>m. get_mem b e820map_init = Some (Inr m) \<and> e820_invar m \<and>
     (\<forall>a. type_at m a = written 0 (map reply_range (rs @ [z])) a)"
proof -
  let ?l = "map reply_range (rs @ [z])"
  have "e820_fits (length ?l) e820map_init"
    using assms(4) by (simp add: e820_fits_def e820map_init_def)
  moreover have "\<forall>(s, l, t) \<in> set ?l. t \<noteq> - 1 \<and> no_wrap s l"
    using assms(1) by (auto simp: range_ok_def)
  ultimately obtain m where m: "put_all insertrange e820map_init ?l = Some m" "e820_invar m"
    "\<forall>a. type_at m a = written (type_at e820map_init a) ?l a"
    using e8.put_all_look [OF e820_invar_init] by blast
  moreover have "get_e820 (int_e820 b) e820map_init = Some (m, False)"
    using get_e820_loop_put_all [of rs z rest e820map_init 0] assms m(1) by (simp add: get_e820_def)
  ultimately show ?thesis
    by (intro exI [of _ m]) (simp add: get_mem_def type_at_init)
qed

theorem get_mem_e820_witness:
  "\<exists>m. get_mem \<lparr>int_e820 = [\<lparr>r_cf = False, r_eax = 0x534d4150, r_ebx = 0, r_ecx = 20,
        b_base = 0, b_len = 0x9fc00, b_type = 1\<rparr>], int_12 = 0, int_e801 = (True, 0, 0), int_88 = (True, 0)\<rparr>
      e820map_init = Some (Inr m) \<and> type_at m 0x9fbff = 1 \<and> type_at m 0x9fc00 = 0"
  using get_mem_e820 [of "[]" "\<lparr>r_cf = False, r_eax = 0x534d4150, r_ebx = 0, r_ecx = 20,
        b_base = 0, b_len = 0x9fc00, b_type = 1\<rparr>" "\<lparr>int_e820 = [\<lparr>r_cf = False, r_eax = 0x534d4150, r_ebx = 0, r_ecx = 20,
        b_base = 0, b_len = 0x9fc00, b_type = 1\<rparr>], int_12 = 0, int_e801 = (True, 0, 0), int_88 = (True, 0)\<rparr>" "[]"]
  by (auto simp: reply_ok_def range_ok_def reply_range_def MAXRANGES_def)

text \<open>The older calls insert a range only when its size is not zero, which is what
  \<open>insertrange\<close> does by itself. Their sizes are 16-bit counts shifted inside 32 bits.\<close>

definition low_size :: "nat \<Rightarrow> u16 \<Rightarrow> u64" where
  "low_size n ax = ucast (push_bit n (ucast ax :: u32))"

lemma low_size_0 [simp]: "low_size n 0 = 0"
  by (simp add: low_size_def)

lemma unat_low_size: "unat (low_size n ax) < 2 ^ 32"
  using unat_less [of "push_bit n (ucast ax :: u32)"] by (simp add: low_size_def unat_ucast)

lemma insertrange_zero: "insertrange m s 0 t = Some m"
  by (simp add: insertrange_def)

lemma get_dos_mem_put: "get_dos_mem ax m = put_all insertrange m [(0, low_size 10 ax, 1)]"
  by (simp add: get_dos_mem_def low_size_def)

lemma get_e801_put:
  "get_e801 False ax bx m = map_option (\<lambda>m. (m, False)) (put_all insertrange m
     [(0x100000, low_size 10 ax, 1), (0x1000000, low_size 16 bx, 1)])"
proof -
  have "get_e801 False ax bx m = do {
     m \<leftarrow> insertrange m 0x100000 (low_size 10 ax) 1;
     m \<leftarrow> insertrange m 0x1000000 (low_size 16 bx) 1;
     Some (m, False) }"
    by (cases "ax = 0"; cases "bx = 0") (simp_all add: get_e801_def insertrange_zero low_size_def)
  then show ?thesis by (auto simp: map_option_case split: option.splits bind_splits)
qed

lemma get_88_put:
  "get_88 False ax m = map_option (\<lambda>m. (m, False)) (put_all insertrange m [(0x100000, low_size 10 ax, 1)])"
  by (cases "ax = 0")
     (simp_all add: get_88_def insertrange_zero map_option_case low_size_def split: option.splits)

lemma put_all_append: "put_all put m (rs @ ss) = Option.bind (put_all put m rs) (\<lambda>m. put_all put m ss)"
proof (induction put m rs rule: put_all.induct)
  case (2 put m s l t rs)
  then show ?case by (cases "put m s l t") auto
qed simp

lemma put_all_low:
  assumes "\<forall>(s, l, t) \<in> set rs. unat s < 2 ^ 32 \<and> unat l < 2 ^ 32 \<and> t = 1" and "length rs < 10"
  shows "\<exists>m. put_all insertrange e820map_init rs = Some m \<and> e820_invar m \<and> (\<forall>a. type_at m a = written 0 rs a)"
proof -
  have "e820_fits (length rs) e820map_init"
    using assms(2) by (simp add: e820_fits_def e820map_init_def MAXRANGES_def)
  moreover have "\<forall>(s, l, t) \<in> set rs. t \<noteq> - 1 \<and> no_wrap s l"
    using assms(1) by fastforce
  ultimately show ?thesis
    using e8.put_all_look [OF e820_invar_init, of rs] by (auto simp: type_at_init)
qed

lemma put_after_dos:
  assumes "\<forall>(s, l, t) \<in> set rs. unat s < 2 ^ 32 \<and> unat l < 2 ^ 32 \<and> t = 1" "length rs < 9"
  obtains m0 m where "get_dos_mem ax e820map_init = Some m0" "put_all insertrange m0 rs = Some m"
     "e820_invar m" "\<forall>a. type_at m a = written 0 ((0, low_size 10 ax, 1) # rs) a"
proof -
  have "\<exists>m. put_all insertrange e820map_init ([(0, low_size 10 ax, 1)] @ rs) = Some m \<and>
     e820_invar m \<and> (\<forall>a. type_at m a = written 0 ([(0, low_size 10 ax, 1)] @ rs) a)"
    using assms unat_low_size by (intro put_all_low) auto
  with that show thesis
    unfolding put_all_append get_dos_mem_put by (auto simp: bind_eq_Some_conv)
qed

text \<open>C25. When E820 gives nothing, the map holds the ranges of the older calls; when those fail as
  well, \<open>get_mem\<close> dies.\<close>

theorem get_mem_fallback:
  assumes "int_e820 b = r # rest" and "\<not> reply_ok r"
  shows "case int_e801 b of (cf, ax, bx) \<Rightarrow>
     (if \<not> cf then
        \<exists>m. get_mem b e820map_init = Some (Inr m) \<and> e820_invar m \<and>
          (\<forall>a. type_at m a = written 0 [(0, low_size 10 (int_12 b), 1),
             (0x100000, low_size 10 ax, 1), (0x1000000, low_size 16 bx, 1)] a)
      else if fst (int_88 b) then get_mem b e820map_init = Some (Inl Unable_to_obtain_memory_map)
      else
        \<exists>m. get_mem b e820map_init = Some (Inr m) \<and> e820_invar m \<and>
          (\<forall>a. type_at m a = written 0 [(0, low_size 10 (int_12 b), 1),
             (0x100000, low_size 10 (snd (int_88 b)), 1)] a))"
proof -
  have e: "get_e820 (int_e820 b) m = Some (m, True)" for m
    using assms by (auto simp: get_e820_def reply_ok_def Let_def)
  obtain cf ax bx where x: "int_e801 b = (cf, ax, bx)" by (cases "int_e801 b")
  obtain cf8 ax8 where y: "int_88 b = (cf8, ax8)" by (cases "int_88 b")
  have t: "get_e801 True ax bx m = Some (m, True)" "get_88 True ax m = Some (m, True)" for ax bx m
    by (simp_all add: get_e801_def get_88_def)
  show ?thesis
  proof (cases cf)
    case False
    obtain m0 m where "get_dos_mem (int_12 b) e820map_init = Some m0"
       "put_all insertrange m0 [(0x100000, low_size 10 ax, 1), (0x1000000, low_size 16 bx, 1)] = Some m"
       "e820_invar m" "\<forall>a. type_at m a = written 0 [(0, low_size 10 (int_12 b), 1),
             (0x100000, low_size 10 ax, 1), (0x1000000, low_size 16 bx, 1)] a"
      by (rule put_after_dos [of "[(0x100000, low_size 10 ax, 1), (0x1000000, low_size 16 bx, 1)]" "int_12 b"])
         (use unat_low_size in simp_all)
    with False x e show ?thesis
      by (simp add: get_mem_def get_e801_put del: written.simps put_all.simps)
  next
    case True
    obtain m0 m where "get_dos_mem (int_12 b) e820map_init = Some m0"
       "put_all insertrange m0 [(0x100000, low_size 10 ax8, 1)] = Some m"
       "e820_invar m" "\<forall>a. type_at m a = written 0 [(0, low_size 10 (int_12 b), 1), (0x100000, low_size 10 ax8, 1)] a"
      by (rule put_after_dos [of "[(0x100000, low_size 10 ax8, 1)]" "int_12 b"])
         (use unat_low_size in simp_all)
    with True x y e t show ?thesis
      by (cases cf8) (simp_all add: get_mem_def get_88_put del: written.simps put_all.simps)
  qed
qed

theorem get_mem_fallback_witness:
  "get_mem \<lparr>int_e820 = [\<lparr>r_cf = True, r_eax = 0, r_ebx = 0, r_ecx = 0,
        b_base = 0, b_len = 0, b_type = 0\<rparr>], int_12 = 640, int_e801 = (True, 0, 0), int_88 = (True, 0)\<rparr>
      e820map_init = Some (Inl Unable_to_obtain_memory_map)"
  using get_mem_fallback [of "\<lparr>int_e820 = [\<lparr>r_cf = True, r_eax = 0, r_ebx = 0, r_ecx = 0,
        b_base = 0, b_len = 0, b_type = 0\<rparr>], int_12 = 640, int_e801 = (True, 0, 0), int_88 = (True, 0)\<rparr>"]
  by (simp add: reply_ok_def)


subsection \<open>The sizes derived from the map\<close>

fun parse_list :: "e820range list \<Rightarrow> mem_sizes \<Rightarrow> mem_sizes" where
  "parse_list [] s = s"
| "parse_list (r # rs) s = parse_list rs (parse_range r (rstart (hd (rs @ [sentinel]))) s)"

lemma parse_mem_loop_list:
  assumes "\<forall>r \<in> set rs. rtype r \<noteq> - 1"
  shows "parse_mem_loop (P @ rs @ sentinel # R) (length P) s = Some (parse_list rs s)"
  using assms
proof (induction rs arbitrary: P s)
  case Nil
  then show ?case by (subst parse_mem_loop.simps) simp
next
  case (Cons r rs)
  have "rd (P @ (r # rs) @ sentinel # R) (length P + 1) = Some (hd (rs @ [sentinel]))"
    by (cases rs) (auto simp: rd_def nth_append)
  with Cons.IH [of "P @ [r]"] Cons.prems show ?case
    by (subst parse_mem_loop.simps) simp
qed

lemma parse_mem_list:
  assumes "e820_invar m"
  obtains L where "e820_live m = map epair L" "\<forall>r \<in> set L. rtype r \<noteq> - 1"
    "parse_mem m = Some (parse_list L \<lparr>dos_mem = 0, low_mem = 0, high_mem = 0\<rparr>)"
proof -
  obtain L R where L: "ranges m = L @ sentinel # R" "e820_live m = map epair L"
    by (rule e820_invar_split [OF assms])
  have t: "\<forall>r \<in> set L. rtype r \<noteq> - 1" using assms L(2) by (auto simp: e820_invar_def)
  with that L parse_mem_loop_list [OF t, of "[]" R] show thesis by (simp add: parse_mem_def)
qed

text \<open>The part of RAM between \<open>lo\<close> and \<open>hi\<close> that starts at \<open>lo\<close>, as \<open>parse_mem\<close> computes it for
  the three areas.\<close>

definition area :: "u64 \<Rightarrow> u64 \<Rightarrow> e820range \<Rightarrow> u64 \<Rightarrow> u32 \<Rightarrow> u32" where
  "area lo hi r nxt old =
     (if rtype r = 1 \<and> rstart r \<le> lo \<and> nxt > lo then ucast ((if nxt > hi then hi else nxt) - lo) else old)"

fun area_list :: "u64 \<Rightarrow> u64 \<Rightarrow> e820range list \<Rightarrow> u32 \<Rightarrow> u32" where
  "area_list lo hi [] v = v"
| "area_list lo hi (r # rs) v = area_list lo hi rs (area lo hi r (rstart (hd (rs @ [sentinel]))) v)"

lemma parse_range_area:
  "parse_range r n s = s\<lparr>
     dos_mem := (if rtype r = 1 \<and> rstart r = 0 \<and> n = 0 then 0 else area 0 (PW 20) r n (dos_mem s)),
     low_mem := area (PW 20) (PW 24) r n (low_mem s),
     high_mem := area (PW 24) (PW 32) r n (high_mem s)\<rparr>"
  by (cases s) (auto simp: parse_range_def area_def Let_def word_gt_0)

lemma parse_list_area:
  assumes "rsorted (map epair rs)" and "dos_mem s = 0 \<or> (\<forall>r \<in> set rs. rstart r \<noteq> 0)"
  shows "parse_list rs s = s\<lparr>dos_mem := area_list 0 (PW 20) rs (dos_mem s),
     low_mem := area_list (PW 20) (PW 24) rs (low_mem s),
     high_mem := area_list (PW 24) (PW 32) rs (high_mem s)\<rparr>"
  using assms
proof (induction rs arbitrary: s)
  case (Cons r rs)
  let ?n = "rstart (hd (rs @ [sentinel]))" and ?s = "parse_range r (rstart (hd (rs @ [sentinel]))) s"
  have "\<forall>r \<in> set rs. rstart r \<noteq> 0" using Cons.prems(1) by (auto simp: rsorted_Cons)
  then have "parse_list rs ?s = ?s\<lparr>dos_mem := area_list 0 (PW 20) rs (dos_mem ?s),
     low_mem := area_list (PW 20) (PW 24) rs (low_mem ?s),
     high_mem := area_list (PW 24) (PW 32) rs (high_mem ?s)\<rparr>"
    using Cons by (simp add: rsorted_Cons)
  moreover have "dos_mem ?s = area 0 (PW 20) r ?n (dos_mem s)"
    using Cons.prems(2) by (auto simp: parse_range_area area_def)
  ultimately show ?case by (simp add: parse_range_area)
qed simp

lemma area_list_split:
  assumes "\<forall>x \<in> set (A @ [r]). rstart x \<le> lo" and "\<forall>x \<in> set B. lo < rstart x"
  shows "area_list lo hi (A @ r # B) v = area lo hi r (rstart (hd (B @ [sentinel]))) v"
  using assms(1)
proof (induction A arbitrary: v)
  case Nil
  have "area_list lo hi B w = w" for w
    using assms(2) by (induction B arbitrary: w) (auto simp: area_def)
  then show ?case by simp
next
  case (Cons x A)
  then have "rstart (hd ((A @ r # B) @ [sentinel])) \<le> lo" by (cases A) auto
  then have "area lo hi x (rstart (hd ((A @ r # B) @ [sentinel]))) v = v"
    by (auto simp: area_def)
  with Cons show ?case by simp
qed

text \<open>The area of size \<open>v\<close> from \<open>lo\<close> lies below \<open>hi\<close> and holds RAM only; unless RAM reaches the end
  of the address space, it ends where the RAM ends.\<close>

definition ram_area :: "e820map \<Rightarrow> u64 \<Rightarrow> u64 \<Rightarrow> u32 \<Rightarrow> bool" where
  "ram_area m lo hi v \<longleftrightarrow> lo + ucast v \<le> hi \<and> (\<forall>a. lo \<le> a \<and> a < lo + ucast v \<longrightarrow> type_at m a = 1) \<and>
     (type_at m (- 1) \<noteq> 1 \<and> lo + ucast v < hi \<longrightarrow> type_at m (lo + ucast v) \<noteq> 1)"

lemma ucast_diff:
  fixes lo x :: u64
  assumes "lo \<le> x" and "unat x - unat lo < 2 ^ 32"
  shows "lo + ucast (ucast (x - lo) :: u32) = x"
proof -
  have "unat (x - lo) < 2 ^ 32" using assms by (simp add: unat_minus_id)
  then have "ucast (ucast (x - lo) :: u32) = x - lo"
    by (intro word_unat_eq_iff [THEN iffD2]) (simp add: unat_ucast)
  then show ?thesis by simp
qed

lemma ram_area_list:
  assumes live: "e820_live m = map epair (A @ r # B)" and inv: "e820_invar m"
    and A: "\<forall>x \<in> set (A @ [r]). rstart x \<le> lo" and B: "\<forall>x \<in> set B. lo < rstart x"
    and hi: "lo < hi" "unat hi - unat lo < 2 ^ 32"
  shows "ram_area m lo hi (area_list lo hi (A @ r # B) 0)"
proof -
  have at: "type_at m a = rlook (rtype r) (map epair B) a" if "lo \<le> a" for a
  proof -
    have "\<forall>x \<in> set (map epair (A @ [r])). fst x \<le> a" using A that by auto
    from rlook_above [OF this, of 0 "map epair B"] show ?thesis
      using live by (simp add: type_at_def rlast_append)
  qed
  show ?thesis
  proof (cases B)
    case Nil
    then have "type_at m a = rtype r" if "lo \<le> a" for a using at that by simp
    then show ?thesis using hi(1) area_list_split [OF A B, of hi 0] Nil
      by (auto simp: ram_area_def area_def less_imp_le not_less)
  next
    case (Cons b B')
    let ?x = "if rstart b > hi then hi else rstart b"
    have x: "lo \<le> ?x" "unat ?x - unat lo < 2 ^ 32" "?x \<le> hi" "?x \<le> rstart b"
      using B Cons hi by (auto simp: not_less word_le_nat_alt word_less_nat_alt)
    have below: "type_at m a = rtype r" if "lo \<le> a" "a < ?x" for a
      using at [OF that(1)] that(2) x(4) Cons by (auto simp: rlook_epair)
    have "rcompact (map epair A @ epair r # epair b # map epair B')"
      using inv live Cons by (simp add: e820_invar_def)
    then have "rtype b \<noteq> rtype r"
      by (auto simp: rcompact_def successively_append_iff)
    moreover have "rsorted (map epair (b # B'))"
      using inv live Cons by (simp add: e820_invar_def rwf_def rsorted_simps)
    then have "rlook (rtype b) (map epair B') (rstart b) = rtype b"
      by (intro rlook_below) (auto simp: rsorted_Cons)
    ultimately have next_type: "type_at m (rstart b) \<noteq> rtype r"
      using at [of "rstart b"] B Cons by (simp add: rlook_epair less_imp_le)
    have "area_list lo hi (A @ r # B) 0 = (if rtype r = 1 then ucast (?x - lo) else 0)"
      using area_list_split [OF A B, of hi 0] A B Cons by (simp add: area_def)
    then show ?thesis
      using ucast_diff [OF x(1,2)] x(3) below next_type hi(1) at [of lo] Cons B
      by (auto simp: ram_area_def rlook_epair less_imp_le split: if_splits)
  qed
qed


text \<open>On a well-formed map \<open>parse_mem\<close> stays inside the array; \<open>dos_mem\<close>, \<open>low_mem\<close> and
  \<open>high_mem\<close> are the sizes of the RAM from 0 (below 1 MB), from 1 MB (below 16 MB) and from 16 MB
  (below 4 GB): every address counted is RAM, and each count ends where the RAM ends (unless RAM
  reaches the top of the address space, whose range has no end in the array).\<close>

theorem parse_mem_correct:
  assumes "e820_invar m"
  shows "\<exists>s. parse_mem m = Some s \<and> ram_area m 0 (PW 20) (dos_mem s) \<and>
     ram_area m (PW 20) (PW 24) (low_mem s) \<and> ram_area m (PW 24) (PW 32) (high_mem s)"
proof -
  obtain L where L: "e820_live m = map epair L" "\<forall>r \<in> set L. rtype r \<noteq> - 1"
    "parse_mem m = Some (parse_list L \<lparr>dos_mem = 0, low_mem = 0, high_mem = 0\<rparr>)"
    by (rule parse_mem_list [OF assms])
  have wf: "rsorted (map epair L)" "L \<noteq> []" "rstart (hd L) = 0"
    using assms L(1) by (auto simp: e820_invar_def rwf_def hd_map)
  have "ram_area m lo hi (area_list lo hi L 0)" if "lo < hi" "unat hi - unat lo < 2 ^ 32" for lo hi
  proof -
    obtain P M S where s: "L = P @ M @ S" "\<forall>r \<in> set P. rstart r < 0"
      "\<forall>r \<in> set M. 0 \<le> rstart r \<and> rstart r \<le> lo" "\<forall>r \<in> set S. lo < rstart r"
      by (rule sorted_split3 [OF wf(1), of 0 lo]) auto
    then have "P = []" by (cases P) auto
    moreover have "M \<noteq> []" using s wf(2,3) \<open>P = []\<close> by (cases S) auto
    then have "M = butlast M @ [last M]" by simp
    ultimately show ?thesis
      using ram_area_list [of m "butlast M" "last M" S lo hi] s L(1) assms that
      by (metis append.assoc append_Cons append_Nil)
  qed
  then show ?thesis
    using L(3) parse_list_area [OF wf(1), of "\<lparr>dos_mem = 0, low_mem = 0, high_mem = 0\<rparr>"]
    by (simp add: PW_def)
qed

theorem parse_mem_correct_witness:
  "\<exists>s. parse_mem e820map_init = Some s \<and> ram_area e820map_init 0 (PW 20) (dos_mem s)"
  using parse_mem_correct [OF e820_invar_init] by blast

end
