(* ===== verification/Tlv.thy ===== *)
theory Tlv
  imports Prelude
begin

section \<open>Sequences of tagged items\<close>

text \<open>
  The auxiliary data vector and the option fields of DHCP packets have the same layout: a tag
  byte, a length byte and the data, one item after the other. This theory holds that layout
  and the facts the two components share.
\<close>

type_synonym item = "byte \<times> buf"

fun enc :: "item list \<Rightarrow> buf" where
  "enc [] = []"
| "enc ((t, d) # is) = t # of_nat (length d) # d @ enc is"

lemma enc_append: "enc (is @ js) = enc is @ enc js"
  by (induction "is" rule: enc.induct) auto

lemma enc_eq_Nil [simp]: "enc is = [] \<longleftrightarrow> is = []"
  by (cases "is" rule: enc.cases) auto

lemma unat_len: "length d < 256 \<Longrightarrow> unat (of_nat (length d) :: byte) = length d"
  by (rule unat_of_nat_id) simp

text \<open>The two header bytes of the first item.\<close>

lemma rd_item:
  "rd (P @ t # l # R) (length P) = Some t" "rd (P @ t # l # R) (length P + 1) = Some l"
  by (simp_all add: rd_def nth_append)

end
