(* ===== verification/Adv.thy ===== *)
theory Adv
  imports Tlv
begin

section \<open>The auxiliary data vector\<close>

text \<open>
  The ADV is a small persistent store of tagged items, kept twice on disk, each copy with two
  signatures and a checksum. \<open>libinstaller/setadv.c\<close> edits it from the installers;
  \<open>com32/elflink/ldlinux/setadv.c\<close> and \<open>getadv.c\<close> edit and read it at boot time. The vector is
  a list of bytes; the position \<open>p\<close> of the code is an offset into the working copy. The
  abstract contents are a list of items, and the operations are shown to be deletion,
  append and lookup on that list.
\<close>

subsection \<open>Operations\<close>

datatype adv_errno = EINVAL | ENOSPC

definition ADV_SIZE :: nat where "ADV_SIZE = 512"
definition ADV_LEN :: nat where "ADV_LEN = ADV_SIZE - 3 * 4"
definition ADV_END :: byte where "ADV_END = 0"
definition ADV_MAGIC1 :: u32 where "ADV_MAGIC1 = 0x5a2d2fa5"
definition ADV_MAGIC2 :: u32 where "ADV_MAGIC2 = 0xa3041767"
definition ADV_MAGIC3 :: u32 where "ADV_MAGIC3 = 0xdd28bf64"

definition memmove :: "buf \<Rightarrow> nat \<Rightarrow> nat \<Rightarrow> nat \<Rightarrow> buf option" where
  "memmove b dst src n = do { s \<leftarrow> slice b src n; blit b dst s }"

text \<open>The scan of the boot-time \<open>syslinux_setadv\<close>: it deletes the items with the given tag.
  \<open>rleft\<close> counts the bytes still to read, \<open>left\<close> those that may be written.\<close>

function setadv_loop :: "buf \<Rightarrow> nat \<Rightarrow> nat \<Rightarrow> nat \<Rightarrow> u32 \<Rightarrow> (buf \<times> nat \<times> nat) option" where
  "setadv_loop b p left rleft tag =
     (if rleft \<ge> 2 then
        (case (rd b p, rd b (p + 1)) of
           (Some ptag, Some l) \<Rightarrow>
             (let plen = unat l + 2 in
              if ptag = ADV_END then Some (b, p, left)
              else if ucast ptag = tag then
                (if plen \<ge> rleft then Some (b, p, left)
                 else (case memmove b p (p + plen) (rleft - plen) of
                         None \<Rightarrow> None
                       | Some b \<Rightarrow> setadv_loop b p left (rleft - plen) tag))
              else if plen > rleft then Some (b, p, left)
              else setadv_loop b (p + plen) (left - plen) (rleft - plen) tag)
         | _ \<Rightarrow> None)
      else Some (b, p, left))"
  by auto
termination by (relation "measure (\<lambda>(_, _, _, rleft, _). rleft)") auto

text \<open>The scan of the installers has a single counter, and nothing that bounds its rounds.\<close>

partial_function (option) inst_setadv_loop :: "buf \<Rightarrow> nat \<Rightarrow> nat \<Rightarrow> u32 \<Rightarrow> (buf \<times> nat \<times> nat) option" where
  "inst_setadv_loop b p left tag =
     (if left \<ge> 2 then
        (case (rd b p, rd b (p + 1)) of
           (Some ptag, Some l) \<Rightarrow>
             (let plen = unat l + 2 in
              if ptag = ADV_END then Some (b, p, left)
              else if ucast ptag = tag then
                (if plen \<ge> left then Some (b, p, left)
                 else (case memmove b p (p + plen) (left - plen) of
                         None \<Rightarrow> None
                       | Some b \<Rightarrow> inst_setadv_loop b p left tag))
              else if plen > left then Some (b, p, left)
              else inst_setadv_loop b (p + plen) (left - plen) tag)
         | _ \<Rightarrow> None)
      else Some (b, p, left))"

text \<open>The second half of both versions: append the new item, clear the rest.\<close>

definition setadv_store :: "u32 \<Rightarrow> buf \<Rightarrow> buf \<times> nat \<times> nat \<Rightarrow> (adv_errno + buf) option" where
  "setadv_store tag data = (\<lambda>(b, p, left).
     if length data \<noteq> 0 then
       (if left < length data + 2 then Some (Inl ENOSPC)
        else do {
          b \<leftarrow> wr b p (ucast tag);
          b \<leftarrow> wr b (p + 1) (of_nat (length data));
          b \<leftarrow> blit b (p + 2) data;
          b \<leftarrow> fill b (p + 2 + length data) 0 (left - (length data + 2));
          Some (Inr b) })
     else map_option Inr (fill b p 0 left))"

text \<open>Boot time: the vector is the whole buffer at \<open>syslinux_adv_ptr()\<close>.\<close>

definition syslinux_setadv :: "buf \<Rightarrow> u32 \<Rightarrow> buf \<Rightarrow> (adv_errno + buf) option" where
  "syslinux_setadv adv tag data =
     (if tag - 1 > 254 then Some (Inl EINVAL)
      else if length data > 255 then Some (Inl ENOSPC)
      else do {
        r \<leftarrow> setadv_loop adv 0 (length adv) (length adv) tag;
        setadv_store tag data r })"

text \<open>Its lookup: the offset and size of the item, or \<open>NULL\<close>.\<close>

function getadv_loop :: "buf \<Rightarrow> nat \<Rightarrow> nat \<Rightarrow> u32 \<Rightarrow> (nat \<times> nat) option option" where
  "getadv_loop b p left tag =
     (if left \<ge> 2 then
        (case (rd b p, rd b (p + 1)) of
           (Some ptag, Some l) \<Rightarrow>
             (let plen = unat l in
              if ptag = ADV_END then Some None
              else if left - 2 < plen then Some None
              else if ucast ptag = tag then Some (Some (p + 2, plen))
              else getadv_loop b (p + 2 + plen) (left - 2 - plen) tag)
         | _ \<Rightarrow> None)
      else Some None)"
  by auto
termination by (relation "measure (\<lambda>(_, _, left, _). left)") auto

definition syslinux_getadv :: "buf \<Rightarrow> u32 \<Rightarrow> (nat \<times> nat) option option" where
  "syslinux_getadv adv tag = getadv_loop adv 0 (length adv) tag"

text \<open>Installers: the vector proper lies between the signatures and checksums of each copy.\<close>

fun csum_loop :: "buf \<Rightarrow> nat \<Rightarrow> nat \<Rightarrow> u32 option" where
  "csum_loop b i 0 = Some 0"
| "csum_loop b i (Suc n) = do { w \<leftarrow> rd32 b i; s \<leftarrow> csum_loop b (i + 4) n; Some (w + s) }"

definition cleanup_adv :: "buf \<Rightarrow> buf option" where
  "cleanup_adv b = do {
     b \<leftarrow> wr32 b 0 ADV_MAGIC1;
     s \<leftarrow> csum_loop b 8 ((ADV_SIZE - 4 - 8) div 4);
     b \<leftarrow> wr32 b 4 (ADV_MAGIC2 - s);
     b \<leftarrow> wr32 b (ADV_SIZE - 4) ADV_MAGIC3;
     c \<leftarrow> slice b 0 ADV_SIZE;
     blit b ADV_SIZE c }"

definition inst_setadv :: "buf \<Rightarrow> u32 \<Rightarrow> buf \<Rightarrow> (adv_errno + buf) option" where
  "inst_setadv syslinux_adv tag data =
     (if tag - 1 > 254 then Some (Inl EINVAL)
      else if length data > 255 then Some (Inl ENOSPC)
      else do {
        b \<leftarrow> slice syslinux_adv (2 * 4) ADV_LEN;
        r \<leftarrow> inst_setadv_loop b 0 ADV_LEN tag;
        b \<leftarrow> setadv_store tag data r;
        (case b of
           Inl e \<Rightarrow> Some (Inl e)
         | Inr advtmp \<Rightarrow> do {
             a \<leftarrow> blit syslinux_adv (2 * 4) advtmp;
             a \<leftarrow> cleanup_adv a;
             Some (Inr a) }) })"

definition syslinux_reset_adv :: "buf \<Rightarrow> buf option" where
  "syslinux_reset_adv b = do { b \<leftarrow> fill b (2 * 4) 0 ADV_LEN; cleanup_adv b }"

definition adv_consistent :: "buf \<Rightarrow> nat \<Rightarrow> bool option" where
  "adv_consistent b p = do {
     m1 \<leftarrow> rd32 b p;
     m3 \<leftarrow> rd32 b (p + ADV_SIZE - 4);
     (if m1 \<noteq> ADV_MAGIC1 \<or> m3 \<noteq> ADV_MAGIC3 then Some False
      else do { s \<leftarrow> csum_loop b (p + 4) ((ADV_SIZE - 4 - 4) div 4); Some (s = ADV_MAGIC2) }) }"

definition syslinux_validate_adv :: "buf \<Rightarrow> (int \<times> buf) option" where
  "syslinux_validate_adv b = do {
     c0 \<leftarrow> adv_consistent b (0 * ADV_SIZE);
     (if c0 then do { s \<leftarrow> slice b 0 ADV_SIZE; b \<leftarrow> blit b ADV_SIZE s; Some (0, b) }
      else do {
        c1 \<leftarrow> adv_consistent b (1 * ADV_SIZE);
        (if c1 then do { s \<leftarrow> slice b ADV_SIZE ADV_SIZE; b \<leftarrow> blit b 0 s; Some (0, b) }
         else do { b \<leftarrow> syslinux_reset_adv b; Some (- 1, b) }) }) }"

declare setadv_loop.simps [simp del] getadv_loop.simps [simp del]

subsection \<open>The abstract vector\<close>

definition items_ok :: "item list \<Rightarrow> bool" where
  "items_ok is \<longleftrightarrow> (\<forall>(t, d) \<in> set is. t \<noteq> ADV_END \<and> length d < 256)"

definition without :: "u32 \<Rightarrow> item list \<Rightarrow> item list" where
  "without tag is = filter (\<lambda>i. ucast (fst i) \<noteq> tag) is"

lemma items_ok_simps [simp]:
  "items_ok []" "items_ok ((t, d) # is) \<longleftrightarrow> t \<noteq> ADV_END \<and> length d < 256 \<and> items_ok is"
  by (auto simp: items_ok_def)

lemma memmove_down:
  assumes "length s = n" "length J = plen"
  shows "memmove (P @ J @ s @ R) (length P) (length P + plen) n =
         Some (P @ s @ drop n (J @ s) @ R)"
proof -
  have "slice (P @ J @ s @ R) (length P + plen) n = Some s"
    using assms by (simp add: slice_def)
  then show ?thesis using assms by (simp add: memmove_def blit_def)
qed


subsection \<open>The scans\<close>

text \<open>The boot-time scan: whatever follows the items (at most zeros, and bytes that an earlier
  deletion has moved out of reach) is left behind the position it returns.\<close>

lemma setadv_loop_items:
  assumes "items_ok is"
  shows "\<exists>T. setadv_loop (P @ enc is @ replicate k 0 @ J) (length P)
            (length (enc is) + k + length J) (length (enc is) + k) tag =
       Some (P @ enc (without tag is) @ T, length P + length (enc (without tag is)), length T) \<and>
     length (enc (without tag is)) + length T = length (enc is) + k + length J"
  using assms
proof (induction "is" arbitrary: P J)
  case Nil
  consider "k = 0" | "k = 1" | k' where "k = Suc (Suc k')"
    by (metis One_nat_def not0_implies_Suc)
  then show ?case
    by cases (auto simp: setadv_loop.simps ADV_END_def without_def rd_def nth_append)
next
  case (Cons i "is")
  obtain t d where i: "i = (t, d)" by (cases i)
  let ?rest = "enc is @ replicate k 0"
  have ok: "t \<noteq> ADV_END" "length d < 256" "items_ok is" using Cons.prems i by auto
  note hd = rd_item [of P t "of_nat (length d)" "d @ ?rest @ J"]
  show ?case
  proof (cases "ucast t = tag")
    case True
    then have w: "without tag (i # is) = without tag is" by (simp add: without_def i)
    show ?thesis
    proof (cases "?rest = []")
      case True
      then show ?thesis using hd ok \<open>ucast t = tag\<close>
        by (subst setadv_loop.simps) (simp add: i without_def unat_len Let_def)
    next
      case False
      have "memmove (P @ (t # of_nat (length d) # d) @ ?rest @ J) (length P)
          (length P + (length d + 2)) (length ?rest) =
          Some (P @ ?rest @ drop (length ?rest) ((t # of_nat (length d) # d) @ ?rest) @ J)"
        by (rule memmove_down) auto
      moreover have "\<not> length d + 2 \<ge> length d + 2 + length ?rest" using False by (cases ?rest) auto
      ultimately have "setadv_loop (P @ enc (i # is) @ replicate k 0 @ J) (length P)
            (length (enc (i # is)) + k + length J) (length (enc (i # is)) + k) tag =
          setadv_loop (P @ ?rest @ drop (length ?rest) ((t # of_nat (length d) # d) @ ?rest) @ J) (length P)
            (length (enc (i # is)) + k + length J) (length (enc is) + k) tag"
        using hd ok True by (subst setadv_loop.simps) (auto simp: i unat_len Let_def add.assoc)
      then show ?thesis
        using Cons.IH [OF ok(3), of P "drop (length ?rest) ((t # of_nat (length d) # d) @ ?rest) @ J"] w
        by (simp add: i ac_simps)
    qed
  next
    case False
    then have w: "enc (without tag (i # is)) = (t # of_nat (length d) # d) @ enc (without tag is)"
      by (simp add: without_def i)
    have "setadv_loop (P @ enc (i # is) @ replicate k 0 @ J) (length P)
            (length (enc (i # is)) + k + length J) (length (enc (i # is)) + k) tag =
          setadv_loop ((P @ t # of_nat (length d) # d) @ enc is @ replicate k 0 @ J)
            (length (P @ t # of_nat (length d) # d))
            (length (enc is) + k + length J) (length (enc is) + k) tag"
      using hd ok False by (subst setadv_loop.simps) (simp add: i unat_len Let_def add.assoc)
    then show ?thesis
      using Cons.IH [OF ok(3), of "P @ t # of_nat (length d) # d" J]
      unfolding w by (auto simp: i)
  qed
qed

text \<open>The scan of the installers: the same, as long as a zero follows the items.\<close>

lemma inst_setadv_loop_items:
  assumes "items_ok is"
  shows "\<exists>T. inst_setadv_loop (P @ enc is @ replicate (Suc k) 0 @ J) (length P)
            (length (enc is) + Suc k + length J) tag =
       Some (P @ enc (without tag is) @ T, length P + length (enc (without tag is)), length T) \<and>
     length (enc (without tag is)) + length T = length (enc is) + Suc k + length J"
  using assms
proof (induction "is" arbitrary: P J)
  case Nil
  have "rd (P @ 0 # replicate k 0 @ J) (length P + 1) = Some ((replicate k 0 @ J) ! 0)"
    if "k + length J > 0" using that by (simp add: rd_def nth_append)
  then show ?case
    by (cases "k + length J = 0")
       (auto simp: inst_setadv_loop.simps ADV_END_def without_def rd_def nth_append Let_def)
next
  case (Cons i "is")
  obtain t d where i: "i = (t, d)" by (cases i)
  let ?rest = "enc is @ replicate (Suc k) 0 @ J"
  have ok: "t \<noteq> ADV_END" "length d < 256" "items_ok is" using Cons.prems i by auto
  note hd = rd_item [of P t "of_nat (length d)" "d @ ?rest"]
  show ?case
  proof (cases "ucast t = tag")
    case True
    then have w: "without tag (i # is) = without tag is" by (simp add: without_def i)
    have "memmove (P @ (t # of_nat (length d) # d) @ ?rest @ []) (length P)
        (length P + (length d + 2)) (length ?rest) =
        Some (P @ ?rest @ drop (length ?rest) ((t # of_nat (length d) # d) @ ?rest) @ [])"
      by (rule memmove_down) auto
    then have "inst_setadv_loop (P @ enc (i # is) @ replicate (Suc k) 0 @ J) (length P)
          (length (enc (i # is)) + Suc k + length J) tag =
        inst_setadv_loop (P @ ?rest @ drop (length ?rest) ((t # of_nat (length d) # d) @ ?rest)) (length P)
          (length (enc (i # is)) + Suc k + length J) tag"
      using hd ok True by (subst inst_setadv_loop.simps) (simp add: i unat_len Let_def add.assoc)
    then show ?thesis
      using Cons.IH [OF ok(3), of P "J @ drop (length ?rest) ((t # of_nat (length d) # d) @ ?rest)"] w
      by (simp add: i ac_simps)
  next
    case False
    then have w: "enc (without tag (i # is)) = (t # of_nat (length d) # d) @ enc (without tag is)"
      by (simp add: without_def i)
    have "inst_setadv_loop (P @ enc (i # is) @ replicate (Suc k) 0 @ J) (length P)
            (length (enc (i # is)) + Suc k + length J) tag =
          inst_setadv_loop ((P @ t # of_nat (length d) # d) @ enc is @ replicate (Suc k) 0 @ J)
            (length (P @ t # of_nat (length d) # d))
            (length (enc is) + Suc k + length J) tag"
      using hd ok False by (subst inst_setadv_loop.simps) (simp add: i unat_len Let_def add.assoc)
    then show ?thesis
      using Cons.IH [OF ok(3), of "P @ t # of_nat (length d) # d" J]
      unfolding w by (auto simp: i)
  qed
qed


subsection \<open>Storing and reading an item\<close>

text \<open>What \<open>syslinux_setadv\<close> does to the list of items.\<close>

definition put_item :: "u32 \<Rightarrow> buf \<Rightarrow> item list \<Rightarrow> item list" where
  "put_item tag data is = without tag is @ (if data = [] then [] else [(ucast tag, data)])"

lemma setadv_store_items:
  assumes "length data < 256"
  shows "setadv_store tag data (enc js @ T, length (enc js), length T) =
    (if length (enc js) + length T < length (enc (js @ (if data = [] then [] else [(ucast tag, data)])))
     then Some (Inl ENOSPC)
     else Some (Inr (enc (js @ (if data = [] then [] else [(ucast tag, data)])) @
       replicate (length (enc js) + length T - length (enc (js @ (if data = [] then [] else [(ucast tag, data)])))) 0)))"
proof (cases "data = []")
  case True
  then show ?thesis by (simp add: setadv_store_def fill_def blit_def enc_append)
next
  case False
  show ?thesis
  proof (cases "length T < length data + 2")
    case True
    with False show ?thesis by (simp add: setadv_store_def enc_append)
  next
    case F: False
    then obtain x y U where T: "T = x # y # U" by (cases T; cases "tl T") auto
    obtain V W where U: "U = V @ W" "length V = length data"
      using F T by (metis append_take_drop_id length_take min.absorb2 add_le_cancel_right
          length_Cons not_less add_2_eq_Suc')
    have "(enc js @ x # y # V @ W)[length (enc js) := a, Suc (length (enc js)) := b] = enc js @ a # b # V @ W" for a b
      by (simp add: list_update_append)
    with False T U show ?thesis
      by (simp add: setadv_store_def wr_def fill_def blit_def enc_append list_update_append Suc_diff_le)
  qed
qed

lemma syslinux_setadv_items:
  assumes "items_ok is" and "tag \<noteq> 0" and "tag \<le> 255" and "length data < 256"
  shows "syslinux_setadv (enc is @ replicate k 0) tag data =
     Some (if length (enc is) + k < length (enc (put_item tag data is)) then Inl ENOSPC
           else Inr (enc (put_item tag data is) @
                     replicate (length (enc is) + k - length (enc (put_item tag data is))) 0))"
proof -
  have tag: "\<not> tag - 1 > 254"
  proof -
    have "unat (tag - 1) = unat tag - 1" using assms(2) by (simp add: unat_minus_one)
    moreover have "unat tag \<le> 255" using assms(3) by (simp add: word_le_nat_alt)
    ultimately show ?thesis by (simp add: word_less_nat_alt)
  qed
  obtain T where T: "setadv_loop (enc is @ replicate k 0) 0 (length (enc is) + k) (length (enc is) + k) tag =
       Some (enc (without tag is) @ T, length (enc (without tag is)), length T)"
     "length (enc (without tag is)) + length T = length (enc is) + k"
    using setadv_loop_items [OF assms(1), of "[]" k "[]" tag] by auto
  with tag assms(4) show ?thesis
    using setadv_store_items [OF assms(4), of tag "without tag is" T]
    by (simp add: syslinux_setadv_def put_item_def)
qed

text \<open>C8. \<open>syslinux_setadv\<close> of the boot loader, on a vector that holds the items \<open>is\<close> followed by
  zeros: every item with the tag is deleted and the new one, if any, is appended, provided the
  result fits; otherwise the call fails and the vector is unchanged. In particular it
  terminates and stays inside the vector.\<close>

theorem syslinux_setadv_correct:
  assumes "items_ok is" and "tag \<noteq> 0" and "tag \<le> 255" and "length data < 256"
  shows "syslinux_setadv (enc is @ replicate k 0) tag data =
     Some (if length (enc is) + k < length (enc (put_item tag data is)) then Inl ENOSPC
           else Inr (enc (put_item tag data is) @
                     replicate (length (enc is) + k - length (enc (put_item tag data is))) 0))"
  by (rule syslinux_setadv_items [OF assms])

theorem syslinux_setadv_correct_witness:
  "syslinux_setadv (enc [(1, [7, 7]), (2, [9])] @ replicate 3 0) 1 [5] =
   Some (Inr (enc [(2, [9]), (1, [5])] @ replicate 4 0))"
  using syslinux_setadv_correct [of "[(1, [7, 7]), (2, [9])]" 1 "[5]" 3]
  by (simp add: ADV_END_def put_item_def without_def)

text \<open>Lookup finds the first item with the tag.\<close>

definition find_item :: "u32 \<Rightarrow> item list \<Rightarrow> buf option" where
  "find_item tag is = map_option snd (List.find (\<lambda>i. ucast (fst i) = tag) is)"

lemma getadv_loop_items:
  assumes "items_ok is"
  shows "(case find_item tag is of
      None \<Rightarrow> getadv_loop (P @ enc is @ replicate k 0) (length P) (length (enc is) + k) tag = Some None
    | Some d \<Rightarrow> \<exists>p. getadv_loop (P @ enc is @ replicate k 0) (length P) (length (enc is) + k) tag = Some (Some (p, length d)) \<and>
        slice (P @ enc is @ replicate k 0) p (length d) = Some d)"
  using assms
proof (induction "is" arbitrary: P)
  case Nil
  consider "k = 0" | "k = 1" | k' where "k = Suc (Suc k')"
    by (metis One_nat_def not0_implies_Suc)
  then show ?case
    by cases (auto simp: getadv_loop.simps ADV_END_def find_item_def rd_def nth_append)
next
  case (Cons i "is")
  obtain t d where i: "i = (t, d)" by (cases i)
  have ok: "t \<noteq> ADV_END" "length d < 256" "items_ok is" using Cons.prems i by auto
  note hd = rd_item [of P t "of_nat (length d)" "d @ enc is @ replicate k 0"]
  show ?case
  proof (cases "ucast t = tag")
    case True
    with hd ok show ?thesis
      by (subst getadv_loop.simps) (simp add: i find_item_def unat_len Let_def slice_def)
  next
    case False
    have "getadv_loop (P @ enc (i # is) @ replicate k 0) (length P) (length (enc (i # is)) + k) tag =
          getadv_loop ((P @ t # of_nat (length d) # d) @ enc is @ replicate k 0)
            (length (P @ t # of_nat (length d) # d)) (length (enc is) + k) tag"
      using hd ok False by (subst getadv_loop.simps) (simp add: i unat_len Let_def)
    moreover have "find_item tag (i # is) = find_item tag is" using False by (simp add: i find_item_def)
    ultimately show ?thesis
      using Cons.IH [OF ok(3), of "P @ t # of_nat (length d) # d"] by (simp add: i split: option.splits)
  qed
qed

lemma find_item_put:
  assumes "tag \<le> 255"
  shows "find_item t (put_item tag data is) =
    (if t = tag then (if data = [] then None else Some data) else find_item t is)"
proof -
  have "unat tag < 256" using assms by (simp add: word_le_nat_alt)
  then have u: "ucast (ucast tag :: byte) = tag"
    by (intro word_unat_eq_iff [THEN iffD2]) (simp add: unat_ucast)
  have "List.find (\<lambda>i. ucast (fst i) = t) (without tag is @ js) =
     (if t = tag then List.find (\<lambda>i. ucast (fst i) = t) js
      else List.find (\<lambda>i. ucast (fst i) = t) (is @ js))" for js
    by (induction "is") (auto simp: without_def)
  moreover have "List.find P (xs @ ys) = (case List.find P xs of None \<Rightarrow> List.find P ys | Some x \<Rightarrow> Some x)"
    for P and xs ys :: "item list" by (induction xs) auto
  ultimately show ?thesis using u by (auto simp: find_item_def put_item_def split: option.splits)
qed

lemma items_ok_put:
  assumes "items_ok is" "tag \<noteq> 0" "tag \<le> 255" "length data < 256"
  shows "items_ok (put_item tag data is)"
proof -
  have "unat tag < 256" "unat tag \<noteq> 0" using assms by (auto simp: word_le_nat_alt unat_eq_0)
  then have "unat (ucast tag :: byte) \<noteq> 0" by (simp add: unat_ucast)
  then have "(ucast tag :: byte) \<noteq> 0" by (metis unsigned_0)
  then show ?thesis using assms by (auto simp: items_ok_def put_item_def without_def ADV_END_def)
qed

text \<open>C26. Reading back: after a successful \<open>syslinux_setadv\<close>, \<open>syslinux_getadv\<close> returns the stored
  bytes for that tag (and \<open>NULL\<close> when the item was deleted), and for every other tag what it
  returned before.\<close>

theorem getadv_setadv:
  assumes "items_ok is" and "tag \<noteq> 0" and "tag \<le> 255" and "length data < 256"
    and "syslinux_setadv (enc is @ replicate k 0) tag data = Some (Inr adv')"
  shows "case (if t = tag then (if data = [] then None else Some data) else find_item t is) of
      None \<Rightarrow> syslinux_getadv adv' t = Some None
    | Some d \<Rightarrow> \<exists>p. syslinux_getadv adv' t = Some (Some (p, length d)) \<and> slice adv' p (length d) = Some d"
proof -
  let ?js = "put_item tag data is"
  have adv: "adv' = enc ?js @ replicate (length (enc is) + k - length (enc ?js)) 0"
    using syslinux_setadv_items [OF assms(1-4), of k] assms(5) by (auto split: if_splits)
  have "case find_item t ?js of None \<Rightarrow> syslinux_getadv adv' t = Some None
    | Some d \<Rightarrow> \<exists>p. syslinux_getadv adv' t = Some (Some (p, length d)) \<and> slice adv' p (length d) = Some d"
    using getadv_loop_items [OF items_ok_put [OF assms(1-4)], where P = "[]" and tag = t
        and k = "length (enc is) + k - length (enc ?js)"]
    unfolding syslinux_getadv_def adv by (simp only: append_Nil list.size(3) length_append length_replicate)
  then show ?thesis unfolding find_item_put [OF assms(3)] .
qed

theorem getadv_setadv_witness:
  "\<exists>p. syslinux_getadv (enc [(2, [9]), (1, [5])] @ replicate 4 0) 1 = Some (Some (p, 1)) \<and>
       slice (enc [(2, [9]), (1, [5])] @ replicate 4 0) p 1 = Some [5]"
proof -
  have "syslinux_setadv (enc [(1, [7, 7]), (2, [9])] @ replicate 3 0) 1 [5] =
   Some (Inr (enc [(2, [9]), (1, [5])] @ replicate 4 0))"
    using syslinux_setadv_items [of "[(1, [7, 7]), (2, [9])]" 1 "[5]" 3]
    by (simp add: ADV_END_def put_item_def without_def)
  from getadv_setadv [OF _ _ _ _ this, of 1] show ?thesis by (simp add: ADV_END_def)
qed


subsection \<open>The vector on disk\<close>

lemma csum_loop_Some: "i + 4 * n \<le> length b \<Longrightarrow> \<exists>s. csum_loop b i n = Some s"
proof (induction n arbitrary: i)
  case (Suc n)
  obtain s where "csum_loop b (i + 4) n = Some s" using Suc.IH [of "i + 4"] Suc.prems by auto
  then show ?case using Suc.prems by (simp add: rd32_def rd_def)
qed simp

text \<open>The words of a part of a buffer.\<close>

lemma rd32_mid: "off = length a \<Longrightarrow> i + 4 \<le> length b \<Longrightarrow> rd32 (a @ b @ c) (off + i) = rd32 b i"
  by (auto simp: rd32_def rd_def nth_append)

lemma csum_mid:
  "off = length a \<Longrightarrow> i + 4 * n \<le> length b \<Longrightarrow> csum_loop (a @ b @ c) (off + i) n = csum_loop b i n"
proof (induction n arbitrary: i)
  case (Suc n)
  then show ?case using Suc.IH [of "i + 4"] rd32_mid [of off a i b c] by (simp add: add.assoc)
qed simp

lemma rd32_bytes32: "i = length a \<Longrightarrow> rd32 (a @ bytes32 w @ b) i = Some w"
  by (simp add: bytes32_def rd32_def rd_def nth_append le32_bytes32)

text \<open>A copy with the given 500 bytes of data, as \<open>cleanup_adv\<close> completes it.\<close>

definition adv_sum :: "buf \<Rightarrow> u32" where
  "adv_sum d = (case csum_loop d 0 (ADV_LEN div 4) of Some s \<Rightarrow> s | None \<Rightarrow> 0)"

definition adv_copy :: "buf \<Rightarrow> buf" where
  "adv_copy d = bytes32 ADV_MAGIC1 @ bytes32 (ADV_MAGIC2 - adv_sum d) @ d @ bytes32 ADV_MAGIC3"

lemma length_adv_copy: "length d = ADV_LEN \<Longrightarrow> length (adv_copy d) = ADV_SIZE"
  by (simp add: adv_copy_def ADV_LEN_def ADV_SIZE_def)

lemma adv_sum_Some: "length d = ADV_LEN \<Longrightarrow> csum_loop d 0 (ADV_LEN div 4) = Some (adv_sum d)"
  using csum_loop_Some [of 0 "ADV_LEN div 4" d] by (auto simp: adv_sum_def ADV_LEN_def ADV_SIZE_def)

lemma csum_in_copy:
  assumes "length d = ADV_LEN" "length h = 8"
  shows "csum_loop (h @ d @ t) 8 125 = Some (adv_sum d)"
proof -
  have "csum_loop (h @ d @ t) (8 + 0) 125 = csum_loop d 0 125"
    using assms by (intro csum_mid) (auto simp: ADV_LEN_def ADV_SIZE_def)
  then show ?thesis using adv_sum_Some [OF assms(1)] by (simp add: ADV_LEN_def ADV_SIZE_def)
qed

lemma cleanup_adv_copy:
  assumes "length a = 8" "length d = ADV_LEN" "length z = 4" "length r = ADV_SIZE"
  shows "cleanup_adv (a @ d @ z @ r) = Some (adv_copy d @ adv_copy d)"
proof -
  let ?a = "bytes32 ADV_MAGIC1 @ drop 4 a"
  have d: "length d = 500" "length r = 512" using assms by (auto simp: ADV_LEN_def ADV_SIZE_def)
  have "wr32 (a @ d @ z @ r) 0 ADV_MAGIC1 = Some (?a @ d @ z @ r)"
    using assms(1) by (simp add: wr32_def blit_def)
  moreover have "csum_loop (?a @ d @ z @ r) 8 125 = Some (adv_sum d)"
    using assms by (intro csum_in_copy) auto
  moreover have "wr32 (?a @ d @ z @ r) 4 (ADV_MAGIC2 - adv_sum d) =
      Some (bytes32 ADV_MAGIC1 @ bytes32 (ADV_MAGIC2 - adv_sum d) @ d @ z @ r)"
    using assms(1) by (simp add: wr32_def blit_def)
  moreover have "wr32 (bytes32 ADV_MAGIC1 @ bytes32 (ADV_MAGIC2 - adv_sum d) @ d @ z @ r) (ADV_SIZE - 4) ADV_MAGIC3 =
      Some (adv_copy d @ r)"
    using assms(3) d by (simp add: wr32_def blit_def adv_copy_def ADV_SIZE_def)
  moreover have "slice (adv_copy d @ r) 0 ADV_SIZE = Some (adv_copy d)"
    using length_adv_copy [OF assms(2)] by (simp add: slice_def)
  moreover have "blit (adv_copy d @ r) ADV_SIZE (adv_copy d) = Some (adv_copy d @ adv_copy d)"
    using length_adv_copy [OF assms(2)] assms(4) by (simp add: blit_def)
  moreover have "(ADV_SIZE - 4 - 8) div 4 = 125" by (simp add: ADV_SIZE_def)
  ultimately show ?thesis by (simp add: cleanup_adv_def)
qed

lemma adv_split:
  assumes "length (b :: buf) = 2 * ADV_SIZE"
  obtains a d z r where "b = a @ d @ z @ r" "length a = 8" "length d = ADV_LEN" "length z = 4" "length r = ADV_SIZE"
proof -
  have *: "\<exists>x y. ys = x @ y \<and> length x = n \<and> length y = length ys - n" if "n \<le> length ys" for n and ys :: buf
    using that by (intro exI [of _ "take n ys"] exI [of _ "drop n ys"]) simp
  have len: "length b = 1024" using assms by (simp add: ADV_SIZE_def)
  obtain a b1 where a: "b = a @ b1" "length a = 8" "length b1 = 1016" using * [of 8 b] len by auto
  obtain d b2 where d: "b1 = d @ b2" "length d = 500" "length b2 = 516" using * [of 500 b1] a by auto
  obtain z r where z: "b2 = z @ r" "length z = 4" "length r = 512" using * [of 4 b2] d by auto
  with a d that show thesis by (simp add: ADV_LEN_def ADV_SIZE_def)
qed

text \<open>The check of a copy reads nothing outside it.\<close>

lemma adv_consistent_mid:
  assumes "length c = ADV_SIZE" and "length a = p"
  shows "adv_consistent (a @ c @ r) p = adv_consistent c 0" "\<exists>v. adv_consistent c 0 = Some v"
proof -
  have l: "length c = 512" "ADV_SIZE = 512" using assms by (simp_all add: ADV_SIZE_def)
  have "rd32 (a @ c @ r) p = rd32 c 0" "rd32 (a @ c @ r) (p + 508) = rd32 c 508"
    "csum_loop (a @ c @ r) (p + 4) 126 = csum_loop c 4 126"
    using rd32_mid [of p a 0 c r] rd32_mid [of p a 508 c r] csum_mid [of p a 4 126 c r] assms(2) l by simp_all
  moreover have "p + ADV_SIZE - 4 = p + 508" "(ADV_SIZE - 4 - 4) div 4 = 126" by (simp_all add: l)
  ultimately show "adv_consistent (a @ c @ r) p = adv_consistent c 0"
    by (simp add: adv_consistent_def l add.commute [of 508] cong: if_cong)
  obtain s where "csum_loop c 4 126 = Some s" using csum_loop_Some [of 4 126 c] l by auto
  then show "\<exists>v. adv_consistent c 0 = Some v"
    using l(1) by (auto simp: adv_consistent_def l(2) rd32_def rd_def cong: if_cong)
qed

lemma adv_consistent_copy:
  assumes d: "length d = ADV_LEN"
  shows "adv_consistent (adv_copy d) 0 = Some True"
proof -
  have l: "length d = 500" "ADV_SIZE = 512" using d by (simp_all add: ADV_LEN_def ADV_SIZE_def)
  let ?c = "bytes32 (ADV_MAGIC2 - adv_sum d)"
  have m1: "rd32 (adv_copy d) 0 = Some ADV_MAGIC1"
    using rd32_bytes32 [of 0 "[]"] by (simp add: adv_copy_def)
  have m3: "rd32 (adv_copy d) 508 = Some ADV_MAGIC3"
    using rd32_bytes32 [of 508 "bytes32 ADV_MAGIC1 @ ?c @ d" ADV_MAGIC3 "[]"] l
    by (simp add: adv_copy_def)
  have m2: "rd32 (adv_copy d) 4 = Some (ADV_MAGIC2 - adv_sum d)"
    using rd32_bytes32 [of 4 "bytes32 ADV_MAGIC1" "ADV_MAGIC2 - adv_sum d" "d @ bytes32 ADV_MAGIC3"]
    by (simp add: adv_copy_def)
  have "csum_loop (adv_copy d) 8 125 = Some (adv_sum d)"
    using csum_in_copy [OF d, of "bytes32 ADV_MAGIC1 @ ?c" "bytes32 ADV_MAGIC3"] by (simp add: adv_copy_def)
  then have "csum_loop (adv_copy d) 4 (Suc 125) = Some ADV_MAGIC2"
    using m2 by (simp only: csum_loop.simps(2)) simp
  moreover have "0 + ADV_SIZE - 4 = 508" "(ADV_SIZE - 4 - 4) div 4 = Suc 125" by (simp_all add: l)
  ultimately show ?thesis using m1 m3 by (simp add: adv_consistent_def del: csum_loop.simps)
qed

text \<open>Whatever 1024 bytes were read from disk, \<open>syslinux_validate_adv\<close> stays inside them and
  leaves two equal copies that both pass the consistency check; it keeps the first copy if that
  is consistent, else the second, and otherwise reports an error and leaves an empty vector.\<close>

theorem syslinux_validate_adv_correct:
  assumes "length c0 = ADV_SIZE" and "length c1 = ADV_SIZE"
  shows "\<exists>rv c. syslinux_validate_adv (c0 @ c1) = Some (rv, c @ c) \<and> length c = ADV_SIZE \<and>
     adv_consistent (c @ c) 0 = Some True \<and> adv_consistent (c @ c) ADV_SIZE = Some True \<and>
     (if adv_consistent (c0 @ c1) 0 = Some True then rv = 0 \<and> c = c0
      else if adv_consistent (c0 @ c1) ADV_SIZE = Some True then rv = 0 \<and> c = c1
      else rv = - 1 \<and> c = adv_copy (replicate ADV_LEN 0))"
proof -
  have mid: "adv_consistent (c0 @ c1) 0 = adv_consistent c0 0" "adv_consistent (c0 @ c1) ADV_SIZE = adv_consistent c1 0"
    "adv_consistent (c @ c) 0 = adv_consistent c 0" "adv_consistent (c @ c) ADV_SIZE = adv_consistent c 0"
    if "length c = ADV_SIZE" for c
    using adv_consistent_mid(1) [of c0 "[]" 0 c1] adv_consistent_mid(1) [of c1 c0 ADV_SIZE "[]"]
      adv_consistent_mid(1) [of c "[]" 0 c] adv_consistent_mid(1) [of c c ADV_SIZE "[]"] assms that by simp_all
  obtain v0 v1 where v: "adv_consistent c0 0 = Some v0" "adv_consistent c1 0 = Some v1"
    using adv_consistent_mid(2) assms by blast
  consider (first) "v0" | (second) "\<not> v0" "v1" | (none) "\<not> v0" "\<not> v1" by blast
  then show ?thesis
  proof cases
    case first
    then show ?thesis using mid [OF assms(1)] v assms
      by (intro exI [of _ 0] exI [of _ c0]) (simp add: syslinux_validate_adv_def slice_def blit_def)
  next
    case second
    then show ?thesis using mid [OF assms(2)] v assms
      by (intro exI [of _ 0] exI [of _ c1]) (simp add: syslinux_validate_adv_def slice_def blit_def)
  next
    case none
    obtain a d z r where s: "c0 @ c1 = a @ d @ z @ r" "length a = 8" "length d = ADV_LEN"
      "length z = 4" "length r = ADV_SIZE"
      by (rule adv_split [of "c0 @ c1"]) (use assms in auto)
    let ?d = "replicate ADV_LEN 0"
    have "fill (a @ d @ z @ r) (2 * 4) 0 ADV_LEN = Some (a @ ?d @ z @ r)"
      using s by (simp add: fill_def blit_def)
    then have "syslinux_reset_adv (c0 @ c1) = Some (adv_copy ?d @ adv_copy ?d)"
      using s cleanup_adv_copy [of a ?d z r] by (simp add: syslinux_reset_adv_def)
    moreover have c: "length (adv_copy ?d) = ADV_SIZE" by (rule length_adv_copy) simp
    moreover have "adv_consistent (adv_copy ?d) 0 = Some True" by (rule adv_consistent_copy) simp
    ultimately show ?thesis
      using mid [OF c] v none
      by (intro exI [of _ "- 1"] exI [of _ "adv_copy ?d"]) (simp add: syslinux_validate_adv_def)
  qed
qed

theorem syslinux_validate_adv_correct_witness:
  "\<exists>rv c. syslinux_validate_adv (replicate ADV_SIZE 0 @ replicate ADV_SIZE 0) = Some (rv, c @ c) \<and>
     adv_consistent (c @ c) 0 = Some True"
  using syslinux_validate_adv_correct [of "replicate ADV_SIZE 0" "replicate ADV_SIZE 0"] by auto


subsection \<open>The installers' setadv\<close>

lemma inst_setadv_items:
  assumes "items_ok is" and "tag \<noteq> 0" and "tag \<le> 255" and "length data < 256"
    and "length (enc is) + Suc k = ADV_LEN" and "length h = 8" and "length r = ADV_SIZE + 4"
  shows "inst_setadv (h @ enc is @ replicate (Suc k) 0 @ r) tag data =
     Some (if ADV_LEN < length (enc (put_item tag data is)) then Inl ENOSPC
           else let c = adv_copy (enc (put_item tag data is) @
                     replicate (ADV_LEN - length (enc (put_item tag data is))) 0) in Inr (c @ c))"
proof -
  let ?d = "enc is @ replicate (Suc k) 0"
  let ?e = "enc (put_item tag data is) @ replicate (ADV_LEN - length (enc (put_item tag data is))) 0"
  have tag: "\<not> tag - 1 > 254"
  proof -
    have "unat (tag - 1) = unat tag - 1" using assms(2) by (simp add: unat_minus_one)
    moreover have "unat tag \<le> 255" using assms(3) by (simp add: word_le_nat_alt)
    ultimately show ?thesis by (simp add: word_less_nat_alt)
  qed
  have sl: "slice (h @ ?d @ r) (2 * 4) ADV_LEN = Some ?d"
    using assms(6) by (simp add: slice_def flip: assms(5))
  obtain T where T: "inst_setadv_loop ?d 0 ADV_LEN tag =
       Some (enc (without tag is) @ T, length (enc (without tag is)), length T)"
     "length (enc (without tag is)) + length T = ADV_LEN"
    using inst_setadv_loop_items [OF assms(1), of "[]" k "[]" tag] assms(5) by auto
  have st: "setadv_store tag data (enc (without tag is) @ T, length (enc (without tag is)), length T) =
     Some (if ADV_LEN < length (enc (put_item tag data is)) then Inl ENOSPC else Inr ?e)"
    using setadv_store_items [OF assms(4), of tag "without tag is" T] T(2) by (simp add: put_item_def)
  show ?thesis
  proof (cases "ADV_LEN < length (enc (put_item tag data is))")
    case True
    with tag assms(4) sl T(1) st show ?thesis by (simp add: inst_setadv_def)
  next
    case False
    then have e: "length ?e = ADV_LEN" by simp
    obtain z r' where r: "r = z @ r'" "length z = 4" "length r' = ADV_SIZE"
      using assms(7) by (metis append_take_drop_id length_append length_take add.commute
          le_add2 min.absorb2 add_left_cancel)
    have "blit (h @ ?d @ r) (2 * 4) ?e = Some (h @ ?e @ r)"
      using assms(6) e by (simp add: blit_def flip: assms(5))
    moreover have "cleanup_adv (h @ ?e @ r) = Some (adv_copy ?e @ adv_copy ?e)"
      using cleanup_adv_copy [OF assms(6) e r(2,3)] r(1) by simp
    ultimately show ?thesis using False tag assms(4) sl T(1) st by (simp add: inst_setadv_def Let_def)
  qed
qed

text \<open>The installers' \<open>syslinux_setadv\<close>, on a vector whose items are followed by at least one
  zero byte, terminates, has the effect of the boot-time version on the items, and leaves two
  copies with fresh signatures and checksum.\<close>

theorem inst_setadv_correct:
  assumes "items_ok is" and "tag \<noteq> 0" and "tag \<le> 255" and "length data < 256"
    and "length (enc is) + Suc k = ADV_LEN" and "length h = 8" and "length r = ADV_SIZE + 4"
  shows "inst_setadv (h @ enc is @ replicate (Suc k) 0 @ r) tag data =
     Some (if ADV_LEN < length (enc (put_item tag data is)) then Inl ENOSPC
           else let c = adv_copy (enc (put_item tag data is) @
                     replicate (ADV_LEN - length (enc (put_item tag data is))) 0) in Inr (c @ c))"
  by (rule inst_setadv_items [OF assms])

theorem inst_setadv_correct_witness:
  "inst_setadv (replicate 8 0 @ enc [(1, [7])] @ replicate (Suc 496) 0 @ replicate (ADV_SIZE + 4) 0) 1 [] =
   Some (let c = adv_copy (replicate ADV_LEN 0) in Inr (c @ c))"
  using inst_setadv_correct [of "[(1, [7])]" 1 "[]" 496 "replicate 8 0" "replicate (ADV_SIZE + 4) 0"]
  by (simp add: ADV_END_def ADV_LEN_def ADV_SIZE_def put_item_def without_def Let_def)

text \<open>Without that zero byte the scan may never end. Deleting moves the bytes behind the item
  down, but keeps counting the bytes at the end, which the move has duplicated.\<close>

fun empties :: "byte \<Rightarrow> nat \<Rightarrow> buf" where
  "empties t 0 = []"
| "empties t (Suc n) = t # 0 # empties t n"

lemma length_empties [simp]: "length (empties t n) = 2 * n"
  by (induction n) auto

lemma empties_Suc: "empties t (Suc n) = empties t n @ [t, 0]"
  by (induction n) auto

lemma memmove_empties:
  "memmove (empties t (Suc (Suc n))) 0 2 (2 * Suc n) = Some (empties t (Suc (Suc n)))"
proof -
  have "memmove ([t, 0] @ empties t (Suc n)) 0 2 (2 * Suc n) =
     Some (empties t (Suc n) @ drop (2 * Suc n) ([t, 0] @ empties t (Suc n)))"
    using memmove_down [of "empties t (Suc n)" "2 * Suc n" "[t, 0]" 2 "[]" "[]"]
    by (simp add: numeral_2_eq_2)
  moreover have "[t, 0] @ empties t (Suc n) = empties t (Suc n) @ [t, 0]"
    using empties_Suc [of t "Suc n"] by simp
  ultimately show ?thesis using empties_Suc [of t "Suc n"] by simp
qed

lemma inst_setadv_loop_diverges:
  assumes "t \<noteq> ADV_END"
  shows "inst_setadv_loop (empties t (Suc (Suc n))) 0 (2 * Suc (Suc n)) (ucast t) = None"
proof -
  define Q where "Q b p left tag \<longleftrightarrow> b = empties t (Suc (Suc n)) \<and> p = 0 \<and> left = 2 * Suc (Suc n) \<and> tag = ucast t"
    for b and p left :: nat and tag :: u32
  have "\<not> Q b p left tag" if "inst_setadv_loop b p left tag = Some y" for b p left tag y
  proof (rule inst_setadv_loop.raw_induct [of "\<lambda>b p left tag y. \<not> Q b p left tag", OF _ that], rule notI)
    fix f b p left tag y
    assume IH: "\<And>b p left tag y. f b p left tag = Some y \<Longrightarrow> \<not> Q b p left tag"
      and step: "(if 2 \<le> left
         then case (rd b p, rd b (p + 1)) of (None, ba) \<Rightarrow> None | (Some ptag, None) \<Rightarrow> None
              | (Some ptag, Some l) \<Rightarrow>
                  let plen = unat l + 2
                  in if ptag = ADV_END then Some (b, p, left)
                     else if ucast ptag = tag
                          then if left \<le> plen then Some (b, p, left)
                               else case memmove b p (p + plen) (left - plen) of None \<Rightarrow> None
                                    | Some b \<Rightarrow> f b p left tag
                          else if left < plen then Some (b, p, left) else f b (p + plen) (left - plen) tag
         else Some (b, p, left)) = Some y"
      and Q: "Q b p left tag"
    then have "f b p left tag = Some y"
      using memmove_empties [of t n] assms by (simp add: Q_def rd_def Let_def numeral_2_eq_2)
    with IH Q show False by blast
  qed
  then show ?thesis unfolding Q_def by (metis not_Some_eq)
qed

text \<open>C30. On a vector filled with empty items of one tag (which passes the checksum test like any
  other), setting or deleting that tag with the installers' \<open>syslinux_setadv\<close> never returns.\<close>

theorem inst_setadv_diverges:
  assumes "t \<noteq> ADV_END" and "length data < 256" and "length h = 8" and "length r = ADV_SIZE + 4"
  shows "inst_setadv (h @ empties t 250 @ r) (ucast t) data = None"
proof -
  have "slice (h @ empties t 250 @ r) (2 * 4) ADV_LEN = Some (empties t 250)"
    using assms(3) by (simp add: slice_def ADV_LEN_def ADV_SIZE_def)
  moreover have "inst_setadv_loop (empties t 250) 0 ADV_LEN (ucast t) = None"
    using inst_setadv_loop_diverges [OF assms(1), of 248] by (simp add: ADV_LEN_def ADV_SIZE_def numeral_eq_Suc)
  moreover have "\<not> ucast t - 1 > (254 :: u32)"
  proof -
    have "unat t \<noteq> 0" "unat t < 256"
      using assms(1) unat_less [of t] by (auto simp: ADV_END_def unat_eq_0)
    then have "unat (ucast t :: u32) = unat t" "(ucast t :: u32) \<noteq> 0"
      by (auto simp: unat_ucast unat_eq_0 simp flip: unat_eq_0)
    then have "unat (ucast t - 1 :: u32) = unat t - 1" by (simp add: unat_minus_one)
    then show ?thesis using \<open>unat t < 256\<close> by (simp add: word_less_nat_alt)
  qed
  ultimately show ?thesis using assms(2) by (simp add: inst_setadv_def)
qed

theorem inst_setadv_diverges_witness:
  "inst_setadv (replicate 8 0 @ empties 1 250 @ replicate (ADV_SIZE + 4) 0) 1 [] = None"
  using inst_setadv_diverges [of 1 "[]" "replicate 8 0" "replicate (ADV_SIZE + 4) 0"]
  by (simp add: ADV_END_def)

end
