(* ===== verification/Dhcp.thy ===== *)
theory Dhcp
  imports Tlv
begin

section \<open>Packing and unpacking DHCP options\<close>

text \<open>
  \<open>com32/lib/dhcppack.c\<close> and \<open>com32/lib/dhcpunpack.c\<close> convert between a table of 256 options and
  the option fields of a DHCP packet. The memory a routine writes to is a list of bytes that may
  be longer than the size it is told; an access outside that memory is \<open>None\<close>. Blocks of the
  heap are lists of bytes as well: the function \<open>mem\<close> gives the contents of the block the
  allocator returns for its \<open>k\<close>-th call, or \<open>None\<close> when it is out of memory.
\<close>

subsection \<open>Packing\<close>

record dhcp_option =
  data :: "buf option"
  len :: int

definition E_NOMEM :: int where "E_NOMEM = 12"
definition E_INVAL :: int where "E_INVAL = 22"
definition E_NOSPC :: int where "E_NOSPC = 28"

text \<open>The \<open>do \<dots> while (xlen)\<close> loop: one option, in chunks of at most 255 bytes.\<close>

function pack_chunks :: "buf \<Rightarrow> nat \<Rightarrow> nat \<Rightarrow> byte \<Rightarrow> buf option \<Rightarrow> nat \<Rightarrow> nat \<Rightarrow> (buf \<times> nat \<times> nat) option" where
  "pack_chunks f q spc i d p xlen =
     (let plen = (if xlen > 255 then 255 else xlen) in
      case do {
        f \<leftarrow> wr f q i;
        f \<leftarrow> wr f (q + 1) (of_nat plen);
        (if plen \<noteq> 0 then do { d \<leftarrow> d; s \<leftarrow> slice d p plen; blit f (q + 2) s } else Some f) }
      of None \<Rightarrow> None
       | Some f \<Rightarrow>
           (if xlen - plen \<noteq> 0
            then pack_chunks f (q + 2 + plen) (spc - (plen + 2)) i d (p + plen) (xlen - plen)
            else Some (f, q + 2 + plen, spc - (plen + 2))))"
  by pat_completeness auto
termination by (relation "measure (\<lambda>(_, _, _, _, _, _, xlen). xlen)") (auto split: if_splits)

declare pack_chunks.simps [simp del]

definition packed_len :: "int \<Rightarrow> int" where
  "packed_len n = (if n \<le> 255 then n + 2 else n + 2 * ((n + 254) div 255))"

function pack_loop :: "nat \<Rightarrow> buf \<Rightarrow> nat \<Rightarrow> nat \<Rightarrow> int \<Rightarrow> dhcp_option list \<Rightarrow>
    (buf \<times> nat \<times> nat \<times> int \<times> dhcp_option list) option" where
  "pack_loop i f q spc err opt =
     (if i < 255 then
        (case rd opt i of None \<Rightarrow> None
         | Some oi \<Rightarrow>
             (if len oi < 0 then pack_loop (i + 1) f q spc err opt
              else if packed_len (len oi) \<ge> int spc then pack_loop (i + 1) f q spc (err + 1) opt
              else (case pack_chunks f q spc (of_nat i) (data oi) 0 (nat (len oi)) of
                      None \<Rightarrow> None
                    | Some (f, q, spc) \<Rightarrow> pack_loop (i + 1) f q spc err (opt[i := oi\<lparr>len := - 1\<rparr>]))))
      else Some (f, q, spc, err, opt))"
  by pat_completeness auto
termination by (relation "measure (\<lambda>(i, _). 255 - i)") auto

declare pack_loop.simps [simp del]

text \<open>The result: the error count, the memory, the number of active bytes, the options left.
  The field starts at offset \<open>q0\<close> of the memory.\<close>

definition dhcp_pack_field_zero :: "buf \<Rightarrow> nat \<Rightarrow> nat \<Rightarrow> dhcp_option list \<Rightarrow>
    (int \<times> buf \<times> nat \<times> dhcp_option list) option" where
  "dhcp_pack_field_zero f q0 n opt =
     (if n = 0 then Some (E_NOSPC, f, n, opt)
      else do {
        (f, q, spc, err, opt) \<leftarrow> pack_loop 1 f q0 n 0 opt;
        f \<leftarrow> wr f q 255;
        let q = q + 1;
        f \<leftarrow> fill f q 0 spc;
        Some (err, f, q - q0, opt) })"

definition dhcp_pack_field :: "buf \<Rightarrow> nat \<Rightarrow> dhcp_option list \<Rightarrow> (int \<times> buf \<times> nat) option" where
  "dhcp_pack_field f n opt = map_option (\<lambda>(err, f, n, _). (err, f, n)) (dhcp_pack_field_zero f 0 n opt)"

text \<open>The fixed part of a packet: \<open>sname\<close> at 44, \<open>file\<close> at 108, the magic at 236, the options at
  240; \<open>sizeof(struct dhcp_packet)\<close> is 244. \<open>spc\<close> is a \<open>size_t\<close> of 32 bits and wraps.\<close>

definition vendor_magic :: buf where
  "vendor_magic = [0x63, 0x82, 0x53, 0x63]"

definition pack_fixed :: "buf \<Rightarrow> nat \<Rightarrow> nat \<Rightarrow> dhcp_option \<Rightarrow> buf option" where
  "pack_fixed pkt off n oi = do {
     pkt \<leftarrow> fill pkt off 0 n;
     (if len oi > 0 then do { d \<leftarrow> data oi; s \<leftarrow> slice d 0 (nat (len oi)); blit pkt off s } else Some pkt) }"

definition dhcp_pack_packet :: "buf \<Rightarrow> u32 \<Rightarrow> dhcp_option list \<Rightarrow> (int \<times> buf \<times> u32) option" where
  "dhcp_pack_packet pkt plen opt =
     (if plen < 244 then Some (E_NOSPC, pkt, plen)
      else do {
        pkt \<leftarrow> blit pkt 236 vendor_magic;
        o67 \<leftarrow> rd opt 67;
        o66 \<leftarrow> rd opt 66;
        o52 \<leftarrow> rd opt 52;
        o53 \<leftarrow> rd opt 53;
        let ov1 = len o67 > 128;
        let ov2 = len o66 > 64;
        let ox = (if ov1 then opt else opt[67 := o67\<lparr>len := - 1\<rparr>]);
        let ox = (if ov2 then ox else ox[66 := o66\<lparr>len := - 1\<rparr>]);
        let ox = ox[52 := o52\<lparr>len := - 1\<rparr>];
        let spc = plen - 240;
        (pkt, q, spc, ox) \<leftarrow>
          (if len o53 = 1 then do {
             d \<leftarrow> data o53;
             b \<leftarrow> rd d 0;
             pkt \<leftarrow> blit pkt 240 [53, 1, b];
             Some (pkt, 243, spc - 3, ox[53 := o53\<lparr>len := - 1\<rparr>]) }
           else Some (pkt, 240, spc, ox));
        let overload = (if ov1 then 1 else 0) OR (if ov2 then 2 else 0);
        (pkt, q, spc) \<leftarrow>
          (if overload \<noteq> 0 then do {
             pkt \<leftarrow> blit pkt q [52, 1, overload];
             Some (pkt, q + 3, spc - 3) }
           else Some (pkt, q, spc));
        (err, pkt, n, ox) \<leftarrow> dhcp_pack_field_zero pkt q (unat spc) ox;
        let plen = of_nat (n + q);
        (err, pkt, ox) \<leftarrow>
          (if ov1 then map_option (\<lambda>(err, pkt, _, ox). (err, pkt, ox)) (dhcp_pack_field_zero pkt 108 128 ox)
           else map_option (\<lambda>pkt. (err, pkt, ox)) (pack_fixed pkt 108 128 o67));
        (err, pkt, ox) \<leftarrow>
          (if ov2 then map_option (\<lambda>(err, pkt, _, ox). (err, pkt, ox)) (dhcp_pack_field_zero pkt 44 64 ox)
           else map_option (\<lambda>pkt. (err, pkt, ox)) (pack_fixed pkt 44 64 o66));
        Some (err, pkt, plen) })"

subsection \<open>Unpacking\<close>

type_synonym heap = "nat \<Rightarrow> nat \<Rightarrow> buf option"

definition realloc :: "heap \<Rightarrow> nat \<Rightarrow> buf option \<Rightarrow> nat \<Rightarrow> buf option" where
  "realloc mem k old n =
     map_option (\<lambda>b. take n (case old of None \<Rightarrow> b | Some d \<Rightarrow> d @ drop (length d) b)) (mem k n)"

text \<open>One option of a field; the result is the table, the number of the next allocation and
  whether memory ran out, in which case the data of the option is not skipped.\<close>

definition unpack_opt :: "heap \<Rightarrow> nat \<Rightarrow> byte \<Rightarrow> buf \<Rightarrow> dhcp_option list \<Rightarrow>
    (dhcp_option list \<times> nat \<times> bool) option" where
  "unpack_opt mem k op d opt = do {
     o1 \<leftarrow> rd opt (unat op);
     let o1 = (if len o1 < 0 then o1\<lparr>len := 0\<rparr> else o1);
     (if d \<noteq> [] then
        (case realloc mem k (data o1) (nat (len o1) + length d + 1) of
           None \<Rightarrow> Some (opt[unat op := o1\<lparr>data := None\<rparr>], k + 1, False)
         | Some b \<Rightarrow> do {
             b \<leftarrow> blit b (nat (len o1)) d;
             let n = len o1 + int (length d);
             b \<leftarrow> wr b (nat n) 0;
             Some (opt[unat op := \<lparr>data = Some b, len = n\<rparr>], k + 1, True) })
      else Some (opt[unat op := o1], k, True)) }"

function unpack_loop :: "heap \<Rightarrow> nat \<Rightarrow> buf \<Rightarrow> nat \<Rightarrow> nat \<Rightarrow> int \<Rightarrow> dhcp_option list \<Rightarrow>
    (int \<times> dhcp_option list \<times> nat) option" where
  "unpack_loop mem k f p n err opt =
     (if n > 1 then
        (case rd f p of None \<Rightarrow> None
         | Some op \<Rightarrow>
             (if op = 0 then unpack_loop mem k f (p + 1) (n - 1) err opt
              else if op = 255 then Some (err, opt, k)
              else (case rd f (p + 1) of None \<Rightarrow> None
                | Some l \<Rightarrow>
                    (if unat l > n - 2 then Some (err, opt, k)
                     else (case slice f (p + 2) (unat l) of None \<Rightarrow> None
                       | Some d \<Rightarrow>
                           (case unpack_opt mem k op d opt of None \<Rightarrow> None
                            | Some (opt, k, done) \<Rightarrow>
                                (if done then unpack_loop mem k f (p + 2 + unat l) (n - 2 - unat l) err opt
                                 else unpack_loop mem k f (p + 2) (n - 2) E_NOMEM opt)))))))
      else Some (err, opt, k))"
  by pat_completeness auto
termination by (relation "measure (\<lambda>(_, _, _, _, n, _). n)") auto

declare unpack_loop.simps [simp del]

definition dhcp_unpack_field :: "heap \<Rightarrow> nat \<Rightarrow> buf \<Rightarrow> nat \<Rightarrow> nat \<Rightarrow> dhcp_option list \<Rightarrow>
    (int \<times> dhcp_option list \<times> nat) option" where
  "dhcp_unpack_field mem k f p n opt = unpack_loop mem k f p n 0 opt"

text \<open>\<open>strnlen\<close>, and the copy of a fixed field: as in the code, the length comes from the field
  at \<open>off\<close> and the bytes from offset \<open>src\<close>.\<close>

definition strnlen :: "buf \<Rightarrow> nat \<Rightarrow> nat \<Rightarrow> nat" where
  "strnlen b off n = length (takeWhile (\<lambda>c. c \<noteq> 0) (take n (drop off b)))"

definition unpack_fixed :: "heap \<Rightarrow> nat \<Rightarrow> buf \<Rightarrow> nat \<Rightarrow> nat \<Rightarrow> nat \<Rightarrow> dhcp_option \<Rightarrow>
    (dhcp_option \<times> nat \<times> int) option" where
  "unpack_fixed mem k pkt off n src o1 =
     (let m = strnlen pkt off n in
      if m \<noteq> 0 then
        (case mem k (m + 1) of
           None \<Rightarrow> Some (\<lparr>data = None, len = int m\<rparr>, k + 1, E_NOMEM)
         | Some b \<Rightarrow> do {
             s \<leftarrow> slice pkt src m;
             b \<leftarrow> blit b 0 s;
             b \<leftarrow> wr b m 0;
             Some (\<lparr>data = Some b, len = int m\<rparr>, k + 1, 0) })
      else Some (o1\<lparr>len := 0\<rparr>, k, 0))"

text \<open>\<open>err |= e\<close>: the values are 0, 12 and 22, kept as integers with their bitwise or.\<close>

definition dhcp_unpack_packet :: "heap \<Rightarrow> buf \<Rightarrow> nat \<Rightarrow> dhcp_option list \<Rightarrow>
    (int \<times> dhcp_option list) option" where
  "dhcp_unpack_packet mem pkt n opt =
     (if n < 240 then Some (E_INVAL, opt)
      else do {
        m \<leftarrow> slice pkt 236 4;
        (if m \<noteq> vendor_magic then Some (E_INVAL, opt)
         else do {
           let opt = replicate 256 \<lparr>data = None, len = - 1\<rparr>;
           (err, opt, k) \<leftarrow> dhcp_unpack_field mem 0 pkt 240 (n - 240) opt;
           o52 \<leftarrow> rd opt 52;
           (overload, opt) \<leftarrow>
             (if len o52 = 1
              then do { d \<leftarrow> data o52; b \<leftarrow> rd d 0; Some (b, opt[52 := \<lparr>data = None, len = - 1\<rparr>]) }
              else Some (0, opt));
           (err, opt, k) \<leftarrow>
             (if overload AND 1 \<noteq> 0
              then map_option (\<lambda>(e, opt, k). (err OR e, opt, k)) (dhcp_unpack_field mem k pkt 108 128 opt)
              else do {
                o67 \<leftarrow> rd opt 67;
                (o67, k, e) \<leftarrow> unpack_fixed mem k pkt 108 128 108 o67;
                Some (err OR e, opt[67 := o67], k) });
           (err, opt, k) \<leftarrow>
             (if overload AND 2 \<noteq> 0
              then map_option (\<lambda>(e, opt, k). (err OR e, opt, k)) (dhcp_unpack_field mem k pkt 44 64 opt)
              else do {
                o66 \<leftarrow> rd opt 66;
                (o66, k, e) \<leftarrow> unpack_fixed mem k pkt 44 64 108 o66;
                Some (err OR e, opt[66 := o66], k) });
           Some (err, opt) }) })"


subsection \<open>What packing writes\<close>

text \<open>An option longer than 255 bytes is split into several items with the same tag.\<close>

function chunk :: "byte \<Rightarrow> buf \<Rightarrow> item list" where
  "chunk i d = (if length d \<le> 255 then [(i, d)] else (i, take 255 d) # chunk i (drop 255 d))"
  by auto
termination by (relation "measure (\<lambda>(_, d). length d)") auto

declare chunk.simps [simp del]

definition plength :: "nat \<Rightarrow> nat" where
  "plength n = nat (packed_len (int n))"

lemma packed_len_nat: "packed_len (int n) = int (plength n)"
  by (simp add: plength_def packed_len_def)

lemma plength_step: "255 < n \<Longrightarrow> plength n = plength (n - 255) + 257"
proof -
  assume n: "255 < n"
  then have "int n + 254 = (int (n - 255) + 254) + 1 * 255" by simp
  then have "(int n + 254) div 255 = (int (n - 255) + 254) div 255 + 1"
    by (metis div_mult_self1 zero_neq_numeral add.commute)
  moreover have "(int (n - 255) + 254) div 255 = 1" if "n - 255 \<le> 255"
    using that n by simp
  ultimately show ?thesis using n by (auto simp: plength_def packed_len_def)
qed

lemma length_chunk: "length (enc (chunk i d)) = plength (length d)"
proof (induction i d rule: chunk.induct)
  case (1 i d)
  show ?case
  proof (cases "length d \<le> 255")
    case True
    then show ?thesis by (subst chunk.simps) (simp add: plength_def packed_len_def)
  next
    case False
    then show ?thesis using 1 plength_step [of "length d"] by (subst chunk.simps) simp
  qed
qed

text \<open>The data of an option is a block of at least its length.\<close>

definition has_data :: "buf option \<Rightarrow> nat \<Rightarrow> buf \<Rightarrow> bool" where
  "has_data dat n d \<longleftrightarrow> length d = n \<and> (n = 0 \<or> (\<exists>b. dat = Some b \<and> n \<le> length b \<and> d = take n b))"

lemma pack_chunks_step:
  assumes pl: "pl = (if xlen > 255 then 255 else xlen)" and X: "X = x # y # d1 @ X'" "length d1 = pl"
    and d: "d1' = [] \<and> pl = 0 \<or> (\<exists>b. dat = Some b \<and> p + pl \<le> length b \<and> d1' = take pl (drop p b))"
  shows "pack_chunks (P @ X) (length P) spc i dat p xlen =
      (if xlen - pl \<noteq> 0
       then pack_chunks ((P @ i # of_nat pl # d1') @ X') (length P + 2 + pl) (spc - (pl + 2)) i dat (p + pl) (xlen - pl)
       else Some ((P @ i # of_nat pl # d1') @ X', length P + 2 + pl, spc - (pl + 2)))"
proof -
  let ?f = "P @ i # of_nat pl # d1 @ X'"
  have w: "wr (P @ X) (length P) i = Some (P @ i # y # d1 @ X')"
    "wr (P @ i # y # d1 @ X') (length P + 1) (of_nat pl) = Some ?f"
    by (simp_all add: X(1) wr_def list_update_append)
  have b: "(if pl \<noteq> 0 then do { d \<leftarrow> dat; s \<leftarrow> slice d p pl; blit ?f (length P + 2) s } else Some ?f) =
     Some ((P @ i # of_nat pl # d1') @ X')"
  proof (cases "pl = 0")
    case True
    then show ?thesis using d X(2) by auto
  next
    case False
    then obtain b where b: "dat = Some b" "p + pl \<le> length b" "d1' = take pl (drop p b)"
      using d by auto
    then have "slice b p pl = Some d1'" "length d1' = pl" by (simp_all add: slice_def)
    with b(1) False X(2) show ?thesis by (simp add: blit_def)
  qed
  have e: "do { f \<leftarrow> wr (P @ X) (length P) i; f \<leftarrow> wr f (length P + 1) (of_nat pl);
        (if pl \<noteq> 0 then do { d \<leftarrow> dat; s \<leftarrow> slice d p pl; blit f (length P + 2) s } else Some f) } =
     Some ((P @ i # of_nat pl # d1') @ X')"
    unfolding w(1) bind.bind_lunit w(2) b ..
  show ?thesis
    unfolding pack_chunks.simps [of "P @ X"] Let_def pl [symmetric] e option.case ..
qed

lemma pack_chunks_enc:
  assumes "xlen = length d" "xlen = 0 \<or> (\<exists>b. dat = Some b \<and> p + xlen \<le> length b \<and> d = take xlen (drop p b))"
    and "plength xlen \<le> length X"
  shows "pack_chunks (P @ X) (length P) spc i dat p xlen =
    Some (P @ enc (chunk i d) @ drop (plength xlen) X, length P + plength xlen, spc - plength xlen)"
  using assms
proof (induction xlen arbitrary: P X spc p d rule: less_induct)
  case (less xlen)
  define pl where "pl = (if xlen > 255 then 255 else xlen)"
  have le: "pl + 2 \<le> plength xlen" "pl \<le> xlen"
    using plength_step [of xlen] by (auto simp: pl_def plength_def packed_len_def)
  then obtain x y X0 where X0: "X = x # y # X0" using less.prems(3) by (cases X; cases "tl X") auto
  define X' where "X' = drop pl X0"
  have X: "X = x # y # take pl X0 @ X'" "length (take pl X0) = pl" "X' = drop (pl + 2) X"
    using X0 le less.prems(3) by (simp_all add: X'_def)
  have "take pl d = [] \<and> pl = 0 \<or> (\<exists>b. dat = Some b \<and> p + pl \<le> length b \<and> take pl d = take pl (drop p b))"
    using less.prems(2) le(2) by (auto simp: min_def)
  note step = pack_chunks_step [OF pl_def X(1,2) this, of P spc i]
  show ?case
  proof (cases "xlen > 255")
    case False
    then have "chunk i d = [(i, d)]" "plength xlen = xlen + 2" "pl = xlen"
      using less.prems(1) by (auto simp: chunk.simps plength_def packed_len_def pl_def)
    then show ?thesis using step X(3) less.prems(1) by simp
  next
    case True
    then have c: "chunk i d = (i, take 255 d) # chunk i (drop 255 d)" "plength xlen = plength (xlen - 255) + 257"
      "pl = 255"
      using less.prems(1) plength_step by (auto simp: chunk.simps [of i d] pl_def)
    obtain b where b: "dat = Some b" "p + xlen \<le> length b" "d = take xlen (drop p b)"
      using less.prems(2) True by auto
    let ?P = "P @ i # of_nat pl # take pl d"
    have "pack_chunks (?P @ X') (length ?P) (spc - 257) i dat (p + 255) (xlen - 255) =
      Some (?P @ enc (chunk i (drop 255 d)) @ drop (plength (xlen - 255)) X', length ?P + plength (xlen - 255),
            spc - 257 - plength (xlen - 255))"
      using True b less.prems(3) c(2,3) X(3)
      by (intro less.IH) (auto simp: drop_take add.commute)
    moreover have "length ?P = length P + 2 + pl" using le(2) less.prems(1) by simp
    ultimately show ?thesis using step True c X(3) less.prems(1) by (simp add: add.commute)
  qed
qed


text \<open>The options of a table that are present, in the order in which they are packed, and those
  of them the field has room for: an option that does not fit is skipped.\<close>

definition val :: "dhcp_option \<Rightarrow> buf" where
  "val oi = (case data oi of None \<Rightarrow> [] | Some b \<Rightarrow> take (nat (len oi)) b)"

definition opt_ok :: "dhcp_option \<Rightarrow> bool" where
  "opt_ok oi \<longleftrightarrow> len oi \<le> 0 \<or> (\<exists>b. data oi = Some b \<and> nat (len oi) \<le> length b)"

definition table_ok :: "dhcp_option list \<Rightarrow> bool" where
  "table_ok opt \<longleftrightarrow> length opt = 256 \<and> list_all opt_ok opt"

definition present :: "dhcp_option list \<Rightarrow> nat list \<Rightarrow> (nat \<times> buf) list" where
  "present opt is = map (\<lambda>i. (i, val (opt ! i))) (filter (\<lambda>i. len (opt ! i) \<ge> 0) is)"

fun greedy :: "nat \<Rightarrow> (nat \<times> buf) list \<Rightarrow> (nat \<times> buf) list" where
  "greedy spc [] = []"
| "greedy spc ((i, d) # os) =
     (if plength (length d) < spc then (i, d) # greedy (spc - plength (length d)) os else greedy spc os)"

definition items_of :: "(nat \<times> buf) list \<Rightarrow> item list" where
  "items_of os = concat (map (\<lambda>(i, d). chunk (of_nat i) d) os)"

lemma items_of_simps [simp]:
  "items_of [] = []" "items_of ((i, d) # os) = chunk (of_nat i) d @ items_of os"
  by (simp_all add: items_of_def)

lemma length_val: "opt_ok oi \<Longrightarrow> 0 \<le> len oi \<Longrightarrow> int (length (val oi)) = len oi"
  by (auto simp: opt_ok_def val_def split: option.splits)

lemma length_greedy: "length (enc (items_of (greedy spc os))) < spc \<or> greedy spc os = []"
proof (induction spc os rule: greedy.induct)
  case (2 spc i d os)
  then show ?case by (auto simp: enc_append length_chunk)
qed simp

lemma present_Cons:
  "present opt (i # is) = (if len (opt ! i) \<ge> 0 then [(i, val (opt ! i))] else []) @ present opt is"
  by (simp add: present_def)

lemma present_upd: "i \<notin> set is \<Longrightarrow> present (opt[i := v]) is = present opt is"
  by (induction "is") (auto simp: present_def)

lemma val_data:
  assumes "opt_ok oi" "0 \<le> len oi"
  shows "length (val oi) = 0 \<or>
    (\<exists>b. data oi = Some b \<and> 0 + length (val oi) \<le> length b \<and> val oi = take (length (val oi)) (drop 0 b))"
  using assms by (auto simp: opt_ok_def val_def min_def split: option.splits)

lemma pack_loop_greedy:
  assumes "list_all opt_ok opt" "length opt = 256" "spc \<le> length X" "0 < i" "i \<le> 255"
  shows "\<exists>opt'. pack_loop i (P @ X) (length P) spc err opt =
    (let os = present opt [i..<255]; gs = greedy spc os; e = enc (items_of gs) in
     Some (P @ e @ drop (length e) X, length P + length e, spc - length e,
           err + int (length os) - int (length gs), opt'))"
  using assms
proof (induction "255 - i" arbitrary: i P X spc err opt)
  case 0
  then show ?case by (simp add: pack_loop.simps present_def)
next
  case (Suc n)
  have up: "[i..<255] = i # [Suc i..<255]" using Suc.hyps(2) by (simp add: upt_conv_Cons)
  have oi: "opt_ok (opt ! i)" "rd opt i = Some (opt ! i)"
    using Suc.prems Suc.hyps(2) by (auto simp: list_all_length rd_def)
  have i: "i < 255" "n = 255 - Suc i" using Suc.hyps(2) by auto
  show ?case
  proof (cases "len (opt ! i) < 0")
    case True
    have "pack_loop i (P @ X) (length P) spc err opt = pack_loop (Suc i) (P @ X) (length P) spc err opt"
      using True oi(2) i by (subst pack_loop.simps) simp
    with Suc.hyps(1) [OF i(2), of opt spc X P err] Suc.prems i True show ?thesis
      by (simp add: up present_Cons)
  next
    case pos: False
    let ?d = "val (opt ! i)"
    have ld: "packed_len (len (opt ! i)) = int (plength (length ?d))" "nat (len (opt ! i)) = length ?d"
      using length_val [OF oi(1)] pos packed_len_nat [of "length ?d"] by auto
    show ?thesis
    proof (cases "plength (length ?d) < spc")
      case False
      have "pack_loop i (P @ X) (length P) spc err opt = pack_loop (Suc i) (P @ X) (length P) spc (err + 1) opt"
        using False pos oi(2) i ld by (subst pack_loop.simps) simp
      with Suc.hyps(1) [OF i(2), of opt spc X P "err + 1"] Suc.prems i pos False show ?thesis
        by (simp add: up present_Cons algebra_simps Let_def)
    next
      case True
      let ?P = "P @ enc (chunk (of_nat i) ?d)" and ?X = "drop (plength (length ?d)) X"
      let ?opt = "opt[i := (opt ! i)\<lparr>len := - 1\<rparr>]"
      have "pack_chunks (P @ X) (length P) spc (of_nat i) (data (opt ! i)) 0 (length ?d) =
          Some (?P @ ?X, length ?P, spc - plength (length ?d))"
        using pack_chunks_enc [OF refl val_data [OF oi(1)], of X P spc "of_nat i"] True Suc.prems(3) pos
        by (simp add: length_chunk)
      then have "pack_loop i (P @ X) (length P) spc err opt =
          pack_loop (Suc i) (?P @ ?X) (length ?P) (spc - plength (length ?d)) err ?opt"
        using True pos oi(2) i ld by (subst pack_loop.simps) simp
      moreover have "list_all opt_ok ?opt"
        using Suc.prems(1,2) i(1) by (auto simp: list_all_length nth_list_update opt_ok_def)
      ultimately show ?thesis
        using Suc.hyps(1) [OF i(2), of ?opt "spc - plength (length ?d)" ?X ?P err] Suc.prems i pos True
        by (simp add: up present_Cons present_upd Let_def enc_append length_chunk algebra_simps)
    qed
  qed
qed


text \<open>What a packed field holds: the items, the end marker, zeros.\<close>

definition packed :: "nat \<Rightarrow> dhcp_option list \<Rightarrow> (nat \<times> buf) list" where
  "packed n opt = greedy n (present opt [1..<255])"

definition field_bytes :: "nat \<Rightarrow> dhcp_option list \<Rightarrow> buf" where
  "field_bytes n opt = enc (items_of (packed n opt))"

lemma length_field_bytes: "0 < n \<Longrightarrow> length (field_bytes n opt) < n"
  using length_greedy [of n "present opt [1..<255]"] by (auto simp: field_bytes_def packed_def)

lemma dhcp_pack_field_zero_bytes:
  assumes "table_ok opt" and "0 < n" and "length X = n + 1"
  shows "\<exists>opt'. dhcp_pack_field_zero (P @ X @ R) (length P) n opt =
     Some (int (length (present opt [1..<255])) - int (length (packed n opt)),
           P @ field_bytes n opt @ 255 # replicate (n - length (field_bytes n opt)) 0 @ R,
           length (field_bytes n opt) + 1, opt')"
proof -
  let ?e = "field_bytes n opt"
  obtain opt' where l: "pack_loop 1 (P @ X @ R) (length P) n 0 opt =
     Some (P @ ?e @ drop (length ?e) (X @ R), length P + length ?e, n - length ?e,
           int (length (present opt [1..<255])) - int (length (packed n opt)), opt')"
    using pack_loop_greedy [of opt n "X @ R" 1 P 0] assms
    by (auto simp: table_ok_def Let_def field_bytes_def packed_def)
  have e: "length ?e < n" by (rule length_field_bytes [OF assms(2)])
  then obtain x Y where Y: "drop (length ?e) (X @ R) = x # Y @ R" "length Y = n - length ?e"
    using assms(3) by (cases "drop (length ?e) X") (auto dest: arg_cong [of _ _ length])
  have "wr (P @ ?e @ x # Y @ R) (length P + length ?e) 255 = Some (P @ ?e @ 255 # Y @ R)"
    by (simp add: wr_def list_update_append)
  moreover have "fill (P @ ?e @ 255 # Y @ R) (length P + length ?e + 1) 0 (n - length ?e) =
      Some (P @ ?e @ 255 # replicate (n - length ?e) 0 @ R)"
    using Y(2) by (simp add: fill_def blit_def)
  ultimately show ?thesis
    using l Y(1) assms(2) by (simp add: dhcp_pack_field_zero_def)
qed

text \<open>C27. \<open>dhcp_pack_field\<close> of \<open>n\<close> bytes needs \<open>n + 1\<close> bytes of memory: with those it writes the
  options that fit, in order and split into items of at most 255 bytes, the end marker, and
  zeros, and returns the number of options left out and of active bytes; when the memory has
  exactly \<open>n\<close> bytes the zero padding always runs over its end.\<close>

theorem dhcp_pack_field_correct:
  assumes "table_ok opt" and "0 < n"
  shows "(if n < length f then
       dhcp_pack_field f n opt =
         Some (int (length (present opt [1..<255])) - int (length (packed n opt)),
           field_bytes n opt @ 255 # replicate (n - length (field_bytes n opt)) 0 @ drop (n + 1) f,
           length (field_bytes n opt) + 1)
     else length f = n \<longrightarrow> dhcp_pack_field f n opt = None)"
proof -
  have "dhcp_pack_field f n opt = None" if lf: "length f = n"
  proof -
    let ?e = "field_bytes n opt"
    obtain opt' where l: "pack_loop 1 f 0 n 0 opt =
       Some (?e @ drop (length ?e) f, length ?e, n - length ?e,
             int (length (present opt [1..<255])) - int (length (packed n opt)), opt')"
      using pack_loop_greedy [of opt n f 1 "[]" 0] assms lf
      by (auto simp: table_ok_def Let_def field_bytes_def packed_def)
    have e: "length ?e < n" by (rule length_field_bytes [OF assms(2)])
    have "fill g (length ?e + 1) 0 (n - length ?e) = None" if "length g = n" for g :: buf
      using e that by (simp add: fill_def blit_def)
    then show ?thesis
      using l assms(2) lf e
      by (simp add: dhcp_pack_field_def dhcp_pack_field_zero_def wr_def)
  qed
  moreover have "dhcp_pack_field f n opt =
         Some (int (length (present opt [1..<255])) - int (length (packed n opt)),
           field_bytes n opt @ 255 # replicate (n - length (field_bytes n opt)) 0 @ drop (n + 1) f,
           length (field_bytes n opt) + 1)" if "n < length f"
    using dhcp_pack_field_zero_bytes [OF assms, of "take (n + 1) f" "[]" "drop (n + 1) f"] that
    by (auto simp: dhcp_pack_field_def)
  ultimately show ?thesis by simp
qed

theorem dhcp_pack_field_correct_witness:
  "dhcp_pack_field (replicate 10 0) 10 (replicate 256 \<lparr>data = None, len = - 1\<rparr>) = None"
  using dhcp_pack_field_correct [of "replicate 256 \<lparr>data = None, len = - 1\<rparr>" 10 "replicate 10 0"]
  by (simp add: table_ok_def opt_ok_def list_all_length)


subsection \<open>What unpacking reads\<close>

text \<open>The abstract table: the bytes of each option that is present.\<close>

type_synonym options = "nat \<Rightarrow> buf option"

definition view :: "dhcp_option list \<Rightarrow> options" where
  "view opt i = (if i < 256 \<and> len (opt ! i) \<ge> 0 then Some (val (opt ! i)) else None)"

fun add_items :: "item list \<Rightarrow> options \<Rightarrow> options" where
  "add_items [] v = v"
| "add_items ((t, d) # is) v =
     add_items is (v(unat t \<mapsto> (case v (unat t) of None \<Rightarrow> d | Some x \<Rightarrow> x @ d)))"

text \<open>The blocks that unpacking leaves behind have one more byte, a NUL.\<close>

definition uopt_ok :: "dhcp_option \<Rightarrow> bool" where
  "uopt_ok oi \<longleftrightarrow> (len oi \<le> 0 \<and> data oi = None) \<or>
     (len oi > 0 \<and> (\<exists>d. data oi = Some (d @ [0]) \<and> int (length d) = len oi))"

definition utable_ok :: "dhcp_option list \<Rightarrow> bool" where
  "utable_ok opt \<longleftrightarrow> length opt = 256 \<and> (\<forall>i < 256. uopt_ok (opt ! i))"

definition heap_ok :: "heap \<Rightarrow> bool" where
  "heap_ok mem \<longleftrightarrow> (\<forall>k n. \<exists>b. mem k n = Some b \<and> length b = n)"

lemma uopt_ok_cases:
  assumes "uopt_ok oi"
  obtains (absent) "len oi < 0" "data oi = None" "val oi = []"
    | (empty) "len oi = 0" "data oi = None" "val oi = []"
    | (bytes) "len oi = int (length (val oi))" "data oi = Some (val oi @ [0])" "val oi \<noteq> []"
proof (cases "len oi > 0")
  case False
  then have d: "data oi = None" using assms by (simp add: uopt_ok_def)
  then have v: "val oi = []" by (simp add: val_def)
  show thesis
  proof (cases "len oi = 0")
    case True
    then show thesis by (rule empty [OF _ d v])
  next
    case F: False
    show thesis by (rule absent [OF _ d v]) (use False F in simp)
  qed
next
  case True
  then obtain d where d: "data oi = Some (d @ [0])" "int (length d) = len oi"
    using assms by (auto simp: uopt_ok_def)
  then have v: "val oi = d" by (simp add: val_def flip: d(2))
  show thesis by (rule bytes) (use d True in \<open>simp_all add: v\<close>, auto)
qed

text \<open>The table after an option has been updated.\<close>

lemma view_upd:
  assumes "utable_ok opt" "uopt_ok oi" "0 \<le> len oi"
  shows "utable_ok (opt[unat t := oi])" "view (opt[unat (t :: byte) := oi]) = (view opt)(unat t \<mapsto> val oi)"
proof -
  have "unat t < 256" using unat_less [of t] by simp
  with assms show "utable_ok (opt[unat t := oi])" "view (opt[unat (t :: byte) := oi]) = (view opt)(unat t \<mapsto> val oi)"
    by (auto simp: utable_ok_def view_def nth_list_update fun_eq_iff)
qed

lemma realloc_append:
  assumes "heap_ok mem" and "dat = (if x = [] then None else Some (x @ [0]))" and "d \<noteq> []"
  shows "\<exists>b. realloc mem k dat (length x + length d + 1) = Some b \<and> length b = length x + length d + 1 \<and>
    take (length x) b = x"
proof -
  obtain b where b: "mem k (length x + length d + 1) = Some b" "length b = length x + length d + 1"
    using assms(1) unfolding heap_ok_def by blast
  have "length x < length x + length d" using assms(3) by simp
  with b assms(2) show ?thesis by (auto simp: realloc_def min_def Suc_le_eq)
qed

lemma append_nul:
  assumes "length b = length x + length d + 1" "take (length x) b = x"
  obtains b1 where "blit b (length x) d = Some b1" "wr b1 (length x + length d) 0 = Some (x @ d @ [0])"
proof -
  obtain z where "drop (length x + length d) b = [z]"
    using assms(1) by (cases "drop (length x + length d) b") (auto dest: arg_cong [of _ _ length])
  then have "blit b (length x) d = Some (x @ d @ [z])"
    "wr (x @ d @ [z]) (length x + length d) 0 = Some (x @ d @ [0])"
    using assms by (simp_all add: blit_def wr_def list_update_append)
  then show thesis by (rule that)
qed

lemma unpack_opt_view:
  assumes "heap_ok mem" and "utable_ok opt"
  shows "\<exists>opt' k'. unpack_opt mem k t d opt = Some (opt', k', True) \<and> utable_ok opt' \<and>
     view opt' = add_items [(t, d)] (view opt)"
proof -
  have t: "unat t < 256" using unat_less [of t] by simp
  let ?o = "opt ! unat t"
  define o1 where "o1 = (if len ?o < 0 then ?o\<lparr>len := 0\<rparr> else ?o)"
  define x where "x = val ?o"
  have o: "uopt_ok ?o" "rd opt (unat t) = Some ?o" using assms(2) t by (auto simp: utable_ok_def rd_def)
  have o1: "len o1 = int (length x) \<and> data o1 = (if x = [] then None else Some (x @ [0])) \<and> uopt_ok o1 \<and> val o1 = x"
    using o(1)
  proof (cases rule: uopt_ok_cases)
    case absent
    then show ?thesis by (simp add: o1_def x_def uopt_ok_def val_def)
  next
    case empty
    then have "o1 = ?o" by (simp add: o1_def)
    with empty o(1) show ?thesis by (simp add: x_def)
  next
    case bytes
    then have "o1 = ?o" by (simp add: o1_def)
    with bytes o(1) show ?thesis by (metis x_def)
  qed
  note o1 = conjunct1 [OF o1] conjunct1 [OF conjunct2 [OF o1]] conjunct1 [OF conjunct2 [OF conjunct2 [OF o1]]]
    conjunct2 [OF conjunct2 [OF conjunct2 [OF o1]]]
  have add: "add_items [(t, d)] (view opt) = (view opt)(unat t \<mapsto> x @ d)"
    using o(1) t by (cases rule: uopt_ok_cases) (auto simp: view_def x_def)
  show ?thesis
  proof (cases "d = []")
    case True
    then show ?thesis
      using o(2) o1 add view_upd [OF assms(2) o1(3), of t] by (simp add: unpack_opt_def Let_def o1_def [symmetric])
  next
    case False
    obtain b where b: "realloc mem k (data o1) (length x + length d + 1) = Some b"
      "length b = length x + length d + 1" "take (length x) b = x"
      using realloc_append [OF assms(1) o1(2) False] by blast
    let ?n = "\<lparr>data = Some (x @ d @ [0]), len = int (length x + length d)\<rparr>"
    have n: "uopt_ok ?n" "val ?n = x @ d" "0 \<le> len ?n"
      using False by (auto simp: uopt_ok_def val_def nat_add_distrib add_nonneg_pos intro: exI [of _ "x @ d"])
    obtain b1 where b1: "blit b (length x) d = Some b1" "wr b1 (length x + length d) 0 = Some (x @ d @ [0])"
      by (rule append_nul [OF b(2,3)])
    have nn: "nat (len o1) = length x" "nat (len o1 + int (length d)) = length x + length d"
      "len o1 + int (length d) = int (length x + length d)"
      using o1(1) by simp_all
    have "unpack_opt mem k t d opt = Some (opt[unat t := ?n], k + 1, True)"
      unfolding unpack_opt_def o(2) bind.bind_lunit Let_def o1_def [symmetric] nn b(1) option.case b1
      using False b1(2) by (simp add: nat_add_distrib)
    then show ?thesis using view_upd [OF assms(2) n(1,3), of t] n(2) add by simp
  qed
qed

lemma unpack_loop_items:
  assumes "heap_ok mem" "utable_ok opt" "\<forall>(t, d) \<in> set is. t \<noteq> 0 \<and> t \<noteq> 255 \<and> length d < 256"
    and "length (enc is) < n" "n \<le> length (enc is) + 1 + length R"
  shows "\<exists>opt' k'. unpack_loop mem k (P @ enc is @ 255 # R) (length P) n err opt = Some (err, opt', k') \<and>
     utable_ok opt' \<and> view opt' = add_items is (view opt)"
  using assms(2-)
proof (induction "is" arbitrary: P n opt k)
  case Nil
  then show ?case by (subst unpack_loop.simps) (auto simp: rd_def nth_append)
next
  case (Cons i "is")
  obtain t d where i: "i = (t, d)" by (cases i)
  have ok: "t \<noteq> 0" "t \<noteq> 255" "length d < 256" using Cons.prems(2) i by auto
  note hd = rd_item [of P t "of_nat (length d)" "d @ enc is @ 255 # R"]
  have s: "slice (P @ t # of_nat (length d) # d @ enc is @ 255 # R) (length P + 2) (length d) = Some d"
    by (simp add: slice_def)
  obtain opt1 k1 where o: "unpack_opt mem k t d opt = Some (opt1, k1, True)" "utable_ok opt1"
    "view opt1 = add_items [(t, d)] (view opt)"
    using unpack_opt_view [OF assms(1) Cons.prems(1)] by blast
  let ?P = "P @ t # of_nat (length d) # d"
  have "unpack_loop mem k (P @ enc (i # is) @ 255 # R) (length P) n err opt =
        unpack_loop mem k1 (?P @ enc is @ 255 # R) (length ?P) (n - 2 - length d) err opt1"
  proof -
    have "n > 1" "\<not> length d > n - 2" using Cons.prems(3) i by auto
    then show ?thesis using hd s ok o(1) by (subst unpack_loop.simps) (simp add: i unat_len)
  qed
  moreover have "\<exists>opt' k'. unpack_loop mem k1 (?P @ enc is @ 255 # R) (length ?P) (n - 2 - length d) err opt1 =
      Some (err, opt', k') \<and> utable_ok opt' \<and> view opt' = add_items is (view opt1)"
    using o(2) Cons.prems by (intro Cons.IH) (auto simp: i)
  ultimately show ?case using o(3) by (simp add: i)
qed

lemma add_items_append: "add_items (is @ js) v = add_items js (add_items is v)"
proof (induction "is" arbitrary: v)
  case (Cons i "is")
  then show ?case by (cases i) (simp add: fun_upd_def)
qed simp

lemma add_items_chunk:
  "add_items (chunk t d) v = v(unat t \<mapsto> (case v (unat t) of None \<Rightarrow> d | Some x \<Rightarrow> x @ d))"
proof (induction t d arbitrary: v rule: chunk.induct)
  case (1 t d)
  show ?case
  proof (cases "length d \<le> 255")
    case True
    then show ?thesis by (simp add: chunk.simps)
  next
    case False
    then show ?thesis using 1 by (subst chunk.simps) (auto simp: fun_eq_iff split: option.splits)
  qed
qed

lemma add_items_of:
  assumes "distinct (map fst os)" "\<forall>(i, d) \<in> set os. i < 256 \<and> v i = None"
  shows "add_items (items_of os) v = v ++ map_of os"
  using assms
proof (induction os arbitrary: v)
  case (Cons o1 os)
  obtain i d where o: "o1 = (i, d)" by (cases o1)
  have u: "unat (of_nat i :: byte) = i" using Cons.prems(2) o by (auto intro: unat_of_nat_id)
  have "add_items (items_of (o1 # os)) v = add_items (items_of os) (v(i \<mapsto> d))"
    using Cons.prems(2) by (simp add: o add_items_append add_items_chunk u)
  also have "\<dots> = v(i \<mapsto> d) ++ map_of os"
    using Cons.prems by (intro Cons.IH) (force simp: o)+
  also have "\<dots> = v ++ map_of (o1 # os)"
    using Cons.prems(1) by (simp add: o map_add_upd_left dom_map_of_conv_image_fst)
  finally show ?case .
qed simp

lemma greedy_subset: "set (greedy spc os) \<subseteq> set os"
  by (induction spc os rule: greedy.induct) auto

lemma distinct_greedy: "distinct (map fst os) \<Longrightarrow> distinct (map fst (greedy spc os))"
  using greedy_subset by (induction spc os rule: greedy.induct) fastforce+

lemma length_greedy_le: "length (greedy spc os) \<le> length os"
  by (induction spc os rule: greedy.induct) (auto intro: le_SucI)

lemma greedy_all: "length (greedy spc os) = length os \<Longrightarrow> greedy spc os = os"
proof (induction spc os rule: greedy.induct)
  case (2 spc i d os)
  then show ?case using length_greedy_le [of spc os] by (auto split: if_splits)
qed simp

lemma distinct_present: "distinct is \<Longrightarrow> distinct (map fst (present opt is))"
  by (simp add: present_def o_def)

lemma map_of_present:
  "map_of (present opt is) i = (if i \<in> set is \<and> len (opt ! i) \<ge> 0 then Some (val (opt ! i)) else None)"
  by (induction "is") (auto simp: present_def)

lemma chunk_items: "(t, d) \<in> set (chunk i e) \<Longrightarrow> t = i \<and> length d < 256"
proof (induction i e rule: chunk.induct)
  case (1 i e)
  then show ?case by (auto simp: chunk.simps [of i e] split: if_splits)
qed

lemma items_of_tags:
  assumes "\<forall>(i, d) \<in> set os. 0 < i \<and> i < 255"
  shows "\<forall>(t, d) \<in> set (items_of os). t \<noteq> 0 \<and> t \<noteq> 255 \<and> length d < 256"
proof -
  have "(of_nat i :: byte) \<noteq> 0 \<and> (of_nat i :: byte) \<noteq> 255" if "0 < i" "i < 255" for i
  proof -
    have "unat (of_nat i :: byte) = i" using that by (intro unat_of_nat_id) simp
    moreover have "unat (0 :: byte) = 0" "unat (255 :: byte) = 255" by simp_all
    ultimately show ?thesis using that by (metis less_irrefl)
  qed
  then show ?thesis using assms by (fastforce simp: items_of_def dest!: chunk_items)
qed


definition no_options :: "dhcp_option list" where
  "no_options = replicate 256 \<lparr>data = None, len = - 1\<rparr>"

lemma no_options_ok: "utable_ok no_options" "view no_options = Map.empty"
  by (auto simp: utable_ok_def uopt_ok_def no_options_def view_def)

lemma unpack_packed:
  assumes "heap_ok mem" and "length (field_bytes n opt) < m" and "m \<le> length (field_bytes n opt) + 1 + length R"
  shows "\<exists>opt' k. dhcp_unpack_field mem 0 (P @ field_bytes n opt @ 255 # R) (length P) m no_options = Some (0, opt', k) \<and>
     utable_ok opt' \<and> view opt' = map_of (packed n opt)"
proof -
  have s: "set (packed n opt) \<subseteq> set (present opt [1..<255])" "distinct (map fst (packed n opt))"
    unfolding packed_def by (rule greedy_subset, rule distinct_greedy, rule distinct_present, simp)
  then have i: "\<forall>(i, d) \<in> set (packed n opt). 0 < i \<and> i < 255" by (auto simp: present_def)
  have "add_items (items_of (packed n opt)) Map.empty = Map.empty ++ map_of (packed n opt)"
    using i by (intro add_items_of s(2)) auto
  moreover have "\<exists>opt' k. dhcp_unpack_field mem 0 (P @ field_bytes n opt @ 255 # R) (length P) m no_options =
      Some (0, opt', k) \<and> utable_ok opt' \<and> view opt' = add_items (items_of (packed n opt)) (view no_options)"
    unfolding dhcp_unpack_field_def field_bytes_def
    using assms by (intro unpack_loop_items no_options_ok(1) items_of_tags i) (simp_all add: field_bytes_def)
  ultimately show ?thesis by (simp add: no_options_ok(2))
qed

text \<open>C22. Unpacking undoes packing: when no option was left out, unpacking the active bytes of the
  field (or any part of the memory from there to the end of the padding) into an empty table
  gives back every option from 1 to 254 with its bytes, long options joined again.\<close>

theorem dhcp_unpack_pack:
  assumes "table_ok opt" and "0 < n" and "n < length f" and "heap_ok mem"
    and "dhcp_pack_field f n opt = Some (0, f', used)" and "used \<le> m" and "m \<le> n + 1"
  shows "\<exists>opt' k. dhcp_unpack_field mem 0 f' 0 m no_options = Some (0, opt', k) \<and> utable_ok opt' \<and>
    (\<forall>i. view opt' i = (if 0 < i \<and> i < 255 then view opt i else None))"
proof -
  let ?e = "field_bytes n opt"
  have f: "f' = ?e @ 255 # (replicate (n - length ?e) 0 @ drop (n + 1) f)" "used = length ?e + 1"
    "length (present opt [1..<255]) = length (packed n opt)"
    using dhcp_pack_field_zero_bytes [OF assms(1,2), of "take (n + 1) f" "[]" "drop (n + 1) f"] assms(3,5)
    by (auto simp: dhcp_pack_field_def)
  have "packed n opt = present opt [1..<255]"
    using f(3) greedy_all [of n "present opt [1..<255]"] by (simp add: packed_def)
  then have v: "map_of (packed n opt) i = (if 0 < i \<and> i < 255 then view opt i else None)" for i
    by (auto simp: map_of_present view_def)
  have "length ?e < m" "m \<le> length ?e + 1 + length (replicate (n - length ?e) 0 @ drop (n + 1) f)"
    using assms(6,7) f(2) length_field_bytes [OF assms(2), of opt] by auto
  from unpack_packed [OF assms(4) this, of "[]"] obtain opt' k where
    "dhcp_unpack_field mem 0 f' 0 m no_options = Some (0, opt', k)" "utable_ok opt'" "view opt' = map_of (packed n opt)"
    by (auto simp: f(1))
  with v show ?thesis by (intro exI [of _ opt'] exI [of _ k]) simp
qed

theorem dhcp_unpack_pack_witness:
  "\<exists>f' used opt' k. dhcp_pack_field (replicate 9 0) 8 (no_options[12 := \<lparr>data = Some [104, 105], len = 2\<rparr>]) = Some (0, f', used) \<and>
     dhcp_unpack_field (\<lambda>k n. Some (replicate n 0)) 0 f' 0 used no_options = Some (0, opt', k) \<and>
     view opt' 12 = Some [104, 105]"
proof -
  let ?opt = "no_options[12 := \<lparr>data = Some [104, 105], len = 2\<rparr>]"
  have ok: "table_ok ?opt"
    by (auto simp: table_ok_def no_options_def list_all_length nth_list_update opt_ok_def)
  have v: "view ?opt 12 = Some [104, 105]" by (simp add: view_def val_def no_options_def)
  have u: "[1..<255] = [1..<12] @ 12 # [13..<255 :: nat]"
    using upt_add_eq_append [of 1 12 243] upt_conv_Cons [of 12 255] by simp
  have "present ?opt xs = []" if "12 \<notin> set xs" "\<forall>i \<in> set xs. i < 256" for xs :: "nat list"
    using that by (auto simp: filter_empty_conv no_options_def nth_list_update present_def)
  then have "present ?opt [1..<12] = []" "present ?opt [13..<255] = []" by simp_all
  moreover have "present ?opt (xs @ ys) = present ?opt xs @ present ?opt ys" for xs ys by (simp add: present_def)
  moreover have "0 \<le> len (?opt ! 12)" "val (?opt ! 12) = [104, 105]" by (simp_all add: no_options_def val_def)
  ultimately have "present ?opt [1..<255] = [(12, [104, 105])]"
    unfolding u by (simp only: present_Cons if_True append_Nil append_Nil2)
  then have p: "present ?opt [1..<255] = packed 8 ?opt" "length (field_bytes 8 ?opt) = 4"
    by (simp_all add: packed_def field_bytes_def plength_def packed_len_def chunk.simps)
  have "dhcp_pack_field (replicate 9 0) 8 ?opt =
     Some (0, field_bytes 8 ?opt @ 255 # replicate 4 0, 5)"
    using dhcp_pack_field_zero_bytes [OF ok, of 8 "replicate 9 0" "[]" "[]"] p by (auto simp: dhcp_pack_field_def)
  moreover from dhcp_unpack_pack [OF ok _ _ _ this, of "\<lambda>k n. Some (replicate n 0)" 5] v
  obtain opt' k where "dhcp_unpack_field (\<lambda>k n. Some (replicate n 0)) 0 (field_bytes 8 ?opt @ 255 # replicate 4 0) 0 5 no_options = Some (0, opt', k)"
     "view opt' 12 = Some [104, 105]"
    by (auto simp: heap_ok_def)
  ultimately show ?thesis by blast
qed


subsection \<open>The fixed fields of a packet\<close>

lemma unpack_fixed_view:
  assumes "heap_ok mem" and "strnlen pkt off n = m" and "src + m \<le> length pkt" and "uopt_ok o1" "len o1 < 0"
  shows "\<exists>oi k'. unpack_fixed mem k pkt off n src o1 = Some (oi, k', 0) \<and> uopt_ok oi \<and>
     0 \<le> len oi \<and> val oi = take m (drop src pkt)"
proof (cases "m = 0")
  case True
  then show ?thesis using assms by (auto simp: unpack_fixed_def uopt_ok_def val_def)
next
  case False
  let ?d = "take m (drop src pkt)"
  obtain b where b: "mem k (m + 1) = Some b" "length b = m + 1"
    using assms(1) unfolding heap_ok_def by blast
  have l: "length ?d = m" using assms(3) by simp
  have "length b = length [] + length ?d + 1" "take (length []) b = []" using l b(2) by simp_all
  then obtain b1 where b1: "blit b (length ([] :: buf)) ?d = Some b1" "wr b1 (length ([] :: buf) + length ?d) 0 = Some ([] @ ?d @ [0])"
    by (rule append_nul)
  have "slice pkt src m = Some ?d" using assms(3) by (simp add: slice_def)
  with b(1) b1 l False assms(2) have "unpack_fixed mem k pkt off n src o1 = Some (\<lparr>data = Some (?d @ [0]), len = int m\<rparr>, k + 1, 0)"
    by (simp add: unpack_fixed_def Let_def)
  then show ?thesis using l False by (auto simp: uopt_ok_def val_def)
qed

text \<open>In a packet with no options, the server name (option 66) that \<open>dhcp_unpack_packet\<close> returns has
  the length of the name in the \<open>sname\<close> field but the bytes of the \<open>file\<close> field; the boot file
  (option 67) is read correctly.\<close>

theorem dhcp_unpack_packet_sname:
  assumes "heap_ok mem" and "length hdr = 44" and "length sname = 64" and "length file = 128"
    and "sname = s @ replicate (64 - length s) 0" and "0 \<notin> set s"
    and "file = b @ replicate (128 - length b) 0" and "0 \<notin> set b"
  shows "\<exists>opt'. dhcp_unpack_packet mem (hdr @ sname @ file @ vendor_magic @ [255, 0, 0, 0]) 244 opt = Some (0, opt') \<and>
     view opt' 66 = Some (take (length s) file) \<and> view opt' 67 = Some b"
proof -
  let ?pkt = "hdr @ sname @ file @ vendor_magic @ [255, 0, 0, 0]"
  have str: "length (takeWhile (\<lambda>c. c \<noteq> 0) (x @ replicate k 0)) = length x" if "(0::byte) \<notin> set x" for x k
  proof -
    have "takeWhile (\<lambda>c. c \<noteq> 0) (x @ replicate k 0) = x @ takeWhile (\<lambda>c. c \<noteq> (0::byte)) (replicate k 0)"
      using that by (intro takeWhile_append2) auto
    moreover have "takeWhile (\<lambda>c. c \<noteq> (0::byte)) (replicate k 0) = []" by (cases k) simp_all
    ultimately show ?thesis by (simp only: append_Nil2)
  qed
  have d: "take 64 (drop 44 ?pkt) = sname" "take 128 (drop 108 ?pkt) = file" using assms(2-4) by simp_all
  have n: "strnlen ?pkt 44 64 = length s" "strnlen ?pkt 108 128 = length b"
    unfolding strnlen_def d using assms(5-8) str by simp_all
  have le: "length s \<le> 64" "length b \<le> 128" using assms(3,5,4,7) by (metis le_add1 length_append)+
  have m: "slice ?pkt 236 4 = Some vendor_magic" using assms(2-4) by (simp add: slice_def vendor_magic_def)
  have f: "dhcp_unpack_field mem 0 ?pkt 240 (244 - 240) no_options = Some (0, no_options, 0)"
    using assms(2-4) by (simp add: dhcp_unpack_field_def unpack_loop.simps rd_def nth_append vendor_magic_def)
  define o0 where "o0 = \<lparr>data = None, len = - 1\<rparr>"
  have o0: "uopt_ok o0" "len o0 < 0" by (simp_all add: o0_def uopt_ok_def)
  obtain o67 k where o67: "unpack_fixed mem 0 ?pkt 108 128 108 o0 = Some (o67, k, 0)" "uopt_ok o67" "0 \<le> len o67"
     "val o67 = take (length b) (drop 108 ?pkt)"
    using unpack_fixed_view [OF assms(1) n(2) _ o0, of 108 0] le(2) assms(2-4) by auto
  obtain o66 k' where o66: "unpack_fixed mem k ?pkt 44 64 108 o0 = Some (o66, k', 0)" "uopt_ok o66" "0 \<le> len o66"
     "val o66 = take (length s) (drop 108 ?pkt)"
    using unpack_fixed_view [OF assms(1) n(1) _ o0, of 108 k] le(1) assms(2-4) by auto
  let ?opt = "no_options[67 := o67, 66 := o66]"
  have r: "rd no_options 52 = Some o0" "rd no_options 67 = Some o0" "rd (no_options[67 := o67]) 66 = Some o0"
    by (simp_all add: rd_def no_options_def o0_def nth_list_update)
  have "dhcp_unpack_packet mem ?pkt 244 opt = Some (0, ?opt)"
    unfolding dhcp_unpack_packet_def m bind.bind_lunit Let_def no_options_def [symmetric] f split r
    using o67(1) o66(1) by (simp add: o0_def [symmetric] r) (simp add: o0_def)
  moreover have "view ?opt 66 = Some (take (length s) file)" "view ?opt 67 = Some b"
    using o66 o67 le assms(2-4,7) by (simp_all add: view_def no_options_def nth_list_update)
  ultimately show ?thesis by blast
qed

theorem dhcp_unpack_packet_sname_witness:
  "\<exists>opt'. dhcp_unpack_packet (\<lambda>k n. Some (replicate n 0))
       (replicate 44 0 @ ([1, 2] @ replicate 62 0) @ ([3, 4, 5] @ replicate 125 0) @ vendor_magic @ [255, 0, 0, 0])
       244 no_options = Some (0, opt') \<and>
     view opt' 66 = Some [3, 4] \<and> view opt' 67 = Some [3, 4, 5]"
  using dhcp_unpack_packet_sname [of "\<lambda>k n. Some (replicate n 0)" "replicate 44 0" "[1, 2] @ replicate 62 0"
      "[3, 4, 5] @ replicate 125 0" "[1, 2]" "[3, 4, 5]" no_options]
  by (simp add: heap_ok_def)

end
