(* ===== verification/CStr.thy ===== *)
theory CStr
  imports Prelude
begin

section \<open>NUL-terminated strings in a buffer\<close>

text \<open>
  What the components use of the C string functions, on a buffer and an offset into it. Running
  past the end of the buffer is \<open>None\<close>; a pointer result that may be \<open>NULL\<close> is an option inside.
\<close>

definition cstr :: "buf \<Rightarrow> nat \<Rightarrow> buf" where
  "cstr b p = takeWhile (\<lambda>c. c \<noteq> 0) (drop p b)"

text \<open>A string starts at \<open>p\<close> when a NUL follows inside the buffer.\<close>

definition is_cstr :: "buf \<Rightarrow> nat \<Rightarrow> bool" where
  "is_cstr b p \<longleftrightarrow> 0 \<in> set (drop p b)"

definition strlen :: "buf \<Rightarrow> nat \<Rightarrow> nat option" where
  "strlen b p = (if is_cstr b p then Some (length (cstr b p)) else None)"

function strchr :: "buf \<Rightarrow> nat \<Rightarrow> byte \<Rightarrow> nat option option" where
  "strchr b p c =
     (if p < length b then
        (if b ! p = c then Some (Some p)
         else if b ! p = 0 then Some None
         else strchr b (p + 1) c)
      else None)"
  by auto
termination by (relation "measure (\<lambda>(b, p, _). length b - p)") auto

declare strchr.simps [simp del]

lemma strchr_found:
  assumes "c \<notin> set x" "0 \<notin> set x"
  shows "strchr (P @ x @ c # R) (length P) c = Some (Some (length P + length x))"
  using assms
proof (induction x arbitrary: P)
  case Nil
  then show ?case by (subst strchr.simps) simp
next
  case (Cons a x)
  then show ?case using Cons.IH [of "P @ [a]"] by (subst strchr.simps) auto
qed

lemma strchr_none:
  assumes "c \<notin> set x" "0 \<notin> set x" "c \<noteq> 0"
  shows "strchr (P @ x @ 0 # R) (length P) c = Some None"
  using assms
proof (induction x arbitrary: P)
  case Nil
  then show ?case by (subst strchr.simps) simp
next
  case (Cons a x)
  then show ?case using Cons.IH [of "P @ [a]"] by (subst strchr.simps) auto
qed

lemma cstr_at: "0 \<notin> set x \<Longrightarrow> cstr (P @ x @ 0 # R) (length P) = x"
proof -
  assume "0 \<notin> set x"
  then have "takeWhile (\<lambda>c. c \<noteq> 0) (x @ 0 # R) = x @ takeWhile (\<lambda>c. c \<noteq> 0) (0 # R)"
    by (intro takeWhile_append2) auto
  then show ?thesis by (simp add: cstr_def)
qed

lemma cstr_at': "0 \<notin> set x \<Longrightarrow> p = length P \<Longrightarrow> b = P @ x @ 0 # R \<Longrightarrow> cstr b p = x"
  using cstr_at by simp

end
