(* ===== verification/DhcpOption.thy ===== *)
theory DhcpOption
  imports Tlv CStr
begin

section \<open>The DHCP client of PXELINUX\<close>

text \<open>
  \<open>core/fs/pxe/dhcp_option.c\<close> walks the options of a DHCP reply and stores what it recognizes in
  global variables, which are the fields of one record here. The packet is a list of bytes; a
  handler gets the offset and length of the data of its option, as in the code, so that each
  read and each write into a global buffer is a bounded access.
\<close>

subsection \<open>State\<close>

record pxe =
  ipver :: u32
  myip :: u32
  serverip :: u32
  gateway :: u32
  netmask :: u32
  dns_server :: "u32 list"
  LocalDomain :: buf
  over_load :: byte
  MAC_len :: byte
  MAC_type :: byte
  MAC :: buf
  boot_file :: buf
  have_uuid :: bool
  uuid_type :: byte
  uuid :: buf
  DHCPMagic :: byte
  ConfigName :: buf
  path_prefix :: buf
  RebootTime :: u32

text \<open>The globals before the first packet: zero.\<close>

definition pxe0 :: pxe where
  "pxe0 = \<lparr>ipver = 0, myip = 0, serverip = 0, gateway = 0, netmask = 0, dns_server = replicate 4 0,
      LocalDomain = replicate 256 0, over_load = 0, MAC_len = 0, MAC_type = 0, MAC = replicate 32 0,
      boot_file = replicate 256 0, have_uuid = False, uuid_type = 0, uuid = replicate 16 0, DHCPMagic = 0,
      ConfigName = replicate 256 0, path_prefix = replicate 256 0, RebootTime = 0\<rparr>"

definition MAC_MAX :: nat where "MAC_MAX = 32"
definition DNS_MAX_SERVERS :: nat where "DNS_MAX_SERVERS = 4"

definition ip_ok :: "u32 \<Rightarrow> bool" where
  "ip_ok ip =
     (let ip_hi = (ucast ip :: byte) in
      \<not> (ip = 0xffffffff \<or> ip_hi = 0 \<or> ip_hi = 127 \<or> ip_hi AND 240 = 224))"

definition ntohl :: "u32 \<Rightarrow> u32" where
  "ntohl w = le32 (ucast (drop_bit 24 w)) (ucast (drop_bit 16 w)) (ucast (drop_bit 8 w)) (ucast w)"

subsection \<open>Handlers\<close>

text \<open>\<open>memcpy(dst, data, opt_len); dst[opt_len] = 0;\<close>\<close>

definition copy_string :: "buf \<Rightarrow> buf \<Rightarrow> nat \<Rightarrow> nat \<Rightarrow> buf option" where
  "copy_string dst b p opt_len = do {
     s \<leftarrow> slice b p opt_len;
     dst \<leftarrow> blit dst 0 s;
     wr dst opt_len 0 }"

definition subnet_mask :: "buf \<Rightarrow> nat \<Rightarrow> nat \<Rightarrow> pxe \<Rightarrow> pxe option" where
  "subnet_mask b p opt_len s =
     (if opt_len \<noteq> 4 then Some s else map_option (\<lambda>ip. s\<lparr>netmask := ip\<rparr>) (rd32 b p))"

definition router :: "buf \<Rightarrow> nat \<Rightarrow> nat \<Rightarrow> pxe \<Rightarrow> pxe option" where
  "router b p opt_len s =
     (if opt_len \<noteq> 4 then Some s else map_option (\<lambda>ip. s\<lparr>gateway := ip\<rparr>) (rd32 b p))"

fun dns_fill :: "nat \<Rightarrow> nat \<Rightarrow> u32 list \<Rightarrow> u32 list option" where
  "dns_fill 0 num d = Some d"
| "dns_fill (Suc k) num d = do { d \<leftarrow> wr d num 0; dns_fill k (num + 1) d }"

function dns_loop :: "buf \<Rightarrow> nat \<Rightarrow> nat \<Rightarrow> nat \<Rightarrow> u32 list \<Rightarrow> (nat \<times> u32 list) option" where
  "dns_loop b p opt_len num d =
     (if num < DNS_MAX_SERVERS then
        (if opt_len < 4 then Some (num, d)
         else (case rd32 b p of None \<Rightarrow> None
           | Some ip \<Rightarrow>
               (if ip_ok ip
                then (case wr d num ip of None \<Rightarrow> None
                      | Some d \<Rightarrow> dns_loop b (p + 4) (opt_len - 4) (num + 1) d)
                else dns_loop b (p + 4) (opt_len - 4) num d)))
      else Some (num, d))"
  by pat_completeness auto
termination by (relation "measure (\<lambda>(_, _, opt_len, _, _). opt_len)") auto

declare dns_loop.simps [simp del]

definition dns_servers :: "buf \<Rightarrow> nat \<Rightarrow> nat \<Rightarrow> pxe \<Rightarrow> pxe option" where
  "dns_servers b p opt_len s = do {
     (num, d) \<leftarrow> dns_loop b p opt_len 0 (dns_server s);
     d \<leftarrow> dns_fill (DNS_MAX_SERVERS - num) num d;
     Some (s\<lparr>dns_server := d\<rparr>) }"

definition local_domain :: "buf \<Rightarrow> nat \<Rightarrow> nat \<Rightarrow> pxe \<Rightarrow> pxe option" where
  "local_domain b p opt_len s =
     map_option (\<lambda>d. s\<lparr>LocalDomain := d\<rparr>) (copy_string (LocalDomain s) b p opt_len)"

definition option_overload :: "buf \<Rightarrow> nat \<Rightarrow> nat \<Rightarrow> pxe \<Rightarrow> pxe option" where
  "option_overload b p opt_len s =
     (if opt_len \<noteq> 1 then Some s else map_option (\<lambda>c. s\<lparr>over_load := c\<rparr>) (rd b p))"

definition server :: "buf \<Rightarrow> nat \<Rightarrow> nat \<Rightarrow> pxe \<Rightarrow> pxe option" where
  "server b p opt_len s =
     (if opt_len \<noteq> 4 then Some s
      else if serverip s \<noteq> 0 then Some s
      else map_option (\<lambda>ip. if ip_ok ip then s\<lparr>serverip := ip\<rparr> else s) (rd32 b p))"

definition client_identifier :: "buf \<Rightarrow> nat \<Rightarrow> nat \<Rightarrow> pxe \<Rightarrow> pxe option" where
  "client_identifier b p opt_len s =
     (if opt_len > MAC_MAX \<or> opt_len < 2 \<or> unat (MAC_len s) \<noteq> opt_len div 256 then Some s
      else do {
        ty \<leftarrow> rd b p;
        (if ty \<noteq> MAC_type s then Some s
         else map_option (\<lambda>m. s\<lparr>MAC_len := of_nat (opt_len - 1), MAC := m\<rparr>)
                (copy_string (MAC s) b (p + 1) (opt_len - 1))) })"

definition bootfile_name :: "buf \<Rightarrow> nat \<Rightarrow> nat \<Rightarrow> pxe \<Rightarrow> pxe option" where
  "bootfile_name b p opt_len s =
     map_option (\<lambda>d. s\<lparr>boot_file := d\<rparr>) (copy_string (boot_file s) b p opt_len)"

definition uuid_client_identifier :: "buf \<Rightarrow> nat \<Rightarrow> nat \<Rightarrow> pxe \<Rightarrow> pxe option" where
  "uuid_client_identifier b p opt_len s = do {
     ty \<leftarrow> rd b p;
     (if opt_len \<noteq> 17 \<or> ty \<noteq> 0 \<or> have_uuid s then Some s
      else do {
        d \<leftarrow> slice b (p + 1) 16;
        u \<leftarrow> blit (uuid s) 0 d;
        Some (s\<lparr>have_uuid := True, uuid_type := ty, uuid := u\<rparr>) }) }"

definition pxelinux_configfile :: "buf \<Rightarrow> nat \<Rightarrow> nat \<Rightarrow> pxe \<Rightarrow> pxe option" where
  "pxelinux_configfile b p opt_len s =
     map_option (\<lambda>d. s\<lparr>DHCPMagic := DHCPMagic s OR 2, ConfigName := d\<rparr>)
       (copy_string (ConfigName s) b p opt_len)"

definition pxelinux_pathprefix :: "buf \<Rightarrow> nat \<Rightarrow> nat \<Rightarrow> pxe \<Rightarrow> pxe option" where
  "pxelinux_pathprefix b p opt_len s =
     map_option (\<lambda>d. s\<lparr>DHCPMagic := DHCPMagic s OR 4, path_prefix := d\<rparr>)
       (copy_string (path_prefix s) b p opt_len)"

definition pxelinux_reboottime :: "buf \<Rightarrow> nat \<Rightarrow> nat \<Rightarrow> pxe \<Rightarrow> pxe option" where
  "pxelinux_reboottime b p opt_len s =
     (if opt_len \<noteq> 4 then Some s
      else map_option (\<lambda>t. s\<lparr>RebootTime := ntohl t, DHCPMagic := DHCPMagic s OR 8\<rparr>) (rd32 b p))"

text \<open>The table \<open>dhcp_opts\<close>, but for the entry of option 43, which calls the parser again.\<close>

definition dhcp_opts :: "(nat \<times> (buf \<Rightarrow> nat \<Rightarrow> nat \<Rightarrow> pxe \<Rightarrow> pxe option)) list" where
  "dhcp_opts =
     [(1, subnet_mask), (3, router), (6, dns_servers), (15, local_domain), (52, option_overload),
      (54, server), (61, client_identifier), (67, bootfile_name), (97, uuid_client_identifier),
      (209, pxelinux_configfile), (210, pxelinux_pathprefix), (211, pxelinux_reboottime)]"

definition opt_fun :: "nat \<Rightarrow> buf \<Rightarrow> nat \<Rightarrow> nat \<Rightarrow> pxe \<Rightarrow> pxe option" where
  "opt_fun num b p l s = (case map_of dhcp_opts num of None \<Rightarrow> Some s | Some f \<Rightarrow> f b p l s)"

subsection \<open>The parser\<close>

text \<open>\<open>size\<close> is a signed \<open>int\<close>; \<open>vendor_encaps\<close> recognizes the PXELINUX options (208 and up) only.\<close>

function parse_dhcp_options :: "buf \<Rightarrow> nat \<Rightarrow> int \<Rightarrow> nat \<Rightarrow> pxe \<Rightarrow> pxe option" where
  "parse_dhcp_options b p sz opt_filter s =
     (if sz \<ge> 2 then
        (case rd b p of None \<Rightarrow> None
         | Some opt_num \<Rightarrow>
             (if opt_num = 0 then parse_dhcp_options b (p + 1) (sz - 1) opt_filter s
              else if opt_num = 0xff then Some s
              else (case rd b (p + 1) of None \<Rightarrow> None
                | Some l \<Rightarrow>
                    (let opt_len = unat l; sz' = sz - 1 - (int opt_len + 1) in
                     if sz' < 0 then Some s
                     else (case
                         (if unat opt_num \<ge> opt_filter then
                            (if opt_num = 43
                             then parse_dhcp_options b (p + 2) (int opt_len) 208 s
                             else opt_fun (unat opt_num) b (p + 2) opt_len s)
                          else Some s)
                       of None \<Rightarrow> None
                        | Some s \<Rightarrow> parse_dhcp_options b (p + 2 + opt_len) sz' opt_filter s)))))
      else Some s)"
  by pat_completeness auto
termination
proof (relation "measure (\<lambda>(_, _, sz, _, _). nat sz)")
qed (auto simp: uint_nat simp del: of_nat_unat)

declare parse_dhcp_options.simps [simp del]

definition option_magic :: u32 where
  "option_magic = ntohl 0x63825363"

text \<open>\<open>strcpy(boot_file, dhcp->bootfile)\<close> copies up to the first NUL of the packet from there on.\<close>

definition strcpy :: "buf \<Rightarrow> buf \<Rightarrow> nat \<Rightarrow> buf option" where
  "strcpy dst b p = (if is_cstr b p then blit dst 0 (cstr b p @ [0]) else None)"

definition parse_dhcp :: "buf \<Rightarrow> pxe \<Rightarrow> pxe option" where
  "parse_dhcp pkt s = do {
     let s = s\<lparr>ipver := 4, over_load := 0\<rparr>;
     yip \<leftarrow> rd32 pkt 16;
     let s = (if ip_ok yip then s\<lparr>myip := yip\<rparr> else s);
     sip \<leftarrow> rd32 pkt 20;
     let s = (if ip_ok sip then s\<lparr>serverip := sip\<rparr> else s);
     let opt_len = int (length pkt) - 240;
     s \<leftarrow> (if opt_len \<noteq> 0
          then do { m \<leftarrow> rd32 pkt 236;
                    (if m = option_magic then parse_dhcp_options pkt 240 opt_len 0 s else Some s) }
          else Some s);
     s \<leftarrow> (if over_load s AND 1 \<noteq> 0 then parse_dhcp_options pkt 108 128 0 s
          else do { c \<leftarrow> rd pkt 108;
                    (if c \<noteq> 0 then map_option (\<lambda>d. s\<lparr>boot_file := d\<rparr>) (strcpy (boot_file s) pkt 108)
                     else Some s) });
     (if over_load s AND 2 \<noteq> 0 then parse_dhcp_options pkt 44 64 0 s else Some s) }"


subsection \<open>Reads and writes stay in bounds\<close>

definition pxe_ok :: "pxe \<Rightarrow> bool" where
  "pxe_ok s \<longleftrightarrow> length (dns_server s) = DNS_MAX_SERVERS \<and> length (LocalDomain s) = 256 \<and>
     length (MAC s) = MAC_MAX \<and> length (boot_file s) = 256 \<and> length (uuid s) = 16 \<and>
     length (ConfigName s) \<ge> 256 \<and> length (path_prefix s) = 256"

lemma copy_string_bytes:
  assumes "l < length dst" "p + l \<le> length b"
  shows "copy_string dst b p l = Some (take l (drop p b) @ 0 # drop (l + 1) dst)"
proof -
  have "drop l dst = dst ! l # drop (Suc l) dst" using assms(1) by (simp add: drop_nth_Cons)
  then show ?thesis using assms
    by (simp add: copy_string_def slice_def blit_def wr_def list_update_append)
qed

lemma rd32_Some: "p + 4 \<le> length b \<Longrightarrow> \<exists>w. rd32 b p = Some w"
  by (simp add: rd32_def rd_def)

text \<open>The name servers: the valid addresses, at most four, the rest zero.\<close>

fun words :: "buf \<Rightarrow> u32 list" where
  "words (b0 # b1 # b2 # b3 # r) = le32 b0 b1 b2 b3 # words r"
| "words _ = []"

lemma dns_fill_zeros:
  "num + k \<le> length d \<Longrightarrow> dns_fill k num d = Some (take num d @ replicate k 0 @ drop (num + k) d)"
proof (induction k arbitrary: num d)
  case (Suc k)
  then have n: "num < length d" by simp
  have t: "take (Suc num) (d[num := 0]) = take num d @ [0]" "drop (Suc (num + k)) (d[num := 0]) = drop (Suc (num + k)) d"
    using n by (simp_all add: take_Suc_conv_app_nth)
  have "wr d num 0 = Some (d[num := 0])" using n by (simp add: wr_def)
  then show ?case using Suc.IH [of "Suc num" "d[num := 0]"] Suc.prems t
    by (simp add: replicate_append_same [symmetric])
qed simp

lemma dns_loop_words:
  assumes "length dn = DNS_MAX_SERVERS" "num \<le> DNS_MAX_SERVERS"
  shows "dns_loop (P @ d @ R) (length P) (length d) num dn =
    (let sel = take (DNS_MAX_SERVERS - num) (filter ip_ok (words d)) in
     Some (num + length sel, take num dn @ sel @ drop (num + length sel) dn))"
  using assms
proof (induction d arbitrary: P num dn rule: words.induct)
  case (1 b0 b1 b2 b3 r)
  let ?w = "le32 b0 b1 b2 b3"
  let ?P = "P @ [b0, b1, b2, b3]"
  have w: "rd32 (P @ (b0 # b1 # b2 # b3 # r) @ R) (length P) = Some ?w"
    by (simp add: rd32_def rd_def nth_append)
  show ?case
  proof (cases "num < DNS_MAX_SERVERS")
    case False
    then show ?thesis using "1.prems" by (subst dns_loop.simps) simp
  next
    case True
    show ?thesis
    proof (cases "ip_ok ?w")
      case False
      have "dns_loop (P @ (b0 # b1 # b2 # b3 # r) @ R) (length P) (length (b0 # b1 # b2 # b3 # r)) num dn =
          dns_loop (?P @ r @ R) (length ?P) (length r) num dn"
        using True False w by (subst dns_loop.simps) (simp add: eval_nat_numeral)
      then show ?thesis using "1.IH" [of dn num ?P] "1.prems" False by simp
    next
      case ok: True
      have "dns_loop (P @ (b0 # b1 # b2 # b3 # r) @ R) (length P) (length (b0 # b1 # b2 # b3 # r)) num dn =
          dns_loop (?P @ r @ R) (length ?P) (length r) (Suc num) (dn[num := ?w])"
        using True ok w "1.prems" by (subst dns_loop.simps) (simp add: wr_def eval_nat_numeral)
      moreover have "take (Suc num) (dn[num := ?w]) = take num dn @ [?w]"
        using True "1.prems" by (simp add: take_Suc_conv_app_nth)
      moreover have "DNS_MAX_SERVERS - num = Suc (DNS_MAX_SERVERS - Suc num)" using True by simp
      ultimately show ?thesis
        using "1.IH" [of "dn[num := ?w]" "Suc num" ?P] "1.prems" True ok by (simp add: Let_def)
    qed
  qed
qed (use assms in \<open>auto simp: dns_loop.simps Let_def\<close>)

lemma dns_servers_words:
  assumes "pxe_ok s"
  shows "dns_servers (P @ d @ R) (length P) (length d) s =
     Some (s\<lparr>dns_server := take DNS_MAX_SERVERS (filter ip_ok (words d) @ replicate DNS_MAX_SERVERS 0)\<rparr>)"
proof -
  let ?sel = "take DNS_MAX_SERVERS (filter ip_ok (words d))"
  have l: "length (dns_server s) = DNS_MAX_SERVERS" using assms by (simp add: pxe_ok_def)
  have "dns_loop (P @ d @ R) (length P) (length d) 0 (dns_server s) =
      Some (length ?sel, ?sel @ drop (length ?sel) (dns_server s))"
    using dns_loop_words [OF l, of 0 P d R] by (simp add: Let_def)
  moreover have "length ?sel \<le> DNS_MAX_SERVERS" by simp
  then have "dns_fill (DNS_MAX_SERVERS - length ?sel) (length ?sel) (?sel @ drop (length ?sel) (dns_server s)) =
      Some (?sel @ replicate (DNS_MAX_SERVERS - length ?sel) 0)"
    using l by (subst dns_fill_zeros) (auto simp: min_def)
  moreover have "take DNS_MAX_SERVERS (filter ip_ok (words d) @ replicate DNS_MAX_SERVERS 0) =
      ?sel @ replicate (DNS_MAX_SERVERS - length ?sel) 0"
    by (simp add: min_def)
  ultimately show ?thesis by (simp add: dns_servers_def)
qed


lemma opt_fun_safe:
  assumes "pxe_ok s" "l \<le> 255" "p + l \<le> length b" and byte: "num = 97 \<Longrightarrow> p < length b"
  shows "\<exists>s'. opt_fun num b p l s = Some s' \<and> pxe_ok s'"
proof -
  define d where "d = take l (drop p b)"
  have d: "length d = l" "b = take p b @ d @ drop (p + l) b" "length (take p b) = p"
    using assms(3) by (simp_all add: d_def) (metis append_take_drop_id drop_drop add.commute)
  define c where "c dst = d @ 0 # drop (l + 1) dst" for dst :: buf
  have cs: "copy_string dst b p l = Some (c dst)" "length (c dst) = length dst" if "256 \<le> length dst" for dst
    using copy_string_bytes [of l dst p b] assms that d(1) by (simp_all add: d_def c_def)
  have mac: "copy_string (MAC s) b (p + 1) (l - 1) = Some (take (l - 1) (drop (p + 1) b) @ 0 # drop (l - 1 + 1) (MAC s))"
    if "l \<le> MAC_MAX" "2 \<le> l"
    using that assms by (intro copy_string_bytes) (auto simp: pxe_ok_def)
  have "l = 4 \<Longrightarrow> \<exists>w. rd32 b p = Some w" using rd32_Some [of p b] assms(3) by simp
  then obtain w where w: "l = 4 \<longrightarrow> rd32 b p = Some w" by blast
  have dns: "\<exists>s'. dns_servers b p l s = Some s' \<and> pxe_ok s'"
    using dns_servers_words [OF assms(1), of "take p b" d "drop (p + l) b"] d assms(1)
    by (simp add: pxe_ok_def)
  have rdp: "rd b p = Some (b ! p)" if "p < length b" using that by (simp add: rd_def)
  have u: "\<exists>s'. uuid_client_identifier b p l s = Some s' \<and> pxe_ok s'" if "num = 97"
    using rdp [OF byte [OF that]] assms by (auto simp: uuid_client_identifier_def pxe_ok_def slice_def blit_def)
  have cl: "\<exists>s'. client_identifier b p l s = Some s' \<and> pxe_ok s'"
  proof (cases "l > MAC_MAX \<or> l < 2 \<or> unat (MAC_len s) \<noteq> l div 256 \<or> b ! p \<noteq> MAC_type s")
    case True
    then show ?thesis using rdp assms(1,3) by (auto simp: client_identifier_def)
  next
    case False
    then show ?thesis using rdp mac assms by (auto simp: client_identifier_def pxe_ok_def MAC_MAX_def min_def)
  qed
  have ov: "\<exists>s'. option_overload b p l s = Some s' \<and> pxe_ok s'" using rdp assms by (auto simp: option_overload_def pxe_ok_def)
  have "\<exists>s'. f b p l s = Some s' \<and> pxe_ok s'" if "(num, f) \<in> set dhcp_opts" for f
    using that assms(1) cs w ov dns u cl unfolding dhcp_opts_def
    by (auto simp: subnet_mask_def router_def local_domain_def server_def bootfile_name_def
        pxelinux_configfile_def pxelinux_pathprefix_def pxelinux_reboottime_def pxe_ok_def d(1))
  then show ?thesis using assms(1) map_of_SomeD [of dhcp_opts num] by (auto simp: opt_fun_def split: option.splits)
qed

text \<open>One option of the field.\<close>

definition handle :: "buf \<Rightarrow> nat \<Rightarrow> nat \<Rightarrow> byte \<Rightarrow> nat \<Rightarrow> pxe \<Rightarrow> pxe option" where
  "handle b p l c f s =
     (if unat c \<ge> f then (if c = 43 then parse_dhcp_options b p (int l) 208 s else opt_fun (unat c) b p l s)
      else Some s)"

lemma parse_step:
  assumes "sz \<ge> 2" "rd b p = Some c" "c \<noteq> 0" "c \<noteq> 0xff" "rd b (p + 1) = Some l"
    and "\<not> sz - 1 - (int (unat l) + 1) < 0"
  shows "parse_dhcp_options b p sz f s =
    (case handle b (p + 2) (unat l) c f s of None \<Rightarrow> None
     | Some s \<Rightarrow> parse_dhcp_options b (p + 2 + unat l) (sz - 1 - (int (unat l) + 1)) f s)"
  unfolding parse_dhcp_options.simps [of b p] handle_def using assms
  by (simp only: option.case if_True if_False Let_def)

text \<open>The one read behind the field: a client identifier (option 97) without data as the last two bytes of the buffer.\<close>

definition ends_in_empty_uuid :: "buf \<Rightarrow> nat \<Rightarrow> int \<Rightarrow> nat \<Rightarrow> bool" where
  "ends_in_empty_uuid b p sz f \<longleftrightarrow> f \<le> 97 \<and> p + nat sz = length b \<and> (\<exists>d. b = d @ [97, 0])"

lemma parse_dhcp_options_safe_aux:
  assumes "pxe_ok s" "p + nat sz \<le> length b" "\<not> ends_in_empty_uuid b p sz f"
  shows "\<exists>s'. parse_dhcp_options b p sz f s = Some s' \<and> pxe_ok s'"
  using assms
proof (induction b p sz f s rule: parse_dhcp_options.induct)
  case (1 b p sz f s)
  show ?case
  proof (cases "sz \<ge> 2")
    case False
    then show ?thesis using "1.prems" by (subst parse_dhcp_options.simps) simp
  next
    case True
    then have r: "rd b p = Some (b ! p)" "rd b (p + 1) = Some (b ! (p + 1))"
      using "1.prems"(2) by (auto simp: rd_def)
    let ?l = "unat (b ! (p + 1))"
    let ?sz = "sz - 1 - (int ?l + 1)"
    consider "b ! p = 0" | "b ! p = 0xff" | "b ! p \<noteq> 0" "b ! p \<noteq> 0xff" "?sz < 0"
      | "b ! p \<noteq> 0" "b ! p \<noteq> 0xff" "\<not> ?sz < 0" by blast
    then show ?thesis
    proof cases
      case 4
      have l: "?l \<le> 255" using unat_less [of "b ! (p + 1)"] by simp
      have eq: "p + 2 + ?l + nat ?sz = p + nat sz" using 4 True by linarith
      then have room: "p + 2 + ?l + nat ?sz \<le> length b" using "1.prems"(2) by simp
      have "\<exists>s'. handle b (p + 2) ?l (b ! p) f s = Some s' \<and> pxe_ok s'"
      proof (cases "unat (b ! p) \<ge> f \<and> b ! p = 43")
        case T: True
        have "p + 2 + nat (int ?l) \<le> length b" "\<not> ends_in_empty_uuid b (p + 2) (int ?l) 208" using room by (auto simp: ends_in_empty_uuid_def)
        then show ?thesis
          using "1.IH"(2) [OF True r(1) 4(1,2) r(2) refl refl 4(3)] T "1.prems"(1) by (auto simp: handle_def)
      next
        case False
        have byte: "p + 2 < length b" if c: "unat (b ! p) = 97" "f \<le> 97"
        proof (rule ccontr)
          assume "\<not> p + 2 < length b"
          then have e: "length b = p + 2" "?l = 0" "nat ?sz = 0" using room by auto
          then have "b = take p b @ [b ! p, b ! (p + 1)]" by (metis Cons_nth_drop_Suc add_2_eq_Suc' append_take_drop_id drop_all lessI less_SucI order_refl Suc_eq_plus1)
          moreover have "b ! p = word_of_nat 97" unfolding c(1) [symmetric] by simp
          then have "b ! p = 97" by simp
          moreover have "b ! (p + 1) = 0" using e(2) by (simp add: unat_eq_0)
          ultimately have "b = take p b @ [97, 0]" by metis
          then show False using "1.prems"(3) c(2) eq e unfolding ends_in_empty_uuid_def by auto
        qed
        have "p + 2 + ?l \<le> length b" using room by simp
        then show ?thesis using opt_fun_safe [OF "1.prems"(1) l, of "p + 2" b "unat (b ! p)"] byte False "1.prems"(1) by (auto simp: handle_def)
      qed
      then obtain s' where s': "handle b (p + 2) ?l (b ! p) f s = Some s'" "pxe_ok s'" by blast
      have ne: "\<not> ends_in_empty_uuid b (p + 2 + ?l) ?sz f" using "1.prems"(3) eq by (simp add: ends_in_empty_uuid_def)
      have "\<exists>s''. parse_dhcp_options b (p + 2 + ?l) ?sz f s' = Some s'' \<and> pxe_ok s''"
        using "1.IH"(3) [OF True r(1) 4(1,2) r(2) refl refl 4(3) s'(1) [unfolded handle_def] s'(2) room ne] .
      then show ?thesis using parse_step [OF True r(1) 4(1,2) r(2) 4(3), of f s] s'(1) by simp
    next
      case 1
      have e: "p + 1 + nat (sz - 1) = p + nat sz" using True by linarith
      then have "p + 1 + nat (sz - 1) \<le> length b" "\<not> ends_in_empty_uuid b (p + 1) (sz - 1) f"
        using "1.prems"(2,3) by (simp_all add: ends_in_empty_uuid_def)
      then show ?thesis
        using "1.IH"(1) [OF True r(1) 1 "1.prems"(1)] True r 1
        by (subst parse_dhcp_options.simps) simp
    qed (use True r "1.prems"(1) in \<open>subst parse_dhcp_options.simps, simp add: Let_def\<close>)+
  qed
qed

lemma opt_fun_uuid_overrun: "p = length b \<Longrightarrow> opt_fun 97 b p l s = None"
  by (simp add: opt_fun_def dhcp_opts_def uuid_client_identifier_def rd_def)

text \<open>C5. Whatever the options of a field are, \<open>parse_dhcp_options\<close> terminates, reads only bytes of the field and writes only inside the
  buffers it fills, with one exception: when the field ends at the end of the buffer, as in the main call of \<open>parse_dhcp\<close>, and its
  last option is a client identifier (97) without data, the byte behind the buffer is read.\<close>

theorem parse_dhcp_options_safe:
  assumes "pxe_ok s" and "p + nat sz \<le> length b"
  shows "(\<exists>s'. parse_dhcp_options b p sz f s = Some s' \<and> pxe_ok s') \<or> ends_in_empty_uuid b p sz f"
  using parse_dhcp_options_safe_aux [OF assms] by blast

lemma pxe0_ok: "pxe_ok pxe0"
  by (simp add: pxe_ok_def pxe0_def DNS_MAX_SERVERS_def MAC_MAX_def)

theorem parse_dhcp_options_safe_witness:
  "(\<exists>s'. parse_dhcp_options [1, 4, 255, 255, 255, 0, 255] 0 7 0 pxe0 = Some s' \<and> pxe_ok s') \<and>
   parse_dhcp_options [97, 0] 0 2 0 pxe0 = None \<and> ends_in_empty_uuid [97, 0] 0 2 0"
proof -
  have "\<not> ends_in_empty_uuid [1, 4, 255, 255, 255, 0, 255] 0 7 0" by (auto simp: ends_in_empty_uuid_def append_eq_Cons_conv)
  moreover have none: "parse_dhcp_options [97, 0] 0 2 0 pxe0 = None"
    by (subst parse_dhcp_options.simps) (simp add: rd_def opt_fun_uuid_overrun)
  ultimately show ?thesis
    using parse_dhcp_options_safe [OF pxe0_ok, of 0 7 "[1, 4, 255, 255, 255, 0, 255]" 0] parse_dhcp_options_safe [OF pxe0_ok, of 0 2 "[97, 0]" 0] by simp
qed

subsection \<open>Parsing is applying the handlers in order\<close>

text \<open>A handler sees nothing but the data of its option (and, for a zero-length option 97, a byte
  that does not matter).\<close>

lemma slice_mid: "i + l \<le> length d \<Longrightarrow> slice (P @ d @ R) (length P + i) l = slice (d @ R') i l"
  by (simp add: slice_def)

lemma rd_mid: "i < length d \<Longrightarrow> rd (P @ d @ R) (length P + i) = rd (d @ R') i"
  by (simp add: rd_def nth_append)

lemma rd32_in_mid: "i + 4 \<le> length d \<Longrightarrow> rd32 (P @ d @ R) (length P + i) = rd32 (d @ R') i"
  by (simp add: rd32_def rd_def nth_append)

lemma copy_string_mid:
  "i + l \<le> length d \<Longrightarrow> copy_string dst (P @ d @ R) (length P + i) l = copy_string dst (d @ R') i l"
  unfolding copy_string_def by (simp only: slice_mid [where R' = R'])

lemma dns_loop_mid:
  "i + l \<le> length d \<Longrightarrow> dns_loop (P @ d @ R) (length P + i) l num dn = dns_loop (d @ R') i l num dn"
proof (induction l arbitrary: i num dn rule: less_induct)
  case (less l)
  show ?case
  proof (cases "num < DNS_MAX_SERVERS \<and> 4 \<le> l")
    case False
    then show ?thesis by (subst (1 2) dns_loop.simps) auto
  next
    case True
    then have "rd32 (P @ d @ R) (length P + i) = rd32 (d @ R') i"
      using less.prems by (intro rd32_in_mid) simp
    moreover have "dns_loop (P @ d @ R) (length P + i + 4) (l - 4) num dn = dns_loop (d @ R') (i + 4) (l - 4) num dn" for num dn
      using less.IH [of "l - 4" "i + 4" num dn] True less.prems by (simp add: add.assoc)
    ultimately show ?thesis by (subst (1 2) dns_loop.simps) (simp split: option.split)
  qed
qed

lemma opt_fun_mid:
  assumes "i + l \<le> length d" "R \<noteq> []"
  shows "opt_fun num (P @ d @ R) (length P + i) l s = opt_fun num (d @ [0]) i l s"
proof -
  note c = copy_string_mid [OF assms(1), where R' = "[0]" and P = P and R = R]
  have r4: "l = 4 \<Longrightarrow> rd32 (P @ d @ R) (length P + i) = rd32 (d @ [0]) i"
    using assms(1) by (intro rd32_in_mid) simp
  have r1: "0 < l \<Longrightarrow> rd (P @ d @ R) (length P + i) = rd (d @ [0]) i"
    using assms(1) by (intro rd_mid) simp
  have u: "uuid_client_identifier (P @ d @ R) (length P + i) l s = uuid_client_identifier (d @ [0]) i l s"
  proof (cases "l = 0")
    case True
    have "length P + i < length (P @ d @ R)" "i < length (d @ [0])" using assms by (auto simp: True neq_Nil_conv)
    then show ?thesis using True by (simp add: uuid_client_identifier_def rd_def)
  next
    case False
    have "l = 17 \<Longrightarrow> slice (P @ d @ R) (length P + (i + 1)) 16 = slice (d @ [0]) (i + 1) 16"
      using assms(1) by (intro slice_mid) simp
    then show ?thesis using False r1
      by (cases "l = 17") (simp_all add: uuid_client_identifier_def cong: if_cong)
  qed
  have cl: "client_identifier (P @ d @ R) (length P + i) l s = client_identifier (d @ [0]) i l s"
  proof (cases "l < 2")
    case False
    have "copy_string dst (P @ d @ R) (length P + (i + 1)) (l - 1) = copy_string dst (d @ [0]) (i + 1) (l - 1)" for dst
      using assms(1) False by (intro copy_string_mid) simp
    then show ?thesis using r1 False by (simp add: client_identifier_def cong: if_cong)
  qed (simp add: client_identifier_def)
  have "f (P @ d @ R) (length P + i) l s = f (d @ [0]) i l s" if "f \<in> snd ` set dhcp_opts" for f
    using that c r4 r1 u cl dns_loop_mid [OF assms(1), of P R 0 _ "[0]"] unfolding dhcp_opts_def
    by (auto simp: subnet_mask_def router_def local_domain_def option_overload_def server_def bootfile_name_def
        pxelinux_configfile_def pxelinux_pathprefix_def pxelinux_reboottime_def dns_servers_def)
  moreover have "f \<in> snd ` set dhcp_opts" if "map_of dhcp_opts num = Some f" for f
    using map_of_SomeD [OF that] by force
  ultimately show ?thesis by (auto simp: opt_fun_def split: option.splits)
qed


lemma parse_mid:
  assumes "i + nat sz \<le> length d" "R \<noteq> []"
  shows "parse_dhcp_options (P @ d @ R) (length P + i) sz f s = parse_dhcp_options (d @ [0]) i sz f s"
  using assms(1)
proof (induction "d @ [0 :: byte]" i sz f s rule: parse_dhcp_options.induct)
  case (1 i sz f s)
  let ?b = "P @ d @ R" and ?d = "d @ [0]"
  show ?case
  proof (cases "sz \<ge> 2")
    case False
    then show ?thesis by (subst (1 2) parse_dhcp_options.simps) simp
  next
    case True
    have i: "i < length d" "i + 1 < length d" using "1.prems" True by auto
    define c l where "c = ?d ! i" and "l = ?d ! (i + 1)"
    have r: "rd ?d i = Some c" "rd ?d (i + 1) = Some l"
      "rd ?b (length P + i) = Some c" "rd ?b (length P + i + 1) = Some l"
      using i by (simp_all add: rd_def nth_append c_def l_def)
    let ?sz = "sz - 1 - (int (unat l) + 1)"
    consider "c = 0" | "c = 0xff" | "c \<noteq> 0" "c \<noteq> 0xff" "?sz < 0" | "c \<noteq> 0" "c \<noteq> 0xff" "\<not> ?sz < 0" by blast
    then show ?thesis
    proof cases
      case 4
      have room: "i + 2 + unat l + nat ?sz \<le> length d" using "1.prems" 4 True by linarith
      have h: "handle ?b (length P + (i + 2)) (unat l) c f s = handle ?d (i + 2) (unat l) c f s"
      proof (cases "unat c \<ge> f \<and> c = 43")
        case T: True
        have "i + 2 + nat (int (unat l)) \<le> length d" using room by simp
        then show ?thesis
          using "1.hyps"(2) [OF True r(1) 4(1,2) r(2) refl refl 4(3)] T by (auto simp: handle_def)
      next
        case False
        have "i + 2 + unat l \<le> length d" using room by simp
        from opt_fun_mid [OF this assms(2)] False show ?thesis by (auto simp: handle_def)
      qed
      have "parse_dhcp_options ?b (length P + (i + 2 + unat l)) ?sz f s' = parse_dhcp_options ?d (i + 2 + unat l) ?sz f s'"
        if "handle ?d (i + 2) (unat l) c f s = Some s'" for s'
        using "1.hyps"(3) [OF True r(1) 4(1,2) r(2) refl refl 4(3) that [unfolded handle_def] room] .
      then show ?thesis
        using parse_step [OF True r(1) 4(1,2) r(2) 4(3), of f s] parse_step [OF True r(3) 4(1,2) r(4) 4(3), of f s] h
        by (simp add: add.assoc split: option.split)
    next
      case 1
      have "i + 1 + nat (sz - 1) \<le> length d" using "1.prems" True by linarith
      then show ?thesis using "1.hyps"(1) [OF True r(1) 1] True r 1
        by (subst (1 2) parse_dhcp_options.simps) simp
    qed (use True r in \<open>subst (1 2) parse_dhcp_options.simps, simp add: Let_def\<close>)+
  qed
qed

text \<open>What one item does to the state, independently of where it lies in the packet.\<close>

definition apply_item :: "nat \<Rightarrow> item \<Rightarrow> pxe \<Rightarrow> pxe option" where
  "apply_item f = (\<lambda>(t, d) s. handle (d @ [0]) 0 (length d) t f s)"

fun apply_items :: "nat \<Rightarrow> item list \<Rightarrow> pxe \<Rightarrow> pxe option" where
  "apply_items f [] s = Some s"
| "apply_items f (i # is) s = Option.bind (apply_item f i s) (apply_items f is)"

lemma parse_items_aux:
  assumes "\<forall>(t, d) \<in> set is. t \<noteq> 0 \<and> t \<noteq> 255 \<and> length d < 256" and "length (enc is) < n"
  shows "parse_dhcp_options (P @ enc is @ 255 # R) (length P) (int n) f s = apply_items f is s"
  using assms
proof (induction "is" arbitrary: P n s)
  case Nil
  then show ?case by (subst parse_dhcp_options.simps) (simp add: rd_def)
next
  case (Cons i "is")
  obtain t d where i: "i = (t, d)" by (cases i)
  have ok: "t \<noteq> 0" "t \<noteq> 255" "length d < 256" using Cons.prems(1) i by auto
  let ?b = "P @ enc (i # is) @ 255 # R" and ?P = "P @ [t, of_nat (length d)]"
  have r: "rd ?b (length P) = Some t" "rd ?b (length P + 1) = Some (of_nat (length d))"
    using rd_item [of P t "of_nat (length d)" "d @ enc is @ 255 # R"] by (simp_all add: i)
  have sz: "int n \<ge> 2" "\<not> int n - 1 - (int (unat (of_nat (length d) :: byte)) + 1) < 0"
    using Cons.prems(2) i unat_len [OF ok(3)] by auto
  have b: "?b = ?P @ d @ (enc is @ 255 # R)" by (simp add: i)
  have h: "handle ?b (length ?P + 0) (length d) t f s = apply_item f i s"
    unfolding b apply_item_def i split handle_def
    using opt_fun_mid [of 0 "length d" d "enc is @ 255 # R" "unat t" ?P s] parse_mid [of 0 "int (length d)" d "enc is @ 255 # R" ?P 208 s]
    by auto
  have nxt: "parse_dhcp_options ?b (length P + 2 + length d) (int n - 1 - (int (length d) + 1)) f s' = apply_items f is s'" for s'
  proof -
    have "parse_dhcp_options ((?P @ d) @ enc is @ 255 # R) (length (?P @ d)) (int (n - (length d + 2))) f s' = apply_items f is s'"
      using Cons.prems i by (intro Cons.IH) auto
    moreover have "int (n - (length d + 2)) = int n - 1 - (int (length d) + 1)"
      using Cons.prems(2) i by auto
    ultimately have "parse_dhcp_options ((?P @ d) @ enc is @ 255 # R) (length (?P @ d)) (int n - 1 - (int (length d) + 1)) f s' = apply_items f is s'"
      by (simp only:)
    then show ?thesis by (simp add: i)
  qed
  show ?case
    using parse_step [OF sz(1) r(1) ok(1) _ r(2) sz(2), of f s] ok(2) h nxt
    by (simp add: unat_len [OF ok(3)] split: option.split)
qed

text \<open>On an option field that holds a sequence of items and the end marker,
  \<open>parse_dhcp_options\<close> runs the handler of each item in order (those below the filter are
  skipped, option 43 parses its data with the filter 208) and ignores what follows the marker.\<close>

theorem parse_dhcp_options_items:
  assumes "\<forall>(t, d) \<in> set is. t \<noteq> 0 \<and> t \<noteq> 255 \<and> length d < 256" and "length (enc is) < n"
  shows "parse_dhcp_options (P @ enc is @ 255 # R) (length P) (int n) f s = apply_items f is s"
  by (rule parse_items_aux [OF assms])

theorem parse_dhcp_options_items_witness:
  "parse_dhcp_options ([] @ enc [(52, [3])] @ 255 # []) (length ([] :: buf)) (int 4) 0 pxe0 =
   Some (pxe0\<lparr>over_load := 3\<rparr>)"
  using parse_dhcp_options_items [of "[(52, [3])]" 4 "[]" "[]" 0 pxe0]
  by (simp add: apply_item_def handle_def opt_fun_def dhcp_opts_def option_overload_def rd_def)

text \<open>The name servers are the first four valid addresses of the option, and zeros.\<close>

theorem dns_servers_correct:
  assumes "pxe_ok s"
  shows "dns_servers (P @ d @ R) (length P) (length d) s =
     Some (s\<lparr>dns_server := take DNS_MAX_SERVERS (filter ip_ok (words d) @ replicate DNS_MAX_SERVERS 0)\<rparr>)"
  by (rule dns_servers_words [OF assms])

theorem dns_servers_correct_witness:
  "dns_servers ([] @ [10, 0, 0, 1, 127, 0, 0, 1] @ [255]) (length ([] :: buf)) (length [10, 0, 0, 1, 127, 0, 0, 1 :: byte]) pxe0 =
     Some (pxe0\<lparr>dns_server := take DNS_MAX_SERVERS
       (filter ip_ok (words [10, 0, 0, 1, 127, 0, 0, 1]) @ replicate DNS_MAX_SERVERS 0)\<rparr>)"
  by (rule dns_servers_correct [OF pxe0_ok])

text \<open>C31. The boot file name of a packet is copied up to the next NUL, wherever that is: when the 256
  bytes from the start of the \<open>bootfile\<close> field hold none, the copy runs over the end of
  \<open>boot_file\<close> (here for a packet without the option magic, so that no option has set the
  overload bit).\<close>

theorem parse_dhcp_bootfile_overrun:
  assumes "pxe_ok s" and "0 \<notin> set (take 256 (drop 108 pkt))" and "364 \<le> length pkt"
    and "rd32 pkt 236 \<noteq> Some option_magic"
  shows "parse_dhcp pkt s = None"
proof -
  obtain y si m where w: "rd32 pkt 16 = Some y" "rd32 pkt 20 = Some si" "rd32 pkt 236 = Some m"
    using rd32_Some [of 16 pkt] rd32_Some [of 20 pkt] rd32_Some [of 236 pkt] assms(3) by auto
  have "strcpy dst pkt 108 = None" if "length dst = 256" for dst
  proof (cases "is_cstr pkt 108")
    case True
    have "take 256 (drop 108 pkt) = takeWhile (\<lambda>c. c \<noteq> 0) (take 256 (drop 108 pkt))"
      using assms(2) by (intro sym [OF takeWhile_eq_all_conv [THEN iffD2]]) auto
    moreover have "length (takeWhile Q (take n xs)) \<le> length (takeWhile Q xs)" for Q n and xs :: buf
      by (induction xs arbitrary: n) (auto simp: take_Cons split: nat.splits)
    ultimately have "length (take 256 (drop 108 pkt)) \<le> length (cstr pkt 108)"
      unfolding cstr_def by metis
    then have "256 \<le> length (cstr pkt 108)" using assms(3) by simp
    then show ?thesis using True that by (simp add: strcpy_def blit_def)
  qed (simp add: strcpy_def)
  moreover have "drop 108 pkt = pkt ! 108 # drop 109 pkt" using assms(3) by (simp add: drop_nth_Cons)
  then have "pkt ! 108 \<noteq> 0" "108 < length pkt" using assms(2,3) by auto
  ultimately show ?thesis
    using w assms(1,4) by (auto simp: parse_dhcp_def pxe_ok_def rd_def Let_def)
qed

theorem parse_dhcp_bootfile_overrun_witness:
  "parse_dhcp (replicate 364 1) pxe0 = None"
  by (rule parse_dhcp_bootfile_overrun [OF pxe0_ok])
     (auto simp: rd32_def rd_def option_magic_def ntohl_def le32_def dest: in_set_takeD)

end
