(* ===== verification/FatTable.thy ===== *)
theory FatTable
  imports Prelude
begin

section \<open>File allocation tables\<close>

text \<open>
  Two parts of the repository read FAT file systems: \<open>libfat\<close> for the installers and
  \<open>core/fs/fat/fat.c\<close> in the boot loader. This theory holds the specification both are shown to
  implement: a file allocation table is a sequence of nibbles, low nibble first, and the entry of
  a cluster is a little-endian number of 3 nibbles at distance 3 (FAT12), 4 at distance 4
  (FAT16), or 7 at distance 8 (FAT32, whose top four bits are reserved).
\<close>

datatype fat_type = FAT12 | FAT16 | FAT32

text \<open>The bytes of the table, from the sectors of the disk.\<close>

definition fat_byte :: "(u64 \<Rightarrow> buf) \<Rightarrow> u64 \<Rightarrow> nat \<Rightarrow> nat \<Rightarrow> nat" where
  "fat_byte disk fat ss i = unat (disk (fat + of_nat (i div ss)) ! (i mod ss))"

definition nibble :: "(nat \<Rightarrow> nat) \<Rightarrow> nat \<Rightarrow> nat" where
  "nibble b k = (if even k then b (k div 2) mod 16 else b (k div 2) div 16)"

fun fat_entry :: "fat_type \<Rightarrow> (nat \<Rightarrow> nat) \<Rightarrow> nat \<Rightarrow> nat" where
  "fat_entry FAT12 b n = (\<Sum>j<3. nibble b (3 * n + j) * 16 ^ j)"
| "fat_entry FAT16 b n = (\<Sum>j<4. nibble b (4 * n + j) * 16 ^ j)"
| "fat_entry FAT32 b n = (\<Sum>j<7. nibble b (8 * n + j) * 16 ^ j)"

text \<open>The offset of the first byte of an entry.\<close>

fun fat_offset :: "fat_type \<Rightarrow> nat \<Rightarrow> nat" where
  "fat_offset FAT12 n = n + n div 2"
| "fat_offset FAT16 n = 2 * n"
| "fat_offset FAT32 n = 4 * n"

lemma nibble_low: "k = 2 * i \<Longrightarrow> nibble b k = b i mod 16"
  and nibble_high: "k = 2 * i + 1 \<Longrightarrow> nibble b k = b i div 16"
  by (simp_all add: nibble_def)

lemma low_high: "x mod 16 + x div 16 * 16 = (x :: nat)"
  by (simp add: mult.commute)

lemma fat12_nibbles:
  "fat_entry FAT12 b n = nibble b (3 * n) + nibble b (3 * n + 1) * 16 + nibble b (3 * n + 2) * 256"
proof -
  have "{..<3} = {0, 1, 2 :: nat}" by auto
  then show ?thesis by simp
qed

lemma fat16_nibbles:
  "fat_entry FAT16 b n = nibble b (4 * n) + nibble b (4 * n + 1) * 16 + nibble b (4 * n + 2) * 256 +
     nibble b (4 * n + 3) * 4096"
proof -
  have "{..<4} = {0, 1, 2, 3 :: nat}" by auto
  then show ?thesis by simp
qed

lemma fat32_nibbles:
  "fat_entry FAT32 b n = nibble b (8 * n) + nibble b (8 * n + 1) * 16 + nibble b (8 * n + 2) * 256 +
     nibble b (8 * n + 3) * 4096 + nibble b (8 * n + 4) * 65536 + nibble b (8 * n + 5) * 1048576 +
     nibble b (8 * n + 6) * 16777216"
proof -
  have "{..<7} = {0, 1, 2, 3, 4, 5, 6 :: nat}" by auto
  then show ?thesis by simp
qed

lemma group12: "a + b * 16 + c * 256 = a + (b + c * 16) * (16 :: nat)"
  and group16: "a + b * 16 + c * 256 + d * 4096 = (a + b * 16) + (c + d * 16) * (256 :: nat)"
  and group32: "a + b * 16 + c * 256 + d * 4096 + e * 65536 + f * 1048576 + g * 16777216 =
    (a + b * 16) + (c + d * 16) * 256 + (e + f * 16) * 65536 + g * (16777216 :: nat)"
  by (simp_all add: algebra_simps)

lemma split12: "x + 256 * (l + h * 16) = (x + l * 256) + h * (4096 :: nat)"
  and split32: "w + 256 * x + 65536 * y + 16777216 * (l + h * 16) =
    (w + x * 256 + y * 65536 + l * 16777216) + h * (2 ^ 28 :: nat)"
  by (simp_all add: algebra_simps)

text \<open>The entry in terms of bytes, which is how both programs compute it.\<close>

lemma fat12_bytes:
  assumes "b (fat_offset FAT12 n) < 256" "b (fat_offset FAT12 n + 1) < 256"
  shows "fat_entry FAT12 b n =
    (let w = b (fat_offset FAT12 n) + 256 * b (fat_offset FAT12 n + 1)
     in if odd n then w div 16 else w mod 4096)"
proof -
  show ?thesis
  proof (cases "even n")
    case True
    then obtain m where n: "n = 2 * m" by (auto elim: evenE)
    define x y where "x = b (3 * m)" and "y = b (3 * m + 1)"
    have nb: "nibble b (3 * n) = x mod 16" "nibble b (3 * n + 1) = x div 16" "nibble b (3 * n + 2) = y mod 16"
      unfolding x_def y_def by (rule nibble_low nibble_high; simp add: n)+
    have o: "fat_offset FAT12 n = 3 * m" by (simp add: n)
    have "fat_entry FAT12 b n = (x mod 16 + x div 16 * 16) + y mod 16 * 256"
      unfolding fat12_nibbles nb by simp
    also have "\<dots> = x + y mod 16 * 256" by (simp only: low_high)
    also have "\<dots> = (x + 256 * y) mod 4096"
    proof -
      have "x + 256 * y = (x + y mod 16 * 256) + y div 16 * 4096"
        unfolding split12 [symmetric] by (simp only: low_high)
      moreover have "x + y mod 16 * 256 < 4096"
        using assms(1) mod_less_divisor [of 16 y] unfolding x_def o by simp
      ultimately show ?thesis by (metis mod_mult_self3 mod_less add.commute)
    qed
    finally show ?thesis using True o by (simp add: Let_def x_def y_def)
  next
    case False
    then obtain m where n: "n = 2 * m + 1" by (auto elim: oddE)
    define x y where "x = b (3 * m + 1)" and "y = b (3 * m + 2)"
    have nb: "nibble b (3 * n) = x div 16" "nibble b (3 * n + 1) = y mod 16" "nibble b (3 * n + 2) = y div 16"
      unfolding x_def y_def by (rule nibble_low nibble_high; simp add: n)+
    have o: "fat_offset FAT12 n = 3 * m + 1" by (simp add: n)
    have "fat_entry FAT12 b n = x div 16 + (y mod 16 + y div 16 * 16) * 16"
      unfolding fat12_nibbles nb by (rule group12)
    also have "\<dots> = x div 16 + y * 16" by (simp only: low_high)
    also have "\<dots> = (x + 256 * y) div 16"
    proof -
      have "x + 256 * y = x + (y * 16) * 16" by simp
      then show ?thesis by (metis div_mult_self1 zero_neq_numeral add.commute)
    qed
    finally show ?thesis unfolding Let_def o using False by (simp add: x_def y_def)
  qed
qed

lemma fat16_bytes: "fat_entry FAT16 b n = b (2 * n) + 256 * b (2 * n + 1)"
proof -
  define x y where "x = b (2 * n)" and "y = b (2 * n + 1)"
  have nb: "nibble b (4 * n) = x mod 16" "nibble b (4 * n + 1) = x div 16"
    "nibble b (4 * n + 2) = y mod 16" "nibble b (4 * n + 3) = y div 16"
    unfolding x_def y_def by (rule nibble_low nibble_high; simp)+
  have "fat_entry FAT16 b n = (x mod 16 + x div 16 * 16) + (y mod 16 + y div 16 * 16) * 256"
    unfolding fat16_nibbles nb by (rule group16)
  then show ?thesis by (simp only: low_high x_def y_def mult.commute [of 256])
qed

lemma fat32_bytes:
  assumes "b (4 * n) < 256" "b (4 * n + 1) < 256" "b (4 * n + 2) < 256" "b (4 * n + 3) < 256"
  shows "fat_entry FAT32 b n =
    (b (4 * n) + 256 * b (4 * n + 1) + 65536 * b (4 * n + 2) + 16777216 * b (4 * n + 3)) mod 2 ^ 28"
proof -
  define w x y z where "w = b (4 * n)" and "x = b (4 * n + 1)" and "y = b (4 * n + 2)" and "z = b (4 * n + 3)"
  have nb: "nibble b (8 * n) = w mod 16" "nibble b (8 * n + 1) = w div 16"
    "nibble b (8 * n + 2) = x mod 16" "nibble b (8 * n + 3) = x div 16"
    "nibble b (8 * n + 4) = y mod 16" "nibble b (8 * n + 5) = y div 16" "nibble b (8 * n + 6) = z mod 16"
    unfolding w_def x_def y_def z_def by (rule nibble_low nibble_high; simp)+
  have "fat_entry FAT32 b n = (w mod 16 + w div 16 * 16) + (x mod 16 + x div 16 * 16) * 256 +
      (y mod 16 + y div 16 * 16) * 65536 + z mod 16 * 16777216"
    unfolding fat32_nibbles nb by (rule group32)
  also have "\<dots> = w + x * 256 + y * 65536 + z mod 16 * 16777216" by (simp only: low_high)
  also have "\<dots> = (w + 256 * x + 65536 * y + 16777216 * z) mod 2 ^ 28"
  proof -
    have "w + 256 * x + 65536 * y + 16777216 * z =
        (w + x * 256 + y * 65536 + z mod 16 * 16777216) + z div 16 * 2 ^ 28"
      unfolding split32 [symmetric] by (simp only: low_high)
    moreover have "w + x * 256 + y * 65536 + z mod 16 * 16777216 < 2 ^ 28"
      using assms mod_less_divisor [of 16 z] unfolding w_def x_def y_def z_def by simp
    ultimately show ?thesis by (metis mod_mult_self3 mod_less add.commute)
  qed
  finally show ?thesis by (simp only: w_def x_def y_def z_def)
qed

text \<open>The shift and the mask that extract a FAT12 entry from two bytes, and the mask for FAT32.\<close>

lemma entry12_word:
  "(if odd k then drop_bit 4 w else w AND 0x0FFF) =
   (of_nat (if odd k then unat w div 16 else unat w mod 4096) :: u32)"
proof -
  have "unat (drop_bit 4 w) = unat w div 16" by (simp add: unat_drop_bit)
  then have 1: "drop_bit 4 w = of_nat (unat w div 16)" by (rule of_natI)
  have "unat (w AND 0xFFF) = unat w mod 4096"
    using unat_and_mask [of w 12] by (simp add: mask_eq_exp_minus_1)
  then have 2: "w AND 0xFFF = of_nat (unat w mod 4096)" by (rule of_natI)
  show ?thesis by (cases "odd k") (simp_all only: if_True if_False not_False_eq_True not_True_eq_False 1 2)
qed

lemma entry32_word: "w AND 0x0FFFFFFF = (of_nat (unat w mod 2 ^ 28) :: u32)"
proof -
  have "unat (w AND 0x0FFFFFFF) = unat w mod 2 ^ 28"
    using unat_and_mask [of w 28] by (simp add: mask_eq_exp_minus_1)
  then show ?thesis by (rule of_natI)
qed

lemma nibble_less: "(\<And>i. b i < 256) \<Longrightarrow> nibble b k < 16"
  by (simp add: nibble_def less_mult_imp_div_less)

lemma fat_entry_less:
  assumes "\<And>i. b i < 256"
  shows "fat_entry FAT12 b n < 2 ^ 12" "fat_entry FAT16 b n < 2 ^ 16" "fat_entry FAT32 b n < 2 ^ 28"
proof -
  note l = nibble_less [of b, OF assms]
  show "fat_entry FAT12 b n < 2 ^ 12"
    unfolding fat12_nibbles using l [of "3 * n"] l [of "3 * n + 1"] l [of "3 * n + 2"] by simp
  show "fat_entry FAT16 b n < 2 ^ 16"
    unfolding fat16_nibbles using l [of "4 * n"] l [of "4 * n + 1"] l [of "4 * n + 2"] l [of "4 * n + 3"] by simp
  show "fat_entry FAT32 b n < 2 ^ 28"
    unfolding fat32_nibbles using l [of "8 * n"] l [of "8 * n + 1"] l [of "8 * n + 2"] l [of "8 * n + 3"]
      l [of "8 * n + 4"] l [of "8 * n + 5"] l [of "8 * n + 6"] by simp
qed

lemma fat_entry_less28: "(\<And>i. b i < 256) \<Longrightarrow> fat_entry t b n < 2 ^ 28"
  using fat_entry_less [of b n] by (cases t) (simp_all del: fat_entry.simps)

end
