(* ===== verification/LibFat.thy ===== *)
theory LibFat
  imports FatTable
begin

section \<open>libfat: reading FAT file systems from the installers\<close>

text \<open>
  The library of \<open>libfat/\<close>: opening a file system (\<open>open.c\<close>), the sector cache
  (\<open>cache.c\<close>), following a cluster chain (\<open>fatchain.c\<close>) and searching a directory
  (\<open>searchdir.c\<close>). The state is the structure \<open>libfat_filesystem\<close>; the read function that the
  client passes in and the outcomes of \<open>malloc\<close> are the environment. A read outside a
  sector buffer is the result \<open>None\<close>. The enumeration's \<open>FAT28\<close> is called \<open>FAT32\<close> here, as in
  the boot loader.

  The lemmas show that the cache is transparent, that an opened file system has a consistent
  geometry with all its FAT entries inside the table, that the sector walk enumerates the sectors
  of a cluster chain in order, and that the directory search finds the first entry with the name.
\<close>

subsection \<open>State and environment\<close>

type_synonym i32 = "32 word"

record libfat_filesystem =
  fat_type :: fat_type
  clustsize :: u32
  clustshift :: nat
  endcluster :: i32
  rootcluster :: i32
  fat :: u64
  rootdir :: u64
  data :: u64
  end_sec :: u64
  sectors :: "(u64 \<times> buf) list"
  nmalloc :: nat

record env =
  read_fn :: "u64 \<Rightarrow> buf option"
  malloc_ok :: "nat \<Rightarrow> bool"

definition LIBFAT_SECTOR_SHIFT :: nat where "LIBFAT_SECTOR_SHIFT = 9"
definition LIBFAT_SECTOR_SIZE :: nat where "LIBFAT_SECTOR_SIZE = 512"
definition LIBFAT_SECTOR_MASK :: u32 where "LIBFAT_SECTOR_MASK = 511"

text \<open>One call of \<open>malloc\<close>: whether it succeeded.\<close>

definition malloc :: "env \<Rightarrow> libfat_filesystem \<Rightarrow> bool \<times> libfat_filesystem" where
  "malloc e fs = (malloc_ok e (nmalloc fs), fs\<lparr>nmalloc := nmalloc fs + 1\<rparr>)"

subsection \<open>The sector cache\<close>

definition libfat_flush :: "libfat_filesystem \<Rightarrow> libfat_filesystem" where
  "libfat_flush fs = fs\<lparr>sectors := []\<rparr>"

definition libfat_get_sector :: "env \<Rightarrow> libfat_filesystem \<Rightarrow> u64 \<Rightarrow> buf option \<times> libfat_filesystem" where
  "libfat_get_sector e fs n =
    (case map_of (sectors fs) n of
      Some d \<Rightarrow> (Some d, fs)
    | None \<Rightarrow>
        let (ok1, fs1) = malloc e fs;
            (ok2, fs2) = (if ok1 then (True, fs1) else malloc e (libfat_flush fs1))
        in if \<not> ok2 then (None, fs2)
           else (case read_fn e n of
                   None \<Rightarrow> (None, fs2)
                 | Some d \<Rightarrow> (Some d, fs2\<lparr>sectors := (n, d) # sectors fs2\<rparr>)))"

subsection \<open>Cluster chains\<close>

definition libfat_clustertosector :: "libfat_filesystem \<Rightarrow> i32 \<Rightarrow> u64" where
  "libfat_clustertosector fs cluster =
    (let cluster = (if cluster = 0 then rootcluster fs else cluster)
     in if cluster = 0 then rootdir fs
        else if cluster <s 2 \<or> endcluster fs \<le>s cluster then - 1
        else data fs + push_bit (clustshift fs) (scast (cluster - 2)))"

definition fat_sector_of :: "env \<Rightarrow> libfat_filesystem \<Rightarrow> u32 \<Rightarrow> buf option \<times> libfat_filesystem" where
  "fat_sector_of e fs fatoffset =
     libfat_get_sector e fs (fat fs + ucast (drop_bit LIBFAT_SECTOR_SHIFT fatoffset))"

text \<open>
  The FAT entry of a cluster, per type. The outer option is an access outside a buffer, the
  inner one the early return with \<open>-1\<close> when a sector cannot be had.
\<close>

definition next12 :: "env \<Rightarrow> libfat_filesystem \<Rightarrow> i32 \<Rightarrow> (i32 option \<times> libfat_filesystem) option" where
  "next12 e fs cluster =
    (let fatoffset = cluster + signed_drop_bit 1 cluster;
         (fsdata, fs) = fat_sector_of e fs fatoffset
     in case fsdata of
          None \<Rightarrow> Some (None, fs)
        | Some d \<Rightarrow> do {
            b0 \<leftarrow> rd d (unat (fatoffset AND LIBFAT_SECTOR_MASK));
            let fatoffset = fatoffset + 1;
            let (fsdata, fs) = fat_sector_of e fs fatoffset;
            case fsdata of
              None \<Rightarrow> Some (None, fs)
            | Some d \<Rightarrow> do {
                b1 \<leftarrow> rd d (unat (fatoffset AND LIBFAT_SECTOR_MASK));
                let nextcluster = ucast b0 OR push_bit 8 (ucast b1);
                Some (Some (if cluster AND 1 \<noteq> 0 then drop_bit 4 nextcluster
                            else nextcluster AND 0x0FFF), fs) } })"

definition next16 :: "env \<Rightarrow> libfat_filesystem \<Rightarrow> i32 \<Rightarrow> (i32 option \<times> libfat_filesystem) option" where
  "next16 e fs cluster =
    (let fatoffset = push_bit 1 cluster;
         (fsdata, fs) = fat_sector_of e fs fatoffset
     in case fsdata of
          None \<Rightarrow> Some (None, fs)
        | Some d \<Rightarrow> do {
            w \<leftarrow> rd16 d (unat (fatoffset AND LIBFAT_SECTOR_MASK));
            Some (Some (ucast w), fs) })"

definition next28 :: "env \<Rightarrow> libfat_filesystem \<Rightarrow> i32 \<Rightarrow> (i32 option \<times> libfat_filesystem) option" where
  "next28 e fs cluster =
    (let fatoffset = push_bit 2 cluster;
         (fsdata, fs) = fat_sector_of e fs fatoffset
     in case fsdata of
          None \<Rightarrow> Some (None, fs)
        | Some d \<Rightarrow> do {
            w \<leftarrow> rd32 d (unat (fatoffset AND LIBFAT_SECTOR_MASK));
            Some (Some (w AND 0x0FFFFFFF), fs) })"

fun end_of_chain :: "fat_type \<Rightarrow> i32" where
  "end_of_chain FAT12 = 0x0FF8"
| "end_of_chain FAT16 = 0xFFF8"
| "end_of_chain FAT32 = 0x0FFFFFF8"

fun next_entry :: "fat_type \<Rightarrow> env \<Rightarrow> libfat_filesystem \<Rightarrow> i32 \<Rightarrow> (i32 option \<times> libfat_filesystem) option" where
  "next_entry FAT12 = next12"
| "next_entry FAT16 = next16"
| "next_entry FAT32 = next28"

definition libfat_nextsector :: "env \<Rightarrow> libfat_filesystem \<Rightarrow> u64 \<Rightarrow> (u64 \<times> libfat_filesystem) option" where
  "libfat_nextsector e fs s =
    (let clustmask = clustsize fs - 1
     in if s < data fs then
          (if s < rootdir fs then Some (- 1, fs)
           else Some (if s + 1 < data fs then s + 1 else 0, fs))
        else
          let rs = s - data fs
          in if NOT rs AND ucast clustmask \<noteq> 0 then Some (s + 1, fs)
             else let cluster = ucast (2 + drop_bit (clustshift fs) rs)
                  in if endcluster fs \<le>s cluster then Some (- 1, fs)
                     else do {
                       (r, fs) \<leftarrow> next_entry (fat_type fs) e fs cluster;
                       case r of
                         None \<Rightarrow> Some (- 1, fs)
                       | Some nextcluster \<Rightarrow>
                           if end_of_chain (fat_type fs) \<le>s nextcluster then Some (0, fs)
                           else Some (libfat_clustertosector fs nextcluster, fs) })"

subsection \<open>Opening\<close>

function clust_loop :: "byte \<Rightarrow> nat \<Rightarrow> nat" where
  "clust_loop spc i = (if i \<le> 8 \<and> push_bit i (1 :: byte) \<noteq> spc then clust_loop spc (i + 1) else i)"
  by pat_completeness auto
termination by (relation "measure (\<lambda>(_, i). 9 - i)") auto

text \<open>The layout, from the fields of the boot sector; \<open>None\<close> is the label \<open>barf\<close>.\<close>

definition open_layout ::
  "libfat_filesystem \<Rightarrow> nat \<Rightarrow> u32 \<Rightarrow> u32 \<Rightarrow> u16 \<Rightarrow> byte \<Rightarrow> u16 \<Rightarrow> i32 \<Rightarrow> libfat_filesystem option" where
  "open_layout fs i nsectors fatsize res fats rootents rootclus =
    (let fat = ucast res;
         rootdir = fat + ucast (fatsize * ucast fats);
         rootdirsize :: u32 = drop_bit LIBFAT_SECTOR_SHIFT (push_bit 5 (ucast rootents) + LIBFAT_SECTOR_MASK);
         data = rootdir + ucast rootdirsize;
         end_sec = ucast nsectors
     in if data \<ge> end_sec then None
        else
          let nclusters :: u32 = ucast (drop_bit i (end_sec - data));
              endcluster = nclusters + 2;
              fs = fs\<lparr>clustsize := push_bit i 1, clustshift := i, endcluster := endcluster,
                      fat := fat, rootdir := rootdir, data := data, end_sec := end_sec\<rparr>;
              bytes = (if nclusters \<le> 0xff4 then Some (FAT12, endcluster + signed_drop_bit 1 endcluster)
                       else if nclusters \<le> 0xfff4 then Some (FAT16, push_bit 1 endcluster)
                       else if nclusters \<le> 0xffffff4 then Some (FAT32, push_bit 2 endcluster)
                       else None)
          in case bytes of
               None \<Rightarrow> None
             | Some (t, minfatsize) \<Rightarrow>
                 let minfatsize = drop_bit LIBFAT_SECTOR_SHIFT (minfatsize + of_nat LIBFAT_SECTOR_SIZE - 1)
                 in if minfatsize > fatsize then None
                    else Some (fs\<lparr>fat_type := t, rootcluster := (if t = FAT32 then rootclus else 0)\<rparr>))"

text \<open>
  The inner result: \<open>None\<close> is the null pointer. The outer one again an access outside the boot
  sector.
\<close>

definition libfat_open :: "env \<Rightarrow> libfat_filesystem option option" where
  "libfat_open e =
    (if \<not> malloc_ok e 0 then Some None
     else
      let fs = \<lparr>fat_type = FAT12, clustsize = 0, clustshift = 0, endcluster = 0, rootcluster = 0,
                fat = 0, rootdir = 0, data = 0, end_sec = 0, sectors = [], nmalloc = 1\<rparr>;
          (bs, fs) = libfat_get_sector e fs 0
      in case bs of
        None \<Rightarrow> Some None
      | Some bs \<Rightarrow> do {
          bps \<leftarrow> rd16 bs 11;
          spc \<leftarrow> rd bs 13;
          res \<leftarrow> rd16 bs 14;
          fats \<leftarrow> rd bs 16;
          rootents \<leftarrow> rd16 bs 17;
          secs \<leftarrow> rd16 bs 19;
          fatsecs \<leftarrow> rd16 bs 22;
          huge \<leftarrow> rd32 bs 32;
          fatsz32 \<leftarrow> rd32 bs 36;
          rootclus \<leftarrow> rd32 bs 44;
          let i = clust_loop spc 0;
          if unat bps \<noteq> LIBFAT_SECTOR_SIZE \<or> i > 8 then Some None
          else Some (open_layout fs i (if secs = 0 then huge else ucast secs)
                      (if fatsecs = 0 then fatsz32 else ucast fatsecs) res fats rootents rootclus) })"

definition libfat_close :: "libfat_filesystem \<Rightarrow> libfat_filesystem" where
  "libfat_close fs = libfat_flush fs"

subsection \<open>Searching a directory\<close>

datatype scan_result = Match nat | High_water | Sector_done

text \<open>The loop over the entries of one sector, from byte \<open>nent\<close>.\<close>

function scan_sector :: "buf \<Rightarrow> buf \<Rightarrow> nat \<Rightarrow> scan_result option" where
  "scan_sector d name nent =
    (if nent < LIBFAT_SECTOR_SIZE then do {
       n \<leftarrow> slice d nent 11;
       if n = name then Some (Match nent)
       else do {
         c \<leftarrow> rd d nent;
         if c = 0 then Some High_water else scan_sector d name (nent + 32) } }
     else Some Sector_done)"
  by pat_completeness auto
termination
  by (relation "measure (\<lambda>(_, _, nent). LIBFAT_SECTOR_SIZE - nent)") (auto simp: LIBFAT_SECTOR_SIZE_def)

record libfat_direntry =
  de_entry :: buf
  de_sector :: u64
  de_offset :: nat

text \<open>The value returned for an entry at byte \<open>nent\<close> of a sector.\<close>

definition found_cluster :: "buf \<Rightarrow> nat \<Rightarrow> i32 option" where
  "found_cluster d nent = do {
     size \<leftarrow> rd32 d (nent + 28);
     lo \<leftarrow> rd16 d (nent + 26);
     hi \<leftarrow> rd16 d (nent + 20);
     Some (if size = 0 then 0 else ucast lo + push_bit 16 (ucast hi)) }"

partial_function (option) search_loop ::
  "env \<Rightarrow> libfat_filesystem \<Rightarrow> buf \<Rightarrow> u64 \<Rightarrow> ((i32 \<times> libfat_direntry option) \<times> libfat_filesystem) option" where
  "search_loop e fs name s =
    (if s = 0 then Some ((- 2, None), fs)
     else if s = - 1 then Some ((- 1, None), fs)
     else
       (case libfat_get_sector e fs s of
         (None, fs) \<Rightarrow> Some ((- 1, None), fs)
       | (Some d, fs) \<Rightarrow>
           Option.bind (scan_sector d name 0) (\<lambda>r.
           case r of
             Match nent \<Rightarrow>
               Option.bind (found_cluster d nent) (\<lambda>c.
               Option.bind (slice d nent 32) (\<lambda>ent.
               Some ((c, Some \<lparr>de_entry = ent, de_sector = s, de_offset = nent\<rparr>), fs)))
           | High_water \<Rightarrow> Some ((- 2, None), fs)
           | Sector_done \<Rightarrow>
               Option.bind (libfat_nextsector e fs s) (\<lambda>(s, fs). search_loop e fs name s))))"

definition libfat_searchdir ::
  "env \<Rightarrow> libfat_filesystem \<Rightarrow> i32 \<Rightarrow> buf \<Rightarrow> ((i32 \<times> libfat_direntry option) \<times> libfat_filesystem) option" where
  "libfat_searchdir e fs dirclust name = search_loop e fs name (libfat_clustertosector fs dirclust)"


declare clust_loop.simps [simp del] scan_sector.simps [simp del]

subsection \<open>The cache is transparent\<close>

text \<open>What every operation keeps: everything but the cache and the allocation counter.\<close>

definition geom :: "libfat_filesystem \<Rightarrow> libfat_filesystem" where
  "geom fs = fs\<lparr>sectors := [], nmalloc := 0\<rparr>"

definition coherent :: "env \<Rightarrow> libfat_filesystem \<Rightarrow> bool" where
  "coherent e fs \<longleftrightarrow> (\<forall>(n, d) \<in> set (sectors fs). read_fn e n = Some d)"

lemma geom_sel:
  assumes "geom fs' = geom fs"
  shows "fat_type fs' = fat_type fs" "clustsize fs' = clustsize fs" "clustshift fs' = clustshift fs"
    "endcluster fs' = endcluster fs" "rootcluster fs' = rootcluster fs" "fat fs' = fat fs"
    "rootdir fs' = rootdir fs" "data fs' = data fs" "end_sec fs' = end_sec fs"
  using assms by (cases fs; cases fs'; simp add: geom_def)+

lemma coherent_map_of: "coherent e fs \<Longrightarrow> map_of (sectors fs) n = Some d \<Longrightarrow> read_fn e n = Some d"
  by (auto simp: coherent_def dest: map_of_SomeD)

lemma get_sector_coherent:
  assumes "coherent e fs" and "libfat_get_sector e fs n = (r, fs')"
  shows "coherent e fs' \<and> geom fs' = geom fs \<and> (r = None \<or> r = read_fn e n)"
  using assms coherent_map_of [OF assms(1), of n]
  by (auto simp: libfat_get_sector_def malloc_def libfat_flush_def coherent_def geom_def
      split: option.splits if_splits)

lemma get_sector_Some:
  assumes "\<And>k. malloc_ok e k" and "read_fn e n = Some d" and "coherent e fs"
  shows "fst (libfat_get_sector e fs n) = Some d"
  using assms coherent_map_of [OF assms(3), of n]
  by (auto simp: libfat_get_sector_def malloc_def split: option.splits)

lemma get_sector_None:
  "fst (libfat_get_sector e fs n) = None \<longleftrightarrow> map_of (sectors fs) n = None \<and>
     (read_fn e n = None \<or> \<not> malloc_ok e (nmalloc fs) \<and> \<not> malloc_ok e (nmalloc fs + 1))"
  by (cases "map_of (sectors fs) n"; cases "read_fn e n")
    (simp_all add: libfat_get_sector_def malloc_def libfat_flush_def)

text \<open>Whatever the allocator does, the cache never returns anything but what the read function
  returns for that sector, and stays coherent; when two allocations in a row fail or the read fails
  it returns the null pointer; the geometry never changes.\<close>

theorem libfat_get_sector_transparent:
  assumes "coherent e fs" and "libfat_get_sector e fs n = (r, fs')"
  shows "coherent e fs' \<and> geom fs' = geom fs \<and> (r = None \<or> r = read_fn e n) \<and>
    (r = None \<longleftrightarrow> n \<notin> fst ` set (sectors fs) \<and>
       (read_fn e n = None \<or> \<not> malloc_ok e (nmalloc fs) \<and> \<not> malloc_ok e (nmalloc fs + 1)))"
  using get_sector_coherent [OF assms] get_sector_None [of e fs n]
  unfolding map_of_eq_None_iff assms(2) by simp

subsection \<open>Mounted file systems\<close>

fun cluster_limit :: "fat_type \<Rightarrow> nat" where
  "cluster_limit FAT12 = 0xff6"
| "cluster_limit FAT16 = 0xfff6"
| "cluster_limit FAT32 = 0xffffff6"

text \<open>
  The geometry that \<open>libfat_open\<close> establishes: the FAT that holds the entries, the root
  directory, the data area with its clusters and the end, in this order.
\<close>

definition wf :: "libfat_filesystem \<Rightarrow> bool" where
  "wf fs \<longleftrightarrow>
     clustshift fs \<le> 8 \<and> clustsize fs = 2 ^ clustshift fs \<and>
     2 \<le> unat (endcluster fs) \<and> unat (endcluster fs) \<le> cluster_limit (fat_type fs) \<and>
     unat (fat fs) + (fat_offset (fat_type fs) (unat (endcluster fs)) + 511) div 512 \<le> unat (rootdir fs) \<and>
     rootdir fs \<le> data fs \<and> data fs < end_sec fs \<and> unat (end_sec fs) < 2 ^ 32 \<and>
     unat (data fs) + (unat (endcluster fs) - 2) * 2 ^ clustshift fs \<le> unat (end_sec fs)"

definition mounted :: "env \<Rightarrow> (u64 \<Rightarrow> buf) \<Rightarrow> libfat_filesystem \<Rightarrow> bool" where
  "mounted e disk fs \<longleftrightarrow> wf fs \<and> coherent e fs \<and> (\<forall>k. malloc_ok e k) \<and>
     (\<forall>n < end_sec fs. read_fn e n = Some (disk n) \<and> length (disk n) = LIBFAT_SECTOR_SIZE)"

lemma wf_geom:
  assumes "geom fs' = geom fs"
  shows "wf fs' = wf fs"
  unfolding wf_def geom_sel [OF assms] ..

lemma get_sector_mounted:
  assumes "mounted e disk fs" and "n < end_sec fs"
  obtains fs' where "libfat_get_sector e fs n = (Some (disk n), fs')"
    and "mounted e disk fs'" and "geom fs' = geom fs"
proof -
  have m: "coherent e fs" "\<And>k. malloc_ok e k" "read_fn e n = Some (disk n)"
    using assms by (auto simp: mounted_def)
  obtain r fs' where r: "libfat_get_sector e fs n = (r, fs')" by fastforce
  have c: "coherent e fs'" "geom fs' = geom fs" using get_sector_coherent [OF m(1) r] by auto
  have "r = Some (disk n)" using get_sector_Some [OF m(2,3,1)] r by simp
  moreover have "mounted e disk fs'"
    using assms(1) c(1) unfolding mounted_def wf_geom [OF c(2)] geom_sel [OF c(2)] by blast
  ultimately show ?thesis using that r c by blast
qed

subsection \<open>FAT entries\<close>

abbreviation fbytes :: "(u64 \<Rightarrow> buf) \<Rightarrow> libfat_filesystem \<Rightarrow> nat \<Rightarrow> nat" where
  "fbytes disk fs \<equiv> fat_byte disk (fat fs) LIBFAT_SECTOR_SIZE"

text \<open>The sector of an offset within the table (the byte after the last entry included).\<close>

lemma fat_sector_of_mounted:
  assumes m: "mounted e disk fs"
    and off: "unat off \<le> fat_offset (fat_type fs) (unat (endcluster fs))"
  obtains d fs' where "fat_sector_of e fs off = (Some d, fs')"
    and "length d = 512" and "mounted e disk fs'" and "geom fs' = geom fs"
    and "\<And>j. unat off mod 512 + j < 512 \<Longrightarrow> unat (d ! (unat off mod 512 + j)) = fbytes disk fs (unat off + j)"
proof -
  let ?k = "unat off div 512"
  have w: "unat (fat fs) + (fat_offset (fat_type fs) (unat (endcluster fs)) + 511) div 512 \<le> unat (rootdir fs)"
    "rootdir fs \<le> data fs" "data fs < end_sec fs" "unat (end_sec fs) < 2 ^ 32"
    using m by (auto simp: mounted_def wf_def)
  have k: "?k \<le> (fat_offset (fat_type fs) (unat (endcluster fs)) + 511) div 512"
    using off by (intro div_le_mono) linarith
  have k32: "unat off div 512 < 2 ^ 32" using unat_less [of off] by simp
  have id: "unat (of_nat ?k :: u64) = ?k" using k32 by (intro unat_of_nat_id) simp
  have le: "unat (rootdir fs) < unat (end_sec fs)" using w by (meson le_less_trans word_less_nat_alt)
  have "unat (fat fs) + ?k < unat (end_sec fs)" using w k le by linarith
  moreover have "unat (fat fs + of_nat ?k) = unat (fat fs) + ?k"
    using calculation w(4) unat_add_id [of "fat fs" "of_nat ?k"] by (simp add: id)
  ultimately have lt: "fat fs + of_nat ?k < end_sec fs" by (simp add: word_less_nat_alt)
  have "(ucast (drop_bit LIBFAT_SECTOR_SHIFT off) :: u64) = of_nat ?k"
    using k32 by (simp add: word_unat_eq_iff id unat_ucast unat_drop_bit LIBFAT_SECTOR_SHIFT_def)
  then have f: "fat_sector_of e fs off = libfat_get_sector e fs (fat fs + of_nat ?k)"
    by (simp add: fat_sector_of_def)
  have len: "length (disk (fat fs + of_nat ?k)) = 512"
    using m lt by (simp add: mounted_def LIBFAT_SECTOR_SIZE_def)
  have byt: "unat (disk (fat fs + of_nat ?k) ! (unat off mod 512 + j)) = fbytes disk fs (unat off + j)"
    if "unat off mod 512 + j < 512" for j
  proof -
    have "(unat off + j) div 512 = ?k" "(unat off + j) mod 512 = unat off mod 512 + j"
      using div_mod_add [OF that] by auto
    then show ?thesis by (simp add: fat_byte_def LIBFAT_SECTOR_SIZE_def)
  qed
  show ?thesis
  proof (rule get_sector_mounted [OF m lt])
    fix fs' assume g: "libfat_get_sector e fs (fat fs + of_nat ?k) = (Some (disk (fat fs + of_nat ?k)), fs')"
      "mounted e disk fs'" "geom fs' = geom fs"
    show thesis by (rule that [OF trans [OF f g(1)] len g(2,3) byt])
  qed
qed

lemma fbytes_less: "fat_byte disk f ss i < 256"
  by (simp add: fat_byte_def unat_byte)

lemma mask_offset: "unat (off AND LIBFAT_SECTOR_MASK) = unat off mod 512"
  using unat_and_mask [of off 9] by (simp add: LIBFAT_SECTOR_MASK_def mask_eq_exp_minus_1)

lemma cluster_limit_less: "cluster_limit t \<le> 0xffffff6"
  by (cases t) simp_all

lemma fat_offset_mono: "m < n \<Longrightarrow> fat_offset t m + (if t = FAT12 then 1 else 2) \<le> fat_offset t n"
  using div_le_mono [of m n 2] by (cases t) auto

lemma next12_mounted:
  assumes m: "mounted e disk fs" and t: "fat_type fs = FAT12" and c: "unat c < unat (endcluster fs)"
  obtains fs' where "next12 e fs c = Some (Some (of_nat (fat_entry FAT12 (fbytes disk fs) (unat c))), fs')"
    and "mounted e disk fs'" and "geom fs' = geom fs"
proof -
  let ?off = "c + signed_drop_bit 1 c"
  let ?f = "fbytes disk fs"
  have lim: "unat (endcluster fs) \<le> 0xff6" using m t by (auto simp: mounted_def wf_def)
  have off: "unat ?off = fat_offset FAT12 (unat c)"
    using c lim signed_drop_bit_small [of c 1] by (subst unat_add_id) simp_all
  have off1: "unat (?off + 1) = unat ?off + 1"
    using c lim off by (subst unat_add_id) simp_all
  have le: "unat ?off + 1 \<le> fat_offset FAT12 (unat (endcluster fs))"
    using fat_offset_mono [OF c, of FAT12] off by simp
  obtain d fs1 where 1: "fat_sector_of e fs ?off = (Some d, fs1)" "length d = 512" "mounted e disk fs1" "geom fs1 = geom fs"
     "\<And>j. unat ?off mod 512 + j < 512 \<Longrightarrow> unat (d ! (unat ?off mod 512 + j)) = ?f (unat ?off + j)"
    using fat_sector_of_mounted [OF m, of ?off] le t by auto
  have le': "unat (?off + 1) \<le> fat_offset (fat_type fs1) (unat (endcluster fs1))"
    using le off1 t by (simp add: geom_sel [OF 1(4)])
  obtain d' fs2 where 2: "fat_sector_of e fs1 (?off + 1) = (Some d', fs2)" "length d' = 512" "mounted e disk fs2" "geom fs2 = geom fs1"
     "\<And>j. unat (?off + 1) mod 512 + j < 512 \<Longrightarrow> unat (d' ! (unat (?off + 1) mod 512 + j)) = ?f (unat (?off + 1) + j)"
    using fat_sector_of_mounted [OF 1(3) le'] by (auto simp: geom_sel [OF 1(4)])
  let ?b0 = "d ! (unat ?off mod 512)" and ?b1 = "d' ! (unat (?off + 1) mod 512)"
  let ?w = "ucast ?b0 OR push_bit 8 (ucast ?b1) :: i32"
  have b: "unat ?b0 = ?f (unat ?off)" "unat ?b1 = ?f (unat ?off + 1)"
    using 1(5) [of 0] 2(5) [of 0] off1 by simp_all
  have w: "unat ?w = ?f (unat ?off) + 256 * ?f (unat ?off + 1)"
    by (simp only: unat_or_bytes b)
  have e: "fat_entry FAT12 ?f (unat c) = (if odd (unat c) then unat ?w div 16 else unat ?w mod 4096)"
    using fat12_bytes [of ?f "unat c"] fbytes_less w off by (simp add: Let_def)
  have r: "(if c AND 1 \<noteq> 0 then drop_bit 4 ?w else ?w AND 0x0FFF) = of_nat (fat_entry FAT12 ?f (unat c))"
    unfolding e and_1_odd by (rule entry12_word)
  have "next12 e fs c = Some (Some (if c AND 1 \<noteq> 0 then drop_bit 4 ?w else ?w AND 0x0FFF), fs2)"
    by (simp add: next12_def Let_def 1(1,2) 2(1,2) mask_offset rd_Some del: One_nat_def)
  then show ?thesis using that r 2(3) 1(4) 2(4) by simp
qed

lemma next16_mounted:
  assumes m: "mounted e disk fs" and t: "fat_type fs = FAT16" and c: "unat c < unat (endcluster fs)"
  obtains fs' where "next16 e fs c = Some (Some (of_nat (fat_entry FAT16 (fbytes disk fs) (unat c))), fs')"
    and "mounted e disk fs'" and "geom fs' = geom fs"
proof -
  let ?off = "push_bit 1 c" and ?f = "fbytes disk fs"
  have lim: "unat (endcluster fs) \<le> 0xfff6" using m t by (auto simp: mounted_def wf_def)
  have off: "unat ?off = 2 * unat c" using c lim by (subst unat_push_bit) simp_all
  have "unat ?off \<le> fat_offset (fat_type fs) (unat (endcluster fs))" using c off t by simp
  then obtain d fs1 where 1: "fat_sector_of e fs ?off = (Some d, fs1)" "length d = 512" "mounted e disk fs1" "geom fs1 = geom fs"
     "\<And>j. unat ?off mod 512 + j < 512 \<Longrightarrow> unat (d ! (unat ?off mod 512 + j)) = ?f (unat ?off + j)"
    using fat_sector_of_mounted [OF m, of ?off] by metis
  have k: "unat ?off mod 512 + 1 < 512"
    unfolding off using mod_mult_mult1 [of 2 "unat c" 256] mod_less_divisor [of 256 "unat c"] by simp
  let ?w = "le16 (d ! (unat ?off mod 512)) (d ! (unat ?off mod 512 + 1))"
  have "unat ?w = fat_entry FAT16 ?f (unat c)"
    using 1(5) [of 0] 1(5) [OF k] k unfolding unat_le16 fat16_bytes off by simp
  then have w: "(ucast ?w :: i32) = of_nat (fat_entry FAT16 ?f (unat c))"
    using unat_less [of ?w] by (intro of_natI) (simp add: unat_ucast)
  have "next16 e fs c = Some (Some (ucast ?w), fs1)"
    using k by (simp add: next16_def Let_def 1(1,2) mask_offset rd16_def rd_Some del: One_nat_def)
  then show ?thesis using that w 1(3,4) by simp
qed

lemma next28_mounted:
  assumes m: "mounted e disk fs" and t: "fat_type fs = FAT32" and c: "unat c < unat (endcluster fs)"
  obtains fs' where "next28 e fs c = Some (Some (of_nat (fat_entry FAT32 (fbytes disk fs) (unat c))), fs')"
    and "mounted e disk fs'" and "geom fs' = geom fs"
proof -
  let ?off = "push_bit 2 c" and ?f = "fbytes disk fs"
  have lim: "unat (endcluster fs) \<le> 0xffffff6" using m t by (auto simp: mounted_def wf_def)
  have off: "unat ?off = 4 * unat c" using c lim by (subst unat_push_bit) simp_all
  have "unat ?off \<le> fat_offset (fat_type fs) (unat (endcluster fs))" using c off t by simp
  then obtain d fs1 where 1: "fat_sector_of e fs ?off = (Some d, fs1)" "length d = 512" "mounted e disk fs1" "geom fs1 = geom fs"
     "\<And>j. unat ?off mod 512 + j < 512 \<Longrightarrow> unat (d ! (unat ?off mod 512 + j)) = ?f (unat ?off + j)"
    using fat_sector_of_mounted [OF m, of ?off] by metis
  let ?k = "unat ?off mod 512"
  have k: "?k + 1 < 512" "?k + 2 < 512" "?k + 3 < 512"
    unfolding off using mod_mult_mult1 [of 4 "unat c" 128] mod_less_divisor [of 128 "unat c"] by simp_all
  let ?w = "le32 (d ! ?k) (d ! (?k + 1)) (d ! (?k + 2)) (d ! (?k + 3))"
  have "unat ?w mod 2 ^ 28 = fat_entry FAT32 ?f (unat c)"
    using 1(5) [of 0] 1(5) [OF k(1)] 1(5) [OF k(2)] 1(5) [OF k(3)]
      fat32_bytes [of ?f "unat c", OF fbytes_less fbytes_less fbytes_less fbytes_less]
    unfolding unat_le32 off by simp
  then have w: "?w AND 0x0FFFFFFF = of_nat (fat_entry FAT32 ?f (unat c))" unfolding entry32_word by (rule arg_cong)
  have "next28 e fs c = Some (Some (?w AND 0x0FFFFFFF), fs1)"
    using k by (simp add: next28_def Let_def 1(1,2) mask_offset rd32_def rd_Some del: One_nat_def)
  then show ?thesis using that w 1(3,4) by simp
qed

lemma next_entry_mounted:
  assumes "mounted e disk fs" and "unat c < unat (endcluster fs)"
  obtains fs' where
    "next_entry (fat_type fs) e fs c = Some (Some (of_nat (fat_entry (fat_type fs) (fbytes disk fs) (unat c))), fs')"
    and "mounted e disk fs'" and "geom fs' = geom fs"
proof (cases "fat_type fs")
  case FAT12
  then show ?thesis using next12_mounted [OF assms(1) FAT12 assms(2)] that by (metis next_entry.simps(1))
next
  case FAT16
  then show ?thesis using next16_mounted [OF assms(1) FAT16 assms(2)] that by (metis next_entry.simps(2))
next
  case FAT32
  then show ?thesis using next28_mounted [OF assms(1) FAT32 assms(2)] that by (metis next_entry.simps(3))
qed

subsection \<open>Walking a cluster chain\<close>

definition eoc :: "fat_type \<Rightarrow> nat \<Rightarrow> bool" where
  "eoc t n \<longleftrightarrow> unat (end_of_chain t) \<le> n"

text \<open>A chain of clusters in a file allocation table, each a cluster of the file system.\<close>

fun is_chain :: "fat_type \<Rightarrow> (nat \<Rightarrow> nat) \<Rightarrow> nat \<Rightarrow> nat list \<Rightarrow> bool" where
  "is_chain t b n [] \<longleftrightarrow> False"
| "is_chain t b n [c] \<longleftrightarrow> 2 \<le> c \<and> c < n \<and> eoc t (fat_entry t b c)"
| "is_chain t b n (c # d # cs) \<longleftrightarrow> 2 \<le> c \<and> c < n \<and> fat_entry t b c = d \<and> is_chain t b n (d # cs)"

definition cluster_start :: "libfat_filesystem \<Rightarrow> nat \<Rightarrow> nat" where
  "cluster_start fs c = unat (data fs) + (c - 2) * 2 ^ clustshift fs"

definition cluster_sectors :: "libfat_filesystem \<Rightarrow> nat \<Rightarrow> u64 list" where
  "cluster_sectors fs c = map (\<lambda>j. of_nat (cluster_start fs c + j)) [0..<2 ^ clustshift fs]"

definition chain_sectors :: "libfat_filesystem \<Rightarrow> nat list \<Rightarrow> u64 list" where
  "chain_sectors fs cs = concat (map (cluster_sectors fs) cs)"

lemma cluster_bounds:
  assumes "wf fs" and "2 \<le> c" and "c < unat (endcluster fs)" and "j < 2 ^ clustshift fs"
  shows "cluster_start fs c + j < unat (end_sec fs)"
proof -
  have "(c - 2) * 2 ^ clustshift fs + j < (c - 2 + 1) * 2 ^ clustshift fs" using assms(4) by simp
  also have "\<dots> \<le> (unat (endcluster fs) - 2) * 2 ^ clustshift fs"
    using assms(2,3) by (intro mult_right_mono) linarith+
  finally show ?thesis using assms(1) by (simp add: cluster_start_def wf_def)
qed

lemma unat_sector:
  assumes "wf fs" and "2 \<le> c" and "c < unat (endcluster fs)" and "j < 2 ^ clustshift fs"
  shows "unat (of_nat (cluster_start fs c + j) :: u64) = cluster_start fs c + j"
  using cluster_bounds [OF assms] assms(1) by (intro unat_of_nat_id) (simp add: wf_def)

lemma clustmask:
  assumes "wf fs"
  shows "(ucast (clustsize fs - 1) :: u64) = mask (clustshift fs)"
proof -
  have c: "clustsize fs - 1 = mask (clustshift fs)" "clustshift fs \<le> 8"
    using assms by (simp_all add: wf_def mask_eq_exp_minus_1)
  then show ?thesis unfolding c(1) by (intro bit_word_eqI) (auto simp: bit_simps)
qed

lemma sector_parts:
  assumes "wf fs" and "2 \<le> c" and "c < unat (endcluster fs)" and "j < 2 ^ clustshift fs"
  defines "s \<equiv> of_nat (cluster_start fs c + j) :: u64"
  shows "\<not> s < data fs" and "s < end_sec fs" and "unat (s - data fs) = (c - 2) * 2 ^ clustshift fs + j"
    and "s \<noteq> - 1" and "s \<noteq> 0"
proof -
  note u = unat_sector [OF assms(1-4), folded s_def]
  have b: "cluster_start fs c + j < 2 ^ 32" using cluster_bounds [OF assms(1-4)] assms(1) by (simp add: wf_def)
  show d: "\<not> s < data fs" and "s < end_sec fs"
    using u cluster_bounds [OF assms(1-4)] by (simp_all add: word_less_nat_alt cluster_start_def)
  then show "unat (s - data fs) = (c - 2) * 2 ^ clustshift fs + j"
    using u by (simp add: unat_minus_id not_less cluster_start_def)
  show "s \<noteq> - 1" using \<open>s < end_sec fs\<close> word_order.extremum_strict by blast
  have "1 \<le> (fat_offset (fat_type fs) (unat (endcluster fs)) + 511) div 512"
    using assms(1) by (cases "fat_type fs") (auto simp: wf_def)
  then have "0 < unat (rootdir fs)" using assms(1) unfolding wf_def by linarith
  then have "0 < unat (data fs)" using assms(1) unfolding wf_def word_le_nat_alt by linarith
  then show "s \<noteq> 0" using u by (auto simp: word_unat_eq_iff cluster_start_def)
qed

lemma clustertosector_ok:
  assumes "wf fs" and "2 \<le> c" and "c < unat (endcluster fs)"
  shows "libfat_clustertosector fs (of_nat c) = of_nat (cluster_start fs c)"
proof -
  have lim: "unat (endcluster fs) \<le> 0xffffff6" using assms(1) cluster_limit_less order_trans by (auto simp: wf_def)
  have u: "unat (of_nat c :: i32) = c" using assms(3) lim by (intro unat_of_nat_id) simp
  have u2: "unat (of_nat c - 2 :: i32) = c - 2" using u assms(2) by (simp add: unat_minus_id word_le_nat_alt)
  have s2: "(scast (of_nat c - 2 :: i32) :: u64) = of_nat (c - 2)"
  proof -
    have "sint (of_nat c - 2 :: i32) = int (c - 2)" using u2 assms(3) lim by (simp add: sint_small)
    then have "(of_int (sint (of_nat c - 2 :: i32)) :: u64) = of_int (int (c - 2))" by (rule arg_cong)
    then show ?thesis by (simp only: of_int_sint of_int_of_nat_eq)
  qed
  have "(of_nat c :: i32) \<noteq> 0" "\<not> of_nat c <s (2 :: i32)" "\<not> endcluster fs \<le>s (of_nat c :: i32)"
    using u assms(2,3) lim by (auto simp: word_unat_eq_iff sless_unat sle_unat)
  then show ?thesis
    by (simp add: libfat_clustertosector_def s2 cluster_start_def push_bit_eq_mult)
qed

lemma nextsector_inside:
  assumes "wf fs" and "2 \<le> c" and "c < unat (endcluster fs)" and "Suc j < 2 ^ clustshift fs"
  shows "libfat_nextsector e fs (of_nat (cluster_start fs c + j)) = Some (of_nat (cluster_start fs c + Suc j), fs)"
proof -
  let ?s = "of_nat (cluster_start fs c + j) :: u64"
  have j: "j < 2 ^ clustshift fs" using assms(4) by simp
  note p = sector_parts [OF assms(1-3) j]
  have "unat (?s - data fs) mod 2 ^ clustshift fs \<noteq> 2 ^ clustshift fs - 1"
    using p(3) j assms(4) by simp
  then have "NOT (?s - data fs) AND ucast (clustsize fs - 1) \<noteq> 0"
    using clustmask [OF assms(1)] not_and_mask [of "clustshift fs" "?s - data fs"] assms(1) by (simp add: wf_def)
  then show ?thesis using p(1) by (simp add: libfat_nextsector_def Let_def)
qed

lemma nextsector_last:
  assumes m: "mounted e disk fs" and "2 \<le> c" and "c < unat (endcluster fs)" and j: "Suc j = 2 ^ clustshift fs"
  obtains fs' where "libfat_nextsector e fs (of_nat (cluster_start fs c + j)) =
     Some (if eoc (fat_type fs) (fat_entry (fat_type fs) (fbytes disk fs) c) then 0
           else libfat_clustertosector fs (of_nat (fat_entry (fat_type fs) (fbytes disk fs) c)), fs')"
    and "mounted e disk fs'" and "geom fs' = geom fs"
proof -
  let ?s = "of_nat (cluster_start fs c + j) :: u64"
  let ?n = "fat_entry (fat_type fs) (fbytes disk fs) c"
  have wf: "wf fs" using m by (simp add: mounted_def)
  have lim: "unat (endcluster fs) \<le> 0xffffff6" using wf cluster_limit_less order_trans by (auto simp: wf_def)
  have j': "j < 2 ^ clustshift fs" using j by simp
  note p = sector_parts [OF wf assms(2,3) j']
  have "unat (?s - data fs) mod 2 ^ clustshift fs = 2 ^ clustshift fs - 1"
    using p(3) j by simp
  then have 1: "NOT (?s - data fs) AND ucast (clustsize fs - 1) = 0"
    using clustmask [OF wf] not_and_mask [of "clustshift fs" "?s - data fs"] wf by (simp add: wf_def)
  have dv: "unat (drop_bit (clustshift fs) (?s - data fs)) = c - 2"
    unfolding unat_drop_bit p(3) using j' by simp
  have "unat (2 + drop_bit (clustshift fs) (?s - data fs)) = c"
    using dv assms(2,3) lim by (subst unat_add_id) simp_all
  then have u: "unat (ucast (2 + drop_bit (clustshift fs) (?s - data fs)) :: i32) = c"
    using assms(3) lim by (simp add: unat_ucast)
  then have 2: "\<not> endcluster fs \<le>s ucast (2 + drop_bit (clustshift fs) (?s - data fs))"
    using assms(3) lim by (simp add: sle_unat)
  obtain fs' where f: "next_entry (fat_type fs) e fs (ucast (2 + drop_bit (clustshift fs) (?s - data fs))) = Some (Some (of_nat ?n), fs')"
    "mounted e disk fs'" "geom fs' = geom fs"
    using next_entry_mounted [OF m, of "ucast (2 + drop_bit (clustshift fs) (?s - data fs))"] assms(3) unfolding u by blast
  have n: "?n < 2 ^ 28" by (intro fat_entry_less28 fbytes_less)
  then have "unat (of_nat ?n :: i32) = ?n" by (intro unat_of_nat_id) simp
  then have 3: "end_of_chain (fat_type fs) \<le>s of_nat ?n \<longleftrightarrow> eoc (fat_type fs) ?n"
    unfolding eoc_def using n by (subst sle_unat) (cases "fat_type fs"; simp)+
  have "libfat_clustertosector fs' (of_nat ?n) = libfat_clustertosector fs (of_nat ?n)"
    unfolding libfat_clustertosector_def geom_sel [OF f(3)] ..
  then have "libfat_nextsector e fs ?s =
     Some (if eoc (fat_type fs) ?n then 0 else libfat_clustertosector fs (of_nat ?n), fs')"
    using p(1) 1 2 3 f(1) by (simp add: libfat_nextsector_def Let_def geom_sel [OF f(3)])
  then show ?thesis using that f by blast
qed

text \<open>The next sector along a chain, from any state of the cache.\<close>

lemma nth_cluster_sectors:
  "length (cluster_sectors fs c) = 2 ^ clustshift fs"
  "j < 2 ^ clustshift fs \<Longrightarrow> cluster_sectors fs c ! j = of_nat (cluster_start fs c + j)"
  by (simp_all add: cluster_sectors_def)

lemma eoc_not_cluster: "n \<le> cluster_limit t \<Longrightarrow> \<not> eoc t n"
  by (cases t) (simp_all add: eoc_def)

lemma is_chain_hd: "is_chain t b n (c # cs) \<Longrightarrow> 2 \<le> c \<and> c < n"
  by (cases cs) auto

lemma nextsector_chain:
  assumes m: "mounted e disk fs"
  shows "is_chain (fat_type fs) (fbytes disk fs) (unat (endcluster fs)) cs \<Longrightarrow>
    i < length (chain_sectors fs cs) \<Longrightarrow>
    \<exists>fs'. libfat_nextsector e fs (chain_sectors fs cs ! i) =
       Some (if Suc i < length (chain_sectors fs cs) then chain_sectors fs cs ! Suc i else 0, fs') \<and>
     mounted e disk fs' \<and> geom fs' = geom fs"
proof (induction cs arbitrary: i)
  case Nil
  then show ?case by simp
next
  case (Cons c cs)
  have wf: "wf fs" using m by (simp add: mounted_def)
  let ?N = "2 ^ clustshift fs :: nat"
  have c: "2 \<le> c" "c < unat (endcluster fs)" using is_chain_hd [OF Cons.prems(1)] by auto
  have S: "chain_sectors fs (c # cs) = cluster_sectors fs c @ chain_sectors fs cs" by (simp add: chain_sectors_def)
  note len = nth_cluster_sectors(1) [of fs c]
  consider "Suc i < ?N" | "Suc i = ?N" | "?N \<le> i" by linarith
  then show ?case
  proof cases
    case 1
    then show ?thesis
      using nextsector_inside [OF wf c 1, of e] m by (auto simp: S nth_append len nth_cluster_sectors(2))
  next
    case 2
    obtain fs' where f: "libfat_nextsector e fs (of_nat (cluster_start fs c + i)) =
       Some (if eoc (fat_type fs) (fat_entry (fat_type fs) (fbytes disk fs) c) then 0
           else libfat_clustertosector fs (of_nat (fat_entry (fat_type fs) (fbytes disk fs) c)), fs')"
      "mounted e disk fs'" "geom fs' = geom fs" using nextsector_last [OF m c 2] by blast
    have i: "chain_sectors fs (c # cs) ! i = of_nat (cluster_start fs c + i)"
      using 2 by (simp add: S nth_append len nth_cluster_sectors(2))
    show ?thesis
    proof (cases cs)
      case Nil
      then have "eoc (fat_type fs) (fat_entry (fat_type fs) (fbytes disk fs) c)" using Cons.prems(1) by simp
      then show ?thesis using f i 2 Nil by (auto simp: S len chain_sectors_def)
    next
      case (Cons d ds)
      have d: "fat_entry (fat_type fs) (fbytes disk fs) c = d" "2 \<le> d" "d < unat (endcluster fs)"
        using Cons.prems(1) is_chain_hd [of _ _ _ d ds] Cons by auto
      have "\<not> eoc (fat_type fs) d" using d(3) wf by (intro eoc_not_cluster) (simp add: wf_def)
      moreover have "chain_sectors fs (c # cs) ! Suc i = of_nat (cluster_start fs d)"
        using 2 by (simp add: S Cons chain_sectors_def nth_append len nth_cluster_sectors)
      moreover have "Suc i < length (chain_sectors fs (c # cs))"
        using 2 by (simp add: S Cons chain_sectors_def len nth_cluster_sectors)
      ultimately show ?thesis using f i d clustertosector_ok [OF wf d(2,3)] by auto
    qed
  next
    case 3
    have i: "i - ?N < length (chain_sectors fs cs)" using Cons.prems(2) 3 by (auto simp: S len)
    then have "cs \<noteq> []" by (auto simp: chain_sectors_def)
    then have "is_chain (fat_type fs) (fbytes disk fs) (unat (endcluster fs)) cs"
      using Cons.prems(1) by (cases cs) auto
    from Cons.IH [OF this i] show ?thesis using 3 by (auto simp: S nth_append len Suc_diff_le)
  qed
qed

subsection \<open>Directories\<close>

text \<open>
  The sectors of a directory: the fixed root directory of FAT12 and FAT16 (cluster 0 without a
  root cluster), or those of a cluster chain.
\<close>

definition root_sectors :: "libfat_filesystem \<Rightarrow> u64 list" where
  "root_sectors fs = map of_nat [unat (rootdir fs)..<unat (data fs)]"

definition directory :: "(u64 \<Rightarrow> buf) \<Rightarrow> libfat_filesystem \<Rightarrow> i32 \<Rightarrow> u64 list \<Rightarrow> bool" where
  "directory disk fs dirclust S \<longleftrightarrow>
    (let c = (if dirclust = 0 then rootcluster fs else dirclust)
     in S \<noteq> [] \<and>
        (if c = 0 then S = root_sectors fs
         else \<exists>cs. is_chain (fat_type fs) (fbytes disk fs) (unat (endcluster fs)) cs \<and>
                   c = of_nat (hd cs) \<and> S = chain_sectors fs cs))"

text \<open>
  The specification of the search: the entries in order, as pairs of a sector and an offset; the
  first one with the name before the first entry whose name starts with a zero byte.
\<close>

definition sector_entries :: "u64 \<Rightarrow> (u64 \<times> nat) list" where
  "sector_entries s = map (\<lambda>k. (s, 32 * k)) [0..<16]"

fun dir_find :: "(u64 \<Rightarrow> buf) \<Rightarrow> buf \<Rightarrow> (u64 \<times> nat) list \<Rightarrow> (u64 \<times> nat) option" where
  "dir_find disk name [] = None"
| "dir_find disk name ((s, k) # ps) =
    (if take 11 (drop k (disk s)) = name then Some (s, k)
     else if disk s ! k = 0 then None else dir_find disk name ps)"

definition entry_cluster :: "buf \<Rightarrow> i32" where
  "entry_cluster ent =
    (if \<forall>b \<in> set (drop 28 ent). b = 0 then 0 else le32 (ent ! 26) (ent ! 27) (ent ! 20) (ent ! 21))"

fun dir_result :: "(u64 \<Rightarrow> buf) \<Rightarrow> (u64 \<times> nat) option \<Rightarrow> i32 \<times> libfat_direntry option" where
  "dir_result disk None = (- 2, None)"
| "dir_result disk (Some (s, k)) =
    (let ent = take 32 (drop k (disk s))
     in (entry_cluster ent, Some \<lparr>de_entry = ent, de_sector = s, de_offset = k\<rparr>))"

lemma le32_halves: "ucast (le16 a b) + push_bit 16 (ucast (le16 c d)) = le32 a b c d"
proof -
  have l: "unat (ucast (le16 x y) :: u32) = unat x + 256 * unat y" for x y
    using unat_less [of "le16 x y"] by (simp add: unat_ucast unat_le16 del: unsigned_less)
  have lt: "unat x + 256 * unat y < 2 ^ 16" for x y :: byte
    using unat_byte [of x] unat_byte [of y] by simp
  have p: "unat (push_bit 16 (ucast (le16 c d)) :: u32) = (unat c + 256 * unat d) * 2 ^ 16"
    using lt [of c d] by (subst unat_push_bit) (simp_all add: l)
  have "unat (ucast (le16 a b) + push_bit 16 (ucast (le16 c d)) :: u32) = unat (le32 a b c d)"
    using lt [of a b] lt [of c d] by (subst unat_add_id) (simp_all add: l p unat_le32)
  then show ?thesis by (simp only: word_unat_eq_iff)
qed

lemma le32_eq_0: "le32 a b c d = 0 \<longleftrightarrow> a = 0 \<and> b = 0 \<and> c = 0 \<and> d = 0"
  using unat_le32 [of a b c d] by (auto simp: word_unat_eq_iff)

lemma found_cluster_entry:
  assumes "k + 32 \<le> length d"
  shows "found_cluster d k = Some (entry_cluster (take 32 (drop k d)))"
proof -
  have dr: "drop 28 (take 32 (drop k d)) = [d ! (k + 28), d ! (k + 29), d ! (k + 30), d ! (k + 31)]"
    using assms by (intro nth_equalityI) (auto simp: less_Suc_eq numeral_eq_Suc)
  show ?thesis
    using assms by (simp add: found_cluster_def entry_cluster_def rd32_def rd16_def rd_Some le32_eq_0 dr le32_halves
        add.commute [of k])
qed

lemma scan_sector_find:
  assumes "length (disk s) = LIBFAT_SECTOR_SIZE" and "k \<le> 16"
  shows "\<exists>r. scan_sector (disk s) name (32 * k) = Some r \<and>
    (\<forall>j. r = Match j \<longrightarrow> j + 32 \<le> 512) \<and>
    (\<forall>ps. dir_find disk name (map (\<lambda>k. (s, 32 * k)) [k..<16] @ ps) =
       (case r of Match j \<Rightarrow> Some (s, j) | High_water \<Rightarrow> None | Sector_done \<Rightarrow> dir_find disk name ps))"
  using assms(2)
proof (induction "16 - k" arbitrary: k)
  case 0
  then show ?case by (subst scan_sector.simps) (simp add: LIBFAT_SECTOR_SIZE_def)
next
  case (Suc n)
  then have k: "k < 16" by simp
  have u: "[k..<16] = k # [Suc k..<16]" using k by (rule upt_conv_Cons)
  have len: "length (disk s) = 512" using assms(1) by (simp add: LIBFAT_SECTOR_SIZE_def)
  have sc: "scan_sector (disk s) name (32 * k) =
      (if take 11 (drop (32 * k) (disk s)) = name then Some (Match (32 * k))
       else if disk s ! (32 * k) = 0 then Some High_water else scan_sector (disk s) name (32 * Suc k))"
    using k len by (subst scan_sector.simps) (simp add: LIBFAT_SECTOR_SIZE_def slice_Some rd_Some add.commute)
  have "n = 16 - Suc k" "Suc k \<le> 16" using Suc.hyps(2) by simp_all
  from Suc.hyps(1) [OF this] show ?case unfolding sc u using k by auto
qed

text \<open>What the search needs of the sectors of a directory.\<close>

definition walk :: "env \<Rightarrow> (u64 \<Rightarrow> buf) \<Rightarrow> libfat_filesystem \<Rightarrow> u64 list \<Rightarrow> bool" where
  "walk e disk fs S \<longleftrightarrow> (\<forall>s \<in> set S. s \<noteq> 0 \<and> s \<noteq> - 1 \<and> s < end_sec fs) \<and>
    (\<forall>fs' i. mounted e disk fs' \<longrightarrow> geom fs' = geom fs \<longrightarrow> i < length S \<longrightarrow>
      (\<exists>fs''. libfat_nextsector e fs' (S ! i) = Some (if Suc i < length S then S ! Suc i else 0, fs'') \<and>
        mounted e disk fs'' \<and> geom fs'' = geom fs))"

lemma walk_step:
  assumes "walk e disk fs S" "mounted e disk fs'" "geom fs' = geom fs" "i < length S"
  shows "\<exists>fs''. libfat_nextsector e fs' (S ! i) = Some (if Suc i < length S then S ! Suc i else 0, fs'') \<and>
        mounted e disk fs'' \<and> geom fs'' = geom fs"
  using assms unfolding walk_def by blast

lemma search_loop_walk:
  assumes w: "walk e disk fs S"
  shows "i \<le> length S \<Longrightarrow> mounted e disk fs' \<Longrightarrow> geom fs' = geom fs \<Longrightarrow>
    \<exists>fs''. search_loop e fs' name (if i < length S then S ! i else 0) =
       Some (dir_result disk (dir_find disk name (concat (map sector_entries (drop i S)))), fs'') \<and>
     mounted e disk fs'' \<and> geom fs'' = geom fs"
proof (induction "length S - i" arbitrary: i fs')
  case 0
  then show ?case by (subst search_loop.simps) simp
next
  case (Suc n)
  then have i: "i < length S" by simp
  let ?s = "S ! i"
  have s: "?s \<noteq> 0" "?s \<noteq> - 1" "?s < end_sec fs'"
    using w i nth_mem [OF i] by (auto simp: walk_def geom_sel [OF Suc.prems(3)])
  obtain fs1 where 1: "libfat_get_sector e fs' ?s = (Some (disk ?s), fs1)" "mounted e disk fs1" "geom fs1 = geom fs'"
    using get_sector_mounted [OF Suc.prems(2) s(3)] by blast
  have g1: "geom fs1 = geom fs" using 1(3) Suc.prems(3) by simp
  have len: "length (disk ?s) = LIBFAT_SECTOR_SIZE" using Suc.prems(2) s(3) by (simp add: mounted_def)
  obtain r where r: "scan_sector (disk ?s) name 0 = Some r" "\<And>j. r = Match j \<Longrightarrow> j + 32 \<le> 512"
    "\<And>ps. dir_find disk name (sector_entries ?s @ ps) =
       (case r of Match j \<Rightarrow> Some (?s, j) | High_water \<Rightarrow> None | Sector_done \<Rightarrow> dir_find disk name ps)"
    using scan_sector_find [of disk ?s 0 name, OF len] unfolding sector_entries_def by auto
  have d: "concat (map sector_entries (drop i S)) = sector_entries ?s @ concat (map sector_entries (drop (Suc i) S))"
    using i by (simp add: drop_nth_Cons)
  show ?case
  proof (cases r)
    case (Match j)
    then have "j + 32 \<le> length (disk ?s)" using r(2) len by (simp add: LIBFAT_SECTOR_SIZE_def)
    then have "search_loop e fs' name ?s = Some (dir_result disk (Some (?s, j)), fs1)"
      using s r(1) Match by (subst search_loop.simps) (simp add: 1(1) found_cluster_entry slice_Some Let_def)
    then show ?thesis using i 1(2) g1 by (simp add: d r(3) Match)
  next
    case High_water
    then have "search_loop e fs' name ?s = Some (dir_result disk None, fs1)"
      using s r(1) by (subst search_loop.simps) (simp add: 1(1))
    then show ?thesis using i 1(2) g1 by (simp add: d r(3) High_water)
  next
    case Sector_done
    obtain fs2 where 2: "libfat_nextsector e fs1 ?s = Some (if Suc i < length S then S ! Suc i else 0, fs2)"
      "mounted e disk fs2" "geom fs2 = geom fs" using walk_step [OF w 1(2) g1 i] by blast
    have "search_loop e fs' name ?s = search_loop e fs2 name (if Suc i < length S then S ! Suc i else 0)"
      using s r(1) Sector_done by (subst search_loop.simps) (simp add: 1(1) 2(1))
    moreover have "n = length S - Suc i" "Suc i \<le> length S" using Suc.hyps(2) i by simp_all
    ultimately show ?thesis using Suc.hyps(1) [OF _ _ 2(2,3)] i by (simp add: d r(3) Sector_done)
  qed
qed

lemma chain_sectors_geom: "geom fs' = geom fs \<Longrightarrow> chain_sectors fs' cs = chain_sectors fs cs"
  unfolding chain_sectors_def cluster_sectors_def cluster_start_def by (simp only: geom_sel [of fs' fs])

lemma chain_walk:
  assumes m: "mounted e disk fs" and c: "is_chain (fat_type fs) (fbytes disk fs) (unat (endcluster fs)) cs"
  shows "walk e disk fs (chain_sectors fs cs)"
proof -
  have wf: "wf fs" using m by (simp add: mounted_def)
  have "2 \<le> c \<and> c < unat (endcluster fs)" if "c \<in> set cs" for c
    using c that by (induction "fat_type fs" "fbytes disk fs" "unat (endcluster fs)" cs rule: is_chain.induct) auto
  then have "\<forall>s \<in> set (chain_sectors fs cs). s \<noteq> 0 \<and> s \<noteq> - 1 \<and> s < end_sec fs"
    using sector_parts [OF wf] by (fastforce simp: chain_sectors_def cluster_sectors_def simp del: of_nat_add)
  moreover have "\<exists>fs''. libfat_nextsector e fs' (chain_sectors fs cs ! i) =
        Some (if Suc i < length (chain_sectors fs cs) then chain_sectors fs cs ! Suc i else 0, fs'') \<and>
        mounted e disk fs'' \<and> geom fs'' = geom fs"
    if "mounted e disk fs'" "geom fs' = geom fs" "i < length (chain_sectors fs cs)" for fs' i
    using nextsector_chain [OF that(1), of cs i] that(3) c
    unfolding chain_sectors_geom [OF that(2)] geom_sel [OF that(2)] that(2) by blast
  ultimately show ?thesis unfolding walk_def by blast
qed

lemma root_walk:
  assumes m: "mounted e disk fs"
  shows "walk e disk fs (root_sectors fs)"
proof -
  have wf: "wf fs" using m by (simp add: mounted_def)
  have b: "unat (rootdir fs) \<le> unat (data fs)" "unat (data fs) < unat (end_sec fs)" "unat (end_sec fs) < 2 ^ 32"
    using wf by (simp_all add: wf_def word_le_nat_alt word_less_nat_alt)
  have pos: "0 < unat (rootdir fs)"
  proof -
    have "1 \<le> (fat_offset (fat_type fs) (unat (endcluster fs)) + 511) div 512"
      using wf by (cases "fat_type fs") (auto simp: wf_def)
    then show ?thesis using wf unfolding wf_def by linarith
  qed
  have u: "unat (of_nat n :: u64) = n" if "n \<le> unat (data fs)" for n
    using that b by (intro unat_of_nat_id) simp
  have "s \<noteq> 0 \<and> s \<noteq> - 1 \<and> s < end_sec fs" if s: "s \<in> set (root_sectors fs)" for s
  proof -
    obtain n where n: "s = of_nat n" "unat (rootdir fs) \<le> n" "n < unat (data fs)"
      using s by (auto simp: root_sectors_def)
    then have "s < end_sec fs" "s \<noteq> 0" using u [of n] b pos by (auto simp: word_less_nat_alt word_unat_eq_iff)
    then show ?thesis using word_order.extremum_strict by blast
  qed
  moreover have "libfat_nextsector e fs' (root_sectors fs ! i) =
        Some (if Suc i < length (root_sectors fs) then root_sectors fs ! Suc i else 0, fs')"
    if g: "geom fs' = geom fs" and i: "i < length (root_sectors fs)" for fs' i
  proof -
    let ?n = "unat (rootdir fs) + i"
    have n: "?n < unat (data fs)" "Suc i < length (root_sectors fs) \<longleftrightarrow> Suc ?n < unat (data fs)"
      using i by (auto simp: root_sectors_def)
    have nth: "root_sectors fs ! i = of_nat ?n"
      "Suc i < length (root_sectors fs) \<Longrightarrow> root_sectors fs ! Suc i = of_nat (Suc ?n)"
      using i by (auto simp: root_sectors_def)
    have c: "(of_nat ?n :: u64) < data fs" "\<not> (of_nat ?n :: u64) < rootdir fs"
      "(of_nat ?n + 1 :: u64) < data fs \<longleftrightarrow> Suc ?n < unat (data fs)"
      using u [of ?n] u [of "Suc ?n"] n by (auto simp: word_less_nat_alt add.commute [of _ 1] simp del: of_nat_add)
    have s1: "(of_nat ?n + 1 :: u64) = of_nat (Suc ?n)" by simp
    show ?thesis unfolding libfat_nextsector_def Let_def geom_sel [OF g] nth(1)
      using c n(2) nth(2) s1 by (simp del: of_nat_add of_nat_Suc)
  qed
  ultimately show ?thesis using m unfolding walk_def by blast
qed

lemma directory_walk:
  assumes m: "mounted e disk fs" and d: "directory disk fs dirclust S"
  shows "walk e disk fs S \<and> libfat_clustertosector fs dirclust = S ! 0 \<and> S \<noteq> []"
proof (cases "(if dirclust = 0 then rootcluster fs else dirclust) = 0")
  case True
  then have "S = root_sectors fs" "S \<noteq> []" "libfat_clustertosector fs dirclust = rootdir fs"
    using d by (auto simp: directory_def libfat_clustertosector_def Let_def split: if_splits)
  moreover have "root_sectors fs \<noteq> [] \<Longrightarrow> root_sectors fs ! 0 = rootdir fs"
    by (auto simp: root_sectors_def)
  ultimately show ?thesis using root_walk [OF m] by simp
next
  case False
  let ?c = "if dirclust = 0 then rootcluster fs else dirclust"
  have wf: "wf fs" using m by (simp add: mounted_def)
  obtain cs where cs: "is_chain (fat_type fs) (fbytes disk fs) (unat (endcluster fs)) cs"
    "?c = of_nat (hd cs)" "S = chain_sectors fs cs" "S \<noteq> []"
    using d False unfolding directory_def Let_def by auto
  obtain c cs' where c: "cs = c # cs'" using cs(1) by (cases cs) auto
  have cb: "2 \<le> c" "c < unat (endcluster fs)" using is_chain_hd cs(1) c by blast+
  have "libfat_clustertosector fs dirclust = libfat_clustertosector fs ?c"
    using False by (simp add: libfat_clustertosector_def)
  also have "\<dots> = of_nat (cluster_start fs c)" using clustertosector_ok [OF wf cb] cs(2) c by simp
  also have "\<dots> = S ! 0"
    by (simp add: cs(3) c chain_sectors_def nth_append nth_cluster_sectors)
  finally show ?thesis using chain_walk [OF m cs(1)] cs(3,4) by simp
qed

subsection \<open>The geometry of an opened file system\<close>

lemma min_fat_size:
  assumes n: "unat (n :: u32) \<le> cluster_limit t - 2" and
    m: "m = (case t of FAT12 \<Rightarrow> (n + 2) + signed_drop_bit 1 (n + 2) | FAT16 \<Rightarrow> push_bit 1 (n + 2) | FAT32 \<Rightarrow> push_bit 2 (n + 2))"
  shows "unat (drop_bit LIBFAT_SECTOR_SHIFT (m + of_nat LIBFAT_SECTOR_SIZE - 1)) = (fat_offset t (unat n + 2) + 511) div 512"
proof -
  have lim: "unat n + 2 \<le> 0xffffff6" using n by (cases t) auto
  have n2: "unat (n + 2) = unat n + 2" using lim by (subst unat_add_id) simp_all
  have um: "unat m = fat_offset t (unat n + 2)"
    using lim n2 signed_drop_bit_small [of "n + 2" 1] unat_push_bit [of "n + 2" 1] unat_push_bit [of "n + 2" 2]
      unat_add_id [of "n + 2" "signed_drop_bit 1 (n + 2)"] unfolding m
    by (cases t) simp_all
  have "m + of_nat LIBFAT_SECTOR_SIZE - 1 = m + 511" by (simp add: LIBFAT_SECTOR_SIZE_def)
  moreover have "unat (m + 511) = unat m + 511"
    using um lim by (subst unat_add_id) (cases t; simp)+
  ultimately show ?thesis unfolding unat_drop_bit LIBFAT_SECTOR_SHIFT_def by (simp only: um) simp
qed

lemma open_layout_wf:
  assumes op: "open_layout fs0 i secs fatsize res fats rootents rootclus = Some fs" and i: "i \<le> 8"
    and fats: "fats \<noteq> 0" "unat fatsize * unat fats < 2 ^ 32"
  shows "wf fs" and "sectors fs = sectors fs0" and "nmalloc fs = nmalloc fs0"
    and "fat_offset (fat_type fs) (unat (endcluster fs)) \<le> 512 * unat fatsize"
proof -
  let ?rs = "drop_bit LIBFAT_SECTOR_SHIFT (push_bit 5 (ucast rootents) + LIBFAT_SECTOR_MASK) :: u32"
  define F where "F = (ucast res :: u64)"
  define R where "R = F + ucast (fatsize * ucast fats)"
  define D where "D = R + ucast ?rs"
  define E where "E = (ucast secs :: u64)"
  define n where "n = (ucast (drop_bit i (E - D)) :: u32)"
  define t where "t = (if n \<le> 0xff4 then FAT12 else if n \<le> 0xfff4 then FAT16 else FAT32)"
  define m where "m = (case t of FAT12 \<Rightarrow> (n + 2) + signed_drop_bit 1 (n + 2) | FAT16 \<Rightarrow> push_bit 1 (n + 2) | FAT32 \<Rightarrow> push_bit 2 (n + 2))"
  have op': "D < E" "n \<le> 0xffffff4" "\<not> fatsize < drop_bit LIBFAT_SECTOR_SHIFT (m + of_nat LIBFAT_SECTOR_SIZE - 1)"
    "fs = fs0\<lparr>clustsize := push_bit i 1, clustshift := i, endcluster := n + 2, fat := F, rootdir := R,
              data := D, end_sec := E, fat_type := t, rootcluster := (if t = FAT32 then rootclus else 0)\<rparr>"
    using op unfolding open_layout_def Let_def F_def [symmetric] R_def [symmetric] D_def [symmetric]
      E_def [symmetric] n_def [symmetric] t_def m_def
    by (auto split: if_splits elim!: order_trans)
  show "sectors fs = sectors fs0" "nmalloc fs = nmalloc fs0" by (simp_all add: op'(4))
  have uF: "unat F < 2 ^ 16" unfolding F_def using unat_less [of res] by (simp add: unat_ucast)
  have "unat (fatsize * ucast fats) = unat fatsize * unat fats"
    using fats(2) by (simp add: unat_word_ariths unat_ucast_byte)
  then have uR: "unat R = unat F + unat fatsize * unat fats"
    unfolding R_def using uF fats(2) by (subst unat_add_id) (simp_all add: unat_ucast)
  have "unat ?rs < 2 ^ 32" using unat_less [of ?rs] by simp
  then have uD: "unat D = unat R + unat ?rs"
    unfolding D_def using uR uF fats(2) by (subst unat_add_id) (simp_all add: unat_ucast)
  have uE: "unat E < 2 ^ 32" unfolding E_def using unat_less [of secs] by (simp add: unat_ucast)
  have DE: "unat D < unat E" using op'(1) by (simp add: word_less_nat_alt)
  have un: "unat n = (unat E - unat D) div 2 ^ i"
  proof -
    have "unat (drop_bit i (E - D)) = (unat E - unat D) div 2 ^ i"
      using op'(1) by (simp add: unat_drop_bit unat_minus_id)
    moreover have "(unat E - unat D) div 2 ^ i < 2 ^ 32" using uE by (meson div_le_dividend diff_le_self le_less_trans)
    ultimately show ?thesis unfolding n_def by (simp add: unat_ucast)
  qed
  have nlim: "unat n \<le> cluster_limit t - 2"
    using op'(2) by (auto simp: t_def word_le_nat_alt)
  have lim: "unat n \<le> 0xffffff4" using op'(2) by (simp add: word_le_nat_alt)
  have n2: "unat (n + 2) = unat n + 2" using lim by (subst unat_add_id) simp_all
  have fz: "(fat_offset t (unat n + 2) + 511) div 512 \<le> unat fatsize"
    using op'(3) min_fat_size [OF nlim m_def] by (simp add: word_less_nat_alt not_less)
  also have "\<dots> \<le> unat fatsize * unat fats" using fats(1) by (simp add: word_unat_eq_iff)
  finally have "unat F + (fat_offset t (unat n + 2) + 511) div 512 \<le> unat R" using uR by simp
  moreover have "unat D + unat n * 2 ^ i \<le> unat E"
    using un DE by (metis div_times_less_eq_dividend le_diff_conv2 less_imp_le add.commute)
  moreover have "R \<le> D" using uD by (simp add: word_le_nat_alt)
  moreover have "unat n + 2 \<le> cluster_limit t" using nlim by (cases t) auto
  ultimately show "wf fs"
    unfolding wf_def using i op'(1) uE by (simp add: op'(4) n2 push_bit_eq_mult del: fat_offset.simps)
  show "fat_offset (fat_type fs) (unat (endcluster fs)) \<le> 512 * unat fatsize" using fz by (simp add: op'(4) n2 del: fat_offset.simps)
qed

lemma clust_loop_power:
  "clust_loop spc i \<le> 8 \<Longrightarrow> push_bit (clust_loop spc i) 1 = spc"
  by (induction spc i rule: clust_loop.induct) (subst clust_loop.simps, subst (asm) (2) clust_loop.simps, auto)

lemma get_sector_empty:
  assumes "libfat_get_sector e fs n = (Some d, fs')" and "sectors fs = []"
  shows "sectors fs' = [(n, d)] \<and> read_fn e n = Some d"
  using assms by (auto simp: libfat_get_sector_def malloc_def libfat_flush_def split: option.splits if_splits)

lemma rd16_eq_Some: "rd16 b i = Some w \<longleftrightarrow> i + 1 < length b \<and> w = le16 (b ! i) (b ! (i + 1))"
  by (auto simp: rd16_def rd_def bind_eq_Some_conv split: if_splits)

lemma rd32_eq_Some:
  "rd32 b i = Some w \<longleftrightarrow> i + 3 < length b \<and> w = le32 (b ! i) (b ! (i + 1)) (b ! (i + 2)) (b ! (i + 3))"
  by (auto simp: rd32_def rd_def bind_eq_Some_conv split: if_splits)

text \<open>The number of sectors of a FAT that the boot sector gives.\<close>

definition bs_fatsize :: "buf \<Rightarrow> nat" where
  "bs_fatsize bs =
    (if le16 (bs ! 22) (bs ! 23) = 0 then unat (le32 (bs ! 36) (bs ! 37) (bs ! 38) (bs ! 39))
     else unat (le16 (bs ! 22) (bs ! 23)))"

lemma libfat_open_Some:
  assumes "libfat_open e = Some (Some fs)"
  obtains bs fs1 res rootents rootclus huge where "read_fn e 0 = Some bs" "sectors fs1 = [(0, bs)]"
    "clust_loop (bs ! 13) 0 \<le> 8"
    "open_layout fs1 (clust_loop (bs ! 13) 0) huge (of_nat (bs_fatsize bs)) res (bs ! 16) rootents rootclus = Some fs"
proof -
  let ?fs0 = "\<lparr>fat_type = FAT12, clustsize = 0, clustshift = 0, endcluster = 0, rootcluster = 0,
                fat = 0, rootdir = 0, data = 0, end_sec = 0, sectors = [], nmalloc = 1\<rparr>"
  obtain bs fs1 where g: "libfat_get_sector e ?fs0 0 = (Some bs, fs1)"
    using assms by (cases "libfat_get_sector e ?fs0 0"; cases "fst (libfat_get_sector e ?fs0 0)")
      (auto simp: libfat_open_def Let_def split: if_splits)
  have fz: "(if le16 (bs ! 22) (bs ! 23) = 0 then le32 (bs ! 36) (bs ! 37) (bs ! 38) (bs ! 39)
     else ucast (le16 (bs ! 22) (bs ! 23))) = of_nat (bs_fatsize bs)"
    by (simp add: bs_fatsize_def)
  show ?thesis
    using assms get_sector_empty [OF g] that fz
    unfolding libfat_open_def Let_def g prod.case
    by (auto simp: bind_eq_Some_conv rd16_eq_Some rd32_eq_Some rd_eq_Some split: if_splits)
qed

text \<open>The bytes of an entry of the table; in a FAT12 it starts or ends in the middle of one.\<close>

fun entry_bytes :: "fat_type \<Rightarrow> nat" where
  "entry_bytes FAT12 = 2"
| "entry_bytes FAT16 = 2"
| "entry_bytes FAT32 = 4"

lemma entry_in_fat:
  assumes "fat_offset t e \<le> bytes" and "n < e"
  shows "fat_offset t n + entry_bytes t \<le> bytes \<or> t = FAT12 \<and> odd e \<and> n = e - 1 \<and> fat_offset t e = bytes"
proof (cases t)
  case FAT12
  show ?thesis
  proof (cases "odd e \<and> n = e - 1")
    case True
    then obtain k where "e = 2 * k + 1" "n = 2 * k" by (auto elim!: oddE)
    then show ?thesis using FAT12 assms(1) by auto
  next
    case False
    have "n + n div 2 + 2 \<le> e + e div 2"
    proof (cases "n + 2 \<le> e")
      case True
      then show ?thesis using div_le_mono [of n e 2] by linarith
    next
      case le: False
      then have n: "Suc n = e" using assms(2) by simp
      then have "even e" using False by auto
      then obtain k where "e = 2 * k" by (elim evenE)
      moreover from this n obtain m where "k = Suc m" by (cases k) auto
      ultimately show ?thesis using n by simp
    qed
    then show ?thesis using FAT12 assms(1) by simp
  qed
qed (use assms in simp_all)

text \<open>C32. A file system that \<open>libfat_open\<close> accepts has a consistent geometry: the FAT lies before the root directory, which
  lies before the data area, whose clusters end at or before the last sector; the type fits the number of clusters; and the FAT
  holds the entries of all clusters, except that in a FAT12 with an odd number of clusters which ends exactly at the end of a sector the last byte of the
  last entry is behind it. The boot sector has to name at least one FAT, and the size of all FATs has to fit in 32
  bits, neither of which the code checks.\<close>

theorem libfat_open_geometry:
  assumes "libfat_open e = Some (Some fs)" and "read_fn e 0 = Some bs"
    and "bs ! 16 \<noteq> 0" and "bs_fatsize bs * unat (bs ! 16) < 2 ^ 32"
  shows "wf fs \<and> coherent e fs \<and> push_bit (clustshift fs) 1 = bs ! 13 \<and>
    (\<forall>n < unat (endcluster fs). fat_offset (fat_type fs) n + entry_bytes (fat_type fs) \<le> 512 * bs_fatsize bs \<or>
       fat_type fs = FAT12 \<and> odd (unat (endcluster fs)) \<and> n = unat (endcluster fs) - 1 \<and>
       fat_offset FAT12 (unat (endcluster fs)) = 512 * bs_fatsize bs)"
proof -
  obtain fs1 res rootents rootclus huge where o: "sectors fs1 = [(0, bs)]" "clust_loop (bs ! 13) 0 \<le> 8"
    "open_layout fs1 (clust_loop (bs ! 13) 0) huge (of_nat (bs_fatsize bs)) res (bs ! 16) rootents rootclus = Some fs"
    using libfat_open_Some [OF assms(1)] assms(2) by (metis option.inject)
  have "bs_fatsize bs < 2 ^ 32" unfolding bs_fatsize_def using unat_less [where 'a = 32] unat_less [where 'a = 16]
    by (auto intro: less_trans [OF unat_less])
  then have f: "unat (of_nat (bs_fatsize bs) :: u32) = bs_fatsize bs" by (intro unat_of_nat_id) simp
  note w = open_layout_wf [OF o(3,2) assms(3), unfolded f, OF assms(4)]
  have "coherent e fs" using w(2) o(1) assms(2) by (simp add: coherent_def)
  moreover have "clustshift fs = clust_loop (bs ! 13) 0"
    using o(3) by (auto simp: open_layout_def Let_def split: if_splits)
  moreover note entry_in_fat [OF w(4)]
  ultimately show ?thesis using clust_loop_power [OF o(2)] w(1) by fastforce
qed

text \<open>C4. From a sector of a directory or file, \<open>libfat_nextsector\<close> gives the next one: along a cluster
  chain of the file allocation table it visits all sectors of each cluster in order and then those
  of the cluster that the table names next, and returns 0 after the last sector of the last
  cluster.\<close>

theorem libfat_nextsector_chain:
  assumes "mounted e disk fs"
    and "is_chain (fat_type fs) (fbytes disk fs) (unat (endcluster fs)) cs"
    and "i < length (chain_sectors fs cs)"
  shows "\<exists>fs'. libfat_nextsector e fs (chain_sectors fs cs ! i) =
       Some (if Suc i < length (chain_sectors fs cs) then chain_sectors fs cs ! Suc i else 0, fs') \<and>
     mounted e disk fs' \<and> geom fs' = geom fs"
  by (rule nextsector_chain [OF assms])

text \<open>C3. On a directory whose chain ends, \<open>libfat_searchdir\<close> terminates and returns the entry and
  the start cluster of the first entry with the given name, and \<open>-2\<close> if there is none before the first
  unused entry. (The comment in \<open>libfat.h\<close> says that it returns 0 if the name is found.)\<close>

theorem libfat_searchdir_correct:
  assumes "mounted e disk fs" and "directory disk fs dirclust S"
  shows "\<exists>fs'. libfat_searchdir e fs dirclust name =
       Some (dir_result disk (dir_find disk name (concat (map sector_entries S))), fs') \<and>
     mounted e disk fs' \<and> geom fs' = geom fs"
  using search_loop_walk [of e disk fs S 0 fs name] directory_walk [OF assms] assms(1)
  by (simp add: libfat_searchdir_def)

subsection \<open>A small file system\<close>

text \<open>A FAT12 volume of six sectors: boot sector, FAT, root directory and three clusters.\<close>

definition demo_boot :: buf where
  "demo_boot = replicate 11 0 @ [0, 2, 1, 1, 0, 1, 16, 0, 6, 0, 0xF0, 1, 0] @ replicate 488 0"

definition demo_fat :: buf where
  "demo_fat = [0xF0, 0xFF, 0xFF, 3, 0xF0, 0xFF] @ replicate 506 0"

definition demo_root :: buf where
  "demo_root = str ''A          '' @ replicate 15 0 @ [2, 0, 9, 0, 0, 0] @
               str ''B          '' @ replicate 15 0 @ [4, 0, 0, 0, 0, 0] @ replicate 448 0"

definition demo_disk :: "u64 \<Rightarrow> buf" where
  "demo_disk n = (if n = 0 then demo_boot else if n = 1 then demo_fat else if n = 2 then demo_root
                  else replicate 512 0)"

definition demo_env :: env where
  "demo_env = \<lparr>read_fn = \<lambda>n. if n < 6 then Some (demo_disk n) else None, malloc_ok = \<lambda>_. True\<rparr>"

definition demo_fs :: libfat_filesystem where
  "demo_fs = \<lparr>fat_type = FAT12, clustsize = 1, clustshift = 0, endcluster = 5, rootcluster = 0,
     fat = 1, rootdir = 2, data = 3, end_sec = 6, sectors = [(0, demo_boot)], nmalloc = 2\<rparr>"

lemma demo_mounted: "mounted demo_env demo_disk demo_fs"
proof -
  have "length (demo_disk n) = LIBFAT_SECTOR_SIZE" for n
    by (simp add: demo_disk_def demo_boot_def demo_fat_def demo_root_def LIBFAT_SECTOR_SIZE_def)
  moreover have "wf demo_fs" by (simp add: wf_def demo_fs_def)
  ultimately show ?thesis
    by (simp add: mounted_def demo_env_def coherent_def) (simp add: demo_fs_def demo_disk_def)
qed

theorem libfat_get_sector_transparent_witness:
  "\<exists>fs'. libfat_get_sector demo_env demo_fs 1 = (Some demo_fat, fs') \<and> coherent demo_env fs'"
proof -
  have "coherent demo_env demo_fs" using demo_mounted by (simp add: mounted_def)
  moreover have "libfat_get_sector demo_env demo_fs 1 =
      (Some demo_fat, demo_fs\<lparr>nmalloc := 3, sectors := [(1, demo_fat), (0, demo_boot)]\<rparr>)"
    by (simp add: libfat_get_sector_def malloc_def demo_env_def demo_fs_def demo_disk_def)
  ultimately show ?thesis using libfat_get_sector_transparent by blast
qed

lemma demo_open: "libfat_open demo_env = Some (Some demo_fs)"
  by code_simp

theorem libfat_open_geometry_witness:
  "libfat_open demo_env = Some (Some demo_fs) \<and> wf demo_fs \<and> fat_offset FAT12 4 + entry_bytes FAT12 \<le> 512"
proof -
  have "read_fn demo_env 0 = Some demo_boot" "demo_boot ! 16 = 1" "bs_fatsize demo_boot = 1"
    by code_simp+
  then show ?thesis using libfat_open_geometry [OF demo_open] demo_open by (simp add: demo_fs_def)
qed

lemma demo_chain: "is_chain FAT12 (fbytes demo_disk demo_fs) 5 [2, 3]"
  by code_simp

theorem libfat_nextsector_chain_witness:
  "\<exists>fs'. libfat_nextsector demo_env demo_fs 3 = Some (4, fs')"
proof -
  have "chain_sectors demo_fs [2, 3] = [3, 4]" by code_simp
  moreover have "is_chain (fat_type demo_fs) (fbytes demo_disk demo_fs) (unat (endcluster demo_fs)) [2, 3]"
    using demo_chain by (simp add: demo_fs_def)
  ultimately show ?thesis
    using libfat_nextsector_chain [OF demo_mounted, of "[2, 3]" 0] by auto
qed

theorem libfat_searchdir_correct_witness:
  "\<exists>fs'. libfat_searchdir demo_env demo_fs 0 (str ''B          '') =
     Some ((0, Some \<lparr>de_entry = take 32 (drop 32 demo_root), de_sector = 2, de_offset = 32\<rparr>), fs')"
proof -
  have "directory demo_disk demo_fs 0 [2]" by (simp add: directory_def demo_fs_def root_sectors_def)
  moreover have "dir_result demo_disk (dir_find demo_disk (str ''B          '') (concat (map sector_entries [2]))) =
     (0, Some \<lparr>de_entry = take 32 (drop 32 demo_root), de_sector = 2, de_offset = 32\<rparr>)"
    by code_simp
  ultimately show ?thesis using libfat_searchdir_correct [OF demo_mounted, of 0 "[2]" "str ''B          ''"] by auto
qed

end
