(* ===== verification/Mangle.thy ===== *)
theory Mangle
  imports Prelude
begin

section \<open>Path names\<close>

text \<open>
  \<open>generic_mangle_name\<close> of \<open>core/fs/lib/mangle.c\<close> and \<open>vfat_mangle_name\<close> of \<open>core/fs/fat/fat.c\<close>: the
  copy of a path name up to the first white space that removes redundant slashes. The lemmas
  show what they compute for a name that fits the buffer, and that a longer name overruns it.
\<close>

definition FILENAME_MAX :: nat where "FILENAME_MAX = 256"

definition not_whitespace :: "byte \<Rightarrow> bool" where
  "not_whitespace c \<longleftrightarrow> c > 32"

text \<open>
  The copy loop. The source is the string at \<open>s\<close> in the buffer \<open>b\<close>, \<open>di\<close> counts the characters
  written and \<open>i\<close> is the counter of the code.
\<close>

function vfat_mangle_loop :: "buf \<Rightarrow> nat \<Rightarrow> buf \<Rightarrow> nat \<Rightarrow> int \<Rightarrow> (buf \<times> nat \<times> int) option" where
  "vfat_mangle_loop b s dst di i =
    do {
      ch \<leftarrow> rd b s;
      if not_whitespace ch then do {
        let c = (if ch = 92 then 47 else ch);
        c1 \<leftarrow> (if c = 47 then rd b (s + 1) else Some 0);
        if c = 47 \<and> (c1 = 47 \<or> c1 = 92) then vfat_mangle_loop b (s + 1) dst di (i - 1)
        else do {
          dst \<leftarrow> wr dst di ch;
          vfat_mangle_loop b (s + 1) dst (di + 1) (i - 1) } }
      else Some (dst, di, i) }"
  by pat_completeness auto
termination
  by (relation "measure (\<lambda>(b, s, _). length b - s)") (auto simp: rd_eq_Some)

text \<open>Trailing slashes are removed, but not a slash that is the whole name.\<close>

fun trim_loop :: "buf \<Rightarrow> nat \<Rightarrow> int \<Rightarrow> nat \<times> int" where
  "trim_loop dst 0 i = (0, i)"
| "trim_loop dst (Suc di) i =
    (if dst ! di \<noteq> 47 then (Suc di, i) else if di = 0 then (Suc di, i) else trim_loop dst di (i + 1))"

definition vfat_mangle_name :: "buf \<Rightarrow> buf \<Rightarrow> nat \<Rightarrow> buf option" where
  "vfat_mangle_name dst b s = do {
     (dst, di, i) \<leftarrow> vfat_mangle_loop b s dst 0 (int FILENAME_MAX - 1);
     let (di, i) = trim_loop dst di i;
     fill dst di 0 (nat (i + 1)) }"

text \<open>The generic version in \<open>core/fs/lib/mangle.c\<close>, which other file systems use.\<close>

function generic_mangle_loop :: "buf \<Rightarrow> nat \<Rightarrow> buf \<Rightarrow> nat \<Rightarrow> int \<Rightarrow> (buf \<times> nat \<times> int) option" where
  "generic_mangle_loop b s dst di i =
    do {
      c \<leftarrow> rd b s;
      if not_whitespace c then do {
        c1 \<leftarrow> (if c = 47 then rd b (s + 1) else Some 0);
        if c = 47 \<and> c1 = 47 then generic_mangle_loop b (s + 1) dst di (i - 1)
        else do {
          dst \<leftarrow> wr dst di c;
          generic_mangle_loop b (s + 1) dst (di + 1) (i - 1) } }
      else Some (dst, di, i) }"
  by pat_completeness auto
termination
  by (relation "measure (\<lambda>(b, s, _). length b - s)") (auto simp: rd_eq_Some)

definition generic_mangle_name :: "buf \<Rightarrow> buf \<Rightarrow> nat \<Rightarrow> buf option" where
  "generic_mangle_name dst b s = do {
     (dst, di, i) \<leftarrow> generic_mangle_loop b s dst 0 (int FILENAME_MAX - 1);
     let (di, i) = trim_loop dst di i;
     fill dst di 0 (nat (i + 1)) }"

declare vfat_mangle_loop.simps [simp del] generic_mangle_loop.simps [simp del]

subsection \<open>What they compute\<close>

fun squeeze :: "buf \<Rightarrow> buf" where
  "squeeze [] = []"
| "squeeze (c # cs) = (if c = 47 \<and> cs \<noteq> [] \<and> hd cs = 47 then squeeze cs else c # squeeze cs)"

definition trim_slashes :: "buf \<Rightarrow> buf" where
  "trim_slashes xs = (let t = rev (dropWhile (\<lambda>c. c = 47) (rev xs)) in if t = [] then take 1 xs else t)"

text \<open>A name is a run of characters that are not white space, followed by one that is.\<close>

definition name_at :: "buf \<Rightarrow> nat \<Rightarrow> buf \<Rightarrow> bool" where
  "name_at b s src \<longleftrightarrow> (\<exists>c R. drop s b = src @ c # R \<and> \<not> not_whitespace c \<and> (\<forall>x \<in> set src. not_whitespace x))"

lemma name_at_Cons:
  assumes "name_at b s (x # src)"
  shows "rd b s = Some x \<and> not_whitespace x \<and> name_at b (s + 1) src \<and>
    rd b (s + 1) = Some (b ! (s + 1)) \<and> (b ! (s + 1) = 47 \<longleftrightarrow> src \<noteq> [] \<and> hd src = 47)"
proof -
  obtain c R where d: "drop s b = x # src @ c # R" "\<not> not_whitespace c" "\<forall>y \<in> set (x # src). not_whitespace y"
    using assms by (auto simp: name_at_def)
  have s: "s < length b" using d(1) by (metis drop_eq_Nil leI list.distinct(1))
  have dS: "drop (s + 1) b = src @ c # R" using arg_cong [OF d(1), of tl] by (simp add: tl_drop drop_Suc)
  have s1: "s + 1 < length b" using dS by (metis drop_eq_Nil leI append_is_Nil_conv list.distinct(1))
  have "b ! s = x" using d(1) s by (metis hd_drop_conv_nth list.sel(1))
  moreover have "b ! (s + 1) = hd (src @ [c])" using dS s1 hd_drop_conv_nth [of "s + 1" b] by (cases src) auto
  moreover have "c \<noteq> 47" using d(2) by (auto simp: not_whitespace_def)
  ultimately show ?thesis using s s1 dS d by (cases src) (auto simp: rd_def name_at_def)
qed

lemma name_at_Nil: "name_at b s [] \<Longrightarrow> rd b s = Some (b ! s) \<and> \<not> not_whitespace (b ! s)"
proof -
  assume "name_at b s []"
  then obtain c R where d: "drop s b = c # R" "\<not> not_whitespace c" by (auto simp: name_at_def)
  then have "s < length b" by (metis drop_eq_Nil leI list.distinct(1))
  then show ?thesis using d by (metis hd_drop_conv_nth list.sel(1) rd_Some)
qed

lemma generic_mangle_loop_ok:
  "name_at b s src \<Longrightarrow> di + length src \<le> length dst \<Longrightarrow>
   generic_mangle_loop b s dst di i =
     Some (take di dst @ squeeze src @ drop (di + length (squeeze src)) dst, di + length (squeeze src), i - int (length src))"
proof (induction src arbitrary: s dst di i)
  case Nil
  then show ?case using name_at_Nil [OF Nil(1)] by (subst generic_mangle_loop.simps) simp
next
  case (Cons x src)
  note n = name_at_Cons [OF Cons.prems(1)]
  show ?case
  proof (cases "x = 47 \<and> src \<noteq> [] \<and> hd src = 47")
    case True
    then show ?thesis using Cons.IH [of "s + 1" di dst "i - 1"] n Cons.prems by (subst generic_mangle_loop.simps) simp
  next
    case False
    have w: "wr dst di x = Some (dst[di := x])" using Cons.prems by (simp add: wr_def)
    have "generic_mangle_loop b s dst di i = generic_mangle_loop b (s + 1) (dst[di := x]) (di + 1) (i - 1)"
      using n False w by (subst generic_mangle_loop.simps) auto
    moreover have "take (di + 1) (dst[di := x]) = take di dst @ [x]" using Cons.prems by (simp add: take_Suc_conv_app_nth)
    ultimately show ?thesis using Cons.IH [of "s + 1" "di + 1" "dst[di := x]" "i - 1"] n Cons.prems False by simp
  qed
qed

lemma vfat_mangle_loop_eq:
  "name_at b s src \<Longrightarrow> 92 \<notin> set src \<Longrightarrow> vfat_mangle_loop b s dst di i = generic_mangle_loop b s dst di i"
proof (induction src arbitrary: s dst di i)
  case Nil
  then show ?case using name_at_Nil [OF Nil(1)] by (subst generic_mangle_loop.simps, subst vfat_mangle_loop.simps) simp
next
  case (Cons x src)
  note n = name_at_Cons [OF Cons.prems(1)]
  have "b ! (s + 1) \<noteq> 92"
  proof (cases src)
    case Nil
    then show ?thesis using name_at_Nil [of b "s + 1"] n by (auto simp: not_whitespace_def)
  next
    case (Cons y r)
    then show ?thesis using name_at_Cons [of b "s + 1" y r] n Cons.prems by (auto simp: rd_def split: if_splits)
  qed
  then show ?case using n Cons by (subst generic_mangle_loop.simps, subst vfat_mangle_loop.simps) (auto split: bind_splits)
qed

lemma trim_loop_ok:
  "di \<le> length dst \<Longrightarrow>
   trim_loop dst di i = (length (trim_slashes (take di dst)), i + int di - int (length (trim_slashes (take di dst)))) \<and>
   take (length (trim_slashes (take di dst))) dst = trim_slashes (take di dst)"
proof (induction di arbitrary: i)
  case (Suc di)
  then have t: "take (Suc di) dst = take di dst @ [dst ! di]" by (simp add: take_Suc_conv_app_nth)
  show ?case
  proof (cases "dst ! di = 47 \<and> di \<noteq> 0")
    case True
    have "trim_slashes (take (Suc di) dst) = trim_slashes (take di dst)" using True t Suc.prems by (auto simp: trim_slashes_def Let_def)
    then show ?thesis using Suc True by simp
  next
    case False
    have "trim_slashes (take (Suc di) dst) = take (Suc di) dst" using False t Suc.prems by (auto simp: trim_slashes_def Let_def)
    then show ?thesis using Suc.prems False by auto
  qed
qed (simp add: trim_slashes_def)

lemma length_squeeze: "length (squeeze src) \<le> length src"
  by (induction src) auto

lemma length_trim: "length (trim_slashes xs) \<le> length xs"
  using length_dropWhile_le [of "\<lambda>c. c = 47" "rev xs"] by (auto simp: trim_slashes_def Let_def)

lemma generic_mangle_loop_overrun:
  "name_at b s src \<Longrightarrow> di \<le> length dst \<Longrightarrow> length dst < di + length (squeeze src) \<Longrightarrow> generic_mangle_loop b s dst di i = None"
proof (induction src arbitrary: s dst di i)
  case (Cons x src)
  note n = name_at_Cons [OF Cons.prems(1)]
  show ?case
  proof (cases "x = 47 \<and> src \<noteq> [] \<and> hd src = 47")
    case True
    then show ?thesis using Cons.IH [of "s + 1" di dst "i - 1"] n Cons.prems by (subst generic_mangle_loop.simps) simp
  next
    case False
    then show ?thesis using Cons.IH [of "s + 1" "di + 1" "dst[di := x]" "i - 1"] n Cons.prems
      by (subst generic_mangle_loop.simps) (auto simp: wr_def)
  qed
qed simp

lemma generic_mangle_name_ok:
  assumes "name_at b s src" and "length dst = FILENAME_MAX" and "length src < FILENAME_MAX"
  defines "nm \<equiv> trim_slashes (squeeze src)" and "used \<equiv> FILENAME_MAX - (length src - length (squeeze src))"
  shows "generic_mangle_name dst b s = Some (nm @ replicate (used - length nm) 0 @ drop used dst)"
proof -
  let ?q = "squeeze src"
  let ?d = "?q @ drop (length ?q) dst"
  have q: "length ?q \<le> length src" by (rule length_squeeze)
  have t: "length nm \<le> length ?q" unfolding nm_def by (rule length_trim)
  have l: "generic_mangle_loop b s dst 0 (int FILENAME_MAX - 1) = Some (?d, length ?q, int FILENAME_MAX - 1 - int (length src))"
    using generic_mangle_loop_ok [OF assms(1), of 0 dst] assms(2,3) by simp
  have d: "length ?d = FILENAME_MAX" using q assms(2,3) by simp
  have tr: "trim_loop ?d (length ?q) i = (length nm, i + int (length ?q) - int (length nm))" "take (length nm) ?d = nm" for i
    using trim_loop_ok [of "length ?q" ?d i] unfolding nm_def by auto
  have c: "nat (int FILENAME_MAX - 1 - int (length src) + int (length ?q) - int (length nm) + 1) = used - length nm"
    using q t assms(3) unfolding used_def by linarith
  have u: "length nm + (used - length nm) = used" "length ?q \<le> used" "used \<le> FILENAME_MAX" using q t assms(3) unfolding used_def by linarith+
  have "drop used ?d = drop used dst" using u by simp
  then have "fill ?d (length nm) 0 (used - length nm) = Some (nm @ replicate (used - length nm) 0 @ drop used dst)"
    unfolding fill_def blit_def length_replicate u(1) tr(2) using u(3) d by simp
  then show ?thesis unfolding generic_mangle_name_def l bind.bind_lunit prod.case Let_def tr(1) c .
qed

text \<open>C36. A path name shorter than \<open>FILENAME_MAX\<close> is copied up to the white space after it with runs of slashes
  reduced to one and trailing slashes removed, and terminated; the zeros end as many bytes before the end
  of the buffer as slashes were removed. A name that stays longer than the buffer overruns it.
  Without backslashes both versions agree.\<close>

theorem mangle_name_correct:
  assumes "name_at b s src" and "length dst = FILENAME_MAX"
  shows "(length src < FILENAME_MAX \<longrightarrow>
      (let nm = trim_slashes (squeeze src); used = FILENAME_MAX - (length src - length (squeeze src))
       in generic_mangle_name dst b s = Some (nm @ replicate (used - length nm) 0 @ drop used dst) \<and> length nm < used)) \<and>
    (FILENAME_MAX < length (squeeze src) \<longrightarrow> generic_mangle_name dst b s = None) \<and>
    (92 \<notin> set src \<longrightarrow> vfat_mangle_name dst b s = generic_mangle_name dst b s)"
proof -
  have "length (trim_slashes (squeeze src)) < FILENAME_MAX - (length src - length (squeeze src))" if "length src < FILENAME_MAX"
    using that length_squeeze [of src] length_trim [of "squeeze src"] by linarith
  moreover have "generic_mangle_name dst b s = None" if "FILENAME_MAX < length (squeeze src)"
    using generic_mangle_loop_overrun [OF assms(1), of 0 dst] that assms(2) by (simp add: generic_mangle_name_def)
  moreover have "vfat_mangle_name dst b s = generic_mangle_name dst b s" if "92 \<notin> set src"
    using vfat_mangle_loop_eq [OF assms(1) that] by (simp add: vfat_mangle_name_def generic_mangle_name_def)
  ultimately show ?thesis using generic_mangle_name_ok [OF assms] by (simp add: Let_def)
qed

theorem mangle_name_correct_witness:
  "vfat_mangle_name (replicate 256 1) (str ''a//b/'' @ [0]) 0 = Some (str ''a/b'' @ replicate 252 0 @ [1])"
proof -
  have n: "name_at (str ''a//b/'' @ [0]) 0 (str ''a//b/'')"
    unfolding name_at_def by (rule exI [of _ 0], rule exI [of _ "[]"]) (simp add: str_def not_whitespace_def)
  have e: "squeeze (str ''a//b/'') = str ''a/b/''" "trim_slashes (str ''a/b/'') = str ''a/b''" "92 \<notin> set (str ''a//b/'')"
    by (simp_all add: str_def trim_slashes_def Let_def)
  show ?thesis using mangle_name_correct [OF n, of "replicate 256 1"] e by (simp add: FILENAME_MAX_def Let_def)
qed

end
