(* ===== verification/GetFsSec.thy ===== *)
theory GetFsSec
  imports Prelude
begin

section \<open>Reading a file through extents\<close>

text \<open>
  \<open>core/fs/getfssec.c\<close>: the generic \<open>getfssec\<close> of the disk-based file systems. It asks the file
  system for the extent that holds a logical sector, coalesces extents that are contiguous on
  the disk and reads them. The operation \<open>next_extent\<close> of the file system is an argument, as it is
  a function pointer in \<open>fs_ops\<close>; \<open>None\<close> is its undefined behaviour. The disk is a function from
  sector numbers to sectors. The loops are partial functions: that they end, with the right bytes,
  is proved for every file system that keeps the contract of the locale \<open>extent_map\<close>.
\<close>

subsection \<open>Extents, inodes and files\<close>

record extent =
  pstart :: u64
  lstart :: u32
  elen :: u32

datatype dirent_type = DT_UNKNOWN | DT_FIFO | DT_CHR | DT_DIR | DT_BLK | DT_REG | DT_LNK | DT_SOCK | DT_WHT

record 'p inode =
  isize :: u64
  imode :: dirent_type
  this_extent :: extent
  next_extent :: extent
  pvt :: 'p

record 'p fs_file =
  foffset :: u32
  finode :: "'p inode"

type_synonym 'p next_extent_op = "'p inode \<Rightarrow> u32 \<Rightarrow> (bool \<times> 'p inode) option"

definition EXTENT_ZERO :: u64 where "EXTENT_ZERO = - 1"
definition EXTENT_VOID :: u64 where "EXTENT_VOID = - 2"

definition EXTENT_SPECIAL :: "u64 \<Rightarrow> bool" where
  "EXTENT_SPECIAL x \<longleftrightarrow> x \<ge> EXTENT_VOID"

subsection \<open>Operations\<close>

definition next_psector :: "u64 \<Rightarrow> u32 \<Rightarrow> u64" where
  "next_psector psector skip = (if EXTENT_SPECIAL psector then psector else psector + ucast skip)"

definition next_pstart :: "extent \<Rightarrow> u64" where
  "next_pstart e = next_psector (pstart e) (elen e)"

text \<open>The file system reports an error as \<open>True\<close>.\<close>

definition get_next_extent :: "'p next_extent_op \<Rightarrow> 'p inode \<Rightarrow> 'p inode option" where
  "get_next_extent op inode = do {
     let lst = lstart (this_extent inode) + elen (this_extent inode);
     (err, inode) \<leftarrow> op inode lst;
     let inode = (if err then inode\<lparr>next_extent := (next_extent inode)\<lparr>elen := 0\<rparr>\<rparr> else inode);
     Some (inode\<lparr>next_extent := (next_extent inode)\<lparr>lstart := lst\<rparr>\<rparr>) }"

text \<open>The inner loop; the result is the number of sectors still to read, 0 on failure.\<close>

partial_function (option) extend_loop ::
  "'p next_extent_op \<Rightarrow> u32 \<Rightarrow> 'p inode \<Rightarrow> (u32 \<times> 'p inode) option" where
  "extend_loop op sectors inode =
    (if sectors > elen (this_extent inode) then
       Option.bind
         (if elen (next_extent inode) = 0 \<or>
             lstart (next_extent inode) \<noteq> lstart (this_extent inode) + elen (this_extent inode)
          then get_next_extent op inode else Some inode)
         (\<lambda>inode.
           if elen (this_extent inode) = 0 then
             (let inode = inode\<lparr>this_extent := next_extent inode\<rparr>
              in if elen (next_extent inode) = 0 then Some (0, inode)
                 else extend_loop op sectors inode)
           else if elen (next_extent inode) \<noteq> 0 \<and> pstart (next_extent inode) = next_pstart (this_extent inode) then
             extend_loop op sectors
               (inode\<lparr>this_extent := (this_extent inode)\<lparr>elen := elen (this_extent inode) + elen (next_extent inode)\<rparr>\<rparr>)
           else Some (sectors, inode))
     else Some (sectors, inode))"

definition read_sectors :: "(u64 \<Rightarrow> buf) \<Rightarrow> u64 \<Rightarrow> nat \<Rightarrow> buf" where
  "read_sectors disk start n = concat (map (\<lambda>i. disk (start + of_nat i)) [0..<n])"

text \<open>The bytes of the next chunk, and the extent moved behind them.\<close>

definition read_chunk :: "(u64 \<Rightarrow> buf) \<Rightarrow> nat \<Rightarrow> u32 \<Rightarrow> 'p inode \<Rightarrow> buf \<times> 'p inode" where
  "read_chunk disk sector_shift chunk inode =
    (let e = this_extent inode;
         (bytes, e) = (if pstart e = EXTENT_ZERO then (replicate (unat chunk * 2 ^ sector_shift) 0, e)
                       else (read_sectors disk (pstart e) (unat chunk), e\<lparr>pstart := pstart e + ucast chunk\<rparr>))
     in (bytes, inode\<lparr>this_extent := e\<lparr>lstart := lstart e + chunk, elen := elen e - chunk\<rparr>\<rparr>))"

partial_function (option) read_loop ::
  "(u64 \<Rightarrow> buf) \<Rightarrow> nat \<Rightarrow> 'p next_extent_op \<Rightarrow> u32 \<Rightarrow> 'p inode \<Rightarrow> u32 \<Rightarrow> (buf \<times> u32 \<times> 'p inode) option" where
  "read_loop disk sector_shift op sectors inode bytes_read =
    (if sectors = 0 then Some ([], bytes_read, inode)
     else
       Option.bind (extend_loop op sectors inode) (\<lambda>(sectors, inode).
         let chunk = min sectors (elen (this_extent inode));
             (bytes, inode) = read_chunk disk sector_shift chunk inode
         in Option.bind (read_loop disk sector_shift op (sectors - chunk) inode
                          (bytes_read + push_bit sector_shift chunk))
              (\<lambda>(rest, bytes_read, inode). Some (bytes @ rest, bytes_read, inode))))"

text \<open>What is known of the extents is moved to the sector the file stands at.\<close>

definition outside :: "u32 \<Rightarrow> extent \<Rightarrow> bool" where
  "outside lsector e \<longleftrightarrow> lsector < lstart e \<or> lsector \<ge> lstart e + elen e"

definition seek_extent :: "u32 \<Rightarrow> 'p inode \<Rightarrow> 'p inode" where
  "seek_extent lsector inode =
    (let inode = (if outside lsector (this_extent inode) then inode\<lparr>this_extent := next_extent inode\<rparr> else inode);
         e = this_extent inode
     in if outside lsector e then inode\<lparr>this_extent := e\<lparr>lstart := lsector, elen := 0\<rparr>\<rparr>
        else let delta = lsector - lstart e
             in inode\<lparr>this_extent := e\<lparr>lstart := lsector, elen := elen e - delta, pstart := next_psector (pstart e) delta\<rparr>\<rparr>)"

record getfssec_result =
  gr_count :: u32
  gr_buf :: buf
  gr_more :: "bool option"

definition generic_getfssec ::
  "(u64 \<Rightarrow> buf) \<Rightarrow> nat \<Rightarrow> 'p next_extent_op \<Rightarrow> 'p fs_file \<Rightarrow> u32 \<Rightarrow> (getfssec_result \<times> 'p fs_file) option" where
  "generic_getfssec disk sector_shift op file sectors =
    (let inode = finode file;
         bytes_left :: u32 = ucast (isize inode - ucast (foffset file));
         sectors_left = drop_bit sector_shift (bytes_left + push_bit sector_shift 1 - 1);
         sectors = (if sectors > sectors_left then sectors_left else sectors)
     in if sectors = 0 then Some (\<lparr>gr_count = 0, gr_buf = [], gr_more = None\<rparr>, file)
        else do {
          let lsector = drop_bit sector_shift (foffset file);
          let inode = seek_extent lsector inode;
          (bytes, bytes_read, inode) \<leftarrow> read_loop disk sector_shift op sectors inode 0;
          let bytes_read = min bytes_read bytes_left;
          Some (\<lparr>gr_count = bytes_read, gr_buf = bytes, gr_more = Some (bytes_read < bytes_left)\<rparr>,
                file\<lparr>foffset := foffset file + bytes_read, finode := inode\<rparr>) })"


subsection \<open>The contract of \<open>next_extent\<close>\<close>

text \<open>
  \<open>smap\<close> is the map from the logical to the physical sectors of a file with \<open>nsec\<close> sectors,
  \<open>bnd\<close> the sectors at which the file system can be asked for an extent, which are where its extents
  end; the invariant concerns the size and the private data of the inode.
\<close>

definition extent_covers :: "(nat \<Rightarrow> u64) \<Rightarrow> nat \<Rightarrow> extent \<Rightarrow> bool" where
  "extent_covers smap nsec e \<longleftrightarrow> unat (lstart e) + unat (elen e) \<le> nsec \<and>
     (\<forall>j < unat (elen e). next_psector (pstart e) (of_nat j) = smap (unat (lstart e) + j))"

lemma covers_nth:
  "extent_covers smap nsec e \<Longrightarrow> j < unat (elen e) \<Longrightarrow>
   next_psector (pstart e) (of_nat j) = smap (unat (lstart e) + j)"
  by (simp add: extent_covers_def)

definition sector_bytes :: "(u64 \<Rightarrow> buf) \<Rightarrow> nat \<Rightarrow> (nat \<Rightarrow> u64) \<Rightarrow> nat \<Rightarrow> buf" where
  "sector_bytes disk sector_shift smap l =
    (if smap l = EXTENT_ZERO then replicate (2 ^ sector_shift) 0 else disk (smap l))"

locale extent_map =
  fixes op :: "'p next_extent_op"
    and invar :: "u64 \<Rightarrow> 'p \<Rightarrow> bool"
    and smap :: "nat \<Rightarrow> u64"
    and nsec :: nat
    and bnd :: "nat \<Rightarrow> bool"
  assumes op_ok: "invar (isize i) (pvt i) \<Longrightarrow> bnd l \<Longrightarrow> l < nsec \<Longrightarrow>
      \<exists>i'. op i (of_nat l) = Some (False, i') \<and> invar (isize i') (pvt i') \<and> isize i' = isize i \<and>
        this_extent i' = this_extent i \<and> elen (next_extent i') \<noteq> 0 \<and>
        extent_covers smap nsec ((next_extent i')\<lparr>lstart := of_nat l\<rparr>) \<and>
        bnd (l + unat (elen (next_extent i')))"
    and smap_ok: "l < nsec \<Longrightarrow> smap l = EXTENT_ZERO \<or> unat (smap l) < 2 ^ 62"
    and nsec_ok: "nsec < 2 ^ 32"
begin

definition known :: "extent \<Rightarrow> bool" where
  "known e \<longleftrightarrow> elen e = 0 \<or> extent_covers smap nsec e \<and> bnd (unat (lstart e) + unat (elen e))"

text \<open>The extents when sector \<open>l\<close> is the next to be read.\<close>

definition at_sector :: "nat \<Rightarrow> 'p inode \<Rightarrow> bool" where
  "at_sector l i \<longleftrightarrow> unat (lstart (this_extent i)) = l \<and> extent_covers smap nsec (this_extent i) \<and>
     bnd (l + unat (elen (this_extent i))) \<and> known (next_extent i) \<and> invar (isize i) (pvt i)"

lemma covers_pstart:
  assumes "extent_covers smap nsec e" and "elen e \<noteq> 0"
  shows "pstart e = EXTENT_ZERO \<or> unat (pstart e) < 2 ^ 62"
proof -
  have "0 < unat (elen e)" using assms(2) by (simp add: word_unat_eq_iff)
  then have "next_psector (pstart e) 0 = smap (unat (lstart e))" "unat (lstart e) < nsec"
    using assms(1) by (auto simp: extent_covers_def)
  moreover have "next_psector (pstart e) 0 = pstart e" by (simp add: next_psector_def)
  ultimately show ?thesis using smap_ok by metis
qed

lemma special_iff: "unat (p :: u64) < 2 ^ 62 + 2 ^ 32 \<Longrightarrow> \<not> EXTENT_SPECIAL p"
  unfolding EXTENT_SPECIAL_def EXTENT_VOID_def by (simp add: word_le_nat_alt)

lemma special_zero: "EXTENT_SPECIAL EXTENT_ZERO"
  unfolding EXTENT_SPECIAL_def EXTENT_ZERO_def by (rule word_order.extremum)

lemma next_psector_add:
  assumes "p = EXTENT_ZERO \<or> unat p < 2 ^ 62" and "unat a + unat b < 2 ^ 32"
  shows "next_psector (next_psector p a) b = next_psector p (a + b)"
proof (cases "p = EXTENT_ZERO")
  case True
  then show ?thesis using special_zero by (simp add: next_psector_def)
next
  case False
  then have p: "unat p < 2 ^ 62" using assms(1) by simp
  have u: "unat (ucast a :: u64) = unat a" using unat_less [of a] by (simp add: unat_ucast)
  have "unat (p + ucast a) = unat p + unat a" using p assms(2) by (subst unat_add_id) (simp_all add: u)
  then have "\<not> EXTENT_SPECIAL (p + ucast a)" using p assms(2) by (intro special_iff) simp
  moreover have "(ucast (a + b) :: u64) = ucast a + ucast b"
  proof -
    have "unat (a + b) = unat a + unat b" using assms(2) by (intro unat_add_id) simp
    then have "unat (ucast (a + b) :: u64) = unat (ucast a :: u64) + unat (ucast b :: u64)"
      using unat_less [of a] unat_less [of b] assms(2) by (simp add: unat_ucast)
    then show ?thesis using assms(2) unat_less [of b]
      by (simp add: word_unat_eq_iff unat_word_ariths unat_ucast)
  qed
  ultimately show ?thesis using special_iff [of p] p by (simp add: next_psector_def add.assoc)
qed

lemma covers_coalesce:
  assumes e: "extent_covers smap nsec e" "elen e \<noteq> 0" and f: "extent_covers smap nsec f"
    and l: "lstart f = lstart e + elen e" and p: "pstart f = next_pstart e"
  shows "extent_covers smap nsec (e\<lparr>elen := elen e + elen f\<rparr>)"
    and "unat (elen e + elen f) = unat (elen e) + unat (elen f)"
proof -
  have b: "unat (lstart e) + unat (elen e) \<le> nsec" using e by (simp add: extent_covers_def)
  then have ul: "unat (lstart f) = unat (lstart e) + unat (elen e)"
    unfolding l using nsec_ok by (intro unat_add_id) simp
  then have b2: "unat (lstart e) + unat (elen e) + unat (elen f) \<le> nsec" using f by (simp add: extent_covers_def)
  then show ue: "unat (elen e + elen f) = unat (elen e) + unat (elen f)"
    using nsec_ok by (intro unat_add_id) simp
  have "next_psector (pstart e) (of_nat j) = smap (unat (lstart e) + j)" if j: "j < unat (elen e) + unat (elen f)" for j
  proof (cases "j < unat (elen e)")
    case True
    then show ?thesis using e by (simp add: extent_covers_def)
  next
    case False
    define k where "k = j - unat (elen e)"
    have k: "k < unat (elen f)" "j = unat (elen e) + k" using j False by (auto simp: k_def)
    have uk: "unat (of_nat k :: u32) = k" using k unat_less [of "elen f"] by (intro unat_of_nat_id) simp
    have "next_psector (pstart f) (of_nat k) = smap (unat (lstart f) + k)" using f k by (simp add: extent_covers_def)
    moreover have "next_psector (pstart f) (of_nat k) = next_psector (pstart e) (elen e + of_nat k)"
      unfolding p next_pstart_def using b2 k nsec_ok covers_pstart [OF e] by (intro next_psector_add) (simp_all add: uk)
    ultimately show ?thesis by (simp add: ul k(2) add.assoc)
  qed
  then show "extent_covers smap nsec (e\<lparr>elen := elen e + elen f\<rparr>)"
    using b2 ue by (simp add: extent_covers_def)
qed

text \<open>Asking for the extent that follows the current one.\<close>

lemma get_next_extent_ok:
  assumes a: "at_sector l i" and n: "l + unat (elen (this_extent i)) < nsec"
  obtains i' where "get_next_extent op i = Some i'" and "at_sector l i'" and "this_extent i' = this_extent i"
    and "isize i' = isize i" and "elen (next_extent i') \<noteq> 0"
    and "lstart (next_extent i') = lstart (this_extent i) + elen (this_extent i)"
proof -
  let ?m = "l + unat (elen (this_extent i))"
  let ?w = "lstart (this_extent i) + elen (this_extent i)"
  have "unat ?w = ?m" using a n nsec_ok by (subst unat_add_id) (simp_all add: at_sector_def)
  then have w: "?w = of_nat ?m" by (rule of_natI)
  have um: "unat (of_nat ?m :: u32) = ?m" using n nsec_ok by (intro unat_of_nat_id) simp
  have pre: "invar (isize i) (pvt i)" "bnd ?m" using a by (auto simp: at_sector_def)
  obtain i1 where i1: "op i (of_nat ?m) = Some (False, i1)" "invar (isize i1) (pvt i1)" "isize i1 = isize i"
    "this_extent i1 = this_extent i" "elen (next_extent i1) \<noteq> 0"
    "extent_covers smap nsec ((next_extent i1)\<lparr>lstart := of_nat ?m\<rparr>)" "bnd (?m + unat (elen (next_extent i1)))"
    using op_ok [OF pre n] by blast
  define i' where "i' = i1\<lparr>next_extent := (next_extent i1)\<lparr>lstart := of_nat ?m\<rparr>\<rparr>"
  have "get_next_extent op i = Some i'"
    unfolding get_next_extent_def Let_def w using i1(1) by (simp add: i'_def)
  moreover have "at_sector l i'"
    using a i1 um by (simp add: at_sector_def known_def i'_def)
  ultimately show ?thesis using that i1 w by (simp add: i'_def)
qed

lemma extend_loop_ok:
  assumes "at_sector l i" and "0 < unat sectors" and "l + unat sectors \<le> nsec"
  shows "\<exists>i'. extend_loop op sectors i = Some (sectors, i') \<and> at_sector l i' \<and>
     elen (this_extent i') \<noteq> 0 \<and> isize i' = isize i"
  using assms(1)
proof (induction "nsec - unat (elen (this_extent i))" arbitrary: i rule: less_induct)
  case less
  show ?case
  proof (cases "sectors > elen (this_extent i)")
    case False
    then have "elen (this_extent i) \<noteq> 0" using assms(2) by (auto simp: word_unat_eq_iff word_less_nat_alt)
    then show ?thesis using less.prems False by (subst extend_loop.simps) simp
  next
    case True
    let ?ask = "elen (next_extent i) = 0 \<or> lstart (next_extent i) \<noteq> lstart (this_extent i) + elen (this_extent i)"
    have lt: "l + unat (elen (this_extent i)) < nsec" using True assms(3) by (simp add: word_less_nat_alt)
    obtain i1 where i1: "(if ?ask then get_next_extent op i else Some i) = Some i1" "at_sector l i1"
      "this_extent i1 = this_extent i" "isize i1 = isize i" "elen (next_extent i1) \<noteq> 0"
      "lstart (next_extent i1) = lstart (this_extent i) + elen (this_extent i)"
    proof (cases ?ask)
      case True
      then show ?thesis using get_next_extent_ok [OF less.prems lt] that by (metis (full_types))
    next
      case False
      then show ?thesis using less.prems that [of i] by simp
    qed
    let ?e = "this_extent i1" and ?f = "next_extent i1"
    have pos: "0 < unat (elen ?f)" using i1(5) by (simp add: word_unat_eq_iff)
    have f: "extent_covers smap nsec ?f" "bnd (unat (lstart ?f) + unat (elen ?f))"
      using i1(2,5) by (auto simp: at_sector_def known_def)
    have e: "extent_covers smap nsec ?e" "unat (lstart ?e) = l" "invar (isize i1) (pvt i1)" "known ?f"
      using i1(2) by (auto simp: at_sector_def)
    have step: "extend_loop op sectors i =
      (if elen ?e = 0 then extend_loop op sectors (i1\<lparr>this_extent := ?f\<rparr>)
       else if pstart ?f = next_pstart ?e
         then extend_loop op sectors (i1\<lparr>this_extent := ?e\<lparr>elen := elen ?e + elen ?f\<rparr>\<rparr>)
       else Some (sectors, i1))"
      using True i1(1,5) by (subst extend_loop.simps) (simp add: Let_def)
    consider "elen ?e = 0" | "elen ?e \<noteq> 0" "pstart ?f = next_pstart ?e" | "elen ?e \<noteq> 0" "pstart ?f \<noteq> next_pstart ?e"
      by blast
    then show ?thesis
    proof cases
      case 1
      let ?i = "i1\<lparr>this_extent := ?f\<rparr>"
      have "lstart ?f = lstart ?e" using i1(3,6) 1 by simp
      then have "at_sector l ?i" using f e by (simp add: at_sector_def)
      moreover have "nsec - unat (elen (this_extent ?i)) < nsec - unat (elen (this_extent i))"
        using 1 i1(3) pos lt by simp
      ultimately show ?thesis using less.hyps [of ?i] step 1 i1(4) by auto
    next
      case 2
      let ?i = "i1\<lparr>this_extent := ?e\<lparr>elen := elen ?e + elen ?f\<rparr>\<rparr>"
      have l: "lstart ?f = lstart ?e + elen ?e" using i1(3,6) by simp
      note c = covers_coalesce [OF e(1) 2(1) f(1) l 2(2)]
      have "unat (lstart ?f) = unat (lstart ?e) + unat (elen ?e)"
        unfolding l using e(1) nsec_ok by (intro unat_add_id) (simp add: extent_covers_def)
      then have "at_sector l ?i" using c e f(2) by (simp add: at_sector_def add.assoc)
      moreover have "nsec - unat (elen (this_extent ?i)) < nsec - unat (elen (this_extent i))"
        using c(2) i1(3) pos lt by simp
      ultimately show ?thesis using less.hyps [of ?i] step 2 i1(4) by auto
    next
      case 3
      then show ?thesis using step i1 by simp
    qed
  qed
qed

lemma small_not_zero: "unat p < 2 ^ 62 + 2 ^ 32 \<Longrightarrow> p \<noteq> EXTENT_ZERO"
  using special_iff special_zero by blast

lemma concat_replicates: "concat (map (\<lambda>_. replicate m x) [0..<n]) = replicate (n * m) x"
  by (induction n) (simp_all add: replicate_add [symmetric] add.commute)

lemma map_upt_shift: "map f [l..<l + n] = map (\<lambda>j. f (l + j)) [0..<n]"
  by (rule nth_equalityI) simp_all

lemma read_chunk_ok:
  assumes a: "at_sector l i" and c: "unat chunk \<le> unat (elen (this_extent i))" "chunk \<noteq> 0"
  shows "\<exists>i'. read_chunk disk shift chunk i =
      (concat (map (sector_bytes disk shift smap) [l..<l + unat chunk]), i') \<and>
     at_sector (l + unat chunk) i' \<and> isize i' = isize i"
proof -
  let ?e = "this_extent i" and ?n = "unat chunk"
  have e: "extent_covers smap nsec ?e" "unat (lstart ?e) = l" using a by (auto simp: at_sector_def)
  have pos: "0 < ?n" using c(2) by (simp add: word_unat_eq_iff)
  then have ne: "elen ?e \<noteq> 0" using c(1) by auto
  have sm: "smap (l + j) = next_psector (pstart ?e) (of_nat j)" if "j < unat (elen ?e)" for j
    using e that by (simp add: extent_covers_def)
  have b: "l + unat (elen ?e) \<le> nsec" using e by (simp add: extent_covers_def)
  have ul: "unat (lstart ?e + chunk) = l + ?n" using e(2) b c(1) nsec_ok by (subst unat_add_id) simp_all
  have ue: "unat (elen ?e - chunk) = unat (elen ?e) - ?n" using c(1) by (simp add: unat_minus_id word_le_nat_alt)
  have rest: "next_psector (next_psector (pstart ?e) chunk) (of_nat j) = smap (l + ?n + j)"
    if "j < unat (elen ?e) - ?n" for j
  proof -
    have uj: "unat (of_nat j :: u32) = j" using that unat_less [of "elen ?e"] by (intro unat_of_nat_id) simp
    have "next_psector (next_psector (pstart ?e) chunk) (of_nat j) = next_psector (pstart ?e) (chunk + of_nat j)"
      using covers_pstart [OF e(1) ne] that unat_less [of "elen ?e"] by (intro next_psector_add) (simp_all add: uj)
    also have "chunk + of_nat j = of_nat (?n + j)" by simp
    finally show ?thesis using sm [of "?n + j"] that by (simp add: add.assoc)
  qed
  let ?p = "next_psector (pstart ?e) chunk"
  let ?i = "i\<lparr>this_extent := ?e\<lparr>pstart := ?p, lstart := lstart ?e + chunk, elen := elen ?e - chunk\<rparr>\<rparr>"
  have "extent_covers smap nsec (this_extent ?i)"
    using rest b ul ue c(1) by (simp add: extent_covers_def)
  then have at: "at_sector (l + ?n) ?i"
    using a ul ue c(1) by (simp add: at_sector_def)
  have list: "concat (map (sector_bytes disk shift smap) [l..<l + ?n]) =
      concat (map (\<lambda>j. sector_bytes disk shift smap (l + j)) [0..<?n])"
    by (simp only: map_upt_shift)
  show ?thesis
  proof (cases "pstart ?e = EXTENT_ZERO")
    case True
    then have p: "next_psector (pstart ?e) j = EXTENT_ZERO" for j using special_zero by (simp add: next_psector_def)
    then have "concat (map (sector_bytes disk shift smap) [l..<l + ?n]) = replicate (?n * 2 ^ shift) 0"
      unfolding list concat_replicates [symmetric] using sm c(1)
      by (intro arg_cong [of _ _ concat] map_cong) (simp_all add: sector_bytes_def)
    then have "read_chunk disk shift chunk i = (concat (map (sector_bytes disk shift smap) [l..<l + ?n]), ?i)"
      using True p [of chunk] by (simp add: read_chunk_def Let_def)
    then show ?thesis using at by simp
  next
    case False
    then have small: "unat (pstart ?e) < 2 ^ 62" using covers_pstart [OF e(1) ne] by simp
    then have np: "next_psector (pstart ?e) j = pstart ?e + ucast j" for j
      using special_iff [of "pstart ?e"] by (simp add: next_psector_def)
    have "sector_bytes disk shift smap (l + j) = disk (pstart ?e + of_nat j)" if "j < ?n" for j
    proof -
      have j32: "j < 2 ^ 32" using that unat_less [of chunk] by simp
      then have uj: "(ucast (of_nat j :: u32) :: u64) = of_nat j"
        by (intro of_natI) (simp add: unat_ucast unat_of_nat_id)
      have sj: "smap (l + j) = pstart ?e + of_nat j" using sm [of j] that c(1) np uj by simp
      have "unat (pstart ?e + of_nat j) < 2 ^ 62 + 2 ^ 32"
        using small j32 by (subst unat_add_id) (simp_all add: unat_of_nat_id)
      then have "smap (l + j) \<noteq> EXTENT_ZERO" unfolding sj by (rule small_not_zero)
      moreover note sj
      ultimately show ?thesis by (simp add: sector_bytes_def)
    qed
    then have "read_sectors disk (pstart ?e) ?n = concat (map (sector_bytes disk shift smap) [l..<l + ?n])"
      unfolding list read_sectors_def by (intro arg_cong [of _ _ concat] map_cong) simp_all
    then show ?thesis using at False np [of chunk] by (simp add: read_chunk_def Let_def)
  qed
qed

lemma read_loop_ok:
  assumes "at_sector l i" and "l + unat sectors \<le> nsec"
  shows "\<exists>i'. read_loop disk shift op sectors i n =
      Some (concat (map (sector_bytes disk shift smap) [l..<l + unat sectors]), n + push_bit shift sectors, i') \<and>
     at_sector (l + unat sectors) i' \<and> isize i' = isize i"
  using assms
proof (induction "unat sectors" arbitrary: sectors l i n rule: less_induct)
  case less
  show ?case
  proof (cases "sectors = 0")
    case True
    then show ?thesis using less.prems by (subst read_loop.simps) simp
  next
    case False
    then have pos: "0 < unat sectors" by (simp add: word_unat_eq_iff)
    obtain i1 where 1: "extend_loop op sectors i = Some (sectors, i1)" "at_sector l i1"
      "elen (this_extent i1) \<noteq> 0" "isize i1 = isize i"
      using extend_loop_ok [OF less.prems(1) pos less.prems(2)] by blast
    define c where "c = min sectors (elen (this_extent i1))"
    have c: "unat c \<le> unat (elen (this_extent i1))" "c \<noteq> 0" "c \<le> sectors"
      using False 1(3) by (auto simp: c_def min_def word_le_nat_alt)
    obtain i2 where 2: "read_chunk disk shift c i1 = (concat (map (sector_bytes disk shift smap) [l..<l + unat c]), i2)"
      "at_sector (l + unat c) i2" "isize i2 = isize i1" using read_chunk_ok [OF 1(2) c(1,2)] by blast
    have u: "unat (sectors - c) = unat sectors - unat c" using c(3) by (simp add: unat_minus_id)
    have lt: "unat c \<le> unat sectors" "0 < unat c" using c by (auto simp: word_le_nat_alt word_unat_eq_iff)
    have "unat (sectors - c) < unat sectors" "l + unat c + unat (sectors - c) \<le> nsec"
      using u lt less.prems(2) by simp_all
    from less.hyps [OF this(1) 2(2) this(2), of "n + push_bit shift c"] obtain i3 where
      3: "read_loop disk shift op (sectors - c) i2 (n + push_bit shift c) =
        Some (concat (map (sector_bytes disk shift smap) [l + unat c..<l + unat c + unat (sectors - c)]),
          n + push_bit shift c + push_bit shift (sectors - c), i3)"
      "at_sector (l + unat c + unat (sectors - c)) i3" "isize i3 = isize i2" by blast
    have "push_bit shift c + push_bit shift (sectors - c) = push_bit shift sectors"
      by (simp add: push_bit_eq_mult algebra_simps)
    then have b: "n + push_bit shift c + push_bit shift (sectors - c) = n + push_bit shift sectors"
      by (simp add: add.assoc)
    have e: "l + unat c + unat (sectors - c) = l + unat sectors" using u lt by simp
    have up: "[l..<l + unat sectors] = [l..<l + unat c] @ [l + unat c..<l + unat sectors]"
      using upt_add_eq_append [of l "l + unat c" "unat sectors - unat c"] lt by simp
    have "read_loop disk shift op sectors i n =
        Some (concat (map (sector_bytes disk shift smap) [l..<l + unat sectors]), n + push_bit shift sectors, i3)"
      using False 3(1) unfolding b e up
      by (subst read_loop.simps) (simp add: 1(1) c_def [symmetric] 2(1) Let_def)
    then show ?thesis using 3 1 2 e by simp
  qed
qed

text \<open>Positioning: inside a known extent, or where an extent can be asked for.\<close>

definition reachable :: "nat \<Rightarrow> 'p inode \<Rightarrow> bool" where
  "reachable l i \<longleftrightarrow> known (this_extent i) \<and> known (next_extent i) \<and> invar (isize i) (pvt i) \<and> l \<le> nsec \<and>
     (bnd l \<or> (\<exists>e \<in> {this_extent i, next_extent i}. unat (lstart e) \<le> l \<and> l < unat (lstart e) + unat (elen e)))"

lemma outside_iff:
  assumes "known e" and "l < 2 ^ 32"
  shows "outside (of_nat l) e \<longleftrightarrow> \<not> (unat (lstart e) \<le> l \<and> l < unat (lstart e) + unat (elen e))"
proof -
  have ul: "unat (of_nat l :: u32) = l" using assms(2) by (intro unat_of_nat_id) simp
  show ?thesis
  proof (cases "elen e = 0")
    case True
    then show ?thesis by (auto simp: outside_def not_less)
  next
    case False
    then have "unat (lstart e + elen e) = unat (lstart e) + unat (elen e)"
      using assms(1) nsec_ok by (intro unat_add_id) (simp add: known_def extent_covers_def)
    then show ?thesis by (auto simp: outside_def word_less_nat_alt word_le_nat_alt ul)
  qed
qed

lemma advance_ok:
  assumes "known e" and "unat (lstart e) \<le> l" "l < unat (lstart e) + unat (elen e)" and l: "l < 2 ^ 32"
  defines "d \<equiv> of_nat l - lstart e"
  defines "e' \<equiv> e\<lparr>lstart := of_nat l, elen := elen e - d, pstart := next_psector (pstart e) d\<rparr>"
  shows "unat (lstart e') = l" and "extent_covers smap nsec e'" and "bnd (l + unat (elen e'))"
proof -
  have ne: "elen e \<noteq> 0" using assms(2,3) by auto
  then have e: "extent_covers smap nsec e" "bnd (unat (lstart e) + unat (elen e))" using assms(1) by (auto simp: known_def)
  have ul: "unat (of_nat l :: u32) = l" using l by (intro unat_of_nat_id) simp
  have ud: "unat d = l - unat (lstart e)" unfolding d_def using assms(2) ul by (simp add: unat_minus_id word_le_nat_alt)
  have ue: "unat (elen e - d) = unat (lstart e) + unat (elen e) - l"
    using ud assms(2,3) by (simp add: unat_minus_id word_le_nat_alt)
  show "unat (lstart e') = l" by (simp add: e'_def ul)
  show "bnd (l + unat (elen e'))" using e(2) ue assms(3) by (simp add: e'_def)
  have "next_psector (next_psector (pstart e) d) (of_nat j) = smap (l + j)" if "j < unat (lstart e) + unat (elen e) - l" for j
  proof -
    have uj: "unat (of_nat j :: u32) = j" using that unat_less [of "elen e"] assms(2) by (intro unat_of_nat_id) simp
    have "next_psector (next_psector (pstart e) d) (of_nat j) = next_psector (pstart e) (d + of_nat j)"
      using covers_pstart [OF e(1) ne] that unat_less [of "elen e"] ud assms(2) by (intro next_psector_add) (simp_all add: uj)
    also have "d + of_nat j = of_nat (l - unat (lstart e) + j)" using of_natI [OF ud] by simp
    also have "next_psector (pstart e) (of_nat (l - unat (lstart e) + j)) = smap (unat (lstart e) + (l - unat (lstart e) + j))"
      by (rule covers_nth [OF e(1)]) (use that assms(2) in linarith)
    also have "unat (lstart e) + (l - unat (lstart e) + j) = l + j" using assms(2) by simp
    finally show ?thesis .
  qed
  then show "extent_covers smap nsec e'"
    using e(1) assms(2,3) by (simp add: extent_covers_def e'_def ul ue)
qed

lemma seek_extent_ok:
  assumes r: "reachable l i"
  shows "at_sector l (seek_extent (of_nat l) i) \<and> isize (seek_extent (of_nat l) i) = isize i"
proof -
  let ?in = "\<lambda>e. unat (lstart e) \<le> l \<and> l < unat (lstart e) + unat (elen e)"
  let ?i = "if outside (of_nat l) (this_extent i) then i\<lparr>this_extent := next_extent i\<rparr> else i"
  have l: "l < 2 ^ 32" "l \<le> nsec" using r nsec_ok by (auto simp: reachable_def)
  have ul: "unat (of_nat l :: u32) = l" using l by (intro unat_of_nat_id) simp
  have k: "known (this_extent i)" "known (next_extent i)" "invar (isize i) (pvt i)" using r by (auto simp: reachable_def)
  have t: "known (this_extent ?i)" "next_extent ?i = next_extent i" "isize ?i = isize i" "pvt ?i = pvt i"
    "\<not> ?in (this_extent ?i) \<longrightarrow> bnd l"
    using r k outside_iff [OF k(1) l(1)] by (auto simp: reachable_def)
  show ?thesis
  proof (cases "?in (this_extent ?i)")
    case True
    then have o: "\<not> outside (of_nat l) (this_extent ?i)" using outside_iff [OF t(1) l(1)] by blast
    note a = advance_ok [OF t(1) conjunct1 [OF True] conjunct2 [OF True] l(1)]
    show ?thesis unfolding seek_extent_def Let_def using o a t k by (simp add: at_sector_def)
  next
    case False
    then have o: "outside (of_nat l) (this_extent ?i)" using outside_iff [OF t(1) l(1)] by blast
    show ?thesis unfolding seek_extent_def Let_def using o t k False l
      by (simp add: at_sector_def extent_covers_def ul)
  qed
qed

lemma at_sector_reachable: "at_sector l i \<Longrightarrow> reachable l i"
  by (cases "elen (this_extent i) = 0") (auto simp: at_sector_def reachable_def known_def extent_covers_def word_unat_eq_iff)

text \<open>The number of sectors from an offset to the end of the file.\<close>

lemma sectors_left:
  assumes "unat sz + 2 ^ sh \<le> 2 ^ 32" and "unat offset \<le> unat sz" and "sh < 32"
  defines "left \<equiv> ucast (sz - ucast (offset :: u32)) :: u32"
  shows "unat left = unat (sz :: u64) - unat offset"
    and "unat (drop_bit sh (left + push_bit sh 1 - 1)) = (unat sz - unat offset + 2 ^ sh - 1) div 2 ^ sh"
proof -
  have uo: "unat (ucast offset :: u64) = unat offset" using unat_less [of offset] by (simp add: unat_ucast)
  have "unat (sz - ucast offset) = unat sz - unat offset"
    using assms(2) uo by (simp add: unat_minus_id word_le_nat_alt)
  moreover have "unat sz < 2 ^ 32" using assms(1) by (metis less_le_trans less_add_same_cancel1 zero_less_numeral zero_less_power)
  ultimately show ul: "unat left = unat sz - unat offset" unfolding left_def by (simp add: unat_ucast)
  have "(2 :: nat) ^ sh < 2 ^ 32" using assms(3) by (intro power_strict_increasing) auto
  then have p: "unat (push_bit sh 1 :: u32) = 2 ^ sh" by (subst unat_push_bit) simp_all
  have "0 < (2 :: nat) ^ sh" by simp
  have "unat (push_bit sh 1 - 1 :: u32) = 2 ^ sh - 1"
    using p by (subst unat_minus_id) (simp_all add: word_le_nat_alt)
  moreover have "left + push_bit sh 1 - 1 = left + (push_bit sh 1 - 1)" by simp
  ultimately have "unat (left + push_bit sh 1 - 1) = unat sz - unat offset + (2 ^ sh - 1)"
    using assms(1) ul by (simp only:) (subst unat_add_id, simp_all)
  then show "unat (drop_bit sh (left + push_bit sh 1 - 1)) = (unat sz - unat offset + 2 ^ sh - 1) div 2 ^ sh"
    unfolding unat_drop_bit by simp
qed

lemma getfssec_ok:
  fixes f :: "'p fs_file" and sectors :: u32
  assumes r: "reachable (unat (foffset f) div 2 ^ sh) (finode f)"
    and size: "unat (isize (finode f)) + 2 ^ sh \<le> 2 ^ 32" "unat (foffset f) \<le> unat (isize (finode f))" "sh < 32"
    and ns: "unat (isize (finode f)) \<le> nsec * 2 ^ sh"
  defines "q \<equiv> unat (foffset f) div 2 ^ sh"
  defines "left \<equiv> unat (isize (finode f)) - unat (foffset f)"
  defines "n \<equiv> min (unat sectors) ((left + 2 ^ sh - 1) div 2 ^ sh)"
  shows "\<exists>res f'. generic_getfssec disk sh op f sectors = Some (res, f') \<and>
    gr_buf res = concat (map (sector_bytes disk sh smap) [q..<q + n]) \<and>
    unat (gr_count res) = min (n * 2 ^ sh) left \<and>
    unat (foffset f') = unat (foffset f) + min (n * 2 ^ sh) left \<and>
    isize (finode f') = isize (finode f) \<and>
    reachable (q + n) (finode f')"
proof -
  let ?i = "finode f"
  define bl where "bl = (ucast (isize ?i - ucast (foffset f)) :: u32)"
  define sl where "sl = drop_bit sh (bl + push_bit sh 1 - 1)"
  define m where "m = (if sectors > sl then sl else sectors)"
  note left = sectors_left [OF size, folded bl_def, folded sl_def]
  have um: "unat m = n"
    unfolding m_def n_def left_def using left(2) by (auto simp: word_less_nat_alt min_def)
  have ls: "drop_bit sh (foffset f) = of_nat q" unfolding q_def by (intro of_natI unat_drop_bit)
  show ?thesis
  proof (cases "m = 0")
    case True
    then have n0: "n = 0" using um by simp
    have "generic_getfssec disk sh op f sectors = Some (\<lparr>gr_count = 0, gr_buf = [], gr_more = None\<rparr>, f)"
      using True unfolding generic_getfssec_def Let_def bl_def [symmetric] sl_def [symmetric] m_def [symmetric] by simp
    then show ?thesis using n0 r by (simp add: q_def)
  next
    case False
    have seek: "at_sector q (seek_extent (of_nat q) ?i)" "isize (seek_extent (of_nat q) ?i) = isize ?i"
      using seek_extent_ok [OF r] unfolding q_def by auto
    have nL: "n \<le> (left + 2 ^ sh - 1) div 2 ^ sh" by (simp add: n_def)
    have nq: "q + n \<le> nsec"
    proof -
      have "q + (left + 2 ^ sh - 1) div 2 ^ sh = (q * 2 ^ sh + (left + 2 ^ sh - 1)) div 2 ^ sh" by simp
      also have "\<dots> \<le> (nsec * 2 ^ sh + (2 ^ sh - 1)) div 2 ^ sh"
        using ns size(2) div_times_less_eq_dividend [of "unat (foffset f)" "2 ^ sh"]
        unfolding left_def q_def by (intro div_le_mono) linarith
      also have "\<dots> = nsec" by (subst div_mult_self3) simp_all
      finally show ?thesis using nL by linarith
    qed
    obtain i' where rl: "read_loop disk sh op m (seek_extent (of_nat q) ?i) 0 =
        Some (concat (map (sector_bytes disk sh smap) [q..<q + n]), push_bit sh m, i')"
      "at_sector (q + n) i'" "isize i' = isize ?i"
      using read_loop_ok [OF seek(1), of m disk sh 0] nq seek(2) unfolding um by auto
    have "n * 2 ^ sh \<le> left + 2 ^ sh - 1"
      using nL div_times_less_eq_dividend [of "left + 2 ^ sh - 1" "2 ^ sh"] by (meson le_trans mult_le_mono1)
    moreover have "0 < (2 :: nat) ^ sh" by simp
    ultimately have "n * 2 ^ sh < 2 ^ 32" using size(1) unfolding left_def by linarith
    then have pm: "unat (push_bit sh m) = n * 2 ^ sh" using um by (subst unat_push_bit) simp_all
    then have c: "unat (min (push_bit sh m) bl) = min (n * 2 ^ sh) left"
      using left(1) by (auto simp: min_def word_le_nat_alt left_def)
    have fo: "unat (foffset f + min (push_bit sh m) bl) = unat (foffset f) + min (n * 2 ^ sh) left"
    proof -
      have "min (n * 2 ^ sh) left \<le> left" "0 < (2 :: nat) ^ sh" by simp_all
      then have "unat (foffset f) + min (n * 2 ^ sh) left < 2 ^ 32"
        using size(1,2) unfolding left_def by linarith
      then show ?thesis using c unat_add_id [of "foffset f" "min (push_bit sh m) bl"] by simp
    qed
    show ?thesis
      unfolding generic_getfssec_def Let_def bl_def [symmetric] sl_def [symmetric] m_def [symmetric] ls
      using False rl c fo at_sector_reachable [OF rl(2)] by simp
  qed
qed

end

end
