(* ===== verification/Ring.thy ===== *)
theory Ring
  imports Prelude
begin

section \<open>Circular doubly-linked lists\<close>

text \<open>
  The block cache, the thread list, the queues of the semaphores and the arenas of the memory
  allocator are circular doubly-linked lists. Pointers are natural numbers with 0 as the null
  pointer, and each pointer field is a function from addresses to addresses. This theory relates
  such fields to the list of nodes they link, and shows what the three updates the programs use
  (unlinking a node, inserting one after or before another) do to that list.
\<close>

type_synonym ptr = nat

named_theorems ring_simps \<open>how updates of the links change a segment\<close>

text \<open>The nodes strictly between \<open>a\<close> and \<open>b\<close>.\<close>

fun seg :: "(ptr \<Rightarrow> ptr) \<Rightarrow> (ptr \<Rightarrow> ptr) \<Rightarrow> ptr \<Rightarrow> ptr list \<Rightarrow> ptr \<Rightarrow> bool" where
  "seg nx pv a [] b \<longleftrightarrow> nx a = b \<and> pv b = a"
| "seg nx pv a (x # xs) b \<longleftrightarrow> nx a = x \<and> pv x = a \<and> seg nx pv x xs b"

definition ring :: "(ptr \<Rightarrow> ptr) \<Rightarrow> (ptr \<Rightarrow> ptr) \<Rightarrow> ptr \<Rightarrow> ptr list \<Rightarrow> bool" where
  "ring nx pv h xs \<longleftrightarrow> distinct (h # xs) \<and> seg nx pv h xs h"

lemma seg_append: "seg nx pv a (xs @ y # ys) b \<longleftrightarrow> seg nx pv a xs y \<and> seg nx pv y ys b"
  by (induction xs arbitrary: a) auto

lemma seg_nx: "seg nx pv a xs b \<Longrightarrow> nx a = hd (xs @ [b])"
  by (cases xs) auto

lemma seg_pv: "seg nx pv a xs b \<Longrightarrow> pv b = last (a # xs)"
  by (induction xs arbitrary: a) auto

lemma seg_frame_nx [ring_simps]: "u \<notin> set (a # xs) \<Longrightarrow> seg (nx(u := v)) pv a xs b \<longleftrightarrow> seg nx pv a xs b"
  by (induction xs arbitrary: a) auto

lemma seg_frame_pv [ring_simps]: "u \<notin> set (xs @ [b]) \<Longrightarrow> seg nx (pv(u := v)) a xs b \<longleftrightarrow> seg nx pv a xs b"
  by (induction xs arbitrary: a) auto

lemma seg_cong:
  "(\<And>u. u \<in> set (a # xs) \<Longrightarrow> nx' u = nx u) \<Longrightarrow> (\<And>u. u \<in> set (xs @ [b]) \<Longrightarrow> pv' u = pv u) \<Longrightarrow>
   seg nx' pv' a xs b \<longleftrightarrow> seg nx pv a xs b"
  by (induction xs arbitrary: a) auto

lemma ring_cong:
  "(\<And>u. u \<in> set (h # xs) \<Longrightarrow> nx' u = nx u) \<Longrightarrow> (\<And>u. u \<in> set (h # xs) \<Longrightarrow> pv' u = pv u) \<Longrightarrow>
   ring nx' pv' h xs \<longleftrightarrow> ring nx pv h xs"
  unfolding ring_def by (subst seg_cong [of h xs nx' nx h pv' pv]) auto

text \<open>The same ring seen from its next node.\<close>

lemma ring_rotate: "ring nx pv h (x # xs) \<longleftrightarrow> ring nx pv x (xs @ [h])"
  by (auto simp: ring_def seg_append)

lemma ring_rotate_append: "ring nx pv h (xs @ y # ys) \<longleftrightarrow> ring nx pv y (ys @ h # xs)"
  by (auto simp: ring_def seg_append)

subsection \<open>Unlinking a node\<close>

lemma seg_unlink:
  assumes "seg nx pv a (xs @ p # ys) b" and "distinct (a # xs @ p # ys)" and "b \<notin> set (xs @ p # ys)"
  shows "seg (nx(pv p := nx p)) (pv(nx p := pv p)) a (xs @ ys) b"
  using assms
proof (induction xs arbitrary: a)
  case Nil
  then show ?case by (cases ys) (auto simp: ring_simps simp del: fun_upd_apply simp add: fun_upd_same fun_upd_other)
next
  case (Cons x xs)
  have "pv p \<noteq> a"
    using Cons.prems seg_pv [of nx pv x xs p] by (auto simp: seg_append dest: last_in_set split: if_splits)
  moreover have "nx p \<noteq> x"
    using Cons.prems seg_nx [of nx pv p ys b] by (cases ys) (auto simp: seg_append)
  ultimately show ?case using Cons by auto
qed

lemma ring_unlink:
  assumes "ring nx pv h (xs @ p # ys)"
  shows "ring (nx(pv p := nx p)) (pv(nx p := pv p)) h (xs @ ys)"
  using assms seg_unlink [of nx pv h xs p ys h] by (auto simp: ring_def)

subsection \<open>Inserting a node\<close>

text \<open>After the head: the order of the assignments in \<open>start_thread\<close>.\<close>

lemma ring_insert_after:
  assumes "ring nx pv h xs" and "p \<notin> set (h # xs)"
  shows "ring (nx(p := nx h, h := p)) (pv(p := h, nx h := p)) h (p # xs)"
  using assms by (cases xs) (auto simp: ring_def ring_simps)

text \<open>Before the head, that is at the end of the list.\<close>

lemma seg_snoc:
  assumes "seg nx pv a xs b" and "distinct (a # xs)" and "p \<notin> set (a # xs @ [b])" and "b \<notin> set xs"
  shows "seg (nx(pv b := p, p := b)) (pv(p := pv b, b := p)) a (xs @ [p]) b"
  using assms
proof (induction xs arbitrary: a)
  case (Cons x xs)
  then have "pv b \<noteq> a" using seg_pv [of nx pv x xs b] by (auto dest: last_in_set split: if_splits)
  then show ?case using Cons by auto
qed auto

lemma ring_insert_before:
  assumes "ring nx pv h xs" and "p \<notin> set (h # xs)"
  shows "ring (nx(pv h := p, p := h)) (pv(p := pv h, h := p)) h (xs @ [p])"
  using assms seg_snoc [of nx pv h xs h p] by (auto simp: ring_def)

subsection \<open>Changes in the middle of a ring\<close>

lemma ring_links_in:
  assumes "ring nx pv h xs" and "p \<in> set (h # xs)"
  shows "nx p \<in> set (h # xs)" and "pv p \<in> set (h # xs)"
proof -
  obtain ys zs where e: "h # xs = ys @ p # zs" using assms(2) by (meson split_list)
  have "nx p \<in> set (h # xs) \<and> pv p \<in> set (h # xs)"
  proof (cases ys)
    case Nil
    then have "seg nx pv p zs p" using e assms(1) by (auto simp: ring_def)
    then show ?thesis using seg_nx [of nx pv p zs p] seg_pv [of nx pv p zs p] e Nil by (cases zs) (auto simp del: seg.simps)
  next
    case (Cons y ys')
    then have "seg nx pv h ys' p" "seg nx pv p zs h" using e assms(1) by (auto simp: ring_def seg_append)
    then have "pv p = last (h # ys')" "nx p = hd (zs @ [h])" using seg_pv seg_nx by blast+
    moreover have "last (h # ys') \<in> set (h # ys')" by (rule last_in_set) simp
    moreover have "hd (zs @ [h]) \<in> set (zs @ [h])" by (rule hd_in_set) simp
    moreover have "set (h # ys') \<subseteq> set (h # xs)" "set (zs @ [h]) \<subseteq> set (h # xs)" using e Cons by auto
    ultimately show ?thesis by (metis subsetD)
  qed
  then show "nx p \<in> set (h # xs)" "pv p \<in> set (h # xs)" by auto
qed

lemma ring_at:
  assumes "ring nx pv h (xs @ p # ys)"
  shows "nx p = hd (ys @ [h])" and "pv p = last (h # xs)" and "nx p \<noteq> p" and "pv p \<noteq> p"
proof -
  have s: "seg nx pv h xs p" "seg nx pv p ys h" "distinct (h # xs @ p # ys)" using assms by (auto simp: ring_def seg_append)
  show n: "nx p = hd (ys @ [h])" and v: "pv p = last (h # xs)" using s seg_nx seg_pv by blast+
  have "hd (ys @ [h]) \<in> set (ys @ [h])" by (rule hd_in_set) simp
  moreover have "last (h # xs) \<in> set (h # xs)" by (rule last_in_set) simp
  ultimately show "nx p \<noteq> p" "pv p \<noteq> p" using s(3) unfolding n v by auto
qed

lemma ring_insert_at:
  assumes "ring nx pv h (xs @ p # ys)" and "q \<notin> set (h # xs @ p # ys)"
  shows "ring (nx(q := nx p, p := q)) (pv(q := p, nx p := q)) h (xs @ p # q # ys)"
proof -
  have "ring nx pv p (ys @ h # xs)" using assms(1) by (simp add: ring_rotate_append)
  from ring_insert_after [OF this, of q] have "ring (nx(q := nx p, p := q)) (pv(q := p, nx p := q)) p ((q # ys) @ h # xs)"
    using assms(2) by auto
  then show ?thesis by (subst ring_rotate_append) simp
qed

lemma ring_insert_before_at:
  assumes "ring nx pv h (xs @ p # ys)" and "q \<notin> set (h # xs @ p # ys)"
  shows "ring (nx(pv p := q, q := p)) (pv(q := pv p, p := q)) h (xs @ q # p # ys)"
proof -
  have "ring nx pv p (ys @ h # xs)" using assms(1) by (simp add: ring_rotate_append)
  from ring_insert_before [OF this, of q] have "ring (nx(pv p := q, q := p)) (pv(q := pv p, p := q)) p (ys @ h # xs @ [q])"
    using assms(2) by auto
  then show ?thesis using ring_rotate_append [of _ _ h "xs @ [q]" p ys] by simp
qed

text \<open>The node \<open>q\<close> takes the place of \<open>p\<close>.\<close>

lemma ring_replace:
  assumes r: "ring nx pv h (xs @ p # ys)" and q: "q \<notin> set (h # xs @ p # ys)"
  shows "ring (nx(q := nx p, pv p := q)) (pv(q := pv p, nx p := q)) h (xs @ q # ys)"
proof -
  let ?nx = "nx(q := nx p, p := q)" and ?pv = "pv(q := p, nx p := q)"
  note a = ring_at [OF r]
  have l: "nx p \<in> set (h # xs @ p # ys)" "pv p \<in> set (h # xs @ p # ys)" using ring_links_in [OF r, of p] by simp_all
  then have n: "nx p \<noteq> q" "pv p \<noteq> q" "p \<noteq> q" using q by auto
  have e: "?pv p = pv p" "?nx p = q" using a(3) n by auto
  have pn: "u \<noteq> p" if "u \<in> set (h # xs @ q # ys)" for u using that r n by (auto simp: ring_def)
  have "ring (nx(q := nx p, pv p := q)) (pv(q := pv p, nx p := q)) h (xs @ q # ys) \<longleftrightarrow>
    ring (?nx(pv p := q)) (?pv(q := pv p)) h (xs @ q # ys)"
    by (rule ring_cong) (use pn n in simp_all)
  then show ?thesis using ring_unlink [OF ring_insert_at [OF r q]] unfolding e by simp
qed

end
