(* ===== verification/Cache.thy ===== *)
theory Cache
  imports Ring
begin

section \<open>The block cache of the core\<close>

text \<open>
  \<open>core/fs/cache.c\<close>: a fixed number of block buffers whose descriptors form a circular list in
  least-recently-used order behind a head node. The descriptors are an array that starts with the
  head; addresses count descriptors, so the head is 1 and the entries follow it, and 0 is the
  null pointer. The data area is a map from offsets to the contents of the block-sized slot at that
  offset. The disk, read by \<open>getoneblk\<close>, is a function from block numbers to blocks.

  The lemmas show that the cache implements an LRU list over the pointer structure and that
  what it returns is always the block of the disk, for \<open>get_cache\<close> and for byte ranges read
  through \<open>cache_read\<close>.
\<close>

subsection \<open>State\<close>

record device =
  cache_size :: nat
  cache_block_size :: nat
  cache_entries :: nat
  cache_head :: ptr
  cblock :: "ptr \<Rightarrow> u64"
  cprev :: "ptr \<Rightarrow> ptr"
  cnext :: "ptr \<Rightarrow> ptr"
  cdata :: "ptr \<Rightarrow> nat"
  slots :: "nat \<Rightarrow> buf"
  initialised :: bool

text \<open>
  The block size and the number of entries are kept in 16 bits. The size of a descriptor on the 32-bit
  target is that of a 64-bit block number and three pointers.
\<close>

definition sizeof_cache :: nat where "sizeof_cache = 20"

definition head_addr :: ptr where "head_addr = 1"

subsection \<open>Operations\<close>

fun init_loop :: "nat \<Rightarrow> nat \<Rightarrow> ptr \<Rightarrow> nat \<Rightarrow> device \<Rightarrow> device" where
  "init_loop 0 cur prev data dev = dev"
| "init_loop (Suc n) cur prev data dev =
    init_loop n (cur + 1) cur (data + cache_block_size dev)
      (dev\<lparr>cdata := (cdata dev)(cur := data), cblock := (cblock dev)(cur := - 1),
           cprev := (cprev dev)(cur := prev), cnext := (cnext dev)(prev := cur)\<rparr>)"

definition cache_init :: "device \<Rightarrow> nat \<Rightarrow> device" where
  "cache_init dev block_size_shift =
    (let dev = dev\<lparr>cache_block_size := 2 ^ block_size_shift mod 2 ^ 16\<rparr>
     in if cache_size dev < cache_block_size dev + 2 * sizeof_cache then dev\<lparr>cache_head := 0\<rparr>
        else
          let n = (cache_size dev - sizeof_cache) div (cache_block_size dev + sizeof_cache) mod 2 ^ 16;
              head = head_addr;
              cache = head + 1;
              dev = dev\<lparr>cache_entries := n, cache_head := head\<rparr>;
              dev = dev\<lparr>cprev := (cprev dev)(head := cache + (n - 1))\<rparr>;
              dev = dev\<lparr>cnext := (cnext dev)(cprev dev head := head),
                        cblock := (cblock dev)(head := - 1)\<rparr>
          in (init_loop n cache head 0 dev)\<lparr>initialised := True\<rparr>)"

definition cache_lock_block :: "device \<Rightarrow> ptr \<Rightarrow> device" where
  "cache_lock_block dev cs =
    (let dev = dev\<lparr>cnext := (cnext dev)(cprev dev cs := cnext dev cs)\<rparr>;
         dev = dev\<lparr>cprev := (cprev dev)(cnext dev cs := cprev dev cs)\<rparr>
     in dev\<lparr>cnext := (cnext dev)(cs := 0), cprev := (cprev dev)(cs := 0)\<rparr>)"

fun find_block :: "device \<Rightarrow> u64 \<Rightarrow> nat \<Rightarrow> ptr \<Rightarrow> ptr option" where
  "find_block dev block 0 cs = None"
| "find_block dev block (Suc n) cs =
    (if cblock dev cs = block then Some cs else find_block dev block n (cs + 1))"

definition move_to_end :: "device \<Rightarrow> ptr \<Rightarrow> device" where
  "move_to_end dev cs =
    (let head = cache_head dev;
         dev = dev\<lparr>cnext := (cnext dev)(cprev dev cs := cnext dev cs)\<rparr>;
         dev = dev\<lparr>cprev := (cprev dev)(cnext dev cs := cprev dev cs)\<rparr>;
         dev = dev\<lparr>cprev := (cprev dev)(cs := cprev dev head)\<rparr>;
         dev = dev\<lparr>cnext := (cnext dev)(cprev dev head := cs)\<rparr>;
         dev = dev\<lparr>cnext := (cnext dev)(cs := head)\<rparr>
     in dev\<lparr>cprev := (cprev dev)(head := cs)\<rparr>)"

definition get_cache_block :: "device \<Rightarrow> u64 \<Rightarrow> ptr \<times> device" where
  "get_cache_block dev block =
    (let head = cache_head dev;
         cs = (case find_block dev block (cache_entries dev) (head + 1) of
                 Some cs \<Rightarrow> cs
               | None \<Rightarrow> cnext dev head)
     in if cnext dev cs \<noteq> 0 then (cs, move_to_end dev cs) else (cs, dev))"

definition get_cache :: "(u64 \<Rightarrow> buf) \<Rightarrow> device \<Rightarrow> u64 \<Rightarrow> buf \<times> device" where
  "get_cache disk dev block =
    (let (cs, dev) = get_cache_block dev block;
         dev = (if cblock dev cs \<noteq> block
                then dev\<lparr>cblock := (cblock dev)(cs := block), slots := (slots dev)(cdata dev cs := disk block)\<rparr>
                else dev)
     in (slots dev (cdata dev cs), dev))"

text \<open>
  The loop of \<open>cache_read\<close>; the result is what is written to the caller's buffer, \<open>None\<close> a copy
  from outside a block.
\<close>

function cache_read_loop :: "(u64 \<Rightarrow> buf) \<Rightarrow> nat \<Rightarrow> device \<Rightarrow> u64 \<Rightarrow> nat \<Rightarrow> (buf \<times> device) option" where
  "cache_read_loop disk shift dev offset count =
    (if count = 0 then Some ([], dev)
     else
       let block = drop_bit shift offset;
           off = unat (offset AND mask shift);
           (cd, dev) = get_cache disk dev block;
           cnt = min (2 ^ shift - off) count
       in do {
         bytes \<leftarrow> slice cd off cnt;
         (rest, dev) \<leftarrow> cache_read_loop disk shift dev (offset + of_nat cnt) (count - cnt);
         Some (bytes @ rest, dev) })"
  by pat_completeness auto
termination
  by (relation "measure (\<lambda>(_, _, _, _, count). count)") (auto simp: unat_and_mask)

declare cache_read_loop.simps [simp del]

definition cache_read :: "(u64 \<Rightarrow> buf) \<Rightarrow> nat \<Rightarrow> device \<Rightarrow> u64 \<Rightarrow> nat \<Rightarrow> ((nat \<times> buf) \<times> device) option" where
  "cache_read disk shift dev offset count =
     map_option (\<lambda>(bytes, dev). ((count, bytes), dev)) (cache_read_loop disk shift dev offset count)"

subsection \<open>Representation invariant\<close>

definition entries :: "device \<Rightarrow> ptr set" where
  "entries dev = {cache_head dev + 1..cache_head dev + cache_entries dev}"

text \<open>
  \<open>lru\<close> lists the entries on the chain, the least recently used one first. An entry that is not
  on the chain is locked. Every entry with a block number holds that block, and no block is held
  twice.
\<close>

definition cache_rep :: "(u64 \<Rightarrow> buf) \<Rightarrow> device \<Rightarrow> ptr list \<Rightarrow> bool" where
  "cache_rep disk dev lru \<longleftrightarrow>
     0 < cache_head dev \<and> ring (cnext dev) (cprev dev) (cache_head dev) lru \<and>
     lru \<noteq> [] \<and> set lru \<subseteq> entries dev \<and>
     (\<forall>p \<in> entries dev - set lru. cnext dev p = 0) \<and>
     inj_on (cdata dev) (entries dev) \<and>
     (\<forall>p \<in> entries dev. cblock dev p \<noteq> - 1 \<longrightarrow> slots dev (cdata dev p) = disk (cblock dev p)) \<and>
     inj_on (cblock dev) {p \<in> entries dev. cblock dev p \<noteq> - 1}"

lemma head_not_entry: "cache_head dev \<notin> entries dev"
  by (simp add: entries_def)

lemma find_block_Some:
  "find_block dev block n cs = Some p \<Longrightarrow> p \<in> {cs..<cs + n} \<and> cblock dev p = block"
  by (induction n arbitrary: cs) (auto split: if_splits, fastforce+)

lemma find_block_None: "find_block dev block n cs = None \<longleftrightarrow> (\<forall>p \<in> {cs..<cs + n}. cblock dev p \<noteq> block)"
proof (induction n arbitrary: cs)
  case (Suc n)
  have "{cs..<cs + Suc n} = insert cs {cs + 1..<cs + 1 + n}" by auto
  then show ?case using Suc by simp
qed simp

text \<open>The links after a move to the end.\<close>

lemma move_to_end_ring:
  assumes "ring (cnext dev) (cprev dev) (cache_head dev) (xs @ p # ys)"
  shows "ring (cnext (move_to_end dev p)) (cprev (move_to_end dev p)) (cache_head dev) (xs @ ys @ [p])"
proof -
  let ?h = "cache_head dev"
  let ?nx = "(cnext dev)(cprev dev p := cnext dev p)" and ?pv = "(cprev dev)(cnext dev p := cprev dev p)"
  have r: "ring ?nx ?pv ?h (xs @ ys)" by (rule ring_unlink [OF assms])
  have p: "p \<notin> set (?h # xs @ ys)" "cnext dev p \<noteq> p" "cprev dev p \<noteq> p"
    using assms seg_nx [of "cnext dev" "cprev dev" p ys ?h] seg_pv [of "cnext dev" "cprev dev" ?h xs p]
    by (cases ys; auto simp: ring_def seg_append dest: last_in_set split: if_splits)+
  have "cnext (move_to_end dev p) = ?nx(?pv ?h := p, p := ?h)"
    "cprev (move_to_end dev p) = ?pv(p := ?pv ?h, ?h := p)"
    using p by (auto simp: move_to_end_def Let_def fun_eq_iff)
  then show ?thesis using ring_insert_before [OF r p(1)] by (simp only: append_assoc)
qed

lemma move_to_end_frame:
  assumes "ring (cnext dev) (cprev dev) (cache_head dev) (xs @ p # ys)"
    and "q \<notin> set (cache_head dev # xs @ p # ys)"
  shows "cnext (move_to_end dev p) q = cnext dev q"
proof -
  let ?h = "cache_head dev"
  have "cprev dev p \<in> set (?h # xs @ p # ys)" "cprev dev ?h \<in> set (?h # xs @ p # ys)"
    using assms(1) seg_pv [of "cnext dev" "cprev dev" ?h xs p] seg_pv [of "cnext dev" "cprev dev" p ys ?h]
    by (auto simp: ring_def seg_append)
  then show ?thesis using assms(2) by (auto simp: move_to_end_def Let_def)
qed

lemma move_to_end_sel [simp]:
  "cache_head (move_to_end dev p) = cache_head dev" "cache_entries (move_to_end dev p) = cache_entries dev"
  "cblock (move_to_end dev p) = cblock dev" "cdata (move_to_end dev p) = cdata dev"
  "slots (move_to_end dev p) = slots dev" "entries (move_to_end dev p) = entries dev"
  by (simp_all add: move_to_end_def Let_def entries_def)

lemma ring_next_nonzero:
  assumes "ring nx pv h xs" and "0 \<notin> set (h # xs)" and "p \<in> set xs"
  shows "nx p \<noteq> 0"
proof -
  obtain ys zs where "xs = ys @ p # zs" using assms(3) by (auto simp: in_set_conv_decomp)
  then have "nx p = hd (zs @ [h])" using assms(1) seg_nx by (auto simp: ring_def seg_append)
  then show ?thesis using assms(2) \<open>xs = _\<close> by (cases zs) auto
qed

text \<open>The entry that \<open>_get_cache_block\<close> picks: the one that holds the block, else the least recently used.\<close>

definition pick :: "device \<Rightarrow> ptr list \<Rightarrow> u64 \<Rightarrow> ptr" where
  "pick dev lru block =
     (case find_block dev block (cache_entries dev) (cache_head dev + 1) of Some cs \<Rightarrow> cs | None \<Rightarrow> hd lru)"

definition touch :: "ptr \<Rightarrow> ptr list \<Rightarrow> ptr list" where
  "touch p lru = (if p \<in> set lru then remove1 p lru @ [p] else lru)"

lemma touch_split: "p \<notin> set xs \<Longrightarrow> touch p (xs @ p # ys) = xs @ ys @ [p]"
  by (simp add: touch_def remove1_append)

lemma set_touch: "distinct lru \<Longrightarrow> set (touch p lru) = set lru"
  by (auto simp: touch_def)

lemma pick_entry:
  assumes "cache_rep disk dev lru"
  shows "pick dev lru block \<in> entries dev"
    and "cblock dev (pick dev lru block) \<noteq> block \<Longrightarrow>
      pick dev lru block = hd lru \<and> (\<forall>p \<in> entries dev. cblock dev p \<noteq> block)"
proof -
  have e: "{cache_head dev + 1..<cache_head dev + 1 + cache_entries dev} = entries dev"
    by (auto simp: entries_def)
  have h: "hd lru \<in> entries dev" using assms by (auto simp: cache_rep_def)
  show "pick dev lru block \<in> entries dev"
    unfolding pick_def using h find_block_Some [of dev block "cache_entries dev" "cache_head dev + 1", unfolded e]
    by (auto split: option.split)
  show "pick dev lru block = hd lru \<and> (\<forall>p \<in> entries dev. cblock dev p \<noteq> block)"
    if "cblock dev (pick dev lru block) \<noteq> block"
    using that find_block_Some [of dev block "cache_entries dev" "cache_head dev + 1", unfolded e]
      find_block_None [of dev block "cache_entries dev" "cache_head dev + 1", unfolded e]
    unfolding pick_def by (auto split: option.splits)
qed

lemma get_cache_block_rep:
  assumes r: "cache_rep disk dev lru"
  obtains dev' where "get_cache_block dev block = (pick dev lru block, dev')"
    and "cache_rep disk dev' (touch (pick dev lru block) lru)"
    and "cblock dev' = cblock dev" "cdata dev' = cdata dev" "slots dev' = slots dev" "entries dev' = entries dev"
proof -
  let ?h = "cache_head dev" and ?p = "pick dev lru block"
  have ring: "ring (cnext dev) (cprev dev) ?h lru" and ne: "lru \<noteq> []" and sub: "set lru \<subseteq> entries dev"
    and pos: "0 < ?h" using r by (auto simp: cache_rep_def)
  have "cnext dev ?h = hd lru" using seg_nx [of "cnext dev" "cprev dev" ?h lru ?h] ring ne by (simp add: ring_def)
  then have g: "get_cache_block dev block =
      (if cnext dev ?p \<noteq> 0 then (?p, move_to_end dev ?p) else (?p, dev))"
    by (simp add: get_cache_block_def pick_def Let_def cong: option.case_cong)
  have nz: "0 \<notin> set (?h # lru)" using pos sub by (auto simp: entries_def)
  show ?thesis
  proof (cases "?p \<in> set lru")
    case True
    then obtain xs ys where l: "lru = xs @ ?p # ys" "?p \<notin> set xs"
      using split_list_first by fast
    then have t: "touch ?p lru = xs @ ys @ [?p]" using touch_split by metis
    have "ring (cnext (move_to_end dev ?p)) (cprev (move_to_end dev ?p)) ?h (xs @ ys @ [?p])"
      using move_to_end_ring [of dev xs ?p ys] ring l(1) by simp
    moreover have "cnext (move_to_end dev ?p) q = 0" if "q \<in> entries dev - set lru" for q
      using move_to_end_frame [of dev xs ?p ys q] ring r that l(1) head_not_entry by (auto simp: cache_rep_def)
    moreover have "set (touch ?p lru) = set lru" "touch ?p lru \<noteq> []"
      using set_touch ring True by (auto simp: ring_def touch_def)
    ultimately have "cache_rep disk (move_to_end dev ?p) (touch ?p lru)"
      using r unfolding cache_rep_def t [symmetric] by auto
    moreover have "cnext dev ?p \<noteq> 0" using ring_next_nonzero [OF ring nz True] .
    ultimately show ?thesis using that g by simp
  next
    case False
    then have "cnext dev ?p = 0" using r pick_entry(1) [OF r] by (auto simp: cache_rep_def)
    then show ?thesis using that [of dev] g r False by (simp add: touch_def)
  qed
qed


lemma get_cache_rep:
  assumes r: "cache_rep disk dev lru" and b: "block \<noteq> - 1"
  shows "fst (get_cache disk dev block) = disk block"
    and "cache_rep disk (snd (get_cache disk dev block)) (touch (pick dev lru block) lru)"
    and "cblock (snd (get_cache disk dev block)) = (cblock dev)(pick dev lru block := block)"
proof -
  let ?p = "pick dev lru block"
  obtain dev1 where g: "get_cache_block dev block = (?p, dev1)" "cache_rep disk dev1 (touch ?p lru)"
    "cblock dev1 = cblock dev" "cdata dev1 = cdata dev" "slots dev1 = slots dev" "entries dev1 = entries dev"
    using get_cache_block_rep [OF r] by metis
  let ?d = "dev1\<lparr>cblock := (cblock dev)(?p := block), slots := (slots dev)(cdata dev ?p := disk block)\<rparr>"
  note pe = pick_entry [OF r, of block]
  have "fst (get_cache disk dev block) = disk block \<and>
    cache_rep disk (snd (get_cache disk dev block)) (touch ?p lru) \<and>
    cblock (snd (get_cache disk dev block)) = (cblock dev)(?p := block)"
  proof (cases "cblock dev ?p = block")
    case True
    then have "get_cache disk dev block = (slots dev (cdata dev ?p), dev1)"
      using g(1,3,4,5) by (simp add: get_cache_def)
    moreover have "slots dev (cdata dev ?p) = disk block" using r pe(1) True b by (auto simp: cache_rep_def)
    ultimately show ?thesis using g True by auto
  next
    case False
    have "get_cache disk dev block = (disk block, ?d)"
      using g(1,3,4,5) False by (simp add: get_cache_def)
    moreover have "cache_rep disk ?d (touch ?p lru)"
    proof -
      have e: "entries ?d = entries dev1" by (simp add: entries_def)
      have "inj_on (cdata dev) (entries dev)" using r by (simp add: cache_rep_def)
      then have "\<forall>q \<in> entries dev. q \<noteq> ?p \<longrightarrow> cdata dev q \<noteq> cdata dev ?p" using pe(1) by (auto dest: inj_onD)
      moreover have "inj_on ((cblock dev)(?p := block)) {q \<in> entries dev. ((cblock dev)(?p := block)) q \<noteq> - 1}"
        using r pe(2) [OF False] unfolding cache_rep_def inj_on_def by auto
      ultimately show ?thesis using g(2) r unfolding cache_rep_def e unfolding g(6) by (simp add: g(3,4,5))
    qed
    ultimately show ?thesis by simp
  qed
  then show "fst (get_cache disk dev block) = disk block"
    "cache_rep disk (snd (get_cache disk dev block)) (touch ?p lru)"
    "cblock (snd (get_cache disk dev block)) = (cblock dev)(?p := block)" by auto
qed

subsection \<open>The interface of a block reader\<close>

text \<open>
  What the file systems rely on: every read gives the block of the disk, in whatever order
  blocks are read.
\<close>

locale block_reader =
  fixes get :: "'d \<Rightarrow> u64 \<Rightarrow> buf \<times> 'd"
    and invar :: "'d \<Rightarrow> bool"
    and valid :: "u64 \<Rightarrow> bool"
    and disk :: "u64 \<Rightarrow> buf"
  assumes get_disk: "invar d \<Longrightarrow> valid n \<Longrightarrow> fst (get d n) = disk n"
    and get_invar: "invar d \<Longrightarrow> valid n \<Longrightarrow> invar (snd (get d n))"
begin

fun get_all :: "'d \<Rightarrow> u64 list \<Rightarrow> buf list \<times> 'd" where
  "get_all d [] = ([], d)"
| "get_all d (n # ns) = (let (b, d) = get d n; (bs, d) = get_all d ns in (b # bs, d))"

lemma get_all_disk:
  "invar d \<Longrightarrow> \<forall>n \<in> set ns. valid n \<Longrightarrow> fst (get_all d ns) = map disk ns \<and> invar (snd (get_all d ns))"
proof (induction ns arbitrary: d)
  case (Cons n ns)
  then show ?case using get_disk [of d n] get_invar [of d n] Cons.IH [of "snd (get d n)"]
    by (auto simp: split_beta)
qed simp

end

definition cache_ok :: "(u64 \<Rightarrow> buf) \<Rightarrow> device \<Rightarrow> bool" where
  "cache_ok disk dev \<longleftrightarrow> (\<exists>lru. cache_rep disk dev lru)"

interpretation cr: block_reader "get_cache disk" "cache_ok disk" "\<lambda>n. n \<noteq> - 1" disk for disk
  by unfold_locales (auto simp: cache_ok_def intro: get_cache_rep)

subsection \<open>Initialisation, locking and byte ranges\<close>

lemma init_loop_links:
  shows "cnext (init_loop n (Suc c) c data dev) q = (if c \<le> q \<and> q < c + n then Suc q else cnext dev q)"
    and "cprev (init_loop n (Suc c) c data dev) q = (if c < q \<and> q \<le> c + n then q - 1 else cprev dev q)"
    and "cblock (init_loop n (Suc c) c data dev) q = (if c < q \<and> q \<le> c + n then - 1 else cblock dev q)"
    and "cdata (init_loop n (Suc c) c data dev) q =
      (if c < q \<and> q \<le> c + n then data + (q - Suc c) * cache_block_size dev else cdata dev q)"
    and "cache_head (init_loop n (Suc c) c data dev) = cache_head dev"
    and "cache_entries (init_loop n (Suc c) c data dev) = cache_entries dev"
proof (induction n arbitrary: c data dev)
  case (Suc n)
  {
    case 1
    show ?case by (auto simp: Suc.IH(1))
  next
    case 2
    show ?case by (auto simp: Suc.IH(2))
  next
    case 3
    show ?case by (auto simp: Suc.IH(3))
  next
    case 4
    have "q - Suc c = Suc (q - Suc (Suc c))" if "Suc c < q" using that by simp
    then show ?case by (auto simp: Suc.IH(4))
  next
    case 5
    show ?case by (simp add: Suc.IH(5))
  next
    case 6
    show ?case by (simp add: Suc.IH(6))
  }
qed auto

lemma seg_upt:
  assumes "\<And>q. a \<le> q \<Longrightarrow> q < a + n \<Longrightarrow> nx q = q + 1" and "\<And>q. a < q \<Longrightarrow> q \<le> a + n \<Longrightarrow> pv q = q - 1"
    and "nx (a + n) = b" and "pv b = a + n"
  shows "seg nx pv a [a + 1..<a + 1 + n] b"
  using assms
proof (induction n arbitrary: a)
  case (Suc n)
  have "[a + 1..<a + 1 + Suc n] = (a + 1) # [Suc a + 1..<Suc a + 1 + n]" by (subst upt_conv_Cons) auto
  moreover have "seg nx pv (Suc a) [Suc a + 1..<Suc a + 1 + n] b" using Suc.prems by (intro Suc.IH) auto
  ultimately show ?case using Suc.prems(1) [of a] Suc.prems(2) [of "a + 1"] by simp
qed simp

lemma cache_init_rep:
  assumes "2 ^ shift + 2 * sizeof_cache \<le> cache_size dev" and "shift < 16" and "cache_size dev < 2 ^ 20"
  shows "\<exists>n > 0. cache_rep disk (cache_init dev shift) [2..<2 + n] \<and> cache_entries (cache_init dev shift) = n"
proof -
  define n where "n = (cache_size dev - sizeof_cache) div (2 ^ shift + sizeof_cache)"
  have "(2 ^ shift + sizeof_cache) div (2 ^ shift + sizeof_cache) \<le> n"
    unfolding n_def using assms by (intro div_le_mono) linarith
  then have n: "0 < n" by (simp add: sizeof_cache_def)
  have "n < 2 ^ 16"
    unfolding n_def using assms(3) by (intro less_mult_imp_div_less) (simp add: sizeof_cache_def algebra_simps)
  then have n16: "(cache_size dev - sizeof_cache) div (2 ^ shift + sizeof_cache) mod 2 ^ 16 = n"
    unfolding n_def by (rule mod_less)
  have "(2 :: nat) ^ shift < 2 ^ 16" using assms(2) by (intro power_strict_increasing) auto
  then have b16: "(2 :: nat) ^ shift mod 2 ^ 16 = 2 ^ shift" by (rule mod_less)
  define d where "d = cache_init dev shift"
  define e where "e = dev\<lparr>cache_block_size := 2 ^ shift, cache_entries := n, cache_head := 1,
      cprev := (cprev dev)(1 := 2 + (n - 1)), cnext := (cnext dev)(2 + (n - 1) := 1), cblock := (cblock dev)(1 := - 1)\<rparr>"
  have d: "d = (init_loop n (Suc 1) 1 0 e)\<lparr>initialised := True\<rparr>"
    unfolding d_def e_def cache_init_def Let_def using assms(1)
    by (simp only: device.simps b16 head_addr_def) (use n16 in simp)
  have bs: "cache_block_size e = 2 ^ shift" by (simp add: e_def)
  have links: "cnext d q = (if 1 \<le> q \<and> q < 1 + n then q + 1 else cnext e q)"
    "cprev d q = (if 1 < q \<and> q \<le> 1 + n then q - 1 else cprev e q)"
    "cblock d q = (if 1 < q \<and> q \<le> 1 + n then - 1 else cblock e q)"
    "cdata d q = (if 1 < q \<and> q \<le> 1 + n then (q - Suc 1) * 2 ^ shift else cdata e q)" for q
    unfolding d by (simp_all add: init_loop_links bs)
  have sel: "cache_head d = 1" "cache_entries d = n" unfolding d by (simp_all add: init_loop_links) (simp_all add: e_def)
  have ent: "entries d = {1 + 1..<1 + 1 + n}" unfolding entries_def sel by auto
  have "seg (cnext d) (cprev d) 1 [1 + 1..<1 + 1 + n] 1"
    by (rule seg_upt) (use n in \<open>auto simp: links e_def\<close>)
  then have ring: "ring (cnext d) (cprev d) 1 [2..<2 + n]" by (simp add: ring_def numeral_2_eq_2)
  have inj: "inj_on (cdata d) (entries d)" by (auto simp: inj_on_def links ent)
  have b: "cblock d q = - 1" if "q \<in> entries d" for q using that by (simp add: links ent)
  then have "inj_on (cblock d) {p \<in> entries d. cblock d p \<noteq> - 1}" by (intro inj_onI) simp
  moreover have "set [2..<2 + n] = entries d" "[2..<2 + n] \<noteq> []" using n by (auto simp: ent)
  ultimately have "cache_rep disk d [2..<2 + n]" unfolding cache_rep_def sel(1) using ring inj b by simp
  then show ?thesis using n sel(2) unfolding d_def by blast
qed

lemma cache_lock_block_rep:
  assumes r: "cache_rep disk dev lru" and p: "p \<in> set lru" and two: "2 \<le> length lru"
  shows "cache_rep disk (cache_lock_block dev p) (remove1 p lru)"
proof -
  let ?h = "cache_head dev" and ?d = "cache_lock_block dev p"
  obtain xs ys where l: "lru = xs @ p # ys" "p \<notin> set xs" using p split_list_first by fast
  have rm: "remove1 p lru = xs @ ys" using l by (simp add: remove1_append)
  have ring: "ring (cnext dev) (cprev dev) ?h (xs @ p # ys)" using r l by (simp add: cache_rep_def)
  let ?nx = "(cnext dev)(cprev dev p := cnext dev p)" and ?pv = "(cprev dev)(cnext dev p := cprev dev p)"
  have mem: "cnext dev p \<in> set (?h # xs @ ys)" "cprev dev p \<in> set (?h # xs @ ys)" "p \<notin> set (?h # xs @ ys)"
    using ring seg_nx [of "cnext dev" "cprev dev" p ys ?h] seg_pv [of "cnext dev" "cprev dev" ?h xs p]
    by (cases ys; auto simp: ring_def seg_append)+
  then have sel: "cnext ?d = ?nx(p := 0)" "cprev ?d = ?pv(p := 0)" "cblock ?d = cblock dev" "cdata ?d = cdata dev"
    "slots ?d = slots dev" "cache_head ?d = ?h" "entries ?d = entries dev"
    by (auto simp: cache_lock_block_def Let_def entries_def fun_eq_iff)
  have "ring ?nx ?pv ?h (xs @ ys)" by (rule ring_unlink [OF ring])
  moreover have "ring (cnext ?d) (cprev ?d) ?h (xs @ ys) \<longleftrightarrow> ring ?nx ?pv ?h (xs @ ys)"
    using mem(3) by (intro ring_cong) (auto simp: sel)
  moreover have "cnext ?d q = 0" if "q \<in> entries dev - set (xs @ ys)" for q
    using that r l mem head_not_entry [of dev] by (auto simp: sel cache_rep_def)
  moreover have "xs @ ys \<noteq> []" using two l(1) by auto
  ultimately show ?thesis using r l(1) unfolding cache_rep_def rm sel by auto
qed

text \<open>The disk as one sequence of bytes.\<close>

definition disk_byte :: "(u64 \<Rightarrow> buf) \<Rightarrow> nat \<Rightarrow> nat \<Rightarrow> byte" where
  "disk_byte disk shift k = disk (of_nat (k div 2 ^ shift)) ! (k mod 2 ^ shift)"

lemma block_bytes:
  assumes "length (disk (of_nat (k div 2 ^ shift))) = 2 ^ shift" and "k mod 2 ^ shift + n \<le> 2 ^ shift"
  shows "take n (drop (k mod 2 ^ shift) (disk (of_nat (k div 2 ^ shift)))) = map (disk_byte disk shift) [k..<k + n]"
proof (rule nth_equalityI)
  fix i assume "i < length (take n (drop (k mod 2 ^ shift) (disk (of_nat (k div 2 ^ shift)))))"
  then have i: "i < n" by simp
  then have "(k + i) div 2 ^ shift = k div 2 ^ shift \<and> (k + i) mod 2 ^ shift = k mod 2 ^ shift + i"
    using assms(2) by (intro div_mod_add) simp
  then show "take n (drop (k mod 2 ^ shift) (disk (of_nat (k div 2 ^ shift)))) ! i = map (disk_byte disk shift) [k..<k + n] ! i"
    using i assms by (simp add: disk_byte_def)
qed (use assms in simp)

lemma cache_read_loop_bytes:
  assumes "cache_ok disk dev" and "\<And>b. length (disk b) = 2 ^ shift" and "0 < shift"
    and "unat offset + count \<le> 2 ^ 64"
  shows "\<exists>dev'. cache_read_loop disk shift dev offset count =
       Some (map (disk_byte disk shift) [unat offset..<unat offset + count], dev') \<and> cache_ok disk dev'"
  using assms(1,4)
proof (induction count arbitrary: dev offset rule: less_induct)
  case (less count)
  show ?case
  proof (cases "count = 0")
    case True
    then show ?thesis using less.prems by (subst cache_read_loop.simps) simp
  next
    case False
    let ?k = "unat offset" and ?b = "drop_bit shift offset"
    let ?off = "?k mod 2 ^ shift"
    define cnt where "cnt = min (2 ^ shift - ?off) count"
    have b: "?b = of_nat (?k div 2 ^ shift)" by (intro of_natI unat_drop_bit)
    have nb: "?b \<noteq> - 1"
    proof
      assume "?b = - 1"
      then have "bit ?b 63" by simp
      then have "bit offset (63 + shift)" by (simp add: bit_drop_bit_eq add.commute)
      then show False using bit_imp_le_length [of offset] assms(3) by fastforce
    qed
    obtain dev1 where g: "get_cache disk dev ?b = (disk ?b, dev1)" "cache_ok disk dev1"
      using cr.get_disk [OF less.prems(1) nb] cr.get_invar [OF less.prems(1) nb] by (metis prod.collapse)
    have off: "?off < 2 ^ shift" by simp
    then have cnt: "0 < cnt" "cnt \<le> count" using False by (auto simp: cnt_def)
    have "cnt \<le> 2 ^ shift - ?off" by (simp add: cnt_def)
    then have cnt3: "?off + cnt \<le> 2 ^ shift" using off by linarith
    have sl: "slice (disk ?b) ?off cnt = Some (map (disk_byte disk shift) [?k..<?k + cnt])"
      using block_bytes [of disk ?k shift cnt] cnt3 assms(2) by (simp add: slice_Some b)
    have u: "unat (offset + of_nat cnt) = (?k + cnt) mod 2 ^ 64"
      using cnt(2) by (simp add: unat_word_ariths unat_of_nat mod_add_right_eq)
    have ex: "cache_read_loop disk shift dev offset count =
       (do { (rest, dev) \<leftarrow> cache_read_loop disk shift dev1 (offset + of_nat cnt) (count - cnt);
             Some (map (disk_byte disk shift) [?k..<?k + cnt] @ rest, dev) })"
      using False by (subst cache_read_loop.simps) (simp add: g(1) unat_and_mask sl cnt_def [symmetric] Let_def)
    have "unat (offset + of_nat cnt) + (count - cnt) \<le> 2 ^ 64"
      unfolding u using less.prems(2) cnt(2) mod_less_eq_dividend [of "?k + cnt" "2 ^ 64"] by linarith
    from less.IH [OF _ g(2) this] cnt obtain dev2 where ih: "cache_ok disk dev2"
      "cache_read_loop disk shift dev1 (offset + of_nat cnt) (count - cnt) =
        Some (map (disk_byte disk shift) [unat (offset + of_nat cnt)..<unat (offset + of_nat cnt) + (count - cnt)], dev2)"
      by fastforce
    have "[unat (offset + of_nat cnt)..<unat (offset + of_nat cnt) + (count - cnt)] = [?k + cnt..<?k + count]"
    proof (cases "cnt = count")
      case False
      then have "(?k + cnt) mod 2 ^ 64 = ?k + cnt" using less.prems(2) cnt(2) by (intro mod_less) linarith
      then show ?thesis using cnt(2) by (simp add: u)
    qed simp
    moreover have "[?k..<?k + cnt] @ [?k + cnt..<?k + count] = [?k..<?k + count]"
      using cnt(2) upt_add_eq_append [of ?k "?k + cnt" "count - cnt"] by simp
    ultimately show ?thesis unfolding ex using ih by (simp flip: map_append)
  qed
qed

subsection \<open>Properties\<close>

text \<open>C2. \<open>get_cache\<close> refines a least-recently-used cache: it returns the block of the disk; a block that
  is cached keeps its entry, otherwise the entry used longest ago that is not locked is
  reused; the entry becomes the most recently used one, unless it is locked and so not on the chain, and no other entry changes. A hit, too, moves the
  entry to the end of the chain, although the comments in \<open>cache.c\<close> say that it does nothing.\<close>

theorem get_cache_lru:
  assumes "cache_rep disk dev lru" and "block \<noteq> - 1"
  shows "\<exists>p dev'. get_cache disk dev block = (disk block, dev') \<and> cache_rep disk dev' (touch p lru) \<and>
    p \<in> entries dev \<and> cblock dev' = (cblock dev)(p := block) \<and>
    (if \<exists>q \<in> entries dev. cblock dev q = block then cblock dev p = block else p = hd lru)"
proof -
  let ?p = "pick dev lru block"
  have "if \<exists>q \<in> entries dev. cblock dev q = block then cblock dev ?p = block else ?p = hd lru"
    using pick_entry [OF assms(1), of block] by auto
  then show ?thesis using get_cache_rep [OF assms] pick_entry(1) [OF assms(1)] by (metis prod.collapse)
qed

text \<open>\<open>cache_read\<close> reads exactly the requested range of the disk, across block boundaries.\<close>

theorem cache_read_correct:
  assumes "cache_ok disk dev" and "\<forall>b. length (disk b) = 2 ^ shift" and "0 < shift"
    and "unat offset + count \<le> 2 ^ 64"
  shows "\<exists>dev'. cache_read disk shift dev offset count =
      Some ((count, map (disk_byte disk shift) [unat offset..<unat offset + count]), dev') \<and> cache_ok disk dev'"
  using cache_read_loop_bytes [OF assms(1) _ assms(3,4)] assms(2) unfolding cache_read_def by fastforce

definition demo_dev :: device where
  "demo_dev = cache_init \<lparr>cache_size = 64, cache_block_size = 0, cache_entries = 0, cache_head = 0,
     cblock = (\<lambda>_. 0), cprev = (\<lambda>_. 0), cnext = (\<lambda>_. 0), cdata = (\<lambda>_. 0), slots = (\<lambda>_. []),
     initialised = False\<rparr> 1"

definition demo_blocks :: "u64 \<Rightarrow> buf" where
  "demo_blocks b = [ucast b, ucast b + 100]"

lemma demo_dev_rep: "\<exists>n > 0. cache_rep demo_blocks demo_dev [2..<2 + n] \<and> cache_entries demo_dev = n"
  unfolding demo_dev_def by (rule cache_init_rep) (simp_all add: sizeof_cache_def)

theorem get_cache_lru_witness:
  "\<exists>dev'. get_cache demo_blocks demo_dev 7 = ([7, 107], dev') \<and> cache_ok demo_blocks dev'"
proof -
  obtain n where "cache_rep demo_blocks demo_dev [2..<2 + n]" using demo_dev_rep by blast
  from get_cache_lru [OF this, of 7] show ?thesis by (auto simp: demo_blocks_def cache_ok_def)
qed

theorem cache_read_correct_witness:
  "\<exists>dev'. cache_read demo_blocks 1 demo_dev 3 4 = Some ((4, [101, 2, 102, 3]), dev')"
proof -
  have "cache_ok demo_blocks demo_dev" using demo_dev_rep by (auto simp: cache_ok_def)
  moreover have "[3..<7] = [3, 4, 5, 6 :: nat]" by (simp add: upt_rec)
  ultimately show ?thesis using cache_read_correct [of demo_blocks demo_dev 1 3 4]
    by (auto simp: disk_byte_def demo_blocks_def)
qed

end
