(* ===== verification/FatFs.thy ===== *)
theory FatFs
  imports FatTable GetFsSec Cache
begin

section \<open>The FAT driver of the core: layout, cluster chains and extents\<close>

text \<open>
  The first half of \<open>core/fs/fat/fat.c\<close>: \<open>vfat_fs_init\<close>, the walk through the file
  allocation table, extents and sectors of files and directories. Blocks of the disk are read
  through \<open>get_cache\<close>, whose result is always the block of the disk (theory \<open>Cache\<close>, interface
  \<open>block_reader\<close>); the functions here take that map from sectors to their contents as the argument
  \<open>gc\<close>. A read outside a sector is \<open>None\<close>.

  The lemmas show that \<open>get_next_cluster\<close> computes the entries of the file allocation table and
  that \<open>fat_next_extent\<close> keeps the contract of \<open>extent_map\<close>, so that \<open>generic_getfssec\<close> reads the
  contents of the cluster chain.
\<close>

subsection \<open>Super block and inodes\<close>

record fat_sb_info =
  sector_shift :: nat
  sb_fat :: u64
  sb_root :: u64
  sb_data :: u64
  clusters :: u32
  root_cluster :: u32
  root_size :: u32
  clust_shift :: nat
  clust_byte_shift :: nat
  clust_mask :: u32
  clust_size :: u32
  sb_type :: fat_type
  uuid :: u32

record fat_pvt_inode =
  start_cluster :: u32
  start :: u64
  offset :: u64
  here :: u64

type_synonym fat_inode = "fat_pvt_inode inode"

subsection \<open>The file allocation table\<close>

definition get_fat_sector :: "(u64 \<Rightarrow> buf) \<Rightarrow> fat_sb_info \<Rightarrow> u64 \<Rightarrow> buf" where
  "get_fat_sector gc fs sector = gc (sb_fat fs + sector)"

definition get_next_cluster :: "(u64 \<Rightarrow> buf) \<Rightarrow> fat_sb_info \<Rightarrow> u32 \<Rightarrow> u32 option" where
  "get_next_cluster gc fs clust_num =
    (let sector_mask :: u32 = push_bit (sector_shift fs) 1 - 1
     in case sb_type fs of
       FAT12 \<Rightarrow>
         let off = clust_num + drop_bit 1 clust_num;
             fat_sector = ucast (drop_bit (sector_shift fs) off);
             off = off AND sector_mask;
             data = get_fat_sector gc fs fat_sector
         in do {
           next_cluster \<leftarrow>
             (if off = sector_mask then do {
                b0 \<leftarrow> rd data (unat off);
                b1 \<leftarrow> rd (get_fat_sector gc fs (fat_sector + 1)) 0;
                Some (ucast b0 + push_bit 8 (ucast b1)) }
              else map_option ucast (rd16 data (unat off)));
           Some (if clust_num AND 1 \<noteq> 0 then drop_bit 4 next_cluster else next_cluster AND 0x0fff) }
     | FAT16 \<Rightarrow>
         let off = push_bit 1 clust_num;
             fat_sector = ucast (drop_bit (sector_shift fs) off);
             off = off AND sector_mask
         in map_option ucast (rd16 (get_fat_sector gc fs fat_sector) (unat off))
     | FAT32 \<Rightarrow>
         let off = push_bit 2 clust_num;
             fat_sector = ucast (drop_bit (sector_shift fs) off);
             off = off AND sector_mask
         in map_option (\<lambda>w. w AND 0x0fffffff) (rd32 (get_fat_sector gc fs fat_sector) (unat off)))"

subsection \<open>Extents\<close>

text \<open>
  The first loop follows the chain to cluster \<open>mcluster\<close> of the file; the sum is the exit through
  \<open>err\<close>, with the new size of the inode, or the cluster found.
\<close>

function chain_loop :: "(u64 \<Rightarrow> buf) \<Rightarrow> fat_sb_info \<Rightarrow> u32 \<Rightarrow> u32 \<Rightarrow> u32 \<Rightarrow> (u64 + u32 \<times> u32) option" where
  "chain_loop gc fs mcluster lcluster pcluster =
    (if pcluster - 2 \<ge> clusters fs then Some (Inl (ucast (push_bit (clust_shift fs) lcluster)))
     else if lcluster \<ge> mcluster then Some (Inr (lcluster, pcluster))
     else do {
       pcluster \<leftarrow> get_next_cluster gc fs pcluster;
       chain_loop gc fs mcluster (lcluster + 1) pcluster })"
  by pat_completeness auto
termination
  by (relation "measure (\<lambda>(_, _, m, l, _). unat m - unat l)")
    (auto simp: not_le intro: unat_inc_measure)

text \<open>The second loop extends the extent while the chain is contiguous.\<close>

function contig_loop ::
  "(u64 \<Rightarrow> buf) \<Rightarrow> fat_sb_info \<Rightarrow> u32 \<Rightarrow> u32 \<Rightarrow> u32 \<Rightarrow> u32 \<Rightarrow> u32 \<Rightarrow> (u32 \<times> u32 \<times> u32) option" where
  "contig_loop gc fs tcluster lcluster pcluster xcluster len =
    (let lcluster = lcluster + 1
     in if lcluster < tcluster then do {
          xcluster \<leftarrow> get_next_cluster gc fs pcluster;
          let pcluster = pcluster + 1;
          if xcluster \<noteq> pcluster then Some (lcluster, xcluster, len)
          else contig_loop gc fs tcluster lcluster pcluster xcluster (len + push_bit (clust_shift fs) 1) }
        else Some (lcluster, xcluster, len))"
  by pat_completeness auto
termination
proof (relation "measure (\<lambda>(_, _, t, l, _). unat t - unat (l + 1))", goal_cases)
  case (2 gc fs t l p x n l' x' p')
  then have "unat t - unat (l' + 1) < unat t - unat l'" by (intro unat_inc_measure)
  then show ?case using 2(1) by (simp only: in_measure prod.case)
qed simp


definition fat_next_extent :: "(u64 \<Rightarrow> buf) \<Rightarrow> fat_sb_info \<Rightarrow> fat_inode \<Rightarrow> u32 \<Rightarrow> (bool \<times> fat_inode) option" where
  "fat_next_extent gc fs inode lst =
    (let p = pvt inode;
         mcluster = drop_bit (clust_shift fs) lst;
         cluster_bytes :: u32 = push_bit (clust_byte_shift fs) 1;
         cluster_secs :: u32 = push_bit (clust_shift fs) 1;
         data_area = sb_data fs;
         tcluster :: u32 = ucast (drop_bit (clust_byte_shift fs) (isize inode + ucast cluster_bytes - 1))
     in if mcluster \<ge> tcluster then Some (True, inode)
        else
          let lcluster :: u32 = ucast (drop_bit (clust_shift fs) (offset p));
              pcluster :: u32 = ucast (drop_bit (clust_shift fs) (here p - data_area) + 2);
              (lcluster, pcluster) = (if lcluster > mcluster \<or> here p < data_area then (0, start_cluster p)
                                      else (lcluster, pcluster))
          in do {
            r \<leftarrow> chain_loop gc fs mcluster lcluster pcluster;
            case r of
              Inl sz \<Rightarrow> Some (True, inode\<lparr>isize := sz\<rparr>)
            | Inr (lcluster, pcluster) \<Rightarrow> do {
                let pst = push_bit (clust_shift fs) (ucast (pcluster - 2)) + data_area;
                (lcluster, xcluster, len) \<leftarrow> contig_loop gc fs tcluster lcluster pcluster 0 cluster_secs;
                Some (False, inode\<lparr>next_extent := (next_extent inode)\<lparr>pstart := pst, elen := len\<rparr>,
                  pvt := p\<lparr>offset := ucast (push_bit (clust_shift fs) lcluster),
                           here := ucast (push_bit (clust_shift fs) (xcluster - 2)) + data_area\<rparr>\<rparr>) } })"

subsection \<open>Sectors of directories\<close>

definition get_next_sector :: "(u64 \<Rightarrow> buf) \<Rightarrow> fat_sb_info \<Rightarrow> u32 \<Rightarrow> u64 option" where
  "get_next_sector gc fs sector =
    (let data_area = sb_data fs
     in if ucast sector < data_area then
          let sector = sector + 1
          in Some (if ucast sector \<ge> data_area then 0 else ucast sector)
        else
          let data_sector = ucast sector - data_area
          in if (data_sector + 1) AND scast (clust_mask fs) \<noteq> 0 then Some (ucast (sector + 1))
             else do {
               let cluster = ucast (drop_bit (clust_shift fs) data_sector);
               nc \<leftarrow> get_next_cluster gc fs (cluster + 2);
               let cluster = nc - 2;
               if cluster \<ge> clusters fs then Some 0
               else Some (ucast (ucast (ucast (push_bit (clust_shift fs) cluster) + data_area) :: u32)) })"

function right_sector_loop :: "(u64 \<Rightarrow> buf) \<Rightarrow> fat_sb_info \<Rightarrow> u32 \<Rightarrow> u32 \<Rightarrow> u64 \<Rightarrow> u64 option" where
  "right_sector_loop gc fs sector_pos pos sector =
    (if pos < sector_pos then do {
       sector \<leftarrow> get_next_sector gc fs (ucast sector);
       right_sector_loop gc fs sector_pos (pos + 1) sector }
     else Some sector)"
  by pat_completeness auto
termination
  by (relation "measure (\<lambda>(_, _, p, w, _). unat p - unat w)") (auto intro: unat_inc_measure)

definition get_the_right_sector ::
  "(u64 \<Rightarrow> buf) \<Rightarrow> fat_sb_info \<Rightarrow> fat_pvt_inode fs_file \<Rightarrow> (u64 \<times> fat_pvt_inode fs_file) option" where
  "get_the_right_sector gc fs f =
    (let p = pvt (finode f);
         sector_pos = drop_bit (sector_shift fs) (foffset f);
         (pos, sector) = (if ucast sector_pos < offset p then (0, start p) else (ucast (offset p), here p))
     in do {
       sector \<leftarrow> right_sector_loop gc fs sector_pos pos sector;
       Some (sector, f\<lparr>finode := (finode f)\<lparr>pvt := p\<lparr>offset := ucast sector_pos, here := sector\<rparr>\<rparr>\<rparr>) })"

definition next_sector ::
  "(u64 \<Rightarrow> buf) \<Rightarrow> fat_sb_info \<Rightarrow> fat_pvt_inode fs_file \<Rightarrow> (u64 \<times> fat_pvt_inode fs_file) option" where
  "next_sector gc fs f = do {
     let p = pvt (finode f);
     sector \<leftarrow> get_next_sector gc fs (ucast (here p));
     Some (sector, f\<lparr>finode := (finode f)\<lparr>pvt := p\<lparr>offset := offset p + 1, here := sector\<rparr>\<rparr>\<rparr>) }"

text \<open>The first sector of a directory entry's cluster; \<open>first_clust\<close> is computed in an \<open>int\<close>.\<close>

definition first_sector :: "fat_sb_info \<Rightarrow> u16 \<Rightarrow> u16 \<Rightarrow> u64" where
  "first_sector fs hi lo =
    (let first_clust :: u64 = scast (push_bit 16 (ucast hi) + ucast lo :: u32)
     in if first_clust = 0 then sb_root fs
        else push_bit (clust_shift fs) (first_clust - 2) + sb_data fs)"

definition no_extent :: extent where
  "no_extent = \<lparr>pstart = 0, lstart = 0, elen = 0\<rparr>"

text \<open>The size of the root directory: \<open>~0\<close> when it is a cluster chain.\<close>

definition root_inode_size :: "fat_sb_info \<Rightarrow> u64" where
  "root_inode_size fs =
    (if root_size fs \<noteq> 0 then scast (push_bit (sector_shift fs) (root_size fs)) else - 1)"

definition vfat_iget_root :: "fat_sb_info \<Rightarrow> fat_inode" where
  "vfat_iget_root fs =
    \<lparr>isize = root_inode_size fs, imode = DT_DIR, this_extent = no_extent, next_extent = no_extent,
     pvt = \<lparr>start_cluster = root_cluster fs, start = sb_root fs, offset = 0, here = sb_root fs\<rparr>\<rparr>"

subsection \<open>Mounting\<close>

text \<open>\<open>floor(log2(x))\<close>, undefined for 0.\<close>

fun ilog2_from :: "nat \<Rightarrow> byte \<Rightarrow> nat option" where
  "ilog2_from 0 v = (if bit v 0 then Some 0 else None)"
| "ilog2_from (Suc n) v = (if bit v (Suc n) then Some (Suc n) else ilog2_from n v)"

definition ilog2 :: "byte \<Rightarrow> nat option" where "ilog2 v = ilog2_from 7 v"

definition root_dir_size :: "nat \<Rightarrow> u16 \<Rightarrow> u32" where
  "root_dir_size shift ents = drop_bit (shift - 5) (ucast ents + push_bit shift 1 div 32 - 1)"

text \<open>
  The layout, from the fields of the boot sector. \<open>root_cluster\<close> is never assigned: the argument
  \<open>junk\<close> is what the allocated memory holds.
\<close>

definition fat_layout ::
  "nat \<Rightarrow> byte \<Rightarrow> nat \<Rightarrow> u16 \<Rightarrow> byte \<Rightarrow> u16 \<Rightarrow> u64 \<Rightarrow> u32 \<Rightarrow> u16 \<Rightarrow> u32 \<Rightarrow> u32 \<times> u32 \<Rightarrow> u32 \<Rightarrow> fat_sb_info" where
  "fat_layout shift spc cshift res fats rootents total_sectors sectors_per_fat flags rootclus serial junk =
    (let fat = ucast res;
         root = fat + scast (sectors_per_fat * ucast fats);
         rsize = root_dir_size shift rootents;
         data = root + scast rsize;
         n = ucast (drop_bit cshift (total_sectors - data));
         t = (if n \<le> 0xff4 then FAT12 else if n \<le> 0xfff4 then FAT16 else FAT32)
     in \<lparr>sector_shift = shift,
         sb_fat = (if t = FAT32 \<and> flags AND 0x80 \<noteq> 0 then fat + scast (ucast (flags AND 0x0f) * sectors_per_fat) else fat),
         sb_root = (if t = FAT32 then data + ucast (push_bit cshift (rootclus - 2)) else root),
         sb_data = data,
         clusters = (if t = FAT32 \<and> n > 0x0ffffff4 then 0x0ffffff4 else n),
         root_cluster = junk, root_size = rsize, clust_shift = cshift, clust_byte_shift = cshift + shift,
         clust_mask = ucast spc - 1, clust_size = push_bit shift (ucast spc), sb_type = t,
         uuid = (if t = FAT32 then snd serial else fst serial)\<rparr>)"

text \<open>
  The outer option is undefined behaviour (a boot sector that is too short, 0 sectors per
  cluster), the inner one the return value \<open>-1\<close>.
\<close>

definition vfat_fs_init :: "nat \<Rightarrow> buf \<Rightarrow> u32 \<Rightarrow> device \<Rightarrow> (fat_sb_info \<times> device) option option" where
  "vfat_fs_init shift bs junk dev = do {
     spc \<leftarrow> rd bs 13;
     res \<leftarrow> rd16 bs 14;
     fats \<leftarrow> rd bs 16;
     rootents \<leftarrow> rd16 bs 17;
     secs \<leftarrow> rd16 bs 19;
     fatsecs \<leftarrow> rd16 bs 22;
     huge \<leftarrow> rd32 bs 32;
     fatsz32 \<leftarrow> rd32 bs 36;
     serial16 \<leftarrow> rd32 bs 39;
     flags \<leftarrow> rd16 bs 40;
     rootclus \<leftarrow> rd32 bs 44;
     serial32 \<leftarrow> rd32 bs 67;
     if res = 0 \<or> fats = 0 then Some None
     else do {
       cshift \<leftarrow> ilog2 spc;
       Some (Some (fat_layout shift spc cshift res fats rootents (if secs \<noteq> 0 then ucast secs else ucast huge)
                     (if fatsecs \<noteq> 0 then ucast fatsecs else fatsz32) flags rootclus (serial16, serial32) junk,
                   cache_init dev shift)) } }"

definition vfat_copy_superblock :: "buf \<Rightarrow> buf \<Rightarrow> buf option option" where
  "vfat_copy_superblock bs dst = do {
     res \<leftarrow> rd16 bs 14;
     fats \<leftarrow> rd bs 16;
     if res = 0 \<or> fats = 0 then Some None
     else do { b \<leftarrow> slice bs 11 51; d \<leftarrow> blit dst 11 b; Some (Some d) } }"

definition hex_char :: "u16 \<Rightarrow> byte" where
  "hex_char d = (if d < 10 then 48 + ucast d else 55 + ucast d)"

text \<open>\<open>snprintf\<close> with \<open>%04x-%04x\<close> in upper case, and the final NUL.\<close>

definition vfat_fs_uuid :: "fat_sb_info \<Rightarrow> buf" where
  "vfat_fs_uuid fs =
    (let hex4 = (\<lambda>w. map (\<lambda>k. hex_char (drop_bit k w AND 15)) [12, 8, 4, 0])
     in hex4 (ucast (drop_bit 16 (uuid fs))) @ [45] @ hex4 (ucast (uuid fs)) @ [0])"

declare fat_entry.simps [simp del] chain_loop.simps [simp del] contig_loop.simps [simp del] right_sector_loop.simps [simp del]

subsection \<open>Mounted file systems\<close>

fun fat_limit :: "fat_type \<Rightarrow> nat" where
  "fat_limit FAT12 = 0xff4"
| "fat_limit FAT16 = 0xfff4"
| "fat_limit FAT32 = 0xffffff4"

definition fat_mounted :: "(u64 \<Rightarrow> buf) \<Rightarrow> fat_sb_info \<Rightarrow> bool" where
  "fat_mounted gc fs \<longleftrightarrow> 5 \<le> sector_shift fs \<and> sector_shift fs < 16 \<and>
     (\<forall>n. length (gc n) = 2 ^ sector_shift fs) \<and>
     clust_shift fs \<le> 7 \<and> clust_byte_shift fs = clust_shift fs + sector_shift fs \<and>
     clust_mask fs = 2 ^ clust_shift fs - 1 \<and>
     unat (clusters fs) \<le> fat_limit (sb_type fs) \<and>
     unat (sb_data fs) + unat (clusters fs) * 2 ^ clust_shift fs < 2 ^ 32"

abbreviation tbytes :: "(u64 \<Rightarrow> buf) \<Rightarrow> fat_sb_info \<Rightarrow> nat \<Rightarrow> nat" where
  "tbytes gc fs \<equiv> fat_byte gc (sb_fat fs) (2 ^ sector_shift fs)"

abbreviation tentry :: "(u64 \<Rightarrow> buf) \<Rightarrow> fat_sb_info \<Rightarrow> nat \<Rightarrow> nat" where
  "tentry gc fs \<equiv> fat_entry (sb_type fs) (tbytes gc fs)"

lemma tbytes_less: "fat_byte disk f ss i < 256"
  by (simp add: fat_byte_def unat_byte)

lemma fat_sector_byte:
  fixes off :: u32
  assumes "unat off mod 2 ^ sector_shift fs + j < 2 ^ sector_shift fs"
  shows "unat (get_fat_sector gc fs (ucast (drop_bit (sector_shift fs) off)) ! (unat off mod 2 ^ sector_shift fs + j)) =
    tbytes gc fs (unat off + j)"
proof -
  have lt: "unat off div 2 ^ sector_shift fs < 2 ^ 32" by (rule le_less_trans [OF div_le_dividend]) (use unat_less [of off] in simp)
  have "(ucast (drop_bit (sector_shift fs) off) :: u64) = of_nat (unat off div 2 ^ sector_shift fs)"
    using lt by (intro of_natI) (simp add: unat_ucast unat_drop_bit)
  then show ?thesis using div_mod_add [OF assms] by (simp add: fat_byte_def get_fat_sector_def)
qed

lemma sector_mask_word: "sh < 32 \<Longrightarrow> (push_bit sh 1 - 1 :: u32) = mask sh"
  by (simp add: mask_eq_exp_minus_1 push_bit_eq_mult)

lemma even_mod_power: "0 < sh \<Longrightarrow> (2 * x) mod 2 ^ sh + 1 < (2 :: nat) ^ sh"
proof -
  assume "0 < sh"
  then obtain k where "sh = Suc k" by (cases sh) auto
  moreover have m: "x mod 2 ^ k < (2 :: nat) ^ k" by simp
  moreover have "2 * (x mod 2 ^ k) + 1 < 2 * (2 :: nat) ^ k" using m by linarith
  ultimately show ?thesis by (simp add: mod_mult_mult1)
qed

lemma quad_mod_power: "2 \<le> sh \<Longrightarrow> (4 * x) mod 2 ^ sh + 3 < (2 :: nat) ^ sh"
proof -
  assume "2 \<le> sh"
  then obtain k where "sh = Suc (Suc k)" using le_Suc_ex [of 2 sh] by auto
  moreover have m: "x mod 2 ^ k < (2 :: nat) ^ k" by simp
  moreover have "4 * (x mod 2 ^ k) + 3 < 4 * (2 :: nat) ^ k" using m by linarith
  ultimately show ?thesis using mod_mult_mult1 [of 4 x "2 ^ k"] by simp
qed

lemma get_next_cluster_16:
  assumes m: "fat_mounted gc fs" and t: "sb_type fs = FAT16" and c: "unat c < unat (clusters fs) + 2"
  shows "get_next_cluster gc fs c = Some (of_nat (tentry gc fs (unat c)))"
proof -
  let ?sh = "sector_shift fs" and ?off = "push_bit 1 c"
  have f: "5 \<le> ?sh" "?sh < 16" "\<And>n. length (gc n) = 2 ^ ?sh" "unat (clusters fs) \<le> 0xfff4"
    using m t by (auto simp: fat_mounted_def)
  have sh32: "?sh < 32" using f(2) by simp
  have off: "unat ?off = 2 * unat c" using c f(4) by (subst unat_push_bit) simp_all
  have k: "unat ?off mod 2 ^ ?sh + 1 < 2 ^ ?sh" unfolding off using f(1) by (intro even_mod_power) simp
  let ?d = "get_fat_sector gc fs (ucast (drop_bit ?sh ?off))"
  have len: "length ?d = 2 ^ ?sh" by (simp add: get_fat_sector_def f(3))
  let ?w = "le16 (?d ! (unat ?off mod 2 ^ ?sh)) (?d ! (unat ?off mod 2 ^ ?sh + 1))"
  have "unat ?w = tentry gc fs (unat c)"
    using fat_sector_byte [of ?off fs 0 gc] fat_sector_byte [of ?off fs 1 gc, OF k] k
    unfolding t unat_le16 fat16_bytes off by simp
  then have "(ucast ?w :: u32) = of_nat (tentry gc fs (unat c))"
    using unat_less [of ?w] by (intro of_natI) (simp add: unat_ucast)
  moreover have uk: "unat (?off AND (push_bit ?sh 1 - 1)) = unat ?off mod 2 ^ ?sh"
    using sector_mask_word [OF sh32] unat_and_mask [of ?off ?sh] by (simp only:)
  moreover have "rd16 ?d (unat ?off mod 2 ^ ?sh) = Some ?w" using k len by (intro rd16_at) simp
  ultimately show ?thesis
    unfolding get_next_cluster_def Let_def t fat_type.case uk by (simp only: option.map)
qed

lemma get_next_cluster_32:
  assumes m: "fat_mounted gc fs" and t: "sb_type fs = FAT32" and c: "unat c < unat (clusters fs) + 2"
  shows "get_next_cluster gc fs c = Some (of_nat (tentry gc fs (unat c)))"
proof -
  let ?sh = "sector_shift fs" and ?off = "push_bit 2 c"
  have f: "5 \<le> ?sh" "?sh < 16" "\<And>n. length (gc n) = 2 ^ ?sh" "unat (clusters fs) \<le> 0xffffff4"
    using m t by (auto simp: fat_mounted_def)
  have sh32: "?sh < 32" using f(2) by simp
  have off: "unat ?off = 4 * unat c" using c f(4) by (subst unat_push_bit) simp_all
  let ?k = "unat ?off mod 2 ^ ?sh"
  have "?k + 3 < 2 ^ ?sh" unfolding off using f(1) by (intro quad_mod_power) simp
  then have k: "?k + 1 < 2 ^ ?sh" "?k + 2 < 2 ^ ?sh" "?k + 3 < 2 ^ ?sh" by linarith+
  let ?d = "get_fat_sector gc fs (ucast (drop_bit ?sh ?off))"
  have len: "length ?d = 2 ^ ?sh" by (simp add: get_fat_sector_def f(3))
  let ?w = "le32 (?d ! ?k) (?d ! (?k + 1)) (?d ! (?k + 2)) (?d ! (?k + 3))"
  have "unat ?w mod 2 ^ 28 = tentry gc fs (unat c)"
    using fat_sector_byte [of ?off fs 0 gc] fat_sector_byte [of ?off fs _ gc, OF k(1)]
      fat_sector_byte [of ?off fs _ gc, OF k(2)] fat_sector_byte [of ?off fs _ gc, OF k(3)]
      fat32_bytes [of "tbytes gc fs" "unat c", OF tbytes_less tbytes_less tbytes_less tbytes_less]
    unfolding t unat_le32 off by simp
  then have "?w AND 0x0fffffff = of_nat (tentry gc fs (unat c))" unfolding entry32_word by (rule arg_cong)
  moreover have uk: "unat (?off AND (push_bit ?sh 1 - 1)) = ?k"
    using sector_mask_word [OF sh32] unat_and_mask [of ?off ?sh] by (simp only:)
  moreover have "rd32 ?d ?k = Some ?w" using k len by (intro rd32_at) simp
  ultimately show ?thesis
    unfolding get_next_cluster_def Let_def t fat_type.case uk by (simp only: option.map)
qed

lemma get_next_cluster_12:
  assumes m: "fat_mounted gc fs" and t: "sb_type fs = FAT12" and c: "unat c < unat (clusters fs) + 2"
  shows "get_next_cluster gc fs c = Some (of_nat (tentry gc fs (unat c)))"
proof -
  let ?sh = "sector_shift fs" and ?off = "c + drop_bit 1 c" and ?f = "tbytes gc fs"
  have f: "5 \<le> ?sh" "?sh < 16" "\<And>n. length (gc n) = 2 ^ ?sh" "unat (clusters fs) \<le> 0xff4"
    using m t by (auto simp: fat_mounted_def)
  have sh32: "?sh < 32" using f(2) by simp
  have off: "unat ?off = fat_offset FAT12 (unat c)"
    using c f(4) by (subst unat_add_id) (simp_all add: unat_drop_bit)
  let ?k = "unat ?off mod 2 ^ ?sh" and ?s = "ucast (drop_bit ?sh ?off) :: u64"
  have uk: "unat (?off AND (push_bit ?sh 1 - 1)) = ?k"
    using sector_mask_word [OF sh32] unat_and_mask [of ?off ?sh] by (simp only:)
  have um: "unat (push_bit ?sh 1 - 1 :: u32) = 2 ^ ?sh - 1"
    unfolding sector_mask_word [OF sh32] using f(2) by (intro unat_mask) simp
  have len: "length (get_fat_sector gc fs n) = 2 ^ ?sh" for n by (simp add: get_fat_sector_def f(3))
  have kl: "?k < 2 ^ ?sh" by simp
  define w where "w = (if ?k = 2 ^ ?sh - 1
      then ucast (get_fat_sector gc fs ?s ! ?k) + push_bit 8 (ucast (get_fat_sector gc fs (?s + 1) ! 0))
      else ucast (le16 (get_fat_sector gc fs ?s ! ?k) (get_fat_sector gc fs ?s ! (?k + 1))) :: u32)"
  have w: "unat w = ?f (unat ?off) + 256 * ?f (unat ?off + 1)"
  proof (cases "?k = 2 ^ ?sh - 1")
    case True
    let ?b0 = "get_fat_sector gc fs ?s ! ?k" and ?b1 = "get_fat_sector gc fs (?s + 1) ! 0"
    have "unat ?b0 = ?f (unat ?off)" using fat_sector_byte [of ?off fs 0 gc] by simp
    moreover have "unat ?b1 = ?f (unat ?off + 1)"
    proof -
      have "unat ?off div 2 ^ ?sh < 2 ^ 32" by (rule le_less_trans [OF div_le_dividend]) (use unat_less [of ?off] in simp)
      then have "?s = of_nat (unat ?off div 2 ^ ?sh)" by (intro of_natI) (simp add: unat_ucast unat_drop_bit)
      then have "?s + 1 = of_nat ((unat ?off + 1) div 2 ^ ?sh)" using div_mod_last [OF True] by simp
      then show ?thesis using div_mod_last [OF True] by (simp only: fat_byte_def get_fat_sector_def)
    qed
    moreover have "unat (ucast ?b0 + push_bit 8 (ucast ?b1) :: u32) = unat ?b0 + 256 * unat ?b1"
    proof -
      have u: "unat (ucast b :: u32) = unat b" for b :: byte by (rule unat_ucast_byte) simp
      have "unat (push_bit 8 (ucast ?b1) :: u32) = unat ?b1 * 2 ^ 8"
        using unat_byte [of ?b1] by (subst unat_push_bit) (simp_all add: u)
      then show ?thesis using unat_byte [of ?b0] unat_byte [of ?b1] by (subst unat_add_id) (simp_all add: u)
    qed
    ultimately show ?thesis using True by (simp add: w_def)
  next
    case False
    then have k1: "?k + 1 < 2 ^ ?sh" using kl by linarith
    let ?w = "le16 (get_fat_sector gc fs ?s ! ?k) (get_fat_sector gc fs ?s ! (?k + 1))"
    have "unat (ucast ?w :: u32) = unat ?w" using unat_less [of ?w] by (simp add: unat_ucast)
    then show ?thesis using False fat_sector_byte [of ?off fs 0 gc] fat_sector_byte [OF k1, of gc]
      by (simp add: w_def unat_le16)
  qed
  have e: "tentry gc fs (unat c) = (if odd (unat c) then unat w div 16 else unat w mod 4096)"
    unfolding t using fat12_bytes [of ?f "unat c", OF tbytes_less tbytes_less] w off by (simp add: Let_def)
  have "(if c AND 1 \<noteq> 0 then drop_bit 4 w else w AND 0x0fff) = of_nat (tentry gc fs (unat c))"
    unfolding e and_1_odd by (rule entry12_word)
  moreover have "(?off AND (push_bit ?sh 1 - 1) = push_bit ?sh 1 - 1) = (?k = 2 ^ ?sh - 1)"
    unfolding word_unat_eq_iff uk um ..
  moreover have "(if ?k = 2 ^ ?sh - 1 then do {
                b0 \<leftarrow> rd (get_fat_sector gc fs ?s) ?k;
                b1 \<leftarrow> rd (get_fat_sector gc fs (?s + 1)) 0;
                Some (ucast b0 + push_bit 8 (ucast b1)) }
              else map_option ucast (rd16 (get_fat_sector gc fs ?s) ?k)) = Some w"
  proof (cases "?k = 2 ^ ?sh - 1")
    case True
    then show ?thesis using kl by (simp only: w_def if_True rd_Some len bind.bind_lunit) simp
  next
    case False
    then have "?k + 1 < length (get_fat_sector gc fs ?s)" unfolding len using kl by linarith
    then show ?thesis using False by (simp only: w_def if_False rd16_at option.map)
  qed
  ultimately show ?thesis
    unfolding get_next_cluster_def Let_def t fat_type.case uk by (simp only: bind.bind_lunit)
qed

lemma get_next_cluster_entry:
  assumes "fat_mounted gc fs" and "unat c < unat (clusters fs) + 2"
  shows "get_next_cluster gc fs c = Some (of_nat (tentry gc fs (unat c)))"
  using get_next_cluster_12 [OF assms(1) _ assms(2)] get_next_cluster_16 [OF assms(1) _ assms(2)]
    get_next_cluster_32 [OF assms(1) _ assms(2)] by (cases "sb_type fs") simp_all

subsection \<open>The clusters of a file\<close>

text \<open>
  \<open>cs\<close> are the clusters of a file of the given size: linked in the table, as many as the size needs.
  (The loader never looks at the end-of-chain mark of a file.)
\<close>

definition file_clusters :: "(u64 \<Rightarrow> buf) \<Rightarrow> fat_sb_info \<Rightarrow> nat list \<Rightarrow> bool" where
  "file_clusters gc fs cs \<longleftrightarrow> fat_mounted gc fs \<and> cs \<noteq> [] \<and> length cs * 2 ^ clust_shift fs < 2 ^ 32 \<and>
     (\<forall>c \<in> set cs. 2 \<le> c \<and> c < unat (clusters fs) + 2) \<and>
     (\<forall>i. Suc i < length cs \<longrightarrow> tentry gc fs (cs ! i) = cs ! Suc i)"

definition cluster_sector :: "fat_sb_info \<Rightarrow> nat \<Rightarrow> nat" where
  "cluster_sector fs c = unat (sb_data fs) + (c - 2) * 2 ^ clust_shift fs"

text \<open>
  The private data of the inode: the first cluster, and a position in the chain; a position
  past the end of the file may be anything.
\<close>

definition fat_pos :: "fat_sb_info \<Rightarrow> nat list \<Rightarrow> fat_pvt_inode \<Rightarrow> bool" where
  "fat_pos fs cs p \<longleftrightarrow>
    (\<exists>l. offset p = of_nat (l * 2 ^ clust_shift fs) \<and> l * 2 ^ clust_shift fs < 2 ^ 32 \<and>
        (l < length cs \<longrightarrow> here p = of_nat (cluster_sector fs (cs ! l))))"

definition fat_invar :: "(u64 \<Rightarrow> buf) \<Rightarrow> fat_sb_info \<Rightarrow> nat list \<Rightarrow> u64 \<Rightarrow> fat_pvt_inode \<Rightarrow> bool" where
  "fat_invar gc fs cs sz p \<longleftrightarrow> file_clusters gc fs cs \<and>
     unat sz + 2 ^ clust_byte_shift fs \<le> 2 ^ 32 \<and>
     (unat sz + 2 ^ clust_byte_shift fs - 1) div 2 ^ clust_byte_shift fs = length cs \<and>
     unat (start_cluster p) = hd cs \<and> fat_pos fs cs p"

lemma fat_limit_le: "fat_limit t \<le> 0xffffff4"
  by (cases t) simp_all

lemma cluster_facts:
  assumes f: "file_clusters gc fs cs" and i: "i < length cs"
  shows "2 \<le> cs ! i" and "unat (of_nat (cs ! i) :: u32) = cs ! i"
    and "unat (of_nat (cs ! i) - 2 :: u32) = cs ! i - 2"
    and "\<not> clusters fs \<le> of_nat (cs ! i) - 2"
    and "get_next_cluster gc fs (of_nat (cs ! i)) = Some (of_nat (tentry gc fs (cs ! i)))"
    and "cs ! i < 2 ^ 29" and "i < 2 ^ 32"
    and "cluster_sector fs (cs ! i) + 2 ^ clust_shift fs < 2 ^ 32"
proof -
  have m: "fat_mounted gc fs" using f by (simp add: file_clusters_def)
  have c: "2 \<le> cs ! i" "cs ! i < unat (clusters fs) + 2" using f i by (auto simp: file_clusters_def)
  have "unat (clusters fs) \<le> 0xffffff4" using m fat_limit_le [of "sb_type fs"] by (auto simp: fat_mounted_def)
  then have lt: "cs ! i < 0xffffff6" using c(2) by simp
  then show u: "unat (of_nat (cs ! i) :: u32) = cs ! i" by (intro unat_of_nat_id) simp
  then show u2: "unat (of_nat (cs ! i) - 2 :: u32) = cs ! i - 2"
    using c(1) by (simp add: unat_minus_id word_le_nat_alt)
  then show "\<not> clusters fs \<le> of_nat (cs ! i) - 2" using c by (simp add: word_le_nat_alt)
  show "get_next_cluster gc fs (of_nat (cs ! i)) = Some (of_nat (tentry gc fs (cs ! i)))"
    using get_next_cluster_entry [OF m, of "of_nat (cs ! i)"] u c(2) by simp
  show "2 \<le> cs ! i" "cs ! i < 2 ^ 29" using c lt by simp_all
  have "length cs \<le> length cs * 2 ^ clust_shift fs" by simp
  then show "i < 2 ^ 32" using f i unfolding file_clusters_def by linarith
  have "(cs ! i - 2 + 1) * 2 ^ clust_shift fs \<le> unat (clusters fs) * 2 ^ clust_shift fs"
    using c by (intro mult_right_mono) auto
  then show "cluster_sector fs (cs ! i) + 2 ^ clust_shift fs < 2 ^ 32"
    using m by (simp add: cluster_sector_def fat_mounted_def algebra_simps)
qed

lemma chain_loop_ok:
  assumes f: "file_clusters gc fs cs" and l: "l \<le> m" "m < length cs"
  shows "chain_loop gc fs (of_nat m) (of_nat l) (of_nat (cs ! l)) = Some (Inr (of_nat m, of_nat (cs ! m)))"
  using l(1)
proof (induction "m - l" arbitrary: l)
  case 0
  then have "l = m" by simp
  then show ?case using cluster_facts(4) [OF f l(2)] by (subst chain_loop.simps) simp
next
  case (Suc n)
  then have lm: "l < m" "l < length cs" "Suc l < length cs" using l(2) by auto
  note c = cluster_facts [OF f lm(2)]
  have "\<not> (of_nat l :: u32) \<ge> of_nat m"
    using cluster_facts(7) [OF f l(2)] c(7) lm(1) by (simp add: word_le_nat_alt unat_of_nat_id)
  moreover have "tentry gc fs (cs ! l) = cs ! Suc l" using f lm(3) by (simp add: file_clusters_def)
  ultimately have "chain_loop gc fs (of_nat m) (of_nat l) (of_nat (cs ! l)) =
      chain_loop gc fs (of_nat m) (of_nat (Suc l)) (of_nat (cs ! Suc l))"
    using c(4,5) by (subst chain_loop.simps) (simp add: add.commute)
  also have "\<dots> = Some (Inr (of_nat m, of_nat (cs ! m)))" using Suc.hyps(2) lm(1) by (intro Suc.hyps(1)) auto
  finally show ?case .
qed

text \<open>The number of consecutive clusters from cluster \<open>l\<close> of the file.\<close>

fun run_length :: "nat list \<Rightarrow> nat" where
  "run_length (c # d # cs) = (if d = Suc c then Suc (run_length (d # cs)) else 1)"
| "run_length [c] = 1"
| "run_length [] = 0"

lemma run_length_props:
  "cs \<noteq> [] \<Longrightarrow> 0 < run_length cs \<and> run_length cs \<le> length cs \<and> (\<forall>j < run_length cs. cs ! j = hd cs + j) \<and>
     (run_length cs < length cs \<longrightarrow> cs ! run_length cs \<noteq> hd cs + run_length cs)"
proof (induction cs rule: run_length.induct)
  case (1 c d cs)
  show ?case
  proof (cases "d = Suc c")
    case True
    then have ih: "0 < run_length (d # cs)" "run_length (d # cs) \<le> length (d # cs)"
       "\<forall>j < run_length (d # cs). (d # cs) ! j = d + j"
       "run_length (d # cs) < length (d # cs) \<longrightarrow> (d # cs) ! run_length (d # cs) \<noteq> d + run_length (d # cs)"
      using 1 by auto
    have "(c # d # cs) ! j = c + j" if "j < Suc (run_length (d # cs))" for j
      using that ih(3) True by (cases j) auto
    then show ?thesis using ih True by auto
  qed (auto simp: less_Suc_eq)
qed auto

lemma contig_loop_ok:
  assumes f: "file_clusters gc fs cs" and l: "l < length cs"
  shows "\<exists>x'. contig_loop gc fs (of_nat (length cs)) (of_nat l) (of_nat (cs ! l)) x n =
       Some (of_nat (l + run_length (drop l cs)), x', n + of_nat (run_length (drop l cs) - 1) * 2 ^ clust_shift fs) \<and>
     (l + run_length (drop l cs) < length cs \<longrightarrow> x' = of_nat (cs ! (l + run_length (drop l cs))))"
  using l
proof (induction "length cs - l" arbitrary: l x n)
  case (Suc k)
  note c = cluster_facts [OF f Suc.prems]
  have "length cs \<le> length cs * 2 ^ clust_shift fs" by simp
  then have T: "length cs < 2 ^ 32" using f unfolding file_clusters_def by linarith
  have less: "(of_nat l + 1 :: u32) < of_nat (length cs) \<longleftrightarrow> Suc l < length cs"
  proof -
    have "unat (of_nat (Suc l) :: u32) = Suc l" using T Suc.prems by (intro unat_of_nat_id) simp
    moreover have "unat (of_nat (length cs) :: u32) = length cs" using T by (intro unat_of_nat_id) simp
    ultimately show ?thesis by (simp add: word_less_nat_alt add.commute)
  qed
  show ?case
  proof (cases "Suc l < length cs")
    case False
    then have "Suc l = length cs" using Suc.prems by simp
    then have "drop l cs = [cs ! l]" using Suc.prems by (simp add: drop_nth_Cons)
    then show ?thesis using less False by (subst contig_loop.simps) (simp add: add.commute)
  next
    case True
    then have d: "drop l cs = cs ! l # cs ! Suc l # drop (Suc (Suc l)) cs" "drop (Suc l) cs = cs ! Suc l # drop (Suc (Suc l)) cs"
      using Suc.prems by (simp_all add: drop_nth_Cons)
    have e: "tentry gc fs (cs ! l) = cs ! Suc l" using f True by (simp add: file_clusters_def)
    note c' = cluster_facts [OF f True]
    have eq: "(of_nat (cs ! Suc l) :: u32) = of_nat (cs ! l) + 1 \<longleftrightarrow> cs ! Suc l = Suc (cs ! l)"
    proof -
      have "(of_nat (cs ! l) + 1 :: u32) = of_nat (Suc (cs ! l))" by simp
      moreover have "unat (of_nat (Suc (cs ! l)) :: u32) = Suc (cs ! l)" using c(6) by (intro unat_of_nat_id) simp
      ultimately show ?thesis using c'(2) by metis
    qed
    have step: "contig_loop gc fs (of_nat (length cs)) (of_nat l) (of_nat (cs ! l)) x n =
        (if cs ! Suc l = Suc (cs ! l)
         then contig_loop gc fs (of_nat (length cs)) (of_nat (Suc l)) (of_nat (cs ! Suc l)) (of_nat (cs ! Suc l)) (n + 2 ^ clust_shift fs)
         else Some (of_nat (Suc l), of_nat (cs ! Suc l), n))"
      using True less eq c(5) e by (subst contig_loop.simps) (auto simp: Let_def push_bit_eq_mult add.commute)
    show ?thesis
    proof (cases "cs ! Suc l = Suc (cs ! l)")
      case False
      then show ?thesis unfolding step d(1) by simp
    next
      case eq: True
      have r: "run_length (drop l cs) = Suc (run_length (drop (Suc l) cs))" using eq unfolding d by simp
      have pos: "0 < run_length (drop (Suc l) cs)" using run_length_props [of "drop (Suc l) cs"] True by simp
      have "k = length cs - Suc l" using Suc.hyps(2) by simp
      from Suc.hyps(1) [OF this True, of "of_nat (cs ! Suc l)" "n + 2 ^ clust_shift fs"] show ?thesis
        unfolding step r using eq pos by (cases "run_length (drop (Suc l) cs)") (auto simp: algebra_simps)
    qed
  qed
qed simp

lemma cluster_words:
  assumes f: "file_clusters gc fs cs" and i: "i < length cs"
  defines "c \<equiv> of_nat (cs ! i) :: u32"
  shows "push_bit (clust_shift fs) (ucast (c - 2)) + sb_data fs = of_nat (cluster_sector fs (cs ! i))"
    and "ucast (push_bit (clust_shift fs) (c - 2)) + sb_data fs = of_nat (cluster_sector fs (cs ! i))"
    and "ucast (drop_bit (clust_shift fs) (of_nat (cluster_sector fs (cs ! i)) - sb_data fs) + 2) = c"
    and "\<not> of_nat (cluster_sector fs (cs ! i)) < sb_data fs"
proof -
  let ?s = "clust_shift fs" and ?S = "cluster_sector fs (cs ! i)"
  note cf = cluster_facts [OF f i, folded c_def]
  have S: "?S = unat (sb_data fs) + (cs ! i - 2) * 2 ^ ?s" by (simp add: cluster_sector_def)
  have lt: "?S < 2 ^ 32" using cf(8) by simp
  have uS: "unat (of_nat ?S :: u64) = ?S" using lt by (intro unat_of_nat_id) simp
  have d: "of_nat ?S = sb_data fs + of_nat ((cs ! i - 2) * 2 ^ ?s)" unfolding S by simp
  have u2: "unat (ucast (c - 2) :: u64) = cs ! i - 2" using cf(3,6) by (simp add: unat_ucast)
  have p: "unat (push_bit ?s (ucast (c - 2)) :: u64) = (cs ! i - 2) * 2 ^ ?s"
    using lt u2 unfolding S by (subst unat_push_bit) simp_all
  then show "push_bit ?s (ucast (c - 2)) + sb_data fs = of_nat ?S" using of_natI [OF p] d by (simp add: add.commute)
  have "unat (push_bit ?s (c - 2)) = (cs ! i - 2) * 2 ^ ?s"
    using lt cf(3) unfolding S by (subst unat_push_bit) simp_all
  then have "unat (ucast (push_bit ?s (c - 2)) :: u64) = (cs ! i - 2) * 2 ^ ?s"
    using lt unfolding S by (simp add: unat_ucast)
  then show "ucast (push_bit ?s (c - 2)) + sb_data fs = of_nat ?S" using d of_natI by (metis add.commute)
  show nl: "\<not> of_nat ?S < sb_data fs" using uS by (simp add: word_less_nat_alt S)
  have "unat (of_nat ?S - sb_data fs) = unat (of_nat ?S :: u64) - unat (sb_data fs)"
    using nl by (intro unat_minus_id) (simp add: not_less)
  then have "unat (of_nat ?S - sb_data fs) = (cs ! i - 2) * 2 ^ ?s" unfolding uS by (simp only: S diff_add_inverse)
  then have "unat (drop_bit ?s (of_nat ?S - sb_data fs)) = cs ! i - 2" by (simp add: unat_drop_bit)
  then have "unat (drop_bit ?s (of_nat ?S - sb_data fs) + 2) = cs ! i"
    using cf(1,6) by (subst unat_add_id) simp_all
  then have "unat (ucast (drop_bit ?s (of_nat ?S - sb_data fs) + 2) :: u32) = cs ! i" using cf(6) by (simp add: unat_ucast)
  then show "ucast (drop_bit ?s (of_nat ?S - sb_data fs) + 2) = c" unfolding c_def by (rule of_natI)
qed

lemma tcluster_word:
  assumes "fat_invar gc fs cs sz p"
  shows "(ucast (drop_bit (clust_byte_shift fs) (sz + ucast (push_bit (clust_byte_shift fs) 1 :: u32) - 1)) :: u32) = of_nat (length cs)"
proof -
  let ?b = "clust_byte_shift fs"
  have f: "?b < 32" "unat sz + 2 ^ ?b \<le> 2 ^ 32" "(unat sz + 2 ^ ?b - 1) div 2 ^ ?b = length cs"
    using assms by (auto simp: fat_invar_def file_clusters_def fat_mounted_def)
  have b: "(2 :: nat) ^ ?b < 2 ^ 32" using f(1) by (intro power_strict_increasing) auto
  then have "unat (push_bit ?b 1 :: u32) = 2 ^ ?b" by (subst unat_push_bit) simp_all
  then have "unat (ucast (push_bit ?b 1 :: u32) :: u64) = 2 ^ ?b" using b by (simp add: unat_ucast)
  then have u1: "unat (ucast (push_bit ?b 1 :: u32) - 1 :: u64) = 2 ^ ?b - 1" by (subst unat_minus_id) (simp_all add: word_le_nat_alt)
  have "0 < (2 :: nat) ^ ?b" by simp
  have "unat (sz + (ucast (push_bit ?b 1 :: u32) - 1)) = unat sz + (2 ^ ?b - 1)"
    using f(2) u1 unat_add_id [of sz "ucast (push_bit ?b 1 :: u32) - 1"] by simp
  also have "sz + (ucast (push_bit ?b 1 :: u32) - 1) = sz + ucast (push_bit ?b 1 :: u32) - 1" by (rule add_diff_eq)
  finally have "unat (sz + ucast (push_bit ?b 1 :: u32) - 1) = unat sz + 2 ^ ?b - 1" by simp
  then have "unat (drop_bit ?b (sz + ucast (push_bit ?b 1 :: u32) - 1)) = length cs" using f(3) by (simp add: unat_drop_bit)
  moreover have "length cs < 2 ^ 32"
  proof -
    have "length cs \<le> length cs * 2 ^ clust_shift fs" by simp
    then show ?thesis using assms unfolding fat_invar_def file_clusters_def by linarith
  qed
  ultimately show ?thesis by (intro of_natI) (simp add: unat_ucast)
qed

definition fat_smap :: "fat_sb_info \<Rightarrow> nat list \<Rightarrow> nat \<Rightarrow> u64" where
  "fat_smap fs cs x = of_nat (cluster_sector fs (cs ! (x div 2 ^ clust_shift fs)) + x mod 2 ^ clust_shift fs)"

definition fat_nsec :: "(u64 \<Rightarrow> buf) \<Rightarrow> fat_sb_info \<Rightarrow> nat list \<Rightarrow> nat" where
  "fat_nsec gc fs cs = (if file_clusters gc fs cs then length cs * 2 ^ clust_shift fs else 0)"

text \<open>The search in the chain, from the position kept in the inode or from the start.\<close>

lemma start_position:
  assumes inv: "fat_invar gc fs cs sz p" and m: "m < length cs"
  defines "l0 \<equiv> ucast (drop_bit (clust_shift fs) (offset p)) :: u32"
    and "p0 \<equiv> ucast (drop_bit (clust_shift fs) (here p - sb_data fs) + 2) :: u32"
  shows "chain_loop gc fs (of_nat m) (fst (if l0 > of_nat m \<or> here p < sb_data fs then (0, start_cluster p) else (l0, p0)))
     (snd (if l0 > of_nat m \<or> here p < sb_data fs then (0, start_cluster p) else (l0, p0))) =
     Some (Inr (of_nat m, of_nat (cs ! m)))"
proof -
  let ?s = "clust_shift fs"
  have f: "file_clusters gc fs cs" and ne: "cs \<noteq> []" and st: "unat (start_cluster p) = hd cs"
    using inv by (auto simp: fat_invar_def file_clusters_def)
  have um: "unat (of_nat m :: u32) = m" using cluster_facts(7) [OF f m] by (intro unat_of_nat_id) simp
  obtain k where k: "offset p = of_nat (k * 2 ^ ?s)" "k * 2 ^ ?s < 2 ^ 32"
    "k < length cs \<longrightarrow> here p = of_nat (cluster_sector fs (cs ! k))"
    using inv by (auto simp: fat_invar_def fat_pos_def)
  have "unat (offset p) = k * 2 ^ ?s" unfolding k(1) using k(2) by (intro unat_of_nat_id) simp
  then have "unat (drop_bit ?s (offset p)) = k" by (simp add: unat_drop_bit)
  moreover have "k < 2 ^ 32" using k(2) by (rule le_less_trans [rotated]) simp
  ultimately have ul: "unat l0 = k" unfolding l0_def by (simp add: unat_ucast)
  show ?thesis
  proof (cases "l0 > of_nat m \<or> here p < sb_data fs")
    case True
    have "start_cluster p = of_nat (cs ! 0)" using of_natI [OF st] ne by (simp add: hd_conv_nth)
    then show ?thesis using True chain_loop_ok [OF f le0 m] by simp
  next
    case False
    then have km: "k \<le> m" using ul um by (simp add: word_less_nat_alt)
    then have kl: "k < length cs" using m by simp
    have "p0 = of_nat (cs ! k)" unfolding p0_def using cluster_words(3) [OF f kl] k(3) kl by simp
    then show ?thesis using False chain_loop_ok [OF f km m] of_natI [OF ul] by simp
  qed
qed

lemma fat_next_extent_ok:
  assumes inv: "fat_invar gc fs cs (isize i) (pvt i)" and m: "m < length cs"
  defines "r \<equiv> run_length (drop m cs)"
  obtains i' where "fat_next_extent gc fs i (of_nat (m * 2 ^ clust_shift fs)) = Some (False, i')"
    and "fat_invar gc fs cs (isize i') (pvt i')" and "isize i' = isize i" and "this_extent i' = this_extent i"
    and "pstart (next_extent i') = of_nat (cluster_sector fs (cs ! m))"
    and "unat (elen (next_extent i')) = r * 2 ^ clust_shift fs"
proof -
  let ?s = "clust_shift fs" and ?p = "pvt i"
  have f: "file_clusters gc fs cs" using inv by (simp add: fat_invar_def)
  have fm: "fat_mounted gc fs" "length cs * 2 ^ ?s < 2 ^ 32" using f by (auto simp: file_clusters_def)
  have r: "0 < r" "m + r \<le> length cs" using run_length_props [of "drop m cs"] m unfolding r_def by auto
  have msl: "m * 2 ^ ?s \<le> length cs * 2 ^ ?s" "(m + r) * 2 ^ ?s \<le> length cs * 2 ^ ?s" "r * 2 ^ ?s \<le> length cs * 2 ^ ?s"
    using m r(2) by (intro mult_right_mono; simp)+
  then have ml: "m * 2 ^ ?s < 2 ^ 32" and mr: "(m + r) * 2 ^ ?s < 2 ^ 32" and rl: "r * 2 ^ ?s < 2 ^ 32" using fm(2) by linarith+
  have mc: "drop_bit ?s (of_nat (m * 2 ^ ?s)) = (of_nat m :: u32)"
    by (intro of_natI) (use ml in \<open>simp add: unat_drop_bit unat_of_nat_id del: of_nat_mult\<close>)
  have T: "length cs < 2 ^ 32" using fm(2) le_less_trans [of "length cs" "length cs * 2 ^ ?s"] by simp
  have tm: "\<not> (of_nat m :: u32) \<ge> of_nat (length cs)"
    using m T by (simp add: word_le_nat_alt unat_of_nat_id)
  obtain x where x: "contig_loop gc fs (of_nat (length cs)) (of_nat m) (of_nat (cs ! m)) 0 (push_bit ?s 1) =
      Some (of_nat (m + r), x, push_bit ?s 1 + of_nat (r - 1) * 2 ^ ?s)"
    "m + r < length cs \<longrightarrow> x = of_nat (cs ! (m + r))"
    using contig_loop_ok [OF f m, of 0 "push_bit ?s 1"] unfolding r_def by blast
  have len: "push_bit ?s 1 + of_nat (r - 1) * 2 ^ ?s = (of_nat (r * 2 ^ ?s) :: u32)"
    using r(1) by (cases r) (simp_all add: push_bit_eq_mult algebra_simps)
  define p' where "p' = ?p\<lparr>offset := ucast (push_bit ?s (of_nat (m + r) :: u32)),
                         here := ucast (push_bit ?s (x - 2)) + sb_data fs\<rparr>"
  define i' where "i' = i\<lparr>next_extent := (next_extent i)\<lparr>pstart := of_nat (cluster_sector fs (cs ! m)), elen := of_nat (r * 2 ^ ?s)\<rparr>, pvt := p'\<rparr>"
  have "fat_next_extent gc fs i (of_nat (m * 2 ^ ?s)) = Some (False, i')"
    unfolding fat_next_extent_def Let_def tcluster_word [OF inv] mc
    using tm start_position [OF inv m] x(1) cluster_words(1) [OF f m] len
    by (simp add: split_beta i'_def p'_def del: of_nat_mult)
  moreover have "fat_invar gc fs cs (isize i') (pvt i')"
  proof -
    have "m + r < 2 ^ 32" using mr by (rule le_less_trans [rotated]) simp
    then have "unat (of_nat (m + r) :: u32) = m + r" by (intro unat_of_nat_id) simp
    then have "unat (push_bit ?s (of_nat (m + r) :: u32)) = (m + r) * 2 ^ ?s"
      using mr by (subst unat_push_bit) (simp_all del: of_nat_add)
    then have "ucast (push_bit ?s (of_nat (m + r) :: u32)) = (of_nat ((m + r) * 2 ^ ?s) :: u64)"
      using mr by (intro of_natI) (simp add: unat_ucast)
    moreover have "m + r < length cs \<longrightarrow> here p' = of_nat (cluster_sector fs (cs ! (m + r)))"
      using x(2) cluster_words(2) [OF f, of "m + r"] by (simp add: p'_def)
    ultimately have "fat_pos fs cs p'" unfolding fat_pos_def using mr
      by (intro exI [of _ "m + r"]) (simp add: p'_def del: of_nat_mult of_nat_add)
    then show ?thesis using inv by (simp add: fat_invar_def i'_def p'_def)
  qed
  moreover have "unat (elen (next_extent i')) = r * 2 ^ ?s"
    using rl by (simp add: i'_def unat_of_nat_id del: of_nat_mult)
  ultimately show ?thesis using that by (simp add: i'_def)
qed

lemma fat_smap_small:
  assumes f: "file_clusters gc fs cs" and l: "l < length cs * 2 ^ clust_shift fs"
  shows "unat (fat_smap fs cs l) = cluster_sector fs (cs ! (l div 2 ^ clust_shift fs)) + l mod 2 ^ clust_shift fs"
    and "unat (fat_smap fs cs l) < 2 ^ 32"
proof -
  let ?s = "clust_shift fs"
  have "l div 2 ^ ?s < length cs" using l by (simp add: less_mult_imp_div_less)
  then have "cluster_sector fs (cs ! (l div 2 ^ ?s)) + 2 ^ ?s < 2 ^ 32" using cluster_facts(8) [OF f] by blast
  moreover have "l mod 2 ^ ?s < 2 ^ ?s" by simp
  ultimately have lt: "cluster_sector fs (cs ! (l div 2 ^ ?s)) + l mod 2 ^ ?s < 2 ^ 32" by linarith
  then show "unat (fat_smap fs cs l) = cluster_sector fs (cs ! (l div 2 ^ ?s)) + l mod 2 ^ ?s"
    unfolding fat_smap_def by (intro unat_of_nat_id) simp
  then show "unat (fat_smap fs cs l) < 2 ^ 32" using lt by simp
qed

text \<open>The extent that \<open>fat_next_extent\<close> returns maps its sectors as the chain does.\<close>

lemma fat_extent_covers:
  assumes f: "file_clusters gc fs cs" and m: "m < length cs"
    and e: "pstart e = of_nat (cluster_sector fs (cs ! m))" "lstart e = of_nat (m * 2 ^ clust_shift fs)"
      "unat (elen e) = run_length (drop m cs) * 2 ^ clust_shift fs"
  shows "extent_covers (fat_smap fs cs) (length cs * 2 ^ clust_shift fs) e"
proof -
  let ?s = "clust_shift fs" and ?r = "run_length (drop m cs)"
  have r: "m + ?r \<le> length cs" "\<And>j. j < ?r \<Longrightarrow> cs ! (m + j) = cs ! m + j"
    using run_length_props [of "drop m cs"] m by (auto simp: hd_drop_conv_nth)
  have b: "m * 2 ^ ?s + ?r * 2 ^ ?s \<le> length cs * 2 ^ ?s"
    using mult_right_mono [OF r(1), of "2 ^ ?s"] by (simp add: distrib_right)
  then have ul: "unat (lstart e) = m * 2 ^ ?s"
    unfolding e(2) using f by (intro unat_of_nat_id) (simp add: file_clusters_def)
  have "next_psector (pstart e) (of_nat j) = fat_smap fs cs (m * 2 ^ ?s + j)" if j: "j < ?r * 2 ^ ?s" for j
  proof -
    have jl: "m * 2 ^ ?s + j < length cs * 2 ^ ?s" using j b by linarith
    have q: "j div 2 ^ ?s < ?r" using j by (simp add: less_mult_imp_div_less)
    have dm: "(m * 2 ^ ?s + j) div 2 ^ ?s = m + j div 2 ^ ?s" "(m * 2 ^ ?s + j) mod 2 ^ ?s = j mod 2 ^ ?s" by simp_all
    have c2: "2 \<le> cs ! m" using cluster_facts(1) [OF f m] .
    have "cluster_sector fs (cs ! m + j div 2 ^ ?s) + j mod 2 ^ ?s =
        unat (sb_data fs) + (cs ! m - 2) * 2 ^ ?s + (j div 2 ^ ?s * 2 ^ ?s + j mod 2 ^ ?s)"
      using c2 by (simp only: cluster_sector_def diff_add_assoc2 distrib_right add.assoc)
    also have "\<dots> = cluster_sector fs (cs ! m) + j" by (simp only: cluster_sector_def div_mult_mod_eq)
    finally have s: "fat_smap fs cs (m * 2 ^ ?s + j) = of_nat (cluster_sector fs (cs ! m) + j)"
      unfolding fat_smap_def dm r(2) [OF q] by (rule arg_cong)
    have lt: "cluster_sector fs (cs ! m) < 2 ^ 32" using cluster_facts(8) [OF f m] by simp
    have j32: "j < 2 ^ 32" using jl f by (simp add: file_clusters_def)
    have "unat (pstart e) < 2 ^ 32" unfolding e(1) using lt by (subst unat_of_nat_id) simp_all
    then have "\<not> EXTENT_SPECIAL (pstart e)"
      by (simp add: EXTENT_SPECIAL_def EXTENT_VOID_def word_le_nat_alt)
    moreover have "(ucast (of_nat j :: u32) :: u64) = of_nat j" using j32 by (intro of_natI) (simp add: unat_ucast unat_of_nat_id)
    ultimately show ?thesis unfolding s by (simp add: next_psector_def e(1))
  qed
  then show ?thesis using b unfolding extent_covers_def ul e(3) by simp
qed

interpretation fx: extent_map "fat_next_extent gc fs" "fat_invar gc fs cs" "fat_smap fs cs"
    "fat_nsec gc fs cs" "\<lambda>l. 2 ^ clust_shift fs dvd l" for gc fs cs
proof
  fix i :: fat_inode and l :: nat
  assume inv: "fat_invar gc fs cs (isize i) (pvt i)" and d: "2 ^ clust_shift fs dvd l" and l: "l < fat_nsec gc fs cs"
  have f: "file_clusters gc fs cs" using inv by (simp add: fat_invar_def)
  then have n: "fat_nsec gc fs cs = length cs * 2 ^ clust_shift fs" by (simp add: fat_nsec_def)
  obtain m where m: "l = m * 2 ^ clust_shift fs" using d by auto
  then have ml: "m < length cs" using l n by simp
  let ?r = "run_length (drop m cs)"
  obtain i' where i': "fat_next_extent gc fs i (of_nat l) = Some (False, i')" "fat_invar gc fs cs (isize i') (pvt i')"
    "isize i' = isize i" "this_extent i' = this_extent i"
    "pstart (next_extent i') = of_nat (cluster_sector fs (cs ! m))" "unat (elen (next_extent i')) = ?r * 2 ^ clust_shift fs"
    using fat_next_extent_ok [OF inv ml] unfolding m by blast
  have "0 < ?r" using run_length_props [of "drop m cs"] ml by simp
  then have "elen (next_extent i') \<noteq> 0" using i'(6) by auto
  moreover have "extent_covers (fat_smap fs cs) (fat_nsec gc fs cs) ((next_extent i')\<lparr>lstart := of_nat l\<rparr>)"
    unfolding n by (rule fat_extent_covers [OF f ml]) (use i' m in auto)
  ultimately show "\<exists>i'. fat_next_extent gc fs i (of_nat l) = Some (False, i') \<and> fat_invar gc fs cs (isize i') (pvt i') \<and>
      isize i' = isize i \<and> this_extent i' = this_extent i \<and> elen (next_extent i') \<noteq> 0 \<and>
      extent_covers (fat_smap fs cs) (fat_nsec gc fs cs) ((next_extent i')\<lparr>lstart := of_nat l\<rparr>) \<and>
      2 ^ clust_shift fs dvd l + unat (elen (next_extent i'))"
    using i' d by auto
next
  fix l assume "l < fat_nsec gc fs cs"
  then show "fat_smap fs cs l = EXTENT_ZERO \<or> unat (fat_smap fs cs l) < 2 ^ 62"
    using fat_smap_small(2) [of gc fs cs l] by (auto simp: fat_nsec_def split: if_splits)
next
  show "fat_nsec gc fs cs < 2 ^ 32" by (simp add: fat_nsec_def file_clusters_def)
qed


subsection \<open>Reading files\<close>

text \<open>An open file: at its end, or at a sector that the extents of the inode know or can be asked for.\<close>

definition fat_file :: "(u64 \<Rightarrow> buf) \<Rightarrow> fat_sb_info \<Rightarrow> nat list \<Rightarrow> fat_pvt_inode fs_file \<Rightarrow> bool" where
  "fat_file gc fs cs f \<longleftrightarrow>
     fat_invar gc fs cs (isize (finode f)) (pvt (finode f)) \<and>
     unat (foffset f) \<le> unat (isize (finode f)) \<and>
     (unat (foffset f) < unat (isize (finode f)) \<longrightarrow>
        2 ^ sector_shift fs dvd unat (foffset f) \<and>
        fx.reachable gc fs cs (unat (foffset f) div 2 ^ sector_shift fs) (finode f))"

text \<open>The sectors of all clusters of the file.\<close>

definition fat_contents :: "(u64 \<Rightarrow> buf) \<Rightarrow> fat_sb_info \<Rightarrow> nat list \<Rightarrow> buf" where
  "fat_contents gc fs cs =
     concat (map (\<lambda>c. concat (map (\<lambda>j. gc (of_nat (cluster_sector fs c + j))) [0..<2 ^ clust_shift fs])) cs)"

lemma fat_contents_sectors:
  "fat_contents gc fs cs = concat (map (\<lambda>l. gc (fat_smap fs cs l)) [0..<length cs * 2 ^ clust_shift fs])"
proof (induction cs rule: rev_induct)
  case (snoc c cs)
  let ?N = "2 ^ clust_shift fs" and ?g = "\<lambda>cs l. gc (fat_smap fs cs l)"
  have "map (?g (cs @ [c])) [0..<length cs * ?N] = map (?g cs) [0..<length cs * ?N]"
    by (auto simp: fat_smap_def nth_append less_mult_imp_div_less)
  moreover have "map (?g (cs @ [c])) [length cs * ?N..<length cs * ?N + ?N] =
      map (\<lambda>j. gc (of_nat (cluster_sector fs c + j))) [0..<?N]"
    unfolding fx.map_upt_shift by (simp add: fat_smap_def)
  moreover have "[0..<length (cs @ [c]) * ?N] = [0..<length cs * ?N] @ [length cs * ?N..<length cs * ?N + ?N]"
    using upt_add_eq_append [of 0 "length cs * ?N" ?N] by (simp add: add.commute)
  ultimately have "concat (map (?g (cs @ [c])) [0..<length (cs @ [c]) * ?N]) =
      concat (map (?g cs) [0..<length cs * ?N]) @ concat (map (\<lambda>j. gc (of_nat (cluster_sector fs c + j))) [0..<?N])"
    by (simp only: map_append concat_append)
  then show ?case using snoc by (simp add: fat_contents_def)
qed (simp add: fat_contents_def)

lemma drop_concat_uniform:
  "\<forall>x \<in> set xss. length x = n \<Longrightarrow> drop (k * n) (concat xss) = concat (drop k xss)"
proof (induction xss arbitrary: k)
  case (Cons x xss)
  then show ?case by (cases k) auto
qed simp

lemma take_concat_prefix: "n \<le> length (concat xs) \<Longrightarrow> take n (concat (xs @ ys)) = take n (concat xs)"
  by simp

lemma ceil_div_mult: "x \<le> (x + 2 ^ n - 1) div 2 ^ n * (2 :: nat) ^ n"
proof -
  have "0 < (2 :: nat) ^ n" "(x + 2 ^ n - 1) mod 2 ^ n < (2 :: nat) ^ n" by simp_all
  then show ?thesis using div_mult_mod_eq [of "x + 2 ^ n - 1" "2 ^ n"] by linarith
qed

lemma fat_size_bounds:
  assumes "fat_invar gc fs cs sz p"
  shows "unat sz + 2 ^ sector_shift fs \<le> 2 ^ 32" and "sector_shift fs < 32"
    and "unat sz \<le> fat_nsec gc fs cs * 2 ^ sector_shift fs"
    and "file_clusters gc fs cs" and "fat_mounted gc fs"
proof -
  let ?b = "clust_byte_shift fs"
  have f: "file_clusters gc fs cs" "fat_mounted gc fs" "unat sz + 2 ^ ?b \<le> 2 ^ 32"
    "(unat sz + 2 ^ ?b - 1) div 2 ^ ?b = length cs" "?b = clust_shift fs + sector_shift fs"
    using assms by (auto simp: fat_invar_def file_clusters_def fat_mounted_def)
  have "(2 :: nat) ^ sector_shift fs \<le> 2 ^ ?b" unfolding f(5) by (intro power_increasing) auto
  then show "unat sz + 2 ^ sector_shift fs \<le> 2 ^ 32" using f(3) by linarith
  show "sector_shift fs < 32" using f(2) by (simp add: fat_mounted_def)
  have "unat sz \<le> length cs * 2 ^ ?b" using ceil_div_mult [of "unat sz" ?b] unfolding f(4) .
  then show "unat sz \<le> fat_nsec gc fs cs * 2 ^ sector_shift fs"
    using f(1) by (simp add: fat_nsec_def f(5) power_add mult.assoc)
  show "file_clusters gc fs cs" "fat_mounted gc fs" using f by auto
qed

lemma reachable_invar: "fx.reachable gc fs cs l i \<Longrightarrow> fat_invar gc fs cs (isize i) (pvt i)"
  by (simp add: fx.reachable_def)

lemma getfssec_at_end:
  assumes "unat sz + 2 ^ sh \<le> 2 ^ 32" and "sh < 32" and "unat (foffset f) = unat (isize (finode f))" "isize (finode f) = sz"
  shows "generic_getfssec disk sh op f sectors = Some (\<lparr>gr_count = 0, gr_buf = [], gr_more = None\<rparr>, f)"
proof -
  have "unat sz + 2 ^ sh \<le> 2 ^ 32" "unat (foffset f) \<le> unat sz" using assms by auto
  from fx.sectors_left(2) [OF this assms(2)]
  have "unat (drop_bit sh (ucast (isize (finode f) - ucast (foffset f)) + push_bit sh 1 - 1 :: u32)) = 0"
    using assms(3,4) by simp
  then have "drop_bit sh (ucast (isize (finode f) - ucast (foffset f)) + push_bit sh 1 - 1 :: u32) = 0"
    by (simp only: word_unat_eq_iff unsigned_0)
  then show ?thesis unfolding generic_getfssec_def Let_def by (auto simp: word_gt_0)
qed

lemma fat_read_ok:
  fixes sectors :: u32
  assumes fo: "fat_file gc fs cs f"
  defines "n \<equiv> min (unat sectors * 2 ^ sector_shift fs) (unat (isize (finode f)) - unat (foffset f))"
  shows "\<exists>res f'. generic_getfssec gc (sector_shift fs) (fat_next_extent gc fs) f sectors = Some (res, f') \<and>
    unat (gr_count res) = n \<and>
    take n (gr_buf res) = take n (drop (unat (foffset f)) (fat_contents gc fs cs)) \<and>
    unat (foffset f') = unat (foffset f) + n \<and> isize (finode f') = isize (finode f) \<and> fat_file gc fs cs f'"
proof (cases "unat (foffset f) < unat (isize (finode f))")
  case False
  have inv: "fat_invar gc fs cs (isize (finode f)) (pvt (finode f))" using fo by (simp add: fat_file_def)
  have e: "unat (foffset f) = unat (isize (finode f))" using fo False by (simp add: fat_file_def)
  then have "n = 0" by (simp add: n_def)
  then show ?thesis using getfssec_at_end [OF fat_size_bounds(1,2) [OF inv] e refl] fo by simp
next
  case True
  let ?sh = "sector_shift fs" and ?i = "finode f" and ?o = "unat (foffset f)"
  define q where "q = ?o div 2 ^ ?sh"
  have inv: "fat_invar gc fs cs (isize ?i) (pvt ?i)" and al: "2 ^ ?sh dvd ?o"
    and re: "fx.reachable gc fs cs q ?i" using fo True by (auto simp: fat_file_def q_def)
  note sb = fat_size_bounds [OF inv]
  let ?left = "unat (isize ?i) - ?o"
  define k where "k = min (unat sectors) ((?left + 2 ^ ?sh - 1) div 2 ^ ?sh)"
  obtain res f' where g: "generic_getfssec gc ?sh (fat_next_extent gc fs) f sectors = Some (res, f')"
    "gr_buf res = concat (map (sector_bytes gc ?sh (fat_smap fs cs)) [q..<q + k])"
    "unat (gr_count res) = min (k * 2 ^ ?sh) ?left" "unat (foffset f') = ?o + min (k * 2 ^ ?sh) ?left"
    "isize (finode f') = isize ?i" "fx.reachable gc fs cs (q + k) (finode f')"
    using fx.getfssec_ok [OF re [unfolded q_def] sb(1) less_imp_le [OF True] sb(2,3), of gc sectors]
    unfolding q_def k_def by blast
  have o: "?o = q * 2 ^ ?sh" using al by (simp add: q_def)
  have cover: "?left \<le> (?left + 2 ^ ?sh - 1) div 2 ^ ?sh * 2 ^ ?sh" by (rule ceil_div_mult)
  have n: "min (k * 2 ^ ?sh) ?left = n"
  proof (cases "unat sectors \<le> (?left + 2 ^ ?sh - 1) div 2 ^ ?sh")
    case True
    then show ?thesis by (simp add: n_def k_def min_def)
  next
    case False
    then have "(?left + 2 ^ ?sh - 1) div 2 ^ ?sh * 2 ^ ?sh \<le> unat sectors * 2 ^ ?sh" by (intro mult_right_mono) auto
    then have "?left \<le> unat sectors * 2 ^ ?sh" by (rule order_trans [OF cover])
    moreover have "k = (?left + 2 ^ ?sh - 1) div 2 ^ ?sh" using False by (simp add: k_def)
    ultimately show ?thesis using cover by (simp only: n_def min_absorb2)
  qed
  have nsec: "fat_nsec gc fs cs = length cs * 2 ^ clust_shift fs" using sb(4) by (simp add: fat_nsec_def)
  have qk: "q + k \<le> length cs * 2 ^ clust_shift fs" using g(6) unfolding nsec [symmetric] by (simp add: fx.reachable_def)
  have len: "length (gc x) = 2 ^ ?sh" for x using sb(5) by (simp add: fat_mounted_def)
  have buf: "gr_buf res = concat (map (\<lambda>l. gc (fat_smap fs cs l)) [q..<q + k])"
    unfolding g(2)
  proof (intro arg_cong [of _ _ concat] map_cong refl)
    fix l assume "l \<in> set [q..<q + k]"
    then have "unat (fat_smap fs cs l) < 2 ^ 32" using qk fat_smap_small(2) [OF sb(4), of l] by simp
    then show "sector_bytes gc ?sh (fat_smap fs cs) l = gc (fat_smap fs cs l)"
      using fx.small_not_zero by (simp add: sector_bytes_def)
  qed
  let ?g = "\<lambda>l. gc (fat_smap fs cs l)"
  have "drop ?o (fat_contents gc fs cs) = concat (map ?g [q..<length cs * 2 ^ clust_shift fs])"
    unfolding o fat_contents_sectors by (subst drop_concat_uniform) (auto simp: len drop_map)
  also have "[q..<length cs * 2 ^ clust_shift fs] = [q..<q + k] @ [q + k..<length cs * 2 ^ clust_shift fs]"
    using upt_add_eq_append [of q "q + k" "length cs * 2 ^ clust_shift fs - (q + k)"] qk by simp
  finally have "drop ?o (fat_contents gc fs cs) = gr_buf res @ concat (map ?g [q + k..<length cs * 2 ^ clust_shift fs])"
    unfolding buf by simp
  moreover have "n \<le> length (gr_buf res)"
    unfolding buf using n by (simp add: length_concat comp_def len sum_list_triv min_le_iff_disj)
  ultimately have "take n (gr_buf res) = take n (drop ?o (fat_contents gc fs cs))" by simp
  moreover have "fat_file gc fs cs f'"
  proof -
    have le: "unat (foffset f') \<le> unat (isize (finode f'))" using g(4,5) True by simp
    have "2 ^ ?sh dvd unat (foffset f') \<and> fx.reachable gc fs cs (unat (foffset f') div 2 ^ ?sh) (finode f')"
      if "unat (foffset f') < unat (isize (finode f'))"
    proof -
      have "unat (foffset f') = (q + k) * 2 ^ ?sh"
        using that g(4,5) o by (simp add: min_def distrib_right split: if_splits)
      then show ?thesis using g(6) by simp
    qed
    then show ?thesis using le reachable_invar [OF g(6)] by (simp add: fat_file_def)
  qed
  ultimately show ?thesis using g n by auto
qed

subsection \<open>Properties\<close>

text \<open>On a mounted file system \<open>get_next_cluster\<close> stays inside the sectors of the table and returns the
  entry of the cluster: 12, 16 or 28 bits of the sequence of nibbles, also where a FAT12 entry
  crosses the end of a sector.\<close>

theorem get_next_cluster_correct:
  assumes "fat_mounted gc fs" and "unat c < unat (clusters fs) + 2"
  shows "get_next_cluster gc fs c = Some (of_nat (fat_entry (sb_type fs) (tbytes gc fs) (unat c)))"
  by (rule get_next_cluster_entry [OF assms])

text \<open>Asked for the sector of cluster \<open>m\<close> of a file, \<open>fat_next_extent\<close> returns the extent of the
  longest run of consecutive clusters from there, whatever position of the chain the inode
  remembers, and remembers a position of the chain again.\<close>

theorem fat_next_extent_correct:
  assumes "fat_invar gc fs cs (isize i) (pvt i)" and "m < length cs"
  shows "\<exists>i'. fat_next_extent gc fs i (of_nat (m * 2 ^ clust_shift fs)) = Some (False, i') \<and>
    fat_invar gc fs cs (isize i') (pvt i') \<and>
    pstart (next_extent i') = of_nat (cluster_sector fs (cs ! m)) \<and>
    unat (elen (next_extent i')) = run_length (drop m cs) * 2 ^ clust_shift fs"
  using fat_next_extent_ok [OF assms] by metis

text \<open>C1. Reading a FAT file through \<open>generic_getfssec\<close> terminates and delivers the bytes of its cluster chain
  from the current offset, up to the number of sectors asked for or the end of the file, and
  leaves the file where the next call continues.\<close>

theorem fat_getfssec_correct:
  assumes "fat_file gc fs cs f"
  shows "\<exists>res f'. generic_getfssec gc (sector_shift fs) (fat_next_extent gc fs) f sectors = Some (res, f') \<and>
    (let n = min (unat sectors * 2 ^ sector_shift fs) (unat (isize (finode f)) - unat (foffset f))
     in unat (gr_count res) = n \<and>
        take n (gr_buf res) = take n (drop (unat (foffset f)) (fat_contents gc fs cs)) \<and>
        unat (foffset f') = unat (foffset f) + n \<and> fat_file gc fs cs f')"
  using fat_read_ok [OF assms, of sectors] unfolding Let_def by blast

text \<open>A FAT12 volume with sectors of 32 bytes: the FAT in sector 1, clusters from sector 2; a
  file of 40 bytes in clusters 2 and 4.\<close>

definition demo_gc :: "u64 \<Rightarrow> buf" where
  "demo_gc n = (if n = 1 then [0xF0, 0xFF, 0xFF, 4, 0, 0, 0xFF, 0x0F] @ replicate 24 0
                else replicate 32 (ucast n))"

definition demo_sb :: fat_sb_info where
  "demo_sb = \<lparr>sector_shift = 5, sb_fat = 1, sb_root = 2, sb_data = 2, clusters = 4, root_cluster = 0, root_size = 0,
     clust_shift = 0, clust_byte_shift = 5, clust_mask = 0, clust_size = 32, sb_type = FAT12, uuid = 0\<rparr>"

definition demo_inode :: fat_inode where
  "demo_inode = \<lparr>isize = 40, imode = DT_REG, this_extent = no_extent, next_extent = no_extent,
     pvt = \<lparr>start_cluster = 2, start = 2, offset = 0, here = 2\<rparr>\<rparr>"

lemma demo_sb_mounted: "fat_mounted demo_gc demo_sb"
  by (simp add: fat_mounted_def demo_gc_def demo_sb_def)

lemma demo_file_clusters: "file_clusters demo_gc demo_sb [2, 4]"
proof -
  have "fat_entry FAT12 (tbytes demo_gc demo_sb) 2 = 4" by code_simp
  then have "\<forall>i. Suc i < length [2, 4 :: nat] \<longrightarrow> tentry demo_gc demo_sb ([2, 4] ! i) = [2, 4] ! Suc i"
    by (simp add: demo_sb_def)
  then show ?thesis using demo_sb_mounted unfolding file_clusters_def by (simp add: demo_sb_def)
qed

lemma demo_invar: "fat_invar demo_gc demo_sb [2, 4] (isize demo_inode) (pvt demo_inode)"
proof -
  have "fat_pos demo_sb [2, 4] (pvt demo_inode)"
    unfolding fat_pos_def by (rule exI [of _ 0]) (simp add: demo_inode_def demo_sb_def cluster_sector_def)
  then show ?thesis using demo_file_clusters by (simp add: fat_invar_def) (simp add: demo_inode_def demo_sb_def)
qed

theorem get_next_cluster_correct_witness: "get_next_cluster demo_gc demo_sb 2 = Some 4"
proof -
  have "fat_entry FAT12 (tbytes demo_gc demo_sb) 2 = 4" by code_simp
  then show ?thesis using get_next_cluster_correct [OF demo_sb_mounted, of 2] by (simp add: demo_sb_def)
qed

theorem fat_next_extent_correct_witness:
  "\<exists>i'. fat_next_extent demo_gc demo_sb demo_inode 0 = Some (False, i') \<and>
     pstart (next_extent i') = 2 \<and> unat (elen (next_extent i')) = 1"
  using fat_next_extent_correct [OF demo_invar, of 0] by (auto simp: demo_sb_def cluster_sector_def)

theorem fat_getfssec_correct_witness:
  "\<exists>res f'. generic_getfssec demo_gc 5 (fat_next_extent demo_gc demo_sb) \<lparr>foffset = 0, finode = demo_inode\<rparr> 9 = Some (res, f') \<and>
     unat (gr_count res) = 40 \<and> take 40 (gr_buf res) = replicate 32 2 @ replicate 8 4"
proof -
  let ?f = "\<lparr>foffset = 0, finode = demo_inode\<rparr>"
  have e: "elen (this_extent demo_inode) = 0" "elen (next_extent demo_inode) = 0"
    by (simp_all add: demo_inode_def no_extent_def)
  have "fx.reachable demo_gc demo_sb [2, 4] 0 demo_inode"
    using demo_invar e by (simp add: fx.reachable_def fx.known_def)
  then have "fat_file demo_gc demo_sb [2, 4] ?f" using demo_invar by (simp add: fat_file_def)
  moreover have "fat_contents demo_gc demo_sb [2, 4] = replicate 32 2 @ replicate 32 4" by code_simp
  ultimately show ?thesis
    using fat_getfssec_correct [of demo_gc demo_sb "[2, 4]" ?f 9]
    by (auto simp: demo_sb_def demo_inode_def Let_def)
qed

end
