(* ===== verification/FatDir.thy ===== *)
theory FatDir
  imports FatFs CStr
begin

section \<open>The FAT driver of the core: names and directories\<close>

text \<open>
  The second half of \<open>core/fs/fat/fat.c\<close>: 8.3 names, long file names, the search for a
  directory entry and the enumeration of a directory. A directory entry is its 32 bytes. The
  codepage tables are a generated file, so they are an argument.
\<close>

subsection \<open>Directory entries\<close>

record codepage =
  upper :: "byte \<Rightarrow> byte"
  lower :: "byte \<Rightarrow> byte"
  uni0 :: "byte \<Rightarrow> u16"
  uni1 :: "byte \<Rightarrow> u16"

definition de_name :: "buf \<Rightarrow> buf" where "de_name d = take 11 d"
definition de_attr :: "buf \<Rightarrow> byte" where "de_attr d = d ! 11"
definition de_lcase :: "buf \<Rightarrow> byte" where "de_lcase d = d ! 12"
definition de_cluster_high :: "buf \<Rightarrow> u16" where "de_cluster_high d = le16 (d ! 20) (d ! 21)"
definition de_cluster_low :: "buf \<Rightarrow> u16" where "de_cluster_low d = le16 (d ! 26) (d ! 27)"
definition de_file_size :: "buf \<Rightarrow> u32" where
  "de_file_size d = le32 (d ! 28) (d ! 29) (d ! 30) (d ! 31)"

text \<open>The same bytes as an entry of a long name.\<close>

fun u16s :: "buf \<Rightarrow> u16 list" where
  "u16s (a # b # r) = le16 a b # u16s r"
| "u16s _ = []"

definition le_id :: "buf \<Rightarrow> byte" where "le_id d = d ! 0"
definition le_checksum :: "buf \<Rightarrow> byte" where "le_checksum d = d ! 13"
definition le_name1 :: "buf \<Rightarrow> u16 list" where "le_name1 d = u16s (take 10 (drop 1 d))"
definition le_name2 :: "buf \<Rightarrow> u16 list" where "le_name2 d = u16s (take 12 (drop 14 d))"
definition le_name3 :: "buf \<Rightarrow> u16 list" where "le_name3 d = u16s (take 4 (drop 28 d))"

definition LCASE_BASE :: byte where "LCASE_BASE = 8"
definition LCASE_EXT :: byte where "LCASE_EXT = 16"
definition FAT_ATTR_DIRECTORY :: byte where "FAT_ATTR_DIRECTORY = 0x10"

subsection \<open>8.3 names\<close>

definition dots_name :: "buf \<Rightarrow> nat \<Rightarrow> bool option" where
  "dots_name b s = do {
     c0 \<leftarrow> rd b s;
     if c0 \<noteq> 46 then Some False
     else do {
       c1 \<leftarrow> rd b (s + 1);
       if c1 = 0 then Some True
       else if c1 \<noteq> 46 then Some False
       else do { c2 \<leftarrow> rd b (s + 2); Some (c2 = 0) } } }"

function mangle_dos_loop :: "codepage \<Rightarrow> buf \<Rightarrow> nat \<Rightarrow> buf \<Rightarrow> nat \<Rightarrow> (buf \<times> nat) option" where
  "mangle_dos_loop cp b s mangle i =
    (if i < 11 then do {
       c \<leftarrow> rd b s;
       if c \<le> 32 \<or> c = 47 then Some (mangle, i)
       else if c = 46 then do {
         mangle \<leftarrow> fill mangle i 32 (8 - i);
         mangle_dos_loop cp b (s + 1) mangle 8 }
       else do {
         let c = upper cp c;
         mangle \<leftarrow> wr mangle i (if i = 0 \<and> c = 0xe5 then 0x05 else c);
         mangle_dos_loop cp b (s + 1) mangle (i + 1) } }
     else Some (mangle, i))"
  by pat_completeness auto
termination
  by (relation "measure (\<lambda>(cp, b, s, _). length b - s)") (auto simp: rd_eq_Some)

definition mangle_dos_name :: "codepage \<Rightarrow> buf \<Rightarrow> buf \<Rightarrow> nat \<Rightarrow> buf option" where
  "mangle_dos_name cp mangle b s = do {
     dots \<leftarrow> dots_name b s;
     (mangle, i) \<leftarrow>
       (if dots then do { m \<leftarrow> blit mangle 0 (cstr b s @ [0]); Some (m, length (cstr b s)) }
        else mangle_dos_loop cp b s mangle 0);
     mangle \<leftarrow> fill mangle i 32 (11 - i);
     wr mangle (max i 11) 0 }"

definition get_checksum :: "buf \<Rightarrow> byte" where
  "get_checksum dir_name = foldl (\<lambda>sum c. push_bit 7 (sum AND 1) + drop_bit 1 sum + c) 0 (take 11 dir_name)"

subsection \<open>Long names\<close>

text \<open>
  The first loop of \<open>vfat_match_longname\<close>: \<open>Some None\<close> is the return value false, otherwise the
  position in the string and the rest of the code points with their number.
\<close>

fun match_loop :: "codepage \<Rightarrow> buf \<Rightarrow> nat \<Rightarrow> u16 list \<Rightarrow> nat \<Rightarrow> (nat \<times> u16 list \<times> nat) option option" where
  "match_loop cp b s m 0 = Some (Some (s, m, 0))"
| "match_loop cp b s [] (Suc len) = None"
| "match_loop cp b s (c16 # m) (Suc len) =
    (if c16 = 0 then Some (Some (s, m, len))
     else do {
       c \<leftarrow> rd b s;
       if c16 \<noteq> uni0 cp c \<and> c16 \<noteq> uni1 cp c then Some None
       else match_loop cp b (s + 1) m len })"

fun pad_loop :: "u16 list \<Rightarrow> nat \<Rightarrow> bool option" where
  "pad_loop m 0 = Some True"
| "pad_loop [] (Suc len) = None"
| "pad_loop (c16 # m) (Suc len) = (if c16 \<noteq> 0xffff then Some False else pad_loop m len)"

definition vfat_match_longname :: "codepage \<Rightarrow> buf \<Rightarrow> nat \<Rightarrow> u16 list \<Rightarrow> nat \<Rightarrow> bool option" where
  "vfat_match_longname cp b s match len = do {
     r \<leftarrow> match_loop cp b s match len;
     case r of None \<Rightarrow> Some False
     | Some (s, match, len) \<Rightarrow> do {
         c \<leftarrow> rd b s;
         if c \<noteq> 0 then Some False else pad_loop match len } }"

definition copy_long_chunk :: "u16 list \<Rightarrow> nat \<Rightarrow> buf \<Rightarrow> u16 list option" where
  "copy_long_chunk long_name at d = do {
     ln \<leftarrow> blit long_name at (le_name1 d);
     ln \<leftarrow> blit ln (at + 5) (le_name2 d);
     blit ln (at + 11) (le_name3 d) }"

definition get_inode_mode :: "byte \<Rightarrow> dirent_type" where
  "get_inode_mode attr = (if attr AND FAT_ATTR_DIRECTORY \<noteq> 0 then DT_DIR else DT_REG)"

subsection \<open>Searching a directory\<close>

record find_state =
  vfat_next :: byte
  vfat_csum :: byte
  long_name :: "u16 list"
  long_len :: nat
  long_match :: bool

datatype find_step = End_of_dir | Next_entry find_state | Found

text \<open>The end of the loop body after the label \<open>not_match\<close>.\<close>

definition not_match :: "byte \<Rightarrow> find_state \<Rightarrow> find_step" where
  "not_match vfat_init st = Next_entry (st\<lparr>vfat_next := vfat_init, long_match := False\<rparr>)"

text \<open>An entry that continues the long name; the name is compared when it is complete.\<close>

definition find_chunk :: "codepage \<Rightarrow> buf \<Rightarrow> nat \<Rightarrow> byte \<Rightarrow> byte \<Rightarrow> find_state \<Rightarrow> buf \<Rightarrow> find_step option" where
  "find_chunk cp b s vfat_init i st d = do {
     let i = i - 1;
     ln \<leftarrow> copy_long_chunk (long_name st) (unat i * 13) d;
     let st = st\<lparr>vfat_next := i, long_name := ln\<rparr>;
     if i = 0 then do {
       m \<leftarrow> vfat_match_longname cp b s ln (long_len st);
       Some (if m then Next_entry (st\<lparr>long_match := True\<rparr>) else not_match vfat_init st) }
     else Some (Next_entry st) }"

definition find_long :: "codepage \<Rightarrow> buf \<Rightarrow> nat \<Rightarrow> byte \<Rightarrow> find_state \<Rightarrow> buf \<Rightarrow> find_step option" where
  "find_long cp b s vfat_init st d =
    (let i = le_id d
     in if i \<noteq> vfat_next st then Some (not_match vfat_init st)
        else if i AND 0x40 \<noteq> 0 then
          let i = i AND 0x3f
          in find_chunk cp b s vfat_init i
               (st\<lparr>vfat_csum := le_checksum d, long_len := unat i * 13, long_name := replicate 260 0\<rparr>) d
        else if le_checksum d \<noteq> vfat_csum st then Some (not_match vfat_init st)
        else find_chunk cp b s vfat_init i st d)"

definition find_short :: "buf \<Rightarrow> byte \<Rightarrow> find_state \<Rightarrow> buf \<Rightarrow> find_step" where
  "find_short mangled vfat_init st d =
    (if de_attr d AND 0x08 \<noteq> 0 then not_match vfat_init st
     else if long_match st then
       (if get_checksum (de_name d) = vfat_csum st then Found else not_match vfat_init st)
     else if take 11 mangled = de_name d then Found else not_match vfat_init st)"

definition find_de :: "codepage \<Rightarrow> buf \<Rightarrow> nat \<Rightarrow> buf \<Rightarrow> byte \<Rightarrow> find_state \<Rightarrow> buf \<Rightarrow> find_step option" where
  "find_de cp b s mangled vfat_init st d =
    (if de_name d ! 0 = 0 then Some End_of_dir
     else if de_attr d = 0x0f then find_long cp b s vfat_init st d
     else Some (find_short mangled vfat_init st d))"

text \<open>The entries of a sector; \<open>Inl\<close> leaves the search, with the entry found if there is one.\<close>

fun find_sector ::
  "codepage \<Rightarrow> buf \<Rightarrow> nat \<Rightarrow> buf \<Rightarrow> byte \<Rightarrow> nat \<Rightarrow> buf \<Rightarrow> nat \<Rightarrow> find_state \<Rightarrow> (buf option + find_state) option" where
  "find_sector cp b s mangled vfat_init 0 data pos st = Some (Inr st)"
| "find_sector cp b s mangled vfat_init (Suc n) data pos st = do {
     d \<leftarrow> slice data pos 32;
     r \<leftarrow> find_de cp b s mangled vfat_init st d;
     case r of
       End_of_dir \<Rightarrow> Some (Inl None)
     | Found \<Rightarrow> Some (Inl (Some d))
     | Next_entry st \<Rightarrow> find_sector cp b s mangled vfat_init n data (pos + 32) st }"

partial_function (option) find_entry_loop ::
  "codepage \<Rightarrow> (u64 \<Rightarrow> buf) \<Rightarrow> fat_sb_info \<Rightarrow> buf \<Rightarrow> nat \<Rightarrow> buf \<Rightarrow> byte \<Rightarrow> u64 \<Rightarrow> find_state \<Rightarrow> buf option option" where
  "find_entry_loop cp gc fs b s mangled vfat_init dir_sector st =
    (if dir_sector = 0 then Some None
     else
       Option.bind (find_sector cp b s mangled vfat_init (2 ^ (sector_shift fs - 5)) (gc dir_sector) 0 st) (\<lambda>r.
         case r of
           Inl d \<Rightarrow> Some d
         | Inr st \<Rightarrow>
             Option.bind (get_next_sector gc fs (ucast dir_sector)) (\<lambda>dir_sector.
               find_entry_loop cp gc fs b s mangled vfat_init dir_sector st)))"

definition found_inode :: "fat_sb_info \<Rightarrow> buf \<Rightarrow> fat_inode" where
  "found_inode fs d =
    (let clust = push_bit 16 (ucast (de_cluster_high d)) + ucast (de_cluster_low d);
         (clust, sz, sec) = (if clust = 0 then (root_cluster fs, root_inode_size fs, sb_root fs)
                    else (clust, ucast (de_file_size d), first_sector fs (de_cluster_high d) (de_cluster_low d)))
     in \<lparr>isize = sz, imode = get_inode_mode (de_attr d), this_extent = no_extent, next_extent = no_extent,
         pvt = \<lparr>start_cluster = clust, start = sec, offset = 0, here = sec\<rparr>\<rparr>)"

text \<open>
  The array \<open>long_name\<close> is not initialised; the first entry that is taken has the bit \<open>0x40\<close> in its
  number, which clears it.
\<close>

definition vfat_find_entry :: "codepage \<Rightarrow> (u64 \<Rightarrow> buf) \<Rightarrow> fat_sb_info \<Rightarrow> buf \<Rightarrow> nat \<Rightarrow> fat_inode \<Rightarrow> fat_inode option option" where
  "vfat_find_entry cp gc fs b s dir = do {
     len \<leftarrow> strlen b s;
     let slots = (len + 12) div 13;
     if slots > 20 then Some None
     else do {
       let vfat_init = of_nat slots OR 0x40;
       mangled \<leftarrow> mangle_dos_name cp (replicate 12 0) b s;
       d \<leftarrow> find_entry_loop cp gc fs b s mangled vfat_init (start (pvt dir))
              \<lparr>vfat_next = vfat_init, vfat_csum = 0, long_name = replicate 260 0, long_len = unat vfat_init * 13, long_match = False\<rparr>;
       Some (map_option (found_inode fs) d) } }"

definition vfat_iget :: "codepage \<Rightarrow> (u64 \<Rightarrow> buf) \<Rightarrow> fat_sb_info \<Rightarrow> buf \<Rightarrow> nat \<Rightarrow> fat_inode \<Rightarrow> fat_inode option option" where
  "vfat_iget cp gc fs b s parent = vfat_find_entry cp gc fs b s parent"

declare mangle_dos_loop.simps [simp del]

subsection \<open>8.3 names: bounds and shape\<close>

lemma is_cstr_Cons:
  assumes "is_cstr b s"
  shows "s < length b \<and> rd b s = Some (b ! s) \<and>
    (if b ! s = 0 then cstr b s = [] else cstr b s = b ! s # cstr b (s + 1) \<and> is_cstr b (s + 1))"
proof -
  have s: "s < length b" using assms by (cases "s < length b") (auto simp: is_cstr_def)
  then have "drop s b = b ! s # drop (s + 1) b" using drop_nth_Cons [of s b] by simp
  then show ?thesis using s assms by (auto simp: cstr_def is_cstr_def rd_def)
qed

lemma length_wr: "wr xs i v = Some ys \<Longrightarrow> length ys = length xs"
  by (auto simp: wr_def split: if_splits)

lemma fill_ok: "length m = 12 \<Longrightarrow> i \<le> 12 \<Longrightarrow> j \<le> 12 \<Longrightarrow> \<exists>m1. fill m i v (j - i) = Some m1 \<and> length m1 = 12"
proof -
  assume a: "length m = 12" "i \<le> 12" "j \<le> 12"
  then have "blit m i (replicate (j - i) v) = Some (take i m @ replicate (j - i) v @ drop (i + (j - i)) m)"
    by (simp add: blit_def)
  then show ?thesis using length_fill [of m i v "j - i"] a by (simp add: fill_def)
qed

lemma mangle_dos_loop_ok:
  assumes "is_cstr b s" and "length m = 12" and "i \<le> 11"
  shows "\<exists>m' i'. mangle_dos_loop cp b s m i = Some (m', i') \<and> length m' = 12 \<and> i' \<le> 11"
  using assms
proof (induction cp b s m i rule: mangle_dos_loop.induct)
  case (1 cp b s m i)
  note IH = "1.IH"
  show ?case
  proof (cases "i < 11 \<and> \<not> (b ! s \<le> 32 \<or> b ! s = 47)")
    case True
    have r: "rd b s = Some (b ! s)" "is_cstr b (s + 1)" using is_cstr_Cons [OF "1.prems"(1)] True by (auto split: if_splits)
    show ?thesis
    proof (cases "b ! s = 46")
      case dot: True
      obtain m1 where m1: "fill m i 32 (8 - i) = Some m1" "length m1 = 12"
        using fill_ok [of m i 8 32] "1.prems" by auto
      show ?thesis using IH(1) [OF _ r(1) _ dot m1(1) r(2) m1(2)] True dot r m1 by (subst mangle_dos_loop.simps) auto
    next
      case ndot: False
      let ?c = "if i = 0 \<and> upper cp (b ! s) = 0xe5 then 0x05 else upper cp (b ! s)"
      have w: "wr m i ?c = Some (m[i := ?c])" using "1.prems" True by (simp add: wr_def)
      show ?thesis using IH(2) [OF _ r(1) _ ndot refl w r(2)] True ndot r w "1.prems"
        by (subst mangle_dos_loop.simps) (auto simp: Let_def)
    qed
  next
    case False
    then show ?thesis using "1.prems" is_cstr_Cons [OF "1.prems"(1)] by (subst mangle_dos_loop.simps) auto
  qed
qed

lemma dots_name_ok:
  assumes "is_cstr b s"
  shows "dots_name b s = Some (cstr b s = [46] \<or> cstr b s = [46, 46])"
proof -
  note c = is_cstr_Cons [OF assms]
  show ?thesis
  proof (cases "b ! s = 46")
    case True
    then have c1: "is_cstr b (s + 1)" "cstr b s = 46 # cstr b (s + 1)" using c by auto
    note d = is_cstr_Cons [OF c1(1)]
    show ?thesis
    proof (cases "b ! (s + 1) = 46")
      case True2: True
      then have c2: "is_cstr b (s + 2)" "cstr b (s + 1) = 46 # cstr b (s + 2)" using d by (simp_all add: add.assoc)
      note e = is_cstr_Cons [OF c2(1)]
      then show ?thesis using c d c1 c2 True True2 by (auto simp: dots_name_def split: if_splits)
    next
      case False
      then show ?thesis using c d c1 True by (auto simp: dots_name_def split: if_splits)
    qed
  next
    case False
    then show ?thesis using c by (auto simp: dots_name_def split: if_splits)
  qed
qed

lemma mangle_dos_name_ok:
  assumes "is_cstr b s"
  shows "\<exists>m. mangle_dos_name cp (replicate 12 0) b s = Some m \<and> length m = 12 \<and> m ! 11 = 0"
proof -
  have "\<exists>m i. (if cstr b s = [46] \<or> cstr b s = [46, 46]
      then do { m \<leftarrow> blit (replicate 12 0) 0 (cstr b s @ [0]); Some (m, length (cstr b s)) }
      else mangle_dos_loop cp b s (replicate 12 0) 0) = Some (m, i) \<and> length m = 12 \<and> i \<le> 11"
    using mangle_dos_loop_ok [OF assms, of "replicate 12 0" 0 cp] by (auto simp: blit_def)
  then obtain m i where m: "(if cstr b s = [46] \<or> cstr b s = [46, 46]
      then do { m \<leftarrow> blit (replicate 12 0) 0 (cstr b s @ [0]); Some (m, length (cstr b s)) }
      else mangle_dos_loop cp b s (replicate 12 0) 0) = Some (m, i)" "length m = 12" "i \<le> 11" by blast
  obtain m1 where "fill m i 32 (11 - i) = Some m1" "length m1 = 12" using fill_ok [of m i 11 32] m by auto
  then show ?thesis using m by (auto simp: mangle_dos_name_def dots_name_ok [OF assms] wr_def max_def)
qed

subsection \<open>Long names: matching\<close>

definition chunk :: "buf \<Rightarrow> u16 list" where
  "chunk d = le_name1 d @ le_name2 d @ le_name3 d"

lemma length_u16s: "length (u16s b) = length b div 2"
  by (induction b rule: u16s.induct) auto

lemma length_lfn_chunk: "length d = 32 \<Longrightarrow> length (chunk d) = 13"
  by (simp add: chunk_def le_name1_def le_name2_def le_name3_def length_u16s)

lemma copy_long_chunk_blit:
  assumes "length d = 32" and "at + 13 \<le> length ln"
  shows "copy_long_chunk ln at d = Some (take at ln @ chunk d @ drop (at + 13) ln)"
proof -
  have l: "length (le_name1 d) = 5" "length (le_name2 d) = 6" "length (le_name3 d) = 2"
    using assms by (simp_all add: le_name1_def le_name2_def le_name3_def length_u16s)
  show ?thesis using assms by (simp add: copy_long_chunk_def blit_def l chunk_def min_def add.commute)
qed

lemma copy_long_chunk_None:
  assumes "length d = 32" and "length ln < at + 13"
  shows "copy_long_chunk ln at d = None"
proof -
  have l: "length (le_name1 d) = 5" "length (le_name2 d) = 6" "length (le_name3 d) = 2"
    using assms by (simp_all add: le_name1_def le_name2_def le_name3_def length_u16s)
  show ?thesis using assms by (auto simp: copy_long_chunk_def blit_def l)
qed

text \<open>
  A name matches the code points of a long name when each character has the code point in one of the
  tables, up to a NUL or the end of the entries, and only the padding \<open>0xffff\<close> follows.
\<close>

definition longname_matches :: "codepage \<Rightarrow> buf \<Rightarrow> u16 list \<Rightarrow> bool" where
  "longname_matches cp name cps \<longleftrightarrow>
     list_all2 (\<lambda>u c. u = uni0 cp c \<or> u = uni1 cp c) (takeWhile (\<lambda>u. u \<noteq> 0) cps) name \<and>
     (\<forall>u \<in> set (drop (length name + 1) cps). u = 0xffff)"

text \<open>What the code relies on: no code point but 0 belongs to the NUL character.\<close>

definition nul_maps :: "codepage \<Rightarrow> bool" where
  "nul_maps cp \<longleftrightarrow> uni0 cp 0 = 0 \<and> uni1 cp 0 = 0"

lemma pad_loop_ok: "len \<le> length m \<Longrightarrow> pad_loop m len = Some (\<forall>u \<in> set (take len m). u = 0xffff)"
  by (induction m len rule: pad_loop.induct) auto

lemma match_loop_ok:
  assumes "nul_maps cp" and "is_cstr b s" and "len \<le> length m"
  shows "do { r \<leftarrow> match_loop cp b s m len;
              case r of None \<Rightarrow> Some False
              | Some (s, match, len) \<Rightarrow> do { c \<leftarrow> rd b s; if c \<noteq> 0 then Some False else pad_loop match len } } =
    Some (longname_matches cp (cstr b s) (take len m))"
  using assms
proof (induction cp b s m len rule: match_loop.induct)
  case (1 cp b s m)
  then show ?case using is_cstr_Cons [OF "1.prems"(2)] by (auto simp: longname_matches_def split: if_splits)
next
  case (3 cp b s c16 m len)
  note c = is_cstr_Cons [OF "3.prems"(2)]
  show ?case
  proof (cases "c16 = 0")
    case True
    then show ?thesis using c "3.prems" by (auto simp: longname_matches_def pad_loop_ok split: if_splits)
  next
    case False
    note F = this
    show ?thesis
    proof (cases "(c16 = uni0 cp (b ! s) \<or> c16 = uni1 cp (b ! s)) \<and> b ! s \<noteq> 0")
      case True
      then have "cstr b s = b ! s # cstr b (s + 1)" "is_cstr b (s + 1)" "rd b s = Some (b ! s)" using c by auto
      then show ?thesis using "3.IH" [of "b ! s"] True F "3.prems"
        by (simp add: longname_matches_def) blast
    next
      case False
      then have "\<not> (c16 = uni0 cp (b ! s) \<or> c16 = uni1 cp (b ! s))" using F "3.prems"(1) by (auto simp: nul_maps_def)
      then show ?thesis using F c by (auto simp: longname_matches_def split: if_splits)
    qed
  qed
qed simp

lemma vfat_match_longname_ok:
  "nul_maps cp \<Longrightarrow> is_cstr b s \<Longrightarrow> len \<le> length m \<Longrightarrow>
   vfat_match_longname cp b s m len = Some (longname_matches cp (cstr b s) (take len m))"
  unfolding vfat_match_longname_def by (rule match_loop_ok)

subsection \<open>The search as a walk over a list of entries\<close>

text \<open>
  \<open>lfn_run n g\<close>: the entries \<open>g\<close> are the first of a long name of \<open>n\<close> entries, numbered downwards from
  \<open>n\<close>, which is marked by \<open>0x40\<close>, and with the same checksum. The search keeps such a run;
  \<open>lfn_next\<close> is how the next entry extends it or drops it.
\<close>

definition lfn_id :: "nat \<Rightarrow> nat \<Rightarrow> byte" where
  "lfn_id n j = (if j = 0 then of_nat n OR 0x40 else of_nat (n - j))"

definition lfn_run :: "nat \<Rightarrow> buf list \<Rightarrow> bool" where
  "lfn_run n g \<longleftrightarrow> length g \<le> n \<and>
     (\<forall>j < length g. de_attr (g ! j) = 0x0f \<and> le_id (g ! j) = lfn_id n j \<and> le_checksum (g ! j) = le_checksum (g ! 0))"

definition lfn_chars :: "buf list \<Rightarrow> u16 list" where
  "lfn_chars g = concat (map chunk (rev g))"

definition lfn_ok :: "codepage \<Rightarrow> buf \<Rightarrow> nat \<Rightarrow> buf list \<Rightarrow> bool" where
  "lfn_ok cp name n g \<longleftrightarrow> lfn_run n g \<and> (length g = n \<longrightarrow> longname_matches cp name (lfn_chars g))"

definition lfn_next :: "codepage \<Rightarrow> buf \<Rightarrow> nat \<Rightarrow> buf list \<Rightarrow> buf \<Rightarrow> buf list" where
  "lfn_next cp name n g d = (if lfn_ok cp name n (g @ [d]) then g @ [d] else [])"

definition lfn_hit :: "buf \<Rightarrow> nat \<Rightarrow> buf list \<Rightarrow> buf \<Rightarrow> bool" where
  "lfn_hit mangled n g d \<longleftrightarrow> de_attr d \<noteq> 0x0f \<and> de_attr d AND 0x08 = 0 \<and>
     (if length g = n then get_checksum (de_name d) = le_checksum (g ! 0) else take 11 mangled = de_name d)"

fun find_list :: "codepage \<Rightarrow> buf \<Rightarrow> buf \<Rightarrow> nat \<Rightarrow> buf list \<Rightarrow> buf list \<Rightarrow> (buf option + buf list)" where
  "find_list cp name mangled n g [] = Inr g"
| "find_list cp name mangled n g (d # ds) =
    (if d ! 0 = 0 then Inl None
     else if lfn_hit mangled n g d then Inl (Some d)
     else find_list cp name mangled n (lfn_next cp name n g d) ds)"

text \<open>The state of the code for a run.\<close>

definition run_state :: "nat \<Rightarrow> buf list \<Rightarrow> find_state \<Rightarrow> bool" where
  "run_state n g st \<longleftrightarrow>
     length (long_name st) = 260 \<and> vfat_next st = lfn_id n (length g) \<and> (long_match st \<longleftrightarrow> length g = n) \<and>
     (g \<noteq> [] \<longrightarrow> vfat_csum st = le_checksum (g ! 0) \<and> long_len st = n * 13 \<and>
        long_name st = replicate ((n - length g) * 13) 0 @ lfn_chars g @ replicate (260 - n * 13) 0)"

lemma lfn_id_bit:
  assumes "1 \<le> n" "n \<le> 20" "j \<le> n"
  shows "(lfn_id n j AND 0x40 \<noteq> 0) = (j = 0) \<and> (of_nat n OR 0x40 :: byte) AND 0x3f = of_nat n \<and>
    unat (of_nat n - 1 :: byte) = n - 1 \<and> (0 < j \<and> j < n \<longrightarrow> unat (lfn_id n j - 1) = n - Suc j \<and> lfn_id n j - 1 = lfn_id n (Suc j))"
proof -
  have n: "n \<in> {1..20}" "j \<in> {0..20}" using assms by auto
  have d: "\<forall>n \<in> set [1..<21]. (of_nat n :: byte) AND 0x40 = 0 \<and> (of_nat n OR 0x40 :: byte) AND 0x40 \<noteq> 0 \<and> (of_nat n OR 0x40 :: byte) AND 0x3f = of_nat n"
    by code_simp
  have u: "unat (of_nat k - 1 :: byte) = k - 1" if "1 \<le> k" "k \<le> 20" for k
  proof -
    have uk: "unat (of_nat k :: byte) = k" using that by (intro unat_of_nat_id) simp
    have "(1 :: byte) \<le> of_nat k" using that uk by (simp add: word_le_nat_alt)
    then show ?thesis using uk by (simp add: unat_minus_id)
  qed
  have b: "(of_nat k :: byte) AND 0x40 = 0" if "k \<le> 20" for k
    using that bspec [OF d, of k] by (cases "k = 0") auto
  have e: "(of_nat (n - j) :: byte) - 1 = of_nat (n - Suc j)" if "0 < j" "j < n"
    using that assms u [of "n - j"] by (intro of_natI) auto
  show ?thesis using bspec [OF d, of n] n assms u [of n] u [of "n - j"] b [of "n - j"] e
    by (auto simp: lfn_id_def)
qed

lemma all_nth_snoc: "(\<forall>j < length (g @ [d]). P j ((g @ [d]) ! j)) \<longleftrightarrow> (\<forall>j < length g. P j (g ! j)) \<and> P (length g) d"
  by (auto simp: less_Suc_eq nth_append)

lemma lfn_run_snoc:
  "lfn_run n (g @ [d]) \<longleftrightarrow> lfn_run n g \<and> length g < n \<and> de_attr d = 0x0f \<and> le_id d = lfn_id n (length g) \<and>
     (g \<noteq> [] \<longrightarrow> le_checksum d = le_checksum (g ! 0))"
proof -
  define P where "P c j x \<longleftrightarrow> de_attr x = 0x0f \<and> le_id x = lfn_id n j \<and> le_checksum x = le_checksum c" for c j x
  have r: "lfn_run n h \<longleftrightarrow> length h \<le> n \<and> (\<forall>j < length h. P (h ! 0) j (h ! j))" for h
    by (simp add: lfn_run_def P_def)
  have "lfn_run n (g @ [d]) \<longleftrightarrow> Suc (length g) \<le> n \<and> (\<forall>j < length g. P ((g @ [d]) ! 0) j (g ! j)) \<and> P ((g @ [d]) ! 0) (length g) d"
    unfolding r all_nth_snoc by simp
  also have "\<dots> \<longleftrightarrow> length g < n \<and> lfn_run n g \<and> P ((g @ [d]) ! 0) (length g) d"
    unfolding r by (cases g) auto
  also have "P ((g @ [d]) ! 0) (length g) d \<longleftrightarrow> de_attr d = 0x0f \<and> le_id d = lfn_id n (length g) \<and> (g \<noteq> [] \<longrightarrow> le_checksum d = le_checksum (g ! 0))"
    unfolding P_def by (cases g) simp_all
  finally show ?thesis by blast
qed

lemma lfn_chars_snoc: "lfn_chars (g @ [d]) = chunk d @ lfn_chars g"
  by (simp add: lfn_chars_def)

lemma length_lfn_chars: "\<forall>d \<in> set g. length d = 32 \<Longrightarrow> length (lfn_chars g) = length g * 13"
  by (induction g) (auto simp: lfn_chars_def length_lfn_chunk)

lemma copy_chunk_run:
  assumes "length d = 32" and "\<forall>x \<in> set g. length x = 32" and "length g < n" and "n * 13 \<le> L"
  defines "zeros k \<equiv> replicate (k * 13) 0"
  shows "copy_long_chunk (zeros (n - length g) @ lfn_chars g @ replicate (L - n * 13) 0) ((n - Suc (length g)) * 13) d =
      Some (zeros (n - Suc (length g)) @ lfn_chars (g @ [d]) @ replicate (L - n * 13) 0)"
    and "length (zeros (n - Suc (length g)) @ lfn_chars (g @ [d]) @ replicate (L - n * 13) 0) = L"
proof -
  let ?k = "length g"
  have at: "(n - Suc ?k) * 13 + 13 = (n - ?k) * 13" using assms(3) by (simp add: Suc_diff_Suc [symmetric] algebra_simps)
  have z: "zeros (n - ?k) = zeros (n - Suc ?k) @ replicate 13 0" unfolding zeros_def by (simp only: at [symmetric] replicate_add)
  have len: "(n - Suc ?k) * 13 + (13 + ?k * 13) = n * 13" using assms(3) at by (simp add: algebra_simps)
  show "length (zeros (n - Suc ?k) @ lfn_chars (g @ [d]) @ replicate (L - n * 13) 0) = L"
    using length_lfn_chars [of "g @ [d]"] assms(1,2,4) len unfolding zeros_def by (simp add: add.commute)
  show "copy_long_chunk (zeros (n - ?k) @ lfn_chars g @ replicate (L - n * 13) 0) ((n - Suc ?k) * 13) d =
      Some (zeros (n - Suc ?k) @ lfn_chars (g @ [d]) @ replicate (L - n * 13) 0)"
    unfolding z using assms(1) by (subst copy_long_chunk_blit) (auto simp: zeros_def lfn_chars_snoc)
qed

lemma not_match_state: "length (long_name st) = 260 \<Longrightarrow> 1 \<le> n \<Longrightarrow>
  \<exists>st'. not_match (of_nat n OR 0x40) st = Next_entry st' \<and> run_state n [] st'"
  by (auto simp: not_match_def run_state_def lfn_id_def)

lemma find_long_step:
  assumes cp: "nul_maps cp" "is_cstr b s" and n: "1 \<le> n" "n \<le> 20" and st: "run_state n g st" "lfn_run n g"
    and d: "length d = 32" "d ! 0 \<noteq> 0" "de_attr d = 0x0f" and g: "\<forall>x \<in> set g. length x = 32"
  shows "\<exists>st'. find_long cp b s (of_nat n OR 0x40) st d = Some (Next_entry st') \<and>
    run_state n (lfn_next cp (cstr b s) n g d) st'"
proof (cases "lfn_run n (g @ [d])")
  case False
  have gn: "length g \<le> n" using st by (simp add: lfn_run_def)
  have "le_id d \<noteq> vfat_next st \<or> le_id d AND 0x40 = 0 \<and> le_checksum d \<noteq> vfat_csum st"
    using False st d lfn_id_bit [OF n gn] gn n by (cases "length g = n") (auto simp: lfn_run_snoc run_state_def lfn_id_def le_id_def)
  then have "find_long cp b s (of_nat n OR 0x40) st d = Some (not_match (of_nat n OR 0x40) st)"
    by (auto simp: find_long_def Let_def)
  then show ?thesis using not_match_state [of st n] st(1) n(1) False by (simp add: lfn_next_def lfn_ok_def run_state_def)
next
  case True
  let ?g = "g @ [d]" and ?k = "length g"
  have k: "?k < n" "le_id d = lfn_id n ?k" "vfat_next st = lfn_id n ?k" "g \<noteq> [] \<Longrightarrow> le_checksum d = le_checksum (g ! 0)"
    using True st by (auto simp: lfn_run_snoc run_state_def)
  note bits = lfn_id_bit [OF n less_imp_le [OF k(1)]]
  define st1 where "st1 = (if g = [] then st\<lparr>vfat_csum := le_checksum d, long_len := n * 13, long_name := replicate 260 0\<rparr> else st)"
  define ln where "ln = replicate ((n - Suc ?k) * 13) 0 @ lfn_chars ?g @ replicate (260 - n * 13) 0"
  define st2 where "st2 = st1\<lparr>vfat_next := lfn_id n (Suc ?k), long_name := ln\<rparr>"
  have l1: "long_name st1 = replicate ((n - ?k) * 13) 0 @ lfn_chars g @ replicate (260 - n * 13) 0"
    using st n by (auto simp: st1_def run_state_def lfn_chars_def replicate_add [symmetric])
  have c: "copy_long_chunk (long_name st1) ((n - Suc ?k) * 13) d = Some ln" and ln: "length ln = 260"
    using copy_chunk_run [OF d(1) g k(1), of 260] n unfolding l1 ln_def by simp_all
  have ll: "long_len st2 = n * 13" using st by (auto simp: st2_def st1_def run_state_def)
  have cs: "vfat_csum st2 = le_checksum (?g ! 0)" using st by (auto simp: st2_def st1_def run_state_def nth_append)
  have res: "find_long cp b s (of_nat n OR 0x40) st d =
     (if n = Suc ?k then do { m \<leftarrow> vfat_match_longname cp b s ln (n * 13);
          Some (if m then Next_entry (st2\<lparr>long_match := True\<rparr>) else not_match (of_nat n OR 0x40) st2) }
      else Some (Next_entry st2))"
  proof -
    have f: "find_chunk cp b s (of_nat n OR 0x40) i st1 d =
      (if n = Suc ?k then do { m \<leftarrow> vfat_match_longname cp b s ln (n * 13);
          Some (if m then Next_entry (st2\<lparr>long_match := True\<rparr>) else not_match (of_nat n OR 0x40) st2) }
       else Some (Next_entry st2))" if "i - 1 = lfn_id n (Suc ?k)" for i
    proof -
      have u: "unat (lfn_id n (Suc ?k)) = n - Suc ?k" using k(1) n by (auto simp: lfn_id_def intro!: unat_of_nat_id simp del: of_nat_diff)
      have z: "(lfn_id n (Suc ?k) = 0) = (n = Suc ?k)" using u k(1) by (simp only: word_unat_eq_iff unsigned_0) linarith
      show ?thesis unfolding find_chunk_def that Let_def u c bind.bind_lunit z using ll by (simp add: st2_def cong: if_cong)
    qed
    show ?thesis
    proof (cases "g = []")
      case True
      have i: "(of_nat n :: byte) - 1 = lfn_id n (Suc ?k)" using True n by (simp add: lfn_id_def)
      have a: "le_id d = vfat_next st" "vfat_next st AND 0x40 \<noteq> 0" "vfat_next st AND 0x3f = of_nat n" "unat (of_nat n :: byte) = n"
        using bits k True n by (auto simp: lfn_id_def intro!: unat_of_nat_id)
      have "find_long cp b s (of_nat n OR 0x40) st d = find_chunk cp b s (of_nat n OR 0x40) (of_nat n) st1 d"
        unfolding find_long_def Let_def st1_def using True a by simp
      then show ?thesis using f [OF i] by simp
    next
      case False
      have i: "lfn_id n ?k - 1 = lfn_id n (Suc ?k)" "lfn_id n ?k AND 0x40 = 0" "le_checksum d = vfat_csum st"
        using bits False k st by (auto simp: run_state_def)
      have "find_long cp b s (of_nat n OR 0x40) st d = find_chunk cp b s (of_nat n OR 0x40) (lfn_id n ?k) st1 d"
        unfolding find_long_def Let_def st1_def k(2,3) using False i by simp
      then show ?thesis using f [OF i(1)] by simp
    qed
  qed
  have tk: "n = Suc ?k \<Longrightarrow> take (n * 13) ln = lfn_chars ?g" 
    using length_lfn_chars [of ?g] g d(1) by (simp add: ln_def)
  show ?thesis
  proof (cases "n = Suc ?k")
    case last: True
    have "vfat_match_longname cp b s ln (n * 13) = Some (longname_matches cp (cstr b s) (lfn_chars ?g))"
      using vfat_match_longname_ok [OF cp, of "n * 13" ln] tk last ln n by simp
    moreover have "run_state n ?g (st2\<lparr>long_match := True\<rparr>)"
      using ln ll cs last by (simp add: run_state_def st2_def ln_def)
    moreover have "\<exists>st'. not_match (of_nat n OR 0x40) st2 = Next_entry st' \<and> run_state n [] st'"
      using not_match_state [of st2 n] ln n by (simp add: st2_def)
    ultimately show ?thesis using res last True by (auto simp: lfn_next_def lfn_ok_def)
  next
    case False
    have "run_state n ?g st2" using ln ll cs False st k by (auto simp: run_state_def st2_def st1_def ln_def)
    then show ?thesis using res False True by (simp add: lfn_next_def lfn_ok_def)
  qed
qed

lemma find_de_step:
  assumes cp: "nul_maps cp" "is_cstr b s" and n: "1 \<le> n" "n \<le> 20" and st: "run_state n g st" "lfn_run n g"
    and d: "length d = 32" and g: "\<forall>x \<in> set g. length x = 32"
  shows "if d ! 0 = 0 then find_de cp b s mangled (of_nat n OR 0x40) st d = Some End_of_dir
    else if lfn_hit mangled n g d then find_de cp b s mangled (of_nat n OR 0x40) st d = Some Found
    else \<exists>st'. find_de cp b s mangled (of_nat n OR 0x40) st d = Some (Next_entry st') \<and>
           run_state n (lfn_next cp (cstr b s) n g d) st'"
proof (cases "d ! 0 = 0 \<or> de_attr d = 0x0f")
  case True
  then show ?thesis using find_long_step [OF cp n st d _ _ g] d by (auto simp: find_de_def de_name_def lfn_hit_def)
next
  case False
  have nx: "lfn_next cp (cstr b s) n g d = []" using False by (simp add: lfn_next_def lfn_ok_def lfn_run_snoc)
  have e: "find_de cp b s mangled (of_nat n OR 0x40) st d = Some (find_short mangled (of_nat n OR 0x40) st d)"
    using False d by (simp add: find_de_def de_name_def)
  have nm: "\<exists>st'. not_match (of_nat n OR 0x40) st = Next_entry st' \<and> run_state n [] st'"
    using not_match_state [of st n] st n by (simp add: run_state_def)
  have "long_match st \<longleftrightarrow> length g = n" "length g = n \<Longrightarrow> vfat_csum st = le_checksum (g ! 0)"
    using st n by (auto simp: run_state_def)
  then show ?thesis using False nm unfolding e nx by (auto simp: find_short_def lfn_hit_def)
qed

lemma lfn_run_Nil [simp]: "lfn_run n []"
  by (simp add: lfn_run_def)

lemma lfn_next_run: "lfn_run n (lfn_next cp name n g d)"
  by (simp add: lfn_next_def lfn_ok_def)

lemma lfn_next_set: "\<forall>x \<in> set g. length x = 32 \<Longrightarrow> length d = 32 \<Longrightarrow> \<forall>x \<in> set (lfn_next cp name n g d). length x = 32"
  by (auto simp: lfn_next_def)

definition sector_des :: "nat \<Rightarrow> buf \<Rightarrow> nat \<Rightarrow> buf list" where
  "sector_des k data pos = map (\<lambda>i. take 32 (drop (pos + 32 * i) data)) [0..<k]"

lemma sector_des_Suc: "sector_des (Suc k) data pos = take 32 (drop pos data) # sector_des k data (pos + 32)"
  by (simp add: sector_des_def map_upt_Suc add.assoc del: upt_Suc)

lemma find_sector_list:
  assumes cp: "nul_maps cp" "is_cstr b s" and n: "1 \<le> n" "n \<le> 20"
  shows "run_state n g st \<Longrightarrow> lfn_run n g \<Longrightarrow> \<forall>x \<in> set g. length x = 32 \<Longrightarrow> pos + 32 * k \<le> length data \<Longrightarrow>
    \<exists>r. find_sector cp b s mangled (of_nat n OR 0x40) k data pos st = Some r \<and>
      (case find_list cp (cstr b s) mangled n g (sector_des k data pos) of
         Inl x \<Rightarrow> r = Inl x
       | Inr g' \<Rightarrow> \<exists>st'. r = Inr st' \<and> run_state n g' st' \<and> lfn_run n g' \<and> (\<forall>x \<in> set g'. length x = 32))"
proof (induction k arbitrary: pos g st)
  case 0
  then show ?case by (simp add: sector_des_def)
next
  case (Suc k)
  let ?d = "take 32 (drop pos data)"
  have d: "length ?d = 32" "slice data pos 32 = Some ?d" using Suc.prems(4) by (auto simp: slice_def)
  note step = find_de_step [OF cp n Suc.prems(1,2) d(1) Suc.prems(3), of mangled]
  consider "?d ! 0 = 0" | "?d ! 0 \<noteq> 0" "lfn_hit mangled n g ?d" | "?d ! 0 \<noteq> 0" "\<not> lfn_hit mangled n g ?d" by blast
  then show ?case
  proof cases
    case 3
    then obtain st' where st': "find_de cp b s mangled (of_nat n OR 0x40) st ?d = Some (Next_entry st')"
      "run_state n (lfn_next cp (cstr b s) n g ?d) st'" using step by auto
    have "pos + 32 + 32 * k \<le> length data" using Suc.prems(4) by simp
    from Suc.IH [OF st'(2) lfn_next_run lfn_next_set [OF Suc.prems(3) d(1)] this]
    show ?thesis using 3 by (simp add: d(2) st'(1) sector_des_Suc)
  qed (use step in \<open>simp_all add: d(2) sector_des_Suc\<close>)
qed

text \<open>The sectors of a directory, up to the end of its chain, and the entries in them.\<close>

fun dir_chain :: "(u64 \<Rightarrow> buf) \<Rightarrow> fat_sb_info \<Rightarrow> u64 \<Rightarrow> u64 list \<Rightarrow> bool" where
  "dir_chain gc fs s [] \<longleftrightarrow> s = 0"
| "dir_chain gc fs s (x # xs) \<longleftrightarrow> s = x \<and> x \<noteq> 0 \<and>
     (case get_next_sector gc fs (ucast x) of None \<Rightarrow> False | Some s' \<Rightarrow> dir_chain gc fs s' xs)"

definition dir_entries :: "(u64 \<Rightarrow> buf) \<Rightarrow> fat_sb_info \<Rightarrow> u64 list \<Rightarrow> buf list" where
  "dir_entries gc fs ss = concat (map (\<lambda>s. sector_des (2 ^ (sector_shift fs - 5)) (gc s) 0) ss)"

lemma find_list_append:
  "find_list cp name m n g (xs @ ys) =
    (case find_list cp name m n g xs of Inl r \<Rightarrow> Inl r | Inr g' \<Rightarrow> find_list cp name m n g' ys)"
  by (induction xs arbitrary: g) auto

lemma sector_size_entries: "fat_mounted gc fs \<Longrightarrow> (2 :: nat) ^ sector_shift fs = 32 * 2 ^ (sector_shift fs - 5)"
proof -
  assume m: "fat_mounted gc fs"
  then have "(2 :: nat) ^ sector_shift fs = 2 ^ 5 * 2 ^ (sector_shift fs - 5)"
    by (simp only: fat_mounted_def power_add [symmetric]) simp
  then show ?thesis by simp
qed

lemma sector_entries_length: "fat_mounted gc fs \<Longrightarrow> 32 * 2 ^ (sector_shift fs - 5) \<le> length (gc s)"
  using sector_size_entries [of gc fs] by (simp add: fat_mounted_def)

lemma find_entry_loop_list:
  assumes mnt: "fat_mounted gc fs" and cp: "nul_maps cp" "is_cstr b s" and n: "1 \<le> n" "n \<le> 20"
  shows "dir_chain gc fs sec ss \<Longrightarrow> run_state n g st \<Longrightarrow> lfn_run n g \<Longrightarrow> \<forall>x \<in> set g. length x = 32 \<Longrightarrow>
    find_entry_loop cp gc fs b s mangled (of_nat n OR 0x40) sec st =
      Some (case find_list cp (cstr b s) mangled n g (dir_entries gc fs ss) of Inl r \<Rightarrow> r | Inr _ \<Rightarrow> None)"
proof (induction ss arbitrary: sec g st)
  case Nil
  then show ?case by (subst find_entry_loop.simps) (simp add: dir_entries_def)
next
  case (Cons x ss)
  obtain sec' where sec: "sec = x" "x \<noteq> 0" "get_next_sector gc fs (ucast x) = Some sec'" "dir_chain gc fs sec' ss"
    using Cons.prems(1) by (auto split: option.splits)
  let ?es = "sector_des (2 ^ (sector_shift fs - 5)) (gc x) 0"
  obtain r where r: "find_sector cp b s mangled (of_nat n OR 0x40) (2 ^ (sector_shift fs - 5)) (gc x) 0 st = Some r"
      "case find_list cp (cstr b s) mangled n g ?es of
         Inl x \<Rightarrow> r = Inl x
       | Inr g' \<Rightarrow> \<exists>st'. r = Inr st' \<and> run_state n g' st' \<and> lfn_run n g' \<and> (\<forall>x \<in> set g'. length x = 32)"
    using find_sector_list [OF cp n Cons.prems(2,3,4), of 0 "2 ^ (sector_shift fs - 5)" "gc x" mangled]
      sector_entries_length [OF mnt, of x] by auto
  have de: "dir_entries gc fs (x # ss) = ?es @ dir_entries gc fs ss" by (simp add: dir_entries_def)
  show ?case
  proof (cases "find_list cp (cstr b s) mangled n g ?es")
    case (Inl y)
    then show ?thesis using sec r by (subst find_entry_loop.simps) (simp add: de find_list_append)
  next
    case (Inr g')
    then obtain st' where st': "r = Inr st'" "run_state n g' st'" "lfn_run n g'" "\<forall>x \<in> set g'. length x = 32" using r by auto
    show ?thesis using sec r(1) st'(1) Inr Cons.IH [OF sec(4) st'(2-4)]
      by (subst find_entry_loop.simps) (simp add: de find_list_append)
  qed
qed

subsection \<open>What the search finds\<close>

text \<open>The run of long-name entries that the search has pending before entry \<open>k\<close>.\<close>

abbreviation lfn_before :: "codepage \<Rightarrow> buf \<Rightarrow> nat \<Rightarrow> buf list \<Rightarrow> nat \<Rightarrow> buf list" where
  "lfn_before cp name n es k \<equiv> foldl (lfn_next cp name n) [] (take k es)"

definition live :: "buf list \<Rightarrow> nat \<Rightarrow> bool" where
  "live es k \<longleftrightarrow> k < length es \<and> (\<forall>j \<le> k. es ! j ! 0 \<noteq> 0)"

lemma live_Cons: "live (d # es) (Suc k) \<longleftrightarrow> d ! 0 \<noteq> 0 \<and> live es k" "live (d # es) 0 \<longleftrightarrow> d ! 0 \<noteq> 0"
proof -
  have "(\<forall>j \<le> Suc k. P j) \<longleftrightarrow> P 0 \<and> (\<forall>j \<le> k. P (Suc j))" for P
    by (metis Suc_le_mono le0 not0_implies_Suc)
  then show "live (d # es) (Suc k) \<longleftrightarrow> d ! 0 \<noteq> 0 \<and> live es k" by (auto simp: live_def)
qed (simp add: live_def)

lemma find_list_hits:
  "case find_list cp name m n g es of
     Inl (Some d) \<Rightarrow> \<exists>k. live es k \<and> d = es ! k \<and> lfn_hit m n (foldl (lfn_next cp name n) g (take k es)) d \<and>
                      (\<forall>j < k. \<not> lfn_hit m n (foldl (lfn_next cp name n) g (take j es)) (es ! j))
   | _ \<Rightarrow> \<forall>k. live es k \<longrightarrow> \<not> lfn_hit m n (foldl (lfn_next cp name n) g (take k es)) (es ! k)"
proof (induction es arbitrary: g)
  case Nil
  then show ?case by (simp add: live_def)
next
  case (Cons d es)
  let ?h = "\<lambda>k. lfn_hit m n (foldl (lfn_next cp name n) g (take k (d # es))) ((d # es) ! k)"
  consider "d ! 0 = 0" | "d ! 0 \<noteq> 0" "lfn_hit m n g d" | "d ! 0 \<noteq> 0" "\<not> lfn_hit m n g d" by blast
  then show ?case
  proof cases
    case 1
    then have "\<not> live (d # es) k" for k by (cases k) (simp_all add: live_Cons)
    then show ?thesis using 1 by simp
  next
    case 2
    then show ?thesis using live_Cons(2) [of d es] by (auto intro!: exI [of _ 0])
  next
    case 3
    have 0: "\<not> ?h 0" using 3 by simp
    have S: "?h (Suc k) \<longleftrightarrow> lfn_hit m n (foldl (lfn_next cp name n) (lfn_next cp name n g d) (take k es)) (es ! k)" for k by simp
    have L: "live (d # es) (Suc k) = live es k" for k using 3 live_Cons(1) by simp
    show ?thesis
    proof (cases "find_list cp name m n (lfn_next cp name n g d) es")
      case (Inl r)
      show ?thesis
      proof (cases r)
        case None
        have "live (d # es) k \<longrightarrow> \<not> ?h k" for k
          using Cons.IH [of "lfn_next cp name n g d"] Inl None 0 by (cases k) (auto simp: L)
        then show ?thesis using 3 Inl None by simp
      next
        case (Some x)
        then obtain k where k: "live es k" "x = es ! k" "?h (Suc k)" "\<forall>j < k. \<not> ?h (Suc j)"
          using Cons.IH [of "lfn_next cp name n g d"] Inl by auto
        have "\<not> ?h j" if "j < Suc k" for j using that 0 k(4) by (cases j) auto
        then show ?thesis using 3 Inl Some k by (auto intro!: exI [of _ "Suc k"] simp: L)
      qed
    next
      case (Inr g')
      have "live (d # es) k \<longrightarrow> \<not> ?h k" for k
        using Cons.IH [of "lfn_next cp name n g d"] Inr 0 by (cases k) (auto simp: L)
      then show ?thesis using 3 Inr by simp
    qed
  qed
qed

lemma lfn_before_suffix:
  assumes "k \<le> length es" and "1 \<le> n"
  shows "lfn_ok cp name n (lfn_before cp name n es k) \<and> (\<exists>pre. take k es = pre @ lfn_before cp name n es k)"
  using assms(1)
proof (induction k)
  case 0
  then show ?case using assms(2) by (simp add: lfn_ok_def)
next
  case (Suc k)
  then have t: "take (Suc k) es = take k es @ [es ! k]" by (simp add: take_Suc_conv_app_nth)
  let ?g = "lfn_before cp name n es k"
  obtain pre where pre: "take k es = pre @ ?g" using Suc by auto
  have nil: "lfn_ok cp name n []" using assms(2) by (simp add: lfn_ok_def)
  have e: "lfn_before cp name n es (Suc k) = lfn_next cp name n ?g (es ! k)" unfolding t by simp
  show ?case
  proof (cases "lfn_ok cp name n (?g @ [es ! k])")
    case True
    then have "take (Suc k) es = pre @ lfn_next cp name n ?g (es ! k)" using pre t by (simp only: lfn_next_def) simp
    then show ?thesis unfolding e using True by (auto simp: lfn_next_def)
  next
    case False
    then show ?thesis unfolding e using nil by (simp add: lfn_next_def)
  qed
qed

lemma lfn_before_clean:
  "k < length es \<Longrightarrow> de_attr (es ! k) \<noteq> 0x0f \<Longrightarrow> lfn_before cp name n es (Suc k) = []"
  by (simp add: take_Suc_conv_app_nth lfn_next_def lfn_ok_def lfn_run_snoc)

lemma lfn_run_build:
  assumes "lfn_ok cp name n g"
  shows "foldl (lfn_next cp name n) [] g = g"
  using assms
proof (induction g rule: rev_induct)
  case (snoc d g)
  then have "lfn_ok cp name n g" by (auto simp: lfn_ok_def lfn_run_snoc)
  then show ?case using snoc by (simp add: lfn_next_def)
qed simp

text \<open>
  Entry \<open>k\<close> has the given 8.3 name; or the \<open>n\<close> entries before it are its long name, tied to it by the
  checksum, and match the name. The search relies on the entries before that not being the remains
  of another long name.
\<close>

definition plain_entry :: "buf \<Rightarrow> bool" where
  "plain_entry d \<longleftrightarrow> de_attr d \<noteq> 0x0f \<and> de_attr d AND 0x08 = 0"

definition short_named :: "buf \<Rightarrow> buf list \<Rightarrow> nat \<Rightarrow> bool" where
  "short_named m es k \<longleftrightarrow> plain_entry (es ! k) \<and> de_name (es ! k) = take 11 m"

definition long_named :: "codepage \<Rightarrow> buf \<Rightarrow> nat \<Rightarrow> buf list \<Rightarrow> nat \<Rightarrow> bool" where
  "long_named cp name n es k \<longleftrightarrow> plain_entry (es ! k) \<and> n \<le> k \<and>
     (let g = take n (drop (k - n) es)
      in lfn_run n g \<and> longname_matches cp name (lfn_chars g) \<and> get_checksum (de_name (es ! k)) = le_checksum (g ! 0))"

definition clean_before :: "buf list \<Rightarrow> nat \<Rightarrow> bool" where
  "clean_before es k \<longleftrightarrow> k = 0 \<or> de_attr (es ! (k - 1)) \<noteq> 0x0f"

lemma hit_named:
  assumes "k < length es" and n: "1 \<le> n" and "lfn_hit m n (lfn_before cp name n es k) (es ! k)"
  shows "short_named m es k \<or> long_named cp name n es k"
proof (cases "length (lfn_before cp name n es k) = n")
  case True
  let ?g = "lfn_before cp name n es k"
  obtain pre where pre: "take k es = pre @ ?g" and ok: "lfn_ok cp name n ?g" using lfn_before_suffix [of k es n cp name] assms by auto
  have lp: "length pre = k - n" "n \<le> k" using arg_cong [OF pre, of length] assms(1) True by auto
  have "take n (drop (k - n) es) = drop (k - n) (take k es)" using lp by (simp add: drop_take)
  also have "\<dots> = ?g" by (subst pre) (simp only: lp(1) [symmetric] append_eq_conv_conj [symmetric] append_Nil drop_append drop_all diff_self_eq_0 drop_0 order_refl)
  finally show ?thesis using assms(3) True ok lp by (auto simp: long_named_def plain_entry_def lfn_hit_def lfn_ok_def)
next
  case False
  then show ?thesis using assms by (auto simp: short_named_def plain_entry_def lfn_hit_def)
qed

lemma clean_lfn_before: "k < length es \<Longrightarrow> clean_before es k \<Longrightarrow> lfn_before cp name n es k = []"
  using lfn_before_clean [of "k - 1" es cp name n] by (cases k) (auto simp: clean_before_def)

lemma named_hit:
  assumes k: "k < length es" and n: "1 \<le> n"
    and "clean_before es k \<and> short_named m es k \<or> clean_before es (k - n) \<and> long_named cp name n es k"
  shows "lfn_hit m n (lfn_before cp name n es k) (es ! k)"
  using assms(3)
proof
  assume "clean_before es k \<and> short_named m es k"
  then show ?thesis using clean_lfn_before [OF k, of cp name n] n by (auto simp: lfn_hit_def short_named_def plain_entry_def)
next
  assume a: "clean_before es (k - n) \<and> long_named cp name n es k"
  define g where "g = take n (drop (k - n) es)"
  have nk: "n \<le> k" and g: "lfn_run n g" "longname_matches cp name (lfn_chars g)"
     "get_checksum (de_name (es ! k)) = le_checksum (g ! 0)" "plain_entry (es ! k)"
    using a by (auto simp: long_named_def g_def Let_def)
  have lg: "length g = n" using k nk by (simp add: g_def)
  have t: "take k es = take (k - n) es @ g"
    using take_add [of "k - n" n es] nk by (simp add: g_def)
  have "lfn_before cp name n es (k - n) = []" using clean_lfn_before [of "k - n" es cp name n] a k by auto
  then have "lfn_before cp name n es k = g" using lfn_run_build [of cp name n g] g lg unfolding t by (simp add: lfn_ok_def)
  then show ?thesis using g lg by (auto simp: lfn_hit_def plain_entry_def)
qed

lemma strlen_slots: "name \<noteq> [] \<Longrightarrow> length name \<le> 260 \<Longrightarrow> 1 \<le> (length name + 12) div 13 \<and> (length name + 12) div 13 \<le> 20"
  by (cases name) auto

lemma find_entry_list:
  assumes mnt: "fat_mounted gc fs" and cp: "nul_maps cp" and b: "is_cstr b s" "cstr b s \<noteq> []" "length (cstr b s) \<le> 260"
    and dir: "dir_chain gc fs (start (pvt dir)) ss" and m: "mangle_dos_name cp (replicate 12 0) b s = Some m"
  shows "vfat_find_entry cp gc fs b s dir =
    Some (map_option (found_inode fs)
      (case find_list cp (cstr b s) m ((length (cstr b s) + 12) div 13) [] (dir_entries gc fs ss) of Inl r \<Rightarrow> r | Inr _ \<Rightarrow> None))"
proof -
  let ?n = "(length (cstr b s) + 12) div 13"
  have n: "1 \<le> ?n" "?n \<le> 20" using strlen_slots [OF b(2,3)] by auto
  let ?st = "\<lparr>vfat_next = of_nat ?n OR 0x40, vfat_csum = 0, long_name = replicate 260 0,
     long_len = unat (of_nat ?n OR 0x40 :: byte) * 13, long_match = False\<rparr>"
  have "run_state ?n [] ?st" using n by (simp add: run_state_def lfn_id_def)
  then show ?thesis using find_entry_loop_list [OF mnt cp b(1) n dir, of "[]" ?st m] n b(1) m
    by (simp add: vfat_find_entry_def strlen_def Let_def)
qed

subsection \<open>The sectors of a directory\<close>

definition cluster_sectors :: "fat_sb_info \<Rightarrow> nat list \<Rightarrow> u64 list" where
  "cluster_sectors fs cs =
    concat (map (\<lambda>c. map (\<lambda>j. of_nat (cluster_sector fs c + j)) [0..<2 ^ clust_shift fs]) cs)"

text \<open>The last cluster is linked to a value that is not a cluster, such as the end-of-chain mark.\<close>

definition ends_chain :: "(u64 \<Rightarrow> buf) \<Rightarrow> fat_sb_info \<Rightarrow> nat list \<Rightarrow> bool" where
  "ends_chain gc fs cs \<longleftrightarrow> \<not> (2 \<le> tentry gc fs (last cs) \<and> tentry gc fs (last cs) < unat (clusters fs) + 2)"

lemma clust_mask_bits:
  assumes "fat_mounted gc fs"
  shows "(w AND scast (clust_mask fs) \<noteq> (0 :: u64)) \<longleftrightarrow> unat w mod 2 ^ clust_shift fs \<noteq> 0"
proof -
  have c: "clust_shift fs \<le> 7" "clust_mask fs = 2 ^ clust_shift fs - 1" using assms by (auto simp: fat_mounted_def)
  have m: "clust_mask fs = mask (clust_shift fs)" using c by (simp add: mask_eq_exp_minus_1)
  have "scast (mask (clust_shift fs) :: u32) = (mask (clust_shift fs) :: u64)"
    using c by (intro bit_word_eqI) (auto simp: bit_simps bit_signed_iff)
  then have "unat (w AND scast (clust_mask fs)) = unat w mod 2 ^ clust_shift fs" unfolding m by (simp only: unat_and_mask)
  then show ?thesis by (simp only: word_unat_eq_iff unsigned_0)
qed

lemma cluster_out:
  assumes "\<not> (2 \<le> t \<and> t < unat (n :: u32) + 2)" and "t < 2 ^ 28" and "unat n \<le> 0xffffff4"
  shows "n \<le> of_nat t - 2"
proof (cases "2 \<le> t")
  case True
  have "unat (of_nat t :: u32) = t" using assms(2) by (intro unat_of_nat_id) simp
  then have "unat (of_nat t - 2 :: u32) = t - 2" using True by (simp add: unat_minus_id word_le_nat_alt)
  then show ?thesis using assms True by (simp add: word_le_nat_alt)
next
  case False
  have "unat (- 2 :: u32) = 0xfffffffe" "unat (- 1 :: u32) = 0xffffffff"
    by (simp_all add: unsigned_minus_1_eq_mask mask_eq_exp_minus_1)
  moreover have "t = 0 \<or> t = 1" using False by auto
  ultimately have "0xfffffffe \<le> unat (of_nat t - 2 :: u32)" by auto
  then show ?thesis using assms(3) by (simp add: word_le_nat_alt)
qed

lemma get_next_sector_cluster:
  assumes f: "file_clusters gc fs cs" and i: "i < length cs" and j: "j < 2 ^ clust_shift fs" and d: "0 < sb_data fs"
  shows "get_next_sector gc fs (of_nat (cluster_sector fs (cs ! i) + j)) =
    Some (if Suc j < 2 ^ clust_shift fs then of_nat (cluster_sector fs (cs ! i) + Suc j)
          else let t = tentry gc fs (cs ! i)
               in if 2 \<le> t \<and> t < unat (clusters fs) + 2 then of_nat (cluster_sector fs t) else 0)"
proof -
  have m: "fat_mounted gc fs" using f by (simp add: file_clusters_def)
  note cf = cluster_facts [OF f i]
  let ?s = "cluster_sector fs (cs ! i) + j"
  have s32: "?s + 1 < 2 ^ 32" using cf(8) j by linarith
  have us: "unat (of_nat ?s :: u32) = ?s" using s32 by (intro unat_of_nat_id) simp
  have u64: "unat (ucast (of_nat ?s :: u32) :: u64) = ?s" using s32 us by (simp add: unat_ucast)
  have sd: "unat (sb_data fs) \<le> ?s" by (simp add: cluster_sector_def)
  have ge: "\<not> (ucast (of_nat ?s :: u32) :: u64) < sb_data fs" using u64 sd by (simp add: word_less_nat_alt)
  have uds: "unat ((ucast (of_nat ?s :: u32) :: u64) - sb_data fs) = (cs ! i - 2) * 2 ^ clust_shift fs + j"
    using ge u64 by (simp add: unat_minus_id not_less cluster_sector_def)
  let ?ds = "(ucast (of_nat ?s :: u32) :: u64) - sb_data fs"
  have uds1: "unat (?ds + 1) = (cs ! i - 2) * 2 ^ clust_shift fs + Suc j"
    using uds s32 sd by (subst unat_add_id) (auto simp: cluster_sector_def)
  have same: "(?ds + 1) AND scast (clust_mask fs) \<noteq> 0 \<longleftrightarrow> Suc j < 2 ^ clust_shift fs"
  proof -
    have "((cs ! i - 2) * 2 ^ clust_shift fs + Suc j) mod 2 ^ clust_shift fs = Suc j mod 2 ^ clust_shift fs" by simp
    moreover have "Suc j mod 2 ^ clust_shift fs \<noteq> 0 \<longleftrightarrow> Suc j < 2 ^ clust_shift fs"
      using j by (cases "Suc j = 2 ^ clust_shift fs") auto
    ultimately show ?thesis using clust_mask_bits [OF m, of "?ds + 1"] unfolding uds1 by simp
  qed
  show ?thesis
  proof (cases "Suc j < 2 ^ clust_shift fs")
    case True
    have "unat (of_nat ?s + 1 :: u32) = Suc ?s" using s32 us by (subst unat_add_id) (simp_all del: of_nat_add)
    then have "ucast (of_nat ?s + 1 :: u32) = (of_nat (Suc ?s) :: u64)"
      using s32 by (intro of_natI) (simp add: unat_ucast)
    then show ?thesis using True ge same by (simp add: get_next_sector_def Let_def del: of_nat_add of_nat_Suc)
  next
    case False
    let ?t = "tentry gc fs (cs ! i)"
    have dv: "unat (drop_bit (clust_shift fs) ?ds) = cs ! i - 2" using uds j by (simp add: unat_drop_bit)
    have c2: "ucast (drop_bit (clust_shift fs) ?ds) + (2 :: u32) = of_nat (cs ! i)"
    proof -
      have "unat (ucast (drop_bit (clust_shift fs) ?ds) :: u32) = cs ! i - 2" using dv cf(6) by (simp add: unat_ucast)
      then have "(ucast (drop_bit (clust_shift fs) ?ds) :: u32) = of_nat (cs ! i - 2)" by (rule of_natI)
      then show ?thesis using cf(1) by (metis le_add_diff_inverse2 of_nat_add of_nat_numeral)
    qed
    show ?thesis
    proof (cases "2 \<le> ?t \<and> ?t < unat (clusters fs) + 2")
      case True
      have f1: "file_clusters gc fs [?t]" using True m power_strict_increasing [of "clust_shift fs" 32 "2 :: nat"]
        by (auto simp: file_clusters_def fat_mounted_def)
      note cf1 = cluster_facts [OF f1, of 0, simplified]
      have "unat (push_bit (clust_shift fs) (of_nat ?t - 2 :: u32)) = (?t - 2) * 2 ^ clust_shift fs"
        using cf1 by (subst unat_push_bit) (auto simp: cluster_sector_def)
      then have "unat (ucast (push_bit (clust_shift fs) (of_nat ?t - 2 :: u32)) + sb_data fs) = cluster_sector fs ?t"
        using cf1(8) by (subst unat_add_id) (auto simp: unat_ucast cluster_sector_def)
      then have "unat (ucast (ucast (ucast (push_bit (clust_shift fs) (of_nat ?t - 2 :: u32)) + sb_data fs) :: u32) :: u64) = cluster_sector fs ?t"
        using cf1(8) by (simp add: unat_ucast)
      from of_natI [OF this] show ?thesis using True \<open>\<not> Suc j < _\<close> ge same cf(5) c2 cf1(4)
        by (simp add: get_next_sector_def Let_def del: of_nat_add)
    next
      case F: False
      have t28: "?t < 2 ^ 28" by (rule fat_entry_less28) (rule tbytes_less)
      have cl: "unat (clusters fs) \<le> 0xffffff4" using m fat_limit_le [of "sb_type fs"] by (auto simp: fat_mounted_def)
      have "clusters fs \<le> of_nat ?t - 2" using F t28 cl by (rule cluster_out)
      then show ?thesis using F \<open>\<not> Suc j < _\<close> ge same cf(5) c2 by (auto simp: get_next_sector_def Let_def simp del: of_nat_add)
    qed
  qed
qed

lemma dir_chain_segment:
  assumes "\<And>i. i < length xs \<Longrightarrow> xs ! i \<noteq> 0 \<and>
      get_next_sector gc fs (ucast (xs ! i)) = Some (if Suc i < length xs then xs ! Suc i else s')"
    and "xs \<noteq> []" and "dir_chain gc fs s' ys"
  shows "dir_chain gc fs (hd xs) (xs @ ys)"
  using assms(1,2)
proof (induction xs)
  case (Cons x xs)
  have 0: "x \<noteq> 0" "get_next_sector gc fs (ucast x) = Some (if xs \<noteq> [] then hd xs else s')"
    using Cons.prems(1) [of 0] by (auto simp: hd_conv_nth)
  show ?case
  proof (cases "xs = []")
    case False
    have "dir_chain gc fs (hd xs) (xs @ ys)" using Cons.IH Cons.prems(1) [of "Suc i" for i] False by auto
    then show ?thesis using 0 False by simp
  qed (use 0 assms(3) in simp)
qed simp

lemma dir_chain_clusters:
  assumes "file_clusters gc fs cs" and "ends_chain gc fs cs" and d: "0 < sb_data fs"
  shows "dir_chain gc fs (of_nat (cluster_sector fs (hd cs))) (cluster_sectors fs cs)"
  using assms(1,2)
proof (induction cs)
  case Nil
  then show ?case by (simp add: file_clusters_def)
next
  case (Cons c cs)
  let ?xs = "map (\<lambda>j. of_nat (cluster_sector fs c + j)) [0..<2 ^ clust_shift fs] :: u64 list"
  let ?n = "if cs = [] then 0 else of_nat (cluster_sector fs (hd cs)) :: u64"
  have ne: "?xs \<noteq> []" "hd ?xs = of_nat (cluster_sector fs c)" by (simp_all add: hd_map)
  have step: "?xs ! i \<noteq> 0 \<and> get_next_sector gc fs (ucast (?xs ! i)) = Some (if Suc i < length ?xs then ?xs ! Suc i else ?n)"
    if i: "i < length ?xs" for i
  proof -
    note cf = cluster_facts [OF Cons.prems(1), of 0, simplified]
    have lt: "cluster_sector fs c + i < 2 ^ 32" using cf(8) i by simp
    have "unat (?xs ! i) = cluster_sector fs c + i" using i lt by (simp add: unat_of_nat_id del: of_nat_add)
    moreover have "0 < cluster_sector fs c" using d by (simp add: cluster_sector_def word_less_nat_alt)
    ultimately have nz: "?xs ! i \<noteq> 0" by (metis add_gr_0 less_irrefl unsigned_0)
    have u: "(ucast (?xs ! i) :: u32) = of_nat (cluster_sector fs c + i)"
      using i lt by (intro of_natI) (simp add: unat_ucast unat_of_nat_id del: of_nat_add)
    have t: "cs \<noteq> [] \<Longrightarrow> tentry gc fs c = hd cs \<and> 2 \<le> hd cs \<and> hd cs < unat (clusters fs) + 2"
      using Cons.prems(1) by (auto simp: file_clusters_def hd_conv_nth dest: spec [of _ 0])
    have "get_next_sector gc fs (of_nat (cluster_sector fs c + i)) =
      Some (if Suc i < 2 ^ clust_shift fs then of_nat (cluster_sector fs c + Suc i) else ?n)"
      using get_next_sector_cluster [OF Cons.prems(1) _ _ d, of 0 i] i t Cons.prems(2)
      by (cases "cs = []") (auto simp: ends_chain_def Let_def simp del: of_nat_add)
    then show ?thesis using nz i unfolding u by (simp del: of_nat_add)
  qed
  have rest: "dir_chain gc fs ?n (cluster_sectors fs cs)"
  proof (cases "cs = []")
    case False
    have "file_clusters gc fs cs" using Cons.prems(1) False by (auto simp: file_clusters_def)
    moreover have "ends_chain gc fs cs" using Cons.prems(2) False by (simp add: ends_chain_def)
    ultimately show ?thesis using Cons.IH False by simp
  qed (simp add: cluster_sectors_def)
  have "cluster_sectors fs (c # cs) = ?xs @ cluster_sectors fs cs" by (simp add: cluster_sectors_def)
  then show ?case using dir_chain_segment [of ?xs gc fs ?n, OF step ne(1) rest] ne(2) by simp
qed

text \<open>The fixed root directory of FAT12 and FAT16 fills the sectors before the data area.\<close>

lemma dir_chain_root:
  assumes "0 < r" and "r < unat (sb_data fs)" and "unat (sb_data fs) < 2 ^ 32"
  shows "dir_chain gc fs (of_nat r) (map of_nat [r..<unat (sb_data fs)])"
proof -
  let ?xs = "map of_nat [r..<unat (sb_data fs)] :: u64 list"
  have "?xs ! i \<noteq> 0 \<and> get_next_sector gc fs (ucast (?xs ! i)) = Some (if Suc i < length ?xs then ?xs ! Suc i else 0)"
    if i: "i < length ?xs" for i
  proof -
    have lt: "r + i < unat (sb_data fs)" using i by simp
    have u: "unat (of_nat (r + i) :: u64) = r + i" "unat (of_nat (r + i) :: u32) = r + i"
      using lt assms(3) by (auto intro!: unat_of_nat_id simp del: of_nat_add)
    have uc: "(ucast (of_nat (r + i) :: u64) :: u32) = of_nat (r + i)" "(ucast (of_nat (r + i) :: u32) :: u64) = of_nat (r + i)"
      using u lt assms(3) by (auto intro!: of_natI simp: unat_ucast simp del: of_nat_add)
    have "unat (of_nat (r + i) + 1 :: u32) = Suc (r + i)"
      using u lt assms(3) by (subst unat_add_id) (simp_all del: of_nat_add)
    then have u1: "(ucast (of_nat (r + i) + 1 :: u32) :: u64) = of_nat (Suc (r + i))" "unat (of_nat (Suc (r + i)) :: u64) = Suc (r + i)"
      using lt assms(3) by (auto intro!: of_natI unat_of_nat_id simp: unat_ucast simp del: of_nat_add of_nat_Suc)
    have "get_next_sector gc fs (of_nat (r + i)) = Some (if Suc (r + i) < unat (sb_data fs) then of_nat (Suc (r + i)) else 0)"
      using lt u u1 uc by (simp add: get_next_sector_def Let_def word_less_nat_alt word_le_nat_alt del: of_nat_add of_nat_Suc)
    moreover have "of_nat (r + i) \<noteq> (0 :: u64)" using u assms(1) by (metis add_gr_0 less_irrefl unsigned_0)
    ultimately show ?thesis using lt uc i by (auto simp: less_diff_conv add.commute simp del: of_nat_add of_nat_Suc)
  qed
  moreover have "?xs \<noteq> []" "hd ?xs = of_nat r" using assms(2) by (auto simp: hd_map upt_rec)
  ultimately show ?thesis using dir_chain_segment [of ?xs gc fs 0 "[]"] by simp
qed

subsection \<open>Properties\<close>

text \<open>C9. For a name that is not empty and a directory whose chain of sectors ends, \<open>vfat_find_entry\<close>
  terminates without an access out of bounds. An entry it finds is not the end of the directory or behind it, and
  has the 8.3 name or, by the long name entries before it, the long name; and it finds every such
  entry, the first one first, that does not follow the remains of another long name.\<close>

theorem vfat_find_entry_correct:
  assumes "fat_mounted gc fs" and "nul_maps cp" and "is_cstr b s" and "cstr b s \<noteq> []" and "length (cstr b s) \<le> 260"
    and "dir_chain gc fs (start (pvt dir)) ss"
  shows "\<exists>m r. mangle_dos_name cp (replicate 12 0) b s = Some m \<and> vfat_find_entry cp gc fs b s dir = Some r \<and>
    (let es = dir_entries gc fs ss; name = cstr b s; n = (length name + 12) div 13
     in (\<forall>inode. r = Some inode \<longrightarrow> (\<exists>k. live es k \<and> inode = found_inode fs (es ! k) \<and>
           (short_named m es k \<or> long_named cp name n es k))) \<and>
        (\<forall>k. live es k \<and> (clean_before es k \<and> short_named m es k \<or> clean_before es (k - n) \<and> long_named cp name n es k) \<longrightarrow>
           (\<exists>j \<le> k. r = Some (found_inode fs (es ! j)))))"
proof -
  obtain m where m: "mangle_dos_name cp (replicate 12 0) b s = Some m" using mangle_dos_name_ok [OF assms(3)] by blast
  let ?es = "dir_entries gc fs ss" and ?name = "cstr b s" and ?n = "(length (cstr b s) + 12) div 13"
  let ?h = "\<lambda>k. lfn_hit m ?n (lfn_before cp ?name ?n ?es k) (?es ! k)"
  have n: "1 \<le> ?n" using strlen_slots [OF assms(4,5)] by simp
  define r where "r = (case find_list cp ?name m ?n [] ?es of Inl r \<Rightarrow> r | Inr _ \<Rightarrow> None)"
  have e: "vfat_find_entry cp gc fs b s dir = Some (map_option (found_inode fs) r)"
    unfolding r_def by (rule find_entry_list [OF assms m])
  have r: "case r of None \<Rightarrow> \<forall>k. live ?es k \<longrightarrow> \<not> ?h k | Some d \<Rightarrow> \<exists>k. live ?es k \<and> d = ?es ! k \<and> ?h k \<and> (\<forall>j < k. \<not> ?h j)"
    using find_list_hits [where cp = cp and name = ?name and m = m and n = ?n and g = "[]" and es = ?es] unfolding r_def by (auto split: sum.splits option.splits)
  have len: "live ?es k \<Longrightarrow> k < length ?es" for k by (simp add: live_def)
  have 1: "\<exists>k. live ?es k \<and> inode = found_inode fs (?es ! k) \<and> (short_named m ?es k \<or> long_named cp ?name ?n ?es k)"
    if "map_option (found_inode fs) r = Some inode" for inode
    using that r hit_named [OF len n, where m = m and cp = cp and name = ?name] by (auto split: option.splits)
  have 2: "\<exists>j \<le> k. map_option (found_inode fs) r = Some (found_inode fs (?es ! j))"
    if lv: "live ?es k" and nm: "clean_before ?es k \<and> short_named m ?es k \<or> clean_before ?es (k - ?n) \<and> long_named cp ?name ?n ?es k" for k
  proof -
    have "?h k" using named_hit [OF len n nm] lv by blast
    then obtain j where "r = Some (?es ! j)" "\<forall>i < j. \<not> ?h i" using r lv by (auto split: option.splits)
    then show ?thesis using \<open>?h k\<close> by (metis not_less option.simps(9))
  qed
  show ?thesis unfolding Let_def using m e 1 2 by blast
qed

text \<open>
  A volume with sectors of 128 bytes whose root directory is sector 5: the file \<open>hi\<close> with a long and an
  8.3 name, an entry with the number \<open>0x40\<close>, and the end.
\<close>

definition demo_cp :: codepage where
  "demo_cp = \<lparr>upper = (\<lambda>c. if 97 \<le> c \<and> c \<le> 122 then c - 32 else c), lower = (\<lambda>c. if 65 \<le> c \<and> c \<le> 90 then c + 32 else c),
     uni0 = ucast, uni1 = ucast\<rparr>"

definition demo_long :: buf where
  "demo_long = [0x41, 104, 0, 105, 0, 0, 0, 255, 255, 255, 255, 0x0f, 0, 0xce] @ replicate 12 255 @ [0, 0, 255, 255, 255, 255]"

definition demo_short :: buf where
  "demo_short = [72, 73] @ replicate 9 32 @ [0x20] @ replicate 14 0 @ [3, 0, 7, 0, 0, 0]"

definition demo_bad :: buf where
  "demo_bad = [0x40] @ replicate 10 0 @ [0x0f] @ replicate 20 0"

definition demo_disk :: "u64 \<Rightarrow> buf" where
  "demo_disk n = (if n = 5 then demo_long @ demo_short @ demo_bad @ replicate 32 0 else replicate 128 0)"

definition demo_fs :: fat_sb_info where
  "demo_fs = \<lparr>sector_shift = 7, sb_fat = 1, sb_root = 5, sb_data = 6, clusters = 4, root_cluster = 0, root_size = 1,
     clust_shift = 0, clust_byte_shift = 7, clust_mask = 0, clust_size = 128, sb_type = FAT12, uuid = 0\<rparr>"

lemma demo_fs_mounted: "fat_mounted demo_disk demo_fs"
  by (simp add: fat_mounted_def demo_disk_def demo_fs_def demo_long_def demo_short_def demo_bad_def)

lemma demo_cp_nul: "nul_maps demo_cp"
  by (simp add: nul_maps_def demo_cp_def)

lemma demo_dir_chain: "dir_chain demo_disk demo_fs 5 [5]"
  by code_simp

lemma demo_entries: "dir_entries demo_disk demo_fs [5] = [demo_long, demo_short, demo_bad, replicate 32 0]"
  by code_simp

lemma demo_lfn: "lfn_run 1 [demo_long]"
  by code_simp

theorem vfat_find_entry_correct_witness:
  "\<exists>j \<le> 1. vfat_find_entry demo_cp demo_disk demo_fs [104, 105, 0] 0 (vfat_iget_root demo_fs) =
     Some (Some (found_inode demo_fs ([demo_long, demo_short] ! j)))"
proof -
  have b: "is_cstr [104, 105, 0] 0" "cstr [104, 105, 0] 0 = [104, 105]" by (simp_all add: is_cstr_def cstr_def)
  have ch: "dir_chain demo_disk demo_fs (start (pvt (vfat_iget_root demo_fs))) [5]"
    using demo_dir_chain by (simp add: vfat_iget_root_def demo_fs_def)
  have lv: "live (dir_entries demo_disk demo_fs [5]) 1"
    unfolding demo_entries by (auto simp: live_def demo_long_def demo_short_def le_Suc_eq)
  have "longname_matches demo_cp [104, 105] (lfn_chars [demo_long])" "get_checksum (de_name demo_short) = le_checksum demo_long"
    "plain_entry demo_short" by code_simp+
  then have nm: "long_named demo_cp [104, 105] 1 (dir_entries demo_disk demo_fs [5]) 1"
    using demo_lfn by (simp add: long_named_def demo_entries)
  have cl: "clean_before (dir_entries demo_disk demo_fs [5]) 0" by (simp add: clean_before_def)
  have n: "[104, 105 :: byte] \<noteq> []" "length [104, 105 :: byte] \<le> 260" "(length [104, 105 :: byte] + 12) div 13 = 1" by simp_all
  from vfat_find_entry_correct [OF demo_fs_mounted demo_cp_nul b(1) _ _ ch, unfolded b(2), OF n(1,2)]
  have "\<exists>j \<le> 1. vfat_find_entry demo_cp demo_disk demo_fs [104, 105, 0] 0 (vfat_iget_root demo_fs) =
     Some (Some (found_inode demo_fs (dir_entries demo_disk demo_fs [5] ! j)))"
    unfolding Let_def n(3) using lv nm cl by (metis diff_self_eq_0)
  then obtain j where "j \<le> 1" "vfat_find_entry demo_cp demo_disk demo_fs [104, 105, 0] 0 (vfat_iget_root demo_fs) =
     Some (Some (found_inode demo_fs (dir_entries demo_disk demo_fs [5] ! j)))"
    by blast
  then show ?thesis by (auto simp: demo_entries le_Suc_eq)
qed

end
