(* ===== verification/FatReaddir.thy ===== *)
theory FatReaddir
  imports FatDir
begin

section \<open>The FAT driver of the core: reading directories\<close>

text \<open>
  \<open>vfat_readdir\<close> of \<open>core/fs/fat/fat.c\<close> with the conversion of long names. The lemmas show that the
  conversion with its static cache agrees with a search of the tables, and what a call returns for
  a well-formed directory; and that a crafted entry makes it write out of bounds.
\<close>

subsection \<open>Conversion of long names to the codepage\<close>

text \<open>
  The conversion of a long name to the codepage keeps a static cache, indexed by the low byte of the
  code point. The search runs over both tables, which are adjacent.
\<close>

type_synonym unicache = "byte \<Rightarrow> u16 \<times> byte"

definition unicache0 :: unicache where "unicache0 = (\<lambda>_. (0, 0))"

definition uni :: "codepage \<Rightarrow> nat \<Rightarrow> u16" where
  "uni cp c = (if c < 256 then uni0 cp (of_nat c) else uni1 cp (of_nat (c - 256)))"

definition uni_find :: "codepage \<Rightarrow> u16 \<Rightarrow> byte option" where
  "uni_find cp c16 = map_option of_nat (List.find (\<lambda>c. uni cp c = c16) [0..<512])"

definition unicache_get :: "codepage \<Rightarrow> unicache \<Rightarrow> u16 \<Rightarrow> (unicache \<times> byte) option" where
  "unicache_get cp uc c16 =
    (let (u, c) = uc (ucast c16)
     in if u = c16 then Some (uc, c)
        else map_option (\<lambda>c. (uc(ucast c16 := (c16, c)), c)) (uni_find cp c16))"

text \<open>The result is the cache, the buffer and the return value; \<open>None\<close> an access out of bounds.\<close>

fun cvt_loop :: "codepage \<Rightarrow> unicache \<Rightarrow> buf \<Rightarrow> nat \<Rightarrow> u16 list \<Rightarrow> (unicache \<times> buf \<times> int) option" where
  "cvt_loop cp uc name p [] = None"
| "cvt_loop cp uc name p (c16 # ln) =
    (case unicache_get cp uc c16 of
       None \<Rightarrow> Some (uc, name, - 1)
     | Some (uc, c) \<Rightarrow> do {
         name \<leftarrow> wr name p c;
         if c16 \<noteq> 0 then cvt_loop cp uc name (p + 1) ln
         else Some (uc, name, int p) })"

definition vfat_cvt_longname :: "codepage \<Rightarrow> unicache \<Rightarrow> buf \<Rightarrow> u16 list \<Rightarrow> (unicache \<times> buf \<times> int) option" where
  "vfat_cvt_longname cp uc entry_name ln = cvt_loop cp uc entry_name 0 ln"

subsection \<open>Reading a directory\<close>

record dirent =
  d_ino :: u32
  d_off :: u32
  d_reclen :: u16
  d_type :: dirent_type
  d_name :: buf

record read_state =
  rd_next :: byte
  rd_csum :: byte
  rd_long_name :: "u16 list"
  filename :: buf
  name_len :: int
  long_entry :: bool
  unicache :: unicache

datatype read_step = Read_end | Read_invalid read_state | Read_next read_state | Read_got read_state

definition read_chunk_de :: "codepage \<Rightarrow> byte \<Rightarrow> read_state \<Rightarrow> buf \<Rightarrow> read_step option" where
  "read_chunk_de cp i st d = do {
     let i = i - 1;
     ln \<leftarrow> copy_long_chunk (rd_long_name st) (unat i * 13) d;
     let st = st\<lparr>rd_next := i, rd_long_name := ln\<rparr>;
     if i = 0 then do {
       (uc, fname, len) \<leftarrow> vfat_cvt_longname cp (unicache st) (filename st) ln;
       Some (Read_next (st\<lparr>unicache := uc, filename := fname, name_len := len,
                           long_entry := (if 0 < len \<and> len < 256 then True else long_entry st)\<rparr>)) }
     else Some (Read_next st) }"

definition read_long :: "codepage \<Rightarrow> read_state \<Rightarrow> buf \<Rightarrow> read_step option" where
  "read_long cp st d =
    (let i = le_id d
     in if i AND 0x40 \<noteq> 0 then
          let st = st\<lparr>rd_csum := le_checksum d\<rparr>;
              i = i AND 0x3f
          in if i \<ge> 20 then Some (Read_invalid st)
             else read_chunk_de cp i (st\<lparr>rd_long_name := replicate 261 0\<rparr>) d
        else if le_checksum d \<noteq> rd_csum st \<or> i \<noteq> rd_next st then Some (Read_invalid st)
        else read_chunk_de cp i st d)"

text \<open>A short name, in lower case where the entry says so.\<close>

definition short_part :: "codepage \<Rightarrow> bool \<Rightarrow> buf \<Rightarrow> buf" where
  "short_part cp lc cs = map (\<lambda>c. if lc then lower cp c else c) (takeWhile (\<lambda>c. c \<noteq> 32) cs)"

definition short_name :: "codepage \<Rightarrow> buf \<Rightarrow> buf" where
  "short_name cp d =
    short_part cp (de_lcase d AND LCASE_BASE \<noteq> 0) (take 8 (de_name d)) @
    (if de_name d ! 8 \<noteq> 32 then 46 # short_part cp (de_lcase d AND LCASE_EXT \<noteq> 0) (drop 8 (de_name d)) else [])"

definition read_short :: "codepage \<Rightarrow> read_state \<Rightarrow> buf \<Rightarrow> read_step option" where
  "read_short cp st d =
    (if de_attr d AND 0x08 \<noteq> 0 then Some (Read_invalid st)
     else if long_entry st \<and> get_checksum (de_name d) = rd_csum st then Some (Read_got st)
     else do {
       let nm = short_name cp d;
       fname \<leftarrow> blit (filename st) 0 (nm @ [0]);
       Some (Read_got (st\<lparr>filename := fname, name_len := int (length nm)\<rparr>)) })"

definition read_de :: "codepage \<Rightarrow> read_state \<Rightarrow> buf \<Rightarrow> read_step option" where
  "read_de cp st d =
    (if de_name d ! 0 = 0 then Some Read_end
     else if de_name d ! 0 = 0xe5 then Some (Read_invalid st)
     else if de_attr d = 0x0f then read_long cp st d
     else read_short cp st d)"

text \<open>
  The entries of a sector from \<open>pos\<close> on, with the offset of the file: \<open>Inl\<close> leaves the loop, at the
  end of the directory or with the entry.
\<close>

fun read_sector ::
  "codepage \<Rightarrow> nat \<Rightarrow> buf \<Rightarrow> nat \<Rightarrow> read_state \<Rightarrow> u32 \<Rightarrow> ((buf option + unit) \<times> read_state \<times> u32) option" where
  "read_sector cp 0 data pos st off = Some (Inr (), st, off)"
| "read_sector cp (Suc n) data pos st off = do {
     d \<leftarrow> slice data pos 32;
     r \<leftarrow> read_de cp st d;
     case r of
       Read_end \<Rightarrow> Some (Inl None, st, off)
     | Read_got st \<Rightarrow> Some (Inl (Some d), st, off)
     | Read_invalid st \<Rightarrow> read_sector cp n data (pos + 32) (st\<lparr>long_entry := False\<rparr>) (off + 32)
     | Read_next st \<Rightarrow> read_sector cp n data (pos + 32) st (off + 32) }"

partial_function (option) read_dir_loop ::
  "codepage \<Rightarrow> (u64 \<Rightarrow> buf) \<Rightarrow> fat_sb_info \<Rightarrow> nat \<Rightarrow> buf \<Rightarrow> nat \<Rightarrow> read_state \<Rightarrow> fat_pvt_inode fs_file \<Rightarrow>
   (buf option \<times> read_state \<times> fat_pvt_inode fs_file) option" where
  "read_dir_loop cp gc fs entries_left data pos st f =
    Option.bind (read_sector cp entries_left data pos st (foffset f)) (\<lambda>(r, st, off).
      let f = f\<lparr>foffset := off\<rparr>
      in case r of
           Inl d \<Rightarrow> Some (d, st, f)
         | Inr _ \<Rightarrow>
             Option.bind (next_sector gc fs f) (\<lambda>(sector, f).
               if sector = 0 then Some (None, st, f)
               else read_dir_loop cp gc fs (2 ^ (sector_shift fs - 5)) (gc sector) 0 st f))"

text \<open>
  The result is \<open>None\<close> inside for the return value \<open>-1\<close>, with the file and the static cache. The
  arrays \<open>long_name\<close> and \<open>filename\<close> are not initialised, and not read before they are written.
\<close>

definition vfat_readdir ::
  "codepage \<Rightarrow> (u64 \<Rightarrow> buf) \<Rightarrow> fat_sb_info \<Rightarrow> unicache \<Rightarrow> fat_pvt_inode fs_file \<Rightarrow> dirent \<Rightarrow>
   (dirent option \<times> unicache \<times> fat_pvt_inode fs_file) option" where
  "vfat_readdir cp gc fs uc f de = do {
     (sector, f) \<leftarrow> get_the_right_sector gc fs f;
     let sec_off = unat (foffset f AND mask (sector_shift fs));
     (d, st, f) \<leftarrow> read_dir_loop cp gc fs ((2 ^ sector_shift fs - sec_off) div 32) (gc sector) sec_off
       \<lparr>rd_next = 0xff, rd_csum = 0xff, rd_long_name = replicate 261 0, filename = replicate 261 0,
        name_len = 0, long_entry = False, unicache = uc\<rparr> f;
     case d of
       None \<Rightarrow> Some (None, unicache st, f)
     | Some d \<Rightarrow> do {
         let len = nat (name_len st + 1);
         nm \<leftarrow> slice (filename st) 0 len;
         nm \<leftarrow> blit (d_name de) 0 nm;
         Some (Some \<lparr>d_ino = ucast (de_cluster_low d) OR push_bit 16 (ucast (de_cluster_high d)),
                     d_off = foffset f, d_reclen = of_nat (12 + len), d_type = get_inode_mode (de_attr d), d_name = nm\<rparr>,
               unicache st, f\<lparr>foffset := foffset f + 32\<rparr>) } }"

subsection \<open>The conversion without the cache\<close>

definition cvt_ref :: "codepage \<Rightarrow> u16 list \<Rightarrow> buf option" where
  "cvt_ref cp ln = those (map (uni_find cp) (takeWhile (\<lambda>u. u \<noteq> 0) ln))"

definition unicache_ok :: "codepage \<Rightarrow> unicache \<Rightarrow> bool" where
  "unicache_ok cp uc \<longleftrightarrow> (\<forall>i. uni_find cp (fst (uc i)) = Some (snd (uc i)))"

lemma uni_find_0: "nul_maps cp \<Longrightarrow> uni_find cp 0 = Some 0"
proof -
  assume "nul_maps cp"
  moreover have "[0..<512] = 0 # [Suc 0..<512]" by (rule upt_conv_Cons) simp
  ultimately show ?thesis by (simp add: uni_find_def uni_def nul_maps_def del: upt.simps upt_Suc)
qed

lemma unicache0_ok: "nul_maps cp \<Longrightarrow> unicache_ok cp unicache0"
  by (simp add: unicache_ok_def unicache0_def uni_find_0)

lemma unicache_get_ok:
  assumes "unicache_ok cp uc"
  shows "map_option snd (unicache_get cp uc c16) = uni_find cp c16"
    and "unicache_get cp uc c16 = Some (uc', c) \<Longrightarrow> unicache_ok cp uc'"
proof -
  obtain u c where u: "uc (ucast c16) = (u, c)" by fastforce
  then have "uni_find cp u = Some c" using assms by (metis fst_conv snd_conv unicache_ok_def)
  then show "map_option snd (unicache_get cp uc c16) = uni_find cp c16"
    using u by (auto simp: unicache_get_def option.map_comp comp_def option.map_ident)
  show "unicache_get cp uc c16 = Some (uc', c) \<Longrightarrow> unicache_ok cp uc'"  for uc' c
    using assms u by (auto simp: unicache_get_def unicache_ok_def split: if_splits)
qed

lemma cvt_loop_ok:
  assumes "nul_maps cp"
  shows "unicache_ok cp uc \<Longrightarrow> 0 \<in> set ln \<Longrightarrow> p + length ln \<le> length name \<Longrightarrow>
    \<exists>uc' name' r. cvt_loop cp uc name p ln = Some (uc', name', r) \<and> unicache_ok cp uc' \<and> length name' = length name \<and>
      take p name' = take p name \<and>
      (case cvt_ref cp ln of None \<Rightarrow> r = - 1
       | Some cs \<Rightarrow> r = int (p + length cs) \<and> take (p + length cs + 1) name' = take p name @ cs @ [0])"
proof (induction ln arbitrary: uc name p)
  case (Cons c16 ln)
  note look = unicache_get_ok [OF Cons.prems(1), of c16]
  let ?l = "unicache_get cp uc c16"
  show ?case
  proof (cases "uni_find cp c16")
    case None
    then have "?l = None" using look(1) by simp
    moreover have "c16 \<noteq> 0" using None uni_find_0 [OF assms] by auto
    ultimately show ?thesis using None Cons.prems by (simp add: cvt_ref_def)
  next
    case (Some c)
    then obtain uc1 where l: "?l = Some (uc1, c)" using look(1) by (cases ?l) auto
    have ok: "unicache_ok cp uc1" using look(2) l by blast
    have w: "wr name p c = Some (name[p := c])" using Cons.prems(3) by (simp add: wr_def)
    have tk: "take (Suc p) (name[p := c]) = take p name @ [c]" using Cons.prems(3)
      by (simp add: take_Suc_conv_app_nth)
    show ?thesis
    proof (cases "c16 = 0")
      case True
      then have "c = 0" using Some uni_find_0 [OF assms] by simp
      then show ?thesis using True l ok w tk by (simp add: cvt_ref_def)
    next
      case False
      then have "0 \<in> set ln" "Suc p + length ln \<le> length (name[p := c])" using Cons.prems by auto
      from Cons.IH [OF ok this] obtain uc' name' r where r: "cvt_loop cp uc1 (name[p := c]) (Suc p) ln = Some (uc', name', r)"
        "unicache_ok cp uc'" "length name' = length name" "take (Suc p) name' = take (Suc p) (name[p := c])"
        "case cvt_ref cp ln of None \<Rightarrow> r = - 1
         | Some cs \<Rightarrow> r = int (Suc p + length cs) \<and> take (Suc p + length cs + 1) name' = take (Suc p) (name[p := c]) @ cs @ [0]"
        by auto
      have t0: "take p name' = take p name" using arg_cong [OF r(4), of "take p"] tk Cons.prems(3) by (simp add: min_def)
      have e: "cvt_ref cp (c16 # ln) = map_option ((#) c) (cvt_ref cp ln)" using False Some by (simp add: cvt_ref_def)
      show ?thesis using l w r t0 False unfolding tk e by (cases "cvt_ref cp ln") auto
    qed
  qed
qed simp

subsection \<open>Enumerating a directory\<close>

fun read_list :: "codepage \<Rightarrow> buf list \<Rightarrow> read_state \<Rightarrow> u32 \<Rightarrow> ((buf option + unit) \<times> read_state \<times> u32) option" where
  "read_list cp [] st off = Some (Inr (), st, off)"
| "read_list cp (d # ds) st off = do {
     r \<leftarrow> read_de cp st d;
     case r of
       Read_end \<Rightarrow> Some (Inl None, st, off)
     | Read_got st \<Rightarrow> Some (Inl (Some d), st, off)
     | Read_invalid st \<Rightarrow> read_list cp ds (st\<lparr>long_entry := False\<rparr>) (off + 32)
     | Read_next st \<Rightarrow> read_list cp ds st (off + 32) }"

lemma read_sector_list:
  "pos + 32 * k \<le> length data \<Longrightarrow> read_sector cp k data pos st off = read_list cp (sector_des k data pos) st off"
proof (induction k arbitrary: pos st off)
  case 0
  then show ?case by (simp add: sector_des_def)
next
  case (Suc k)
  have "slice data pos 32 = Some (take 32 (drop pos data))" using Suc.prems by (simp add: slice_def)
  then show ?case using Suc by (auto simp: sector_des_Suc split: bind_splits read_step.splits)
qed

lemma read_list_append:
  "read_list cp (xs @ ys) st off =
    Option.bind (read_list cp xs st off) (\<lambda>(r, st, off). case r of Inl x \<Rightarrow> Some (Inl x, st, off) | Inr _ \<Rightarrow> read_list cp ys st off)"
  by (induction xs arbitrary: st off) (auto split: bind_splits read_step.splits)

lemma dir_chain_nth:
  "dir_chain gc fs s ss \<Longrightarrow> i < length ss \<Longrightarrow>
   ss ! i \<noteq> 0 \<and> get_next_sector gc fs (ucast (ss ! i)) = Some (if Suc i < length ss then ss ! Suc i else 0)"
proof (induction ss arbitrary: s i)
  case (Cons x ss)
  then obtain s' where s': "x \<noteq> 0" "get_next_sector gc fs (ucast x) = Some s'" "dir_chain gc fs s' ss"
    by (auto split: option.splits)
  show ?case
  proof (cases i)
    case 0
    then show ?thesis using s' by (cases ss) auto
  next
    case (Suc l)
    then show ?thesis using Cons.IH [OF s'(3), of l] Cons.prems by simp
  qed
qed simp

text \<open>The private data of an open directory remembers one of its sectors.\<close>

definition dir_at :: "u64 list \<Rightarrow> nat \<Rightarrow> fat_pvt_inode fs_file \<Rightarrow> bool" where
  "dir_at ss q f \<longleftrightarrow> q \<le> length ss \<and> offset (pvt (finode f)) = of_nat q \<and>
     here (pvt (finode f)) = (if q < length ss then ss ! q else 0)"

definition dir_file :: "(u64 \<Rightarrow> buf) \<Rightarrow> fat_sb_info \<Rightarrow> u64 list \<Rightarrow> fat_pvt_inode fs_file \<Rightarrow> bool" where
  "dir_file gc fs ss f \<longleftrightarrow> fat_mounted gc fs \<and> length ss * 2 ^ sector_shift fs < 2 ^ 32 \<and>
     dir_chain gc fs (start (pvt (finode f))) ss \<and> (\<exists>q. dir_at ss q f)"

lemma next_sector_at:
  assumes "dir_chain gc fs (start (pvt (finode f))) ss" and "dir_at ss q f" and "q < length ss"
  shows "\<exists>f'. next_sector gc fs f = Some (if Suc q < length ss then ss ! Suc q else 0, f') \<and>
    dir_at ss (Suc q) f' \<and> foffset f' = foffset f \<and> start (pvt (finode f')) = start (pvt (finode f))"
  using dir_chain_nth [OF assms(1,3)] assms(2,3) by (auto simp: next_sector_def dir_at_def)

lemma read_dir_loop_list:
  assumes mnt: "fat_mounted gc fs"
  shows "dir_chain gc fs (start (pvt (finode f))) ss \<Longrightarrow> dir_at ss q f \<Longrightarrow> q < length ss \<Longrightarrow> pos + 32 * k \<le> length (gc (ss ! q)) \<Longrightarrow>
    read_list cp (sector_des k (gc (ss ! q)) pos @ dir_entries gc fs (drop (Suc q) ss)) st (foffset f) = Some (r, st', off) \<Longrightarrow>
    \<exists>f' q'. read_dir_loop cp gc fs k (gc (ss ! q)) pos st f = Some (case r of Inl d \<Rightarrow> d | Inr _ \<Rightarrow> None, st', f') \<and>
      foffset f' = off \<and> dir_at ss q' f' \<and> start (pvt (finode f')) = start (pvt (finode f))"
proof (induction "length ss - q" arbitrary: q f k pos st rule: less_induct)
  case less
  let ?e = "read_list cp (sector_des k (gc (ss ! q)) pos) st (foffset f)"
  have rs: "read_sector cp k (gc (ss ! q)) pos st (foffset f) = ?e" by (rule read_sector_list [OF less.prems(4)])
  obtain r1 st1 off1 where e: "?e = Some (r1, st1, off1)"
    using less.prems(5) by (cases ?e) (auto simp: read_list_append)
  show ?case
  proof (cases r1)
    case (Inl d)
    then show ?thesis using less.prems e rs
      by (subst read_dir_loop.simps) (auto simp: read_list_append dir_at_def)
  next
    case (Inr u)
    let ?f = "f\<lparr>foffset := off1\<rparr>"
    have rl: "read_list cp (dir_entries gc fs (drop (Suc q) ss)) st1 off1 = Some (r, st', off)"
      using less.prems(5) e Inr by (simp add: read_list_append)
    have at: "dir_at ss q ?f" "dir_chain gc fs (start (pvt (finode ?f))) ss" using less.prems by (simp_all add: dir_at_def)
    obtain f1 where f1: "next_sector gc fs ?f = Some (if Suc q < length ss then ss ! Suc q else 0, f1)"
       "dir_at ss (Suc q) f1" "foffset f1 = off1" "start (pvt (finode f1)) = start (pvt (finode f))"
      using next_sector_at [OF at(2,1) less.prems(3)] by auto
    show ?thesis
    proof (cases "Suc q < length ss")
      case True
      have nz: "ss ! Suc q \<noteq> 0" using dir_chain_nth [OF less.prems(1) True] by simp
      have "dir_entries gc fs (drop (Suc q) ss) =
        sector_des (2 ^ (sector_shift fs - 5)) (gc (ss ! Suc q)) 0 @ dir_entries gc fs (drop (Suc (Suc q)) ss)"
        using True by (simp add: Cons_nth_drop_Suc [symmetric] dir_entries_def)
      then have "read_list cp (sector_des (2 ^ (sector_shift fs - 5)) (gc (ss ! Suc q)) 0 @ dir_entries gc fs (drop (Suc (Suc q)) ss))
         st1 (foffset f1) = Some (r, st', off)" using rl f1(3) by simp
      from less.hyps [OF diff_less_mono2 [OF lessI less.prems(3)] _ f1(2) True _ this] less.prems(1) f1(4) sector_entries_length [OF mnt, of "ss ! Suc q"]
      obtain f' q' where "read_dir_loop cp gc fs (2 ^ (sector_shift fs - 5)) (gc (ss ! Suc q)) 0 st1 f1 =
          Some (case r of Inl d \<Rightarrow> d | Inr _ \<Rightarrow> None, st', f')" "foffset f' = off" "dir_at ss q' f'"
          "start (pvt (finode f')) = start (pvt (finode f1))"
        by auto
      then show ?thesis using rs e Inr f1 True nz by (subst read_dir_loop.simps) auto
    next
      case False
      then have "r = Inr ()" "st' = st1" "off = off1" using rl by (auto simp: dir_entries_def)
      then show ?thesis using rs e Inr f1 False by (subst read_dir_loop.simps) auto
    qed
  qed
qed

lemma right_sector_walk:
  assumes c: "dir_chain gc fs s ss" and sp: "sp \<le> length ss" "length ss < 2 ^ 32"
  shows "a \<le> sp \<Longrightarrow> right_sector_loop gc fs (of_nat sp) (of_nat a) ((ss @ [0]) ! a) = Some ((ss @ [0]) ! sp)"
proof (induction "sp - a" arbitrary: a)
  case 0
  then show ?case using sp by (subst right_sector_loop.simps) simp
next
  case (Suc d)
  have u: "unat (of_nat a :: u32) = a" "unat (of_nat sp :: u32) = sp" using Suc sp by (auto intro!: unat_of_nat_id)
  then have lt: "(of_nat a :: u32) < of_nat sp" using Suc by (simp add: word_less_nat_alt)
  have "of_nat a + 1 = (of_nat (Suc a) :: u32)" by simp
  moreover have a: "a < length ss" using Suc.hyps(2) sp(1) by linarith
  moreover have "get_next_sector gc fs (ucast (ss ! a)) = Some ((ss @ [0]) ! Suc a)"
    using dir_chain_nth [OF c a] a by (auto simp: nth_append not_less le_less_Suc_eq)
  ultimately show ?case using Suc.hyps(1) [of "Suc a"] Suc.hyps(2) lt Suc.prems
    by (subst right_sector_loop.simps) (simp add: nth_append del: of_nat_Suc)
qed

lemma get_the_right_sector_ok:
  assumes f: "dir_file gc fs ss f" and ne: "ss \<noteq> []" and sp: "unat (foffset f) div 2 ^ sector_shift fs \<le> length ss"
  shows "\<exists>f'. get_the_right_sector gc fs f = Some ((ss @ [0]) ! (unat (foffset f) div 2 ^ sector_shift fs), f') \<and>
    dir_at ss (unat (foffset f) div 2 ^ sector_shift fs) f' \<and> foffset f' = foffset f \<and> start (pvt (finode f')) = start (pvt (finode f))"
proof -
  let ?p = "pvt (finode f)" and ?sp = "unat (foffset f) div 2 ^ sector_shift fs"
  obtain q where q: "dir_at ss q f" using f by (auto simp: dir_file_def)
  have c: "dir_chain gc fs (start ?p) ss" using f by (simp add: dir_file_def)
  have l32: "length ss < 2 ^ 32" using f by (auto simp: dir_file_def intro: le_less_trans [rotated])
  have us: "drop_bit (sector_shift fs) (foffset f) = of_nat ?sp" by (rule of_natI) (simp add: unat_drop_bit)
  have lt: "ucast (of_nat ?sp :: u32) < (of_nat q :: u64) \<longleftrightarrow> ?sp < q"
    using sp q l32 by (simp add: word_less_nat_alt unat_ucast unat_of_nat_id dir_at_def)
  have st: "start ?p = (ss @ [0]) ! 0" using c ne by (cases ss) auto
  have uq: "(ucast (of_nat q :: u64) :: u32) = of_nat q" using q l32 by (intro of_natI) (simp add: unat_ucast unat_of_nat_id dir_at_def)
  have uu: "(ucast (of_nat ?sp :: u32) :: u64) = of_nat ?sp" using sp l32 by (intro of_natI) (simp add: unat_ucast unat_of_nat_id)
  have hq: "here ?p = (ss @ [0]) ! q" using q by (auto simp: dir_at_def nth_append)
  have "right_sector_loop gc fs (of_nat ?sp) (if ?sp < q then 0 else of_nat q) (if ?sp < q then start ?p else here ?p) = Some ((ss @ [0]) ! ?sp)"
    using right_sector_walk [OF c sp l32, of 0] right_sector_walk [OF c sp l32, of q] st hq by auto
  moreover have "(ss @ [0]) ! ?sp = (if ?sp < length ss then ss ! ?sp else 0)" using sp by (auto simp: nth_append)
  moreover have "offset ?p = of_nat q" using q by (simp add: dir_at_def)
  ultimately show ?thesis using sp lt uq uu by (auto simp: get_the_right_sector_def us dir_at_def Let_def)
qed

text \<open>Entries that are passed over, deleted ones and volume labels, and entries of files.\<close>

definition skipped :: "buf \<Rightarrow> bool" where
  "skipped d \<longleftrightarrow> d ! 0 \<noteq> 0 \<and> (d ! 0 = 0xe5 \<or> de_attr d \<noteq> 0x0f \<and> de_attr d AND 0x08 \<noteq> 0)"

definition file_entry :: "buf \<Rightarrow> bool" where
  "file_entry d \<longleftrightarrow> d ! 0 \<noteq> 0 \<and> d ! 0 \<noteq> 0xe5 \<and> plain_entry d"

text \<open>The name of an entry that follows the long name entries \<open>g\<close>.\<close>

definition entry_name :: "codepage \<Rightarrow> buf list \<Rightarrow> buf \<Rightarrow> buf" where
  "entry_name cp g d =
    (case cvt_ref cp (lfn_chars g @ [0]) of
       None \<Rightarrow> short_name cp d
     | Some cs \<Rightarrow> if cs \<noteq> [] \<and> get_checksum (de_name d) = le_checksum (g ! 0) then cs else short_name cp d)"

lemma de_name_0: "de_name d ! 0 = d ! 0"
  by (simp add: de_name_def)

lemma read_skip:
  "\<forall>d \<in> set xs. skipped d \<Longrightarrow> \<not> long_entry st \<Longrightarrow>
   read_list cp (xs @ ys) st off = read_list cp ys st (off + of_nat (32 * length xs))"
proof (induction xs arbitrary: off)
  case (Cons d xs)
  have r: "read_de cp st d = Some (Read_invalid st)"
    using Cons.prems by (auto simp: read_de_def de_name_0 skipped_def read_short_def)
  have st: "st\<lparr>long_entry := False\<rparr> = st" using Cons.prems by (cases st) simp
  have "read_list cp ((d # xs) @ ys) st off = read_list cp (xs @ ys) st (off + 32)"
    by (simp only: append_Cons read_list.simps r bind.bind_lunit read_step.case st)
  then show ?case using Cons by (simp add: algebra_simps)
qed simp

definition read_run :: "nat \<Rightarrow> buf list \<Rightarrow> read_state \<Rightarrow> bool" where
  "read_run n g st \<longleftrightarrow> (g \<noteq> [] \<longrightarrow> rd_csum st = le_checksum (g ! 0) \<and> rd_next st = of_nat (n - length g) \<and>
     rd_long_name st = replicate ((n - length g) * 13) 0 @ lfn_chars g @ replicate (261 - n * 13) 0)"

lemma lfn_id_values:
  assumes "1 \<le> n" "n \<le> 19" "j < n"
  shows "lfn_id n j \<noteq> 0 \<and> lfn_id n j \<noteq> 0xe5 \<and> \<not> 20 \<le> (of_nat n :: byte)"
proof -
  have v: "\<forall>n \<in> set [1..<20]. (of_nat n :: byte) \<noteq> 0 \<and> (of_nat n :: byte) \<noteq> 0xe5 \<and> (of_nat n OR 0x40 :: byte) \<noteq> 0 \<and>
      (of_nat n OR 0x40 :: byte) \<noteq> 0xe5 \<and> \<not> 20 \<le> (of_nat n :: byte)"
    by code_simp
  have "n \<in> set [1..<20]" "n - j \<in> set [1..<20]" using assms by auto
  from bspec [OF v this(1)] bspec [OF v this(2)] show ?thesis by (cases "j = 0") (auto simp: lfn_id_def simp del: of_nat_diff)
qed

lemma read_de_run:
  assumes n: "1 \<le> n" "n \<le> 19" and g: "lfn_run n (g @ [d])" "\<forall>x \<in> set (g @ [d]). length x = 32" and st: "read_run n g st"
  defines "ln \<equiv> replicate ((n - Suc (length g)) * 13) 0 @ lfn_chars (g @ [d]) @ replicate (261 - n * 13) 0"
    and "st1 \<equiv> st\<lparr>rd_csum := le_checksum ((g @ [d]) ! 0), rd_next := of_nat (n - Suc (length g)),
        rd_long_name := replicate ((n - Suc (length g)) * 13) 0 @ lfn_chars (g @ [d]) @ replicate (261 - n * 13) 0\<rparr>"
  shows "read_de cp st d =
    (if n = Suc (length g) then do {
       (uc, fname, len) \<leftarrow> vfat_cvt_longname cp (unicache st) (filename st) ln;
       Some (Read_next (st1\<lparr>unicache := uc, filename := fname, name_len := len,
                           long_entry := (if 0 < len \<and> len < 256 then True else long_entry st)\<rparr>)) }
     else Some (Read_next st1))"
proof -
  let ?k = "length g"
  have k: "?k < n" "le_id d = lfn_id n ?k" "de_attr d = 0x0f" "g \<noteq> [] \<Longrightarrow> le_checksum d = le_checksum (g ! 0)"
    using g(1) by (auto simp: lfn_run_snoc)
  have n20: "n \<le> 20" using n by simp
  note bits = lfn_id_bit [OF n(1) n20 less_imp_le [OF k(1)]] and vals = lfn_id_values [OF n k(1)]
  have c: "copy_long_chunk (replicate ((n - ?k) * 13) 0 @ lfn_chars g @ replicate (261 - n * 13) 0) ((n - Suc ?k) * 13) d = Some ln"
    using copy_chunk_run(1) [of d g n 261] g(2) k(1) n by (simp add: ln_def)
  have u: "unat (of_nat (n - Suc ?k) :: byte) = n - Suc ?k" using n by (intro unat_of_nat_id) simp
  have z: "((of_nat (n - Suc ?k) :: byte) = 0) = (n = Suc ?k)" using u k(1) by (simp only: word_unat_eq_iff unsigned_0) linarith
  have f: "read_chunk_de cp i st' d =
    (if n = Suc ?k then do {
       (uc, fname, len) \<leftarrow> vfat_cvt_longname cp (unicache st) (filename st) ln;
       Some (Read_next (st1\<lparr>unicache := uc, filename := fname, name_len := len,
                           long_entry := (if 0 < len \<and> len < 256 then True else long_entry st)\<rparr>)) }
     else Some (Read_next st1))"
    if "i - 1 = of_nat (n - Suc ?k)" "rd_long_name st' = replicate ((n - ?k) * 13) 0 @ lfn_chars g @ replicate (261 - n * 13) 0"
      "st'\<lparr>rd_next := of_nat (n - Suc ?k), rd_long_name := ln\<rparr> = st1" "unicache st' = unicache st" "filename st' = filename st"
      "long_entry st' = long_entry st" for i st'
  proof -
    have eq: "unicache st1 = unicache st" "filename st1 = filename st" "long_entry st1 = long_entry st" by (simp_all add: st1_def)
    show ?thesis unfolding read_chunk_de_def that(1) Let_def u that(2) c bind.bind_lunit that(3) z eq by (rule refl)
  qed
  have de: "read_de cp st d = read_long cp st d" using k vals by (simp add: read_de_def de_name_0 le_id_def)
  show ?thesis
  proof (cases "g = []")
    case True
    let ?st = "st\<lparr>rd_csum := le_checksum d, rd_long_name := replicate 261 0\<rparr>"
    have "read_long cp st d = read_chunk_de cp (of_nat n) ?st d"
      using bits k vals True by (simp add: read_long_def lfn_id_def Let_def)
    moreover have "of_nat n - 1 = (of_nat (n - Suc ?k) :: byte)" using True n by simp
    moreover have "replicate 261 0 = replicate ((n - ?k) * 13) 0 @ lfn_chars g @ replicate (261 - n * 13) (0 :: u16)"
      using True n by (simp add: lfn_chars_def replicate_add [symmetric])
    ultimately show ?thesis unfolding de using f [of "of_nat n" ?st] True by (simp add: st1_def ln_def)
  next
    case False
    have "lfn_id n ?k = rd_next st" "rd_csum st = le_checksum d" using st False k(4) by (auto simp: read_run_def lfn_id_def)
    then have "read_long cp st d = read_chunk_de cp (lfn_id n ?k) st d"
      using bits k False by (simp add: read_long_def Let_def)
    moreover have "lfn_id n ?k - 1 = of_nat (n - Suc ?k)" using bits False k(1) by (simp add: lfn_id_def)
    moreover have "st\<lparr>rd_next := of_nat (n - Suc ?k), rd_long_name := ln\<rparr> = st1"
      using st False by (cases st) (simp add: st1_def ln_def read_run_def nth_append)
    ultimately show ?thesis unfolding de using f [of "lfn_id n ?k" st] st False by (simp add: read_run_def)
  qed
qed


definition read_inv :: "codepage \<Rightarrow> nat \<Rightarrow> buf list \<Rightarrow> read_state \<Rightarrow> bool" where
  "read_inv cp n g st \<longleftrightarrow> read_run n g st \<and> length (filename st) = 261 \<and> unicache_ok cp (unicache st) \<and>
     (if length g < n \<or> n = 0 then \<not> long_entry st
      else case cvt_ref cp (lfn_chars g @ [0]) of
             None \<Rightarrow> \<not> long_entry st
           | Some cs \<Rightarrow> (long_entry st \<longleftrightarrow> cs \<noteq> []) \<and> length cs < 255 \<and>
               name_len st = int (length cs) \<and> take (length cs + 1) (filename st) = cs @ [0])"

lemma cvt_ref_pad: "cvt_ref cp (xs @ replicate (Suc k) 0) = cvt_ref cp (xs @ [0])"
proof -
  have "takeWhile (\<lambda>u. u \<noteq> 0) (xs @ 0 # ys) = takeWhile (\<lambda>u. u \<noteq> 0) (xs @ [0])" for ys :: "u16 list"
    by (induction xs) auto
  from this [of "replicate k 0"] show ?thesis unfolding cvt_ref_def replicate_Suc by (simp only:)
qed

lemma those_length: "those xs = Some ys \<Longrightarrow> length ys = length xs"
  by (induction xs arbitrary: ys) (auto split: option.splits)

lemma cvt_ref_length: "cvt_ref cp (xs @ [0]) = Some cs \<Longrightarrow> length cs \<le> length xs"
proof -
  assume "cvt_ref cp (xs @ [0]) = Some cs"
  then have "length cs = length (takeWhile (\<lambda>u. u \<noteq> 0) (xs @ [0]))" by (auto simp: cvt_ref_def dest: those_length)
  moreover have "length (takeWhile (\<lambda>u. u \<noteq> 0) (xs @ [0])) \<le> length xs" by (induction xs) auto
  ultimately show ?thesis by simp
qed

lemma read_inv_step:
  assumes cp: "nul_maps cp" and n: "1 \<le> n" "n \<le> 19" and g: "lfn_run n (g @ [d])" "\<forall>x \<in> set (g @ [d]). length x = 32"
    and st: "read_inv cp n g st"
  shows "\<exists>st'. read_de cp st d = Some (Read_next st') \<and> read_inv cp n (g @ [d]) st'"
proof -
  let ?k = "length g"
  define ln :: "u16 list" where "ln = replicate ((n - Suc ?k) * 13) 0 @ lfn_chars (g @ [d]) @ replicate (261 - n * 13) 0"
  define st1 where "st1 = st\<lparr>rd_csum := le_checksum ((g @ [d]) ! 0), rd_next := of_nat (n - Suc ?k), rd_long_name := ln\<rparr>"
  have k: "?k < n" using g(1) by (simp add: lfn_run_snoc)
  have r: "read_run n g st" "length (filename st) = 261" "unicache_ok cp (unicache st)" "\<not> long_entry st"
    using st k by (auto simp: read_inv_def)
  have run1: "read_run n (g @ [d]) st1" by (simp add: read_run_def st1_def ln_def)
  note e = read_de_run [OF n g r(1), of cp, folded ln_def, folded st1_def]
  show ?thesis
  proof (cases "n = Suc ?k")
    case True
    have lnl: "length ln = 261" using copy_chunk_run(2) [of d g n 261] g(2) k n by (simp add: ln_def)
    have l0: "ln = lfn_chars (g @ [d]) @ replicate (Suc (260 - n * 13)) 0" using True n by (simp add: ln_def Suc_diff_le del: replicate_Suc)
    have ref: "cvt_ref cp ln = cvt_ref cp (lfn_chars (g @ [d]) @ [0])" unfolding l0 by (rule cvt_ref_pad)
    have "0 \<in> set ln" unfolding l0 by simp
    then obtain uc name r' where c: "vfat_cvt_longname cp (unicache st) (filename st) ln = Some (uc, name, r')"
       "unicache_ok cp uc" "length name = 261"
       "case cvt_ref cp ln of None \<Rightarrow> r' = - 1 | Some cs \<Rightarrow> r' = int (length cs) \<and> take (length cs + 1) name = cs @ [0]"
      using cvt_loop_ok [OF cp r(3), of ln 0 "filename st"] lnl r(2) unfolding vfat_cvt_longname_def
      by (cases "cvt_ref cp ln") auto
    have small: "cvt_ref cp ln = Some cs \<Longrightarrow> length cs < 255" for cs
      using cvt_ref_length [of cp "lfn_chars (g @ [d])" cs] length_lfn_chars [OF g(2)] True n unfolding ref by simp
    let ?st = "st1\<lparr>unicache := uc, filename := name, name_len := r', long_entry := (if 0 < r' \<and> r' < 256 then True else long_entry st)\<rparr>"
    have "read_inv cp n (g @ [d]) ?st"
    proof (cases "cvt_ref cp ln")
      case None
      then show ?thesis using c r run1 True ref by (simp add: read_inv_def read_run_def)
    next
      case (Some cs)
      then show ?thesis using c r run1 True ref small [OF Some] by (simp add: read_inv_def read_run_def)
    qed
    then show ?thesis using e c(1) True by simp
  next
    case False
    then have "read_inv cp n (g @ [d]) st1" using run1 r k by (simp add: read_inv_def st1_def)
    then show ?thesis using e False by simp
  qed
qed

lemma read_group:
  assumes cp: "nul_maps cp" and n: "1 \<le> n" "n \<le> 19"
  shows "lfn_run n (g1 @ g2) \<Longrightarrow> \<forall>x \<in> set (g1 @ g2). length x = 32 \<Longrightarrow> read_inv cp n g1 st \<Longrightarrow>
    \<exists>st'. read_list cp (g2 @ ys) st off = read_list cp ys st' (off + of_nat (32 * length g2)) \<and> read_inv cp n (g1 @ g2) st'"
proof (induction g2 arbitrary: g1 st off)
  case (Cons d g2)
  have "lfn_run n (g1 @ [d])"
    using Cons.prems(1) by (induction g2 rule: rev_induct) (auto simp: lfn_run_snoc simp flip: append_assoc append_Cons)
  then obtain st1 where st1: "read_de cp st d = Some (Read_next st1)" "read_inv cp n (g1 @ [d]) st1"
    using read_inv_step [OF cp n, of g1 d st] Cons.prems by auto
  from Cons.IH [of "g1 @ [d]" st1 "off + 32"] Cons.prems st1 show ?case by (simp add: algebra_simps)
qed auto

lemma length_short_name: "length (short_name cp d) \<le> 12"
proof -
  have p: "length (short_part cp l xs) \<le> length xs" for l xs by (simp add: short_part_def length_takeWhile_le)
  have "length (short_part cp l (take 8 (de_name d))) \<le> 8" "length (short_part cp l (drop 8 (de_name d))) \<le> 3" for l
    by (rule order_trans [OF p], simp add: de_name_def)+
  from this(1) [of "de_lcase d AND LCASE_BASE \<noteq> 0"] this(2) [of "de_lcase d AND LCASE_EXT \<noteq> 0"]
  show ?thesis unfolding short_name_def by (simp del: One_nat_def)
qed

lemma read_entry:
  assumes cp: "nul_maps cp" and n: "length g = n" "n \<le> 19" and g: "lfn_run n g" "\<forall>x \<in> set g. length x = 32"
    and st: "read_inv cp n [] st" and xs: "\<forall>x \<in> set xs. skipped x" and d: "file_entry d"
  shows "\<exists>st'. read_list cp (xs @ g @ d # ys) st off = Some (Inl (Some d), st', off + of_nat (32 * (length xs + n))) \<and>
    length (filename st') = 261 \<and> unicache_ok cp (unicache st') \<and> length (entry_name cp g d) < 255 \<and>
    name_len st' = int (length (entry_name cp g d)) \<and>
    take (length (entry_name cp g d) + 1) (filename st') = entry_name cp g d @ [0]"
proof -
  have nl: "\<not> long_entry st" using st by (auto simp: read_inv_def lfn_chars_def cvt_ref_def split: if_splits)
  have "\<exists>st1. read_list cp (g @ d # ys) st (off + of_nat (32 * length xs)) = read_list cp (d # ys) st1 (off + of_nat (32 * (length xs + n))) \<and> read_inv cp n g st1"
    using read_group [OF cp _ n(2), of "[]" g st "d # ys" "off + of_nat (32 * length xs)"] g st n(1)
    by (cases "n = 0") (auto simp: algebra_simps)
  then obtain st1 where st1: "read_list cp (g @ d # ys) st (off + of_nat (32 * length xs)) = read_list cp (d # ys) st1 (off + of_nat (32 * (length xs + n)))"
    "read_inv cp n g st1" by blast
  have e: "read_list cp (xs @ g @ d # ys) st off = read_list cp (d # ys) st1 (off + of_nat (32 * (length xs + n)))"
    using read_skip [OF xs nl] st1(1) by simp
  have f: "length (filename st1) = 261" "unicache_ok cp (unicache st1)" using st1(2) by (auto simp: read_inv_def)
  have de: "read_de cp st1 d = read_short cp st1 d" using d by (simp add: read_de_def de_name_0 file_entry_def plain_entry_def)
  have lbl: "de_attr d AND 0x08 = 0" using d by (simp add: file_entry_def plain_entry_def)
  show ?thesis
  proof (cases "long_entry st1 \<and> get_checksum (de_name d) = rd_csum st1")
    case True
    then have n0: "n \<noteq> 0" "g \<noteq> []" using st1(2) n by (auto simp: read_inv_def)
    then obtain cs where cs: "cvt_ref cp (lfn_chars g @ [0]) = Some cs" "cs \<noteq> []" "length cs < 255"
       "name_len st1 = int (length cs)" "take (length cs + 1) (filename st1) = cs @ [0]" "rd_csum st1 = le_checksum (g ! 0)"
      using st1(2) n True by (auto simp: read_inv_def read_run_def split: option.splits)
    have "entry_name cp g d = cs" using cs True by (simp add: entry_name_def)
    then show ?thesis using cs f True de lbl e by (simp add: read_short_def)
  next
    case False
    have nm: "entry_name cp g d = short_name cp d"
      using False st1(2) n by (cases "n = 0") (auto simp: entry_name_def read_inv_def read_run_def lfn_chars_def cvt_ref_def split: option.splits if_splits)
    have l: "length (short_name cp d) \<le> 12" by (rule length_short_name)
    let ?nm = "short_name cp d @ [0]"
    have b: "blit (filename st1) 0 ?nm = Some (?nm @ drop (length ?nm) (filename st1))" using f l by (simp add: blit_def)
    let ?st = "st1\<lparr>filename := ?nm @ drop (length ?nm) (filename st1), name_len := int (length (short_name cp d))\<rparr>"
    have "read_de cp st1 d = Some (Read_got ?st)" using de False lbl b by (simp add: read_short_def Let_def)
    then show ?thesis unfolding e nm using f l by simp
  qed
qed

lemma read_end:
  assumes "\<not> long_entry st" and "\<forall>x \<in> set xs. skipped x" and "ys = [] \<or> hd ys ! 0 = 0"
  shows "\<exists>r off'. read_list cp (xs @ ys) st off = Some (r, st, off') \<and> (r = Inr () \<or> r = Inl None)"
proof -
  have "\<exists>r off'. read_list cp ys st o1 = Some (r, st, off') \<and> (r = Inr () \<or> r = Inl None)" for o1
    using assms(3) by (cases ys) (auto simp: read_de_def de_name_0)
  then show ?thesis using read_skip [OF assms(2,1)] by simp
qed

lemma dir_entries_drop:
  assumes "fat_mounted gc fs" and "q < length ss" and "r < 2 ^ (sector_shift fs - 5)"
  shows "drop (q * 2 ^ (sector_shift fs - 5) + r) (dir_entries gc fs ss) =
    sector_des (2 ^ (sector_shift fs - 5) - r) (gc (ss ! q)) (32 * r) @ dir_entries gc fs (drop (Suc q) ss)"
proof -
  let ?N = "2 ^ (sector_shift fs - 5)"
  have "drop (q * ?N) (dir_entries gc fs ss) = dir_entries gc fs (drop q ss)"
    unfolding dir_entries_def by (subst drop_concat_uniform) (auto simp: sector_des_def drop_map)
  also have "\<dots> = sector_des ?N (gc (ss ! q)) 0 @ dir_entries gc fs (drop (Suc q) ss)"
    using assms(2) by (simp add: Cons_nth_drop_Suc [symmetric] dir_entries_def)
  finally have d: "drop (q * ?N) (dir_entries gc fs ss) = sector_des ?N (gc (ss ! q)) 0 @ dir_entries gc fs (drop (Suc q) ss)" .
  have "drop r (sector_des ?N (gc (ss ! q)) 0) = sector_des (?N - r) (gc (ss ! q)) (32 * r)"
    using assms(3) by (intro nth_equalityI) (auto simp: sector_des_def algebra_simps)
  moreover have "length (sector_des ?N (gc (ss ! q)) 0) = ?N" by (simp add: sector_des_def)
  ultimately show ?thesis using assms(3) unfolding add.commute [of _ r] drop_drop [symmetric] d by simp
qed

lemma length_dir_entries: "length (dir_entries gc fs ss) = length ss * 2 ^ (sector_shift fs - 5)"
  by (induction ss) (auto simp: dir_entries_def sector_des_def)

lemma dir_file_mounted: "dir_file gc fs ss f \<Longrightarrow> fat_mounted gc fs"
  by (simp add: dir_file_def)

lemma dir_entries_length: "fat_mounted gc fs \<Longrightarrow> \<forall>x \<in> set (dir_entries gc fs ss). length x = 32"
proof -
  assume m: "fat_mounted gc fs"
  have "length (take 32 (drop (32 * i) (gc s))) = 32" if "i < 2 ^ (sector_shift fs - 5)" for i s
  proof -
    have "32 * Suc i \<le> 32 * 2 ^ (sector_shift fs - 5)" using that by simp
    then have "32 * i + 32 \<le> length (gc s)" using sector_entries_length [OF m, of s] by simp
    then show ?thesis by simp
  qed
  then show ?thesis by (auto simp: dir_entries_def sector_des_def)
qed

lemma dir_file_bound: "dir_file gc fs ss f \<Longrightarrow> k \<le> length (dir_entries gc fs ss) \<Longrightarrow> 32 * k < 2 ^ 32"
proof -
  assume f: "dir_file gc fs ss f" and k: "k \<le> length (dir_entries gc fs ss)"
  have "32 * length (dir_entries gc fs ss) = length ss * 2 ^ sector_shift fs"
    using sector_size_entries [OF dir_file_mounted [OF f]] by (simp add: length_dir_entries)
  then show ?thesis using f k by (simp add: dir_file_def)
qed

text \<open>A call of \<open>vfat_readdir\<close> reads the entries from the position of the file on.\<close>

lemma readdir_start:
  assumes f: "dir_file gc fs ss f" and k: "unat (foffset f) = 32 * k" "k < length (dir_entries gc fs ss)"
  obtains f1 q r where "get_the_right_sector gc fs f = Some (ss ! q, f1)" and "dir_at ss q f1" and "q < length ss"
    and "foffset f1 = foffset f" and "start (pvt (finode f1)) = start (pvt (finode f))"
    and "unat (foffset f AND mask (sector_shift fs)) = 32 * r" and "r < 2 ^ (sector_shift fs - 5)"
    and "(2 ^ sector_shift fs - 32 * r) div 32 = 2 ^ (sector_shift fs - 5) - r"
    and "32 * r + 32 * (2 ^ (sector_shift fs - 5) - r) \<le> length (gc (ss ! q))"
    and "drop k (dir_entries gc fs ss) =
      sector_des (2 ^ (sector_shift fs - 5) - r) (gc (ss ! q)) (32 * r) @ dir_entries gc fs (drop (Suc q) ss)"
proof -
  let ?sh = "sector_shift fs" and ?N = "2 ^ (sector_shift fs - 5) :: nat"
  have m: "fat_mounted gc fs" by (rule dir_file_mounted [OF f])
  have N: "2 ^ ?sh = 32 * ?N" by (rule sector_size_entries [OF m])
  let ?q = "k div ?N" and ?r = "k mod ?N"
  have q: "?q < length ss" using k(2) by (simp add: length_dir_entries less_mult_imp_div_less)
  have r: "?r < ?N" by simp
  have ne: "ss \<noteq> []" and e: "(ss @ [0]) ! ?q = ss ! ?q" using q by (auto simp: nth_append)
  have sp: "unat (foffset f) div 2 ^ ?sh = ?q" unfolding k(1) N by simp
  obtain f1 where f1: "get_the_right_sector gc fs f = Some (ss ! ?q, f1)" "dir_at ss ?q f1" "foffset f1 = foffset f"
      "start (pvt (finode f1)) = start (pvt (finode f))"
    using get_the_right_sector_ok [OF f ne] q e unfolding sp by auto
  have so: "unat (foffset f AND mask ?sh) = 32 * ?r" unfolding unat_and_mask k(1) N by (rule mod_mult_mult1)
  have el: "(2 ^ ?sh - 32 * ?r) div 32 = ?N - ?r" unfolding N diff_mult_distrib2 [symmetric] by (rule nonzero_mult_div_cancel_left) simp
  have dr: "drop k (dir_entries gc fs ss) =
      sector_des (?N - ?r) (gc (ss ! ?q)) (32 * ?r) @ dir_entries gc fs (drop (Suc ?q) ss)"
    using dir_entries_drop [OF m q r] by (simp only: div_mult_mod_eq)
  have le: "32 * ?r + 32 * (?N - ?r) \<le> length (gc (ss ! ?q))"
    using sector_entries_length [OF m, of "ss ! ?q"] r by (simp add: diff_mult_distrib2)
  show thesis by (rule that [OF f1(1,2) q f1(3,4) so r el le dr])
qed

lemma readdir_list:
  assumes f: "dir_file gc fs ss f" and k: "unat (foffset f) = 32 * k" "k < length (dir_entries gc fs ss)"
    and rl: "read_list cp (drop k (dir_entries gc fs ss)) st0 (foffset f) = Some (r, st, off)"
  shows "\<exists>sector f1 f2. get_the_right_sector gc fs f = Some (sector, f1) \<and>
    read_dir_loop cp gc fs ((2 ^ sector_shift fs - unat (foffset f1 AND mask (sector_shift fs))) div 32) (gc sector)
      (unat (foffset f1 AND mask (sector_shift fs))) st0 f1 = Some (case r of Inl d \<Rightarrow> d | Inr _ \<Rightarrow> None, st, f2) \<and>
    dir_file gc fs ss f2 \<and> foffset f2 = off"
proof -
  let ?N = "2 ^ (sector_shift fs - 5) :: nat"
  have m: "fat_mounted gc fs" by (rule dir_file_mounted [OF f])
  obtain f1 q j where f1: "get_the_right_sector gc fs f = Some (ss ! q, f1)" "dir_at ss q f1" "q < length ss"
    "foffset f1 = foffset f" "start (pvt (finode f1)) = start (pvt (finode f))"
    and so: "unat (foffset f AND mask (sector_shift fs)) = 32 * j" "(2 ^ sector_shift fs - 32 * j) div 32 = ?N - j"
    and le: "32 * j + 32 * (?N - j) \<le> length (gc (ss ! q))"
    and dr: "drop k (dir_entries gc fs ss) = sector_des (?N - j) (gc (ss ! q)) (32 * j) @ dir_entries gc fs (drop (Suc q) ss)"
    by (rule readdir_start [OF f k])
  have ch: "dir_chain gc fs (start (pvt (finode f1))) ss" using f f1(5) by (simp add: dir_file_def)
  from read_dir_loop_list [OF m ch f1(2,3) le, of cp st0 r st off] rl f1(4) dr
  obtain f2 q2 where "read_dir_loop cp gc fs (?N - j) (gc (ss ! q)) (32 * j) st0 f1 =
      Some (case r of Inl d \<Rightarrow> d | Inr _ \<Rightarrow> None, st, f2)" "foffset f2 = off" "dir_at ss q2 f2"
      "start (pvt (finode f2)) = start (pvt (finode f1))"
    by metis
  moreover have "dir_file gc fs ss f2" using calculation f f1(5) by (auto simp: dir_file_def)
  ultimately show ?thesis using f1(1,4) so by metis
qed

lemma readdir_fault:
  assumes f: "dir_file gc fs ss f" and k: "unat (foffset f) = 32 * k" "k < length (dir_entries gc fs ss)"
    and d: "\<And>st. read_de cp st (dir_entries gc fs ss ! k) = None"
  shows "vfat_readdir cp gc fs uc f de = None"
proof -
  let ?N = "2 ^ (sector_shift fs - 5) :: nat"
  obtain f1 q j where f1: "get_the_right_sector gc fs f = Some (ss ! q, f1)" "foffset f1 = foffset f"
    and so: "unat (foffset f AND mask (sector_shift fs)) = 32 * j" "j < ?N" "(2 ^ sector_shift fs - 32 * j) div 32 = ?N - j"
    and le: "32 * j + 32 * (?N - j) \<le> length (gc (ss ! q))"
    and dr: "drop k (dir_entries gc fs ss) = sector_des (?N - j) (gc (ss ! q)) (32 * j) @ dir_entries gc fs (drop (Suc q) ss)"
    by (rule readdir_start [OF f k])
  obtain n where n: "?N - j = Suc n" using so(2) by (cases "?N - j") auto
  have "drop k (dir_entries gc fs ss) = dir_entries gc fs ss ! k # drop (Suc k) (dir_entries gc fs ss)"
    using k(2) by (rule drop_nth_Cons)
  then obtain ds where "sector_des (?N - j) (gc (ss ! q)) (32 * j) = dir_entries gc fs ss ! k # ds"
    using dr unfolding n sector_des_Suc by simp
  then have "read_sector cp (?N - j) (gc (ss ! q)) (32 * j) st (foffset f) = None" for st
    unfolding read_sector_list [OF le] using d by simp
  then have "read_dir_loop cp gc fs (?N - j) (gc (ss ! q)) (32 * j) st f1 = None" for st
    using f1(2) by (subst read_dir_loop.simps) simp
  then show ?thesis unfolding vfat_readdir_def f1(1) bind.bind_lunit prod.case Let_def f1(2) so(1,3) by simp
qed

text \<open>
  Behind the last sector of a directory that has no end mark the sector number is 0, which
  \<open>vfat_readdir\<close> does not test: it goes on in the boot sector.
\<close>

lemma readdir_past_end:
  assumes f: "dir_file gc fs ss f" and "ss \<noteq> []" and k: "unat (foffset f) = 32 * length (dir_entries gc fs ss)"
  shows "\<exists>f'. get_the_right_sector gc fs f = Some (0, f')"
proof -
  have "unat (foffset f) = length ss * 2 ^ sector_shift fs"
    using k sector_size_entries [OF dir_file_mounted [OF f]] by (simp add: length_dir_entries)
  then show ?thesis using get_the_right_sector_ok [OF f assms(2)] by (auto simp: nth_append)
qed

subsection \<open>Properties\<close>

text \<open>C33. The conversion of a long name with its cache computes what a search of the tables computes, and
  keeps the cache consistent; it stays inside both arrays when the name is terminated.\<close>

theorem vfat_cvt_longname_correct:
  assumes "nul_maps cp" and "unicache_ok cp uc" and "0 \<in> set ln" and "length ln \<le> length name"
  shows "\<exists>uc' name' r. vfat_cvt_longname cp uc name ln = Some (uc', name', r) \<and> unicache_ok cp uc' \<and>
    length name' = length name \<and>
    (case cvt_ref cp ln of None \<Rightarrow> r = - 1
     | Some cs \<Rightarrow> r = int (length cs) \<and> take (length cs + 1) name' = cs @ [0])"
  using cvt_loop_ok [OF assms(1-3), of 0 name] assms(4) unfolding vfat_cvt_longname_def
  by (cases "cvt_ref cp ln") auto

text \<open>C10. From the entries \<open>xs @ g @ ys\<close> at the position of the file on, \<open>vfat_readdir\<close> passes over the deleted entries and
  volume labels \<open>xs\<close> and returns the next entry, under its long name if the entries \<open>g\<close> are one and belong to it
  by their checksum, and leaves the file behind it; at the end of the directory it returns \<open>-1\<close>.\<close>

theorem vfat_readdir_correct:
  assumes "dir_file gc fs ss f" and "nul_maps cp" and "unicache_ok cp uc" and "length (d_name de) = 256"
    and "unat (foffset f) = 32 * k" and "k < length (dir_entries gc fs ss)"
    and "drop k (dir_entries gc fs ss) = xs @ g @ ys" and "\<forall>x \<in> set xs. skipped x" and "lfn_run (length g) g" and "length g \<le> 19"
  shows "(\<forall>d zs. ys = d # zs \<and> file_entry d \<longrightarrow>
      (\<exists>de' uc' f'. vfat_readdir cp gc fs uc f de = Some (Some de', uc', f') \<and>
         (let nm = entry_name cp g d; j = k + length xs + length g
          in take (length nm + 1) (d_name de') = nm @ [0] \<and>
             d_ino de' = ucast (de_cluster_low d) OR push_bit 16 (ucast (de_cluster_high d)) \<and>
             d_type de' = get_inode_mode (de_attr d) \<and> unat (d_off de') = 32 * j \<and>
             unat (foffset f') = 32 * (j + 1) \<and> dir_file gc fs ss f' \<and> unicache_ok cp uc'))) \<and>
    (g = [] \<and> (ys = [] \<or> hd ys ! 0 = 0) \<longrightarrow> (\<exists>f'. vfat_readdir cp gc fs uc f de = Some (None, uc, f') \<and> dir_file gc fs ss f'))"
proof -
  define st0 where "st0 = \<lparr>rd_next = 0xff, rd_csum = 0xff, rd_long_name = replicate 261 0, filename = replicate 261 0,
        name_len = 0, long_entry = False, unicache = uc\<rparr>"
  have inv: "read_inv cp (length g) [] st0" "\<not> long_entry st0"
    using assms(3) by (simp_all add: read_inv_def read_run_def st0_def cvt_ref_def lfn_chars_def)
  note rl = readdir_list [OF assms(1,5,6)]
  have len: "\<forall>x \<in> set g. length x = 32"
    using dir_entries_length [OF dir_file_mounted [OF assms(1)]] assms(7) by (metis Un_iff in_set_dropD set_append)
  have A: "\<exists>de' uc' f'. vfat_readdir cp gc fs uc f de = Some (Some de', uc', f') \<and>
         (let nm = entry_name cp g d; j = k + length xs + length g
          in take (length nm + 1) (d_name de') = nm @ [0] \<and>
             d_ino de' = ucast (de_cluster_low d) OR push_bit 16 (ucast (de_cluster_high d)) \<and>
             d_type de' = get_inode_mode (de_attr d) \<and> unat (d_off de') = 32 * j \<and>
             unat (foffset f') = 32 * (j + 1) \<and> dir_file gc fs ss f' \<and> unicache_ok cp uc')"
    if ys: "ys = d # zs" "file_entry d" for d zs
  proof -
    let ?j = "k + length xs + length g" and ?nm = "entry_name cp g d"
    obtain st where st: "read_list cp (drop k (dir_entries gc fs ss)) st0 (foffset f) = Some (Inl (Some d), st, foffset f + of_nat (32 * (length xs + length g)))"
      "length (filename st) = 261" "unicache_ok cp (unicache st)" "length ?nm < 255" "name_len st = int (length ?nm)"
      "take (length ?nm + 1) (filename st) = ?nm @ [0]"
      using read_entry [OF assms(2) refl assms(10,9) len inv(1) assms(8) ys(2), of zs "foffset f"] unfolding assms(7) ys(1) by blast
    from rl [OF st(1)] obtain sector f1 f2 where f2: "get_the_right_sector gc fs f = Some (sector, f1)"
      "read_dir_loop cp gc fs ((2 ^ sector_shift fs - unat (foffset f1 AND mask (sector_shift fs))) div 32) (gc sector)
      (unat (foffset f1 AND mask (sector_shift fs))) st0 f1 = Some (Some d, st, f2)" "dir_file gc fs ss f2"
      "foffset f2 = foffset f + of_nat (32 * (length xs + length g))" by auto
    have "length (drop k (dir_entries gc fs ss)) = length xs + length g + Suc (length zs)" unfolding assms(7) ys(1) by simp
    then have "Suc ?j \<le> length (dir_entries gc fs ss)" using assms(6) by simp
    then have b: "32 * Suc ?j < 2 ^ 32" by (rule dir_file_bound [OF assms(1)])
    have off: "unat (foffset f2) = 32 * ?j" unfolding f2(4) using b assms(5)
      by (subst unat_add_id) (auto simp: unat_of_nat_id simp del: of_nat_mult of_nat_add)
    have off1: "unat (foffset f2 + 32) = 32 * (?j + 1)" using off b by (subst unat_add_id) auto
    have len1: "nat (int (length ?nm) + 1) = Suc (length ?nm)" by simp
    have sl: "slice (filename st) 0 (Suc (length ?nm)) = Some (?nm @ [0])" using st(2,4,6) by (simp add: slice_def)
    have bl: "blit (d_name de) 0 (?nm @ [0]) = Some (?nm @ [0] @ drop (Suc (length ?nm)) (d_name de))" using st(4) assms(4) by (simp add: blit_def)
    show ?thesis unfolding vfat_readdir_def f2(1) bind.bind_lunit prod.case Let_def st0_def [symmetric] f2(2) option.case st(5) len1 sl bl
      using off off1 st(3) f2(3) by (simp add: dir_file_def dir_at_def)
  qed
  have B: "\<exists>f'. vfat_readdir cp gc fs uc f de = Some (None, uc, f') \<and> dir_file gc fs ss f'" if gn: "g = []" and yn: "ys = [] \<or> hd ys ! 0 = 0"
  proof -
    obtain r off where r: "read_list cp (drop k (dir_entries gc fs ss)) st0 (foffset f) = Some (r, st0, off)" "r = Inr () \<or> r = Inl None"
      using read_end [OF inv(2) assms(8) yn, of cp "foffset f"] unfolding assms(7) gn by auto
    from rl [OF r(1)] r(2) show ?thesis by (auto simp: vfat_readdir_def st0_def Let_def)
  qed
  show ?thesis using A B by blast
qed

text \<open>C34. A directory entry with the number \<open>0x40\<close>, the mark of the last part of a long name with the part 0, makes
  \<open>vfat_readdir\<close> write its characters behind the end of \<open>long_name\<close>: the number is decremented to 255 after the
  check against 20.\<close>

theorem vfat_readdir_overrun:
  assumes "dir_file gc fs ss f" and "unat (foffset f) = 32 * k" and "k < length (dir_entries gc fs ss)"
    and "de_attr (dir_entries gc fs ss ! k) = 0x0f" and "le_id (dir_entries gc fs ss ! k) = 0x40"
  shows "copy_long_chunk (replicate 261 0) (255 * 13) (dir_entries gc fs ss ! k) = None \<and>
    read_long cp st (dir_entries gc fs ss ! k) = None \<and> vfat_readdir cp gc fs uc f de = None"
proof -
  let ?d = "dir_entries gc fs ss ! k"
  have d: "length ?d = 32" using dir_entries_length [OF dir_file_mounted [OF assms(1)]] assms(3) nth_mem by blast
  have c: "copy_long_chunk (replicate 261 0) (255 * 13) ?d = None" by (rule copy_long_chunk_None [OF d]) simp
  have rl: "read_long cp st ?d = None" for st
  proof -
    have "(0x40 AND 0x3f :: byte) = 0" "unat (0 - 1 :: byte) = 255" "(0x40 AND 0x40 :: byte) \<noteq> 0" by code_simp+
    then show ?thesis using c unfolding read_long_def read_chunk_de_def Let_def assms(5) by simp
  qed
  have "read_de cp st ?d = None" for st using assms(4,5) rl by (simp add: read_de_def de_name_0 le_id_def)
  then have "vfat_readdir cp gc fs uc f de = None" by (rule readdir_fault [OF assms(1-3)])
  then show ?thesis using c rl by blast
qed

text \<open>The volume of theory \<open>FatDir\<close>.\<close>

definition demo_dir :: "u32 \<Rightarrow> fat_pvt_inode fs_file" where
  "demo_dir off = \<lparr>foffset = off, finode = vfat_iget_root demo_fs\<rparr>"

definition demo_de :: dirent where
  "demo_de = \<lparr>d_ino = 0, d_off = 0, d_reclen = 0, d_type = DT_UNKNOWN, d_name = replicate 256 0\<rparr>"

lemma demo_uni_find:
  assumes "unat u < 256"
  shows "uni_find demo_cp u = Some (ucast u)"
proof -
  have P: "(uni demo_cp j = u) = (j mod 256 = unat u)" if "j < 512" for j
  proof -
    have c: "(ucast (of_nat i :: byte) :: u16) = of_nat i" if "i < 256" for i
      using that by (intro of_natI) (simp add: unat_ucast unat_of_nat)
    have "uni demo_cp j = (of_nat (j mod 256) :: u16)"
    proof (cases "j < 256")
      case True
      then show ?thesis using c by (simp add: uni_def demo_cp_def)
    next
      case False
      then show ?thesis using c [of "j - 256"] that by (simp add: uni_def demo_cp_def le_mod_geq del: of_nat_diff)
    qed
    moreover have "unat (of_nat (j mod 256) :: u16) = j mod 256" by (rule unat_of_nat_id) (simp add: less_le_trans [of _ 256])
    ultimately show ?thesis by (metis word_unat_eq_iff)
  qed
  have "find (\<lambda>c. uni demo_cp c = u) [0..<512] = Some (unat u)"
    unfolding find_Some_iff using assms by (intro exI [of _ "unat u"]) (auto simp: P)
  then show ?thesis unfolding uni_find_def by (simp add: of_natI [symmetric])
qed

lemma demo_cvt: "cvt_ref demo_cp [104, 105, 0] = Some [104, 105]"
  by (simp add: cvt_ref_def demo_uni_find)

lemma demo_dir_file: "dir_file demo_disk demo_fs [5] (demo_dir off)"
  using demo_fs_mounted demo_dir_chain
  by (auto simp: dir_file_def dir_at_def demo_dir_def vfat_iget_root_def demo_fs_def intro!: exI [of _ 0])

theorem vfat_cvt_longname_correct_witness:
  "\<exists>uc name. vfat_cvt_longname demo_cp unicache0 (replicate 8 0) [104, 105, 0] = Some (uc, name, 2) \<and> take 3 name = [104, 105, 0]"
  using vfat_cvt_longname_correct [OF demo_cp_nul unicache0_ok [OF demo_cp_nul], of "[104, 105, 0]" "replicate 8 0"] demo_cvt
  by (auto simp: numeral_3_eq_3)

theorem vfat_readdir_correct_witness:
  "\<exists>de' uc' f'. vfat_readdir demo_cp demo_disk demo_fs unicache0 (demo_dir 0) demo_de = Some (Some de', uc', f') \<and>
     take 3 (d_name de') = [104, 105, 0] \<and> d_ino de' = 3 \<and> foffset f' = 64"
proof -
  have e: "drop 0 (dir_entries demo_disk demo_fs [5]) = [] @ [demo_long] @ demo_short # [demo_bad, replicate 32 0]"
    by (simp add: demo_entries)
  have "takeWhile (\<lambda>u. u \<noteq> 0) (lfn_chars [demo_long] @ [0]) = [104, 105]" "get_checksum (de_name demo_short) = le_checksum demo_long"
    by code_simp+
  then have n: "entry_name demo_cp [demo_long] demo_short = [104, 105]" using demo_cvt by (simp add: entry_name_def cvt_ref_def)
  have d: "file_entry demo_short" "ucast (de_cluster_low demo_short) OR push_bit 16 (ucast (de_cluster_high demo_short)) = (3 :: u32)"
    by code_simp+
  have u: "unat (w :: u32) = 64 \<Longrightarrow> w = 64" for w by (drule of_natI) simp
  show ?thesis
    using vfat_readdir_correct [OF demo_dir_file demo_cp_nul unicache0_ok [OF demo_cp_nul] _ _ _ e _ _ _, of demo_de 0]
      n d demo_lfn
    by (auto simp: demo_de_def demo_dir_def demo_entries Let_def numeral_3_eq_3 intro!: u)
qed

theorem vfat_readdir_overrun_witness:
  "vfat_readdir demo_cp demo_disk demo_fs unicache0 (demo_dir 64) demo_de = None"
proof -
  have "de_attr demo_bad = 0x0f" "le_id demo_bad = 0x40" by code_simp+
  then show ?thesis using vfat_readdir_overrun [OF demo_dir_file, of 64 2 demo_cp undefined unicache0 demo_de]
    by (simp add: demo_entries demo_dir_def)
qed

end
