(* ===== verification/Thread.thy ===== *)
theory Thread
  imports Ring "HOL-Library.Sublist"
begin

section \<open>Threads and semaphores\<close>

text \<open>
  \<open>core/thread/\<close>: threads on a circular list, a priority scheduler, counting
  semaphores with queues of sleeping threads, time-outs and mailboxes. The pointer fields of
  \<open>struct thread\<close>, \<open>struct thread_block\<close> and \<open>struct semaphore\<close> are functions from addresses; the list node
  of a semaphore or of a block has the address of its structure. The operations change the lists with
  interrupts locked out, up to the switch to another thread; only the \<open>decl\<close> and \<open>incl\<close> of the semaphores run before the lock, and
  when the network is in use an interrupt behind them calls the scheduler. \<open>sem_dec\<close> and \<open>sem_inc\<close> are these instructions on their own;
  \<open>sem_down\<close> and \<open>sem_up\<close> are the whole calls, as their callers with interrupts off see them.

  The code behind a call of \<open>__schedule\<close> runs when the thread is resumed. The type \<open>run\<close>
  makes this explicit: \<open>Switch\<close> carries the state in which the next thread goes on and the rest of the
  interrupted call as a function of the state in which it is resumed.
\<close>

subsection \<open>State\<close>

record sched =
  current :: ptr
  tnext :: "ptr \<Rightarrow> ptr"
  tprev :: "ptr \<Rightarrow> ptr"
  tmagic :: "ptr \<Rightarrow> u32"
  tprio :: "ptr \<Rightarrow> int"
  tblocked :: "ptr \<Rightarrow> ptr"
  tstacks :: "ptr \<Rightarrow> bool"
  texit :: "ptr \<Rightarrow> bool"
  qnext :: "ptr \<Rightarrow> ptr"
  qprev :: "ptr \<Rightarrow> ptr"
  bthread :: "ptr \<Rightarrow> ptr"
  bsem :: "ptr \<Rightarrow> ptr"
  btime :: "ptr \<Rightarrow> u32"
  btimeout :: "ptr \<Rightarrow> u32"
  btimed_out :: "ptr \<Rightarrow> bool"
  scount :: "ptr \<Rightarrow> int"
  ms_timer :: u32
  in_sched_hook :: bool
  jiffies :: u32
  last_jiffies :: u32
  pxe_need_poll :: byte
  pxe_irq_pending :: bool
  mbwrap :: "ptr \<Rightarrow> nat"
  mbhead :: "ptr \<Rightarrow> nat"
  mbtail :: "ptr \<Rightarrow> nat"
  mbdata :: "ptr \<Rightarrow> nat \<Rightarrow> ptr"

text \<open>
  \<open>tstacks\<close>: \<open>stack\<close> and \<open>rmstack\<close> of the thread are not null. \<open>texit\<close>: the saved instruction pointer of the thread is \<open>__exit_thread\<close>. The fields from \<open>jiffies\<close> on are
  the variables of \<open>pxe_poll_wakeups\<close>, the only scheduler hook of the program; the last four those of
  \<open>struct mailbox\<close>, with the pointers into the data array as indices.
\<close>

definition THREAD_MAGIC :: u32 where "THREAD_MAGIC = 0x3568eb7d"
definition INT_MAX :: int where "INT_MAX = 2 ^ 31 - 1"
definition INT_MIN :: int where "INT_MIN = - (2 ^ 31)"
definition IDLE_THREAD_PRIORITY :: int where "IDLE_THREAD_PRIORITY = INT_MAX"

text \<open>A call returns, stops the machine with \<open>kaboom\<close>, loops forever, or switches to another thread.\<close>

datatype 'a run = Ret 'a sched | Kaboom | Hang | Switch sched "sched \<Rightarrow> 'a run"

primrec after :: "'a run \<Rightarrow> ('a \<Rightarrow> sched \<Rightarrow> 'b run) \<Rightarrow> 'b run" where
  "after (Ret a st) f = f a st"
| "after Kaboom f = Kaboom"
| "after Hang f = Hang"
| "after (Switch st k) f = Switch st (\<lambda>st. after (k st) f)"

subsection \<open>The scheduler\<close>

text \<open>The walk over the thread list; \<open>best\<close> is 0 as long as no runnable thread was seen.\<close>

definition better :: "sched \<Rightarrow> ptr \<Rightarrow> ptr \<Rightarrow> ptr" where
  "better st nt best = (if tblocked st nt = 0 \<and> (best = 0 \<or> tprio st nt < tprio st best) then nt else best)"

partial_function (option) sched_walk :: "sched \<Rightarrow> ptr \<Rightarrow> ptr \<Rightarrow> ptr \<Rightarrow> ptr option option" where
  "sched_walk st first nt best =
    (if tmagic st nt \<noteq> THREAD_MAGIC then Some None
     else
       let best = better st nt best;
           nt = tnext st nt
       in if nt = first then Some (Some best) else sched_walk st first nt best)"

text \<open>\<open>sched_hook_func\<close> is an argument: \<open>None\<close> for the null pointer; \<open>None\<close> as its result does not return.\<close>

type_synonym hook = "(sched \<Rightarrow> sched option) option"

definition run_hook :: "hook \<Rightarrow> sched \<Rightarrow> sched option" where
  "run_hook hook st =
    (case hook of
       None \<Rightarrow> Some st
     | Some h \<Rightarrow> map_option (\<lambda>st. st\<lparr>in_sched_hook := False\<rparr>) (h (st\<lparr>in_sched_hook := True\<rparr>)))"

definition schedule :: "hook \<Rightarrow> sched \<Rightarrow> unit run" where
  "schedule hook st =
    (if in_sched_hook st then Ret () st
     else case run_hook hook st of
       None \<Rightarrow> Hang
     | Some st \<Rightarrow>
         (case sched_walk st (tnext st (current st)) (tnext st (current st)) 0 of
            None \<Rightarrow> Hang
          | Some None \<Rightarrow> Kaboom
          | Some (Some best) \<Rightarrow>
              if best = 0 then Kaboom
              else if best \<noteq> current st then Switch (st\<lparr>current := best\<rparr>) (Ret ())
              else Ret () st))"

definition thread_yield :: "hook \<Rightarrow> sched \<Rightarrow> unit run" where
  "thread_yield hook st = schedule hook st"

subsection \<open>Semaphores\<close>

definition sem_is_valid :: "sched \<Rightarrow> ptr \<Rightarrow> bool" where
  "sem_is_valid st sem \<longleftrightarrow> sem \<noteq> 0 \<and> qnext st sem \<noteq> 0"

definition sem_set_invalid :: "ptr \<Rightarrow> sched \<Rightarrow> sched" where
  "sem_set_invalid sem st = (if sem \<noteq> 0 then st\<lparr>qnext := (qnext st)(sem := 0)\<rparr> else st)"

definition sem_init :: "ptr \<Rightarrow> int \<Rightarrow> sched \<Rightarrow> sched" where
  "sem_init sem cnt st =
    (if sem \<noteq> 0 then st\<lparr>qnext := (qnext st)(sem := sem), qprev := (qprev st)(sem := sem), scount := (scount st)(sem := cnt)\<rparr>
     else st)"

text \<open>The current thread goes to sleep on \<open>sem\<close> with the block \<open>b\<close>, which is on its stack.\<close>

definition sem_block :: "ptr \<Rightarrow> ptr \<Rightarrow> u32 \<Rightarrow> sched \<Rightarrow> sched" where
  "sem_block b sem timeout st =
    (let now = ms_timer st;
         st = st\<lparr>bthread := (bthread st)(b := current st), bsem := (bsem st)(b := sem), btime := (btime st)(b := now),
                 btimeout := (btimeout st)(b := (if timeout \<noteq> 0 then now + timeout else 0)),
                 btimed_out := (btimed_out st)(b := False), tblocked := (tblocked st)(current st := b)\<rparr>;
         st = st\<lparr>qprev := (qprev st)(b := qprev st sem)\<rparr>;
         st = st\<lparr>qnext := (qnext st)(b := sem)\<rparr>;
         st = st\<lparr>qprev := (qprev st)(sem := b)\<rparr>
     in st\<lparr>qnext := (qnext st)(qprev st b := b)\<rparr>)"

definition sem_down_slow :: "hook \<Rightarrow> ptr \<Rightarrow> ptr \<Rightarrow> u32 \<Rightarrow> sched \<Rightarrow> u32 run" where
  "sem_down_slow hook b sem timeout st =
    (if \<not> sem_is_valid st sem then Ret (- 1) st
     else if scount st sem \<ge> 0 then Ret 0 st
     else if timeout = - 1 then Ret (- 1) (st\<lparr>scount := (scount st)(sem := scount st sem + 1)\<rparr>)
     else after (schedule hook (sem_block b sem timeout st))
       (\<lambda>_ st. Ret (if btimed_out st b then - 1 else ms_timer st - btime st b) st))"

text \<open>
  The fast paths, in \<open>sem_asm.S\<close>: \<open>decl\<close> wraps, and the jump tests the sign of the wrapped value; after \<open>incl\<close> the
  test \<open>jle\<close> is that of the true sum.
\<close>

definition decl32 :: "int \<Rightarrow> int" where "decl32 c = (if c = INT_MIN then INT_MAX else c - 1)"
definition incl32 :: "int \<Rightarrow> int" where "incl32 c = (if c = INT_MAX then INT_MIN else c + 1)"

definition sem_dec :: "ptr \<Rightarrow> sched \<Rightarrow> sched" where
  "sem_dec sem st = st\<lparr>scount := (scount st)(sem := decl32 (scount st sem))\<rparr>"

definition sem_down :: "hook \<Rightarrow> ptr \<Rightarrow> ptr \<Rightarrow> u32 \<Rightarrow> sched \<Rightarrow> u32 run" where
  "sem_down hook b sem timeout st =
    (let st = sem_dec sem st
     in if scount st sem < 0 then sem_down_slow hook b sem timeout st else Ret 0 st)"

definition sem_wake :: "ptr \<Rightarrow> ptr \<Rightarrow> sched \<Rightarrow> sched" where
  "sem_wake sem b st =
    (let st = st\<lparr>qnext := (qnext st)(sem := qnext st b)\<rparr>;
         st = st\<lparr>qprev := (qprev st)(qnext st b := sem)\<rparr>
     in st\<lparr>tblocked := (tblocked st)(bthread st b := 0)\<rparr>)"

definition sem_up_slow :: "hook \<Rightarrow> ptr \<Rightarrow> sched \<Rightarrow> unit run" where
  "sem_up_slow hook sem st =
    (if sem \<noteq> 0 \<and> qnext st sem \<noteq> sem then schedule hook (sem_wake sem (qnext st sem) st) else Ret () st)"

definition sem_inc :: "ptr \<Rightarrow> sched \<Rightarrow> sched" where
  "sem_inc sem st = st\<lparr>scount := (scount st)(sem := incl32 (scount st sem))\<rparr>"

definition sem_up :: "hook \<Rightarrow> ptr \<Rightarrow> sched \<Rightarrow> unit run" where
  "sem_up hook sem st = (if scount st sem + 1 \<le> 0 then sem_up_slow hook sem (sem_inc sem st) else Ret () (sem_inc sem st))"

subsection \<open>Starting and ending threads\<close>

definition MIN_STACK_SIZE :: u32 where "MIN_STACK_SIZE = 16384"
definition THREAD_ALIGN :: u32 where "THREAD_ALIGN = 64"
definition SIZEOF_THREAD :: u32 where "SIZEOF_THREAD = 40"

definition thread_stack_size :: "u32 \<Rightarrow> u32" where
  "thread_stack_size stack_size =
    (let stack_size = (if stack_size < MIN_STACK_SIZE then MIN_STACK_SIZE else stack_size);
         thread_mask = THREAD_ALIGN - 1
     in (stack_size + thread_mask) AND NOT thread_mask)"

text \<open>
  The structure is at the start of the stack that \<open>malloc\<close> returns, \<open>lmalloc\<close> the stack for real
  mode; both may fail. The result is the address of the thread, 0 on failure.
\<close>

definition start_thread ::
  "hook \<Rightarrow> (u32 \<Rightarrow> ptr option) \<Rightarrow> ptr option \<Rightarrow> u32 \<Rightarrow> int \<Rightarrow> sched \<Rightarrow> ptr run" where
  "start_thread hook malloc rmstack stack_size prio st =
    (case (malloc (thread_stack_size stack_size + SIZEOF_THREAD), rmstack) of
       (Some t, Some _) \<Rightarrow>
         let st = st\<lparr>tblocked := (tblocked st)(t := 0), tstacks := (tstacks st)(t := True), texit := (texit st)(t := False),
                     tprio := (tprio st)(t := prio), tmagic := (tmagic st)(t := THREAD_MAGIC)\<rparr>;
             curr = current st;
             st = st\<lparr>tprev := (tprev st)(t := curr), tnext := (tnext st)(t := tnext st curr)\<rparr>;
             st = st\<lparr>tnext := (tnext st)(curr := t)\<rparr>;
             st = st\<lparr>tprev := (tprev st)(tnext st t := t)\<rparr>
         in after (schedule hook st) (\<lambda>_ st. Ret t st)
     | _ \<Rightarrow> Ret 0 st)"

definition start_idle_thread :: "hook \<Rightarrow> (u32 \<Rightarrow> ptr option) \<Rightarrow> ptr option \<Rightarrow> sched \<Rightarrow> ptr run" where
  "start_idle_thread hook malloc rmstack st = start_thread hook malloc rmstack 4096 IDLE_THREAD_PRIORITY st"

text \<open>
  \<open>free\<close>, as far as the scheduler is concerned: it takes the semaphore \<open>msem\<close> of the allocator, with the block \<open>b\<close> if it has to
  wait, and gives it back. What it writes into the freed memory is not part of this state.
\<close>

definition free_stack :: "hook \<Rightarrow> ptr \<Rightarrow> ptr \<Rightarrow> bool \<Rightarrow> sched \<Rightarrow> unit run" where
  "free_stack hook msem b allocated st =
    (if \<not> allocated then Ret () st else after (sem_down hook b msem 0 st) (\<lambda>_ st. sem_up hook msem st))"

definition exit_thread :: "hook \<Rightarrow> ptr \<Rightarrow> ptr \<Rightarrow> sched \<Rightarrow> unit run" where
  "exit_thread hook msem b st =
    (let curr = current st;
         st = st\<lparr>tnext := (tnext st)(tprev st curr := tnext st curr)\<rparr>;
         st = st\<lparr>tprev := (tprev st)(tnext st curr := tprev st curr)\<rparr>
     in after (free_stack hook msem b (tstacks st curr) st) (\<lambda>_ st.
        after (free_stack hook msem b (tstacks st curr) st) (\<lambda>_ st.
        after (schedule hook st) (\<lambda>_ _. Kaboom))))"

text \<open>A block leaves the queue before its turn.\<close>

definition sem_unblock :: "ptr \<Rightarrow> ptr \<Rightarrow> sched \<Rightarrow> sched" where
  "sem_unblock t b st =
    (let sem = bsem st b;
         st = st\<lparr>qprev := (qprev st)(qnext st b := qprev st b)\<rparr>;
         st = st\<lparr>qnext := (qnext st)(qprev st b := qnext st b)\<rparr>
     in st\<lparr>scount := (scount st)(sem := incl32 (scount st sem)), tblocked := (tblocked st)(t := 0),
           btimed_out := (btimed_out st)(b := True)\<rparr>)"

definition kill_thread :: "hook \<Rightarrow> ptr \<Rightarrow> ptr \<Rightarrow> ptr \<Rightarrow> sched \<Rightarrow> unit run" where
  "kill_thread hook msem bl t st =
    (if t = current st then exit_thread hook msem bl st
     else
       let st = st\<lparr>texit := (texit st)(t := True), tprio := (tprio st)(t := INT_MIN)\<rparr>;
           b = tblocked st t;
           st = (if b \<noteq> 0 then sem_unblock t b st else st)
       in schedule hook st)"

subsection \<open>Time-outs\<close>

text \<open>
  The only caller is the scheduler's hook, inside which \<open>__schedule\<close> returns at once (a switch to another thread in
  the loop is \<open>None\<close>, like a loop that does not end). A time-out of 0 is none; the difference is
  compared as a signed number.
\<close>

fun returned :: "'a run \<Rightarrow> sched option" where
  "returned (Ret a st) = Some st"
| "returned _ = None"

definition expired :: "sched \<Rightarrow> ptr \<Rightarrow> bool" where
  "expired st t \<longleftrightarrow> (let b = tblocked st t in b \<noteq> 0 \<and> btimeout st b \<noteq> 0 \<and> sint (btimeout st b - ms_timer st) \<le> 0)"

partial_function (option) timeout_loop :: "sched \<Rightarrow> ptr \<Rightarrow> sched option" where
  "timeout_loop st t =
    (if t = current st then Some st
     else
       Option.bind
         (if expired st t then returned (schedule None (sem_unblock t (tblocked st t) st)) else Some st)
         (\<lambda>st. timeout_loop st (tnext st t)))"

definition thread_process_timeouts :: "sched \<Rightarrow> sched option" where
  "thread_process_timeouts st = timeout_loop st (tnext st (current st))"

text \<open>
  The scheduler hook of PXE, with the addresses of its two semaphores. It is called with
  \<open>in_sched_hook\<close> set, so that \<open>sem_up\<close> returns.
\<close>

definition pxe_poll_wakeups :: "ptr \<Rightarrow> ptr \<Rightarrow> sched \<Rightarrow> sched option" where
  "pxe_poll_wakeups poll_sem receive_sem st =
    Option.bind
      (if pxe_need_poll st = 1 then returned (sem_up None poll_sem (st\<lparr>pxe_need_poll := 3\<rparr>)) else Some st) (\<lambda>st.
    Option.bind
      (if jiffies st \<noteq> last_jiffies st then thread_process_timeouts (st\<lparr>last_jiffies := jiffies st\<rparr>) else Some st) (\<lambda>st.
      if pxe_irq_pending st then returned (sem_up None receive_sem (st\<lparr>pxe_irq_pending := False\<rparr>)) else Some st))"

subsection \<open>The root thread\<close>

definition root_sched :: "ptr \<Rightarrow> sched" where
  "root_sched root =
    \<lparr>current = root, tnext = (\<lambda>_. 0)(root := root), tprev = (\<lambda>_. 0)(root := root), tmagic = (\<lambda>_. 0)(root := THREAD_MAGIC),
     tprio = (\<lambda>_. 0), tblocked = (\<lambda>_. 0), tstacks = (\<lambda>_. False), texit = (\<lambda>_. False), qnext = (\<lambda>_. 0), qprev = (\<lambda>_. 0),
     bthread = (\<lambda>_. 0), bsem = (\<lambda>_. 0), btime = (\<lambda>_. 0), btimeout = (\<lambda>_. 0), btimed_out = (\<lambda>_. False),
     scount = (\<lambda>_. 0), ms_timer = 0, in_sched_hook = False, jiffies = 0, last_jiffies = 0, pxe_need_poll = 0,
     pxe_irq_pending = False, mbwrap = (\<lambda>_. 0), mbhead = (\<lambda>_. 0), mbtail = (\<lambda>_. 0), mbdata = (\<lambda>_ _. 0)\<rparr>"

subsection \<open>The choice of the scheduler\<close>

text \<open>
  \<open>following st ts\<close>: the threads on the list in the order in which the scheduler visits them. The current
  thread is the last of them, unless it is exiting.
\<close>

definition following :: "sched \<Rightarrow> ptr list \<Rightarrow> bool" where
  "following st ts \<longleftrightarrow> ts \<noteq> [] \<and> ring (tnext st) (tprev st) (hd ts) (tl ts) \<and> tnext st (current st) = hd ts \<and>
     (\<forall>t \<in> set ts. t \<noteq> 0 \<and> tmagic st t = THREAD_MAGIC)"

abbreviation runnable :: "sched \<Rightarrow> ptr \<Rightarrow> bool" where
  "runnable st t \<equiv> tblocked st t = 0"

definition pick :: "sched \<Rightarrow> ptr list \<Rightarrow> ptr" where
  "pick st ts = foldl (\<lambda>best t. better st t best) 0 ts"

lemma sched_walk_seg:
  "seg (tnext st) (tprev st) t ts first \<Longrightarrow> first \<notin> set ts \<Longrightarrow> \<forall>x \<in> set (t # ts). tmagic st x = THREAD_MAGIC \<Longrightarrow>
   sched_walk st first t best = Some (Some (foldl (\<lambda>best t. better st t best) best (t # ts)))"
proof (induction ts arbitrary: t best)
  case Nil
  then show ?case by (subst sched_walk.simps) simp
next
  case (Cons x ts)
  then show ?case using Cons.IH [of x "better st t best"] by (subst sched_walk.simps) (auto simp: Let_def)
qed

lemma sched_walk_pick:
  assumes "following st ts"
  shows "sched_walk st (tnext st (current st)) (tnext st (current st)) 0 = Some (Some (pick st ts))"
proof -
  obtain x xs where ts: "ts = x # xs" using assms by (cases ts) (auto simp: following_def)
  have "seg (tnext st) (tprev st) x xs x" "x \<notin> set xs" using assms by (auto simp: following_def ring_def ts)
  moreover have "tnext st (current st) = x" using assms by (simp add: following_def ts)
  ultimately show ?thesis using assms sched_walk_seg [of st x xs x 0] by (simp add: following_def ts pick_def)
qed

lemma pick_snoc: "pick st (ts @ [t]) = better st t (pick st ts)"
  by (simp add: pick_def)

text \<open>The choice is a runnable thread of the best priority, the first such after the current one.\<close>

definition first_best :: "sched \<Rightarrow> ptr list \<Rightarrow> ptr \<Rightarrow> bool" where
  "first_best st ts p \<longleftrightarrow> (\<exists>xs ys. ts = xs @ p # ys \<and> runnable st p \<and>
     (\<forall>t \<in> set xs. runnable st t \<longrightarrow> tprio st p < tprio st t) \<and>
     (\<forall>t \<in> set ys. runnable st t \<longrightarrow> tprio st p \<le> tprio st t))"

lemma first_best_last:
  "runnable st t \<Longrightarrow> \<forall>u \<in> set ts. runnable st u \<longrightarrow> tprio st t < tprio st u \<Longrightarrow> first_best st (ts @ [t]) t"
  unfolding first_best_def by (intro exI [of _ ts] exI [of _ "[]"]) simp

lemma first_best_snoc:
  "first_best st ts p \<Longrightarrow> (runnable st t \<Longrightarrow> tprio st p \<le> tprio st t) \<Longrightarrow> first_best st (ts @ [t]) p"
proof -
  assume "first_best st ts p" and t: "runnable st t \<Longrightarrow> tprio st p \<le> tprio st t"
  then obtain xs ys where "ts = xs @ p # ys" "runnable st p" "\<forall>t \<in> set xs. runnable st t \<longrightarrow> tprio st p < tprio st t"
    "\<forall>t \<in> set ys. runnable st t \<longrightarrow> tprio st p \<le> tprio st t" by (auto simp: first_best_def)
  then show ?thesis unfolding first_best_def using t by (intro exI [of _ xs] exI [of _ "ys @ [t]"]) auto
qed

lemma first_best_le: "first_best st ts p \<Longrightarrow> u \<in> set ts \<Longrightarrow> runnable st u \<Longrightarrow> tprio st p \<le> tprio st u"
  by (fastforce simp: first_best_def)

lemma first_best_mem: "first_best st ts p \<Longrightarrow> p \<in> set ts \<and> runnable st p"
  by (auto simp: first_best_def)

lemma pick_best:
  "0 \<notin> set ts \<Longrightarrow> if \<exists>t \<in> set ts. runnable st t then first_best st ts (pick st ts) else pick st ts = 0"
proof (induction ts rule: rev_induct)
  case Nil
  then show ?case by (simp add: pick_def)
next
  case (snoc t ts)
  show ?case
  proof (cases "\<exists>u \<in> set ts. runnable st u")
    case True
    then have f: "first_best st ts (pick st ts)" using snoc by auto
    then have p0: "pick st ts \<noteq> 0" using first_best_mem [OF f] snoc.prems by (metis Un_iff set_append)
    show ?thesis
    proof (cases "runnable st t \<and> tprio st t < tprio st (pick st ts)")
      case less: True
      then have "first_best st (ts @ [t]) t" using first_best_le [OF f] by (intro first_best_last) fastforce+
      moreover have "pick st (ts @ [t]) = t" using less by (simp add: pick_snoc better_def)
      ultimately show ?thesis using less by simp
    next
      case False
      then have "first_best st (ts @ [t]) (pick st ts)" using f by (intro first_best_snoc) auto
      moreover have "pick st (ts @ [t]) = pick st ts" using False p0 by (auto simp: pick_snoc better_def)
      ultimately show ?thesis using True by auto
    qed
  next
    case False
    then have "pick st ts = 0" using snoc by auto
    moreover have "\<forall>u \<in> set ts. runnable st u \<longrightarrow> tprio st t < tprio st u" using False by blast
    ultimately show ?thesis using False first_best_last [of st t ts] by (cases "runnable st t") (auto simp: pick_snoc better_def)
  qed
qed

lemma schedule_pick:
  assumes "\<not> in_sched_hook st" and "run_hook hook st = Some st1" and "following st1 ts" and "\<exists>t \<in> set ts. runnable st1 t"
  shows "schedule hook st = (if pick st1 ts = current st1 then Ret () st1 else Switch (st1\<lparr>current := pick st1 ts\<rparr>) (Ret ()))"
    and "first_best st1 ts (pick st1 ts)"
proof -
  have z: "0 \<notin> set ts" using assms(3) by (auto simp: following_def)
  from pick_best [OF z, of st1] assms(4) show f: "first_best st1 ts (pick st1 ts)" by auto
  then have "pick st1 ts \<noteq> 0" using z first_best_mem by metis
  then show "schedule hook st = (if pick st1 ts = current st1 then Ret () st1 else Switch (st1\<lparr>current := pick st1 ts\<rparr>) (Ret ()))"
    using assms(1,2) sched_walk_pick [OF assms(3)] by (simp add: schedule_def)
qed

subsection \<open>The queues of the semaphores\<close>

text \<open>
  \<open>Q\<close> lists the blocks that wait on each of the semaphores \<open>S\<close>: the blocks belong to blocked threads, and every blocked thread waits in
  one queue. The counts are not part of this: a thread that was interrupted between \<open>decl\<close> and the lock is counted and not queued.
\<close>

definition sems_ok :: "ptr set \<Rightarrow> sched \<Rightarrow> (ptr \<Rightarrow> ptr list) \<Rightarrow> bool" where
  "sems_ok S st Q \<longleftrightarrow>
     (\<forall>s \<in> S. s \<noteq> 0 \<and> ring (qnext st) (qprev st) s (Q s)) \<and>
     (\<forall>s \<in> S. \<forall>b \<in> set (Q s). b \<noteq> 0 \<and> b \<notin> S \<and> bsem st b = s \<and> tblocked st (bthread st b) = b) \<and>
     (\<forall>t b. tblocked st t = b \<and> b \<noteq> 0 \<longrightarrow> bsem st b \<in> S \<and> b \<in> set (Q (bsem st b)) \<and> bthread st b = t)"

lemma sems_ring: "sems_ok S st Q \<Longrightarrow> s \<in> S \<Longrightarrow> s \<noteq> 0 \<and> ring (qnext st) (qprev st) s (Q s)"
  by (simp add: sems_ok_def)

lemma sems_block:
  "sems_ok S st Q \<Longrightarrow> s \<in> S \<Longrightarrow> b \<in> set (Q s) \<Longrightarrow> b \<noteq> 0 \<and> b \<notin> S \<and> bsem st b = s \<and> tblocked st (bthread st b) = b"
  by (simp add: sems_ok_def)

lemma sems_blocked:
  "sems_ok S st Q \<Longrightarrow> tblocked st t \<noteq> 0 \<Longrightarrow>
   bsem st (tblocked st t) \<in> S \<and> tblocked st t \<in> set (Q (bsem st (tblocked st t))) \<and> bthread st (tblocked st t) = t"
  by (simp add: sems_ok_def)

lemma sems_disjoint:
  assumes "sems_ok S st Q" and "s \<in> S" and "s' \<in> S" and "s \<noteq> s'"
  shows "set (s # Q s) \<inter> set (s' # Q s') = {}"
  using sems_block [OF assms(1,2)] sems_block [OF assms(1,3)] assms(2-4) by fastforce

text \<open>A change of the links of one queue leaves the other queues alone.\<close>

lemma sems_frame:
  assumes ok: "sems_ok S st Q" and s: "s \<in> S" "s' \<in> S" "s' \<noteq> s"
    and ch: "\<And>p. nx p \<noteq> qnext st p \<or> pv p \<noteq> qprev st p \<Longrightarrow> p \<in> set (s # Q s) \<or> p \<notin> set (s' # Q s')"
  shows "ring nx pv s' (Q s')"
proof -
  have "nx p = qnext st p \<and> pv p = qprev st p" if "p \<in> set (s' # Q s')" for p
    using ch [of p] sems_disjoint [OF ok s(1,2)] s(3) that by blast
  then show ?thesis using sems_ring [OF ok s(2)] ring_cong [of s' "Q s'" nx "qnext st" pv "qprev st"] by blast
qed

text \<open>A block is removed from anywhere in a queue.\<close>

lemma sems_remove:
  assumes ok: "sems_ok S st Q" and s: "s \<in> S" and q: "Q s = xs @ b # ys"
    and st': "qnext st' = (qnext st)(qprev st b := qnext st b)" "qprev st' = (qprev st)(qnext st b := qprev st b)"
      "tblocked st' = (tblocked st)(bthread st b := 0)"
      "bsem st' = bsem st" "bthread st' = bthread st"
  shows "sems_ok S st' (Q(s := xs @ ys))"
proof -
  have r: "ring (qnext st) (qprev st) s (xs @ b # ys)" using sems_ring [OF ok s] q by simp
  have b: "b \<in> set (s # Q s)" using q by simp
  have links: "qnext st b \<in> set (s # Q s)" "qprev st b \<in> set (s # Q s)"
    using ring_links_in [of "qnext st" "qprev st" s "Q s" b] sems_ring [OF ok s] b by auto
  have bq: "b \<notin> set xs" "b \<notin> set ys" using r by (auto simp: ring_def)
  have bt: "x \<noteq> b \<Longrightarrow> x \<in> set (Q u) \<Longrightarrow> u \<in> S \<Longrightarrow> bthread st x \<noteq> bthread st b" for x u
    using sems_block [OF ok s, of b] sems_block [OF ok, of u x] q by fastforce
  have ring': "ring (qnext st') (qprev st') u ((Q(s := xs @ ys)) u)" if u: "u \<in> S" for u
  proof (cases "u = s")
    case True
    then show ?thesis unfolding st' using ring_unlink [OF r] by simp
  next
    case False
    have "ring (qnext st') (qprev st') u (Q u)"
      by (rule sems_frame [OF ok s u False]) (use links in \<open>auto simp: st' split: if_splits\<close>)
    then show ?thesis using False by simp
  qed
  have blk: "x \<noteq> 0 \<and> x \<notin> S \<and> bsem st' x = u \<and> tblocked st' (bthread st' x) = x"
    if "u \<in> S" "x \<in> set ((Q(s := xs @ ys)) u)" for u x
  proof -
    have x: "x \<in> set (Q u)" "x \<noteq> b" using that q bq sems_block [OF ok s, of b] sems_block [OF ok that(1), of x]
      by (auto split: if_splits)
    then show ?thesis using sems_block [OF ok that(1), of x] bt [OF x(2,1) that(1)] by (auto simp: st')
  qed
  have thr: "bsem st' x \<in> S \<and> x \<in> set ((Q(s := xs @ ys)) (bsem st' x)) \<and> bthread st' x = t"
    if "tblocked st' t = x" "x \<noteq> 0" for t x
  proof -
    have t: "t \<noteq> bthread st b" "tblocked st t = x" using that by (auto simp: st' split: if_splits)
    have x: "bsem st x \<in> S" "x \<in> set (Q (bsem st x))" "bthread st x = t" using sems_blocked [OF ok, of t] t(2) that(2) by auto
    then have "x \<noteq> b" using t(1) by auto
    then show ?thesis using x q by (auto simp: st')
  qed
  show ?thesis unfolding sems_ok_def using ring' blk thr sems_ring [OF ok] by blast
qed

subsection \<open>The effect of the operations on the queues\<close>

lemma sems_sem_wake:
  assumes ok: "sems_ok S st Q" and s: "s \<in> S" and q: "Q s = b # bs"
  shows "sems_ok S (sem_wake s b st) (Q(s := bs))"
proof -
  have "ring (qnext st) (qprev st) s (b # bs)" using sems_ring [OF ok s] q by simp
  then have "qprev st b = s" "b \<noteq> s" by (auto simp: ring_def)
  then show ?thesis using sems_remove [OF ok s, of "[]" b bs] q
    by (simp add: sem_wake_def Let_def)
qed

lemma sems_sem_unblock:
  assumes ok: "sems_ok S st Q" and t: "tblocked st t \<noteq> 0"
  defines "b \<equiv> tblocked st t"
  shows "\<exists>xs ys. Q (bsem st b) = xs @ b # ys \<and> sems_ok S (sem_unblock t b st) (Q(bsem st b := xs @ ys))"
proof -
  have b: "bsem st b \<in> S" "b \<in> set (Q (bsem st b))" "bthread st b = t" using sems_blocked [OF ok t] by (auto simp: b_def)
  then obtain xs ys where q: "Q (bsem st b) = xs @ b # ys" by (meson split_list)
  have r: "ring (qnext st) (qprev st) (bsem st b) (xs @ b # ys)" using sems_ring [OF ok b(1)] q by simp
  show ?thesis
  proof (intro exI conjI)
    have "qnext st b \<noteq> b" using seg_nx [of "qnext st" "qprev st" b ys "bsem st b"] r by (cases ys) (auto simp: ring_def seg_append)
    then show "sems_ok S (sem_unblock t b st) (Q(bsem st b := xs @ ys))"
      using b(3) by (intro sems_remove [OF ok b(1) q]) (simp_all add: sem_unblock_def Let_def)
  qed (rule q)
qed

lemma sems_sem_block:
  assumes ok: "sems_ok S st Q" and s: "s \<in> S" and b: "b \<noteq> 0" "b \<notin> S" "b \<notin> range (tblocked st)"
    and cur: "runnable st (current st)"
  shows "sems_ok S (sem_block b s timeout st) (Q(s := Q s @ [b]))"
proof -
  let ?st = "sem_block b s timeout st"
  have new: "b \<notin> set (u # Q u)" if "u \<in> S" for u using sems_block [OF ok that, of b] b that by (metis rangeI set_ConsD)
  have old: "bthread st x \<noteq> current st" if "u \<in> S" "x \<in> set (Q u)" for u x
    using sems_block [OF ok that] cur by auto
  have "qprev st s \<in> set (s # Q s)" using ring_links_in [of "qnext st" "qprev st" s "Q s" s] sems_ring [OF ok s] by simp
  then have "qprev st s \<noteq> b" "s \<noteq> b" using new [OF s] by auto
  then have st': "qnext ?st = (qnext st)(qprev st s := b, b := s)" "qprev ?st = (qprev st)(b := qprev st s, s := b)"
    "tblocked ?st = (tblocked st)(current st := b)"
    "bsem ?st = (bsem st)(b := s)" "bthread ?st = (bthread st)(b := current st)"
    by (simp_all add: sem_block_def Let_def fun_upd_twist)
  have ring': "ring (qnext ?st) (qprev ?st) u ((Q(s := Q s @ [b])) u)" if u: "u \<in> S" for u
  proof (cases "u = s")
    case True
    then show ?thesis unfolding st' using ring_insert_before [of "qnext st" "qprev st" s "Q s" b] sems_ring [OF ok s] new [OF s] by simp
  next
    case False
    have "ring (qnext ?st) (qprev ?st) u (Q u)" unfolding st'
      by (rule sems_frame [OF ok s u False]) (use \<open>qprev st s \<in> _\<close> new [OF u] in \<open>auto split: if_splits\<close>)
    then show ?thesis using False by simp
  qed
  have blk: "x \<noteq> 0 \<and> x \<notin> S \<and> bsem ?st x = u \<and> tblocked ?st (bthread ?st x) = x"
    if "u \<in> S" "x \<in> set ((Q(s := Q s @ [b])) u)" for u x
  proof (cases "x = b")
    case True
    then show ?thesis unfolding st' using that b cur new [OF that(1)] by (auto split: if_splits)
  next
    case False
    then have "x \<in> set (Q u)" using that by (auto split: if_splits)
    then show ?thesis unfolding st' using sems_block [OF ok that(1)] old [OF that(1)] False by auto
  qed
  have thr: "bsem ?st x \<in> S \<and> x \<in> set ((Q(s := Q s @ [b])) (bsem ?st x)) \<and> bthread ?st x = t"
    if "tblocked ?st t = x" "x \<noteq> 0" for t x
  proof (cases "t = current st")
    case True
    then show ?thesis using that s unfolding st' by simp
  next
    case False
    then have "tblocked st t = x" "x \<noteq> b" using that b(3) unfolding st' by auto
    then show ?thesis using sems_blocked [OF ok, of t] that(2) unfolding st' by auto
  qed
  show ?thesis unfolding sems_ok_def using ring' blk thr sems_ring [OF ok] by blast
qed

subsection \<open>The state between two calls\<close>

text \<open>
  \<open>linked\<close>: the thread list and the queues are well-formed, and the idle thread is runnable. This
  holds whenever the scheduler is entered and when the hook runs. \<open>settled\<close>: in addition the current
  thread is on the list and runs. \<open>shrinks\<close> relates the queues before and after blocks left
  them: the others keep their order.
\<close>

definition linked :: "ptr set \<Rightarrow> ptr \<Rightarrow> sched \<Rightarrow> ptr list \<Rightarrow> (ptr \<Rightarrow> ptr list) \<Rightarrow> bool" where
  "linked S idle st ts Q \<longleftrightarrow> following st ts \<and> sems_ok S st Q \<and> idle \<in> set ts \<and> runnable st idle"

definition settled :: "ptr set \<Rightarrow> ptr \<Rightarrow> sched \<Rightarrow> ptr list \<Rightarrow> (ptr \<Rightarrow> ptr list) \<Rightarrow> bool" where
  "settled S idle st ts Q \<longleftrightarrow>
     linked S idle st ts Q \<and> current st = last ts \<and> runnable st (current st) \<and> \<not> in_sched_hook st"

definition shrinks :: "(ptr \<Rightarrow> ptr list) \<Rightarrow> (ptr \<Rightarrow> ptr list) \<Rightarrow> bool" where
  "shrinks Q Q' \<longleftrightarrow> (\<forall>s. subseq (Q' s) (Q s))"

lemma shrinks_refl [simp]: "shrinks Q Q"
  by (simp add: shrinks_def)

lemma shrinks_trans [trans]: "shrinks P Q \<Longrightarrow> shrinks Q R \<Longrightarrow> shrinks P R"
  by (meson shrinks_def subseq_order.trans)

lemma shrinks_remove: "Q s = xs @ b # ys \<Longrightarrow> shrinks Q (Q(s := xs @ ys))"
  unfolding shrinks_def by (auto intro!: list_emb_append_mono)

lemma sems_cong:
  "sems_ok S st Q \<Longrightarrow> qnext st' = qnext st \<Longrightarrow> qprev st' = qprev st \<Longrightarrow>
   tblocked st' = tblocked st \<Longrightarrow> bsem st' = bsem st \<Longrightarrow> bthread st' = bthread st \<Longrightarrow> sems_ok S st' Q"
  by (simp add: sems_ok_def)

text \<open>The switch to \<open>p\<close>: the visiting order is rotated, the list and the queues stay.\<close>

lemma ring_seen_last: "ring nx pv p zs \<Longrightarrow> ring nx pv (hd (zs @ [p])) (tl (zs @ [p]))"
  by (cases zs) (auto simp: ring_rotate)

lemma following_switch:
  assumes "following st (xs @ p # ys)"
  shows "following (st\<lparr>current := p\<rparr>) (ys @ xs @ [p])"
proof -
  have "ring (tnext st) (tprev st) p (ys @ xs)"
    using assms ring_rotate_append [of "tnext st" "tprev st"] by (cases xs) (auto simp: following_def)
  moreover from this have "tnext st p = hd (ys @ xs @ [p])" using seg_nx by (fastforce simp: ring_def)
  ultimately show ?thesis using assms ring_seen_last [of "tnext st" "tprev st" p "ys @ xs"] by (auto simp: following_def)
qed

lemma linked_switch:
  assumes "linked S idle st ts Q" and "p \<in> set ts" and "runnable st p" and "\<not> in_sched_hook st"
  shows "\<exists>ts'. set ts' = set ts \<and> settled S idle (st\<lparr>current := p\<rparr>) ts' Q"
proof -
  obtain xs ys where ts: "ts = xs @ p # ys" using assms(2) by (meson split_list)
  have f: "following (st\<lparr>current := p\<rparr>) (ys @ xs @ [p])"
    using assms(1) following_switch ts by (simp add: linked_def)
  have "settled S idle (st\<lparr>current := p\<rparr>) (ys @ xs @ [p]) Q"
    using assms f ts sems_cong [of S st Q "st\<lparr>current := p\<rparr>"] by (auto simp: settled_def linked_def insert_commute Un_commute)
  then show ?thesis using ts by (intro exI [of _ "ys @ xs @ [p]"]) auto
qed

lemma settledD:
  assumes "settled S idle st ts Q"
  shows "sems_ok S st Q" and "following st ts" and "idle \<in> set ts" and "runnable st idle"
    and "current st = last ts" and "current st \<in> set ts" and "runnable st (current st)" and "\<not> in_sched_hook st"
    and "linked S idle st ts Q"
  using assms by (auto simp: settled_def linked_def following_def)

lemma sem_valid:
  assumes "sems_ok S st Q" and "s \<in> S"
  shows "sem_is_valid st s"
proof -
  have "qnext st s \<in> set (s # Q s)" using ring_links_in(1) [of "qnext st" "qprev st" s "Q s" s] sems_ring [OF assms] by simp
  then show ?thesis using sems_ring [OF assms] sems_block [OF assms, of "qnext st s"] by (auto simp: sem_is_valid_def)
qed

text \<open>A change outside the fields of the lists.\<close>

lemma linked_cong:
  assumes "linked S idle st ts Q" and "current st' = current st" and "tnext st' = tnext st" and "tprev st' = tprev st"
    and "tmagic st' = tmagic st" and "sems_ok S st' Q'" and "runnable st' idle"
  shows "linked S idle st' ts Q'"
  using assms by (simp add: linked_def following_def)

lemma linked_fields:
  "linked S idle (st\<lparr>in_sched_hook := h\<rparr>) ts Q = linked S idle st ts Q"
  "linked S idle (st\<lparr>pxe_need_poll := n\<rparr>) ts Q = linked S idle st ts Q"
  "linked S idle (st\<lparr>last_jiffies := j\<rparr>) ts Q = linked S idle st ts Q"
  "linked S idle (st\<lparr>pxe_irq_pending := i\<rparr>) ts Q = linked S idle st ts Q"
  "linked S idle (st\<lparr>scount := c\<rparr>) ts Q = linked S idle st ts Q"
  by (simp_all add: linked_def following_def sems_ok_def)

lemma settled_count: "settled S idle (st\<lparr>scount := c\<rparr>) ts Q = settled S idle st ts Q"
  by (simp add: settled_def linked_fields)

lemma sem_block_fields:
  "current (sem_block b s timeout st) = current st" "tnext (sem_block b s timeout st) = tnext st"
  "tprev (sem_block b s timeout st) = tprev st" "tmagic (sem_block b s timeout st) = tmagic st"
  "tblocked (sem_block b s timeout st) = (tblocked st)(current st := b)" "in_sched_hook (sem_block b s timeout st) = in_sched_hook st"
  "tprio (sem_block b s timeout st) = tprio st" "jiffies (sem_block b s timeout st) = jiffies st"
  "last_jiffies (sem_block b s timeout st) = last_jiffies st" "pxe_need_poll (sem_block b s timeout st) = pxe_need_poll st"
  by (simp_all add: sem_block_def Let_def)

lemma sem_wake_fields:
  "current (sem_wake s b st) = current st" "tnext (sem_wake s b st) = tnext st"
  "tprev (sem_wake s b st) = tprev st" "tmagic (sem_wake s b st) = tmagic st"
  "tblocked (sem_wake s b st) = (tblocked st)(bthread st b := 0)" "in_sched_hook (sem_wake s b st) = in_sched_hook st"
  "tprio (sem_wake s b st) = tprio st"
  by (simp_all add: sem_wake_def Let_def)

lemma sem_unblock_fields:
  "current (sem_unblock t b st) = current st" "tnext (sem_unblock t b st) = tnext st"
  "tprev (sem_unblock t b st) = tprev st" "tmagic (sem_unblock t b st) = tmagic st"
  "tblocked (sem_unblock t b st) = (tblocked st)(t := 0)" "in_sched_hook (sem_unblock t b st) = in_sched_hook st"
  "tprio (sem_unblock t b st) = tprio st"
  by (simp_all add: sem_unblock_def Let_def)

lemmas thread_fields = sem_block_fields sem_wake_fields sem_unblock_fields

lemma settled_ring: "settled S idle st ts Q \<Longrightarrow> ring (tnext st) (tprev st) (current st) (butlast ts)"
proof -
  assume a: "settled S idle st ts Q"
  then have ts: "ts = butlast ts @ [current st]" and f: "following st ts"
    using settledD(2,5) [OF a] by (auto simp: following_def)
  show ?thesis using f by (subst (asm) ts, subst (asm) ts, cases "butlast ts") (auto simp: following_def ring_rotate)
qed

text \<open>The assignments of \<open>start_thread\<close> before it calls the scheduler.\<close>

definition link_thread :: "ptr \<Rightarrow> int \<Rightarrow> sched \<Rightarrow> sched" where
  "link_thread t prio st =
     st\<lparr>tblocked := (tblocked st)(t := 0), tstacks := (tstacks st)(t := True), texit := (texit st)(t := False), tprio := (tprio st)(t := prio),
        tmagic := (tmagic st)(t := THREAD_MAGIC), tnext := (tnext st)(t := tnext st (current st), current st := t),
        tprev := (tprev st)(t := current st, tnext st (current st) := t)\<rparr>"

lemma start_thread_link:
  "malloc (thread_stack_size stack_size + SIZEOF_THREAD) = Some t \<Longrightarrow> rmstack = Some r \<Longrightarrow> t \<noteq> current st \<Longrightarrow>
   start_thread hook malloc rmstack stack_size prio st = after (schedule hook (link_thread t prio st)) (\<lambda>_ st. Ret t st)"
  by (simp add: start_thread_def link_thread_def Let_def)

lemma linked_link_thread:
  assumes st: "settled S idle st ts Q" and t: "t \<noteq> 0" "t \<notin> set ts" "runnable st t"
  shows "linked S idle (link_thread t prio st) (t # ts) Q"
proof -
  note D = settledD [OF st]
  let ?st = "link_thread t prio st"
  have ts: "butlast ts @ [current st] = ts" using D(2,5) by (auto simp: following_def)
  have "t \<notin> set (current st # butlast ts)" using t(2) D(6) by (auto dest: in_set_butlastD)
  then have "ring (tnext ?st) (tprev ?st) (current st) (t # butlast ts)"
    using ring_insert_after [OF settled_ring [OF st], of t] by (simp add: link_thread_def)
  from ring_seen_last [OF this] have "ring (tnext ?st) (tprev ?st) t ts" using ts by simp
  then have "following ?st (t # ts)" using D(2) t(1) D(6) by (simp add: following_def link_thread_def)
  moreover have "sems_ok S ?st Q" using t(3) by (intro sems_cong [OF D(1)]) (simp_all add: link_thread_def fun_upd_idem)
  ultimately show ?thesis using D(3,4) by (simp add: linked_def link_thread_def)
qed

text \<open>The current thread leaves the list.\<close>

definition unlink_thread :: "sched \<Rightarrow> sched" where
  "unlink_thread st =
     st\<lparr>tnext := (tnext st)(tprev st (current st) := tnext st (current st)),
        tprev := (tprev st)(tnext st (current st) := tprev st (current st))\<rparr>"

lemma exit_thread_unlink:
  assumes st: "settled S idle st ts Q" and cur: "current st \<noteq> idle"
  shows "exit_thread hook msem b st =
      after (free_stack hook msem b (tstacks st (current st)) (unlink_thread st)) (\<lambda>_ st1.
      after (free_stack hook msem b (tstacks st1 (current st)) st1) (\<lambda>_ st2. after (schedule hook st2) (\<lambda>_ _. Kaboom)))"
    and "linked S idle (unlink_thread st) (butlast ts) Q"
    and "current st \<notin> set (butlast ts)" and "set (butlast ts) = set ts - {current st}"
proof -
  note D = settledD [OF st]
  have "ts = butlast ts @ [current st]" using D(2,5) by (auto simp: following_def)
  then obtain xs where ts: "ts = xs @ [current st]" by blast
  have r: "ring (tnext st) (tprev st) (current st) (butlast ts)" by (rule settled_ring [OF st])
  then show nc: "current st \<notin> set (butlast ts)" by (simp add: ring_def)
  then show s: "set (butlast ts) = set ts - {current st}" using ts by auto
  obtain z zs where z: "butlast ts = z # zs" using D(3) cur s by (cases "butlast ts") auto
  have "tprev st (current st) = last (z # zs)" "tnext st (current st) = z"
    using r seg_pv [of "tnext st" "tprev st" z zs "current st"] unfolding ring_def z by simp_all
  moreover have "last (z # zs) \<in> set (butlast ts)" unfolding z by (rule last_in_set) simp
  ultimately have l: "tprev st (current st) \<noteq> current st" "tnext st (current st) = z" using nc by auto
  then show "exit_thread hook msem b st =
      after (free_stack hook msem b (tstacks st (current st)) (unlink_thread st)) (\<lambda>_ st1.
      after (free_stack hook msem b (tstacks st1 (current st)) st1) (\<lambda>_ st2. after (schedule hook st2) (\<lambda>_ _. Kaboom)))"
    by (simp add: exit_thread_def unlink_thread_def Let_def)
  have "ring (tnext st) (tprev st) z (zs @ current st # [])" using r z by (simp add: ring_rotate)
  from ring_unlink [OF this] have "ring (tnext (unlink_thread st)) (tprev (unlink_thread st)) z zs"
    by (simp add: unlink_thread_def)
  moreover have "u \<noteq> 0 \<and> tmagic st u = THREAD_MAGIC" if "u \<in> set (butlast ts)" for u
    using D(2) s that by (simp add: following_def)
  ultimately have "following (unlink_thread st) (butlast ts)"
    using l unfolding following_def z by (simp add: unlink_thread_def)
  moreover have "sems_ok S (unlink_thread st) Q" by (rule sems_cong [OF D(1)]) (simp_all add: unlink_thread_def)
  ultimately show "linked S idle (unlink_thread st) (butlast ts) Q" using D(3,4) cur s by (simp add: linked_def unlink_thread_def)
qed

text \<open>The state in which the program goes on after a call, in this thread or in another.\<close>

fun outcome :: "'a run \<Rightarrow> sched option" where
  "outcome (Ret a st) = Some st"
| "outcome (Switch st k) = Some st"
| "outcome _ = None"

lemma outcome_after: "outcome r = Some st \<Longrightarrow> (\<And>a st. outcome (f a st) = Some st) \<Longrightarrow> outcome (after r f) = Some st"
  by (cases r) auto

text \<open>What a call may change: threads are unblocked, and blocks leave the queues.\<close>

definition progress :: "sched \<Rightarrow> (ptr \<Rightarrow> ptr list) \<Rightarrow> sched \<Rightarrow> (ptr \<Rightarrow> ptr list) \<Rightarrow> bool" where
  "progress st Q st' Q' \<longleftrightarrow> shrinks Q Q' \<and> (\<forall>t. tblocked st' t \<in> {0, tblocked st t})"

lemma progress_refl [simp]: "progress st Q st Q"
  by (simp add: progress_def)

lemma progress_trans: "progress st Q st1 Q1 \<Longrightarrow> progress st1 Q1 st' Q' \<Longrightarrow> progress st Q st' Q'"
  using shrinks_trans [of Q Q1 Q'] unfolding progress_def by (metis insert_iff singletonD)

lemma progress_runnable: "progress st Q st' Q' \<Longrightarrow> runnable st t \<Longrightarrow> runnable st' t"
  unfolding progress_def by (metis insert_iff singletonD)

lemma schedule_settles:
  assumes "\<not> in_sched_hook st" and h: "run_hook hook st = Some st1" and l: "linked S idle st1 ts Q" "\<not> in_sched_hook st1"
  shows "\<exists>p ts'. schedule hook st = (if p = current st1 then Ret () st1 else Switch (st1\<lparr>current := p\<rparr>) (Ret ())) \<and>
    p \<in> set ts \<and> set ts' = set ts \<and> settled S idle (st1\<lparr>current := p\<rparr>) ts' Q"
proof -
  have ex: "\<exists>t \<in> set ts. runnable st1 t" and f: "following st1 ts" using l(1) by (auto simp: linked_def)
  note s = schedule_pick [OF assms(1) h f ex]
  have p: "pick st1 ts \<in> set ts" "runnable st1 (pick st1 ts)" using first_best_mem [OF s(2)] by auto
  then show ?thesis using s(1) linked_switch [OF l(1) p l(2)] by blast
qed

text \<open>\<open>__sem_up_slow\<close> wakes the first block of the queue.\<close>

lemma linked_sem_up_slow:
  assumes l: "linked S idle st ts Q" and s: "s \<in> S"
  shows "\<exists>st'. (\<forall>hook. sem_up_slow hook s st = (if Q s = [] then Ret () st' else schedule hook st')) \<and>
    linked S idle st' ts (Q(s := tl (Q s))) \<and> current st' = current st \<and> in_sched_hook st' = in_sched_hook st \<and>
    progress st Q st' (Q(s := tl (Q s)))"
proof -
  have ok: "sems_ok S st Q" and idle: "runnable st idle" using l by (auto simp: linked_def)
  have q: "s \<noteq> 0" "ring (qnext st) (qprev st) s (Q s)" using sems_ring [OF ok s] by auto
  have sh: "shrinks Q (Q(s := tl (Q s)))" by (cases "Q s") (auto simp: shrinks_def)
  show ?thesis
  proof (cases "Q s")
    case Nil
    then have "Q(s := tl (Q s)) = Q" by (auto simp: fun_eq_iff)
    moreover have "qnext st s = s" using q(2) Nil by (simp add: ring_def)
    then have "sem_up_slow hook s st = Ret () st" for hook by (simp add: sem_up_slow_def)
    ultimately show ?thesis using Nil l by (intro exI [of _ st]) simp
  next
    case (Cons b bs)
    then have n: "qnext st s = b" "b \<noteq> s" using q by (auto simp: ring_def)
    let ?st = "sem_wake s b st"
    have "sem_up_slow hook s st = schedule hook ?st" for hook using n q(1) by (simp add: sem_up_slow_def)
    moreover have "sems_ok S ?st (Q(s := bs))" using sems_sem_wake [OF ok s Cons] .
    then have "linked S idle ?st ts (Q(s := bs))"
      by (rule linked_cong [OF l, rotated 4]) (use idle in \<open>simp_all add: thread_fields\<close>)
    ultimately show ?thesis using Cons sh by (intro exI [of _ ?st]) (simp add: progress_def thread_fields)
  qed
qed

text \<open>
  The last part of \<open>__exit_thread\<close>: whether it waits for the semaphore of the allocator or frees the stacks at once, it comes to the
  scheduler with the thread off the list.
\<close>

lemma free_stack_cases:
  assumes "sem_is_valid st msem"
  obtains c where "\<And>hook. free_stack hook msem b a st = Ret () (st\<lparr>scount := c\<rparr>)"
  | f where "\<And>hook. free_stack hook msem b a st = after (schedule hook (sem_block b msem 0 (sem_dec msem st))) (f hook)"
proof -
  have v: "sem_is_valid (sem_dec msem st) msem" using assms by (simp add: sem_is_valid_def sem_dec_def)
  have aa: "after (after r f) g = after r (\<lambda>a st. after (f a st) g)" for r :: "unit run" and f :: "unit \<Rightarrow> sched \<Rightarrow> u32 run" and g :: "u32 \<Rightarrow> sched \<Rightarrow> unit run"
    by (induction r) auto
  consider "\<not> a" | "a" "scount (sem_dec msem st) msem \<ge> 0" | "a" "scount (sem_dec msem st) msem < 0" by linarith
  then show thesis
  proof cases
    case 1
    then show thesis using that(1) [of "scount st"] by (simp add: free_stack_def)
  next
    case 2
    then have "free_stack hook msem b a st = Ret () (sem_inc msem (sem_dec msem st))" for hook by (simp add: free_stack_def sem_down_def sem_up_def)
    then show thesis using that(1) [of "scount (sem_inc msem (sem_dec msem st))"] by (simp add: sem_inc_def sem_dec_def)
  next
    case 3
    then have "free_stack hook msem b a st = after (schedule hook (sem_block b msem 0 (sem_dec msem st)))
      (\<lambda>_ st. sem_up hook msem st)" for hook
      using v by (simp add: free_stack_def sem_down_def sem_down_slow_def aa)
    then show thesis using that(2) [of "\<lambda>hook _ st. sem_up hook msem st"] by blast
  qed
qed

definition off_thread :: "sched \<Rightarrow> sched \<Rightarrow> bool" where
  "off_thread st st1 \<longleftrightarrow> current st1 = current st \<and> in_sched_hook st1 = in_sched_hook st \<and> jiffies st1 = jiffies st \<and> last_jiffies st1 = last_jiffies st \<and>
     pxe_need_poll st1 = pxe_need_poll st \<and> (\<forall>t. t \<noteq> current st \<longrightarrow> tblocked st1 t = tblocked st t)"

lemma after_assoc: "after (after r f) g = after r (\<lambda>a st. after (f a st) g)"
  by (induction r) auto

lemma wait_linked:
  assumes l: "linked S idle st ts Q" and s: "s \<in> S" and b: "b \<noteq> 0" "b \<notin> S" "b \<notin> range (tblocked st)"
    and cur: "runnable st (current st)" "current st \<noteq> idle"
  shows "linked S idle (sem_block b s timeout st) ts (Q(s := Q s @ [b]))"
proof -
  have ok: "sems_ok S st Q" and idle: "runnable st idle" using l by (auto simp: linked_def)
  have "sems_ok S (sem_block b s timeout st) (Q(s := Q s @ [b]))" by (rule sems_sem_block [OF ok s b cur(1)])
  then show ?thesis by (rule linked_cong [OF l, rotated 4]) (use idle cur(2) in \<open>simp_all add: thread_fields\<close>)
qed

lemma free_stack_linked:
  assumes l: "linked S idle st ts Q" and m: "msem \<in> S" and b: "b \<noteq> 0" "b \<notin> S" "b \<notin> range (tblocked st)"
    and cur: "runnable st (current st)" "current st \<noteq> idle"
  obtains c where "\<And>hook. free_stack hook msem b a st = Ret () (st\<lparr>scount := c\<rparr>)"
  | st1 f where "\<And>hook. free_stack hook msem b a st = after (schedule hook st1) (f hook)" "linked S idle st1 ts (Q(msem := Q msem @ [b]))" "off_thread st st1"
proof -
  have v: "sem_is_valid st msem" using l m sem_valid by (auto simp: linked_def)
  let ?st1 = "sem_block b msem 0 (sem_dec msem st)"
  have "linked S idle ?st1 ts (Q(msem := Q msem @ [b]))" using l m b cur by (intro wait_linked) (simp_all add: sem_dec_def linked_fields)
  moreover have "off_thread st ?st1" by (simp add: off_thread_def thread_fields sem_dec_def)
  ultimately show thesis using free_stack_cases [OF v, of b a] that by metis
qed

lemma exit_thread_schedule:
  assumes st: "settled S idle st ts Q" and cur: "current st \<noteq> idle" and m: "msem \<in> S" and b: "b \<noteq> 0" "b \<notin> S" "b \<notin> range (tblocked st)"
  obtains st1 f Q1 where "\<And>hook. exit_thread hook msem b st = after (schedule hook st1) (f hook)" "linked S idle st1 (butlast ts) Q1"
    "off_thread st st1" "shrinks (Q(msem := Q msem @ [b])) Q1"
proof -
  note E = exit_thread_unlink [OF st cur]
  note D = settledD [OF st]
  have sh: "shrinks (Q(msem := Q msem @ [b])) Q" by (simp add: shrinks_def prefix_imp_subseq)
  let ?u = "unlink_thread st"
  have u: "current ?u = current st" "tblocked ?u = tblocked st" "off_thread st ?u" by (simp_all add: unlink_thread_def off_thread_def)
  have up: "linked S idle (?u\<lparr>scount := c\<rparr>) (butlast ts) Q" "off_thread st (?u\<lparr>scount := c\<rparr>)" for c
    using E(2) u(3) by (simp_all add: linked_fields off_thread_def)
  have r: "runnable ?u (current ?u)" "current ?u \<noteq> idle" "b \<notin> range (tblocked ?u)" using D(7) cur b(3) u by auto
  have off: "off_thread st st1" if "off_thread (?u\<lparr>scount := c\<rparr>) st1" for st1 c using that u by (simp add: off_thread_def unlink_thread_def)
  have off0: "off_thread st st1" if "off_thread ?u st1" for st1 using that u by (simp add: off_thread_def unlink_thread_def)
  show thesis
  proof (rule free_stack_linked [OF E(2) m b(1,2) r(3,1,2), of "tstacks st (current st)"])
    fix c
    assume f1: "\<And>hook. free_stack hook msem b (tstacks st (current st)) ?u = Ret () (?u\<lparr>scount := c\<rparr>)"
    let ?v = "?u\<lparr>scount := c\<rparr>"
    have rv: "runnable ?v (current ?v)" "current ?v \<noteq> idle" "b \<notin> range (tblocked ?v)" using r by simp_all
    show thesis
    proof (rule free_stack_linked [OF up(1) m b(1,2) rv(3,1,2), of "tstacks ?v (current st)"])
      fix d
      assume "\<And>hook. free_stack hook msem b (tstacks ?v (current st)) ?v = Ret () (?v\<lparr>scount := d\<rparr>)"
      then show thesis using that [of "?v\<lparr>scount := d\<rparr>" "\<lambda>_ _ _. Kaboom" Q] E(1) f1 up [of d] sh by simp
    next
      fix st1 f
      assume "\<And>hook. free_stack hook msem b (tstacks ?v (current st)) ?v = after (schedule hook st1) (f hook)"
        "linked S idle st1 (butlast ts) (Q(msem := Q msem @ [b]))" "off_thread ?v st1"
      then show thesis using that [of st1 "\<lambda>hook a st. after (f hook a st) (\<lambda>_ st2. after (schedule hook st2) (\<lambda>_ _. Kaboom))" "Q(msem := Q msem @ [b])"]
          E(1) f1 off by (simp add: after_assoc)
    qed
  next
    fix st1 f
    assume "\<And>hook. free_stack hook msem b (tstacks st (current st)) ?u = after (schedule hook st1) (f hook)"
      "linked S idle st1 (butlast ts) (Q(msem := Q msem @ [b]))" "off_thread ?u st1"
    then show thesis using that [of st1 "\<lambda>hook a st1. after (f hook a st1) (\<lambda>_ st1. after (free_stack hook msem b (tstacks st1 (current st)) st1)
        (\<lambda>_ st2. after (schedule hook st2) (\<lambda>_ _. Kaboom)))" "Q(msem := Q msem @ [b])"] E(1) off0 by (simp add: after_assoc)
  qed
qed

text \<open>
  The contract of the scheduler hook: it returns, keeps the lists well-formed and blocks no thread. When the current thread has left the list it
  does so if it returns.
\<close>

locale scheduler_hook =
  fixes S :: "ptr set" and idle :: ptr and hook :: hook
  assumes hook_keeps:
    "linked S idle st ts Q \<Longrightarrow> current st = last ts \<Longrightarrow> \<not> in_sched_hook st \<Longrightarrow>
     \<exists>st' Q'. run_hook hook st = Some st' \<and> linked S idle st' ts Q' \<and> current st' = current st \<and> \<not> in_sched_hook st' \<and> progress st Q st' Q'"
begin

lemma schedule_keeps:
  assumes "linked S idle st ts Q" and "current st = last ts" and "\<not> in_sched_hook st"
  shows "\<exists>st' ts' Q'. outcome (schedule hook st) = Some st' \<and> settled S idle st' ts' Q' \<and> set ts' = set ts \<and> progress st Q st' Q'"
proof -
  obtain st1 Q' where h: "run_hook hook st = Some st1" and l: "linked S idle st1 ts Q'" "\<not> in_sched_hook st1"
    and pr: "progress st Q st1 Q'" using hook_keeps [OF assms] by blast
  obtain p ts' where p: "schedule hook st = (if p = current st1 then Ret () st1 else Switch (st1\<lparr>current := p\<rparr>) (Ret ()))"
    "set ts' = set ts" "settled S idle (st1\<lparr>current := p\<rparr>) ts' Q'" using schedule_settles [OF assms(3) h l] by blast
  have "outcome (schedule hook st) = Some (st1\<lparr>current := p\<rparr>)" using p(1) by auto
  moreover have "progress st Q (st1\<lparr>current := p\<rparr>) Q'" using pr by (simp add: progress_def)
  ultimately show ?thesis using p(2,3) by blast
qed

lemma settled_schedule_keeps:
  "settled S idle st ts Q \<Longrightarrow>
   \<exists>st' ts' Q'. outcome (schedule hook st) = Some st' \<and> settled S idle st' ts' Q' \<and> set ts' = set ts \<and> progress st Q st' Q'"
  using schedule_keeps by (simp add: settled_def)

lemma down_slow_keeps:
  assumes st: "settled S idle st ts Q" and s: "s \<in> S" and b: "b \<noteq> 0" "b \<notin> S" "b \<notin> range (tblocked st)" and cur: "current st \<noteq> idle"
  shows "\<exists>st' ts' Q'. outcome (sem_down_slow hook b s timeout st) = Some st' \<and> settled S idle st' ts' Q' \<and>
    set ts' = set ts \<and> shrinks (Q(s := Q s @ [b])) Q' \<and> (\<forall>t. t \<noteq> current st \<longrightarrow> tblocked st' t \<in> {0, tblocked st t})"
proof -
  note D = settledD [OF st]
  have sh: "shrinks (Q(s := Q s @ [b])) Q" by (simp add: shrinks_def prefix_imp_subseq)
  have v: "sem_is_valid st s" by (rule sem_valid [OF D(1) s])
  consider (free) "scount st s \<ge> 0" | (imm) "scount st s < 0" "timeout = - 1" | (block) "scount st s < 0" "timeout \<noteq> - 1" by linarith
  then show ?thesis
  proof cases
    case free
    then have "outcome (sem_down_slow hook b s timeout st) = Some st" using v by (simp add: sem_down_slow_def)
    then show ?thesis using st sh by fastforce
  next
    case imm
    then have "outcome (sem_down_slow hook b s timeout st) = Some (st\<lparr>scount := (scount st)(s := scount st s + 1)\<rparr>)" using v by (simp add: sem_down_slow_def)
    then show ?thesis using st sh settled_count by fastforce
  next
    case block
    let ?st2 = "sem_block b s timeout st"
    have d: "sem_down_slow hook b s timeout st = after (schedule hook ?st2)
       (\<lambda>_ st. Ret (if btimed_out st b then - 1 else ms_timer st - btime st b) st)"
      using block v by (simp add: sem_down_slow_def)
    have "linked S idle ?st2 ts (Q(s := Q s @ [b]))" by (rule wait_linked [OF D(9) s b D(7) cur])
    moreover have "current ?st2 = last ts" "\<not> in_sched_hook ?st2" using D(5,8) by (simp_all add: thread_fields)
    ultimately obtain st' ts' Q' where r: "outcome (schedule hook ?st2) = Some st'" "settled S idle st' ts' Q'" "set ts' = set ts"
      "progress ?st2 (Q(s := Q s @ [b])) st' Q'" using schedule_keeps by blast
    have "outcome (sem_down_slow hook b s timeout st) = Some st'" using r(1) unfolding d by (intro outcome_after) simp_all
    moreover have "\<forall>t. t \<noteq> current st \<longrightarrow> tblocked st' t \<in> {0, tblocked st t}"
      using r(4) by (auto simp: progress_def thread_fields)
    ultimately show ?thesis using r unfolding progress_def by blast
  qed
qed

lemma up_slow_keeps:
  assumes st: "settled S idle st ts Q" and s: "s \<in> S"
  shows "\<exists>st' ts' Q'. outcome (sem_up_slow hook s st) = Some st' \<and> settled S idle st' ts' Q' \<and> set ts' = set ts \<and>
    shrinks (Q(s := tl (Q s))) Q' \<and> progress st Q st' Q'"
proof -
  note D = settledD [OF st]
  obtain st2 where u: "sem_up_slow hook s st = (if Q s = [] then Ret () st2 else schedule hook st2)"
    and l: "linked S idle st2 ts (Q(s := tl (Q s)))" "current st2 = last ts" "\<not> in_sched_hook st2"
    and pr: "progress st Q st2 (Q(s := tl (Q s)))" using linked_sem_up_slow [OF D(9) s] D(5,8) by metis
  show ?thesis
  proof (cases "Q s = []")
    case True
    then have "settled S idle st2 ts (Q(s := tl (Q s)))" using l D(5,7) progress_runnable [OF pr] by (simp add: settled_def)
    moreover have "outcome (sem_up_slow hook s st) = Some st2" using u True by simp
    ultimately show ?thesis using pr shrinks_refl by blast
  next
    case False
    from schedule_keeps [OF l] obtain st' ts' Q' where r: "outcome (schedule hook st2) = Some st'" "settled S idle st' ts' Q'" "set ts' = set ts"
      "progress st2 (Q(s := tl (Q s))) st' Q'" by blast
    moreover from this(4) have "progress st Q st' Q'" by (rule progress_trans [OF pr])
    ultimately show ?thesis using u False by (auto simp: progress_def)
  qed
qed

lemma start_keeps:
  assumes st: "settled S idle st ts Q" and t: "t \<noteq> 0" "t \<notin> set ts" "runnable st t"
    and m: "malloc (thread_stack_size stack_size + SIZEOF_THREAD) = Some t" "rmstack = Some r"
  shows "\<exists>st' ts' Q'. outcome (start_thread hook malloc rmstack stack_size prio st) = Some st' \<and> settled S idle st' ts' Q' \<and>
    set ts' = insert t (set ts) \<and> progress st Q st' Q'"
proof -
  note D = settledD [OF st]
  let ?st = "link_thread t prio st"
  have "t \<noteq> current st" using t(2) D(6) by auto
  note s = start_thread_link [where malloc = malloc, OF m this]
  have "current ?st = last (t # ts)" "\<not> in_sched_hook ?st" using D(5,6,8) by (auto simp: link_thread_def)
  from schedule_keeps [OF linked_link_thread [OF st t] this] obtain st' ts' Q' where
    r: "outcome (schedule hook ?st) = Some st'" "settled S idle st' ts' Q'" "set ts' = insert t (set ts)" "progress ?st Q st' Q'" by auto
  have "progress st Q st' Q'" using r(4) t(3) by (auto simp: progress_def link_thread_def split: if_splits)
  moreover have "outcome (start_thread hook malloc rmstack stack_size prio st) = Some st'" unfolding s using r(1) by (intro outcome_after) simp_all
  ultimately show ?thesis using r(2,3) by blast
qed

lemma kill_keeps:
  assumes st: "settled S idle st ts Q" and t: "t \<noteq> current st"
  shows "\<exists>st' ts' Q'. outcome (kill_thread hook msem bl t st) = Some st' \<and> settled S idle st' ts' Q' \<and> set ts' = set ts \<and> progress st Q st' Q' \<and>
    runnable st' t"
proof -
  note D = settledD [OF st]
  let ?st1 = "st\<lparr>texit := (texit st)(t := True), tprio := (tprio st)(t := INT_MIN)\<rparr>"
  let ?st2 = "if tblocked st t \<noteq> 0 then sem_unblock t (tblocked st t) ?st1 else ?st1"
  have k: "kill_thread hook msem bl t st = schedule hook ?st2" using t by (simp add: kill_thread_def Let_def)
  have ok1: "sems_ok S ?st1 Q" using D(1) by (rule sems_cong) simp_all
  obtain Q1 where q: "sems_ok S ?st2 Q1" "shrinks Q Q1"
  proof (cases "tblocked st t = 0")
    case True
    then show thesis using that [of Q] ok1 by simp
  next
    case False
    then obtain xs ys where "Q (bsem st (tblocked st t)) = xs @ tblocked st t # ys"
      "sems_ok S (sem_unblock t (tblocked st t) ?st1) (Q(bsem st (tblocked st t) := xs @ ys))"
      using sems_sem_unblock [OF ok1, of t] by auto
    then show thesis using that shrinks_remove False by simp
  qed
  have r: "progress st Q ?st2 Q1" using q(2) by (simp add: thread_fields progress_def)
  have "linked S idle ?st2 ts Q1"
    by (rule linked_cong [OF D(9), rotated 4, OF q(1)]) (use D(4) in \<open>simp_all add: thread_fields\<close>)
  moreover have "current ?st2 = last ts" "\<not> in_sched_hook ?st2" using D(5,8) by (simp_all add: thread_fields)
  ultimately obtain st' ts' Q' where o: "outcome (schedule hook ?st2) = Some st'" "settled S idle st' ts' Q'" "set ts' = set ts"
    and p: "progress ?st2 Q1 st' Q'" using schedule_keeps by blast
  have "runnable ?st2 t" by (simp add: thread_fields)
  then have "runnable st' t" using progress_runnable [OF p] by simp
  moreover have "progress st Q st' Q'" by (rule progress_trans [OF r p])
  ultimately show ?thesis using o k by auto
qed

end

locale exit_hook = scheduler_hook +
  assumes exit_hook_keeps:
    "linked S idle st ts Q \<Longrightarrow> current st \<notin> set ts \<Longrightarrow> \<not> in_sched_hook st \<Longrightarrow> run_hook hook st = Some st' \<Longrightarrow>
     \<exists>Q'. linked S idle st' ts Q' \<and> current st' = current st \<and> \<not> in_sched_hook st' \<and> progress st Q st' Q'"
begin

lemma exit_keeps:
  assumes st: "settled S idle st ts Q" and cur: "current st \<noteq> idle" and m: "msem \<in> S" and b: "b \<noteq> 0" "b \<notin> S" "b \<notin> range (tblocked st)"
    and e: "outcome (exit_thread hook msem b st) = Some st'"
  shows "\<exists>ts' Q'. settled S idle st' ts' Q' \<and> set ts' = set ts - {current st} \<and> shrinks (Q(msem := Q msem @ [b])) Q' \<and>
    (\<forall>t. t \<noteq> current st \<longrightarrow> tblocked st' t \<in> {0, tblocked st t})"
proof (rule exit_thread_schedule [OF st cur m b])
  fix st1 f Q1
  assume x: "\<And>hook. exit_thread hook msem b st = after (schedule hook st1) (f hook)" and l: "linked S idle st1 (butlast ts) Q1"
    and off: "off_thread st st1" and sh: "shrinks (Q(msem := Q msem @ [b])) Q1"
  have u: "current st1 = current st" "\<not> in_sched_hook st1" using settledD(8) [OF st] off by (simp_all add: off_thread_def)
  have nc: "current st1 \<notin> set (butlast ts)" "set (butlast ts) = set ts - {current st}" using exit_thread_unlink(3,4) [OF st cur] u by simp_all
  obtain st2 where h: "run_hook hook st1 = Some st2" using e u(2) unfolding x by (cases "run_hook hook st1") (auto simp: schedule_def)
  obtain Q' where k: "linked S idle st2 (butlast ts) Q'" "\<not> in_sched_hook st2" "current st2 = current st1" "progress st1 Q1 st2 Q'"
    using exit_hook_keeps [OF l nc(1) u(2) h] by blast
  obtain p ts' where p: "schedule hook st1 = (if p = current st2 then Ret () st2 else Switch (st2\<lparr>current := p\<rparr>) (Ret ()))"
    "p \<in> set (butlast ts)" "set ts' = set (butlast ts)" "settled S idle (st2\<lparr>current := p\<rparr>) ts' Q'"
    using schedule_settles [OF u(2) h k(1,2)] by blast
  have "p \<noteq> current st2" using p(2) nc(1) k(3) by auto
  then have "st' = st2\<lparr>current := p\<rparr>" using e unfolding x p(1) by simp
  moreover have "tblocked st2 t \<in> {0, tblocked st t}" if "t \<noteq> current st" for t
    using k(4) off that unfolding progress_def off_thread_def by metis
  moreover have "shrinks (Q(msem := Q msem @ [b])) Q'" using shrinks_trans [OF sh] k(4) by (simp add: progress_def)
  ultimately show ?thesis using p(3,4) nc(2) by auto
qed

end

subsection \<open>The hooks of the program\<close>

text \<open>No hook is installed when the network is not in use.\<close>

interpretation nohook: exit_hook S idle None for S idle
  by unfold_locales (auto simp: run_hook_def)

text \<open>The time-outs: all threads but the current one are visited.\<close>

lemma following_next:
  assumes "following st (us @ x # ws)"
  shows "tnext st x = hd (ws @ us @ [x])"
proof (cases us)
  case Nil
  then show ?thesis using assms seg_nx by (fastforce simp: following_def ring_def)
next
  case (Cons u vs)
  then have "seg (tnext st) (tprev st) x ws u" using assms by (auto simp: following_def ring_def seg_append)
  from seg_nx [OF this] show ?thesis using Cons by (cases ws) auto
qed

lemma linked_sem_unblock:
  assumes l: "linked S idle st ts Q" and t: "tblocked st t \<noteq> 0"
  shows "\<exists>Q'. linked S idle (sem_unblock t (tblocked st t) st) ts Q' \<and> shrinks Q Q'"
proof -
  have ok: "sems_ok S st Q" and idle: "runnable st idle" using l by (auto simp: linked_def)
  obtain xs ys where q: "Q (bsem st (tblocked st t)) = xs @ tblocked st t # ys"
    "sems_ok S (sem_unblock t (tblocked st t) st) (Q(bsem st (tblocked st t) := xs @ ys))"
    using sems_sem_unblock [OF ok t] by blast
  have "linked S idle (sem_unblock t (tblocked st t) st) ts (Q(bsem st (tblocked st t) := xs @ ys))"
    by (rule linked_cong [OF l, rotated 4, OF q(2)]) (use idle in \<open>simp_all add: thread_fields\<close>)
  then show ?thesis using shrinks_remove [where Q = Q, OF q(1)] by blast
qed

definition timed_out :: "sched \<Rightarrow> ptr list \<Rightarrow> sched \<Rightarrow> bool" where
  "timed_out st ts st' \<longleftrightarrow>
     tblocked st' = (\<lambda>t. if t \<in> set ts \<and> expired st t then 0 else tblocked st t) \<and>
     current st' = current st \<and> in_sched_hook st' = in_sched_hook st \<and> ms_timer st' = ms_timer st \<and> btimeout st' = btimeout st"

lemma timeout_loop_correct:
  "linked S idle st ts Q \<Longrightarrow> ts = us @ vs @ [current st] \<Longrightarrow> in_sched_hook st \<Longrightarrow>
   \<exists>st' Q'. timeout_loop st (hd (vs @ [current st])) = Some st' \<and> linked S idle st' ts Q' \<and> shrinks Q Q' \<and> timed_out st vs st'"
proof (induction vs arbitrary: us st Q)
  case Nil
  then show ?case by (subst timeout_loop.simps) (auto simp: timed_out_def)
next
  case (Cons t vs)
  have f: "following st ts" using Cons.prems(1) by (auto simp: linked_def)
  have d: "distinct ts" using f by (cases ts) (auto simp: following_def ring_def)
  have nt: "t \<noteq> current st" "t \<notin> set vs" "t \<in> set ts" using d Cons.prems(2) by auto
  have nx: "tnext st t = hd (vs @ [current st])" using following_next [of st us t "vs @ [current st]"] f Cons.prems(2) by (cases vs) auto
  show ?case
  proof (cases "expired st t")
    case False
    obtain st' Q' where "timeout_loop st (hd (vs @ [current st])) = Some st'" "linked S idle st' ts Q'" "shrinks Q Q'" "timed_out st vs st'"
      using Cons.IH [of st Q "us @ [t]"] Cons.prems by auto
    moreover have "timeout_loop st t = timeout_loop st (hd (vs @ [current st]))"
      by (subst timeout_loop.simps) (simp add: nt False nx)
    moreover have "timed_out st (t # vs) st'" using calculation(4) False by (auto simp: timed_out_def)
    ultimately show ?thesis by auto
  next
    case True
    then have b: "tblocked st t \<noteq> 0" by (simp add: expired_def Let_def)
    let ?st = "sem_unblock t (tblocked st t) st"
    obtain Q1 where q1: "linked S idle ?st ts Q1" "shrinks Q Q1" using linked_sem_unblock [OF Cons.prems(1) b] by blast
    have fl: "current ?st = current st" "in_sched_hook ?st" "tnext ?st = tnext st" using Cons.prems(3) by (simp_all add: thread_fields)
    obtain st' Q' where r: "timeout_loop ?st (hd (vs @ [current st])) = Some st'" "linked S idle st' ts Q'" "shrinks Q1 Q'" "timed_out ?st vs st'"
      using Cons.IH [of ?st Q1 "us @ [t]"] q1(1) Cons.prems(2) fl by auto
    have "timeout_loop st t = timeout_loop ?st (hd (vs @ [current st]))"
      by (subst timeout_loop.simps) (simp add: nt True nx schedule_def fl)
    moreover have e: "expired ?st u = expired st u" if "u \<in> set vs" for u
      using that nt(2) by (auto simp: expired_def Let_def sem_unblock_def)
    have "timed_out st (t # vs) st'"
      using r(4) True nt(2) e unfolding timed_out_def by (auto simp: thread_fields sem_unblock_def Let_def fun_eq_iff)
    ultimately show ?thesis using r(1,2) shrinks_trans [OF q1(2) r(3)] by auto
  qed
qed

lemma hook_timeouts:
  assumes l: "linked S idle st ts Q" and cur: "current st = last ts" and h: "in_sched_hook st"
  shows "\<exists>st' Q'. thread_process_timeouts st = Some st' \<and> linked S idle st' ts Q' \<and> shrinks Q Q' \<and> timed_out st (butlast ts) st'"
proof -
  have "ts \<noteq> []" "tnext st (current st) = hd ts" using l by (auto simp: linked_def following_def)
  then obtain vs where ts: "ts = vs @ [current st]" using cur by (metis append_butlast_last_id)
  then show ?thesis using timeout_loop_correct [OF l _ h, of "[]" vs] \<open>tnext st (current st) = hd ts\<close>
    by (simp add: thread_process_timeouts_def)
qed

lemma timed_out_progress: "shrinks Q Q' \<Longrightarrow> timed_out st us st' \<Longrightarrow> progress st Q st' Q'"
  by (auto simp: progress_def timed_out_def)

text \<open>
  \<open>__thread_process_timeouts\<close> walks the list until it is back at the current thread. A thread that has left the list is never met: the
  walk does not end.
\<close>

definition off_list :: "ptr set \<Rightarrow> ptr \<Rightarrow> ptr list \<Rightarrow> sched \<Rightarrow> ptr \<Rightarrow> bool" where
  "off_list S idle ts st t \<longleftrightarrow> (\<exists>Q. linked S idle st ts Q) \<and> current st \<notin> set ts \<and> t \<in> set ts \<and> in_sched_hook st"

lemma off_list_next:
  assumes "off_list S idle ts st t"
  shows "off_list S idle ts st (tnext st t)" and "expired st t \<Longrightarrow> off_list S idle ts (sem_unblock t (tblocked st t) st) t"
proof -
  obtain Q where l: "linked S idle st ts Q" and t: "t \<in> set ts" using assms by (auto simp: off_list_def)
  have "tnext st t \<in> set ts"
    using l t ring_links_in(1) [of "tnext st" "tprev st" "hd ts" "tl ts" t] by (cases ts) (auto simp: linked_def following_def)
  then show "off_list S idle ts st (tnext st t)" using assms by (simp add: off_list_def)
  assume "expired st t"
  then have "tblocked st t \<noteq> 0" by (simp add: expired_def Let_def)
  then show "off_list S idle ts (sem_unblock t (tblocked st t) st) t"
    using linked_sem_unblock [OF l] assms by (auto simp: off_list_def thread_fields)
qed

lemma timeout_loop_off_list:
  assumes "timeout_loop st t = Some st'"
  shows "\<not> off_list S idle ts st t"
proof (rule timeout_loop.raw_induct [where P = "\<lambda>st t _. \<not> off_list S idle ts st t", OF _ assms])
  fix loop st t st'
  assume IH: "\<And>st t st'. loop st t = Some st' \<Longrightarrow> \<not> off_list S idle ts st t"
    and body: "(if t = current st then Some st else Option.bind
         (if expired st t then returned (schedule None (sem_unblock t (tblocked st t) st)) else Some st)
         (\<lambda>st. loop st (tnext st t))) = Some st'"
  show "\<not> off_list S idle ts st t"
  proof
    assume o: "off_list S idle ts st t"
    then have "t \<noteq> current st" "in_sched_hook st" by (auto simp: off_list_def)
    then obtain st1 where "loop st1 (tnext st1 t) = Some st'" "st1 = (if expired st t then sem_unblock t (tblocked st t) st else st)"
      using body by (auto simp: schedule_def thread_fields split: if_splits)
    then show False using IH off_list_next [OF o] off_list_next(1) [of S idle ts st1 t] by (auto split: if_splits)
  qed
qed

lemma timeouts_off_list:
  assumes "linked S idle st ts Q" and "current st \<notin> set ts" and "in_sched_hook st"
  shows "thread_process_timeouts st = None"
proof -
  have "tnext st (current st) \<in> set ts" using assms(1) by (auto simp: linked_def following_def)
  then have "off_list S idle ts st (tnext st (current st))" using assms by (auto simp: off_list_def)
  then show ?thesis using timeout_loop_off_list unfolding thread_process_timeouts_def by (meson not_Some_eq)
qed

text \<open>The hook of PXE: its two semaphores are among those of the program.\<close>

lemma hook_sem_up:
  assumes l: "linked S idle st ts Q" and s: "s \<in> S" and h: "in_sched_hook st"
  shows "\<exists>st' Q'. returned (sem_up None s st) = Some st' \<and> linked S idle st' ts Q' \<and> current st' = current st \<and> in_sched_hook st' \<and> progress st Q st' Q'"
proof (cases "scount st s + 1 \<le> 0")
  case True
  have l': "linked S idle (sem_inc s st) ts Q" using l by (simp add: sem_inc_def linked_fields)
  obtain st' where st': "sem_up_slow None s (sem_inc s st) = (if Q s = [] then Ret () st' else schedule None st')"
    "linked S idle st' ts (Q(s := tl (Q s)))" "current st' = current (sem_inc s st)" "in_sched_hook st' = in_sched_hook (sem_inc s st)"
    "progress (sem_inc s st) Q st' (Q(s := tl (Q s)))" using linked_sem_up_slow [OF l' s] by metis
  have f: "current (sem_inc s st) = current st" "in_sched_hook (sem_inc s st)" "tblocked (sem_inc s st) = tblocked st" using h by (simp_all add: sem_inc_def)
  have "returned (sem_up None s st) = Some st'" using True st'(1,4) f(2) by (simp add: sem_up_def schedule_def)
  moreover have "progress st Q st' (Q(s := tl (Q s)))" using st'(5) f(3) by (simp add: progress_def)
  ultimately show ?thesis using st'(2-4) f(1,2) by auto
next
  case False
  then show ?thesis using l h by (intro exI [of _ "sem_inc s st"] exI [of _ Q]) (simp add: sem_up_def sem_inc_def linked_fields progress_def)
qed

lemma pxe_poll_wakeups_keeps:
  assumes l: "linked S idle st ts Q" and cur: "current st = last ts \<or> current st \<notin> set ts" and h: "in_sched_hook st" and s: "p \<in> S" "r \<in> S"
  shows "current st \<notin> set ts \<and> pxe_poll_wakeups p r st = None \<or>
    (\<exists>st' Q'. pxe_poll_wakeups p r st = Some st' \<and> linked S idle st' ts Q' \<and> current st' = current st \<and> in_sched_hook st' \<and> progress st Q st' Q')"
proof -
  obtain st1 Q1 where a: "(if pxe_need_poll st = 1 then returned (sem_up None p (st\<lparr>pxe_need_poll := 3\<rparr>)) else Some st) = Some st1"
    and l1: "linked S idle st1 ts Q1" "current st1 = current st" "in_sched_hook st1" "progress st Q st1 Q1"
  proof (cases "pxe_need_poll st = 1")
    case True
    obtain st1 Q1 where r: "returned (sem_up None p (st\<lparr>pxe_need_poll := 3\<rparr>)) = Some st1" "linked S idle st1 ts Q1"
      "current st1 = current st" "in_sched_hook st1" "progress (st\<lparr>pxe_need_poll := 3\<rparr>) Q st1 Q1"
      using hook_sem_up [of S idle "st\<lparr>pxe_need_poll := 3\<rparr>" ts Q p] l h s by (auto simp: linked_fields)
    then show thesis using that [of st1 Q1] True by (auto simp: progress_def)
  next
    case False
    then show thesis using that [of st Q] l h by auto
  qed
  have last: "\<exists>st3 Q3. (if pxe_irq_pending st2 then returned (sem_up None r (st2\<lparr>pxe_irq_pending := False\<rparr>)) else Some st2) = Some st3 \<and>
      linked S idle st3 ts Q3 \<and> current st3 = current st2 \<and> in_sched_hook st3 \<and> progress st2 Q2 st3 Q3"
    if l2: "linked S idle st2 ts Q2" "in_sched_hook st2" for st2 Q2
  proof (cases "pxe_irq_pending st2")
    case True
    obtain st3 Q3 where "returned (sem_up None r (st2\<lparr>pxe_irq_pending := False\<rparr>)) = Some st3" "linked S idle st3 ts Q3"
      "current st3 = current st2" "in_sched_hook st3" "progress (st2\<lparr>pxe_irq_pending := False\<rparr>) Q2 st3 Q3"
      using hook_sem_up [of S idle "st2\<lparr>pxe_irq_pending := False\<rparr>" ts Q2 r] l2 s by (auto simp: linked_fields)
    then show ?thesis using True by (auto simp: progress_def)
  next
    case False
    then show ?thesis using l2 by (auto intro!: exI [of _ Q2])
  qed
  have fin: "\<exists>st' Q'. pxe_poll_wakeups p r st = Some st' \<and> linked S idle st' ts Q' \<and> current st' = current st \<and> in_sched_hook st' \<and> progress st Q st' Q'"
    if b: "(if jiffies st1 \<noteq> last_jiffies st1 then thread_process_timeouts (st1\<lparr>last_jiffies := jiffies st1\<rparr>) else Some st1) = Some st2"
      and l2: "linked S idle st2 ts Q2" "current st2 = current st1" "in_sched_hook st2" "progress st1 Q1 st2 Q2" for st2 Q2
  proof -
    obtain st3 Q3 where d: "(if pxe_irq_pending st2 then returned (sem_up None r (st2\<lparr>pxe_irq_pending := False\<rparr>)) else Some st2) = Some st3"
      "linked S idle st3 ts Q3" "current st3 = current st2" "in_sched_hook st3" "progress st2 Q2 st3 Q3" using last [OF l2(1,3)] by blast
    have "pxe_poll_wakeups p r st = Some st3" by (simp only: pxe_poll_wakeups_def a Option.bind.bind_lunit b d(1))
    then show ?thesis using d l2 l1 progress_trans [OF progress_trans [OF l1(4) l2(4)] d(5)] by auto
  qed
  show ?thesis
  proof (cases "jiffies st1 \<noteq> last_jiffies st1")
    case True
    let ?st = "st1\<lparr>last_jiffies := jiffies st1\<rparr>"
    have ls: "linked S idle ?st ts Q1" "current ?st = current st" "in_sched_hook ?st" using l1 by (simp_all add: linked_fields)
    from cur show ?thesis
    proof
      assume "current st = last ts"
      then obtain st2 Q2 where r: "thread_process_timeouts ?st = Some st2" "linked S idle st2 ts Q2" "shrinks Q1 Q2"
        "timed_out ?st (butlast ts) st2" using hook_timeouts [OF ls(1) _ ls(3)] ls(2) by auto
      have "progress st1 Q1 st2 Q2" using timed_out_progress [OF r(3,4)] by (simp add: progress_def)
      moreover have "current st2 = current st1" "in_sched_hook st2" using r(4) l1(3) by (simp_all add: timed_out_def)
      ultimately show ?thesis using fin [of st2 Q2] r(1,2) True by simp
    next
      assume nc: "current st \<notin> set ts"
      then have "thread_process_timeouts ?st = None" using timeouts_off_list [OF ls(1)] ls(2,3) by simp
      then have "pxe_poll_wakeups p r st = None" using a True by (simp add: pxe_poll_wakeups_def)
      then show ?thesis using nc by blast
    qed
  next
    case False
    then show ?thesis using fin [of st1 Q1] l1 by auto
  qed
qed

interpretation pxe: exit_hook "insert p (insert r S)" idle "Some (pxe_poll_wakeups p r)" for p r S idle
proof
  fix st ts Q
  assume a: "linked (insert p (insert r S)) idle st ts Q" "current st = last ts" "\<not> in_sched_hook st"
  then have ne: "current st \<in> set ts" by (auto simp: linked_def following_def)
  have "linked (insert p (insert r S)) idle (st\<lparr>in_sched_hook := True\<rparr>) ts Q" using a by (simp add: linked_fields)
  from pxe_poll_wakeups_keeps [OF this, of p r] a(2) ne
  show "\<exists>st' Q'. run_hook (Some (pxe_poll_wakeups p r)) st = Some st' \<and> linked (insert p (insert r S)) idle st' ts Q' \<and>
    current st' = current st \<and> \<not> in_sched_hook st' \<and> progress st Q st' Q'"
    by (fastforce simp: run_hook_def linked_fields progress_def)
next
  fix st ts Q st'
  assume a: "linked (insert p (insert r S)) idle st ts Q" "current st \<notin> set ts" "\<not> in_sched_hook st" "run_hook (Some (pxe_poll_wakeups p r)) st = Some st'"
  have "linked (insert p (insert r S)) idle (st\<lparr>in_sched_hook := True\<rparr>) ts Q" using a by (simp add: linked_fields)
  from pxe_poll_wakeups_keeps [OF this, of p r] a(2,4)
  show "\<exists>Q'. linked (insert p (insert r S)) idle st' ts Q' \<and> current st' = current st \<and> \<not> in_sched_hook st' \<and> progress st Q st' Q'"
    by (fastforce simp: run_hook_def linked_fields progress_def)
qed

end
