(* ===== verification/ThreadSteps.thy ===== *)
theory ThreadSteps
  imports Thread
begin

section \<open>Executions of the threads\<close>

text \<open>
  The calls of the thread library as steps of one machine: a state is what the running thread sees, an event names what it does. A step ends in
  the state in which the program goes on, in the same thread or, after a switch, in another one. Interrupts move the timers and set
  the flags that the scheduler hook looks at, and call the scheduler between any two steps; so a call of \<open>sem_down\<close> or \<open>sem_up\<close> is
  two steps, and \<open>pending\<close> says which thread has done the first of them and has to go to the slow path.
\<close>

subsection \<open>Steps\<close>

text \<open>The threads on the list.\<close>

definition threads :: "sched \<Rightarrow> ptr set" where
  "threads st = {t. \<exists>n. t = (tnext st ^^ n) (current st)}"

datatype pending = Pdown ptr u32 | Pup ptr

type_synonym config = "sched \<times> (ptr \<rightharpoonup> pending)"

datatype event = Dec ptr | Down_slow ptr | Inc ptr | Up_slow ptr | Yield | Preempt | Start ptr | Kill ptr | Exit | Irq

text \<open>\<open>hook_ok\<close>: \<open>sched_hook_func\<close> is null or the hook of PXE, whose semaphores are initialised.\<close>

definition hook_ok :: "ptr set \<Rightarrow> hook \<Rightarrow> bool" where
  "hook_ok S hook \<longleftrightarrow> hook = None \<or> (\<exists>p \<in> S. \<exists>r \<in> S. hook = Some (pxe_poll_wakeups p r))"

text \<open>
  The block of a thread that goes to sleep is on its stack: the address is no semaphore and no block of another thread. \<open>start_thread\<close> gets memory that
  belongs to no thread, on the list or waiting. A thread that is killed does not go on with its pending call. Only the idle thread never
  waits and never ends.
\<close>

abbreviation fresh_block :: "ptr set \<Rightarrow> sched \<Rightarrow> ptr \<Rightarrow> bool" where
  "fresh_block S st b \<equiv> b \<noteq> 0 \<and> b \<notin> S \<and> b \<notin> range (tblocked st)"

inductive thread_step :: "ptr set \<Rightarrow> ptr \<Rightarrow> hook \<Rightarrow> config \<Rightarrow> event \<Rightarrow> config \<Rightarrow> bool" for S idle hook where
  dec: "pd (current st) = None \<Longrightarrow> s \<in> S \<Longrightarrow> current st \<noteq> idle \<Longrightarrow> st' = sem_dec s st \<Longrightarrow>
    pd' = (if scount st' s < 0 then pd(current st \<mapsto> Pdown s timeout) else pd) \<Longrightarrow> thread_step S idle hook (st, pd) (Dec s) (st', pd')"
| down_slow: "pd (current st) = Some (Pdown s timeout) \<Longrightarrow> s \<in> S \<Longrightarrow> fresh_block S st b \<Longrightarrow> current st \<noteq> idle \<Longrightarrow>
    outcome (sem_down_slow hook b s timeout st) = Some st' \<Longrightarrow> thread_step S idle hook (st, pd) (Down_slow s) (st', pd(current st := None))"
| inc: "pd (current st) = None \<Longrightarrow> s \<in> S \<Longrightarrow> st' = sem_inc s st \<Longrightarrow>
    pd' = (if scount st s + 1 \<le> 0 then pd(current st \<mapsto> Pup s) else pd) \<Longrightarrow> thread_step S idle hook (st, pd) (Inc s) (st', pd')"
| up_slow: "pd (current st) = Some (Pup s) \<Longrightarrow> s \<in> S \<Longrightarrow> outcome (sem_up_slow hook s st) = Some st' \<Longrightarrow>
    thread_step S idle hook (st, pd) (Up_slow s) (st', pd(current st := None))"
| yield: "pd (current st) = None \<Longrightarrow> outcome (thread_yield hook st) = Some st' \<Longrightarrow> thread_step S idle hook (st, pd) Yield (st', pd)"
| preempt: "outcome (schedule hook st) = Some st' \<Longrightarrow> thread_step S idle hook (st, pd) Preempt (st', pd)"
| start: "pd (current st) = None \<Longrightarrow> t \<noteq> 0 \<Longrightarrow> t \<notin> threads st \<Longrightarrow> runnable st t \<Longrightarrow> malloc (thread_stack_size stack_size + SIZEOF_THREAD) = Some t \<Longrightarrow>
    outcome (start_thread hook malloc (Some r) stack_size prio st) = Some st' \<Longrightarrow> thread_step S idle hook (st, pd) (Start t) (st', pd(t := None))"
| kill: "pd (current st) = None \<Longrightarrow> t \<in> threads st \<Longrightarrow> t \<noteq> current st \<Longrightarrow> t \<noteq> idle \<Longrightarrow> outcome (kill_thread hook msem b t st) = Some st' \<Longrightarrow>
    thread_step S idle hook (st, pd) (Kill t) (st', pd(t := None))"
| exit: "current st \<noteq> idle \<Longrightarrow> msem \<in> S \<Longrightarrow> fresh_block S st b \<Longrightarrow> outcome (exit_thread hook msem b st) = Some st' \<Longrightarrow>
    thread_step S idle hook (st, pd) Exit (st', pd(current st := None))"
| irq: "st' = st\<lparr>ms_timer := m, jiffies := j, pxe_need_poll := n, pxe_irq_pending := i\<rparr> \<Longrightarrow> thread_step S idle hook (st, pd) Irq (st', pd)"

inductive_cases thread_stepE: "thread_step S idle hook c e c'"

text \<open>What an event does to the queues: at most what the call itself does, and blocks that leave.\<close>

definition queue_add :: "ptr set \<Rightarrow> ptr \<Rightarrow> (ptr \<Rightarrow> ptr list) \<Rightarrow> (ptr \<Rightarrow> ptr list) \<Rightarrow> bool" where
  "queue_add S s Q Q' \<longleftrightarrow> (\<exists>b. (\<forall>u \<in> S. b \<notin> set (Q u)) \<and> shrinks (Q(s := Q s @ [b])) Q')"

fun queue_step :: "ptr set \<Rightarrow> event \<Rightarrow> (ptr \<Rightarrow> ptr list) \<Rightarrow> (ptr \<Rightarrow> ptr list) \<Rightarrow> bool" where
  "queue_step S (Down_slow s) Q Q' \<longleftrightarrow> queue_add S s Q Q'"
| "queue_step S (Up_slow s) Q Q' \<longleftrightarrow> shrinks (Q(s := tl (Q s))) Q'"
| "queue_step S Exit Q Q' \<longleftrightarrow> (\<exists>s. queue_add S s Q Q')"
| "queue_step S _ Q Q' \<longleftrightarrow> shrinks Q Q'"

lemma settled_threads:
  assumes "settled S idle st ts Q"
  shows "threads st = set ts"
proof -
  note D = settledD [OF assms]
  have r: "ring (tnext st) (tprev st) (current st) (butlast ts)" by (rule settled_ring [OF assms])
  have ts: "set ts = set (current st # butlast ts)"
    using D(2,5) by (metis append_butlast_last_id following_def list.simps(15) rotate1.simps(2) set_rotate1)
  have "(tnext st ^^ n) (current st) \<in> set ts" for n
    by (induction n) (use ring_links_in(1) [OF r] ts in auto)
  moreover have "\<exists>n. t = (tnext st ^^ n) a" if "seg (tnext st) (tprev st) a zs c" "t \<in> set (a # zs)" for t a zs c
    using that
  proof (induction zs arbitrary: a)
    case Nil
    then show ?case by (intro exI [of _ 0]) simp
  next
    case (Cons z zs)
    show ?case
    proof (cases "t = a")
      case True
      then show ?thesis by (intro exI [of _ 0]) simp
    next
      case False
      then obtain n where "t = (tnext st ^^ n) z" using Cons by auto
      then show ?thesis using Cons.prems(1) by (intro exI [of _ "Suc n"]) (simp add: funpow_swap1)
    qed
  qed
  then have "\<exists>n. t = (tnext st ^^ n) (current st)" if "t \<in> set ts" for t
    using r that unfolding ring_def ts by blast
  ultimately show ?thesis by (auto simp: threads_def)
qed


lemma hook_ok_exit: "hook_ok S hook \<Longrightarrow> exit_hook S idle hook"
  using nohook.exit_hook_axioms pxe.exit_hook_axioms by (auto simp: hook_ok_def insert_absorb) (metis insert_absorb)

lemma hook_ok_scheduler: "hook_ok S hook \<Longrightarrow> scheduler_hook S idle hook"
  using hook_ok_exit exit_hook.axioms(1) by blast

text \<open>A blocked thread keeps its block until it is woken.\<close>

definition still :: "sched \<Rightarrow> sched \<Rightarrow> bool" where
  "still st st' \<longleftrightarrow> (\<forall>t. tblocked st t \<noteq> 0 \<longrightarrow> tblocked st' t \<in> {0, tblocked st t})"

lemma still_progress: "progress st Q st' Q' \<Longrightarrow> still st st'"
  by (simp add: progress_def still_def)

lemma still_others: "runnable st u \<Longrightarrow> \<forall>t. t \<noteq> u \<longrightarrow> tblocked st' t \<in> {0, tblocked st t} \<Longrightarrow> still st st'"
  unfolding still_def by metis

lemma fresh_queue: "sems_ok S st Q \<Longrightarrow> b \<notin> range (tblocked st) \<Longrightarrow> \<forall>u \<in> S. b \<notin> set (Q u)"
  using sems_block [of S st Q _ b] by (metis rangeI)

lemma step_keeps:
  assumes "thread_step S idle hook (st, pd) e (st', pd')" and hook: "hook_ok S hook" and st: "settled S idle st ts Q"
  shows "\<exists>ts' Q'. settled S idle st' ts' Q' \<and> queue_step S e Q Q' \<and> still st st'"
  using assms(1)
proof cases
  note H = hook_ok_scheduler [OF hook, of idle]
  note D = settledD [OF st]
  {
    case (dec s timeout)
    have "settled S idle st' ts Q" using st by (simp add: dec sem_dec_def settled_count)
    moreover have "still st st'" by (simp add: dec sem_dec_def still_def)
    ultimately show ?thesis using dec(1) by (intro exI [of _ ts] exI [of _ Q]) simp
  next
    case (down_slow s timeout b)
    have fr: "b \<noteq> 0" "b \<notin> S" "b \<notin> range (tblocked st)" using down_slow by auto
    obtain ts' Q' where r: "settled S idle st' ts' Q'" "shrinks (Q(s := Q s @ [b])) Q'" "\<forall>t. t \<noteq> current st \<longrightarrow> tblocked st' t \<in> {0, tblocked st t}"
      using scheduler_hook.down_slow_keeps [OF H st \<open>s \<in> S\<close> fr \<open>current st \<noteq> idle\<close>, of timeout] down_slow by auto
    then show ?thesis using down_slow(1) fresh_queue [OF D(1) fr(3)] still_others [OF D(7) r(3)] by (auto simp: queue_add_def)
  next
    case (inc s)
    have "settled S idle st' ts Q" using st by (simp add: inc sem_inc_def settled_count)
    moreover have "still st st'" by (simp add: inc sem_inc_def still_def)
    ultimately show ?thesis using inc(1) by (intro exI [of _ ts] exI [of _ Q]) simp
  next
    case (up_slow s)
    then show ?thesis using scheduler_hook.up_slow_keeps [OF H st \<open>s \<in> S\<close>] still_progress by fastforce
  next
    case yield
    then show ?thesis using scheduler_hook.settled_schedule_keeps [OF H st] still_progress by (auto simp: thread_yield_def progress_def still_def)
  next
    case preempt
    then show ?thesis using scheduler_hook.settled_schedule_keeps [OF H st] still_progress by (auto simp: progress_def still_def)
  next
    case (start t malloc stack_size r prio)
    have n: "t \<notin> set ts" using start settled_threads [OF st] by simp
    have m: "malloc (thread_stack_size stack_size + SIZEOF_THREAD) = Some t" "t \<noteq> 0" "runnable st t" using start by auto
    obtain ts' Q' where "settled S idle st' ts' Q'" "progress st Q st' Q'"
      using scheduler_hook.start_keeps [where malloc = malloc and rmstack = "Some r" and r = r and prio = prio, OF H st m(2) n m(3,1) refl] start by auto
    then show ?thesis using still_progress start(1) by (intro exI [of _ ts'] exI [of _ Q']) (simp add: progress_def still_def)
  next
    case (kill t msem b)
    then obtain ts' Q' where "settled S idle st' ts' Q'" "progress st Q st' Q'" using scheduler_hook.kill_keeps [OF H st, of t msem b] by auto
    then show ?thesis using still_progress kill(1) by (intro exI [of _ ts'] exI [of _ Q']) (simp add: progress_def still_def)
  next
    case (exit msem b)
    have fr: "b \<noteq> 0" "b \<notin> S" "b \<notin> range (tblocked st)" and x: "outcome (exit_thread hook msem b st) = Some st'" using exit by auto
    obtain ts' Q' where r: "settled S idle st' ts' Q'" "shrinks (Q(msem := Q msem @ [b])) Q'" "\<forall>t. t \<noteq> current st \<longrightarrow> tblocked st' t \<in> {0, tblocked st t}"
      using exit_hook.exit_keeps [OF hook_ok_exit [OF hook] st \<open>current st \<noteq> idle\<close> \<open>msem \<in> S\<close> fr x] by auto
    then show ?thesis using exit(1) fresh_queue [OF D(1) fr(3)] still_others [OF D(7) r(3)] by (auto simp: queue_add_def)
  next
    case (irq m j n i)
    have "sems_ok S st' Q" by (rule sems_cong [OF D(1)]) (simp_all add: irq)
    then have "settled S idle st' ts Q" using D irq unfolding settled_def linked_def following_def by simp
    moreover have "still st st'" by (simp add: irq still_def)
    ultimately show ?thesis using irq(1) by (intro exI [of _ ts] exI [of _ Q]) simp
  }
qed

subsection \<open>Reachable states\<close>

text \<open>
  From the root thread alone: the idle thread is started, semaphores are initialised and the
  threads run.
\<close>

inductive reachable :: "ptr \<Rightarrow> ptr set \<Rightarrow> config \<Rightarrow> bool" for idle where
  boot: "root \<noteq> 0 \<Longrightarrow> idle \<noteq> 0 \<Longrightarrow> idle \<noteq> root \<Longrightarrow>
    outcome (start_idle_thread None (\<lambda>_. Some idle) (Some r) (root_sched root)) = Some st \<Longrightarrow> reachable idle {} (st, Map.empty)"
| init: "reachable idle S (st, pd) \<Longrightarrow> sem \<noteq> 0 \<Longrightarrow> sem \<notin> S \<Longrightarrow> sem \<notin> range (tblocked st) \<Longrightarrow> reachable idle (insert sem S) (sem_init sem cnt st, pd)"
| step: "reachable idle S c \<Longrightarrow> hook_ok S hook \<Longrightarrow> thread_step S idle hook c e c' \<Longrightarrow> reachable idle S c'"

lemma root_linked:
  assumes "root \<noteq> 0" and "idle \<noteq> 0" and "idle \<noteq> root"
  shows "linked {} idle (link_thread idle prio (root_sched root)) [idle, root] Q"
  using assms by (auto simp: linked_def following_def ring_def sems_ok_def link_thread_def root_sched_def)

lemma boot_settled:
  assumes "root \<noteq> 0" and "idle \<noteq> 0" and "idle \<noteq> root"
    and st: "outcome (start_idle_thread None (\<lambda>_. Some idle) (Some r) (root_sched root)) = Some st"
  shows "\<exists>ts. settled {} idle st ts Q"
proof -
  let ?st = "link_thread idle IDLE_THREAD_PRIORITY (root_sched root)"
  have "current ?st = last [idle, root]" "\<not> in_sched_hook ?st" by (simp_all add: link_thread_def root_sched_def)
  from nohook.schedule_keeps [OF root_linked [OF assms(1-3)] this, of Q] obtain st' ts' Q' where
    r: "outcome (schedule None ?st) = Some st'" "settled {} idle st' ts' Q'" by blast
  have "idle \<noteq> current (root_sched root)" using assms by (simp add: root_sched_def)
  then have "start_idle_thread None (\<lambda>_. Some idle) (Some r) (root_sched root) = after (schedule None ?st) (\<lambda>_ st. Ret idle st)"
    by (simp add: start_idle_thread_def start_thread_link)
  then have "outcome (start_idle_thread None (\<lambda>_. Some idle) (Some r) (root_sched root)) = Some st'"
    using r(1) by (cases "schedule None ?st") auto
  then have "settled {} idle st ts' Q'" using r(2) st by simp
  then show ?thesis unfolding settled_def linked_def sems_ok_def by fastforce
qed

lemma sem_init_settled:
  assumes st: "settled S idle st ts Q" and s: "sem \<noteq> 0" "sem \<notin> S" "sem \<notin> range (tblocked st)"
  shows "settled (insert sem S) idle (sem_init sem cnt st) ts (Q(sem := []))"
proof -
  note D = settledD [OF st]
  let ?st = "sem_init sem cnt st"
  have f: "qnext ?st = (qnext st)(sem := sem)" "qprev ?st = (qprev st)(sem := sem)"
    "tblocked ?st = tblocked st" "bsem ?st = bsem st" "bthread ?st = bthread st" using s(1) by (simp_all add: sem_init_def)
  have new: "sem \<notin> set (Q u)" if "u \<in> S" for u using sems_block [OF D(1) that, of sem] s(3) by (metis rangeI)
  have "u \<noteq> 0 \<and> ring (qnext ?st) (qprev ?st) u ((Q(sem := [])) u)"
    if "u \<in> insert sem S" for u
  proof (cases "u = sem")
    case True
    then show ?thesis unfolding f using s(1) by (simp add: ring_def)
  next
    case False
    then have u: "u \<in> S" using that by simp
    have "ring (qnext ?st) (qprev ?st) u (Q u) = ring (qnext st) (qprev st) u (Q u)"
      unfolding f by (rule ring_cong) (use new [OF u] False in auto)
    then show ?thesis using sems_ring [OF D(1) u] False by (simp add: f)
  qed
  moreover have "b \<noteq> 0 \<and> b \<notin> insert sem S \<and> bsem ?st b = u \<and> tblocked ?st (bthread ?st b) = b"
    if "u \<in> insert sem S" "b \<in> set ((Q(sem := [])) u)" for u b
    using that sems_block [OF D(1), of u b] new [of u] by (auto simp: f split: if_splits)
  moreover have "bsem ?st b \<in> insert sem S \<and> b \<in> set ((Q(sem := [])) (bsem ?st b)) \<and> bthread ?st b = t"
    if "tblocked ?st t = b" "b \<noteq> 0" for t b
    using sems_blocked [OF D(1), of t] that s(2) by (auto simp: f)
  ultimately have "sems_ok (insert sem S) ?st (Q(sem := []))" unfolding sems_ok_def by blast
  then show ?thesis using D s(1) unfolding settled_def linked_def following_def by (simp add: sem_init_def)
qed

lemma reachable_settled_ex: "reachable idle S c \<Longrightarrow> \<exists>ts Q. settled S idle (fst c) ts Q"
proof (induction rule: reachable.induct)
  case (boot root r st)
  then show ?case using boot_settled by simp blast
next
  case (init S st pd sem cnt)
  then show ?case using sem_init_settled by simp blast
next
  case (step S c hook e c')
  obtain st pd st' pd' where "c = (st, pd)" "c' = (st', pd')" by (cases c, cases c')
  then show ?case using step step_keeps by (metis fst_conv)
qed

subsection \<open>Waiting threads are served in order\<close>

lemma subseq_position:
  assumes "subseq zs (xs @ b # ys)" and "b \<in> set zs" and "distinct (xs @ b # ys)"
  shows "\<exists>xs' ys'. zs = xs' @ b # ys' \<and> length xs' \<le> length xs"
proof -
  obtain xs' ys' where z: "zs = xs' @ b # ys'" using assms(2) by (meson split_list)
  then obtain us vs where e: "xs @ b # ys = us @ vs" "subseq xs' us" "subseq (b # ys') vs"
    using assms(1) list_emb_appendD by metis
  have "b \<in> set vs" using e(3) using list_emb_set [of "(=)" "b # ys'" vs b] by auto
  then have "b \<notin> set us" using assms(3) unfolding e(1) by auto
  have "length us \<le> length xs"
  proof (rule ccontr)
    assume "\<not> length us \<le> length xs"
    then have "us ! length xs = b" using arg_cong [OF e(1), of "\<lambda>l. l ! length xs"] by (simp add: nth_append)
    then show False using \<open>b \<notin> set us\<close> \<open>\<not> length us \<le> length xs\<close> by (metis not_le nth_mem)
  qed
  then show ?thesis using z list_emb_length [OF e(2)] by auto
qed

text \<open>The position of the block of a thread after one step.\<close>

lemma wait_step:
  assumes step: "queue_step S e Q Q'" "still st st'" and st: "settled S idle st ts Q" and st': "settled S idle st' ts' Q'"
    and t: "tblocked st t = b" "b \<noteq> 0" and q: "Q s = xs @ b # ys" "s \<in> S" and bl: "tblocked st' t \<noteq> 0"
  shows "tblocked st' t = b \<and> (\<exists>xs' ys'. Q' s = xs' @ b # ys' \<and> length xs' + (if e = Up_slow s then 1 else 0) \<le> length xs)"
proof -
  note D = settledD [OF st]
  note D' = settledD [OF st']
  have t': "tblocked st' t = b" using step(2) t bl unfolding still_def by (metis insert_iff singletonD)
  have only: "u = s" if "u \<in> S" "b \<in> set (Q u)" for u
    using sems_block [OF D(1) that] sems_block [OF D(1) q(2), of b] q(1) by simp
  have dist: "distinct (Q s)" using sems_ring [OF D(1) q(2)] by (simp add: ring_def)
  have s': "bsem st' b \<in> S" "b \<in> set (Q' (bsem st' b))" using sems_blocked [OF D'(1) bl] t' by auto
  have pos: "\<exists>xs' ys'. Q' s = xs' @ b # ys' \<and> length xs' \<le> length ws"
    if "shrinks R Q'" "R s = ws @ b # zs" "distinct (R s)" "bsem st' b = s" for R ws zs
  proof -
    have "subseq (Q' s) (ws @ b # zs)" using that(1,2) by (metis shrinks_def)
    then show ?thesis using subseq_position that s'(2) by metis
  qed
  have mem: "b \<in> set (R (bsem st' b))" if "shrinks R Q'" for R
    using s'(2) that list_emb_set [of "(=)" "Q' (bsem st' b)" "R (bsem st' b)" b] by (auto simp: shrinks_def)
  have "\<exists>xs' ys'. Q' s = xs' @ b # ys' \<and> length xs' + (if e = Up_slow s then 1 else 0) \<le> length xs"
  proof (cases "\<exists>u. e = Up_slow u")
    case True
    then obtain u where e: "e = Up_slow u" by blast
    then have sh: "shrinks (Q(u := tl (Q u))) Q'" using step(1) by simp
    have "b \<in> set (Q (bsem st' b))" using mem [OF sh] by (cases "Q u") (auto split: if_splits)
    then have bs: "bsem st' b = s" using only s'(1) by blast
    show ?thesis
    proof (cases "u = s")
      case True
      then have "xs \<noteq> []" using mem [OF sh] bs q(1) dist by auto
      then obtain x xs2 where "xs = x # xs2" by (cases xs) auto
      then show ?thesis using pos [OF sh, of xs2 ys] bs True dist q(1) e by auto
    next
      case False
      then show ?thesis using pos [OF sh, of xs ys] bs q(1) dist e by auto
    qed
  next
    case False
    obtain R zs where R: "shrinks R Q'" "R s = xs @ b # zs" "distinct (R s)" "b \<in> set (R u) \<Longrightarrow> u \<in> S \<Longrightarrow> b \<in> set (Q u)" for u
    proof (cases "\<exists>u. queue_add S u Q Q'")
      case True
      then obtain u c where "\<forall>v \<in> S. c \<notin> set (Q v)" "shrinks (Q(u := Q u @ [c])) Q'" by (auto simp: queue_add_def)
      moreover have "c \<noteq> b" using calculation(1) q by auto
      moreover have "c \<notin> set (Q s)" using calculation(1) q(2) by blast
      moreover have "b \<in> set ((Q(u := Q u @ [c])) v) \<Longrightarrow> b \<in> set (Q v)" for v
        using \<open>c \<noteq> b\<close> by (auto split: if_splits)
      ultimately show thesis
        using that [of "Q(u := Q u @ [c])" "if u = s then ys @ [c] else ys"] q(1) dist by (cases "u = s") auto
    next
      case nd: False
      have "shrinks Q Q'" using step(1) False nd by (cases e) auto
      then show thesis using that [of Q ys] q(1) dist by auto
    qed
    have "bsem st' b = s" using mem [OF R(1)] R(4) only s'(1) by blast
    then show ?thesis using pos [OF R(1,2,3)] False by auto
  qed
  then show ?thesis using t' by simp
qed

text \<open>A run is a sequence of steps.\<close>

fun thread_run :: "ptr set \<Rightarrow> ptr \<Rightarrow> hook \<Rightarrow> config \<Rightarrow> (event \<times> config) list \<Rightarrow> bool" where
  "thread_run S idle hook c [] \<longleftrightarrow> True"
| "thread_run S idle hook c ((e, c') # r) \<longleftrightarrow> thread_step S idle hook c e c' \<and> thread_run S idle hook c' r"

lemma run_wakes:
  assumes "hook_ok S hook" and "settled S idle (fst c) ts Q" and "tblocked (fst c) t = b" and "b \<noteq> 0"
    and "Q s = xs @ b # ys" and "s \<in> S" and "thread_run S idle hook c r" and "length xs < count_list (map fst r) (Up_slow s)"
  shows "\<exists>c' \<in> snd ` set r. runnable (fst c') t"
  using assms(2-)
proof (induction r arbitrary: c ts Q xs ys)
  case (Cons x r)
  obtain e st' pd' st pd where x: "x = (e, (st', pd'))" "c = (st, pd)" by (metis surj_pair)
  then have s: "thread_step S idle hook (st, pd) e (st', pd')" "thread_run S idle hook (st', pd') r" and st: "settled S idle st ts Q" "tblocked st t = b"
    using Cons.prems by auto
  show ?case
  proof (cases "runnable st' t")
    case False
    obtain ts' Q' where k: "settled S idle st' ts' Q'" "queue_step S e Q Q'" "still st st'" using step_keeps [OF s(1) assms(1) st(1)] by blast
    have "tblocked st' t = b \<and> (\<exists>xs' ys'. Q' s = xs' @ b # ys' \<and> length xs' + (if e = Up_slow s then 1 else 0) \<le> length xs)"
      by (rule wait_step [OF k(2,3) st(1) k(1) st(2) Cons.prems(3-5) False])
    then obtain xs' ys' where w: "tblocked st' t = b" "Q' s = xs' @ b # ys'" "length xs' + (if e = Up_slow s then 1 else 0) \<le> length xs" by blast
    have "length xs' < count_list (map fst r) (Up_slow s)" using Cons.prems(7) w(3) x by (auto split: if_splits)
    then show ?thesis using Cons.IH [of "(st', pd')" ts' Q' xs' ys'] k(1) w(1,2) assms(4,6) s(2) by auto
  qed (auto simp: x)
qed simp

subsection \<open>An exiting thread and the time-outs\<close>

lemma exit_thread_hook_hangs:
  assumes st: "settled S idle st ts Q" and cur: "current st \<noteq> idle" and tick: "jiffies st \<noteq> last_jiffies st"
    and poll: "pxe_need_poll st \<noteq> 1" and m: "msem \<in> S" and b: "fresh_block S st b"
  shows "exit_thread (Some (pxe_poll_wakeups p r)) msem b st = Hang"
proof -
  have b': "b \<noteq> 0" "b \<notin> S" "b \<notin> range (tblocked st)" using b by auto
  show ?thesis
  proof (rule exit_thread_schedule [OF st cur m b'])
    fix st1 f Q1
    assume x: "\<And>hook. exit_thread hook msem b st = after (schedule hook st1) (f hook)" and l: "linked S idle st1 (butlast ts) Q1" and off: "off_thread st st1"
    let ?st = "st1\<lparr>in_sched_hook := True\<rparr>\<lparr>last_jiffies := jiffies st1\<rparr>"
    have "linked S idle ?st (butlast ts) Q1" using l by (simp only: linked_fields)
    moreover have "current ?st \<notin> set (butlast ts)" "in_sched_hook ?st" using exit_thread_unlink(3) [OF st cur] off by (simp_all add: off_thread_def)
    ultimately have "thread_process_timeouts ?st = None" by (rule timeouts_off_list)
    then have "run_hook (Some (pxe_poll_wakeups p r)) st1 = None"
      using tick poll off by (simp add: run_hook_def pxe_poll_wakeups_def off_thread_def)
    moreover have "\<not> in_sched_hook st1" using settledD(8) [OF st] off by (simp add: off_thread_def)
    ultimately show ?thesis unfolding x by (simp add: schedule_def)
  qed
qed

subsection \<open>Properties\<close>

text \<open>A small program: the root thread 1, the idle thread 2, a semaphore 3 and a block 4 on which the root thread waits.\<close>

definition demo :: sched where "demo = sem_init 3 0 (link_thread 2 IDLE_THREAD_PRIORITY (root_sched 1))"

definition demo_wait :: sched where
  "demo_wait = (sem_block 4 3 0 (demo\<lparr>scount := (scount demo)(3 := - 1)\<rparr>))\<lparr>current := 2\<rparr>"

definition demo_woken :: sched where
  "demo_woken = (sem_wake 3 4 (demo_wait\<lparr>scount := (scount demo_wait)(3 := 0)\<rparr>))\<lparr>current := 1\<rparr>"

lemmas demo_simps = demo_def link_thread_def root_sched_def sem_init_def sem_block_def sem_wake_def Let_def IDLE_THREAD_PRIORITY_def
  INT_MAX_def INT_MIN_def

lemma demo_boot: "outcome (start_idle_thread None (\<lambda>_. Some 2) (Some r) (root_sched 1)) =
  Some (link_thread 2 IDLE_THREAD_PRIORITY (root_sched 1))"
  by (simp add: start_idle_thread_def start_thread_def schedule_def run_hook_def sched_walk.simps better_def demo_simps)

lemma demo_down: "outcome (sem_down_slow None 4 3 0 (sem_dec 3 demo)) = Some demo_wait"
  by (simp add: sem_dec_def decl32_def sem_down_slow_def sem_is_valid_def schedule_def run_hook_def sched_walk.simps better_def
      demo_wait_def demo_simps)

lemma demo_up: "outcome (sem_up_slow None 3 (sem_inc 3 demo_wait)) = Some demo_woken"
  by (simp add: sem_inc_def incl32_def sem_up_slow_def schedule_def run_hook_def sched_walk.simps better_def demo_wait_def
      demo_woken_def demo_simps)

lemma demo_settled: "settled {3} 2 demo [2, 1] (\<lambda>_. [])"
  by (auto simp: settled_def linked_def following_def ring_def sems_ok_def demo_simps)

lemma demo_reachable: "reachable 2 {3} (demo, Map.empty)" "reachable 2 {3} (demo_wait, Map.empty)"
proof -
  have "reachable 2 {} (link_thread 2 IDLE_THREAD_PRIORITY (root_sched 1), Map.empty)"
    by (rule reachable.boot [OF _ _ _ demo_boot]) simp_all
  from reachable.init [OF this, of 3 0] show r: "reachable 2 {3} (demo, Map.empty)" by (simp add: demo_simps)
  have h: "hook_ok {3} None" by (simp add: hook_ok_def)
  have "thread_step {3} 2 None (demo, Map.empty) (Dec 3) (sem_dec 3 demo, [1 \<mapsto> Pdown 3 0])"
    by (rule thread_step.dec [where timeout = 0]) (simp_all add: sem_dec_def decl32_def demo_simps)
  from reachable.step [OF r h this] have r1: "reachable 2 {3} (sem_dec 3 demo, [1 \<mapsto> Pdown 3 0])" .
  have "thread_step {3} 2 None (sem_dec 3 demo, [1 \<mapsto> Pdown 3 0]) (Down_slow 3) (demo_wait, [1 \<mapsto> Pdown 3 0](current (sem_dec 3 demo) := None))"
    by (rule thread_step.down_slow [OF _ _ _ _ demo_down]) (auto simp: sem_dec_def demo_simps)
  moreover have "[1 \<mapsto> Pdown 3 0](current (sem_dec 3 demo) := None) = Map.empty" by (auto simp: sem_dec_def demo_simps)
  ultimately show "reachable 2 {3} (demo_wait, Map.empty)" using reachable.step [OF r1 h] by metis
qed

text \<open>
  The count of a semaphore does not say how many threads wait. A second thread 5 does the \<open>decl\<close> of \<open>sem_down\<close> and is interrupted; the root
  thread raises the semaphore, finds no one in the queue, and waits itself; then the second thread goes on and waits too. Two threads
  wait, and the count is \<open>- 1\<close>: one call of \<open>sem_up\<close> makes it 0, and the calls after that do not look at the queue.
\<close>

definition waiting :: "sched \<Rightarrow> ptr \<Rightarrow> ptr set" where
  "waiting st s = {t. tblocked st t \<noteq> 0 \<and> bsem st (tblocked st t) = s}"

definition lost0 :: sched where "lost0 = (link_thread 5 0 demo)\<lparr>current := 5\<rparr>"
definition lost1 :: sched where "lost1 = (sem_dec 3 lost0)\<lparr>current := 1\<rparr>"
definition lost2 :: sched where "lost2 = (sem_block 4 3 0 (sem_dec 3 (sem_inc 3 lost1)))\<lparr>current := 5\<rparr>"
definition lost3 :: sched where "lost3 = (sem_block 6 3 0 lost2)\<lparr>current := 2\<rparr>"

lemmas lost_simps = lost0_def lost1_def lost2_def lost3_def sem_dec_def sem_inc_def decl32_def incl32_def schedule_def run_hook_def sched_walk.simps better_def
  sem_up_slow_def sem_down_slow_def sem_is_valid_def demo_simps

lemma lost_wakeup: "reachable 2 {3} (lost3, Map.empty)" "scount lost3 3 = - 1" "waiting lost3 3 = {1, 5}"
proof -
  have h: "hook_ok {3} None" by (simp add: hook_ok_def)
  note step = reachable.step [OF _ h, of 2]
  have "threads demo = {2, 1}" using settled_threads [OF demo_settled] by simp
  moreover have "outcome (start_thread None (\<lambda>_. Some 5) (Some 7) 0 0 demo) = Some lost0" by (simp add: start_thread_def lost_simps)
  ultimately have "thread_step {3} 2 None (demo, Map.empty) (Start 5) (lost0, Map.empty(5 := None))"
    by (intro thread_step.start [where malloc = "\<lambda>_. Some 5"]) (auto simp: demo_simps)
  from step [OF demo_reachable(1) this] have 0: "reachable 2 {3} (lost0, Map.empty)" by (simp add: fun_upd_idem)
  have "thread_step {3} 2 None (lost0, Map.empty) (Dec 3) (sem_dec 3 lost0, [5 \<mapsto> Pdown 3 0])"
    by (rule thread_step.dec [where timeout = 0]) (simp_all add: lost_simps)
  from step [OF 0 this] have 1: "reachable 2 {3} (sem_dec 3 lost0, [5 \<mapsto> Pdown 3 0])" .
  have "thread_step {3} 2 None (sem_dec 3 lost0, [5 \<mapsto> Pdown 3 0]) Preempt (lost1, [5 \<mapsto> Pdown 3 0])" by (rule thread_step.preempt) (simp add: lost_simps)
  from step [OF 1 this] have 2: "reachable 2 {3} (lost1, [5 \<mapsto> Pdown 3 0])" .
  have "thread_step {3} 2 None (lost1, [5 \<mapsto> Pdown 3 0]) (Inc 3) (sem_inc 3 lost1, [5 \<mapsto> Pdown 3 0, 1 \<mapsto> Pup 3])"
    by (rule thread_step.inc) (simp_all add: lost_simps)
  from step [OF 2 this] have 3: "reachable 2 {3} (sem_inc 3 lost1, [5 \<mapsto> Pdown 3 0, 1 \<mapsto> Pup 3])" .
  have "outcome (sem_up_slow None 3 (sem_inc 3 lost1)) = Some (sem_inc 3 lost1)" by (simp add: lost_simps)
  then have "thread_step {3} 2 None (sem_inc 3 lost1, [5 \<mapsto> Pdown 3 0, 1 \<mapsto> Pup 3]) (Up_slow 3)
      (sem_inc 3 lost1, [5 \<mapsto> Pdown 3 0, 1 \<mapsto> Pup 3](current (sem_inc 3 lost1) := None))"
    by (intro thread_step.up_slow) (simp_all add: sem_inc_def lost1_def)
  moreover have "[5 \<mapsto> Pdown 3 0, 1 \<mapsto> Pup 3](current (sem_inc 3 lost1) := None) = [5 \<mapsto> Pdown 3 0]" by (auto simp: sem_inc_def lost1_def)
  ultimately have 4: "reachable 2 {3} (sem_inc 3 lost1, [5 \<mapsto> Pdown 3 0])" using step [OF 3] by metis
  have "thread_step {3} 2 None (sem_inc 3 lost1, [5 \<mapsto> Pdown 3 0]) (Dec 3) (sem_dec 3 (sem_inc 3 lost1), [5 \<mapsto> Pdown 3 0, 1 \<mapsto> Pdown 3 0])"
    by (rule thread_step.dec [where timeout = 0]) (simp_all add: lost_simps)
  from step [OF 4 this] have 5: "reachable 2 {3} (sem_dec 3 (sem_inc 3 lost1), [5 \<mapsto> Pdown 3 0, 1 \<mapsto> Pdown 3 0])" .
  have "outcome (sem_down_slow None 4 3 0 (sem_dec 3 (sem_inc 3 lost1))) = Some lost2" by (simp add: lost_simps)
  then have "thread_step {3} 2 None (sem_dec 3 (sem_inc 3 lost1), [5 \<mapsto> Pdown 3 0, 1 \<mapsto> Pdown 3 0]) (Down_slow 3)
      (lost2, [5 \<mapsto> Pdown 3 0, 1 \<mapsto> Pdown 3 0](current (sem_dec 3 (sem_inc 3 lost1)) := None))"
    by (intro thread_step.down_slow [where b = 4 and timeout = 0]) (auto simp: lost_simps)
  moreover have "[5 \<mapsto> Pdown 3 0, 1 \<mapsto> Pdown 3 0](current (sem_dec 3 (sem_inc 3 lost1)) := None) = [5 \<mapsto> Pdown 3 0]" by (auto simp: sem_inc_def sem_dec_def lost1_def)
  ultimately have 6: "reachable 2 {3} (lost2, [5 \<mapsto> Pdown 3 0])" using step [OF 5] by metis
  have "outcome (sem_down_slow None 6 3 0 lost2) = Some lost3" by (simp add: lost_simps)
  then have "thread_step {3} 2 None (lost2, [5 \<mapsto> Pdown 3 0]) (Down_slow 3) (lost3, [5 \<mapsto> Pdown 3 0](current lost2 := None))"
    by (intro thread_step.down_slow [where b = 6 and timeout = 0]) (auto simp: lost_simps)
  moreover have "[5 \<mapsto> Pdown 3 0](current lost2 := None) = Map.empty" by (auto simp: lost2_def)
  ultimately show "reachable 2 {3} (lost3, Map.empty)" using step [OF 6] by metis
  show "scount lost3 3 = - 1" "waiting lost3 3 = {1, 5}" by (auto simp: waiting_def lost_simps split: if_splits)
qed

text \<open>C20. The scheduler: when it is entered, the hook has run and some thread on the list is runnable, it goes on with
  a runnable thread of the best priority (the lowest number), the first such after the current
  one in the order of the list; it switches unless this is the current thread.\<close>

theorem schedule_correct:
  assumes "\<not> in_sched_hook st" and "run_hook hook st = Some st1" and "following st1 ts" and "\<exists>t \<in> set ts. runnable st1 t"
  shows "\<exists>p. first_best st1 ts p \<and>
    schedule hook st = (if p = current st1 then Ret () st1 else Switch (st1\<lparr>current := p\<rparr>) (Ret ()))"
  using schedule_pick [OF assms] by blast

theorem schedule_correct_witness:
  "\<exists>p. first_best demo [2, 1] p \<and> schedule None demo = (if p = current demo then Ret () demo else Switch (demo\<lparr>current := p\<rparr>) (Ret ()))"
  by (rule schedule_correct) (auto simp: run_hook_def following_def ring_def demo_simps)

text \<open>The time-outs: called from the scheduler's hook while the current thread is on the list, the walk over the
  threads ends; every other thread whose time-out has passed is unblocked, no other thread's block
  changes, and the queues, their counts and the list stay well-formed.\<close>

theorem thread_process_timeouts_correct:
  assumes "linked S idle st ts Q" and "current st = last ts" and "in_sched_hook st"
  shows "\<exists>st' Q'. thread_process_timeouts st = Some st' \<and> linked S idle st' ts Q' \<and> shrinks Q Q' \<and>
    tblocked st' = (\<lambda>t. if t \<in> set (butlast ts) \<and> expired st t then 0 else tblocked st t)"
  using hook_timeouts [OF assms] by (auto simp: timed_out_def)

theorem thread_process_timeouts_correct_witness:
  "\<exists>st' Q'. thread_process_timeouts (demo\<lparr>in_sched_hook := True\<rparr>) = Some st' \<and> linked {3} 2 st' [2, 1] Q' \<and> shrinks (\<lambda>_. []) Q' \<and>
    tblocked st' = (\<lambda>t. if t \<in> set (butlast [2, 1]) \<and> expired (demo\<lparr>in_sched_hook := True\<rparr>) t then 0
      else tblocked (demo\<lparr>in_sched_hook := True\<rparr>) t)"
  by (rule thread_process_timeouts_correct) (auto simp: linked_def following_def ring_def sems_ok_def demo_simps)

text \<open>C18. In every state that the thread library reaches from the boot (threads started, killed and ended, semaphores
  initialised, raised and waited on in any order, with or without the network's hook, and interrupted between any two steps, also between the \<open>decl\<close> or
  \<open>incl\<close> of a semaphore and the lock that follows) the thread list and the queues are well-formed doubly-linked lists, every blocked thread waits in exactly
  one queue, and the current thread is on the list and runnable. The scheduler therefore finds a thread to run, and the slow paths of the semaphores come to an end
  or to a switch: none of them stops the machine.\<close>

theorem reachable_invariant:
  assumes "reachable idle S (st, pd)"
  shows "(\<exists>ts Q. settled S idle st ts Q) \<and>
    (hook_ok S hook \<longrightarrow> (\<exists>st'. outcome (thread_yield hook st) = Some st') \<and> (\<forall>s \<in> S. \<exists>st'. outcome (sem_up_slow hook s st) = Some st') \<and>
      (\<forall>s \<in> S. \<forall>b timeout. fresh_block S st b \<and> current st \<noteq> idle \<longrightarrow> (\<exists>st'. outcome (sem_down_slow hook b s timeout st) = Some st')))"
proof -
  obtain ts Q where s: "settled S idle st ts Q" using reachable_settled_ex [OF assms] by auto
  have "\<exists>st'. outcome (thread_yield hook st) = Some st'" "\<forall>s \<in> S. \<exists>st'. outcome (sem_up_slow hook s st) = Some st'"
    "\<forall>s \<in> S. \<forall>b timeout. fresh_block S st b \<and> current st \<noteq> idle \<longrightarrow> (\<exists>st'. outcome (sem_down_slow hook b s timeout st) = Some st')" if h: "hook_ok S hook"
    using scheduler_hook.settled_schedule_keeps [OF hook_ok_scheduler [OF h] s] scheduler_hook.up_slow_keeps [OF hook_ok_scheduler [OF h] s]
      scheduler_hook.down_slow_keeps [OF hook_ok_scheduler [OF h] s] by (auto simp: thread_yield_def) metis+
  then show ?thesis using s by blast
qed

theorem reachable_invariant_witness:
  "(\<exists>ts Q. settled {3} 2 lost3 ts Q) \<and> (\<exists>st'. outcome (thread_yield None lost3) = Some st') \<and> (\<exists>st'. outcome (sem_up_slow None 3 lost3) = Some st')"
proof -
  have "hook_ok {3} None" by (simp add: hook_ok_def)
  then show ?thesis using reachable_invariant [OF lost_wakeup(1), of None] by blast
qed

lemma waiting_queue:
  assumes ok: "sems_ok S st Q" and s: "s \<in> S"
  shows "card (waiting st s) = length (Q s)"
proof -
  have "waiting st s = bthread st ` set (Q s)"
  proof
    show "waiting st s \<subseteq> bthread st ` set (Q s)"
    proof
      fix t
      assume "t \<in> waiting st s"
      then have "tblocked st t \<in> set (Q s)" "bthread st (tblocked st t) = t" using sems_blocked [OF ok, of t] by (auto simp: waiting_def)
      then show "t \<in> bthread st ` set (Q s)" by (metis image_eqI)
    qed
    show "bthread st ` set (Q s) \<subseteq> waiting st s" using sems_block [OF ok s] by (auto simp: waiting_def)
  qed
  moreover have "inj_on (bthread st) (set (Q s))" using sems_block [OF ok s] by (metis inj_onI)
  moreover have "distinct (Q s)" using sems_ring [OF ok s] by (simp add: ring_def)
  ultimately show ?thesis by (simp add: card_image distinct_card)
qed

text \<open>C19. A thread that waits on a semaphore is woken, first come first served: in every run from a reachable state in which \<open>__sem_up_slow\<close> is executed on the
  semaphore as often as threads were waiting on it at the start, the thread is runnable at some point, whatever the other threads and the interrupts
  do in between (wait on the same semaphore, be killed, time out). The count of the semaphore does not bound the number of waiting threads, and \<open>sem_up\<close> comes to the
  slow path only while the count is negative.\<close>

theorem sem_waiter_woken:
  assumes "reachable idle S (st, pd)" and "hook_ok S hook" and "thread_run S idle hook (st, pd) r"
    and "tblocked st t = b" and "b \<noteq> 0" and "card (waiting st (bsem st b)) \<le> count_list (map fst r) (Up_slow (bsem st b))"
  shows "\<exists>c' \<in> snd ` set r. runnable (fst c') t"
proof -
  obtain ts Q where s: "settled S idle st ts Q" using reachable_settled_ex [OF assms(1)] by auto
  note D = settledD [OF s]
  have b: "bsem st b \<in> S" "b \<in> set (Q (bsem st b))" using sems_blocked [OF D(1), of t] assms(4,5) by auto
  then obtain xs ys where q: "Q (bsem st b) = xs @ b # ys" by (meson split_list)
  then have "length xs < count_list (map fst r) (Up_slow (bsem st b))" using waiting_queue [OF D(1) b(1)] assms(6) by simp
  moreover have "settled S idle (fst (st, pd)) ts Q" "tblocked (fst (st, pd)) t = b" using s assms(4) by simp_all
  ultimately show ?thesis using run_wakes [of S hook idle "(st, pd)" ts Q t b "bsem st b" xs ys r] assms(2,3,5) q b(1) by blast
qed

theorem sem_waiter_woken_witness:
  "\<exists>c' \<in> snd ` set [(Inc 3, (sem_inc 3 demo_wait, [(2 :: ptr) \<mapsto> Pup 3])), (Up_slow 3, (demo_woken, Map.empty(2 :: ptr := None)))]. runnable (fst c') 1"
proof (rule sem_waiter_woken [OF demo_reachable(2), of None _ _ 4])
  have "thread_step {3} 2 None (demo_wait, Map.empty) (Inc 3) (sem_inc 3 demo_wait, [(2 :: ptr) \<mapsto> Pup 3])"
    by (rule thread_step.inc) (simp_all add: demo_wait_def demo_simps)
  moreover have "thread_step {3} 2 None (sem_inc 3 demo_wait, [(2 :: ptr) \<mapsto> Pup 3]) (Up_slow 3) (demo_woken, [(2 :: ptr) \<mapsto> Pup 3](current (sem_inc 3 demo_wait) := None))"
    by (rule thread_step.up_slow [OF _ _ demo_up]) (simp_all add: sem_inc_def demo_wait_def)
  moreover have "[(2 :: ptr) \<mapsto> Pup 3](current (sem_inc 3 demo_wait) := None) = Map.empty(2 :: ptr := None)" by (auto simp: sem_inc_def demo_wait_def)
  ultimately show "thread_run {3} 2 None (demo_wait, Map.empty) [(Inc 3, (sem_inc 3 demo_wait, [(2 :: ptr) \<mapsto> Pup 3])), (Up_slow 3, (demo_woken, Map.empty(2 :: ptr := None)))]"
    by simp
  have "waiting demo_wait 3 = {1}" by (auto simp: waiting_def demo_wait_def demo_simps)
  moreover have "bsem demo_wait 4 = 3" by (simp add: demo_wait_def demo_simps)
  ultimately show "card (waiting demo_wait (bsem demo_wait 4)) \<le>
    count_list (map fst [(Inc 3, (sem_inc 3 demo_wait, [(2 :: ptr) \<mapsto> Pup 3])), (Up_slow 3, (demo_woken, Map.empty(2 :: ptr := None)))]) (Up_slow (bsem demo_wait 4))" by simp
qed (simp_all add: hook_ok_def demo_wait_def demo_simps)

text \<open>C35. A thread that ends while the network's hook is installed and the timer has moved since the hook last ran: the walk
  over the time-outs starts at its successor and looks for the thread itself, which is no longer on the
  list, so \<open>__exit_thread\<close> never switches to another thread, whether it waits for the semaphore of the allocator to free its stacks or not.\<close>

theorem exit_thread_hangs:
  assumes "settled S idle st ts Q" and "current st \<noteq> idle" and "jiffies st \<noteq> last_jiffies st" and "pxe_need_poll st \<noteq> 1"
    and "msem \<in> S" and "fresh_block S st b"
  shows "exit_thread (Some (pxe_poll_wakeups p r)) msem b st = Hang"
  by (rule exit_thread_hook_hangs [OF assms])

theorem exit_thread_hangs_witness: "exit_thread (Some (pxe_poll_wakeups 3 3)) 3 4 (demo\<lparr>jiffies := 1\<rparr>) = Hang"
  by (rule exit_thread_hangs [of "{3}" 2 _ "[2, 1]" "\<lambda>_. []"])
    (auto simp: settled_def linked_def following_def ring_def sems_ok_def demo_simps)

end
