(* ===== verification/Mailbox.thy ===== *)
theory Mailbox
  imports ThreadSteps
begin

section \<open>Mailboxes\<close>

text \<open>
  \<open>core/thread/mbox.c\<close>: a ring buffer of messages between threads. Two semaphores count the empty and the full slots,
  two others protect the ends. A mailbox at the address \<open>m\<close> starts with its four semaphores of 12 bytes each.
\<close>

subsection \<open>Operations\<close>

definition ENOMEM :: u32 where "ENOMEM = 12"

definition prod_sem :: "ptr \<Rightarrow> ptr" where "prod_sem m = m"
definition cons_sem :: "ptr \<Rightarrow> ptr" where "cons_sem m = m + 12"
definition head_sem :: "ptr \<Rightarrow> ptr" where "head_sem m = m + 24"
definition tail_sem :: "ptr \<Rightarrow> ptr" where "tail_sem m = m + 36"

lemmas mbox_sems = prod_sem_def cons_sem_def head_sem_def tail_sem_def

definition mbox_init :: "ptr \<Rightarrow> u32 \<Rightarrow> sched \<Rightarrow> sched" where
  "mbox_init m slots st =
    (if m \<noteq> 0 then
       let st = sem_init (prod_sem m) (sint slots) st;
           st = sem_init (cons_sem m) 0 st;
           st = sem_init (head_sem m) 1 st;
           st = sem_init (tail_sem m) 1 st
       in st\<lparr>mbwrap := (mbwrap st)(m := unat slots), mbhead := (mbhead st)(m := 0), mbtail := (mbtail st)(m := 0)\<rparr>
     else st)"

definition mbox_set_invalid :: "ptr \<Rightarrow> sched \<Rightarrow> sched" where
  "mbox_set_invalid m st = (if m \<noteq> 0 then sem_set_invalid (prod_sem m) st else st)"

definition mbox_is_valid :: "sched \<Rightarrow> ptr \<Rightarrow> bool" where
  "mbox_is_valid st m \<longleftrightarrow> m \<noteq> 0 \<and> sem_is_valid st (prod_sem m)"

text \<open>The slot at the head is filled, the one at the tail emptied.\<close>

definition mbox_put :: "ptr \<Rightarrow> ptr \<Rightarrow> sched \<Rightarrow> sched" where
  "mbox_put m msg st =
    (let st = st\<lparr>mbdata := (mbdata st)(m := (mbdata st m)(mbhead st m := msg))\<rparr>;
         st = st\<lparr>mbhead := (mbhead st)(m := mbhead st m + 1)\<rparr>
     in if mbhead st m = mbwrap st m then st\<lparr>mbhead := (mbhead st)(m := 0)\<rparr> else st)"

definition mbox_take :: "ptr \<Rightarrow> sched \<Rightarrow> sched" where
  "mbox_take m st =
    (let st = st\<lparr>mbtail := (mbtail st)(m := mbtail st m + 1)\<rparr>
     in if mbtail st m = mbwrap st m then st\<lparr>mbtail := (mbtail st)(m := 0)\<rparr> else st)"

text \<open>\<open>b\<close>: the block on the stack of the caller with which it sleeps.\<close>

definition mbox_post :: "hook \<Rightarrow> ptr \<Rightarrow> ptr \<Rightarrow> ptr \<Rightarrow> u32 \<Rightarrow> sched \<Rightarrow> u32 run" where
  "mbox_post hook b m msg timeout st =
    (if \<not> mbox_is_valid st m then Ret ENOMEM st
     else after (sem_down hook b (prod_sem m) timeout st) (\<lambda>t st.
       if t = - 1 then Ret ENOMEM st
       else after (sem_down hook b (head_sem m) 0 st) (\<lambda>_ st.
         after (sem_up hook (head_sem m) (mbox_put m msg st)) (\<lambda>_ st.
           after (sem_up hook (cons_sem m) st) (\<lambda>_ st. Ret 0 st)))))"

text \<open>\<open>want\<close>: the caller passes a place for the message. The result is the time waited and the message.\<close>

definition mbox_fetch :: "hook \<Rightarrow> ptr \<Rightarrow> ptr \<Rightarrow> bool \<Rightarrow> u32 \<Rightarrow> sched \<Rightarrow> (u32 \<times> ptr option) run" where
  "mbox_fetch hook b m want timeout st =
    (if m = 0 then Ret (- 1, None) st
     else after (sem_down hook b (cons_sem m) timeout st) (\<lambda>t st.
       if t = - 1 then Ret (- 1, None) st
       else after (sem_down hook b (tail_sem m) 0 st) (\<lambda>t' st.
         let t = t + t';
             msg = (if want then Some (mbdata st m (mbtail st m)) else None)
         in after (sem_up hook (tail_sem m) (mbox_take m st)) (\<lambda>_ st.
           after (sem_up hook (prod_sem m) st) (\<lambda>_ st. Ret (t, msg) st)))))"

subsection \<open>The messages in a mailbox\<close>

definition mbox_slots :: "ptr \<Rightarrow> sched \<Rightarrow> ptr list \<Rightarrow> bool" where
  "mbox_slots m st xs \<longleftrightarrow> mbhead st m < mbwrap st m \<and> mbtail st m < mbwrap st m \<and> length xs \<le> mbwrap st m \<and>
     (mbtail st m + length xs) mod mbwrap st m = mbhead st m \<and>
     (\<forall>i < length xs. mbdata st m ((mbtail st m + i) mod mbwrap st m) = xs ! i)"

lemma mbox_put_slots:
  assumes "mbox_slots m st xs" and "length xs < mbwrap st m"
  shows "mbox_slots m (mbox_put m msg st) (xs @ [msg])"
proof -
  let ?w = "mbwrap st m" and ?h = "mbhead st m" and ?t = "mbtail st m"
  have h: "?h < ?w" "?t < ?w" "(?t + length xs) mod ?w = ?h" "\<forall>i < length xs. mbdata st m ((?t + i) mod ?w) = xs ! i"
    using assms(1) by (auto simp: mbox_slots_def)
  have s: "mbhead (mbox_put m msg st) m = Suc ?h mod ?w" "mbtail (mbox_put m msg st) m = ?t" "mbwrap (mbox_put m msg st) m = ?w"
    "mbdata (mbox_put m msg st) m = (mbdata st m)(?h := msg)"
    using h(1) by (auto simp: mbox_put_def Let_def)
  have "(?t + i) mod ?w \<noteq> ?h" if "i < length xs" for i
  proof
    assume "(?t + i) mod ?w = ?h"
    then have "(?t + i) mod ?w = (?t + length xs) mod ?w" using h(3) by simp
    then have "?w dvd length xs - i" using mod_eq_dvd_iff_nat [of "?t + i" "?t + length xs" ?w] that by auto
    then show False using that assms(2) by (auto dest: dvd_imp_le)
  qed
  moreover have "(?t + Suc (length xs)) mod ?w = Suc ?h mod ?w" using h(3) by (metis add_Suc_right mod_Suc_eq)
  ultimately show ?thesis unfolding mbox_slots_def s using h assms(2) by (auto simp: nth_append less_Suc_eq)
qed

lemma mbox_take_slots:
  assumes "mbox_slots m st (x # xs)"
  shows "mbox_slots m (mbox_take m st) xs" and "mbdata st m (mbtail st m) = x"
proof -
  let ?w = "mbwrap st m" and ?h = "mbhead st m" and ?t = "mbtail st m"
  have h: "?h < ?w" "?t < ?w" "(?t + Suc (length xs)) mod ?w = ?h" "length xs < ?w"
    and d: "\<forall>i < Suc (length xs). mbdata st m ((?t + i) mod ?w) = (x # xs) ! i"
    using assms by (auto simp: mbox_slots_def)
  show "mbdata st m ?t = x" using d h(2) by (metis Nat.add_0_right mod_less nth_Cons_0 zero_less_Suc)
  have s: "mbtail (mbox_take m st) m = Suc ?t mod ?w" "mbhead (mbox_take m st) m = ?h" "mbwrap (mbox_take m st) m = ?w"
    "mbdata (mbox_take m st) m = mbdata st m"
    using h(2) by (auto simp: mbox_take_def Let_def)
  have m: "(Suc ?t mod ?w + i) mod ?w = (?t + Suc i) mod ?w" for i by (simp add: mod_add_left_eq)
  have "mbdata st m ((?t + Suc i) mod ?w) = xs ! i" if "i < length xs" for i using d that by (metis Suc_mono nth_Cons_Suc)
  then show "mbox_slots m (mbox_take m st) xs" unfolding mbox_slots_def s m using h by auto
qed

text \<open>
  A mailbox at rest: no thread waits on it or is inside an operation. The semaphores count the empty and the full
  slots.
\<close>

definition mbox_ok :: "ptr \<Rightarrow> sched \<Rightarrow> ptr list \<Rightarrow> bool" where
  "mbox_ok m st xs \<longleftrightarrow> m \<noteq> 0 \<and> mbox_is_valid st m \<and> sem_is_valid st (cons_sem m) \<and> mbox_slots m st xs \<and> int (mbwrap st m) < INT_MAX \<and>
     scount st (cons_sem m) = int (length xs) \<and> scount st (prod_sem m) = int (mbwrap st m - length xs) \<and>
     scount st (head_sem m) = 1 \<and> scount st (tail_sem m) = 1"

text \<open>Semaphores on which no thread waits.\<close>

lemma sem_down_free: "0 < scount st s \<Longrightarrow> sem_down hook b s timeout st = Ret 0 (st\<lparr>scount := (scount st)(s := scount st s - 1)\<rparr>)"
  by (simp add: sem_down_def sem_dec_def decl32_def INT_MIN_def)

lemma sem_up_free:
  "0 \<le> scount st s \<Longrightarrow> scount st s < INT_MAX \<Longrightarrow> sem_up hook s st = Ret () (st\<lparr>scount := (scount st)(s := scount st s + 1)\<rparr>)"
  by (simp add: sem_up_def sem_inc_def incl32_def)

lemma sem_down_immediate:
  "scount st s = 0 \<Longrightarrow> sem_is_valid st s \<Longrightarrow> sem_down hook b s (- 1) st = Ret (- 1) st"
  by (simp add: sem_down_def sem_dec_def decl32_def INT_MIN_def sem_down_slow_def sem_is_valid_def fun_upd_idem)

lemma mbox_fields:
  "scount (mbox_put m msg st) = scount st" "scount (mbox_take m st) = scount st"
  "qnext (mbox_put m msg st) = qnext st" "qnext (mbox_take m st) = qnext st"
  "mbwrap (mbox_put m msg st) = mbwrap st" "mbwrap (mbox_take m st) = mbwrap st"
  by (simp_all add: mbox_put_def mbox_take_def Let_def)

lemma mbox_slots_cong:
  "mbox_slots m st xs \<Longrightarrow> mbhead st' m = mbhead st m \<Longrightarrow> mbtail st' m = mbtail st m \<Longrightarrow> mbwrap st' m = mbwrap st m \<Longrightarrow>
   mbdata st' m = mbdata st m \<Longrightarrow> mbox_slots m st' xs"
  by (simp add: mbox_slots_def)


subsection \<open>Posting and fetching\<close>

lemma mbox_post_room:
  assumes ok: "mbox_ok m st xs" and room: "length xs < mbwrap st m"
  shows "\<exists>st'. mbox_post hook b m msg timeout st = Ret 0 st' \<and> mbox_ok m st' (xs @ [msg]) \<and> mbwrap st' = mbwrap st"
proof -
  define st1 where "st1 = st\<lparr>scount := (scount st)(prod_sem m := scount st (prod_sem m) - 1, head_sem m := 0)\<rparr>"
  let ?st2 = "mbox_put m msg st1"
  let ?st' = "?st2\<lparr>scount := (scount st1)(head_sem m := 1, cons_sem m := scount st (cons_sem m) + 1)\<rparr>"
  have c: "scount st (cons_sem m) = int (length xs)" "scount st (prod_sem m) = int (mbwrap st m - length xs)"
    "scount st (head_sem m) = 1" "scount st (tail_sem m) = 1" "int (mbwrap st m) < INT_MAX" "m \<noteq> 0" "mbox_is_valid st m"
    "sem_is_valid st (cons_sem m)" using ok by (auto simp: mbox_ok_def)
  have d1: "sem_down hook b (prod_sem m) timeout st = Ret 0 (st\<lparr>scount := (scount st)(prod_sem m := scount st (prod_sem m) - 1)\<rparr>)"
    using c(2) room by (intro sem_down_free) simp
  have d2: "sem_down hook b (head_sem m) 0 (st\<lparr>scount := (scount st)(prod_sem m := scount st (prod_sem m) - 1)\<rparr>) = Ret 0 st1"
    using c(3) by (subst sem_down_free) (simp_all add: mbox_sems st1_def)
  have u1: "sem_up hook (head_sem m) ?st2 = Ret () (?st2\<lparr>scount := (scount st1)(head_sem m := 1)\<rparr>)"
    by (subst sem_up_free) (simp_all add: mbox_fields mbox_sems st1_def INT_MAX_def)
  have u2: "sem_up hook (cons_sem m) (?st2\<lparr>scount := (scount st1)(head_sem m := 1)\<rparr>) = Ret () ?st'"
    using c(1,5) room by (subst sem_up_free) (simp_all add: mbox_sems st1_def)
  have "mbox_slots m st1 xs" using ok mbox_slots_cong [of m st xs st1] by (simp add: mbox_ok_def st1_def)
  then have "mbox_slots m ?st2 (xs @ [msg])" using mbox_put_slots room by (simp add: st1_def)
  then have "mbox_slots m ?st' (xs @ [msg])" by (rule mbox_slots_cong) simp_all
  moreover have "mbox_post hook b m msg timeout st = Ret 0 ?st'" using c(7) by (simp add: mbox_post_def d1 d2 u1 u2)
  ultimately show ?thesis using c room
    by (intro exI [of _ ?st']) (auto simp: mbox_ok_def mbox_is_valid_def sem_is_valid_def mbox_fields st1_def mbox_sems)
qed

lemma mbox_fetch_some:
  assumes ok: "mbox_ok m st (x # xs)"
  shows "\<exists>st'. mbox_fetch hook b m True timeout st = Ret (0, Some x) st' \<and> mbox_ok m st' xs \<and> mbwrap st' = mbwrap st"
proof -
  define st1 where "st1 = st\<lparr>scount := (scount st)(cons_sem m := scount st (cons_sem m) - 1, tail_sem m := 0)\<rparr>"
  let ?st2 = "mbox_take m st1"
  let ?st' = "?st2\<lparr>scount := (scount st1)(tail_sem m := 1, prod_sem m := scount st (prod_sem m) + 1)\<rparr>"
  have c: "scount st (cons_sem m) = int (length (x # xs))" "scount st (prod_sem m) = int (mbwrap st m - length (x # xs))"
    "scount st (head_sem m) = 1" "scount st (tail_sem m) = 1" "int (mbwrap st m) < INT_MAX" "m \<noteq> 0" "mbox_is_valid st m"
    "sem_is_valid st (cons_sem m)" using ok by (auto simp: mbox_ok_def)
  have w: "length xs < mbwrap st m" using ok by (simp add: mbox_ok_def mbox_slots_def)
  have d1: "sem_down hook b (cons_sem m) timeout st = Ret 0 (st\<lparr>scount := (scount st)(cons_sem m := scount st (cons_sem m) - 1)\<rparr>)"
    using c(1) by (intro sem_down_free) simp
  have d2: "sem_down hook b (tail_sem m) 0 (st\<lparr>scount := (scount st)(cons_sem m := scount st (cons_sem m) - 1)\<rparr>) = Ret 0 st1"
    using c(4) by (subst sem_down_free) (simp_all add: mbox_sems st1_def)
  have u1: "sem_up hook (tail_sem m) ?st2 = Ret () (?st2\<lparr>scount := (scount st1)(tail_sem m := 1)\<rparr>)"
    by (subst sem_up_free) (simp_all add: mbox_fields mbox_sems st1_def INT_MAX_def)
  have u2: "sem_up hook (prod_sem m) (?st2\<lparr>scount := (scount st1)(tail_sem m := 1)\<rparr>) = Ret () ?st'"
    using c(2,5) by (subst sem_up_free) (simp_all add: mbox_sems st1_def)
  have s1: "mbox_slots m st1 (x # xs)" using ok mbox_slots_cong [of m st "x # xs" st1] by (simp add: mbox_ok_def st1_def)
  have "mbox_slots m ?st' xs" using mbox_take_slots(1) [OF s1] by (rule mbox_slots_cong) simp_all
  moreover have "mbox_fetch hook b m True timeout st = Ret (0, Some x) ?st'"
    using c(6) mbox_take_slots(2) [OF s1] by (simp add: mbox_fetch_def d1 d2 u1 u2 Let_def)
  ultimately show ?thesis using c w
    by (intro exI [of _ ?st']) (auto simp: mbox_ok_def mbox_is_valid_def sem_is_valid_def mbox_fields st1_def mbox_sems)
qed

lemma mbox_init_ok:
  assumes "m \<noteq> 0" and "0 < slots" and "int (unat slots) < INT_MAX"
  shows "mbox_ok m (mbox_init m slots st) []"
proof -
  have "sint slots = int (unat slots)"
    using assms(3) signed_take_bit_int_eq_self [of 31 "uint slots"] uint_ge_0 [of slots] by (simp add: sint_uint INT_MAX_def)
  moreover have "0 < unat slots" using assms(2) by (simp add: word_less_nat_alt)
  ultimately show ?thesis using assms(1,3)
    by (simp add: mbox_ok_def mbox_init_def mbox_is_valid_def sem_is_valid_def sem_init_def mbox_slots_def mbox_sems Let_def)
qed

subsection \<open>A mailbox is a bounded queue\<close>

text \<open>The operations of a program on a queue that never waits; each reports the message it moved.\<close>

datatype 'a fifo_op = Put 'a | Get

fun fifo_ops :: "nat \<Rightarrow> 'a fifo_op list \<Rightarrow> 'a list \<Rightarrow> 'a option list \<times> 'a list" where
  "fifo_ops cap [] q = ([], q)"
| "fifo_ops cap (Put x # ops) q =
    (if length q < cap then apfst (Cons (Some x)) (fifo_ops cap ops (q @ [x])) else apfst (Cons None) (fifo_ops cap ops q))"
| "fifo_ops cap (Get # ops) q =
    (case q of [] \<Rightarrow> apfst (Cons None) (fifo_ops cap ops []) | x # q \<Rightarrow> apfst (Cons (Some x)) (fifo_ops cap ops q))"

fun run_ops :: "('a \<Rightarrow> 's \<Rightarrow> ('a option \<times> 's) option) \<Rightarrow> ('s \<Rightarrow> ('a option \<times> 's) option) \<Rightarrow> 'a fifo_op list \<Rightarrow> 's \<Rightarrow>
    ('a option list \<times> 's) option" where
  "run_ops put get [] s = Some ([], s)"
| "run_ops put get (Put x # ops) s = Option.bind (put x s) (\<lambda>(r, s). map_option (apfst (Cons r)) (run_ops put get ops s))"
| "run_ops put get (Get # ops) s = Option.bind (get s) (\<lambda>(r, s). map_option (apfst (Cons r)) (run_ops put get ops s))"

locale bounded_fifo =
  fixes ok :: "'s \<Rightarrow> 'a list \<Rightarrow> bool" and cap :: "'s \<Rightarrow> nat"
    and put :: "'a \<Rightarrow> 's \<Rightarrow> ('a option \<times> 's) option" and get :: "'s \<Rightarrow> ('a option \<times> 's) option"
  assumes put_law: "ok s q \<Longrightarrow> \<exists>s'. put x s = Some (if length q < cap s then Some x else None, s') \<and>
      ok s' (if length q < cap s then q @ [x] else q) \<and> cap s' = cap s"
    and get_law: "ok s q \<Longrightarrow> \<exists>s'. get s = Some (if q = [] then None else Some (hd q), s') \<and> ok s' (tl q) \<and> cap s' = cap s"
begin

lemma ops_refine:
  "ok s q \<Longrightarrow> \<exists>s'. run_ops put get ops s = Some (fst (fifo_ops (cap s) ops q), s') \<and> ok s' (snd (fifo_ops (cap s) ops q)) \<and> cap s' = cap s"
proof (induction ops arbitrary: s q)
  case (Cons op ops)
  show ?case
  proof (cases op)
    case (Put x)
    obtain s1 where p: "put x s = Some (if length q < cap s then Some x else None, s1)"
      "ok s1 (if length q < cap s then q @ [x] else q)" "cap s1 = cap s" using put_law [OF Cons.prems] by blast
    show ?thesis using Cons.IH [OF p(2)] p Put by (auto simp: apfst_def map_prod_def split: prod.splits if_splits)
  next
    case Get
    obtain s1 where p: "get s = Some (if q = [] then None else Some (hd q), s1)" "ok s1 (tl q)" "cap s1 = cap s"
      using get_law [OF Cons.prems] by blast
    show ?thesis using Cons.IH [OF p(2)] p Get by (cases q) (auto simp: apfst_def map_prod_def split: prod.splits)
  qed
qed simp

end

text \<open>The mailbox with the immediate time-out, -1: an operation that would have to wait fails.\<close>

definition try_post :: "hook \<Rightarrow> ptr \<Rightarrow> ptr \<Rightarrow> ptr \<Rightarrow> sched \<Rightarrow> (ptr option \<times> sched) option" where
  "try_post hook b m msg st =
    (case mbox_post hook b m msg (- 1) st of Ret r st \<Rightarrow> Some (if r = 0 then Some msg else None, st) | _ \<Rightarrow> None)"

definition try_fetch :: "hook \<Rightarrow> ptr \<Rightarrow> ptr \<Rightarrow> sched \<Rightarrow> (ptr option \<times> sched) option" where
  "try_fetch hook b m st =
    (case mbox_fetch hook b m True (- 1) st of Ret (t, msg) st \<Rightarrow> Some (if t = - 1 then None else msg, st) | _ \<Rightarrow> None)"

interpretation mbox: bounded_fifo "mbox_ok m" "\<lambda>st. mbwrap st m" "try_post hook b m" "try_fetch hook b m" for hook b m
proof
  fix st q x
  assume ok: "mbox_ok m st q"
  show "\<exists>st'. try_post hook b m x st = Some (if length q < mbwrap st m then Some x else None, st') \<and>
    mbox_ok m st' (if length q < mbwrap st m then q @ [x] else q) \<and> mbwrap st' m = mbwrap st m"
  proof (cases "length q < mbwrap st m")
    case True
    then show ?thesis using mbox_post_room [OF ok True, of hook b x "- 1"] by (auto simp: try_post_def)
  next
    case False
    then have "sem_down hook b (prod_sem m) (- 1) st = Ret (- 1) st" "mbox_is_valid st m"
      using ok by (auto simp: mbox_ok_def mbox_is_valid_def intro!: sem_down_immediate)
    then show ?thesis using ok False by (simp add: try_post_def mbox_post_def ENOMEM_def)
  qed
next
  fix st q
  assume ok: "mbox_ok m st q"
  show "\<exists>st'. try_fetch hook b m st = Some (if q = [] then None else Some (hd q), st') \<and> mbox_ok m st' (tl q) \<and> mbwrap st' m = mbwrap st m"
  proof (cases q)
    case Nil
    then have "sem_down hook b (cons_sem m) (- 1) st = Ret (- 1) st" "m \<noteq> 0"
      using ok by (auto simp: mbox_ok_def intro!: sem_down_immediate)
    then show ?thesis using ok Nil by (simp add: try_fetch_def mbox_fetch_def)
  next
    case (Cons x xs)
    then show ?thesis using mbox_fetch_some [of m st x xs hook b "- 1"] ok by (auto simp: try_fetch_def)
  qed
qed

text \<open>C21. A mailbox of any number of slots, used with the immediate time-out, behaves as a bounded first-in first-out
  queue: for every sequence of posts and fetches after \<open>mbox_init\<close>, each post fails exactly when the queue is full,
  each fetch fails exactly when it is empty and otherwise returns the oldest message, also when the
  ring buffer wraps.\<close>

theorem mbox_refines_fifo:
  assumes "m \<noteq> 0" and "0 < slots" and "int (unat slots) < INT_MAX"
  shows "\<exists>st'. run_ops (try_post hook b m) (try_fetch hook b m) ops (mbox_init m slots st) = Some (fst (fifo_ops (unat slots) ops []), st') \<and>
    mbox_ok m st' (snd (fifo_ops (unat slots) ops []))"
proof -
  have "mbwrap (mbox_init m slots st) m = unat slots" using assms(1) by (simp add: mbox_init_def Let_def)
  then show ?thesis using mbox.ops_refine [OF mbox_init_ok [OF assms], of hook b ops st] by auto
qed

theorem mbox_refines_fifo_witness:
  "\<exists>st'. run_ops (try_post None 4 100) (try_fetch None 4 100) [Put 7, Put 8, Put 9, Get, Put 9, Get, Get, Get] (mbox_init 100 2 demo) =
     Some ([Some 7, Some 8, None, Some 7, Some 9, Some 8, Some 9, None], st') \<and> mbox_ok 100 st' []"
  using mbox_refines_fifo [of 100 2 None 4 "[Put 7, Put 8, Put 9, Get, Put 9, Get, Get, Get]" demo] by (simp add: INT_MAX_def)

end
