(* ===== verification/Heap.thy ===== *)
theory Heap
  imports Ring Zonelist
begin

section \<open>The memory allocator\<close>

text \<open>
  \<open>core/mem/\<close>: first-fit allocation from two heaps. Every block starts with an arena header of 16
  bytes; all blocks of a heap are on a circular list in the order of their addresses, the free ones also on a
  second list, both through a head node. The word \<open>attrs\<close> of a header holds the type in bits 0 and 1, the
  heap in bits 2 and 3 and the size, a multiple of 16, in the rest.

  A pointer field is a function from addresses; \<open>amem\<close> is the contents of the memory outside the headers. The
  semaphore \<open>__malloc_semaphore\<close> around each call makes the operations atomic.
\<close>

subsection \<open>Headers\<close>

definition MALLOC_FREE :: nat where "MALLOC_FREE = 0"
definition MALLOC_HEAD :: nat where "MALLOC_HEAD = 1"
definition MALLOC_CORE :: nat where "MALLOC_CORE = 2"
definition MALLOC_MODULE :: nat where "MALLOC_MODULE = 3"

definition ARENA_TYPE_USED :: u32 where "ARENA_TYPE_USED = 0"
definition ARENA_TYPE_FREE :: u32 where "ARENA_TYPE_FREE = 1"
definition ARENA_TYPE_HEAD :: u32 where "ARENA_TYPE_HEAD = 2"

definition HEAP_MAIN :: u32 where "HEAP_MAIN = 0"
definition HEAP_LOWMEM :: u32 where "HEAP_LOWMEM = 1"

definition sizeof_arena_header :: u32 where "sizeof_arena_header = 16"
definition ARENA_SIZE_MASK :: u32 where "ARENA_SIZE_MASK = NOT (sizeof_arena_header - 1)"
definition ARENA_HEAP_MASK :: u32 where "ARENA_HEAP_MASK = 0xc"
definition ARENA_TYPE_MASK :: u32 where "ARENA_TYPE_MASK = 0x3"

definition ARENA_SIZE_GET :: "u32 \<Rightarrow> u32" where "ARENA_SIZE_GET attrs = attrs AND ARENA_SIZE_MASK"
definition ARENA_HEAP_GET :: "u32 \<Rightarrow> u32" where "ARENA_HEAP_GET attrs = drop_bit 2 (attrs AND ARENA_HEAP_MASK)"
definition ARENA_TYPE_GET :: "u32 \<Rightarrow> u32" where "ARENA_TYPE_GET attrs = attrs AND ARENA_TYPE_MASK"

definition ARENA_SIZE_SET :: "u32 \<Rightarrow> u32 \<Rightarrow> u32" where
  "ARENA_SIZE_SET attrs sz = (sz AND ARENA_SIZE_MASK) OR (attrs AND NOT ARENA_SIZE_MASK)"
definition ARENA_HEAP_SET :: "u32 \<Rightarrow> u32 \<Rightarrow> u32" where
  "ARENA_HEAP_SET attrs heap = (push_bit 2 heap AND ARENA_HEAP_MASK) OR (attrs AND NOT ARENA_HEAP_MASK)"
definition ARENA_TYPE_SET :: "u32 \<Rightarrow> u32 \<Rightarrow> u32" where
  "ARENA_TYPE_SET attrs type = (attrs AND NOT ARENA_TYPE_MASK) OR (type AND ARENA_TYPE_MASK)"

lemmas arena_masks = ARENA_SIZE_MASK_def ARENA_HEAP_MASK_def ARENA_TYPE_MASK_def sizeof_arena_header_def
lemmas arena_gets = ARENA_SIZE_GET_def ARENA_HEAP_GET_def ARENA_TYPE_GET_def
lemmas arena_sets = ARENA_SIZE_SET_def ARENA_HEAP_SET_def ARENA_TYPE_SET_def

named_theorems arena_simps \<open>the fields of the attribute word\<close>

lemma bit_type_mask: "bit ARENA_TYPE_MASK n \<longleftrightarrow> n < 2"
proof -
  have e: "ARENA_TYPE_MASK = mask 2" by (simp add: ARENA_TYPE_MASK_def mask_eq_exp_minus_1)
  show ?thesis unfolding e by (auto simp: bit_mask_iff)
qed

lemma bit_heap_mask: "bit ARENA_HEAP_MASK n \<longleftrightarrow> n = 2 \<or> n = 3"
proof -
  have e: "ARENA_HEAP_MASK = push_bit 2 (mask 2)" by (simp add: ARENA_HEAP_MASK_def mask_eq_exp_minus_1)
  show ?thesis unfolding e by (auto simp: bit_push_bit_iff bit_mask_iff)
qed

lemma bit_size_mask: "bit ARENA_SIZE_MASK n \<longleftrightarrow> 4 \<le> n \<and> n < 32"
proof -
  have e: "ARENA_SIZE_MASK = NOT (mask 4)" by (simp add: ARENA_SIZE_MASK_def sizeof_arena_header_def mask_eq_exp_minus_1)
  show ?thesis unfolding e by (auto simp: bit_not_iff bit_mask_iff)
qed

lemmas arena_bits = bit_type_mask bit_heap_mask bit_size_mask bit_and_iff bit_or_iff bit_not_iff bit_drop_bit_eq bit_push_bit_iff

lemma arena_get_set [arena_simps]:
  "ARENA_SIZE_GET (ARENA_SIZE_SET a s) = s AND ARENA_SIZE_MASK"
  "ARENA_TYPE_GET (ARENA_TYPE_SET a t) = t AND ARENA_TYPE_MASK"
  "ARENA_HEAP_GET (ARENA_HEAP_SET a h) = h AND 3"
  "ARENA_SIZE_GET (ARENA_TYPE_SET a t) = ARENA_SIZE_GET a" "ARENA_SIZE_GET (ARENA_HEAP_SET a h) = ARENA_SIZE_GET a"
  "ARENA_TYPE_GET (ARENA_SIZE_SET a s) = ARENA_TYPE_GET a" "ARENA_TYPE_GET (ARENA_HEAP_SET a h) = ARENA_TYPE_GET a"
  "ARENA_HEAP_GET (ARENA_SIZE_SET a s) = ARENA_HEAP_GET a" "ARENA_HEAP_GET (ARENA_TYPE_SET a t) = ARENA_HEAP_GET a"
proof -
  have m: "(3 :: u32) = ARENA_TYPE_MASK" by (simp add: ARENA_TYPE_MASK_def)
  show "ARENA_HEAP_GET (ARENA_HEAP_SET a h) = h AND 3"
    unfolding m by (rule bit_word_eqI) (auto simp: arena_gets arena_sets arena_bits)
qed (rule bit_word_eqI, auto simp: arena_gets arena_sets arena_bits)+

subsection \<open>State and operations\<close>

record arena =
  mhead :: "u32 \<Rightarrow> ptr"
  attrs :: "ptr \<Rightarrow> u32"
  atag :: "ptr \<Rightarrow> nat"
  anext :: "ptr \<Rightarrow> ptr"
  aprev :: "ptr \<Rightarrow> ptr"
  fnext :: "ptr \<Rightarrow> ptr"
  fprev :: "ptr \<Rightarrow> ptr"
  amem :: "ptr \<Rightarrow> byte"

text \<open>\<open>mhead h\<close> is the address of \<open>__core_malloc_head[h]\<close>.\<close>

definition set_type :: "ptr \<Rightarrow> u32 \<Rightarrow> arena \<Rightarrow> arena" where
  "set_type p type st = st\<lparr>attrs := (attrs st)(p := ARENA_TYPE_SET (attrs st p) type)\<rparr>"
definition set_heap :: "ptr \<Rightarrow> u32 \<Rightarrow> arena \<Rightarrow> arena" where
  "set_heap p heap st = st\<lparr>attrs := (attrs st)(p := ARENA_HEAP_SET (attrs st p) heap)\<rparr>"
definition set_size :: "ptr \<Rightarrow> u32 \<Rightarrow> arena \<Rightarrow> arena" where
  "set_size p sz st = st\<lparr>attrs := (attrs st)(p := ARENA_SIZE_SET (attrs st p) sz)\<rparr>"
definition set_tag :: "ptr \<Rightarrow> nat \<Rightarrow> arena \<Rightarrow> arena" where
  "set_tag p tag st = st\<lparr>atag := (atag st)(p := tag)\<rparr>"

text \<open>A block leaves the free chain.\<close>

definition unlink_free :: "ptr \<Rightarrow> arena \<Rightarrow> arena" where
  "unlink_free p st =
    (let st = st\<lparr>fprev := (fprev st)(fnext st p := fprev st p)\<rparr>
     in st\<lparr>fnext := (fnext st)(fprev st p := fnext st p)\<rparr>)"

text \<open>The parts of a split: the headers of the two blocks, the chain of all blocks, and the free chain.\<close>

definition split_headers :: "ptr \<Rightarrow> ptr \<Rightarrow> u32 \<Rightarrow> nat \<Rightarrow> arena \<Rightarrow> arena" where
  "split_headers fp nfp sz tag st =
    (let heap = ARENA_HEAP_GET (attrs st fp);
         fsize = ARENA_SIZE_GET (attrs st fp);
         st = set_type nfp ARENA_TYPE_FREE st;
         st = set_heap nfp heap st;
         st = set_size nfp (fsize - sz) st;
         st = set_tag nfp MALLOC_FREE st;
         st = set_type fp ARENA_TYPE_USED st;
         st = set_size fp sz st
     in set_tag fp tag st)"

definition link_block :: "ptr \<Rightarrow> ptr \<Rightarrow> arena \<Rightarrow> arena" where
  "link_block fp nfp st =
    (let na = anext st fp;
         st = st\<lparr>aprev := (aprev st)(nfp := fp)\<rparr>;
         st = st\<lparr>anext := (anext st)(nfp := na)\<rparr>;
         st = st\<lparr>aprev := (aprev st)(na := nfp)\<rparr>
     in st\<lparr>anext := (anext st)(fp := nfp)\<rparr>)"

definition replace_free :: "ptr \<Rightarrow> ptr \<Rightarrow> arena \<Rightarrow> arena" where
  "replace_free fp nfp st =
    (let st = st\<lparr>fnext := (fnext st)(nfp := fnext st fp)\<rparr>;
         st = st\<lparr>fprev := (fprev st)(nfp := fprev st fp)\<rparr>;
         st = st\<lparr>fprev := (fprev st)(fnext st fp := nfp)\<rparr>
     in st\<lparr>fnext := (fnext st)(fprev st fp := nfp)\<rparr>)"

definition malloc_from_block :: "ptr \<Rightarrow> u32 \<Rightarrow> nat \<Rightarrow> arena \<Rightarrow> ptr \<times> arena" where
  "malloc_from_block fp sz tag st =
    (if ARENA_SIZE_GET (attrs st fp) \<ge> sz + 2 * sizeof_arena_header then
       let nfp = fp + unat sz;
           st = split_headers fp nfp sz tag st;
           st = link_block fp nfp st
       in (fp + 16, replace_free fp nfp st)
     else
       let st = set_type fp ARENA_TYPE_USED st;
           st = set_tag fp tag st
       in (fp + 16, unlink_free fp st))"

text \<open>The size of the block for a request: the header is added and the sum rounded up.\<close>

definition arena_round :: "u32 \<Rightarrow> u32" where
  "arena_round sz = (sz + 2 * sizeof_arena_header - 1) AND ARENA_SIZE_MASK"

partial_function (option) find_fit :: "arena \<Rightarrow> ptr \<Rightarrow> u32 \<Rightarrow> ptr \<Rightarrow> ptr option option" where
  "find_fit st head sz fp =
    (if fp = head then Some None
     else if ARENA_SIZE_GET (attrs st fp) \<ge> sz then Some (Some fp)
     else find_fit st head sz (fnext st fp))"

text \<open>The result is the address of the memory, 0 when there is none; \<open>None\<close> when the walk does not end.\<close>

definition bios_malloc :: "u32 \<Rightarrow> u32 \<Rightarrow> nat \<Rightarrow> arena \<Rightarrow> (ptr \<times> arena) option" where
  "bios_malloc sz heap tag st =
    (if sz \<noteq> 0 then
       let head = mhead st heap;
           sz = arena_round sz
       in do { r \<leftarrow> find_fit st head sz (fnext st head);
               Some (case r of None \<Rightarrow> (0, st) | Some fp \<Rightarrow> malloc_from_block fp sz tag st) }
     else Some (0, st))"

definition malloc :: "u32 \<Rightarrow> arena \<Rightarrow> (ptr \<times> arena) option" where
  "malloc sz st = bios_malloc sz HEAP_MAIN MALLOC_CORE st"

definition lmalloc :: "u32 \<Rightarrow> arena \<Rightarrow> (ptr \<times> arena) option" where
  "lmalloc sz st = bios_malloc sz HEAP_LOWMEM MALLOC_CORE st"

definition pmapi_lmalloc :: "u32 \<Rightarrow> arena \<Rightarrow> (ptr \<times> arena) option" where
  "pmapi_lmalloc sz st = bios_malloc sz HEAP_LOWMEM MALLOC_MODULE st"

text \<open>\<open>__free_block\<close>: merge with the free blocks before and after; the result is the block that holds the freed one.\<close>

definition is_free :: "arena \<Rightarrow> ptr \<Rightarrow> bool" where
  "is_free st p \<longleftrightarrow> ARENA_TYPE_GET (attrs st p) = ARENA_TYPE_FREE"

definition asize :: "arena \<Rightarrow> ptr \<Rightarrow> nat" where
  "asize st p = unat (ARENA_SIZE_GET (attrs st p))"

definition absorb_prev :: "ptr \<Rightarrow> ptr \<Rightarrow> ptr \<Rightarrow> arena \<Rightarrow> arena" where
  "absorb_prev pah ah nah st =
    (let st = set_size pah (ARENA_SIZE_GET (attrs st pah) + ARENA_SIZE_GET (attrs st ah)) st;
         st = st\<lparr>anext := (anext st)(pah := nah)\<rparr>
     in st\<lparr>aprev := (aprev st)(nah := pah)\<rparr>)"

definition push_free :: "ptr \<Rightarrow> ptr \<Rightarrow> arena \<Rightarrow> arena" where
  "push_free ah head st =
    (let st = st\<lparr>fnext := (fnext st)(ah := fnext st head)\<rparr>;
         st = st\<lparr>fprev := (fprev st)(ah := head)\<rparr>;
         st = st\<lparr>fnext := (fnext st)(head := ah)\<rparr>
     in st\<lparr>fprev := (fprev st)(fnext st ah := ah)\<rparr>)"

definition merge_next :: "ptr \<Rightarrow> ptr \<Rightarrow> arena \<Rightarrow> arena" where
  "merge_next ah nah st =
    (if is_free st nah \<and> ah + asize st ah = nah then
       let st = set_size ah (ARENA_SIZE_GET (attrs st ah) + ARENA_SIZE_GET (attrs st nah)) st;
           st = unlink_free nah st;
           st = st\<lparr>anext := (anext st)(ah := anext st nah)\<rparr>
       in st\<lparr>aprev := (aprev st)(anext st nah := ah)\<rparr>
     else st)"

definition free_block :: "ptr \<Rightarrow> arena \<Rightarrow> ptr \<times> arena" where
  "free_block ah st =
    (let head = mhead st (ARENA_HEAP_GET (attrs st ah));
         pah = aprev st ah;
         nah = anext st ah
     in if is_free st pah \<and> pah + asize st pah = ah then
          let st = absorb_prev pah ah nah st
          in (pah, merge_next pah nah st)
        else
          let st = set_type ah ARENA_TYPE_FREE st;
              st = set_tag ah MALLOC_FREE st;
              st = push_free ah head st
          in (ah, merge_next ah nah st))"

definition bios_free :: "ptr \<Rightarrow> arena \<Rightarrow> arena" where
  "bios_free p st = snd (free_block (p - 16) st)"

definition free :: "ptr \<Rightarrow> arena \<Rightarrow> arena" where
  "free p st = (if p = 0 then st else bios_free p st)"

text \<open>\<open>__inject_free_block\<close>: the successor by address; \<open>None\<close> inside when the block overlaps another.\<close>

partial_function (option) inject_seek :: "arena \<Rightarrow> ptr \<Rightarrow> ptr \<Rightarrow> ptr \<Rightarrow> ptr \<Rightarrow> ptr option option" where
  "inject_seek st head ah a_end nah =
    (if nah = head then Some (Some nah)
     else if nah \<ge> a_end then Some (Some nah)
     else if ah \<ge> (nah + asize st nah) mod 2 ^ 32 then inject_seek st head ah a_end (anext st nah)
     else Some None)"

definition inject_free_block :: "ptr \<Rightarrow> arena \<Rightarrow> arena option" where
  "inject_free_block ah st =
    (let head = mhead st (ARENA_HEAP_GET (attrs st ah));
         a_end = (ah + asize st ah) mod 2 ^ 32
     in do { r \<leftarrow> inject_seek st head ah a_end (anext st head);
             Some (case r of
               None \<Rightarrow> st
             | Some nah \<Rightarrow>
                 let st = st\<lparr>anext := (anext st)(ah := nah)\<rparr>;
                     st = st\<lparr>aprev := (aprev st)(ah := aprev st nah)\<rparr>;
                     st = st\<lparr>aprev := (aprev st)(nah := ah)\<rparr>;
                     st = st\<lparr>anext := (anext st)(aprev st ah := ah)\<rparr>
                 in snd (free_block ah st)) })"

partial_function (option) free_tagged_loop :: "nat \<Rightarrow> ptr \<Rightarrow> arena \<Rightarrow> ptr \<Rightarrow> arena option" where
  "free_tagged_loop tag head st fp =
    (if fp = head then Some st
     else
       let (fp, st) = (if ARENA_TYPE_GET (attrs st fp) = ARENA_TYPE_USED \<and> atag st fp = tag then free_block fp st else (fp, st))
       in free_tagged_loop tag head st (anext st fp))"

definition free_tagged :: "nat \<Rightarrow> arena \<Rightarrow> arena option" where
  "free_tagged tag st =
    do { st \<leftarrow> free_tagged_loop tag (mhead st HEAP_MAIN) st (anext st (mhead st HEAP_MAIN));
         free_tagged_loop tag (mhead st HEAP_LOWMEM) st (anext st (mhead st HEAP_LOWMEM)) }"

definition comboot_cleanup_lowmem :: "arena \<Rightarrow> arena option" where
  "comboot_cleanup_lowmem st = free_tagged MALLOC_MODULE st"

text \<open>
  \<open>bios_realloc\<close>: the block keeps its place when its size is close enough or when it can be cut or grown into the free
  block behind it; otherwise the contents move to a new block of the main heap.
\<close>

definition absorb_next :: "ptr \<Rightarrow> ptr \<Rightarrow> arena \<Rightarrow> arena" where
  "absorb_next ah nah st =
    (let st = st\<lparr>anext := (anext st)(ah := anext st nah)\<rparr>;
         st = st\<lparr>aprev := (aprev st)(anext st ah := ah)\<rparr>;
         st = unlink_free nah st
     in set_size ah (ARENA_SIZE_GET (attrs st ah) + ARENA_SIZE_GET (attrs st nah)) st)"

definition append_free :: "ptr \<Rightarrow> ptr \<Rightarrow> arena \<Rightarrow> arena" where
  "append_free nah head st =
    (let st = st\<lparr>fprev := (fprev st)(nah := fprev st head)\<rparr>;
         st = st\<lparr>fnext := (fnext st)(nah := head)\<rparr>;
         st = st\<lparr>fprev := (fprev st)(head := nah)\<rparr>
     in st\<lparr>fnext := (fnext st)(fprev st nah := nah)\<rparr>)"

definition tail_headers :: "ptr \<Rightarrow> ptr \<Rightarrow> u32 \<Rightarrow> u32 \<Rightarrow> arena \<Rightarrow> arena" where
  "tail_headers ah nah newsize xsize st =
    (let st = set_type nah ARENA_TYPE_FREE st;
         st = set_size nah (xsize - newsize) st;
         st = set_size ah newsize st
     in set_heap nah (ARENA_HEAP_GET (attrs st ah)) st)"

definition tail_link :: "ptr \<Rightarrow> ptr \<Rightarrow> arena \<Rightarrow> arena" where
  "tail_link ah nah st =
    (let st = st\<lparr>anext := (anext st)(nah := anext st ah)\<rparr>;
         st = st\<lparr>anext := (anext st)(ah := nah)\<rparr>;
         st = st\<lparr>aprev := (aprev st)(anext st nah := nah)\<rparr>
     in st\<lparr>aprev := (aprev st)(nah := ah)\<rparr>)"

definition cut_tail :: "ptr \<Rightarrow> ptr \<Rightarrow> u32 \<Rightarrow> u32 \<Rightarrow> u32 \<Rightarrow> arena \<Rightarrow> arena" where
  "cut_tail ah head oldsize newsize xsize st =
    (if xsize \<ge> newsize + 2 * sizeof_arena_header then
       let nah = ah + unat newsize;
           st = tail_headers ah nah newsize xsize st;
           st = tail_link ah nah st
       in if newsize > oldsize then append_free nah head st else push_free nah head st
     else st)"

definition memcpy :: "ptr \<Rightarrow> ptr \<Rightarrow> nat \<Rightarrow> arena \<Rightarrow> arena" where
  "memcpy dst src n st = st\<lparr>amem := (\<lambda>a. if dst \<le> a \<and> a < dst + n then amem st (src + (a - dst)) else amem st a)\<rparr>"

definition bios_realloc :: "ptr \<Rightarrow> u32 \<Rightarrow> arena \<Rightarrow> (ptr \<times> arena) option" where
  "bios_realloc p sz st =
    (if p = 0 then malloc sz st
     else if sz = 0 then Some (0, free p st)
     else
       let ah = p - 16;
           head = mhead st (ARENA_HEAP_GET (attrs st ah));
           oldsize = ARENA_SIZE_GET (attrs st ah);
           newsize = arena_round sz
       in if oldsize \<ge> newsize \<and> newsize \<ge> drop_bit 2 oldsize \<and> oldsize - newsize < 4096 then Some (p, st)
          else
            let nah = anext st ah;
                (xsize, st) =
                  (if nah = ah + asize st ah \<and> is_free st nah \<and> ARENA_SIZE_GET (attrs st nah) + oldsize \<ge> newsize then
                     let st = absorb_next ah nah st in (ARENA_SIZE_GET (attrs st ah), st)
                   else (oldsize, st))
            in if xsize \<ge> newsize then Some (p, cut_tail ah head oldsize newsize xsize st)
               else
                 do { (q, st) \<leftarrow> malloc sz st;
                      if q \<noteq> 0 then Some (q, free p (memcpy q p (min (unat sz) (unat (oldsize - sizeof_arena_header))) st))
                      else Some (0, st) })"

definition zalloc :: "u32 \<Rightarrow> arena \<Rightarrow> (ptr \<times> arena) option" where
  "zalloc sz st =
    do { (p, st) \<leftarrow> malloc sz st;
         Some (p, if p \<noteq> 0 then st\<lparr>amem := (\<lambda>a. if p \<le> a \<and> a < p + unat sz then 0 else amem st a)\<rparr> else st) }"

definition lzalloc :: "u32 \<Rightarrow> arena \<Rightarrow> (ptr \<times> arena) option" where
  "lzalloc sz st =
    do { (p, st) \<leftarrow> lmalloc sz st;
         Some (p, if p = 0 then st else st\<lparr>amem := (\<lambda>a. if p \<le> a \<and> a < p + unat sz then 0 else amem st a)\<rparr>) }"

definition lfree :: "ptr \<Rightarrow> arena \<Rightarrow> arena" where
  "lfree p st = free p st"

text \<open>
  \<open>mem_init\<close>: the heads, the memory below the BIOS limit \<open>bios_free_mem\<close> kilobytes, and the free ranges above 1 MB that the
  memory scan reports to the callback \<open>scan_highmem_area\<close>. The state of the scan is \<open>__com32.cs_memsize\<close> with the arena; \<open>scan\<close> stands
  for the walk over the registered scanners.
\<close>

type_synonym 's callback = "addr_t \<Rightarrow> addr_t \<Rightarrow> syslinux_memmap_types \<Rightarrow> 's \<Rightarrow> (int \<times> 's) option"

definition E820_MEM_MAX :: u32 where "E820_MEM_MAX = 0xfff00000"

definition scan_highmem_area :: "(u32 \<times> arena) callback" where
  "scan_highmem_area start len type = (\<lambda>(memsize, st).
    if start < 0x100000 \<or> start > E820_MEM_MAX \<or> type \<noteq> SMT_FREE then Some (0, memsize, st)
    else
      let (start, len) = (if start < memsize then (memsize, len - (memsize - start)) else (start, len));
          len = (if len > E820_MEM_MAX - start then E820_MEM_MAX - start else len)
      in do { st \<leftarrow> (if len \<ge> 2 * sizeof_arena_header then
                       let fp = unat start;
                           st = st\<lparr>attrs := (attrs st)(fp := ARENA_TYPE_USED OR push_bit 2 HEAP_MAIN)\<rparr>;
                           st = set_size fp len st
                       in inject_free_block fp st
                     else Some st);
              Some (0, start + len, st) })"

definition init_head :: "u32 \<Rightarrow> arena \<Rightarrow> arena" where
  "init_head h st =
    (let fp = mhead st h
     in st\<lparr>anext := (anext st)(fp := fp), aprev := (aprev st)(fp := fp), fnext := (fnext st)(fp := fp), fprev := (fprev st)(fp := fp),
           attrs := (attrs st)(fp := ARENA_TYPE_HEAD OR push_bit 2 h), atag := (atag st)(fp := MALLOC_HEAD)\<rparr>)"

definition mem_init :: "u32 \<Rightarrow> u16 \<Rightarrow> u32 \<Rightarrow> ((u32 \<times> arena) callback \<Rightarrow> u32 \<times> arena \<Rightarrow> (int \<times> u32 \<times> arena) option) \<Rightarrow> arena \<Rightarrow> (u32 \<times> arena) option" where
  "mem_init lowmem_heap bios_free_mem free_high_memory scan st =
    (let st = init_head HEAP_MAIN st;
         st = init_head HEAP_LOWMEM st;
         fp = unat lowmem_heap;
         st = st\<lparr>attrs := (attrs st)(fp := ARENA_TYPE_USED OR push_bit 2 HEAP_LOWMEM)\<rparr>;
         st = set_size fp (push_bit 10 (ucast bios_free_mem) - lowmem_heap) st
     in do { st \<leftarrow> inject_free_block fp st; (_, s) \<leftarrow> scan scan_highmem_area (free_high_memory, st); Some s })"

subsection \<open>The invariant of a heap\<close>

text \<open>
  \<open>bs\<close> are the blocks in the order of the list, \<open>fs\<close> those of the free chain. The blocks are sorted by address and
  do not overlap; of two neighbours that touch at most one is free, except that a block \<open>x\<close> may still have to be merged
  with its successor while it is being freed.
\<close>

definition region :: "arena \<Rightarrow> ptr \<Rightarrow> ptr set" where
  "region st p = {p..<p + asize st p}"

definition apart :: "ptr \<Rightarrow> arena \<Rightarrow> ptr \<Rightarrow> ptr \<Rightarrow> bool" where
  "apart x st p q \<longleftrightarrow> p + asize st p \<le> q \<and> (p \<noteq> x \<and> is_free st p \<and> is_free st q \<longrightarrow> p + asize st p \<noteq> q)"

definition block_ok :: "arena \<Rightarrow> u32 \<Rightarrow> ptr \<Rightarrow> bool" where
  "block_ok st h p \<longleftrightarrow> 32 \<le> p \<and> 32 \<le> asize st p \<and> p + asize st p < 2 ^ 32 \<and> ARENA_HEAP_GET (attrs st p) = h \<and>
     mhead st h \<notin> region st p \<and> ARENA_TYPE_GET (attrs st p) \<in> {ARENA_TYPE_USED, ARENA_TYPE_FREE}"

definition heap_okx :: "ptr \<Rightarrow> arena \<Rightarrow> u32 \<Rightarrow> ptr list \<Rightarrow> ptr list \<Rightarrow> bool" where
  "heap_okx x st h bs fs \<longleftrightarrow>
     ring (anext st) (aprev st) (mhead st h) bs \<and> ring (fnext st) (fprev st) (mhead st h) fs \<and>
     set fs = {p \<in> set bs. is_free st p} \<and> sorted_wrt (apart x st) bs \<and> (\<forall>p \<in> set bs. block_ok st h p) \<and>
     \<not> is_free st (mhead st h)"

abbreviation heap_ok :: "arena \<Rightarrow> u32 \<Rightarrow> ptr list \<Rightarrow> ptr list \<Rightarrow> bool" where
  "heap_ok \<equiv> heap_okx 0"

lemma heap_okD:
  assumes "heap_okx x st h bs fs"
  shows "ring (anext st) (aprev st) (mhead st h) bs" and "ring (fnext st) (fprev st) (mhead st h) fs"
    and "set fs = {p \<in> set bs. is_free st p}" and "sorted_wrt (apart x st) bs" and "\<And>p. p \<in> set bs \<Longrightarrow> block_ok st h p"
    and "\<not> is_free st (mhead st h)"
  using assms by (auto simp: heap_okx_def)

lemma block_okD:
  assumes "block_ok st h p"
  shows "32 \<le> p" and "32 \<le> asize st p" and "p + asize st p < 2 ^ 32" and "ARENA_HEAP_GET (attrs st p) = h"
    and "mhead st h \<notin> region st p" and "\<not> is_free st p \<Longrightarrow> ARENA_TYPE_GET (attrs st p) = ARENA_TYPE_USED"
  using assms by (auto simp: block_ok_def is_free_def)

text \<open>An address inside a block is not another block and not the head.\<close>

lemma inside_block:
  assumes ok: "heap_okx x st h (xs @ p # ys) fs" and q: "p < q" "q < p + asize st p"
  shows "q \<notin> set (mhead st h # xs @ p # ys)"
proof -
  note D = heap_okD [OF ok]
  have "q \<noteq> mhead st h" using block_okD(5) [OF D(5), of p] q by (auto simp: region_def)
  moreover have "q \<notin> set xs" using D(4) q by (auto simp: sorted_wrt_append apart_def)
  moreover have "q \<notin> set ys" using D(4) q by (auto simp: sorted_wrt_append apart_def)
  ultimately show ?thesis using q(1) by auto
qed

lemma arena_type_simps [arena_simps]:
  "ARENA_TYPE_USED AND ARENA_TYPE_MASK = ARENA_TYPE_USED" "ARENA_TYPE_FREE AND ARENA_TYPE_MASK = ARENA_TYPE_FREE"
  "ARENA_TYPE_HEAD AND ARENA_TYPE_MASK = ARENA_TYPE_HEAD"
  "ARENA_TYPE_USED \<noteq> ARENA_TYPE_FREE" "ARENA_TYPE_HEAD \<noteq> ARENA_TYPE_FREE" "ARENA_TYPE_FREE \<noteq> ARENA_TYPE_USED"
  by (simp_all add: ARENA_TYPE_USED_def ARENA_TYPE_FREE_def ARENA_TYPE_HEAD_def ARENA_TYPE_MASK_def)

lemma heap_get_small [arena_simps]: "ARENA_HEAP_GET a AND 3 = ARENA_HEAP_GET a"
proof -
  have m: "(3 :: u32) = ARENA_TYPE_MASK" by (simp add: ARENA_TYPE_MASK_def)
  show ?thesis unfolding m by (rule bit_word_eqI) (auto simp: arena_gets arena_bits)
qed

lemma size_get_idem [arena_simps]: "ARENA_SIZE_GET a AND ARENA_SIZE_MASK = ARENA_SIZE_GET a"
  by (simp add: ARENA_SIZE_GET_def word_bw_assocs)

text \<open>Sizes are multiples of 16, and so are their sums and differences.\<close>

lemma unat_size_mask: "unat (s AND ARENA_SIZE_MASK) = unat s div 16 * 16"
proof -
  have "s AND ARENA_SIZE_MASK = push_bit 4 (drop_bit 4 s)" by (rule bit_word_eqI) (auto simp: arena_bits)
  moreover have "unat (drop_bit 4 s) = unat s div 16" using unat_drop_bit [of 4 s] by simp
  moreover from this have "unat (drop_bit 4 s) * 2 ^ 4 < 2 ^ 32"
    using unat_less [of s] div_times_less_eq_dividend [of "unat s" 16] by simp
  ultimately show ?thesis by (simp add: unat_push_bit)
qed

lemma size_mask_dvd: "s AND ARENA_SIZE_MASK = s \<longleftrightarrow> 16 dvd unat s"
  unfolding word_unat_eq_iff unat_size_mask by (metis dvd_div_mult_self dvd_triv_right)

lemma asize_dvd: "16 dvd asize st p"
  using size_mask_dvd [of "ARENA_SIZE_GET (attrs st p)"] by (simp add: asize_def arena_simps)

subsection \<open>Changes outside a set of blocks\<close>

lemma attrs_cong:
  assumes "attrs st' p = attrs st p" and "mhead st' = mhead st"
  shows "asize st' p = asize st p" and "is_free st' p = is_free st p" and "block_ok st' h p = block_ok st h p"
    and "region st' p = region st p"
  using assms by (simp_all add: asize_def is_free_def block_ok_def region_def)

lemma apart_cong: "attrs st' p = attrs st p \<Longrightarrow> attrs st' q = attrs st q \<Longrightarrow> apart x st' p q = apart x st p q"
  by (simp add: apart_def asize_def is_free_def)

lemma sorted_apart_cong:
  "sorted_wrt (apart x st) bs \<Longrightarrow> (\<And>p. p \<in> set bs \<Longrightarrow> attrs st' p = attrs st p) \<Longrightarrow> sorted_wrt (apart x st') bs"
  by (rule sorted_wrt_mono_rel [of _ "apart x st"]) (simp_all add: apart_cong [of st' _ st])

lemma apart_except: "apart x st p q \<Longrightarrow> p \<noteq> x \<Longrightarrow> apart y st p q"
  by (auto simp: apart_def)

lemma sorted_apart_except: "sorted_wrt (apart x st) bs \<Longrightarrow> x \<notin> set bs \<Longrightarrow> sorted_wrt (apart y st) bs"
  by (rule sorted_wrt_mono_rel [of _ "apart x st"]) (auto intro: apart_except)

text \<open>Some neighbouring blocks \<open>mid\<close> are replaced by others; the rest of the heap stays.\<close>

lemma heap_ok_mid:
  assumes ok: "heap_okx x st h (xs @ mid @ ys) fs" and x: "x = 0 \<or> x \<in> set mid"
    and oth: "\<And>p. p \<in> set xs \<union> set ys \<union> {mhead st h} \<Longrightarrow> attrs st' p = attrs st p" and mh: "mhead st' = mhead st"
    and r: "ring (anext st') (aprev st') (mhead st h) (xs @ mid' @ ys)" "ring (fnext st') (fprev st') (mhead st h) fs'"
    and f: "set fs' = (set fs - set mid) \<union> {p \<in> set mid'. is_free st' p}"
    and blk: "\<And>p. p \<in> set mid' \<Longrightarrow> block_ok st' h p"
    and srt: "sorted_wrt (apart x' st') mid'" "\<And>y m. y \<in> set xs \<Longrightarrow> m \<in> set mid' \<Longrightarrow> apart x' st' y m"
      "\<And>m y. m \<in> set mid' \<Longrightarrow> y \<in> set ys \<Longrightarrow> apart x' st' m y"
  shows "heap_okx x' st' h (xs @ mid' @ ys) fs'"
proof -
  note D = heap_okD [OF ok]
  have "0 \<notin> set xs \<union> set ys" using D(5) [of 0] by (auto simp: block_ok_def)
  moreover have "p \<notin> set mid" if "p \<in> set xs \<union> set ys" for p using D(1) that by (auto simp: ring_def)
  ultimately have nx: "x \<notin> set xs \<union> set ys" using x by blast
  have "sorted_wrt (apart x st) xs" "sorted_wrt (apart x st) ys" using D(4) by (simp_all add: sorted_wrt_append)
  then have "sorted_wrt (apart x' st) xs" "sorted_wrt (apart x' st) ys" using nx sorted_apart_except by auto
  then have s: "sorted_wrt (apart x' st') xs" "sorted_wrt (apart x' st') ys" using oth sorted_apart_cong [of x' st] by auto
  have "apart x' st' p q" if "p \<in> set xs" "q \<in> set ys" for p q
  proof -
    have "apart x st p q" "p \<noteq> x" using D(4) that nx by (auto simp: sorted_wrt_append)
    then have "apart x' st p q" by (rule apart_except)
    then show ?thesis using apart_cong [of st' p st q] oth that by simp
  qed
  then have "sorted_wrt (apart x' st') (xs @ mid' @ ys)" using s srt by (auto simp: sorted_wrt_append)
  moreover have "\<forall>p \<in> set (xs @ mid' @ ys). block_ok st' h p"
    using D(5) blk attrs_cong(3) [OF oth mh] by auto
  moreover have "set fs' = {p \<in> set (xs @ mid' @ ys). is_free st' p}"
  proof -
    have "set xs \<inter> set mid = {}" "set ys \<inter> set mid = {}" using D(1) by (auto simp: ring_def)
    then have "set fs - set mid = {p \<in> set xs \<union> set ys. is_free st p}" using D(3) by auto
    also have "... = {p \<in> set xs \<union> set ys. is_free st' p}" using attrs_cong(2) [OF oth mh] by blast
    finally show ?thesis using f by auto
  qed
  moreover have "\<not> is_free st' (mhead st h)" using D(6) attrs_cong(2) [OF oth mh] by simp
  ultimately show ?thesis unfolding heap_okx_def mh using r by blast
qed

text \<open>How a block lies to the others, without regard to the types.\<close>

lemma heap_around:
  assumes ok: "heap_okx x st h (xs @ p # ys) fs"
  shows "y \<in> set xs \<Longrightarrow> y + asize st y \<le> p"
    and "y \<in> set xs \<Longrightarrow> y \<noteq> x \<Longrightarrow> is_free st y \<Longrightarrow> is_free st p \<Longrightarrow> y + asize st y \<noteq> p"
    and "y \<in> set ys \<Longrightarrow> p + asize st p \<le> y"
    and "y \<in> set ys \<Longrightarrow> p \<noteq> x \<Longrightarrow> is_free st p \<Longrightarrow> is_free st y \<Longrightarrow> p + asize st p \<noteq> y"
    and "32 \<le> p"
  using heap_okD(4,5) [OF ok] by (auto simp: sorted_wrt_append apart_def block_ok_def)

subsection \<open>What a heap means\<close>

text \<open>The allocated blocks with size and tag, the free memory, and all memory the heap owns.\<close>

definition alloc :: "arena \<Rightarrow> ptr list \<Rightarrow> ptr \<rightharpoonup> nat \<times> nat" where
  "alloc st bs p = (if p \<in> set bs \<and> \<not> is_free st p then Some (asize st p, atag st p) else None)"

definition free_mem :: "arena \<Rightarrow> ptr list \<Rightarrow> ptr set" where
  "free_mem st bs = (\<Union>p \<in> {p \<in> set bs. is_free st p}. region st p)"

definition span :: "arena \<Rightarrow> u32 \<Rightarrow> ptr list \<Rightarrow> ptr set" where
  "span st h bs = insert (mhead st h) (\<Union>p \<in> set bs. region st p)"

definition outside :: "arena \<Rightarrow> arena \<Rightarrow> ptr set \<Rightarrow> bool" where
  "outside st st' A \<longleftrightarrow> mhead st' = mhead st \<and> amem st' = amem st \<and>
     (\<forall>q. q \<notin> A \<longrightarrow> attrs st' q = attrs st q \<and> atag st' q = atag st q \<and> anext st' q = anext st q \<and> aprev st' q = aprev st q \<and>
       fnext st' q = fnext st q \<and> fprev st' q = fprev st q)"

lemma block_in_span:
  assumes "heap_okx x st h bs fs" and "p \<in> set (mhead st h # bs)"
  shows "p \<in> span st h bs"
  using assms heap_okD(5) [OF assms(1), of p] by (auto simp: span_def region_def block_ok_def)

lemma heap_ok_outside:
  assumes ok: "heap_okx x st h bs fs" and out: "outside st st' A" and disj: "span st h bs \<inter> A = {}"
  shows "heap_okx x st' h bs fs" and "alloc st' bs = alloc st bs" and "free_mem st' bs = free_mem st bs" and "span st' h bs = span st h bs"
proof -
  note D = heap_okD [OF ok]
  have mh: "mhead st' = mhead st" using out by (simp add: outside_def)
  have same: "attrs st' p = attrs st p \<and> atag st' p = atag st p \<and> anext st' p = anext st p \<and> aprev st' p = aprev st p \<and>
      fnext st' p = fnext st p \<and> fprev st' p = fprev st p" if "p \<in> set (mhead st h # bs)" for p
    using out block_in_span [OF ok that] disj by (auto simp: outside_def)
  have c: "asize st' p = asize st p" "is_free st' p = is_free st p" "block_ok st' h p = block_ok st h p" "region st' p = region st p"
    if "p \<in> set (mhead st h # bs)" for p using attrs_cong [OF _ mh] same [OF that] by auto
  have fs: "set fs \<subseteq> set bs" using D(3) by auto
  have "ring (anext st') (aprev st') (mhead st h) bs" using D(1) same ring_cong [of "mhead st h" bs "anext st'" "anext st"] by blast
  moreover have "ring (fnext st') (fprev st') (mhead st h) fs"
    using D(2) same fs ring_cong [of "mhead st h" fs "fnext st'" "fnext st" "fprev st'" "fprev st"] by auto
  moreover have "set fs = {p \<in> set bs. is_free st' p}" using D(3) c(2) by auto
  moreover have "sorted_wrt (apart x st') bs" using sorted_apart_cong [OF D(4)] same by simp
  moreover have "\<forall>p \<in> set bs. block_ok st' h p" using D(5) c(3) by auto
  moreover have "\<not> is_free st' (mhead st h)" using D(6) c(2) by auto
  ultimately show "heap_okx x st' h bs fs" unfolding heap_okx_def mh by blast
  show "alloc st' bs = alloc st bs" using c same by (auto simp: alloc_def fun_eq_iff)
  show "free_mem st' bs = free_mem st bs" using c by (auto simp: free_mem_def)
  show "span st' h bs = span st h bs" using c by (auto simp: span_def mh)
qed

subsection \<open>Allocation\<close>

text \<open>The effect of splitting a block.\<close>

lemma split_headers_eq:
  assumes "nfp \<noteq> fp"
  shows "split_headers fp nfp sz tag st =
    st\<lparr>attrs := (attrs st)(nfp := ARENA_SIZE_SET (ARENA_HEAP_SET (ARENA_TYPE_SET (attrs st nfp) ARENA_TYPE_FREE)
           (ARENA_HEAP_GET (attrs st fp))) (ARENA_SIZE_GET (attrs st fp) - sz),
         fp := ARENA_SIZE_SET (ARENA_TYPE_SET (attrs st fp) ARENA_TYPE_USED) sz),
       atag := (atag st)(nfp := MALLOC_FREE, fp := tag)\<rparr>"
  using assms by (simp add: split_headers_def set_type_def set_heap_def set_size_def set_tag_def Let_def)

lemma link_block_eq:
  "link_block fp nfp st = st\<lparr>aprev := (aprev st)(nfp := fp, anext st fp := nfp), anext := (anext st)(nfp := anext st fp, fp := nfp)\<rparr>"
  by (simp add: link_block_def Let_def)

lemma replace_free_eq:
  assumes "nfp \<noteq> fp" and "fnext st fp \<noteq> fp" "fprev st fp \<noteq> fp"
  shows "replace_free fp nfp st =
    st\<lparr>fnext := (fnext st)(nfp := fnext st fp, fprev st fp := nfp), fprev := (fprev st)(nfp := fprev st fp, fnext st fp := nfp)\<rparr>"
  using assms by (simp add: replace_free_def Let_def)

lemma unlink_free_eq:
  assumes "fnext st p \<noteq> p"
  shows "unlink_free p st = st\<lparr>fnext := (fnext st)(fprev st p := fnext st p), fprev := (fprev st)(fnext st p := fprev st p)\<rparr>"
  using assms by (simp add: unlink_free_def Let_def)

lemma malloc_split_fields:
  fixes tag :: nat
  assumes "ARENA_SIZE_GET (attrs st fp) \<ge> sz + 2 * sizeof_arena_header" and "fp + unat sz \<noteq> fp"
    and "fnext st fp \<noteq> fp" "fprev st fp \<noteq> fp"
  defines "st' \<equiv> snd (malloc_from_block fp sz tag st)" and "nfp \<equiv> fp + unat sz"
  shows "attrs st' = (attrs st)(nfp := ARENA_SIZE_SET (ARENA_HEAP_SET (ARENA_TYPE_SET (attrs st nfp) ARENA_TYPE_FREE)
           (ARENA_HEAP_GET (attrs st fp))) (ARENA_SIZE_GET (attrs st fp) - sz),
         fp := ARENA_SIZE_SET (ARENA_TYPE_SET (attrs st fp) ARENA_TYPE_USED) sz)"
    and "atag st' = (atag st)(nfp := MALLOC_FREE, fp := tag)"
    and "anext st' = (anext st)(nfp := anext st fp, fp := nfp)" and "aprev st' = (aprev st)(nfp := fp, anext st fp := nfp)"
    and "fnext st' = (fnext st)(nfp := fnext st fp, fprev st fp := nfp)"
    and "fprev st' = (fprev st)(nfp := fprev st fp, fnext st fp := nfp)"
    and "mhead st' = mhead st" and "amem st' = amem st" and "fst (malloc_from_block fp sz tag st) = fp + 16"
  using assms by (simp_all add: malloc_from_block_def split_headers_eq link_block_eq replace_free_eq Let_def)

lemma malloc_whole_fields:
  fixes tag :: nat
  assumes "\<not> ARENA_SIZE_GET (attrs st fp) \<ge> sz + 2 * sizeof_arena_header" and "fnext st fp \<noteq> fp"
  defines "st' \<equiv> snd (malloc_from_block fp sz tag st)"
  shows "attrs st' = (attrs st)(fp := ARENA_TYPE_SET (attrs st fp) ARENA_TYPE_USED)" and "atag st' = (atag st)(fp := tag)"
    and "anext st' = anext st" and "aprev st' = aprev st"
    and "fnext st' = (fnext st)(fprev st fp := fnext st fp)" and "fprev st' = (fprev st)(fnext st fp := fprev st fp)"
    and "mhead st' = mhead st" and "amem st' = amem st" and "fst (malloc_from_block fp sz tag st) = fp + 16"
  using assms
  by (simp_all add: malloc_from_block_def set_type_def set_tag_def unlink_free_eq Let_def)

lemmas arena_attrs = asize_def is_free_def

lemma malloc_split_ok:
  fixes tag :: nat
  assumes ok: "heap_ok st h (xs @ fp # ys) (us @ fp # vs)" and sz: "16 dvd unat sz" "32 \<le> unat sz" "unat sz + 32 \<le> asize st fp"
  defines "st' \<equiv> snd (malloc_from_block fp sz tag st)" and "nfp \<equiv> fp + unat sz"
  shows "heap_ok st' h (xs @ fp # nfp # ys) (us @ nfp # vs)"
    and "asize st' fp = unat sz" and "asize st' nfp = asize st fp - unat sz" and "is_free st' nfp" and "\<not> is_free st' fp"
    and "atag st' = (atag st)(nfp := MALLOC_FREE, fp := tag)"
    and "p \<noteq> fp \<Longrightarrow> p \<noteq> nfp \<Longrightarrow> attrs st' p = attrs st p"
    and "fst (malloc_from_block fp sz tag st) = fp + 16" and "outside st st' (span st h (xs @ fp # ys))"
proof -
  note D = heap_okD [OF ok]
  have B: "block_ok st h fp" using D(5) by simp
  note b = block_okD [OF B]
  have n: "fp < nfp" "nfp < fp + asize st fp" using sz by (simp_all add: nfp_def)
  have new: "nfp \<notin> set (mhead st h # xs @ fp # ys)" by (rule inside_block [OF ok n])
  have fr: "is_free st fp" using D(3) by auto
  have newf: "nfp \<notin> set (mhead st h # us @ fp # vs)" using new D(3) by auto
  have links: "fnext st fp \<noteq> fp" "fprev st fp \<noteq> fp" "fnext st fp \<in> set (mhead st h # us @ fp # vs)" "fprev st fp \<in> set (mhead st h # us @ fp # vs)"
    using ring_at [OF D(2)] ring_links_in [OF D(2), of fp] by auto
  have fit: "sz + 2 * sizeof_arena_header \<le> ARENA_SIZE_GET (attrs st fp)"
    using sz(3) b(3) by (simp add: word_le_nat_alt asize_def sizeof_arena_header_def unat_word_ariths)
  have neq: "fp + unat sz \<noteq> fp" "fnext st fp \<noteq> fp + unat sz" "fprev st fp \<noteq> fp + unat sz" using n links newf by (auto simp: nfp_def)
  note F = malloc_split_fields [OF fit neq(1) links(1,2), of tag, folded st'_def, folded nfp_def]
  show "atag st' = (atag st)(nfp := MALLOC_FREE, fp := tag)" "fst (malloc_from_block fp sz tag st) = fp + 16" by (fact F)+
  have "set (mhead st h # us @ fp # vs) \<subseteq> set (mhead st h # xs @ fp # ys)" using D(3) by auto
  then have "fp \<in> span st h (xs @ fp # ys)" "nfp \<in> span st h (xs @ fp # ys)" "anext st fp \<in> span st h (xs @ fp # ys)"
    "fnext st fp \<in> span st h (xs @ fp # ys)" "fprev st fp \<in> span st h (xs @ fp # ys)"
    using block_in_span [OF ok] links(3,4) ring_links_in(1) [OF D(1), of fp] n by (auto simp: span_def region_def)
  then show "outside st st' (span st h (xs @ fp # ys))" unfolding outside_def F by auto
  show other: "attrs st' p = attrs st p" if "p \<noteq> fp" "p \<noteq> nfp" for p using that by (simp add: F(1))
  show s1: "asize st' fp = unat sz" using sz(1) by (simp add: asize_def F(1) arena_simps size_mask_dvd [THEN iffD2])
  show u1: "\<not> is_free st' fp" by (simp add: is_free_def F(1) arena_simps)
  show f1: "is_free st' nfp" using n by (simp add: is_free_def F(1) arena_simps)
  show s2: "asize st' nfp = asize st fp - unat sz"
  proof -
    have "unat (ARENA_SIZE_GET (attrs st fp) - sz) = asize st fp - unat sz"
      using sz(3) by (simp add: asize_def unat_sub word_le_nat_alt)
    moreover from this have "16 dvd unat (ARENA_SIZE_GET (attrs st fp) - sz)" using asize_dvd [of st fp] sz(1) by simp
    ultimately show ?thesis using n by (simp add: asize_def F(1) arena_simps size_mask_dvd [THEN iffD2])
  qed
  have h1: "ARENA_HEAP_GET (attrs st' fp) = h" "ARENA_HEAP_GET (attrs st' nfp) = h"
    using n by (simp_all add: F(1) arena_simps flip: b(4))
  have t1: "ARENA_TYPE_GET (attrs st' fp) = ARENA_TYPE_USED" by (simp add: F(1) arena_simps)
  have oth: "attrs st' p = attrs st p" if "p \<in> set xs \<union> set ys \<union> {mhead st h}" for p
    using that new D(1) by (intro other) (auto simp: ring_def)
  note A = heap_around [OF ok]
  have hd: "mhead st h \<notin> {fp..<fp + asize st fp}" using b(5) by (simp add: region_def)
  have "heap_ok st' h (xs @ [fp, nfp] @ ys) (us @ nfp # vs)"
  proof (rule heap_ok_mid [of 0 st h xs "[fp]" ys "us @ fp # vs"])
    show "ring (anext st') (aprev st') (mhead st h) (xs @ [fp, nfp] @ ys)" "ring (fnext st') (fprev st') (mhead st h) (us @ nfp # vs)"
      unfolding F using ring_insert_at [OF D(1) new] ring_replace [OF D(2) newf] by simp_all
    show "set (us @ nfp # vs) = set (us @ fp # vs) - set [fp] \<union> {p \<in> set [fp, nfp]. is_free st' p}"
      using D(2) f1 u1 by (auto simp: ring_def)
    show "block_ok st' h p" if "p \<in> set [fp, nfp]" for p
      using that b s1 s2 h1 t1 f1 sz hd n by (auto simp: block_ok_def region_def F(7) nfp_def is_free_def)
    show "sorted_wrt (apart 0 st') [fp, nfp]" using s1 u1 by (simp add: apart_def nfp_def)
    show "apart 0 st' x m" if "x \<in> set xs" "m \<in> set [fp, nfp]" for x m
      using A(1) [OF that(1)] attrs_cong(1,2) [OF oth F(7), of x] that n u1 by (auto simp: apart_def)
    show "apart 0 st' m y" if "m \<in> set [fp, nfp]" "y \<in> set ys" for m y
      using A(3,4) [OF that(2)] A(5) attrs_cong(1,2) [OF oth F(7), of y] that n u1 s1 s2 fr sz(3) by (auto simp: apart_def nfp_def)
  qed (use ok oth F(7) in auto)
  then show "heap_ok st' h (xs @ fp # nfp # ys) (us @ nfp # vs)" by simp
qed

lemma malloc_whole_ok:
  fixes tag :: nat
  assumes ok: "heap_ok st h (xs @ fp # ys) (us @ fp # vs)" and sz: "\<not> unat sz + 32 \<le> asize st fp" "unat sz \<le> asize st fp"
  defines "st' \<equiv> snd (malloc_from_block fp sz tag st)"
  shows "heap_ok st' h (xs @ fp # ys) (us @ vs)" and "asize st' = asize st" and "\<not> is_free st' fp"
    and "atag st' = (atag st)(fp := tag)" and "p \<noteq> fp \<Longrightarrow> attrs st' p = attrs st p"
    and "fst (malloc_from_block fp sz tag st) = fp + 16" and "outside st st' (span st h (xs @ fp # ys))"
proof -
  note D = heap_okD [OF ok]
  have B: "block_ok st h fp" using D(5) by simp
  note b = block_okD [OF B]
  have fr: "is_free st fp" using D(3) by auto
  have fit: "\<not> sz + 2 * sizeof_arena_header \<le> ARENA_SIZE_GET (attrs st fp)"
    using sz b(1,3) by (simp add: word_le_nat_alt asize_def sizeof_arena_header_def unat_word_ariths)
  note F = malloc_whole_fields [OF fit, of tag, folded st'_def, OF ring_at(3) [OF D(2)]]
  show "atag st' = (atag st)(fp := tag)" "fst (malloc_from_block fp sz tag st) = fp + 16" by (fact F)+
  have "set (mhead st h # us @ fp # vs) \<subseteq> set (mhead st h # xs @ fp # ys)" using D(3) by auto
  then have "fp \<in> span st h (xs @ fp # ys)" "fnext st fp \<in> span st h (xs @ fp # ys)" "fprev st fp \<in> span st h (xs @ fp # ys)"
    using block_in_span [OF ok] ring_links_in [OF D(2), of fp] by auto
  then show "outside st st' (span st h (xs @ fp # ys))" unfolding outside_def F by auto
  show other: "attrs st' p = attrs st p" if "p \<noteq> fp" for p using that by (simp add: F(1))
  show s1: "asize st' = asize st" by (auto simp: asize_def F(1) arena_simps)
  show u1: "\<not> is_free st' fp" by (simp add: is_free_def F(1) arena_simps)
  have oth: "attrs st' p = attrs st p" if "p \<in> set xs \<union> set ys \<union> {mhead st h}" for p
    using that D(1) by (intro other) (auto simp: ring_def)
  note A = heap_around [OF ok]
  have "heap_ok st' h (xs @ [fp] @ ys) (us @ vs)"
  proof (rule heap_ok_mid [of 0 st h xs "[fp]" ys "us @ fp # vs"])
    show "ring (anext st') (aprev st') (mhead st h) (xs @ [fp] @ ys)" "ring (fnext st') (fprev st') (mhead st h) (us @ vs)"
      unfolding F using D(1) ring_unlink [OF D(2)] by simp_all
    show "set (us @ vs) = set (us @ fp # vs) - set [fp] \<union> {p \<in> set [fp]. is_free st' p}" using D(2) u1 by (auto simp: ring_def)
    show "block_ok st' h p" if "p \<in> set [fp]" for p
      using that B by (simp add: block_ok_def region_def s1 F(1,7) arena_simps)
    show "apart 0 st' x m" if "x \<in> set xs" "m \<in> set [fp]" for x m using A(1) [OF that(1)] that u1 by (simp add: apart_def s1)
    show "apart 0 st' m y" if "m \<in> set [fp]" "y \<in> set ys" for m y using A(3) [OF that(2)] that u1 by (simp add: apart_def s1)
  qed (use ok oth F(7) in auto)
  then show "heap_ok st' h (xs @ fp # ys) (us @ vs)" by simp
qed

lemma find_fit_seg:
  "seg (fnext st) (fprev st) a fs head \<Longrightarrow> head \<notin> set fs \<Longrightarrow>
   find_fit st head sz (fnext st a) = Some (List.find (\<lambda>p. sz \<le> ARENA_SIZE_GET (attrs st p)) fs)"
proof (induction fs arbitrary: a)
  case Nil
  then show ?case by (subst find_fit.simps) simp
next
  case (Cons p fs)
  then show ?case by (subst find_fit.simps) auto
qed

lemma arena_round:
  assumes "unat sz \<le> 2 ^ 32 - 32"
  shows "unat (arena_round sz) = (unat sz + 31) div 16 * 16"
proof -
  have "unat (sz + 2 * sizeof_arena_header - 1) = unat sz + 31"
  proof -
    have "sz + 2 * sizeof_arena_header - 1 = sz + 31" by (simp add: sizeof_arena_header_def)
    then show ?thesis using assms by (simp add: unat_word_ariths)
  qed
  then show ?thesis by (simp add: arena_round_def unat_size_mask)
qed

lemma view_append:
  "free_mem st (xs @ ys) = free_mem st xs \<union> free_mem st ys" "span st h (xs @ ys) = span st h xs \<union> span st h ys"
  "alloc st (xs @ ys) p = (if p \<in> set xs then alloc st xs p else alloc st ys p)"
  by (auto simp: free_mem_def span_def alloc_def)

lemma view_Cons:
  "free_mem st (q # ys) = (if is_free st q then region st q else {}) \<union> free_mem st ys"
  "span st h (q # ys) = region st q \<union> span st h ys"
  "alloc st (q # ys) p = (if p = q then (if is_free st q then None else Some (asize st q, atag st q)) else alloc st ys p)"
  "free_mem st [] = {}" "span st h [] = {mhead st h}" "alloc st [] p = None"
  by (auto simp: free_mem_def span_def alloc_def)

lemma view_cong:
  assumes "\<And>p. p \<in> set xs \<Longrightarrow> attrs st' p = attrs st p" and "mhead st' = mhead st"
  shows "free_mem st' xs = free_mem st xs" and "span st' h xs = span st h xs"
    and "(\<And>p. p \<in> set xs \<Longrightarrow> atag st' p = atag st p) \<Longrightarrow> alloc st' xs = alloc st xs"
  using attrs_cong [OF assms(1) assms(2)] assms(2) by (auto simp: free_mem_def span_def alloc_def fun_eq_iff)

lemma free_mem_apart:
  assumes ok: "heap_okx x st h (xs @ p # ys) fs"
  shows "free_mem st xs \<inter> region st p = {}" and "free_mem st ys \<inter> region st p = {}"
proof -
  note A = heap_around [OF ok]
  show "free_mem st xs \<inter> region st p = {}" using A(1) by (fastforce simp: free_mem_def region_def)
  show "free_mem st ys \<inter> region st p = {}" using A(3) by (fastforce simp: free_mem_def region_def)
qed

text \<open>The effect of an operation on one heap: what is allocated and free afterwards, and nothing else changes.\<close>

definition heap_step :: "arena \<Rightarrow> u32 \<Rightarrow> ptr list \<Rightarrow> (ptr \<rightharpoonup> nat \<times> nat) \<Rightarrow> ptr set \<Rightarrow> arena \<Rightarrow> bool" where
  "heap_step st h bs al fr st' \<longleftrightarrow> (\<exists>bs' fs'. heap_ok st' h bs' fs' \<and> alloc st' bs' = al \<and> free_mem st' bs' = fr \<and>
     span st' h bs' = span st h bs) \<and> outside st st' (span st h bs)"

lemma heap_apart_mid:
  assumes ok: "heap_okx x st h (xs @ mid @ ys) fs" and p: "p \<in> set xs \<union> set ys" and m: "m \<in> set mid"
  shows "region st p \<inter> region st m = {}" and "p \<noteq> m"
proof -
  note D = heap_okD [OF ok]
  have "apart x st p m \<or> apart x st m p" using D(4) p m by (auto simp: sorted_wrt_append)
  then show "region st p \<inter> region st m = {}" by (auto simp: apart_def region_def)
  show "p \<noteq> m" using D(1) p m by (auto simp: ring_def)
qed

lemma view_mid:
  assumes ok: "heap_okx x st h (xs @ mid @ ys) fs" and ok': "heap_okx x' st' h (xs @ mid' @ ys) fs'"
    and oth: "\<forall>p \<in> set xs \<union> set ys. attrs st' p = attrs st p \<and> atag st' p = atag st p" and mh: "mhead st' = mhead st"
  shows "alloc st' (xs @ mid' @ ys) = (\<lambda>p. if p \<in> set mid \<union> set mid' then alloc st' mid' p else alloc st (xs @ mid @ ys) p)"
    and "free_mem st' (xs @ mid' @ ys) = free_mem st (xs @ mid @ ys) - (\<Union>p \<in> set mid. region st p) \<union> free_mem st' mid'"
    and "(\<Union>p \<in> set mid'. region st' p) = (\<Union>p \<in> set mid. region st p) \<Longrightarrow> span st' h (xs @ mid' @ ys) = span st h (xs @ mid @ ys)"
proof -
  have c: "asize st' p = asize st p" "is_free st' p = is_free st p" "region st' p = region st p" "atag st' p = atag st p"
    if "p \<in> set xs \<union> set ys" for p using attrs_cong [OF _ mh] oth that by auto
  have d: "p \<noteq> m" if "p \<in> set xs \<union> set ys" "m \<in> set mid \<union> set mid'" for p m
    using heap_apart_mid(2) [OF ok] heap_apart_mid(2) [OF ok'] that by blast
  show "alloc st' (xs @ mid' @ ys) = (\<lambda>p. if p \<in> set mid \<union> set mid' then alloc st' mid' p else alloc st (xs @ mid @ ys) p)"
  proof
    fix p
    show "alloc st' (xs @ mid' @ ys) p = (if p \<in> set mid \<union> set mid' then alloc st' mid' p else alloc st (xs @ mid @ ys) p)"
      using c [of p] d [of p p] by (cases "p \<in> set xs \<union> set ys") (auto simp: alloc_def)
  qed
  have fx: "free_mem st' (xs @ ys) = free_mem st (xs @ ys)" using c by (auto simp: free_mem_def)
  have sp: "(\<Union>p \<in> set (xs @ ys). region st' p) = (\<Union>p \<in> set (xs @ ys). region st p)" using c by auto
  have "free_mem st (xs @ ys) \<inter> (\<Union>p \<in> set mid. region st p) = {}"
    using heap_apart_mid(1) [OF ok] by (fastforce simp: free_mem_def)
  moreover have "free_mem st mid \<subseteq> (\<Union>p \<in> set mid. region st p)" by (auto simp: free_mem_def)
  ultimately have "free_mem st (xs @ ys) = free_mem st (xs @ mid @ ys) - (\<Union>p \<in> set mid. region st p)"
    by (auto simp: view_append)
  then show "free_mem st' (xs @ mid' @ ys) = free_mem st (xs @ mid @ ys) - (\<Union>p \<in> set mid. region st p) \<union> free_mem st' mid'"
    using fx by (auto simp: view_append)
  show "span st' h (xs @ mid' @ ys) = span st h (xs @ mid @ ys)" if "(\<Union>p \<in> set mid'. region st' p) = (\<Union>p \<in> set mid. region st p)"
    using sp that unfolding span_def mh by auto
qed

lemma heap_step_mid:
  assumes ok: "heap_okx x st h (xs @ mid @ ys) fs" and ok': "heap_ok st' h (xs @ mid' @ ys) fs'"
    and oth: "\<forall>p \<in> set xs \<union> set ys. attrs st' p = attrs st p \<and> atag st' p = atag st p"
    and reg: "(\<Union>p \<in> set mid'. region st' p) = (\<Union>p \<in> set mid. region st p)"
    and out: "outside st st' (span st h (xs @ mid @ ys))"
  shows "heap_step st h (xs @ mid @ ys) (\<lambda>p. if p \<in> set mid \<union> set mid' then alloc st' mid' p else alloc st (xs @ mid @ ys) p)
    (free_mem st (xs @ mid @ ys) - (\<Union>p \<in> set mid. region st p) \<union> free_mem st' mid') st'"
proof -
  have mh: "mhead st' = mhead st" using out by (simp add: outside_def)
  show ?thesis unfolding heap_step_def using ok' view_mid [OF ok ok' oth mh] reg out by blast
qed

lemma malloc_from_block_effect:
  assumes ok: "heap_ok st h bs fs" and fp: "fp \<in> set fs" and sz: "16 dvd unat sz" "32 \<le> unat sz" "unat sz \<le> asize st fp"
  shows "\<exists>m st'. malloc_from_block fp sz tag st = (fp + 16, st') \<and> unat sz \<le> m \<and> m < unat sz + 32 \<and> {fp..<fp + m} \<subseteq> free_mem st bs \<and>
    heap_step st h bs ((alloc st bs)(fp \<mapsto> (m, tag))) (free_mem st bs - {fp..<fp + m}) st'"
proof -
  note D = heap_okD [OF ok]
  have fr: "is_free st fp" "fp \<in> set bs" using fp D(3) by auto
  obtain us vs where fs: "fs = us @ fp # vs" using fp by (meson split_list)
  obtain xs ys where bs: "bs = xs @ [fp] @ ys" using fr(2) by (metis append_Cons append_Nil split_list)
  have ok': "heap_ok st h (xs @ fp # ys) (us @ fp # vs)" using ok fs bs by simp
  have nin: "fp \<notin> set xs \<union> set ys" using D(1) by (auto simp: bs ring_def)
  have fm: "region st fp \<subseteq> free_mem st bs" using fr by (auto simp: free_mem_def)
  define st' where "st' = snd (malloc_from_block fp sz tag st)"
  show ?thesis
  proof (cases "unat sz + 32 \<le> asize st fp")
    case True
    let ?nfp = "fp + unat sz"
    note S = malloc_split_ok [where tag = tag, OF ok' sz(1,2) True, folded st'_def]
    have n: "fp < ?nfp" "?nfp < fp + asize st fp" using sz True by simp_all
    have new: "?nfp \<notin> set xs \<union> set ys \<union> {fp}" "alloc st bs ?nfp = None"
      using inside_block [OF ok' n] by (auto simp: bs alloc_def)
    have reg: "region st' ?nfp = {?nfp..<fp + asize st fp}" "region st' fp = {fp..<?nfp}" using S(2,3) True by (auto simp: region_def)
    have "p \<noteq> fp \<and> p \<noteq> ?nfp" if "p \<in> set xs \<union> set ys" for p using that nin new by auto
    then have "heap_step st h (xs @ [fp] @ ys)
      (\<lambda>p. if p \<in> set [fp] \<union> set [fp, ?nfp] then alloc st' [fp, ?nfp] p else alloc st (xs @ [fp] @ ys) p)
      (free_mem st (xs @ [fp] @ ys) - (\<Union>p \<in> set [fp]. region st p) \<union> free_mem st' [fp, ?nfp]) st'"
      using S(1,6,7,9) ok' reg n by (intro heap_step_mid) (auto simp: region_def)
    moreover have "(\<lambda>p. if p \<in> set [fp] \<union> set [fp, ?nfp] then alloc st' [fp, ?nfp] p else alloc st bs p) = (alloc st bs)(fp \<mapsto> (unat sz, tag))"
      using S(2,4,5,6) n new(2) by (auto simp: view_Cons)
    moreover have "free_mem st bs - (\<Union>p \<in> set [fp]. region st p) \<union> free_mem st' [fp, ?nfp] = free_mem st bs - {fp..<?nfp}"
      using S(4,5) n fm unfolding view_Cons reg by (auto simp: region_def)
    ultimately have "heap_step st h bs ((alloc st bs)(fp \<mapsto> (unat sz, tag))) (free_mem st bs - {fp..<?nfp}) st'" unfolding bs by simp
    moreover have "malloc_from_block fp sz tag st = (fp + 16, st')" using S(8) by (simp add: st'_def prod_eq_iff)
    moreover have "{fp..<?nfp} \<subseteq> free_mem st bs" using n fm unfolding region_def by auto
    ultimately show ?thesis by (intro exI [of _ "unat sz"] exI [of _ st']) simp
  next
    case False
    note S = malloc_whole_ok [where tag = tag, OF ok' False sz(3), folded st'_def]
    have "p \<noteq> fp" if "p \<in> set xs \<union> set ys" for p using that nin by auto
    then have "heap_step st h (xs @ [fp] @ ys)
      (\<lambda>p. if p \<in> set [fp] \<union> set [fp] then alloc st' [fp] p else alloc st (xs @ [fp] @ ys) p)
      (free_mem st (xs @ [fp] @ ys) - (\<Union>p \<in> set [fp]. region st p) \<union> free_mem st' [fp]) st'"
      using S ok' by (intro heap_step_mid) (auto simp: region_def)
    moreover have "(\<lambda>p. if p \<in> set [fp] \<union> set [fp] then alloc st' [fp] p else alloc st bs p) = (alloc st bs)(fp \<mapsto> (asize st fp, tag))"
      using S(2,3,4) by (auto simp: view_Cons)
    moreover have "free_mem st bs - (\<Union>p \<in> set [fp]. region st p) \<union> free_mem st' [fp] = free_mem st bs - {fp..<fp + asize st fp}"
      using S(3) by (auto simp: view_Cons region_def)
    ultimately have "heap_step st h bs ((alloc st bs)(fp \<mapsto> (asize st fp, tag))) (free_mem st bs - {fp..<fp + asize st fp}) st'"
      unfolding bs by simp
    moreover have "malloc_from_block fp sz tag st = (fp + 16, st')" using S(6) by (simp add: st'_def prod_eq_iff)
    moreover have "{fp..<fp + asize st fp} \<subseteq> free_mem st bs" using fm by (simp add: region_def)
    ultimately show ?thesis using sz(3) False by (intro exI [of _ "asize st fp"] exI [of _ st']) simp
  qed
qed

text \<open>
  A request for \<open>sz\<close> bytes takes the first block of the free chain that is large enough.
\<close>

lemma bios_malloc_find:
  assumes ok: "heap_ok st h bs fs" and sz: "sz \<noteq> 0"
  shows "bios_malloc sz h tag st =
    Some (case List.find (\<lambda>p. arena_round sz \<le> ARENA_SIZE_GET (attrs st p)) fs of None \<Rightarrow> (0, st)
      | Some fp \<Rightarrow> malloc_from_block fp (arena_round sz) tag st)"
proof -
  have "seg (fnext st) (fprev st) (mhead st h) fs (mhead st h)" "mhead st h \<notin> set fs"
    using heap_okD(2) [OF ok] by (auto simp: ring_def)
  then show ?thesis using sz by (simp add: bios_malloc_def find_fit_seg Let_def)
qed

lemma bios_malloc_effect:
  assumes ok: "heap_ok st h bs fs" and sz: "sz \<noteq> 0" "unat sz \<le> 2 ^ 32 - 32"
  defines "n \<equiv> (unat sz + 31) div 16 * 16"
  shows "\<forall>p \<in> set bs. is_free st p \<longrightarrow> asize st p < n \<Longrightarrow> bios_malloc sz h tag st = Some (0, st)"
    and "\<exists>p \<in> set bs. is_free st p \<and> n \<le> asize st p \<Longrightarrow>
      \<exists>fp m st'. bios_malloc sz h tag st = Some (fp + 16, st') \<and> n \<le> m \<and> m < n + 32 \<and> {fp..<fp + m} \<subseteq> free_mem st bs \<and>
        heap_step st h bs ((alloc st bs)(fp \<mapsto> (m, tag))) (free_mem st bs - {fp..<fp + m}) st'"
proof -
  note D = heap_okD [OF ok]
  let ?P = "\<lambda>p. arena_round sz \<le> ARENA_SIZE_GET (attrs st p)"
  have n: "unat (arena_round sz) = n" using arena_round [OF sz(2)] by (simp add: n_def)
  have P: "?P p \<longleftrightarrow> n \<le> asize st p" for p using n by (simp add: word_le_nat_alt asize_def)
  show "bios_malloc sz h tag st = Some (0, st)" if "\<forall>p \<in> set bs. is_free st p \<longrightarrow> asize st p < n"
  proof -
    have "List.find ?P fs = None" using that D(3) by (auto simp: find_None_iff P)
    then show ?thesis using bios_malloc_find [OF ok sz(1)] by simp
  qed
  assume "\<exists>p \<in> set bs. is_free st p \<and> n \<le> asize st p"
  then obtain fp where fp: "List.find ?P fs = Some fp" using D(3) by (cases "List.find ?P fs") (auto simp: find_None_iff P)
  then have f: "fp \<in> set fs" "n \<le> asize st fp" by (auto simp: find_Some_iff P)
  have "0 < unat sz" using sz(1) by (simp add: unat_gt_0)
  then have "32 \<le> n" using div_le_mono [of 32 "unat sz + 31" 16] by (simp add: n_def)
  moreover have "16 dvd n" by (simp add: n_def)
  ultimately show "\<exists>fp m st'. bios_malloc sz h tag st = Some (fp + 16, st') \<and> n \<le> m \<and> m < n + 32 \<and> {fp..<fp + m} \<subseteq> free_mem st bs \<and>
        heap_step st h bs ((alloc st bs)(fp \<mapsto> (m, tag))) (free_mem st bs - {fp..<fp + m}) st'"
    using malloc_from_block_effect [OF ok f(1), of "arena_round sz" tag] f(2) n bios_malloc_find [OF ok sz(1)] fp by auto
qed

subsection \<open>Freeing\<close>

lemma absorb_prev_eq:
  "absorb_prev pah ah nah st = st\<lparr>attrs := (attrs st)(pah := ARENA_SIZE_SET (attrs st pah)
      (ARENA_SIZE_GET (attrs st pah) + ARENA_SIZE_GET (attrs st ah))), anext := (anext st)(pah := nah), aprev := (aprev st)(nah := pah)\<rparr>"
  by (simp add: absorb_prev_def set_size_def Let_def)

lemma push_free_eq:
  "ah \<noteq> head \<Longrightarrow> push_free ah head st =
    st\<lparr>fnext := (fnext st)(ah := fnext st head, head := ah), fprev := (fprev st)(ah := head, fnext st head := ah)\<rparr>"
  by (simp add: push_free_def Let_def)

lemma merge_next_eq:
  "is_free st nah \<Longrightarrow> ah + asize st ah = nah \<Longrightarrow> fnext st nah \<noteq> nah \<Longrightarrow> anext st nah \<noteq> nah \<Longrightarrow> nah \<noteq> ah \<Longrightarrow> merge_next ah nah st =
    st\<lparr>attrs := (attrs st)(ah := ARENA_SIZE_SET (attrs st ah) (ARENA_SIZE_GET (attrs st ah) + ARENA_SIZE_GET (attrs st nah))),
       fnext := (fnext st)(fprev st nah := fnext st nah), fprev := (fprev st)(fnext st nah := fprev st nah),
       anext := (anext st)(ah := anext st nah), aprev := (aprev st)(anext st nah := ah)\<rparr>"
  by (simp add: merge_next_def set_size_def unlink_free_eq Let_def)

text \<open>The sum of the sizes of two neighbours.\<close>

lemma size_sum:
  assumes "block_ok st h p" and "p + asize st p + asize st q < 2 ^ 32"
  shows "unat (ARENA_SIZE_GET (ARENA_SIZE_SET a (ARENA_SIZE_GET (attrs st p) + ARENA_SIZE_GET (attrs st q)))) = asize st p + asize st q"
proof -
  have "unat (ARENA_SIZE_GET (attrs st p) + ARENA_SIZE_GET (attrs st q)) = asize st p + asize st q"
    using assms(2) by (simp add: asize_def unat_word_ariths)
  moreover from this have "16 dvd unat (ARENA_SIZE_GET (attrs st p) + ARENA_SIZE_GET (attrs st q))"
    using asize_dvd [of st p] asize_dvd [of st q] by simp
  ultimately show ?thesis by (simp add: arena_simps size_mask_dvd [THEN iffD2])
qed

lemma absorb_prev_ok:
  assumes ok: "heap_ok st h (xs @ p # q # ys) fs" and fr: "is_free st p" "\<not> is_free st q" and adj: "p + asize st p = q"
  defines "st' \<equiv> absorb_prev p q (anext st q) st"
  shows "heap_okx p st' h (xs @ p # ys) fs" and "is_free st' p" and "asize st' p = asize st p + asize st q"
    and "u \<noteq> p \<Longrightarrow> attrs st' u = attrs st u" and "atag st' = atag st" and "outside st st' (span st h (xs @ p # q # ys))"
    and "aprev st q = p" and "anext st' p = anext st q"
proof -
  note D = heap_okD [OF ok]
  have B: "block_ok st h p" "block_ok st h q" using D(5) by simp_all
  note b = block_okD [OF B(1)]
  note c = block_okD [OF B(2)]
  have D1: "ring (anext st) (aprev st) (mhead st h) ((xs @ [p]) @ q # ys)" using D(1) by simp
  have pv: "aprev st q = p" using ring_at(2) [OF D1] by simp
  then show "aprev st q = p" .
  note F = absorb_prev_eq [of p q "anext st q" st, folded st'_def]
  show "anext st' p = anext st q" by (simp add: F)
  show fp: "is_free st' p" using fr(1) by (simp add: is_free_def F arena_simps)
  show sp: "asize st' p = asize st p + asize st q"
    using size_sum [OF B(1), of q] c(3) adj by (simp add: asize_def F)
  show oth: "attrs st' u = attrs st u" if "u \<noteq> p" for u using that by (simp add: F)
  show "atag st' = atag st" by (simp add: F)
  have ns: "p \<notin> set xs \<union> set ys \<union> {mhead st h}" using D(1) by (auto simp: ring_def)
  have "p \<in> span st h (xs @ p # q # ys)" "anext st q \<in> span st h (xs @ p # q # ys)"
    using block_in_span [OF ok] ring_links_in(1) [OF D(1), of q] by auto
  then show "outside st st' (span st h (xs @ p # q # ys))" unfolding outside_def F by auto
  note A = heap_around [OF ok]
  have A2: "y \<in> set ys \<Longrightarrow> q + asize st q \<le> y" for y using heap_around(3) [of 0 st h "xs @ [p]" q ys fs] ok by simp
  have "heap_okx p st' h (xs @ [p] @ ys) fs"
  proof (rule heap_ok_mid [of 0 st h xs "[p, q]" ys fs])
    show "ring (anext st') (aprev st') (mhead st h) (xs @ [p] @ ys)"
      using ring_unlink [OF D1] unfolding pv by (simp add: F)
    show "ring (fnext st') (fprev st') (mhead st h) fs" using D(2) by (simp add: F)
    show "set fs = set fs - set [p, q] \<union> {u \<in> set [p]. is_free st' u}" using D(3) fr fp by auto
    show "block_ok st' h u" if "u \<in> set [p]" for u
      using that b c(3,5) adj sp fp by (auto simp: block_ok_def region_def F arena_simps is_free_def)
    show "apart p st' y m" if "y \<in> set xs" "m \<in> set [p]" for y m
    proof -
      have y: "attrs st' y = attrs st y" "y \<noteq> 0" using oth [of y] ns that D(5) [of y] by (auto simp: block_ok_def)
      then show ?thesis using A(1,2) [OF that(1)] that fr fp by (auto simp: apart_def arena_attrs)
    qed
    show "apart p st' m y" if "m \<in> set [p]" "y \<in> set ys" for m y using A2 [OF that(2)] that adj sp by (auto simp: apart_def)
  qed (use ok oth ns in \<open>auto simp: F\<close>)
  then show "heap_okx p st' h (xs @ p # ys) fs" by simp
qed

text \<open>The block that ends where another begins is its neighbour.\<close>

lemma touches_last:
  assumes ok: "heap_okx x st h (xs @ q # ys) fs" and p: "p \<in> set xs" "p + asize st p = q"
  shows "xs \<noteq> [] \<and> p = last xs"
proof -
  obtain as z where xs: "xs = as @ [z]" using p(1) by (cases xs rule: rev_cases) auto
  have "p \<notin> set as"
  proof
    assume "p \<in> set as"
    then have "p + asize st p \<le> z" using heap_around(1) [of x st h as z "q # ys" fs p] ok xs by simp
    moreover have "z + asize st z \<le> q" using heap_around(1) [OF ok, of z] xs by simp
    moreover have "32 \<le> asize st z" using heap_okD(5) [OF ok, of z] xs by (simp add: block_ok_def)
    ultimately show False using p(2) by simp
  qed
  then show ?thesis using xs p(1) by auto
qed

lemma touches_hd:
  assumes ok: "heap_okx x st h (xs @ p # ys) fs" and q: "q \<in> set ys" "p + asize st p = q"
  shows "ys \<noteq> [] \<and> q = hd ys"
proof -
  obtain z as where ys: "ys = z # as" using q(1) by (cases ys) auto
  have "q \<notin> set as"
  proof
    assume "q \<in> set as"
    then have "z + asize st z \<le> q" using heap_around(3) [of x st h "xs @ [p]" z as fs q] ok ys by simp
    moreover have "p + asize st p \<le> z" using heap_around(3) [OF ok, of z] ys by simp
    moreover have "32 \<le> asize st z" using heap_okD(5) [OF ok, of z] ys by (simp add: block_ok_def)
    ultimately show False using q(2) by simp
  qed
  then show ?thesis using ys q(1) by auto
qed

lemma push_free_ok:
  assumes ok: "heap_ok st h (xs @ q # ys) fs" and us: "\<not> is_free st q"
    and na: "\<not> (is_free st (aprev st q) \<and> aprev st q + asize st (aprev st q) = q)"
  defines "st' \<equiv> push_free q (mhead st h) (set_tag q MALLOC_FREE (set_type q ARENA_TYPE_FREE st))"
  shows "heap_okx q st' h (xs @ q # ys) (q # fs)" and "is_free st' q" and "asize st' = asize st"
    and "u \<noteq> q \<Longrightarrow> attrs st' u = attrs st u" and "u \<noteq> q \<Longrightarrow> atag st' u = atag st u" and "outside st st' (span st h (xs @ q # ys))"
    and "anext st' = anext st"
proof -
  note D = heap_okD [OF ok]
  have B: "block_ok st h q" using D(5) by simp
  have ns: "q \<notin> set xs \<union> set ys \<union> {mhead st h}" using D(1) by (auto simp: ring_def)
  then have "q \<noteq> mhead st h" by simp
  from push_free_eq [OF this, of "set_tag q MALLOC_FREE (set_type q ARENA_TYPE_FREE st)", folded st'_def]
  have F: "st' = st\<lparr>attrs := (attrs st)(q := ARENA_TYPE_SET (attrs st q) ARENA_TYPE_FREE), atag := (atag st)(q := MALLOC_FREE),
      fnext := (fnext st)(q := fnext st (mhead st h), mhead st h := q), fprev := (fprev st)(q := mhead st h, fnext st (mhead st h) := q)\<rparr>"
    by (simp add: set_tag_def set_type_def)
  show fq: "is_free st' q" by (simp add: is_free_def F arena_simps)
  show sz: "asize st' = asize st" by (auto simp: asize_def F arena_simps)
  show oth: "attrs st' u = attrs st u" if "u \<noteq> q" for u using that by (simp add: F)
  show "atag st' u = atag st u" if "u \<noteq> q" for u using that by (simp add: F)
  show "anext st' = anext st" by (simp add: F)
  have nf: "q \<notin> set (mhead st h # fs)" using us D(3) ns by auto
  have "fnext st (mhead st h) \<in> set (mhead st h # fs)" using ring_links_in(1) [OF D(2)] by simp
  then have "q \<in> span st h (xs @ q # ys)" "mhead st h \<in> span st h (xs @ q # ys)" "fnext st (mhead st h) \<in> span st h (xs @ q # ys)"
    using block_in_span [OF ok] D(3) by auto
  then show "outside st st' (span st h (xs @ q # ys))" unfolding outside_def F by auto
  note A = heap_around [OF ok]
  have fr: "is_free st' u = is_free st u" if "u \<noteq> q" for u using oth [OF that] by (simp add: is_free_def)
  have "heap_okx q st' h (xs @ [q] @ ys) (q # fs)"
  proof (rule heap_ok_mid [of 0 st h xs "[q]" ys fs])
    show "ring (anext st') (aprev st') (mhead st h) (xs @ [q] @ ys)" using D(1) by (simp add: F)
    show "ring (fnext st') (fprev st') (mhead st h) (q # fs)" using ring_insert_after [OF D(2) nf] by (simp add: F)
    show "set (q # fs) = set fs - set [q] \<union> {u \<in> set [q]. is_free st' u}" using nf fq by auto
    show "block_ok st' h u" if "u \<in> set [q]" for u
      using that B unfolding block_ok_def region_def sz by (auto simp: F arena_simps)
    show "apart q st' y m" if "y \<in> set xs" "m \<in> set [q]" for y m
    proof -
      have "y \<noteq> q" using ns that by auto
      moreover have "\<not> (is_free st y \<and> y + asize st y = q)"
      proof
        assume a: "is_free st y \<and> y + asize st y = q"
        then have "y = last xs" "xs \<noteq> []" using touches_last [OF ok that(1)] by auto
        then have "aprev st q = y" using ring_at(2) [OF D(1)] by simp
        then show False using na a by simp
      qed
      ultimately show ?thesis using A(1) [OF that(1)] that fr by (auto simp: apart_def sz)
    qed
    show "apart q st' m y" if "m \<in> set [q]" "y \<in> set ys" for m y using A(3) [OF that(2)] that by (simp add: apart_def sz)
  qed (use ok oth ns in \<open>auto simp: F\<close>)
  then show "heap_okx q st' h (xs @ q # ys) (q # fs)" by simp
qed

lemma merge_next_ok:
  assumes ok: "heap_okx p st h (xs @ p # ys) fs" and fr: "is_free st p"
  defines "st' \<equiv> merge_next p (anext st p) st"
  shows "\<exists>d ys' fs'. ys = d @ ys' \<and> (\<forall>q \<in> set d. is_free st q) \<and> heap_ok st' h (xs @ p # ys') fs' \<and> is_free st' p \<and>
    alloc st' (xs @ p # ys') = alloc st (xs @ p # ys) \<and> free_mem st' (xs @ p # ys') = free_mem st (xs @ p # ys) \<and>
    span st' h (xs @ p # ys') = span st h (xs @ p # ys) \<and> outside st st' (span st h (xs @ p # ys)) \<and>
    (\<forall>q \<in> set ys'. attrs st' q = attrs st q)"
proof (cases "is_free st (anext st p) \<and> p + asize st p = anext st p")
  case False
  have "apart 0 st p y" if "y \<in> set ys" for y
  proof -
    have "\<not> (is_free st y \<and> p + asize st p = y)"
    proof
      assume a: "is_free st y \<and> p + asize st p = y"
      then have "ys \<noteq> []" "y = hd ys" using touches_hd [OF ok that] by auto
      then have "anext st p = y" using ring_at(1) [OF heap_okD(1) [OF ok]] by simp
      then show False using a False by simp
    qed
    then show ?thesis using heap_around(3) [OF ok that] by (auto simp: apart_def)
  qed
  moreover have "apart 0 st y p" if "y \<in> set xs" for y
  proof -
    have "y \<noteq> p" using heap_okD(1) [OF ok] that by (auto simp: ring_def)
    then show ?thesis using heap_okD(4) [OF ok] that apart_except by (auto simp: sorted_wrt_append)
  qed
  ultimately have "heap_ok st h (xs @ [p] @ ys) fs"
    using heap_ok_mid [of p st h xs "[p]" ys fs st "[p]" fs 0] ok heap_okD [OF ok] by auto
  moreover have "st' = st" using False by (auto simp: st'_def merge_next_def)
  ultimately show ?thesis using fr by (intro exI [of _ "[]"] exI [of _ ys] exI [of _ fs]) (simp add: outside_def)
next
  case True
  note D = heap_okD [OF ok]
  let ?q = "anext st p"
  have hq: "?q = hd (ys @ [mhead st h])" using ring_at(1) [OF D(1)] .
  obtain ys' where ys: "ys = ?q # ys'" using hq True D(6) by (cases ys) auto
  obtain us vs where fs: "fs = us @ ?q # vs" using True D(3) ys by (metis (mono_tags, lifting) mem_Collect_eq Un_iff list.set_intros(1) list.set_intros(2) set_append split_list)
  have ok1: "heap_okx p st h (xs @ [p, ?q] @ ys') (us @ ?q # vs)" using ok ys fs by simp
  have ok2: "heap_okx p st h ((xs @ [p]) @ ?q # ys') (us @ ?q # vs)" using ok1 by simp
  note D2 = heap_okD [OF ok2]
  have B: "block_ok st h p" "block_ok st h ?q" using D(5) ys by auto
  note b = block_okD [OF B(1)]
  note c = block_okD [OF B(2)]
  have qp: "?q \<noteq> p" using D(1) ys by (auto simp: ring_def)
  have F: "st' = st\<lparr>attrs := (attrs st)(p := ARENA_SIZE_SET (attrs st p) (ARENA_SIZE_GET (attrs st p) + ARENA_SIZE_GET (attrs st ?q))),
       fnext := (fnext st)(fprev st ?q := fnext st ?q), fprev := (fprev st)(fnext st ?q := fprev st ?q),
       anext := (anext st)(p := anext st ?q), aprev := (aprev st)(anext st ?q := p)\<rparr>"
    unfolding st'_def using True ring_at(3) [OF D2(2)] ring_at(3) [OF D2(1)] qp by (intro merge_next_eq) auto
  have fp: "is_free st' p" using fr by (simp add: is_free_def F arena_simps)
  have sp: "asize st' p = asize st p + asize st ?q" using size_sum [OF B(1), of ?q] c(3) True by (simp add: asize_def F)
  have ns: "p \<notin> set xs \<union> set ys' \<union> {mhead st h}" using D(1) ys by (auto simp: ring_def)
  have oth: "attrs st' u = attrs st u" if "u \<noteq> p" for u using that by (simp add: F)
  note A = heap_around [OF ok]
  note A2 = heap_around [OF ok2]
  have ok': "heap_ok st' h (xs @ [p] @ ys') (us @ vs)"
  proof (rule heap_ok_mid [of p st h xs "[p, ?q]" ys' "us @ ?q # vs"])
    have "aprev st ?q = p" using ring_at(2) [OF D2(1)] by simp
    then show "ring (anext st') (aprev st') (mhead st h) (xs @ [p] @ ys')" using ring_unlink [OF D2(1)] by (simp add: F)
    show "ring (fnext st') (fprev st') (mhead st h) (us @ vs)" using ring_unlink [OF D2(2)] by (simp add: F)
    show "set (us @ vs) = set (us @ ?q # vs) - set [p, ?q] \<union> {u \<in> set [p]. is_free st' u}"
    proof -
      have "p \<in> set (us @ ?q # vs)" unfolding D2(3) using fr by simp
      moreover have "?q \<notin> set us \<union> set vs" using D2(2) by (auto simp: ring_def)
      ultimately show ?thesis using fp qp by auto
    qed
    show "block_ok st' h u" if "u \<in> set [p]" for u
      using that b c(3,5) True sp fp by (auto simp: block_ok_def region_def F arena_simps is_free_def)
    show "apart 0 st' y m" if "y \<in> set xs" "m \<in> set [p]" for y m
    proof -
      have y: "attrs st' y = attrs st y" "y \<noteq> p" using oth [of y] ns that by auto
      then show ?thesis using A(1,2) [OF that(1)] that fr fp by (auto simp: apart_def arena_attrs)
    qed
    show "apart 0 st' m y" if "m \<in> set [p]" "y \<in> set ys'" for m y
    proof -
      have y: "attrs st' y = attrs st y" using oth [of y] ns that by auto
      then show ?thesis using A2(3,4) [OF that(2)] that True qp sp by (auto simp: apart_def arena_attrs)
    qed
  qed (use ok1 oth ns in \<open>auto simp: F\<close>)
  have sub: "set (mhead st h # fs) \<subseteq> set (mhead st h # xs @ p # ys)" using D(3) by auto
  have "?q \<in> set (mhead st h # fs)" using fs by auto
  then have "fnext st ?q \<in> set (mhead st h # fs)" "fprev st ?q \<in> set (mhead st h # fs)" using ring_links_in [OF D(2)] by auto
  moreover have "anext st ?q \<in> set (mhead st h # xs @ p # ys)" using ring_links_in(1) [OF D(1), of ?q] ys by auto
  ultimately have "p \<in> span st h (xs @ p # ys)" "fnext st ?q \<in> span st h (xs @ p # ys)" "fprev st ?q \<in> span st h (xs @ p # ys)"
    "anext st ?q \<in> span st h (xs @ p # ys)" using block_in_span [OF ok] sub by auto
  then have out: "outside st st' (span st h (xs @ p # ys))" unfolding outside_def F by auto
  have mh: "mhead st' = mhead st" "atag st' = atag st" by (simp_all add: F)
  have "attrs st' u = attrs st u \<and> atag st' u = atag st u" if "u \<in> set xs \<union> set ys'" for u
    using that ns oth [of u] mh(2) by auto
  then have "\<forall>u \<in> set xs \<union> set ys'. attrs st' u = attrs st u \<and> atag st' u = atag st u" by blast
  note V = view_mid [OF ok1 ok' this mh(1)]
  have reg: "region st' p = region st p \<union> region st ?q" using sp True by (auto simp: region_def)
  have "alloc st' (xs @ [p] @ ys') = alloc st (xs @ [p, ?q] @ ys')"
    unfolding V(1) using fp fr True qp by (auto simp: view_Cons alloc_def fun_eq_iff)
  moreover have "region st p \<union> region st ?q \<subseteq> free_mem st (xs @ [p, ?q] @ ys')" using fr True by (auto simp: free_mem_def)
  then have "free_mem st' (xs @ [p] @ ys') = free_mem st (xs @ [p, ?q] @ ys')" unfolding V(2) using fp reg by (auto simp: view_Cons)
  moreover have "span st' h (xs @ [p] @ ys') = span st h (xs @ [p, ?q] @ ys')" by (rule V(3)) (simp add: reg)
  moreover have "\<forall>q \<in> set ys'. attrs st' q = attrs st q"
  proof
    fix u
    assume "u \<in> set ys'"
    then show "attrs st' u = attrs st u" using ns oth [of u] by auto
  qed
  ultimately show ?thesis using ok' fp out True ys by (intro exI [of _ "[?q]"] exI [of _ ys'] exI [of _ "us @ vs"]) simp
qed

lemma outside_trans: "outside st st1 A \<Longrightarrow> outside st1 st' A \<Longrightarrow> outside st st' A"
  by (simp add: outside_def)

lemma merge_finish:
  assumes "heap_okx r st1 h (xs @ r # ys) fs" and "is_free st1 r" and "outside st st1 (span st1 h (xs @ r # ys))"
    and same: "\<forall>p \<in> set ys. attrs st1 p = attrs st p"
  defines "st' \<equiv> merge_next r (anext st1 r) st1"
  shows "\<exists>d ys' fs'. ys = d @ ys' \<and> (\<forall>p \<in> set d. is_free st p) \<and> heap_ok st' h (xs @ r # ys') fs' \<and> is_free st' r \<and>
    alloc st' (xs @ r # ys') = alloc st1 (xs @ r # ys) \<and> free_mem st' (xs @ r # ys') = free_mem st1 (xs @ r # ys) \<and>
    span st' h (xs @ r # ys') = span st1 h (xs @ r # ys) \<and> outside st st' (span st1 h (xs @ r # ys)) \<and>
    (\<forall>p \<in> set ys'. attrs st' p = attrs st p)"
proof -
  obtain d ys' fs' where m: "ys = d @ ys'" "\<forall>p \<in> set d. is_free st1 p" "heap_ok st' h (xs @ r # ys') fs'" "is_free st' r"
    "alloc st' (xs @ r # ys') = alloc st1 (xs @ r # ys)" "free_mem st' (xs @ r # ys') = free_mem st1 (xs @ r # ys)"
    "span st' h (xs @ r # ys') = span st1 h (xs @ r # ys)" "outside st1 st' (span st1 h (xs @ r # ys))"
    "\<forall>p \<in> set ys'. attrs st' p = attrs st1 p"
    using merge_next_ok [OF assms(1,2), folded st'_def] by blast
  have "\<forall>p \<in> set d. is_free st p" using m(1,2) same by (simp add: is_free_def)
  moreover have "\<forall>p \<in> set ys'. attrs st' p = attrs st p" using m(1,9) same by simp
  ultimately show ?thesis using m outside_trans [OF assms(3) m(8)] by blast
qed

text \<open>The freed block is gone from the allocated ones and its memory is free; the rest of the heap is as before.\<close>

lemma free_block_effect:
  assumes ok: "heap_ok st h (xs @ q # ys) fs" and us: "\<not> is_free st q"
  shows "\<exists>r st' xs' d ys' fs'. free_block q st = (r, st') \<and> ys = d @ ys' \<and> (\<forall>p \<in> set d. is_free st p) \<and>
    heap_ok st' h (xs' @ r # ys') fs' \<and> is_free st' r \<and>
    alloc st' (xs' @ r # ys') = (alloc st (xs @ q # ys))(q := None) \<and>
    free_mem st' (xs' @ r # ys') = free_mem st (xs @ q # ys) \<union> region st q \<and>
    span st' h (xs' @ r # ys') = span st h (xs @ q # ys) \<and> outside st st' (span st h (xs @ q # ys)) \<and>
    (\<forall>p \<in> set ys'. attrs st' p = attrs st p)"
proof -
  note D = heap_okD [OF ok]
  have hh: "ARENA_HEAP_GET (attrs st q) = h" using D(5) by (simp add: block_ok_def)
  have qn: "q \<notin> set xs \<union> set ys" using D(1) by (auto simp: ring_def)
  obtain r st1 xs1 fs1 where fb: "free_block q st = (r, merge_next r (anext st1 r) st1)"
    and okx: "heap_okx r st1 h (xs1 @ r # ys) fs1" "is_free st1 r"
    and al: "alloc st1 (xs1 @ r # ys) = (alloc st (xs @ q # ys))(q := None)"
    and fm: "free_mem st1 (xs1 @ r # ys) = free_mem st (xs @ q # ys) \<union> region st q"
    and sp: "span st1 h (xs1 @ r # ys) = span st h (xs @ q # ys)"
    and out: "outside st st1 (span st h (xs @ q # ys))" and same: "\<forall>p \<in> set ys. attrs st1 p = attrs st p"
  proof (cases "is_free st (aprev st q) \<and> aprev st q + asize st (aprev st q) = q")
    case True
    let ?p = "aprev st q"
    have "?p = last (mhead st h # xs)" using ring_at(2) [OF D(1)] .
    then obtain xs1 where xs: "xs = xs1 @ [?p]" using True D(6) by (cases xs rule: rev_cases) auto
    have ok0: "heap_ok st h (xs1 @ ?p # q # ys) fs" using ok xs by simp
    define st1 where "st1 = absorb_prev ?p q (anext st q) st"
    note S = absorb_prev_ok [OF ok0 conjunct1 [OF True] us conjunct2 [OF True], folded st1_def]
    have fb: "free_block q st = (?p, merge_next ?p (anext st1 ?p) st1)" using True S(8) by (simp add: free_block_def st1_def Let_def)
    have ns: "?p \<notin> set xs1 \<union> set ys" "?p \<noteq> q" using D(1) xs by (auto simp: ring_def)
    have mh: "mhead st1 = mhead st" using S(6) by (simp add: outside_def)
    have ok1: "heap_okx 0 st h (xs1 @ [?p, q] @ ys) fs" "heap_okx ?p st1 h (xs1 @ [?p] @ ys) fs" using ok0 S(1) by simp_all
    have oth: "attrs st1 u = attrs st u \<and> atag st1 u = atag st u" if "u \<in> set xs1 \<union> set ys" for u
      using that ns S(4) [of u] S(5) by auto
    then have oth': "\<forall>u \<in> set xs1 \<union> set ys. attrs st1 u = attrs st u \<and> atag st1 u = atag st u" by blast
    note V = view_mid [OF ok1 oth' mh]
    have bs: "xs1 @ [?p, q] @ ys = xs @ q # ys" using xs by simp
    have reg: "region st1 ?p = region st ?p \<union> region st q" using S(3) True by (auto simp: region_def)
    have "alloc st1 (xs1 @ [?p] @ ys) = (alloc st (xs @ q # ys))(q := None)"
      unfolding V(1) bs using S(2) True ns by (auto simp: view_Cons fun_eq_iff alloc_def)
    moreover have "region st ?p \<subseteq> free_mem st (xs @ q # ys)" using True xs by (auto simp: free_mem_def)
    then have "free_mem st1 (xs1 @ [?p] @ ys) = free_mem st (xs @ q # ys) \<union> region st q"
      unfolding V(2) bs using S(2) reg by (auto simp: view_Cons)
    moreover have "span st1 h (xs1 @ [?p] @ ys) = span st h (xs @ q # ys)" using V(3) reg unfolding bs by simp
    moreover have "\<forall>u \<in> set ys. attrs st1 u = attrs st u" using oth by simp
    ultimately show thesis using that [OF fb S(1,2)] S(6) xs by simp
  next
    case False
    define st1 where "st1 = push_free q (mhead st h) (set_tag q MALLOC_FREE (set_type q ARENA_TYPE_FREE st))"
    note S = push_free_ok [OF ok us False, folded st1_def]
    have fb: "free_block q st = (q, merge_next q (anext st1 q) st1)" using False S(7) hh by (auto simp: free_block_def st1_def Let_def)
    have mh: "mhead st1 = mhead st" using S(6) by (simp add: outside_def)
    have ok1: "heap_okx 0 st h (xs @ [q] @ ys) fs" "heap_okx q st1 h (xs @ [q] @ ys) (q # fs)" using ok S(1) by simp_all
    have oth: "attrs st1 u = attrs st u \<and> atag st1 u = atag st u" if "u \<in> set xs \<union> set ys" for u
    proof -
      have "u \<noteq> q" using that qn by auto
      then show ?thesis using S(4,5) by simp
    qed
    then have oth': "\<forall>u \<in> set xs \<union> set ys. attrs st1 u = attrs st u \<and> atag st1 u = atag st u" by blast
    note V = view_mid [OF ok1 oth' mh]
    have reg: "region st1 q = region st q" using S(3) by (simp add: region_def)
    have "alloc st1 (xs @ [q] @ ys) = (alloc st (xs @ q # ys))(q := None)"
      unfolding V(1) using S(2) by (auto simp: view_Cons)
    moreover have "free_mem st1 (xs @ [q] @ ys) = free_mem st (xs @ q # ys) \<union> region st q"
      unfolding V(2) using S(2) reg by (auto simp: view_Cons)
    moreover have "span st1 h (xs @ [q] @ ys) = span st h (xs @ q # ys)" using V(3) reg by simp
    moreover have "\<forall>u \<in> set ys. attrs st1 u = attrs st u" using oth by simp
    ultimately show thesis using that [OF fb S(1,2)] S(6) by simp
  qed
  from merge_finish [OF okx out [folded sp] same] fb al fm sp show ?thesis by simp blast
qed

end
