(* ===== verification/HeapOps.thy ===== *)
theory HeapOps
  imports Heap
begin

section \<open>The memory allocator: its operations\<close>

text \<open>
  What \<open>bios_free\<close>, \<open>__free_tagged\<close>, \<open>__inject_free_block\<close> and \<open>bios_realloc\<close> do to the allocated blocks and the free memory of a
  heap, on top of the lemmas on single blocks of the theory \<open>Heap\<close>.
\<close>

subsection \<open>Steps of one heap\<close>

lemma heap_stepE:
  assumes "heap_step st h bs al fr st'"
  obtains bs' fs' where "heap_ok st' h bs' fs'" "alloc st' bs' = al" "free_mem st' bs' = fr" "span st' h bs' = span st h bs"
    "outside st st' (span st h bs)"
  using assms by (auto simp: heap_step_def)

lemma alloc_Some: "alloc st bs p = Some (n, t) \<longleftrightarrow> p \<in> set bs \<and> \<not> is_free st p \<and> n = asize st p \<and> t = atag st p"
  by (auto simp: alloc_def)

lemma free_block_step:
  assumes ok: "heap_ok st h bs fs" and al: "alloc st bs q = Some (n, t)"
  shows "heap_step st h bs ((alloc st bs)(q := None)) (free_mem st bs \<union> {q..<q + n}) (snd (free_block q st))"
proof -
  have q: "q \<in> set bs" "\<not> is_free st q" "n = asize st q" using al by (auto simp: alloc_Some)
  obtain xs ys where bs: "bs = xs @ q # ys" using q(1) by (meson split_list)
  obtain r st' xs' ys' fs' where "free_block q st = (r, st')" "heap_ok st' h (xs' @ r # ys') fs'"
    "alloc st' (xs' @ r # ys') = (alloc st bs)(q := None)" "free_mem st' (xs' @ r # ys') = free_mem st bs \<union> region st q"
    "span st' h (xs' @ r # ys') = span st h bs" "outside st st' (span st h bs)"
    using free_block_effect [OF ok [unfolded bs] q(2)] bs by blast
  then show ?thesis unfolding heap_step_def using q(3) by (auto simp: region_def)
qed

lemma bios_free_step:
  assumes "heap_ok st h bs fs" and "alloc st bs q = Some (n, t)"
  shows "heap_step st h bs ((alloc st bs)(q := None)) (free_mem st bs \<union> {q..<q + n}) (bios_free (q + 16) st)"
  using free_block_step [OF assms] by (simp add: bios_free_def)

subsection \<open>All blocks of a tag\<close>

definition tagged :: "nat \<Rightarrow> (ptr \<rightharpoonup> nat \<times> nat) \<Rightarrow> ptr set \<Rightarrow> ptr set" where
  "tagged tag al A = {p \<in> A. \<exists>n. al p = Some (n, tag)}"

definition memory :: "(ptr \<rightharpoonup> nat \<times> nat) \<Rightarrow> ptr set \<Rightarrow> ptr set" where
  "memory al A = (\<Union>p \<in> A. case al p of None \<Rightarrow> {} | Some (n, _) \<Rightarrow> {p..<p + n})"

lemma free_tagged_loop_effect:
  assumes "heap_ok st h (xs @ ys) fs"
  shows "\<exists>st' bs' fs'. free_tagged_loop tag (mhead st h) st (hd (ys @ [mhead st h])) = Some st' \<and> heap_ok st' h bs' fs' \<and>
    alloc st' bs' = (alloc st (xs @ ys)) |` (- tagged tag (alloc st (xs @ ys)) (set ys)) \<and>
    free_mem st' bs' = free_mem st (xs @ ys) \<union> memory (alloc st (xs @ ys)) (tagged tag (alloc st (xs @ ys)) (set ys)) \<and>
    span st' h bs' = span st h (xs @ ys) \<and> outside st st' (span st h (xs @ ys))"
  using assms
proof (induction "length ys" arbitrary: st xs ys fs rule: less_induct)
  case less
  note D = heap_okD [OF less.prems]
  show ?case
  proof (cases ys)
    case Nil
    have "free_tagged_loop tag (mhead st h) st (hd (ys @ [mhead st h])) = Some st"
      using Nil by (subst free_tagged_loop.simps) simp
    moreover have "alloc st (xs @ ys) = alloc st (xs @ ys) |` (- tagged tag (alloc st (xs @ ys)) (set ys))"
      using Nil by (simp add: tagged_def restrict_map_def)
    moreover have "free_mem st (xs @ ys) = free_mem st (xs @ ys) \<union> memory (alloc st (xs @ ys)) (tagged tag (alloc st (xs @ ys)) (set ys))"
      using Nil by (simp add: tagged_def memory_def)
    moreover have "outside st st (span st h (xs @ ys))" by (simp add: outside_def)
    ultimately show ?thesis using less.prems by metis
  next
    case (Cons q zs)
    have nh: "q \<noteq> mhead st h" using D(1) Cons by (auto simp: ring_def)
    let ?al = "alloc st (xs @ ys)"
    show ?thesis
    proof (cases "ARENA_TYPE_GET (attrs st q) = ARENA_TYPE_USED \<and> atag st q = tag")
      case True
      then have us: "\<not> is_free st q" by (simp add: is_free_def arena_simps)
      obtain r st1 xs' d ys' fs' where fb: "free_block q st = (r, st1)" and d: "zs = d @ ys'" "\<forall>p \<in> set d. is_free st p"
        and ok1: "heap_ok st1 h (xs' @ r # ys') fs'" and al1: "alloc st1 (xs' @ r # ys') = ?al(q := None)"
        and fm1: "free_mem st1 (xs' @ r # ys') = free_mem st (xs @ ys) \<union> region st q"
        and sp1: "span st1 h (xs' @ r # ys') = span st h (xs @ ys)" and out1: "outside st st1 (span st h (xs @ ys))"
        using free_block_effect [OF less.prems [unfolded Cons] us] Cons by blast
      have mh: "mhead st1 = mhead st" using out1 by (simp add: outside_def)
      have nx: "anext st1 r = hd (ys' @ [mhead st h])" using ring_at(1) [OF heap_okD(1) [OF ok1]] mh by simp
      have loop: "free_tagged_loop tag (mhead st h) st (hd (ys @ [mhead st h])) = free_tagged_loop tag (mhead st1 h) st1 (hd (ys' @ [mhead st1 h]))"
        using nh True fb nx mh Cons by (subst free_tagged_loop.simps) simp
      have ok1': "heap_ok st1 h ((xs' @ [r]) @ ys') fs'" using ok1 by simp
      have "length ys' < length ys" using d(1) Cons by simp
      from less.hyps [OF this ok1'] obtain st' bs' fs2 where
        s: "free_tagged_loop tag (mhead st1 h) st1 (hd (ys' @ [mhead st1 h])) = Some st'" "heap_ok st' h bs' fs2"
        and al: "alloc st' bs' = (?al(q := None)) |` (- tagged tag (?al(q := None)) (set ys'))"
        and fm: "free_mem st' bs' = free_mem st (xs @ ys) \<union> region st q \<union> memory (?al(q := None)) (tagged tag (?al(q := None)) (set ys'))"
        and sp: "span st' h bs' = span st h (xs @ ys)" and out: "outside st1 st' (span st h (xs @ ys))"
        using al1 fm1 sp1 by auto
      have nq: "q \<notin> set ys'" using D(1) Cons d(1) by (auto simp: ring_def)
      have qa: "?al q = Some (asize st q, tag)" using True us Cons by (simp add: alloc_def)
      have da: "?al p = None" if "p \<in> set d" for p using d(2) that by (simp add: alloc_def)
      have tg: "tagged tag ?al (set ys) = insert q (tagged tag (?al(q := None)) (set ys'))"
        using qa da nq d(1) Cons by (auto simp: tagged_def)
      have mem: "memory ?al (insert q A) = region st q \<union> memory (?al(q := None)) A" if "q \<notin> A" for A
        using qa that by (auto simp: memory_def region_def split: if_splits option.splits)
      have "q \<notin> tagged tag (?al(q := None)) (set ys')" by (simp add: tagged_def)
      note mem = mem [OF this]
      have "alloc st' bs' = ?al |` (- tagged tag ?al (set ys))" unfolding al tg by (auto simp: restrict_map_def)
      moreover have "free_mem st' bs' = free_mem st (xs @ ys) \<union> memory ?al (tagged tag ?al (set ys))" unfolding fm tg mem by blast
      ultimately show ?thesis using loop s sp outside_trans [OF out1 out] by auto
    next
      case False
      have nt: "\<not> (?al q = Some (n, tag))" for n
      proof
        assume "?al q = Some (n, tag)"
        then have "\<not> is_free st q" "atag st q = tag" by (auto simp: alloc_Some)
        moreover have "block_ok st h q" using D(5) Cons by simp
        ultimately show False using False block_okD(6) by blast
      qed
      have "heap_ok st h ((xs @ [q]) @ zs) fs" using less.prems Cons by simp
      moreover have "length zs < length ys" using Cons by simp
      moreover have loop: "free_tagged_loop tag (mhead st h) st (hd (ys @ [mhead st h])) = free_tagged_loop tag (mhead st h) st (hd (zs @ [mhead st h]))"
        using nh False Cons ring_at(1) [of "anext st" "aprev st" "mhead st h" xs q zs] D(1) by (subst free_tagged_loop.simps) auto
      moreover have "tagged tag ?al (set ys) = tagged tag ?al (set zs)" using nt Cons by (auto simp: tagged_def)
      ultimately show ?thesis using less.hyps [of zs st "xs @ [q]" fs] Cons by simp
    qed
  qed
qed

lemma free_tagged_heap:
  assumes ok: "heap_ok st h bs fs"
  shows "\<exists>st'. free_tagged_loop tag (mhead st h) st (anext st (mhead st h)) = Some st' \<and>
    heap_step st h bs (alloc st bs |` (- tagged tag (alloc st bs) (set bs)))
      (free_mem st bs \<union> memory (alloc st bs) (tagged tag (alloc st bs) (set bs))) st'"
proof -
  have "anext st (mhead st h) = hd (bs @ [mhead st h])" using heap_okD(1) [OF ok] seg_nx unfolding ring_def by blast
  then show ?thesis using free_tagged_loop_effect [of st h "[]" bs fs tag] ok unfolding heap_step_def by auto
qed

subsection \<open>New memory\<close>

lemma inject_seek_seg:
  "seg (anext st) (aprev st) a ws head \<Longrightarrow> head \<notin> set ws \<Longrightarrow> \<forall>p \<in> set ws. p + asize st p < 2 ^ 32 \<Longrightarrow>
   inject_seek st head ah a_end (anext st a) =
     Some (case dropWhile (\<lambda>p. p < a_end \<and> p + asize st p \<le> ah) ws of [] \<Rightarrow> Some head | p # _ \<Rightarrow> if a_end \<le> p then Some p else None)"
proof (induction ws arbitrary: a)
  case Nil
  then show ?case by (subst inject_seek.simps) simp
next
  case (Cons p ws)
  then show ?case by (subst inject_seek.simps) auto
qed

lemma ring_insert_between:
  assumes r: "ring nx pv h (xs @ ys)" and q: "q \<notin> set (h # xs @ ys)" and n: "n = hd (ys @ [h])"
  shows "ring (nx(pv n := q, q := n)) (pv(q := pv n, n := q)) h (xs @ q # ys)"
proof (cases ys)
  case Nil
  then show ?thesis using ring_insert_before [of nx pv h xs q] r q n by simp
next
  case (Cons y zs)
  then show ?thesis using ring_insert_before_at [of nx pv h xs y zs q] r q n by simp
qed

text \<open>
  The block is in memory that the heap does not own: it is linked in and freed. The header of the new block, which the caller
  has filled in, is at \<open>ah\<close>.
\<close>

definition new_block :: "arena \<Rightarrow> u32 \<Rightarrow> ptr \<Rightarrow> nat \<Rightarrow> bool" where
  "new_block st h ah n \<longleftrightarrow> 32 \<le> ah \<and> 32 \<le> n \<and> ah + n < 2 ^ 32 \<and> asize st ah = n \<and> ARENA_HEAP_GET (attrs st ah) = h \<and>
     ARENA_TYPE_GET (attrs st ah) = ARENA_TYPE_USED"

lemma link_new_block:
  assumes ok: "heap_ok st h bs fs" and new: "new_block st h ah n" and disj: "span st h bs \<inter> {ah..<ah + n} = {}"
  defines "xs \<equiv> takeWhile (\<lambda>p. p < ah + n \<and> p + asize st p \<le> ah) bs" and "ys \<equiv> dropWhile (\<lambda>p. p < ah + n \<and> p + asize st p \<le> ah) bs"
  defines "nah \<equiv> hd (ys @ [mhead st h])"
  defines "st' \<equiv> st\<lparr>aprev := (aprev st)(ah := aprev st nah, nah := ah), anext := (anext st)(aprev st nah := ah, ah := nah)\<rparr>"
  shows "heap_ok st' h (xs @ ah # ys) fs" and "inject_seek st (mhead st h) ah (ah + n) (anext st (mhead st h)) = Some (Some nah)"
    and "nah \<noteq> ah" and "aprev st nah \<noteq> ah"
    and "alloc st' (xs @ ah # ys) = (alloc st bs)(ah \<mapsto> (n, atag st ah))" and "free_mem st' (xs @ ah # ys) = free_mem st bs"
    and "span st' h (xs @ ah # ys) = span st h bs \<union> {ah..<ah + n}" and "outside st st' (span st h bs \<union> {ah..<ah + n})"
proof -
  note D = heap_okD [OF ok]
  have bs: "bs = xs @ ys" by (simp add: xs_def ys_def)
  have N: "32 \<le> ah" "32 \<le> n" "ah + n < 2 ^ 32" "asize st ah = n" using new by (auto simp: new_block_def)
  have blk: "p + asize st p \<le> ah \<or> ah + n \<le> p" if "p \<in> set bs" for p
  proof (rule ccontr)
    assume a: "\<not> (p + asize st p \<le> ah \<or> ah + n \<le> p)"
    have "32 \<le> asize st p" using D(5) [OF that] by (simp add: block_ok_def)
    then have "max p ah \<in> region st p \<inter> {ah..<ah + n}" using a N(2) by (auto simp: region_def)
    moreover have "region st p \<subseteq> span st h bs" using that by (auto simp: span_def)
    ultimately show False using disj by auto
  qed
  have fresh: "ah \<notin> set (mhead st h # bs)" using block_in_span [OF ok, of ah] disj N(2) by auto
  have xp: "p + asize st p \<le> ah" if "p \<in> set xs" for p using that set_takeWhileD [of p _ bs] by (auto simp: xs_def)
  have yp: "ah + n \<le> p" if p: "p \<in> set ys" for p
  proof -
    obtain z zs where ys: "ys = z # zs" using p by (cases ys) auto
    have "\<not> (z < ah + n \<and> z + asize st z \<le> ah)" using ys hd_dropWhile [of _ bs] unfolding ys_def by (metis list.sel(1) list.distinct(1))
    moreover have "0 < asize st z" using D(5) [of z] bs ys by (auto simp: block_ok_def)
    ultimately have z: "ah + n \<le> z" using blk [of z] bs ys N(2) by auto
    have "apart 0 st z p \<or> p = z" using D(4) p unfolding bs ys by (auto simp: sorted_wrt_append)
    then show ?thesis using z by (auto simp: apart_def)
  qed
  have seg: "seg (anext st) (aprev st) (mhead st h) bs (mhead st h)" "mhead st h \<notin> set bs" using D(1) by (auto simp: ring_def)
  have lim: "\<forall>p \<in> set bs. p + asize st p < 2 ^ 32" using D(5) by (simp add: block_ok_def)
  show "inject_seek st (mhead st h) ah (ah + n) (anext st (mhead st h)) = Some (Some nah)"
    unfolding inject_seek_seg [OF seg lim] nah_def ys_def [symmetric] using yp by (cases ys) auto
  have nm: "nah \<in> set (mhead st h # bs)" unfolding nah_def bs by (cases ys) auto
  then show "nah \<noteq> ah" using fresh by auto
  have pm: "aprev st nah \<in> set (mhead st h # bs)" using ring_links_in(2) [OF D(1) nm] .
  then show "aprev st nah \<noteq> ah" using fresh by auto
  have at: "attrs st' = attrs st" "atag st' = atag st" "mhead st' = mhead st" by (simp_all add: st'_def)
  have same: "asize st' = asize st" "is_free st' = is_free st" "region st' = region st"
    by (auto simp: fun_eq_iff asize_def is_free_def region_def at)
  have us: "\<not> is_free st ah" using new by (simp add: new_block_def is_free_def arena_simps)
  have mn: "mhead st h \<notin> {ah..<ah + n}" using disj by (auto simp: span_def)
  have "heap_ok st' h (xs @ [ah] @ ys) fs"
  proof (rule heap_ok_mid [of 0 st h xs "[]" ys fs])
    have "ring (anext st) (aprev st) (mhead st h) (xs @ ys)" "ah \<notin> set (mhead st h # xs @ ys)" using D(1) fresh bs by auto
    from ring_insert_between [OF this, of nah] show "ring (anext st') (aprev st') (mhead st h) (xs @ [ah] @ ys)"
      by (simp add: st'_def nah_def)
    show "ring (fnext st') (fprev st') (mhead st h) fs" using D(2) by (simp add: st'_def)
    show "block_ok st' h u" if "u \<in> set [ah]" for u
      using that new mn by (auto simp: new_block_def block_ok_def region_def same at)
    show "apart 0 st' y m" if "y \<in> set xs" "m \<in> set [ah]" for y m using xp [OF that(1)] that us by (simp add: apart_def same)
    show "apart 0 st' m y" if "m \<in> set [ah]" "y \<in> set ys" for m y using yp [OF that(2)] that us N(4) by (simp add: apart_def same)
    show "set fs = set fs - set [] \<union> {p \<in> set [ah]. is_free st' p}" using us by (auto simp: same)
  qed (use ok bs at in auto)
  then show "heap_ok st' h (xs @ ah # ys) fs" by simp
  show "alloc st' (xs @ ah # ys) = (alloc st bs)(ah \<mapsto> (n, atag st ah))"
    using us N(4) fresh by (auto simp: alloc_def bs same at fun_eq_iff)
  show "free_mem st' (xs @ ah # ys) = free_mem st bs" using us by (auto simp: free_mem_def bs same)
  show "span st' h (xs @ ah # ys) = span st h bs \<union> {ah..<ah + n}" using N(4) by (auto simp: span_def bs same at region_def)
  have "nah \<in> span st h bs" "aprev st nah \<in> span st h bs" using block_in_span [OF ok] nm pm by auto
  then show "outside st st' (span st h bs \<union> {ah..<ah + n})" using N(2) by (auto simp: outside_def st'_def)
qed

lemma inject_free_block_effect:
  assumes ok: "heap_ok st h bs fs" and new: "new_block st h ah n" and disj: "span st h bs \<inter> {ah..<ah + n} = {}"
  shows "\<exists>st' bs' fs'. inject_free_block ah st = Some st' \<and> heap_ok st' h bs' fs' \<and> alloc st' bs' = alloc st bs \<and>
    free_mem st' bs' = free_mem st bs \<union> {ah..<ah + n} \<and> span st' h bs' = span st h bs \<union> {ah..<ah + n} \<and>
    outside st st' (span st h bs \<union> {ah..<ah + n})"
proof -
  let ?P = "\<lambda>p. p < ah + n \<and> p + asize st p \<le> ah"
  define xs ys where "xs = takeWhile ?P bs" and "ys = dropWhile ?P bs"
  define nah where "nah = hd (ys @ [mhead st h])"
  define st1 where "st1 = st\<lparr>aprev := (aprev st)(ah := aprev st nah, nah := ah), anext := (anext st)(aprev st nah := ah, ah := nah)\<rparr>"
  note L = link_new_block [OF ok new disj, folded xs_def ys_def, folded nah_def, folded st1_def]
  have N: "asize st ah = n" "ah + n < 2 ^ 32" "ARENA_HEAP_GET (attrs st ah) = h" "0 < n" using new by (auto simp: new_block_def)
  have "ah \<notin> set bs" using block_in_span [OF ok, of ah] disj N(4) by auto
  then have na: "alloc st bs ah = None" by (simp add: alloc_def)
  have "inject_free_block ah st = Some (snd (free_block ah st1))"
    using L(2-4) N by (simp add: inject_free_block_def Let_def st1_def fun_upd_twist [of ah])
  moreover have "alloc st1 (xs @ ah # ys) ah = Some (n, atag st ah)" unfolding L(5) by simp
  from free_block_step [OF L(1) this] obtain bs' fs' where
    s: "heap_ok (snd (free_block ah st1)) h bs' fs'" "alloc (snd (free_block ah st1)) bs' = (alloc st1 (xs @ ah # ys))(ah := None)"
      "free_mem (snd (free_block ah st1)) bs' = free_mem st1 (xs @ ah # ys) \<union> {ah..<ah + n}"
      "span (snd (free_block ah st1)) h bs' = span st1 h (xs @ ah # ys)" "outside st1 (snd (free_block ah st1)) (span st1 h (xs @ ah # ys))"
    by (rule heap_stepE)
  moreover have "alloc (snd (free_block ah st1)) bs' = alloc st bs" unfolding s(2) L(5) using na by auto
  moreover have "outside st (snd (free_block ah st1)) (span st h bs \<union> {ah..<ah + n})"
    using outside_trans [OF L(8)] s(5) L(7) by simp
  ultimately show ?thesis using L(6,7) by auto
qed

text \<open>A block that overlaps one of the heap is refused.\<close>

lemma inject_free_block_conflict:
  assumes ok: "heap_ok st h bs fs" and new: "new_block st h ah n" and p: "p \<in> set bs" "p < ah + n" "ah < p + asize st p"
  shows "inject_free_block ah st = Some st"
proof -
  note D = heap_okD [OF ok]
  let ?P = "\<lambda>p. p < ah + n \<and> p + asize st p \<le> ah"
  have N: "asize st ah = n" "ah + n < 2 ^ 32" "ARENA_HEAP_GET (attrs st ah) = h" using new by (auto simp: new_block_def)
  obtain z zs where d: "dropWhile ?P bs = z # zs" using p by (cases "dropWhile ?P bs") auto
  have nz: "\<not> ?P z" using d hd_dropWhile [of ?P bs] by auto
  have b: "bs = takeWhile ?P bs @ z # zs" using takeWhile_dropWhile_id [of ?P bs] d by simp
  have "p \<notin> set (takeWhile ?P bs)" using p set_takeWhileD [of p ?P bs] by auto
  then have "p = z \<or> p \<in> set zs" using p(1) b by (metis Un_iff set_ConsD set_append)
  moreover have "z \<le> p" if "p \<in> set zs"
  proof -
    have "sorted_wrt (apart 0 st) (takeWhile ?P bs @ z # zs)" using D(4) b by simp
    then have "apart 0 st z p" using that by (auto simp: sorted_wrt_append)
    then show ?thesis by (simp add: apart_def)
  qed
  ultimately have z: "z < ah + n" using p(2) by auto
  have seg: "seg (anext st) (aprev st) (mhead st h) bs (mhead st h)" "mhead st h \<notin> set bs" using D(1) by (auto simp: ring_def)
  have lim: "\<forall>p \<in> set bs. p + asize st p < 2 ^ 32" using D(5) by (simp add: block_ok_def)
  have "inject_seek st (mhead st h) ah (ah + n) (anext st (mhead st h)) = Some None"
    unfolding inject_seek_seg [OF seg lim] d using z by simp
  then show ?thesis using N by (simp add: inject_free_block_def)
qed

subsection \<open>Changing the size in place\<close>

lemma absorb_next_eq:
  assumes "nah \<noteq> ah" and "fnext st nah \<noteq> nah"
  shows "absorb_next ah nah st =
    st\<lparr>anext := (anext st)(ah := anext st nah), aprev := (aprev st)(anext st nah := ah),
       fnext := (fnext st)(fprev st nah := fnext st nah), fprev := (fprev st)(fnext st nah := fprev st nah),
       attrs := (attrs st)(ah := ARENA_SIZE_SET (attrs st ah) (ARENA_SIZE_GET (attrs st ah) + ARENA_SIZE_GET (attrs st nah)))\<rparr>"
  using assms by (simp add: absorb_next_def set_size_def unlink_free_eq Let_def)

lemma absorb_next_ok:
  assumes ok: "heap_ok st h (xs @ p # q # ys) fs" and us: "\<not> is_free st p" and fr: "is_free st q" and adj: "p + asize st p = q"
  defines "st' \<equiv> absorb_next p q st"
  shows "\<exists>fs'. heap_ok st' h (xs @ p # ys) fs'" and "\<not> is_free st' p" and "asize st' p = asize st p + asize st q"
    and "u \<noteq> p \<Longrightarrow> attrs st' u = attrs st u" and "atag st' = atag st" and "outside st st' (span st h (xs @ p # q # ys))"
    and "y \<in> set ys \<Longrightarrow> is_free st' y \<Longrightarrow> p + asize st' p \<noteq> y"
proof -
  note D = heap_okD [OF ok]
  have B: "block_ok st h p" "block_ok st h q" using D(5) by simp_all
  note b = block_okD [OF B(1)]
  note c = block_okD [OF B(2)]
  have ok2: "heap_ok st h ((xs @ [p]) @ q # ys) fs" using ok by simp
  note D2 = heap_okD [OF ok2]
  have "q \<in> set fs" using D(3) fr by simp
  then obtain us vs where fs: "fs = us @ q # vs" by (meson split_list)
  have rf: "ring (fnext st) (fprev st) (mhead st h) (us @ q # vs)" using D(2) fs by simp
  have qp: "q \<noteq> p" using D(1) by (auto simp: ring_def)
  note F = absorb_next_eq [OF qp ring_at(3) [OF rf], folded st'_def]
  show up: "\<not> is_free st' p" using us by (simp add: is_free_def F arena_simps)
  show sp: "asize st' p = asize st p + asize st q" using size_sum [OF B(1), of q] c(3) adj by (simp add: asize_def F)
  show oth: "attrs st' u = attrs st u" if "u \<noteq> p" for u using that by (simp add: F)
  show "atag st' = atag st" by (simp add: F)
  have ns: "p \<notin> set xs \<union> set ys \<union> {mhead st h}" using D(1) by (auto simp: ring_def)
  have sub: "set (mhead st h # fs) \<subseteq> set (mhead st h # xs @ p # q # ys)" using D(3) by auto
  have "fnext st q \<in> set (mhead st h # fs)" "fprev st q \<in> set (mhead st h # fs)"
    using ring_links_in [OF D(2), of q] fs by auto
  moreover have "anext st q \<in> set (mhead st h # xs @ p # q # ys)" using ring_links_in(1) [OF D(1), of q] by auto
  ultimately have "p \<in> span st h (xs @ p # q # ys)" "fnext st q \<in> span st h (xs @ p # q # ys)" "fprev st q \<in> span st h (xs @ p # q # ys)"
    "anext st q \<in> span st h (xs @ p # q # ys)" using block_in_span [OF ok] sub by auto
  then show "outside st st' (span st h (xs @ p # q # ys))" unfolding outside_def F by auto
  note A = heap_around [OF ok]
  note A2 = heap_around [OF ok2]
  show "p + asize st' p \<noteq> y" if "y \<in> set ys" "is_free st' y"
  proof -
    have "y \<noteq> p" using that(1) ns by auto
    then have "is_free st y" using oth [of y] that by (simp add: is_free_def)
    then show ?thesis using A2(4) [OF that(1)] A2(5) fr sp adj by simp
  qed
  have "heap_ok st' h (xs @ [p] @ ys) (us @ vs)"
  proof (rule heap_ok_mid [of 0 st h xs "[p, q]" ys "us @ q # vs"])
    have "aprev st q = p" using ring_at(2) [OF D2(1)] by simp
    then show "ring (anext st') (aprev st') (mhead st h) (xs @ [p] @ ys)" using ring_unlink [OF D2(1)] by (simp add: F)
    show "ring (fnext st') (fprev st') (mhead st h) (us @ vs)" using ring_unlink [OF rf] by (simp add: F)
    have "p \<notin> set fs" using D(3) us by simp
    moreover have "q \<notin> set us \<union> set vs" using rf by (auto simp: ring_def)
    ultimately show "set (us @ vs) = set (us @ q # vs) - set [p, q] \<union> {u \<in> set [p]. is_free st' u}" using up fs by auto
    show "block_ok st' h u" if "u \<in> set [p]" for u
      using that b c(3,5) adj sp us by (auto simp: block_ok_def region_def F arena_simps is_free_def)
    show "apart 0 st' y m" if "y \<in> set xs" "m \<in> set [p]" for y m
    proof -
      have "attrs st' y = attrs st y" using oth [of y] ns that by auto
      then show ?thesis using A(1) [OF that(1)] that up by (auto simp: apart_def arena_attrs)
    qed
    show "apart 0 st' m y" if "m \<in> set [p]" "y \<in> set ys" for m y using A2(3) [OF that(2)] that adj sp up by (auto simp: apart_def)
  qed (use ok fs oth ns in \<open>auto simp: F\<close>)
  then show "\<exists>fs'. heap_ok st' h (xs @ p # ys) fs'" by auto
qed

lemma append_free_eq:
  "nah \<noteq> head \<Longrightarrow> append_free nah head st =
    st\<lparr>fprev := (fprev st)(nah := fprev st head, head := nah), fnext := (fnext st)(nah := head, fprev st head := nah)\<rparr>"
  by (simp add: append_free_def Let_def)

lemma tail_headers_eq:
  "nah \<noteq> ah \<Longrightarrow> tail_headers ah nah newsize xsize st =
    st\<lparr>attrs := (attrs st)(nah := ARENA_HEAP_SET (ARENA_SIZE_SET (ARENA_TYPE_SET (attrs st nah) ARENA_TYPE_FREE) (xsize - newsize)) (ARENA_HEAP_GET (attrs st ah)),
         ah := ARENA_SIZE_SET (attrs st ah) newsize)\<rparr>"
  by (simp add: tail_headers_def set_type_def set_size_def set_heap_def arena_simps Let_def fun_upd_twist [of ah])

lemma tail_link_eq:
  "nah \<noteq> ah \<Longrightarrow> anext st ah \<noteq> nah \<Longrightarrow> tail_link ah nah st = st\<lparr>anext := (anext st)(nah := anext st ah, ah := nah), aprev := (aprev st)(anext st ah := nah, nah := ah)\<rparr>"
  by (simp add: tail_link_def Let_def)

text \<open>The two ways in which the rest of a block joins the free chain.\<close>

definition join_free :: "bool \<Rightarrow> ptr \<Rightarrow> ptr \<Rightarrow> arena \<Rightarrow> arena" where
  "join_free grown nah head st = (if grown then append_free nah head st else push_free nah head st)"

lemma join_free_ring:
  assumes r: "ring (fnext st) (fprev st) head fs" and n: "nah \<notin> set (head # fs)"
  shows "ring (fnext (join_free grown nah head st)) (fprev (join_free grown nah head st)) head (if grown then fs @ [nah] else nah # fs)"
    and "attrs (join_free grown nah head st) = attrs st" "atag (join_free grown nah head st) = atag st"
    and "anext (join_free grown nah head st) = anext st" "aprev (join_free grown nah head st) = aprev st"
    and "mhead (join_free grown nah head st) = mhead st" "amem (join_free grown nah head st) = amem st"
    and "u \<notin> set (nah # head # fs) \<Longrightarrow> fnext (join_free grown nah head st) u = fnext st u \<and> fprev (join_free grown nah head st) u = fprev st u"
proof -
  have ne: "nah \<noteq> head" using n by auto
  have "fprev st head \<noteq> nah" using ring_links_in(2) [OF r, of head] n by auto
  then show "ring (fnext (join_free grown nah head st)) (fprev (join_free grown nah head st)) head (if grown then fs @ [nah] else nah # fs)"
    using ring_insert_before [OF r n] ring_insert_after [OF r n] ne
    by (simp add: join_free_def append_free_eq push_free_eq fun_upd_twist [of nah])
  have "fprev st head \<in> set (head # fs)" "fnext st head \<in> set (head # fs)" using ring_links_in [OF r, of head] by auto
  then show "fnext (join_free grown nah head st) u = fnext st u \<and> fprev (join_free grown nah head st) u = fprev st u"
    if "u \<notin> set (nah # head # fs)" using that ne by (auto simp: join_free_def append_free_eq push_free_eq)
qed (use n in \<open>simp_all add: join_free_def append_free_eq push_free_eq\<close>)

lemma cut_tail_ok:
  fixes old :: u32
  assumes ok: "heap_ok st h (xs @ p # ys) fs" and us: "\<not> is_free st p" and nt: "\<forall>y \<in> set ys. is_free st y \<longrightarrow> p + asize st p \<noteq> y"
    and sz: "16 dvd unat nw" "32 \<le> unat nw" "unat nw \<le> asize st p"
  defines "st' \<equiv> cut_tail p (mhead st h) old nw (ARENA_SIZE_GET (attrs st p)) st"
  shows "\<exists>m. unat nw \<le> m \<and> m < unat nw + 32 \<and> m \<le> asize st p \<and> heap_step st h (xs @ p # ys) ((alloc st (xs @ p # ys))(p \<mapsto> (m, atag st p)))
    (free_mem st (xs @ p # ys) \<union> {p + m..<p + asize st p}) st'"
proof (cases "unat nw + 32 \<le> asize st p")
  note D = heap_okD [OF ok]
  have B: "block_ok st h p" using D(5) by simp
  note b = block_okD [OF B]
  have fit: "nw + 2 * sizeof_arena_header \<le> ARENA_SIZE_GET (attrs st p) \<longleftrightarrow> unat nw + 32 \<le> asize st p"
    using sz(3) b(1,3) by (simp add: word_le_nat_alt asize_def sizeof_arena_header_def unat_word_ariths)
  {
    case False
    then have "st' = st" using fit by (simp add: st'_def cut_tail_def)
    moreover have "alloc st (xs @ p # ys) = (alloc st (xs @ p # ys))(p \<mapsto> (asize st p, atag st p))" using us by (auto simp: alloc_def)
    moreover have "outside st st (span st h (xs @ p # ys))" by (simp add: outside_def)
    ultimately have "heap_step st h (xs @ p # ys) ((alloc st (xs @ p # ys))(p \<mapsto> (asize st p, atag st p)))
      (free_mem st (xs @ p # ys) \<union> {p + asize st p..<p + asize st p}) st'"
      unfolding heap_step_def using ok by auto
    then show ?thesis using False sz(3) by (intro exI [of _ "asize st p"]) simp
  next
    case True
    let ?n = "p + unat nw"
    have n: "p < ?n" "?n < p + asize st p" using sz True by simp_all
    have new: "?n \<notin> set (mhead st h # xs @ p # ys)" by (rule inside_block [OF ok n])
    have newf: "?n \<notin> set (mhead st h # fs)" using new D(3) by auto
    have an: "anext st p \<noteq> ?n" using ring_links_in(1) [OF D(1), of p] new by auto
    define st1 where "st1 = tail_link p ?n (tail_headers p ?n nw (ARENA_SIZE_GET (attrs st p)) st)"
    have st': "st' = join_free (nw > old) ?n (mhead st h) st1" using True fit by (simp add: st'_def cut_tail_def st1_def join_free_def Let_def)
    have F: "st1 = st\<lparr>attrs := (attrs st)(?n := ARENA_HEAP_SET (ARENA_SIZE_SET (ARENA_TYPE_SET (attrs st ?n) ARENA_TYPE_FREE) (ARENA_SIZE_GET (attrs st p) - nw)) (ARENA_HEAP_GET (attrs st p)),
         p := ARENA_SIZE_SET (attrs st p) nw), anext := (anext st)(?n := anext st p, p := ?n), aprev := (aprev st)(anext st p := ?n, ?n := p)\<rparr>"
      using n an by (simp add: st1_def tail_headers_eq tail_link_eq)
    have r1: "ring (fnext st1) (fprev st1) (mhead st h) fs" using D(2) by (simp add: F)
    note J = join_free_ring [where grown = "nw > old", OF r1 newf, folded st']
    have mh: "mhead st' = mhead st" by (simp add: J F)
    have oth: "attrs st' u = attrs st u" "atag st' u = atag st u" if "u \<noteq> p" "u \<noteq> ?n" for u using that by (simp_all add: J F)
    have s1: "asize st' p = unat nw" using sz(1) n by (simp add: asize_def J F arena_simps size_mask_dvd [THEN iffD2])
    have u1: "\<not> is_free st' p" using us by (simp add: is_free_def J F arena_simps)
    have f1: "is_free st' ?n" using n by (simp add: is_free_def J F arena_simps)
    have s2: "asize st' ?n = asize st p - unat nw"
    proof -
      have "unat (ARENA_SIZE_GET (attrs st p) - nw) = asize st p - unat nw" using sz(3) by (simp add: asize_def unat_sub word_le_nat_alt)
      moreover from this have "16 dvd unat (ARENA_SIZE_GET (attrs st p) - nw)" using asize_dvd [of st p] sz(1) by simp
      ultimately show ?thesis using n by (simp add: asize_def J F arena_simps size_mask_dvd [THEN iffD2])
    qed
    have h1: "ARENA_HEAP_GET (attrs st' p) = h" "ARENA_HEAP_GET (attrs st' ?n) = h" using n by (simp_all add: J F arena_simps flip: b(4))
    have t1: "ARENA_TYPE_GET (attrs st' p) = ARENA_TYPE_USED" using b(6) us by (simp add: J F arena_simps)
    have ne: "u \<noteq> p \<and> u \<noteq> ?n" if "u \<in> set xs \<union> set ys \<union> {mhead st h}" for u using that new D(1) by (auto simp: ring_def)
    note A = heap_around [OF ok]
    have hd: "mhead st h \<notin> {p..<p + asize st p}" using b(5) by (simp add: region_def)
    let ?fs = "if nw > old then fs @ [?n] else ?n # fs"
    have ok': "heap_ok st' h (xs @ [p, ?n] @ ys) ?fs"
    proof (rule heap_ok_mid [of 0 st h xs "[p]" ys fs])
      show "ring (anext st') (aprev st') (mhead st h) (xs @ [p, ?n] @ ys)"
        using ring_insert_at [OF D(1) new] an by (simp add: J F fun_upd_twist)
      show "ring (fnext st') (fprev st') (mhead st h) ?fs" using J(1) .
      show "set ?fs = set fs - set [p] \<union> {u \<in> set [p, ?n]. is_free st' u}" using D(3) us u1 f1 by auto
      show "block_ok st' h u" if "u \<in> set [p, ?n]" for u
        using that b s1 s2 h1 t1 f1 sz True hd n by (auto simp: block_ok_def region_def mh is_free_def)
      show "sorted_wrt (apart 0 st') [p, ?n]" using s1 u1 by (simp add: apart_def)
      show "apart 0 st' y m" if "y \<in> set xs" "m \<in> set [p, ?n]" for y m
        using A(1) [OF that(1)] attrs_cong(1,2) [OF oth(1) mh, of y] ne [of y] that n u1 by (auto simp: apart_def)
      show "apart 0 st' m y" if "m \<in> set [p, ?n]" "y \<in> set ys" for m y
        using A(3) [OF that(2)] attrs_cong(1,2) [OF oth(1) mh, of y] ne [of y] that n u1 s1 s2 nt sz(3) by (auto simp: apart_def)
    qed (use ok oth ne mh in auto)
    have ok0: "heap_ok st h (xs @ [p] @ ys) fs" using ok by simp
    have reg: "region st' ?n = {?n..<p + asize st p}" "region st' p = {p..<?n}" using s1 s2 True by (auto simp: region_def)
    have sub: "set fs \<subseteq> set (xs @ p # ys)" using D(3) by auto
    have "?n \<in> span st h (xs @ p # ys)" using n by (auto simp: span_def region_def)
    moreover have "set (mhead st h # xs @ p # ys) \<subseteq> span st h (xs @ p # ys)" using block_in_span [OF ok] by blast
    moreover have "anext st p \<in> set (mhead st h # xs @ p # ys)" using ring_links_in(1) [OF D(1), of p] by simp
    moreover have links: "fnext st' u = fnext st u \<and> fprev st' u = fprev st u" if "u \<notin> set (?n # mhead st h # fs)" for u
      using J(8) [OF that] by (simp add: F)
    ultimately have out: "outside st st' (span st h (xs @ [p] @ ys))"
      unfolding outside_def using links sub by (auto simp: J(2-7) F)
    have "heap_step st h (xs @ [p] @ ys) (\<lambda>u. if u \<in> set [p] \<union> set [p, ?n] then alloc st' [p, ?n] u else alloc st (xs @ [p] @ ys) u)
      (free_mem st (xs @ [p] @ ys) - (\<Union>u \<in> set [p]. region st u) \<union> free_mem st' [p, ?n]) st'"
      by (rule heap_step_mid [OF ok0 ok' _ _ out]) (use oth ne n reg in \<open>auto simp: region_def\<close>)
    moreover have "(\<lambda>u. if u \<in> set [p] \<union> set [p, ?n] then alloc st' [p, ?n] u else alloc st (xs @ [p] @ ys) u) =
        (alloc st (xs @ p # ys))(p \<mapsto> (unat nw, atag st p))"
      using s1 u1 f1 n new by (auto simp: view_Cons alloc_def fun_eq_iff J F)
    moreover have "free_mem st xs \<inter> region st p = {}" "free_mem st ys \<inter> region st p = {}" using free_mem_apart [OF ok] .
    then have "free_mem st (xs @ [p] @ ys) - (\<Union>u \<in> set [p]. region st u) \<union> free_mem st' [p, ?n] =
        free_mem st (xs @ p # ys) \<union> {?n..<p + asize st p}"
      using u1 f1 us reg n by (auto simp: view_Cons view_append)
    ultimately show ?thesis using sz(3) by (intro exI [of _ "unat nw"]) simp
  }
qed

text \<open>The block stays in place: it is close enough already, or it is cut, or it grows into the free block behind it.\<close>

lemma heap_step_refl:
  assumes "heap_ok st h bs fs"
  shows "heap_step st h bs (alloc st bs) (free_mem st bs) st"
  using assms by (auto simp: heap_step_def outside_def)

lemma heap_step_trans:
  assumes "heap_step st1 h bs1 al fr st2" and "outside st st1 (span st h bs)" and "span st1 h bs1 = span st h bs"
  shows "heap_step st h bs al fr st2"
  using assms outside_trans unfolding heap_step_def by metis

definition grown :: "arena \<Rightarrow> ptr \<Rightarrow> nat" where
  "grown st q = asize st q + (if anext st q = q + asize st q \<and> is_free st (anext st q) then asize st (anext st q) else 0)"

lemma absorb_next_step:
  fixes old :: u32
  assumes ok: "heap_ok st h (xs @ p # q # ys) fs" and us: "\<not> is_free st p" and fr: "is_free st q" and adj: "p + asize st p = q"
    and sz: "16 dvd unat nw" "32 \<le> unat nw" "unat nw \<le> asize st p + asize st q"
  defines "st1 \<equiv> absorb_next p q st"
  defines "st' \<equiv> cut_tail p (mhead st h) old nw (ARENA_SIZE_GET (attrs st1 p)) st1" and "bs \<equiv> xs @ p # q # ys"
  shows "\<exists>m. unat nw \<le> m \<and> m < unat nw + 32 \<and> heap_step st h bs ((alloc st bs)(p \<mapsto> (m, atag st p)))
    ((free_mem st bs \<union> {p..<p + asize st p}) - {p..<p + m}) st'"
proof -
  note S = absorb_next_ok [OF ok us fr adj, folded st1_def]
  note D = heap_okD [OF ok]
  obtain fs1 where ok1: "heap_ok st1 h (xs @ p # ys) fs1" using S(1) by blast
  have mh: "mhead st1 = mhead st" using S(6) by (simp add: outside_def)
  have nt: "\<forall>y \<in> set ys. is_free st1 y \<longrightarrow> p + asize st1 p \<noteq> y" using S(7) by blast
  have "unat nw \<le> asize st1 p" using sz(3) S(3) by simp
  from cut_tail_ok [OF ok1 S(2) nt sz(1,2) this, where old = old] obtain m where m: "unat nw \<le> m" "m < unat nw + 32" "m \<le> asize st1 p"
    and st: "heap_step st1 h (xs @ p # ys) ((alloc st1 (xs @ p # ys))(p \<mapsto> (m, atag st1 p)))
      (free_mem st1 (xs @ p # ys) \<union> {p + m..<p + asize st1 p}) st'"
    unfolding st'_def mh by blast
  have ns: "p \<notin> set xs \<union> set ys" "q \<noteq> p" "q \<notin> set xs \<union> set ys" using D(1) by (auto simp: ring_def)
  have "attrs st1 u = attrs st u \<and> atag st1 u = atag st u" if "u \<in> set xs \<union> set ys" for u
    using that ns S(4) [of u] S(5) by auto
  then have oth: "\<forall>u \<in> set xs \<union> set ys. attrs st1 u = attrs st u \<and> atag st1 u = atag st u" by blast
  have ok0: "heap_ok st h (xs @ [p, q] @ ys) fs" "heap_ok st1 h (xs @ [p] @ ys) fs1" using ok ok1 by simp_all
  note V = view_mid [OF ok0 oth mh]
  have reg: "region st1 p = region st p \<union> region st q" using S(3) adj by (auto simp: region_def)
  have sp: "span st1 h (xs @ p # ys) = span st h bs" using V(3) reg by (simp add: bs_def)
  have al: "(alloc st1 (xs @ p # ys))(p \<mapsto> (m, atag st1 p)) = (alloc st bs)(p \<mapsto> (m, atag st p))"
  proof
    fix u
    have "alloc st1 (xs @ p # ys) u = alloc st bs u" if "u \<noteq> p"
      using fun_cong [OF V(1), of u] that fr ns by (cases "u = q") (auto simp: view_Cons view_append bs_def)
    then show "((alloc st1 (xs @ p # ys))(p \<mapsto> (m, atag st1 p))) u = ((alloc st bs)(p \<mapsto> (m, atag st p))) u" using S(5) by simp
  qed
  have fm: "free_mem st bs = free_mem st1 (xs @ p # ys) \<union> region st q"
  proof -
    have "region st q \<subseteq> free_mem st bs" using fr by (auto simp: free_mem_def bs_def)
    moreover have "free_mem st bs \<inter> region st p = {}"
      using free_mem_apart [OF ok] us by (auto simp: bs_def view_append view_Cons)
    ultimately show ?thesis using V(2) S(2) by (auto simp: view_Cons bs_def)
  qed
  have "region st1 p \<inter> free_mem st1 (xs @ p # ys) = {}"
    using free_mem_apart [OF ok1] S(2) by (auto simp: view_append view_Cons)
  then have "(free_mem st bs \<union> {p..<p + asize st p}) - {p..<p + m} = free_mem st1 (xs @ p # ys) \<union> {p + m..<p + asize st1 p}"
    unfolding fm using reg adj S(3) m(3) by (auto simp: region_def)
  then show ?thesis using m heap_step_trans [OF st S(6) [folded bs_def] sp] al by auto
qed

lemma realloc_in_place:
  assumes ok: "heap_ok st h bs fs" and al: "alloc st bs q = Some (n, t)" and sz: "sz \<noteq> 0" "unat sz \<le> 2 ^ 32 - 32"
    and fit: "(unat sz + 31) div 16 * 16 \<le> grown st q"
  shows "\<exists>m st'. bios_realloc (q + 16) sz st = Some (q + 16, st') \<and> (unat sz + 31) div 16 * 16 \<le> m \<and>
    heap_step st h bs ((alloc st bs)(q \<mapsto> (m, t))) ((free_mem st bs \<union> {q..<q + n}) - {q..<q + m}) st'"
proof -
  note D = heap_okD [OF ok]
  have q: "q \<in> set bs" "\<not> is_free st q" "n = asize st q" "t = atag st q" using al by (auto simp: alloc_Some)
  obtain xs ys where bs: "bs = xs @ q # ys" using q(1) by (meson split_list)
  have ok': "heap_ok st h (xs @ q # ys) fs" using ok bs by simp
  have B: "block_ok st h q" using D(5) q(1) by simp
  note b = block_okD [OF B]
  let ?nw = "arena_round sz"
  let ?old = "ARENA_SIZE_GET (attrs st q)"
  have nw: "unat ?nw = (unat sz + 31) div 16 * 16" by (rule arena_round [OF sz(2)])
  have nw': "16 dvd unat ?nw" "32 \<le> unat ?nw" using sz(1) by (auto simp: nw unat_gt_0 [symmetric] Suc_le_eq)
  have le: "?old \<ge> ?nw \<longleftrightarrow> unat ?nw \<le> n" by (simp add: q(3) asize_def word_le_nat_alt)
  have dis: "free_mem st bs \<inter> {q..<q + n} = {}"
    using free_mem_apart [OF ok'] q(2,3) by (auto simp: bs view_append view_Cons region_def)
  have nx: "anext st q = hd (ys @ [mhead st h])" using ring_at(1) [OF heap_okD(1) [OF ok']] .
  show ?thesis
  proof (cases "?old \<ge> ?nw \<and> ?nw \<ge> drop_bit 2 ?old \<and> ?old - ?nw < 4096")
    case True
    then have "bios_realloc (q + 16) sz st = Some (q + 16, st)" using sz(1) by (simp add: bios_realloc_def)
    moreover have "(alloc st bs)(q \<mapsto> (n, t)) = alloc st bs" using al by auto
    moreover have "(free_mem st bs \<union> {q..<q + n}) - {q..<q + n} = free_mem st bs" using dis by auto
    ultimately show ?thesis using True le nw heap_step_refl [OF ok] by (intro exI [of _ n] exI [of _ st]) simp
  next
    case False
    show ?thesis
    proof (cases "anext st q = q + asize st q \<and> is_free st (anext st q)")
      case m: True
      then obtain zs where ys: "ys = anext st q # zs" using nx D(6) by (cases ys) auto
      have ok2: "heap_ok st h (xs @ q # anext st q # zs) fs" using ok bs ys by simp
      have Bn: "block_ok st h (anext st q)" using heap_okD(5) [OF ok2] by simp
      have g: "grown st q = asize st q + asize st (anext st q)" unfolding grown_def if_P [OF m] ..
      have sum: "ARENA_SIZE_GET (attrs st (anext st q)) + ?old \<ge> ?nw"
      proof -
        have "asize st q + asize st (anext st q) < 2 ^ 32" using block_okD(3) [OF Bn] m by simp
        then have "unat (ARENA_SIZE_GET (attrs st (anext st q)) + ?old) = asize st q + asize st (anext st q)"
          by (simp add: asize_def unat_word_ariths)
        then show ?thesis using fit nw g by (simp add: word_le_nat_alt)
      qed
      define st1 where "st1 = absorb_next q (anext st q) st"
      note adj = conjunct2 [OF m] conjunct1 [OF m, symmetric]
      have "asize st1 q = grown st q" unfolding g st1_def by (rule absorb_next_ok(3) [OF ok2 q(2) adj])
      then have x: "ARENA_SIZE_GET (attrs st1 q) \<ge> ?nw" using fit nw by (simp add: word_le_nat_alt asize_def)
      have eq: "bios_realloc (q + 16) sz st = Some (q + 16, cut_tail q (mhead st h) ?old ?nw (ARENA_SIZE_GET (attrs st1 q)) st1)"
        unfolding bios_realloc_def Let_def using sz(1) False sum x b(4) adj by (auto simp: st1_def)
      have "unat ?nw \<le> asize st q + asize st (anext st q)" using fit nw g by simp
      from absorb_next_step [OF ok2 q(2) adj nw' this, where old = ?old] show ?thesis
        unfolding eq nw [symmetric] q(3,4) st1_def [symmetric] ys [symmetric] bs [symmetric] by auto
    next
      case m: False
      then have g: "grown st q = n" by (auto simp: grown_def q(3))
      have x: "?old \<ge> ?nw" using fit nw g le by simp
      have eq: "bios_realloc (q + 16) sz st = Some (q + 16, cut_tail q (mhead st h) ?old ?nw ?old st)"
        using sz(1) False m x b(4) by (auto simp: bios_realloc_def Let_def)
      have nt: "\<forall>y \<in> set ys. is_free st y \<longrightarrow> q + asize st q \<noteq> y"
      proof (intro ballI impI notI)
        fix y
        assume y: "y \<in> set ys" "is_free st y" "q + asize st q = y"
        then have "anext st q = y" using touches_hd [OF ok' y(1)] nx by (cases ys) auto
        then show False using m y by simp
      qed
      have "unat ?nw \<le> asize st q" using x le q(3) by simp
      from cut_tail_ok [OF ok' q(2) nt nw' this, where old = ?old] obtain k where k: "unat ?nw \<le> k" "k \<le> n"
        and st: "heap_step st h bs ((alloc st bs)(q \<mapsto> (k, t))) (free_mem st bs \<union> {q + k..<q + n})
          (cut_tail q (mhead st h) ?old ?nw ?old st)" unfolding bs q(3,4) by blast
      have "(free_mem st bs \<union> {q..<q + n}) - {q..<q + k} = free_mem st bs \<union> {q + k..<q + n}" using dis k(2) by auto
      then show ?thesis using eq k st nw by auto
    qed
  qed
qed

end
