(* ===== verification/HeapSpec.thy ===== *)
theory HeapSpec
  imports HeapOps
begin

section \<open>The memory allocator: what it promises\<close>

text \<open>
  The promise of \<open>core/mem/\<close> to its callers, as the locale \<open>allocator\<close>: which blocks are allocated, which memory is free, and what
  \<open>malloc\<close> and \<open>free\<close> do to them. It is interpreted on the two heaps. The properties of the allocator follow: allocation on every branch,
  round trips, series of allocations, \<open>realloc\<close>, the release of all memory of a module, the initialisation, and the two places
  where a size wraps around.
\<close>

subsection \<open>The view of a heap\<close>

definition heap_view :: "arena \<Rightarrow> u32 \<Rightarrow> (ptr \<rightharpoonup> nat \<times> nat) \<Rightarrow> ptr set \<Rightarrow> ptr set \<Rightarrow> bool" where
  "heap_view st h al fr A \<longleftrightarrow> (\<exists>bs fs. heap_ok st h bs fs \<and> alloc st bs = al \<and> free_mem st bs = fr \<and> span st h bs = A)"

definition need :: "u32 \<Rightarrow> nat" where
  "need sz = (unat sz + 31) div 16 * 16"

lemma heap_viewI: "heap_ok st h bs fs \<Longrightarrow> heap_view st h (alloc st bs) (free_mem st bs) (span st h bs)"
  by (auto simp: heap_view_def)

lemma heap_viewE:
  assumes "heap_view st h al fr A"
  obtains bs fs where "heap_ok st h bs fs" "al = alloc st bs" "fr = free_mem st bs" "A = span st h bs"
  using assms by (auto simp: heap_view_def)

lemma heap_step_view:
  assumes "heap_step st h bs al fr st'"
  shows "heap_view st' h al fr (span st h bs)" and "outside st st' (span st h bs)"
  using assms by (auto simp: heap_step_def heap_view_def)

lemma heap_view_outside:
  assumes "heap_view st h al fr A" and "outside st st' B" and "A \<inter> B = {}"
  shows "heap_view st' h al fr A"
proof -
  obtain bs fs where v: "heap_ok st h bs fs" "al = alloc st bs" "fr = free_mem st bs" "A = span st h bs" using assms(1) by (rule heap_viewE)
  from heap_ok_outside [OF v(1) assms(2)] assms(3) v(2-4) show ?thesis unfolding heap_view_def by metis
qed

lemma regions_disjoint:
  assumes ok: "heap_ok st h bs fs" and p: "p \<in> set bs" "q \<in> set bs" "p \<noteq> q"
  shows "region st p \<inter> region st q = {}"
proof -
  obtain xs ys where bs: "bs = xs @ p # ys" using p(1) by (meson split_list)
  have "heap_ok st h (xs @ [p] @ ys) fs" "q \<in> set xs \<union> set ys" using ok p bs by auto
  from heap_apart_mid(1) [OF this, of p] show ?thesis by auto
qed

lemma heap_view_disjoint:
  assumes "heap_view st h al fr A" and "al p = Some (n, t)"
  shows "q \<noteq> p \<Longrightarrow> al q = Some (m, u) \<Longrightarrow> {p..<p + n} \<inter> {q..<q + m} = {}" and "{p..<p + n} \<inter> fr = {}" and "32 \<le> n"
    and "{p..<p + n} \<subseteq> A" and "32 \<le> p" and "p + n < 2 ^ 32"
proof -
  obtain bs fs where v: "heap_ok st h bs fs" "al = alloc st bs" "fr = free_mem st bs" "A = span st h bs" using assms(1) by (rule heap_viewE)
  have p: "p \<in> set bs" "\<not> is_free st p" "n = asize st p" using assms(2) v(2) by (auto simp: alloc_Some)
  show "{p..<p + n} \<inter> {q..<q + m} = {}" if "q \<noteq> p" "al q = Some (m, u)"
    using that regions_disjoint [OF v(1) p(1), of q] p v(2) by (auto simp: alloc_Some region_def)
  show "{p..<p + n} \<inter> fr = {}" unfolding v(3) free_mem_def
  proof (safe)
    fix x q
    assume x: "x \<in> {p..<p + n}" "q \<in> set bs" "is_free st q" "x \<in> region st q"
    then have "p \<noteq> q" using p(2) by auto
    then show "x \<in> {}" using regions_disjoint [OF v(1) p(1) x(2)] x p(3) by (auto simp: region_def)
  qed
  show "32 \<le> n" "32 \<le> p" "p + n < 2 ^ 32" using heap_okD(5) [OF v(1) p(1)] p(3) by (simp_all add: block_ok_def)
  show "{p..<p + n} \<subseteq> A" using p v(4) by (auto simp: span_def region_def)
qed

text \<open>Free blocks that touch are merged, so every free range lies in one block: the search by blocks misses none.\<close>

lemma free_range_in_block:
  assumes ok: "heap_ok st h bs fs" and sub: "{a..<a + n} \<subseteq> free_mem st bs" and n: "0 < n"
  shows "\<exists>p \<in> set bs. is_free st p \<and> n \<le> asize st p"
proof -
  have "a \<in> free_mem st bs" using sub n by auto
  then obtain p where p: "p \<in> set bs" "is_free st p" "p \<le> a" "a < p + asize st p" by (auto simp: free_mem_def region_def)
  have "a + n \<le> p + asize st p"
  proof (rule ccontr)
    assume "\<not> ?thesis"
    then have "p + asize st p \<in> free_mem st bs" using sub p(4) by auto
    then obtain q where q: "q \<in> set bs" "is_free st q" "q \<le> p + asize st p" "p + asize st p < q + asize st q"
      by (auto simp: free_mem_def region_def)
    then have "q \<noteq> p" by auto
    have "p \<noteq> 0" using heap_okD(5) [OF ok p(1)] by (simp add: block_ok_def)
    have "apart 0 st p q \<or> apart 0 st q p"
      using heap_okD(4) [OF ok] p(1) q(1) \<open>q \<noteq> p\<close> by (metis in_set_conv_nth linorder_neqE_nat sorted_wrt_nth_less)
    then show False using p q \<open>p \<noteq> 0\<close> by (auto simp: apart_def)
  qed
  then show ?thesis using p by (intro bexI [of _ p]) auto
qed

lemma malloc_view:
  assumes v: "heap_view st h al fr A" and sz: "sz \<noteq> 0" "unat sz \<le> 2 ^ 32 - 32"
  shows "\<not> (\<exists>a. {a..<a + need sz} \<subseteq> fr) \<Longrightarrow> bios_malloc sz h tag st = Some (0, st)"
    and "{a..<a + need sz} \<subseteq> fr \<Longrightarrow> \<exists>q m st'. bios_malloc sz h tag st = Some (q + 16, st') \<and> need sz \<le> m \<and> m < need sz + 32 \<and>
      {q..<q + m} \<subseteq> fr \<and> heap_view st' h (al(q \<mapsto> (m, tag))) (fr - {q..<q + m}) A \<and> outside st st' A"
proof -
  obtain bs fs where b: "heap_ok st h bs fs" "al = alloc st bs" "fr = free_mem st bs" "A = span st h bs" using v by (rule heap_viewE)
  note E = bios_malloc_effect [OF b(1) sz, folded need_def]
  have "0 < need sz" using sz(1) by (simp add: need_def)
  show "bios_malloc sz h tag st = Some (0, st)" if none: "\<not> (\<exists>a. {a..<a + need sz} \<subseteq> fr)"
  proof (rule E(1), intro ballI impI)
    fix p
    assume p: "p \<in> set bs" "is_free st p"
    show "asize st p < need sz"
    proof (rule ccontr)
      assume "\<not> ?thesis"
      then have "{p..<p + need sz} \<subseteq> region st p" by (auto simp: region_def)
      then have "{p..<p + need sz} \<subseteq> fr" using p b(3) by (auto simp: free_mem_def)
      then show False using none by blast
    qed
  qed
  show "\<exists>q m st'. bios_malloc sz h tag st = Some (q + 16, st') \<and> need sz \<le> m \<and> m < need sz + 32 \<and>
      {q..<q + m} \<subseteq> fr \<and> heap_view st' h (al(q \<mapsto> (m, tag))) (fr - {q..<q + m}) A \<and> outside st st' A"
    if run: "{a..<a + need sz} \<subseteq> fr"
  proof -
    have "\<exists>p \<in> set bs. is_free st p \<and> need sz \<le> asize st p"
      using free_range_in_block [OF b(1) run [unfolded b(3)] \<open>0 < need sz\<close>] .
    from E(2) [OF this] obtain q m st' where "bios_malloc sz h tag st = Some (q + 16, st')" "need sz \<le> m" "m < need sz + 32"
      "{q..<q + m} \<subseteq> free_mem st bs" "heap_step st h bs ((alloc st bs)(q \<mapsto> (m, tag))) (free_mem st bs - {q..<q + m}) st'" by blast
    then show ?thesis using heap_step_view unfolding b(2-4) by blast
  qed
qed

lemma free_view:
  assumes "heap_view st h al fr A" and "al q = Some (n, t)"
  shows "heap_view (free (q + 16) st) h (al(q := None)) (fr \<union> {q..<q + n}) A" and "outside st (free (q + 16) st) A"
proof -
  obtain bs fs where b: "heap_ok st h bs fs" "al = alloc st bs" "fr = free_mem st bs" "A = span st h bs" using assms(1) by (rule heap_viewE)
  have "free (q + 16) st = bios_free (q + 16) st" by (simp add: free_def)
  with heap_step_view [OF bios_free_step [OF b(1) assms(2) [unfolded b(2)]]]
  show "heap_view (free (q + 16) st) h (al(q := None)) (fr \<union> {q..<q + n}) A" "outside st (free (q + 16) st) A" unfolding b(2-4) by simp_all
qed

subsection \<open>The interface\<close>

text \<open>A series of requests; the results in order, 0 for a request that fails.\<close>

fun malloc_list :: "(u32 \<Rightarrow> nat \<Rightarrow> 's \<Rightarrow> (ptr \<times> 's) option) \<Rightarrow> (u32 \<times> nat) list \<Rightarrow> 's \<Rightarrow> (ptr list \<times> 's) option" where
  "malloc_list mal [] s = Some ([], s)"
| "malloc_list mal ((sz, tag) # rs) s = do { (p, s) \<leftarrow> mal sz tag s; (ps, s) \<leftarrow> malloc_list mal rs s; Some (p # ps, s) }"

definition request_ok :: "u32 \<times> nat \<Rightarrow> bool" where
  "request_ok r \<longleftrightarrow> fst r \<noteq> 0 \<and> unat (fst r) \<le> 2 ^ 32 - 32"

locale allocator =
  fixes view :: "'s \<Rightarrow> (ptr \<rightharpoonup> nat \<times> nat) \<Rightarrow> ptr set \<Rightarrow> bool"
    and mal :: "u32 \<Rightarrow> nat \<Rightarrow> 's \<Rightarrow> (ptr \<times> 's) option"
    and fre :: "ptr \<Rightarrow> 's \<Rightarrow> 's"
  assumes mal_none: "view s al fr \<Longrightarrow> request_ok (sz, tag) \<Longrightarrow> \<not> (\<exists>a. {a..<a + need sz} \<subseteq> fr) \<Longrightarrow> mal sz tag s = Some (0, s)"
    and mal_some: "view s al fr \<Longrightarrow> request_ok (sz, tag) \<Longrightarrow> {a..<a + need sz} \<subseteq> fr \<Longrightarrow>
      \<exists>q m s'. mal sz tag s = Some (q + 16, s') \<and> need sz \<le> m \<and> {q..<q + m} \<subseteq> fr \<and> view s' (al(q \<mapsto> (m, tag))) (fr - {q..<q + m})"
    and fre_view: "view s al fr \<Longrightarrow> al q = Some (n, t) \<Longrightarrow> view (fre (q + 16) s) (al(q := None)) (fr \<union> {q..<q + n})"
    and view_free: "view s al fr \<Longrightarrow> al q = Some (n, t) \<Longrightarrow> q \<in> {q..<q + n} \<and> {q..<q + n} \<inter> fr = {}"
begin

lemma mal_cases:
  assumes "view s al fr" and "request_ok (sz, tag)"
  obtains "\<not> (\<exists>a. {a..<a + need sz} \<subseteq> fr)" "mal sz tag s = Some (0, s)"
  | q m s' where "mal sz tag s = Some (q + 16, s')" "need sz \<le> m" "{q..<q + m} \<subseteq> fr" "al q = None"
      "view s' (al(q \<mapsto> (m, tag))) (fr - {q..<q + m})"
proof (cases "\<exists>a. {a..<a + need sz} \<subseteq> fr")
  case True
  then obtain q m s' where m: "mal sz tag s = Some (q + 16, s')" "need sz \<le> m" "{q..<q + m} \<subseteq> fr"
    "view s' (al(q \<mapsto> (m, tag))) (fr - {q..<q + m})" using mal_some [OF assms] by blast
  have "0 < need sz" using assms(2) by (simp add: request_ok_def need_def)
  then have "q \<in> fr" using m(2,3) by auto
  moreover have "q \<notin> fr" if "al q = Some (n, t)" for n t using view_free [OF assms(1) that] by blast
  ultimately have "al q = None" by (cases "al q") auto
  then show thesis using that(2) m by blast
qed (use that(1) mal_none [OF assms] in auto)

lemma mal_fre:
  assumes "view s al fr" and "request_ok (sz, tag)" and "mal sz tag s = Some (p, s')" and "p \<noteq> 0"
  shows "view (fre p s') al fr"
  using assms(1,2)
proof (cases rule: mal_cases)
  case 1
  then show ?thesis using assms(3,4) by simp
next
  case (2 q m t)
  then have "p = q + 16" "s' = t" using assms(3) by auto
  moreover have "al(q := None) = al" "fr - {q..<q + m} \<union> {q..<q + m} = fr" using 2(3,4) by auto
  ultimately show ?thesis using fre_view [OF 2(5), of q] by simp
qed

text \<open>A series of requests: every block is new and lies in memory that was free, and none overlaps another.\<close>

lemma malloc_list_ok:
  assumes "view s al fr" and "\<forall>r \<in> set rs. request_ok r"
  shows "\<exists>ps s' al' fr'. malloc_list mal rs s = Some (ps, s') \<and> view s' al' fr' \<and> al \<subseteq>\<^sub>m al' \<and> fr' \<subseteq> fr \<and> length ps = length rs \<and>
    (\<forall>i < length ps. ps ! i \<noteq> 0 \<longrightarrow> (\<exists>m. 16 \<le> ps ! i \<and> al (ps ! i - 16) = None \<and> al' (ps ! i - 16) = Some (m, snd (rs ! i)) \<and>
       need (fst (rs ! i)) \<le> m \<and> {ps ! i - 16..<ps ! i - 16 + m} \<subseteq> fr)) \<and>
    distinct [p \<leftarrow> ps. p \<noteq> 0]"
  using assms
proof (induction rs arbitrary: s al fr)
  case Nil
  then show ?case by (auto simp: map_le_def)
next
  case (Cons r rs)
  obtain sz tag where r: "r = (sz, tag)" by (cases r)
  have ok: "request_ok (sz, tag)" and rs: "\<forall>r \<in> set rs. request_ok r" using Cons.prems r by simp_all
  show ?case using Cons.prems(1) ok
  proof (cases rule: mal_cases)
    case 1
    from Cons.IH [OF Cons.prems(1) rs] obtain ps s' al' fr' where
      i: "malloc_list mal rs s = Some (ps, s')" "view s' al' fr'" "al \<subseteq>\<^sub>m al'" "fr' \<subseteq> fr" "length ps = length rs"
        "\<forall>i < length ps. ps ! i \<noteq> 0 \<longrightarrow> (\<exists>m. 16 \<le> ps ! i \<and> al (ps ! i - 16) = None \<and> al' (ps ! i - 16) = Some (m, snd (rs ! i)) \<and>
          need (fst (rs ! i)) \<le> m \<and> {ps ! i - 16..<ps ! i - 16 + m} \<subseteq> fr)" "distinct [p \<leftarrow> ps. p \<noteq> 0]" by blast
    then show ?thesis using 1 r
      by (intro exI [of _ "0 # ps"] exI [of _ s'] exI [of _ al'] exI [of _ fr']) (auto simp: nth_Cons split: nat.splits)
  next
    case (2 q m s1)
    from Cons.IH [OF 2(5) rs] obtain ps s' al' fr' where
      i: "malloc_list mal rs s1 = Some (ps, s')" "view s' al' fr'" "al(q \<mapsto> (m, tag)) \<subseteq>\<^sub>m al'" "fr' \<subseteq> fr - {q..<q + m}" "length ps = length rs"
      and e: "\<forall>i < length ps. ps ! i \<noteq> 0 \<longrightarrow> (\<exists>k. 16 \<le> ps ! i \<and> (al(q \<mapsto> (m, tag))) (ps ! i - 16) = None \<and> al' (ps ! i - 16) = Some (k, snd (rs ! i)) \<and>
          need (fst (rs ! i)) \<le> k \<and> {ps ! i - 16..<ps ! i - 16 + k} \<subseteq> fr - {q..<q + m})" and d: "distinct [p \<leftarrow> ps. p \<noteq> 0]" by blast
    have e': "16 \<le> ps ! i" "ps ! i - 16 \<noteq> q" "al (ps ! i - 16) = None"
      "\<exists>k. al' (ps ! i - 16) = Some (k, snd (rs ! i)) \<and> need (fst (rs ! i)) \<le> k \<and> {ps ! i - 16..<ps ! i - 16 + k} \<subseteq> fr"
      if "i < length ps" "ps ! i \<noteq> 0" for i using e [rule_format, OF that] by (auto split: if_splits)
    have "ps ! i \<noteq> q + 16" if "i < length ps" for i using e'(2) [OF that] by auto
    then have "q + 16 \<notin> set ps" by (auto simp: in_set_conv_nth)
    moreover have "al \<subseteq>\<^sub>m al(q \<mapsto> (m, tag))" using 2(4) by (auto simp: map_le_def)
    then have "al \<subseteq>\<^sub>m al'" using i(3) by (rule map_le_trans)
    moreover have "al' q = Some (m, tag)" using i(3) by (auto simp: map_le_def)
    ultimately show ?thesis using 2 r i d e'
      by (intro exI [of _ "(q + 16) # ps"] exI [of _ s'] exI [of _ al'] exI [of _ fr']) (auto simp: nth_Cons split: nat.splits)
  qed
qed

end

interpretation heap: allocator "\<lambda>st al fr. heap_view st h al fr A" "\<lambda>sz tag. bios_malloc sz h tag" free for h A
proof
  fix st al fr sz tag a
  assume v: "heap_view st h al fr A" and r: "request_ok (sz, tag)"
  then have sz: "sz \<noteq> 0" "unat sz \<le> 2 ^ 32 - 32" by (auto simp: request_ok_def)
  show "\<not> (\<exists>a. {a..<a + need sz} \<subseteq> fr) \<Longrightarrow> bios_malloc sz h tag st = Some (0, st)" by (rule malloc_view(1) [OF v sz])
  show "{a..<a + need sz} \<subseteq> fr \<Longrightarrow> \<exists>q m st'. bios_malloc sz h tag st = Some (q + 16, st') \<and> need sz \<le> m \<and> {q..<q + m} \<subseteq> fr \<and>
      heap_view st' h (al(q \<mapsto> (m, tag))) (fr - {q..<q + m}) A" using malloc_view(2) [OF v sz] by blast
next
  fix st al fr q n t
  assume v: "heap_view st h al fr A" and a: "al q = Some (n, t)"
  show "heap_view (free (q + 16) st) h (al(q := None)) (fr \<union> {q..<q + n}) A" by (rule free_view(1) [OF v a])
  show "q \<in> {q..<q + n} \<and> {q..<q + n} \<inter> fr = {}" using heap_view_disjoint(2,3) [OF v a] by auto
qed

subsection \<open>Moving a block\<close>

lemma arena_amem [arena_simps]:
  "is_free (st\<lparr>amem := f\<rparr>) = is_free st" "asize (st\<lparr>amem := f\<rparr>) = asize st" "region (st\<lparr>amem := f\<rparr>) = region st"
  "block_ok (st\<lparr>amem := f\<rparr>) h = block_ok st h" "apart x (st\<lparr>amem := f\<rparr>) = apart x st"
  "alloc (st\<lparr>amem := f\<rparr>) bs = alloc st bs"
  by (auto simp: fun_eq_iff is_free_def asize_def region_def block_ok_def apart_def alloc_def)

lemma heap_view_amem: "heap_view (st\<lparr>amem := f\<rparr>) h al fr A = heap_view st h al fr A"
  by (simp add: heap_view_def heap_okx_def free_mem_def span_def arena_simps)

lemma grown_less:
  assumes v: "heap_view st h al fr A" and al: "al q = Some (n, t)" and sz: "unat sz \<le> 2 ^ 32 - 32" and less: "grown st q < need sz"
  shows "ARENA_SIZE_GET (attrs st q) < arena_round sz"
    and "anext st q = q + asize st q \<Longrightarrow> is_free st (anext st q) \<Longrightarrow> ARENA_SIZE_GET (attrs st (anext st q)) + ARENA_SIZE_GET (attrs st q) < arena_round sz"
proof -
  obtain bs fs where b: "heap_ok st h bs fs" "al = alloc st bs" using v by (rule heap_viewE)
  have q: "q \<in> set bs" "n = asize st q" using al b by (auto simp: alloc_Some)
  have nw: "unat (arena_round sz) = need sz" unfolding need_def by (rule arena_round [OF sz])
  have "asize st q \<le> grown st q" by (simp add: grown_def)
  then show "ARENA_SIZE_GET (attrs st q) < arena_round sz" using less nw by (simp add: word_less_nat_alt asize_def)
  assume a: "anext st q = q + asize st q" "is_free st (anext st q)"
  have "anext st q \<in> set bs"
    using ring_links_in(1) [OF heap_okD(1) [OF b(1)], of q] q(1) a(2) heap_okD(6) [OF b(1)] by auto
  from block_okD(3) [OF heap_okD(5) [OF b(1) this]] have lim: "q + asize st q + asize st (anext st q) < 2 ^ 32" unfolding a(1) .
  have "grown st q = asize st q + asize st (anext st q)" unfolding grown_def using a by presburger
  moreover have "unat (ARENA_SIZE_GET (attrs st (anext st q)) + ARENA_SIZE_GET (attrs st q)) = asize st q + asize st (anext st q)"
    using lim by (simp add: asize_def unat_word_ariths)
  ultimately show "ARENA_SIZE_GET (attrs st (anext st q)) + ARENA_SIZE_GET (attrs st q) < arena_round sz"
    using less nw by (simp add: word_less_nat_alt)
qed

lemma realloc_moved:
  assumes v: "heap_view st h al fr A" and al: "al q = Some (n, t)" and sz: "sz \<noteq> 0" "unat sz \<le> 2 ^ 32 - 32" and less: "grown st q < need sz"
  shows "bios_realloc (q + 16) sz st =
    Option.bind (malloc sz st) (\<lambda>(r, st). if r \<noteq> 0 then Some (r, free (q + 16) (memcpy r (q + 16) (min (unat sz) (n - 16)) st)) else Some (0, st))"
proof -
  note G = grown_less [OF v al sz(2) less]
  obtain bs fs where b: "heap_ok st h bs fs" "al = alloc st bs" using v by (rule heap_viewE)
  have "n = asize st q" using al b by (auto simp: alloc_Some)
  moreover have "32 \<le> n" using heap_view_disjoint(3) [OF v al] .
  ultimately have "unat (ARENA_SIZE_GET (attrs st q) - sizeof_arena_header) = n - 16"
    by (simp add: asize_def unat_sub word_le_nat_alt sizeof_arena_header_def)
  note len = this
  let ?old = "ARENA_SIZE_GET (attrs st q)"
  have c: "\<not> (?old \<ge> arena_round sz \<and> arena_round sz \<ge> drop_bit 2 ?old \<and> ?old - arena_round sz < 4096)" "\<not> ?old \<ge> arena_round sz"
    "\<not> (anext st q = q + asize st q \<and> is_free st (anext st q) \<and> ARENA_SIZE_GET (attrs st (anext st q)) + ?old \<ge> arena_round sz)"
    "\<not> q + 16 = 0" using G by auto
  show ?thesis
    by (simp only: bios_realloc_def Let_def add_diff_cancel_right' if_not_P [OF c(1)] if_not_P [OF c(2)] if_not_P [OF c(3)] if_not_P [OF c(4)]
        sz(1) if_False prod.case len)
qed

lemma realloc_view:
  assumes v: "heap_view st HEAP_MAIN al fr A" and al: "al q = Some (n, t)" and sz: "sz \<noteq> 0" "unat sz \<le> 2 ^ 32 - 32"
  shows "\<exists>r st'. bios_realloc (q + 16) sz st = Some (r, st') \<and>
    (if r = 0 then st' = st \<and> \<not> (\<exists>a. {a..<a + need sz} \<subseteq> fr)
     else \<exists>m. need sz \<le> m \<and>
       heap_view st' HEAP_MAIN (al(q := None, r - 16 \<mapsto> (m, if r = q + 16 then t else MALLOC_CORE))) (fr \<union> {q..<q + n} - {r - 16..<r - 16 + m}) A \<and>
       (\<forall>i < min (unat sz) (n - 16). amem st' (r + i) = amem st (q + 16 + i)) \<and>
       (\<forall>a. a \<notin> {r..<r + unat sz} \<longrightarrow> amem st' a = amem st a))"
proof (cases "need sz \<le> grown st q")
  case True
  obtain bs fs where b: "heap_ok st HEAP_MAIN bs fs" "al = alloc st bs" "fr = free_mem st bs" "A = span st HEAP_MAIN bs" using v by (rule heap_viewE)
  from realloc_in_place [OF b(1) al [unfolded b(2)] sz True [unfolded need_def], folded need_def] obtain m st' where
    r: "bios_realloc (q + 16) sz st = Some (q + 16, st')" "need sz \<le> m"
    and s: "heap_step st HEAP_MAIN bs (al(q \<mapsto> (m, t))) (fr \<union> {q..<q + n} - {q..<q + m}) st'" unfolding b(2,3) by blast
  have "amem st' = amem st" using heap_step_view(2) [OF s] by (simp add: outside_def)
  then show ?thesis using r heap_step_view(1) [OF s] b(4) by (intro exI [of _ "q + 16"] exI [of _ st']) auto
next
  case False
  then have eq: "bios_realloc (q + 16) sz st =
    Option.bind (malloc sz st) (\<lambda>(r, st). if r \<noteq> 0 then Some (r, free (q + 16) (memcpy r (q + 16) (min (unat sz) (n - 16)) st)) else Some (0, st))"
    by (intro realloc_moved [OF v al sz]) simp
  have "request_ok (sz, MALLOC_CORE)" using sz by (simp add: request_ok_def)
  with v show ?thesis
  proof (cases rule: heap.mal_cases)
    case 1
    then show ?thesis unfolding eq by (simp add: malloc_def)
  next
    case (2 p m s)
    have pq: "p \<noteq> q" using 2(4) al by auto
    have n: "32 \<le> n" "{q..<q + n} \<inter> fr = {}" using heap_view_disjoint(2,3) [OF v al] by simp_all
    define s1 where "s1 = memcpy (p + 16) (q + 16) (min (unat sz) (n - 16)) s"
    have v1: "heap_view s1 HEAP_MAIN (al(p \<mapsto> (m, MALLOC_CORE))) (fr - {p..<p + m}) A"
      unfolding s1_def memcpy_def heap_view_amem by (rule 2(5))
    have "(al(p \<mapsto> (m, MALLOC_CORE))) q = Some (n, t)" using al pq by simp
    note F = free_view [OF v1 this]
    have am: "amem s = amem st"
    proof -
      obtain q' st' where "bios_malloc sz HEAP_MAIN MALLOC_CORE st = Some (q' + 16, st')" "outside st st' A"
      proof -
        have "0 < need sz" "{p..<p + need sz} \<subseteq> fr" using 2(2,3) sz(1) by (auto simp: need_def)
        from malloc_view(2) [OF v sz this(2), of MALLOC_CORE] that show thesis by blast
      qed
      then show ?thesis using 2(1) by (simp add: outside_def)
    qed
    have amf: "amem (free (q + 16) s1) = amem s1" using F(2) by (simp add: outside_def)
    have e1: "fr - {p..<p + m} \<union> {q..<q + n} = fr \<union> {q..<q + n} - {p..<p + m}" using 2(3) n(2) by auto
    have e2: "(al(p \<mapsto> (m, MALLOC_CORE)))(q := None) = al(q := None, p \<mapsto> (m, MALLOC_CORE))" using pq by auto
    have "bios_realloc (q + 16) sz st = Some (p + 16, free (q + 16) s1)" unfolding eq using 2(1) by (simp add: malloc_def s1_def)
    moreover have "\<forall>i < min (unat sz) (n - 16). amem s1 (p + 16 + i) = amem st (q + 16 + i)" using am by (simp add: s1_def memcpy_def)
    moreover have "\<forall>a. a \<notin> {p + 16..<p + 16 + unat sz} \<longrightarrow> amem s1 a = amem st a" using am by (auto simp: s1_def memcpy_def)
    ultimately show ?thesis using F(1) [unfolded e1 e2] 2(2) pq amf
      by (intro exI [of _ "p + 16"] exI [of _ "free (q + 16) s1"]) (auto simp del: fun_upd_apply)
  qed
qed

subsection \<open>All memory of a tag\<close>

definition without_tag :: "nat \<Rightarrow> (ptr \<rightharpoonup> nat \<times> nat) \<Rightarrow> (ptr \<rightharpoonup> nat \<times> nat)" where
  "without_tag tag al p = (case al p of Some (n, t) \<Rightarrow> if t = tag then None else Some (n, t) | None \<Rightarrow> None)"

definition tag_memory :: "nat \<Rightarrow> (ptr \<rightharpoonup> nat \<times> nat) \<Rightarrow> ptr set" where
  "tag_memory tag al = {a. \<exists>p n. al p = Some (n, tag) \<and> p \<le> a \<and> a < p + n}"

lemma free_tagged_view:
  assumes "heap_view st h al fr A"
  shows "\<exists>st'. free_tagged_loop tag (mhead st h) st (anext st (mhead st h)) = Some st' \<and>
    heap_view st' h (without_tag tag al) (fr \<union> tag_memory tag al) A \<and> outside st st' A"
proof -
  obtain bs fs where b: "heap_ok st h bs fs" "al = alloc st bs" "fr = free_mem st bs" "A = span st h bs" using assms by (rule heap_viewE)
  have t: "tagged tag al (set bs) = {p. \<exists>n. al p = Some (n, tag)}" unfolding tagged_def b(2) by (auto simp: alloc_Some)
  have "al |` (- tagged tag al (set bs)) = without_tag tag al"
    unfolding t by (auto simp: fun_eq_iff restrict_map_def without_tag_def split: option.splits prod.splits)
  moreover have "memory al (tagged tag al (set bs)) = tag_memory tag al"
    unfolding t by (fastforce simp: memory_def tag_memory_def split: option.splits)
  moreover obtain st' where "free_tagged_loop tag (mhead st h) st (anext st (mhead st h)) = Some st'"
    "heap_step st h bs (al |` (- tagged tag al (set bs))) (fr \<union> memory al (tagged tag al (set bs))) st'"
    using free_tagged_heap [OF b(1), of tag] unfolding b(2,3) by blast
  ultimately show ?thesis using heap_step_view b(4) by metis
qed

subsection \<open>A small arena\<close>

text \<open>
  The main heap has an allocated block of 64 bytes at 1024 and behind it a free one of 128 bytes, the low heap one allocated block of 48 bytes
  that belongs to a module.
\<close>

definition demo_arena :: arena where
  "demo_arena = \<lparr>mhead = (\<lambda>h. if h = 0 then 64 else 128),
     attrs = (\<lambda>_. 0)(64 := 2, 128 := 6, 1024 := 64, 1088 := 129, 512 := 52), atag = (\<lambda>_. 0)(64 := 1, 128 := 1, 1024 := 2, 512 := 3),
     anext = id(64 := 1024, 1024 := 1088, 1088 := 64, 128 := 512, 512 := 128), aprev = id(64 := 1088, 1024 := 64, 1088 := 1024, 128 := 512, 512 := 128),
     fnext = id(64 := 1088, 1088 := 64), fprev = id(64 := 1088, 1088 := 64), amem = (\<lambda>a. word_of_nat a)\<rparr>"

lemma demo_size:
  "asize demo_arena 1024 = 64" "asize demo_arena 1088 = 128" "asize demo_arena 512 = 48"
  "\<not> is_free demo_arena 1024" "is_free demo_arena 1088" "\<not> is_free demo_arena 512" "\<not> is_free demo_arena 64" "\<not> is_free demo_arena 128"
  "mhead demo_arena 0 = 64" "mhead demo_arena 1 = 128"
  by (simp_all add: asize_def is_free_def demo_arena_def arena_gets arena_masks ARENA_TYPE_FREE_def)

lemma demo_heap_ok: "heap_ok demo_arena HEAP_MAIN [1024, 1088] [1088]"
  by (auto simp: heap_okx_def ring_def apart_def block_ok_def region_def demo_size HEAP_MAIN_def)
    (simp_all add: demo_arena_def arena_gets arena_masks ARENA_TYPE_USED_def ARENA_TYPE_FREE_def)

lemma demo_main: "heap_view demo_arena HEAP_MAIN [1024 \<mapsto> (64, 2)] {1088..<1216} (insert 64 {1024..<1216})"
proof -
  note demo_heap_ok
  moreover have "alloc demo_arena [1024, 1088] = [1024 \<mapsto> (64, 2)]" "free_mem demo_arena [1024, 1088] = {1088..<1216}"
    "span demo_arena HEAP_MAIN [1024, 1088] = insert 64 {1024..<1216}"
    by (auto simp: fun_eq_iff view_Cons region_def demo_size HEAP_MAIN_def) (simp add: demo_arena_def)
  ultimately show ?thesis using heap_viewI by metis
qed

lemma demo_low: "heap_view demo_arena HEAP_LOWMEM [512 \<mapsto> (48, 3)] {} (insert 128 {512..<560})"
proof -
  have "heap_ok demo_arena HEAP_LOWMEM [512] []"
    by (auto simp: heap_okx_def ring_def apart_def block_ok_def region_def demo_size HEAP_LOWMEM_def)
      (simp_all add: demo_arena_def arena_gets arena_masks ARENA_TYPE_USED_def ARENA_TYPE_FREE_def)
  moreover have "alloc demo_arena [512] = [512 \<mapsto> (48, 3)]" "free_mem demo_arena [512] = {}" "span demo_arena HEAP_LOWMEM [512] = insert 128 {512..<560}"
    by (auto simp: fun_eq_iff view_Cons region_def demo_size HEAP_LOWMEM_def) (simp add: demo_arena_def)
  ultimately show ?thesis using heap_viewI by metis
qed

lemma distinct_filter_nth:
  "distinct (filter P xs) \<Longrightarrow> i < j \<Longrightarrow> j < length xs \<Longrightarrow> P (xs ! i) \<and> P (xs ! j) \<Longrightarrow> xs ! i \<noteq> xs ! j"
proof (induction xs arbitrary: i j)
  case (Cons x xs)
  then show ?case by (cases i; cases j) (auto split: if_splits dest: nth_mem)
qed simp

subsection \<open>Properties\<close>

text \<open>C13. Allocation on every branch: \<open>bios_malloc\<close> returns 0 and changes nothing exactly when no free range holds the request and its header, rounded
  up; otherwise the block comes out of the free memory, has the tag and at least the size, the other blocks, the other heap and the contents of
  the memory stay as they are.\<close>

theorem bios_malloc_correct:
  assumes "heap_view st h al fr A" and "heap_view st h' al' fr' B" and "A \<inter> B = {}" and "sz \<noteq> 0" and "unat sz \<le> 2 ^ 32 - 32"
  shows "\<exists>p st'. bios_malloc sz h tag st = Some (p, st') \<and> amem st' = amem st \<and> heap_view st' h' al' fr' B \<and>
    (if \<exists>a. {a..<a + need sz} \<subseteq> fr then
       \<exists>q m. p = q + 16 \<and> need sz \<le> m \<and> m < need sz + 32 \<and> {q..<q + m} \<subseteq> fr \<and> heap_view st' h (al(q \<mapsto> (m, tag))) (fr - {q..<q + m}) A
     else p = 0 \<and> st' = st)"
proof (cases "\<exists>a. {a..<a + need sz} \<subseteq> fr")
  case True
  then obtain q m st' where m: "bios_malloc sz h tag st = Some (q + 16, st')" "need sz \<le> m" "m < need sz + 32" "{q..<q + m} \<subseteq> fr"
    "heap_view st' h (al(q \<mapsto> (m, tag))) (fr - {q..<q + m}) A" and out: "outside st st' A"
    using malloc_view(2) [OF assms(1,4,5)] by blast
  have "B \<inter> A = {}" using assms(3) by auto
  from heap_view_outside [OF assms(2) out this] have "heap_view st' h' al' fr' B" .
  moreover have "amem st' = amem st" using out by (simp add: outside_def)
  ultimately show ?thesis using m True by (intro exI [of _ "q + 16"] exI [of _ st']) auto
next
  case False
  then show ?thesis using malloc_view(1) [OF assms(1,4,5) False] assms(2) by simp
qed

theorem bios_malloc_correct_witness:
  "\<exists>p st'. bios_malloc 100 HEAP_MAIN 7 demo_arena = Some (p, st') \<and> p \<noteq> 0 \<and> heap_view st' HEAP_LOWMEM [512 \<mapsto> (48, 3)] {} (insert 128 {512..<560})"
proof -
  have "\<exists>a. {a..<a + need 100} \<subseteq> {1088..<1216 :: nat}" by (rule exI [of _ 1088]) (simp add: need_def)
  then show ?thesis using bios_malloc_correct [OF demo_main demo_low, of 100 7] by auto
qed

text \<open>C15. A round trip: \<open>free\<close> after a successful \<open>bios_malloc\<close> brings back the allocated blocks and the free memory of the heap, whatever splitting and
  merging of blocks happened on the way.\<close>

theorem malloc_free_roundtrip:
  assumes "heap_view st h al fr A" and "sz \<noteq> 0" and "unat sz \<le> 2 ^ 32 - 32" and "bios_malloc sz h tag st = Some (p, st')" and "p \<noteq> 0"
  shows "heap_view (free p st') h al fr A"
  using heap.mal_fre [OF assms(1) _ assms(4,5)] assms(2,3) by (simp add: request_ok_def)

theorem malloc_free_roundtrip_witness:
  "\<exists>p st'. bios_malloc 20 HEAP_MAIN 2 demo_arena = Some (p, st') \<and>
    heap_view (free p st') HEAP_MAIN [1024 \<mapsto> (64, 2)] {1088..<1216} (insert 64 {1024..<1216})"
proof -
  have r: "{1088..<1088 + need 20} \<subseteq> {1088..<1216}" by (simp add: need_def)
  obtain q st' where "bios_malloc 20 HEAP_MAIN 2 demo_arena = Some (q + 16, st')" using malloc_view(2) [OF demo_main _ _ r, of 2] by auto
  then show ?thesis using malloc_free_roundtrip [OF demo_main, of 20 2 "q + 16" st'] by auto
qed

text \<open>A series of allocations always ends. Every block that it hands out lies in memory that was free, has its tag and its size, is not
  allocated before, and no two of them share a byte; what was allocated before stays allocated.\<close>

theorem mallocs_disjoint:
  assumes "heap_view st h al fr A" and "\<forall>r \<in> set rs. request_ok r"
  shows "\<exists>ps st' al' fr'. malloc_list (\<lambda>sz tag. bios_malloc sz h tag) rs st = Some (ps, st') \<and> heap_view st' h al' fr' A \<and> al \<subseteq>\<^sub>m al' \<and>
    length ps = length rs \<and>
    (\<forall>i < length ps. ps ! i \<noteq> 0 \<longrightarrow> (\<exists>m. al (ps ! i - 16) = None \<and> al' (ps ! i - 16) = Some (m, snd (rs ! i)) \<and> need (fst (rs ! i)) \<le> m \<and>
       {ps ! i - 16..<ps ! i - 16 + m} \<subseteq> fr)) \<and>
    (\<forall>i j. i < j \<and> j < length ps \<and> ps ! i \<noteq> 0 \<and> ps ! j \<noteq> 0 \<longrightarrow>
       {ps ! i..<ps ! i + unat (fst (rs ! i))} \<inter> {ps ! j..<ps ! j + unat (fst (rs ! j))} = {})"
proof -
  obtain ps st' al' fr' where m: "malloc_list (\<lambda>sz tag. bios_malloc sz h tag) rs st = Some (ps, st')" "heap_view st' h al' fr' A" "al \<subseteq>\<^sub>m al'"
    "length ps = length rs" and e: "\<forall>i < length ps. ps ! i \<noteq> 0 \<longrightarrow> (\<exists>m. 16 \<le> ps ! i \<and> al (ps ! i - 16) = None \<and> al' (ps ! i - 16) = Some (m, snd (rs ! i)) \<and>
       need (fst (rs ! i)) \<le> m \<and> {ps ! i - 16..<ps ! i - 16 + m} \<subseteq> fr)" and d: "distinct [p \<leftarrow> ps. p \<noteq> 0]"
    using heap.malloc_list_ok [OF assms] by blast
  have dd: "{ps ! i..<ps ! i + unat (fst (rs ! i))} \<inter> {ps ! j..<ps ! j + unat (fst (rs ! j))} = {}"
    if ij: "i < j" "j < length ps" "ps ! i \<noteq> 0" "ps ! j \<noteq> 0" for i j
  proof -
    have "i < length ps" using ij by simp
    from e [rule_format, OF this ij(3)] obtain m where p: "16 \<le> ps ! i" "al' (ps ! i - 16) = Some (m, snd (rs ! i))" "need (fst (rs ! i)) \<le> m" by blast
    from e [rule_format, OF ij(2,4)] obtain k where q: "16 \<le> ps ! j" "al' (ps ! j - 16) = Some (k, snd (rs ! j))" "need (fst (rs ! j)) \<le> k" by blast
    have "ps ! i \<noteq> ps ! j" by (rule distinct_filter_nth [OF d ij(1,2)]) (use ij in simp)
    then have "ps ! j - 16 \<noteq> ps ! i - 16" using p(1) q(1) by simp
    from heap_view_disjoint(1) [OF m(2) p(2) this q(2)] have dis: "{ps ! i - 16..<ps ! i - 16 + m} \<inter> {ps ! j - 16..<ps ! j - 16 + k} = {}" .
    have "unat sz + 16 \<le> need sz" for sz by (simp add: need_def)
    from this [of "fst (rs ! i)"] this [of "fst (rs ! j)"] have
      "{ps ! i..<ps ! i + unat (fst (rs ! i))} \<subseteq> {ps ! i - 16..<ps ! i - 16 + m}" "{ps ! j..<ps ! j + unat (fst (rs ! j))} \<subseteq> {ps ! j - 16..<ps ! j - 16 + k}"
      using p q by auto
    then show ?thesis using dis by blast
  qed
  show ?thesis
    by (rule exI [of _ ps], rule exI [of _ st'], rule exI [of _ al'], rule exI [of _ fr'], intro conjI allI impI m) (use e dd in blast)+
qed

theorem mallocs_disjoint_witness:
  "\<exists>ps st'. malloc_list (\<lambda>sz tag. bios_malloc sz HEAP_MAIN tag) [(8, 2), (40, 3), (1000, 2)] demo_arena = Some (ps, st') \<and> length ps = 3"
  using mallocs_disjoint [OF demo_main, of "[(8, 2), (40, 3), (1000, 2)]"] by (auto simp: request_ok_def)

text \<open>C14. \<open>bios_realloc\<close> of a block of the main heap: it fails only when no free range holds the new size, and then changes nothing; otherwise the
  block has the new size, in its old place or in another, the contents of the old block are at its start up to the smaller of the two sizes,
  no byte outside the new block changes, and the memory of the old block that is not part of the new one is free. A block that moves gets
  the tag of the core.\<close>

theorem realloc_correct:
  assumes "heap_view st HEAP_MAIN al fr A" and "al q = Some (n, t)" and "sz \<noteq> 0" and "unat sz \<le> 2 ^ 32 - 32"
  shows "\<exists>r st'. bios_realloc (q + 16) sz st = Some (r, st') \<and>
    (if r = 0 then st' = st \<and> \<not> (\<exists>a. {a..<a + need sz} \<subseteq> fr)
     else \<exists>m. need sz \<le> m \<and>
       heap_view st' HEAP_MAIN (al(q := None, r - 16 \<mapsto> (m, if r = q + 16 then t else MALLOC_CORE))) (fr \<union> {q..<q + n} - {r - 16..<r - 16 + m}) A \<and>
       (\<forall>i < min (unat sz) (n - 16). amem st' (r + i) = amem st (q + 16 + i)) \<and>
       (\<forall>a. a \<notin> {r..<r + unat sz} \<longrightarrow> amem st' a = amem st a))"
  by (rule realloc_view [OF assms])

theorem realloc_correct_witness: "\<exists>r st'. bios_realloc 1040 100 demo_arena = Some (r, st') \<and> (r = 0 \<longrightarrow> st' = demo_arena)"
  using realloc_correct [OF demo_main, of 1024 64 2 100] by (fastforce split: if_splits)

text \<open>C16. \<open>__free_tagged\<close> ends and frees exactly the blocks with the tag, in both heaps, although each release may merge the block with its neighbours
  while the list of the blocks is being walked.\<close>

theorem free_tagged_correct:
  assumes "heap_view st HEAP_MAIN al fr A" and "heap_view st HEAP_LOWMEM al' fr' B" and "A \<inter> B = {}"
  shows "\<exists>st'. free_tagged tag st = Some st' \<and> amem st' = amem st \<and> heap_view st' HEAP_MAIN (without_tag tag al) (fr \<union> tag_memory tag al) A \<and>
    heap_view st' HEAP_LOWMEM (without_tag tag al') (fr' \<union> tag_memory tag al') B"
proof -
  obtain s1 where s1: "free_tagged_loop tag (mhead st HEAP_MAIN) st (anext st (mhead st HEAP_MAIN)) = Some s1"
    "heap_view s1 HEAP_MAIN (without_tag tag al) (fr \<union> tag_memory tag al) A" and o1: "outside st s1 A"
    using free_tagged_view [OF assms(1)] by blast
  have BA: "B \<inter> A = {}" using assms(3) by auto
  have v: "heap_view s1 HEAP_LOWMEM al' fr' B" by (rule heap_view_outside [OF assms(2) o1 BA])
  obtain s2 where s2: "free_tagged_loop tag (mhead s1 HEAP_LOWMEM) s1 (anext s1 (mhead s1 HEAP_LOWMEM)) = Some s2"
    "heap_view s2 HEAP_LOWMEM (without_tag tag al') (fr' \<union> tag_memory tag al') B" and o2: "outside s1 s2 B"
    using free_tagged_view [OF v] by blast
  have "heap_view s2 HEAP_MAIN (without_tag tag al) (fr \<union> tag_memory tag al) A" by (rule heap_view_outside [OF s1(2) o2 assms(3)])
  moreover have "amem s2 = amem st" using o1 o2 by (simp add: outside_def)
  ultimately show ?thesis using s1(1) s2 by (simp add: free_tagged_def)
qed

theorem free_tagged_correct_witness:
  "\<exists>st'. free_tagged MALLOC_MODULE demo_arena = Some st' \<and> heap_view st' HEAP_LOWMEM Map.empty {512..<560} (insert 128 {512..<560})"
proof -
  have "without_tag MALLOC_MODULE [512 \<mapsto> (48, 3)] = Map.empty" "tag_memory MALLOC_MODULE [512 \<mapsto> (48, 3)] = {512..<560}"
    by (auto simp: without_tag_def tag_memory_def MALLOC_MODULE_def split: if_splits)
  then show ?thesis using free_tagged_correct [OF demo_main demo_low, of MALLOC_MODULE] by auto
qed

end
