(* ===== verification/HeapInit.thy ===== *)
theory HeapInit
  imports HeapSpec E820
begin

section \<open>Memory scan and initialisation of the heaps\<close>

text \<open>
  \<open>bios_scan_memory\<close> of \<open>core/bios.c\<close>: the ranges that the BIOS reports, passed one by one to a callback; and its composition with
  \<open>mem_init\<close> of \<open>core/mem/init.c\<close>, whose callback turns the memory above \<open>free_high_memory\<close> into the main heap. The answers of the BIOS are an
  argument: those of INT 15h AX=E820h are a list, one per call, and the result is \<open>None\<close> when the code asks for more of them.
\<close>

subsection \<open>The scan\<close>

record bios_mem =
  bm_int12 :: u16
  bm_ebda :: u16
  bm_e820 :: "e820_reply list"
  bm_e801 :: "bool \<times> u16 \<times> u16"
  bm_e88 :: "bool \<times> u16 \<times> u16"

text \<open>The registers of the answers: carry, CX and DX for E801h; carry, AX and CX for 88h.\<close>

definition dos_memory :: "u16 \<Rightarrow> u16 \<Rightarrow> addr_t" where
  "dos_memory ax ebda_seg =
    (let dosmem = push_bit 10 (ucast ax)
     in if dosmem < 32 * 1024 \<or> dosmem > 640 * 1024 then
          if ebda_seg \<ge> 0x8000 \<and> ebda_seg < 0xa000 then push_bit 4 (ucast ebda_seg) else 640 * 1024
        else dosmem)"

definition e820_clip :: "u64 \<Rightarrow> u64 \<Rightarrow> u64 \<times> u64" where
  "e820_clip start len =
    (let (start, len) = (if start < 0x100000 then (0x100000, if len > 0x100000 - start then len - (0x100000 - start) else 0) else (start, len));
         maxlen = 0x100000000 - start
     in (start, if len > maxlen then maxlen else len))"

datatype 's e820_result = E820_return int 's | E820_done bool 's

fun e820_scan :: "'s callback \<Rightarrow> e820_reply list \<Rightarrow> bool \<Rightarrow> 's \<Rightarrow> 's e820_result option" where
  "e820_scan callback [] memfound s = None"
| "e820_scan callback (r # rs) memfound s =
    (if r_cf r \<or> r_eax r \<noteq> 0x534d4150 \<or> r_ecx r < 20 then Some (E820_done memfound s)
     else
       let (start, len) = e820_clip (b_base r) (b_len r);
           type = (if b_type r = 1 then SMT_FREE else SMT_RESERVED)
       in do { (rv, memfound, s) \<leftarrow> (if b_base r < 0x100000000 \<and> len \<noteq> 0
                 then do { (rv, s) \<leftarrow> callback (ucast start) (ucast len) type s; Some (rv, True, s) }
                 else Some (0, memfound, s));
               if rv \<noteq> 0 then Some (E820_return rv s)
               else if r_ebx r = 0 then Some (E820_done memfound s)
               else e820_scan callback rs memfound s })"

definition old_scan :: "bios_mem \<Rightarrow> 's callback \<Rightarrow> 's \<Rightarrow> (int \<times> 's) option" where
  "old_scan b callback s =
    (case bm_e801 b of (cf, cx, dx) \<Rightarrow>
       if \<not> cf \<and> cx \<noteq> 0 then
         do { (rv, s) \<leftarrow> callback (push_bit 20 1) (push_bit 10 (ucast cx)) SMT_FREE s;
              if rv \<noteq> 0 then Some (rv, s)
              else if dx \<noteq> 0 then callback (push_bit 20 16) (push_bit 16 (ucast dx)) SMT_FREE s
              else Some (0, s) }
       else
         (case bm_e88 b of (cf, ax, cx) \<Rightarrow>
            if \<not> cf \<and> ax \<noteq> 0 then callback (push_bit 20 1) (push_bit 10 (ucast cx)) SMT_FREE s else Some (0, s)))"

text \<open>\<open>lz\<close> and \<open>lf\<close> are the allocation and the release of the buffer for the answers.\<close>

definition bios_scan_memory :: "bios_mem \<Rightarrow> (u32 \<Rightarrow> 's \<Rightarrow> (ptr \<times> 's) option) \<Rightarrow> (ptr \<Rightarrow> 's \<Rightarrow> 's) \<Rightarrow> 's callback \<Rightarrow> 's \<Rightarrow> (int \<times> 's) option" where
  "bios_scan_memory b lz lf callback s =
    do { (rv, s) \<leftarrow> callback 0x510 (dos_memory (bm_int12 b) (bm_ebda b) - 0x510) SMT_FREE s;
         if rv \<noteq> 0 then Some (rv, s)
         else do { (e820buf, s) \<leftarrow> lz 20 s;
                   if e820buf = 0 then Some (- 1, s)
                   else do { r \<leftarrow> e820_scan callback (bm_e820 b) False s;
                             case r of
                               E820_return rv s \<Rightarrow> Some (rv, s)
                             | E820_done memfound s \<Rightarrow>
                                 let s = lf e820buf s
                                 in if memfound then Some (0, s) else old_scan b callback s } } }"

subsection \<open>The scan as a list of ranges\<close>

type_synonym area = "addr_t \<times> addr_t \<times> syslinux_memmap_types"

fun run_areas :: "'s callback \<Rightarrow> area list \<Rightarrow> 's \<Rightarrow> 's option" where
  "run_areas callback [] s = Some s"
| "run_areas callback ((start, len, type) # as) s = do { (rv, s) \<leftarrow> callback start len type s; run_areas callback as s }"

definition quiet :: "'s callback \<Rightarrow> bool" where
  "quiet callback \<longleftrightarrow> (\<forall>start len type s rv s'. callback start len type s = Some (rv, s') \<longrightarrow> rv = 0)"

definition e820_area :: "e820_reply \<Rightarrow> area list" where
  "e820_area r =
    (case e820_clip (b_base r) (b_len r) of (start, len) \<Rightarrow>
       if b_base r < 0x100000000 \<and> len \<noteq> 0 then [(ucast start, ucast len, if b_type r = 1 then SMT_FREE else SMT_RESERVED)] else [])"

fun e820_areas :: "e820_reply list \<Rightarrow> area list option" where
  "e820_areas [] = None"
| "e820_areas (r # rs) =
    (if r_cf r \<or> r_eax r \<noteq> 0x534d4150 \<or> r_ecx r < 20 then Some []
     else if r_ebx r = 0 then Some (e820_area r)
     else map_option (\<lambda>as. e820_area r @ as) (e820_areas rs))"

definition old_areas :: "bios_mem \<Rightarrow> area list" where
  "old_areas b =
    (case bm_e801 b of (cf, cx, dx) \<Rightarrow>
       if \<not> cf \<and> cx \<noteq> 0 then (0x100000, push_bit 10 (ucast cx), SMT_FREE) # (if dx \<noteq> 0 then [(0x1000000, push_bit 16 (ucast dx), SMT_FREE)] else [])
       else (case bm_e88 b of (cf, ax, cx) \<Rightarrow> if \<not> cf \<and> ax \<noteq> 0 then [(0x100000, push_bit 10 (ucast cx), SMT_FREE)] else []))"

lemma run_areas_append: "run_areas cb (as @ bs) s = Option.bind (run_areas cb as s) (run_areas cb bs)"
proof (induction as arbitrary: s)
  case (Cons a as)
  then show ?case by (cases a) (auto split: Option.bind_splits)
qed simp

lemma quietD: "quiet cb \<Longrightarrow> cb start len type s = Some (rv, s') \<Longrightarrow> rv = 0"
  unfolding quiet_def by blast

lemma quiet_cases: "quiet cb \<Longrightarrow> cb start len type s = None \<or> (\<exists>s'. cb start len type s = Some (0, s'))"
  by (cases "cb start len type s") (auto dest: quietD)

lemma run_one: "quiet cb \<Longrightarrow> cb start len type s = map_option (Pair 0) (run_areas cb [(start, len, type)] s)"
  by (cases "cb start len type s") (auto dest: quietD)

lemma e820_scan_areas:
  "quiet cb \<Longrightarrow> e820_areas rs = Some as \<Longrightarrow>
   e820_scan cb rs memfound s = map_option (E820_done (memfound \<or> as \<noteq> [])) (run_areas cb as s)"
proof (induction rs arbitrary: memfound s as)
  case (Cons r rs)
  show ?case
  proof (cases "r_cf r \<or> r_eax r \<noteq> 0x534d4150 \<or> r_ecx r < 20")
    case True
    then show ?thesis using Cons.prems by auto
  next
    case False
    obtain start len where c: "e820_clip (b_base r) (b_len r) = (start, len)" by (cases "e820_clip (b_base r) (b_len r)")
    let ?t = "if b_type r = 1 then SMT_FREE else SMT_RESERVED"
    have step: "e820_scan cb (r # rs) memfound s =
      Option.bind (run_areas cb (e820_area r) s) (\<lambda>s. if r_ebx r = 0 then Some (E820_done (memfound \<or> e820_area r \<noteq> []) s)
        else e820_scan cb rs (memfound \<or> e820_area r \<noteq> []) s)"
      using False c run_one [OF Cons.prems(1), of "ucast start" "ucast len" ?t s]
      by (cases "run_areas cb [(ucast start, ucast len, ?t)] s") (auto simp: e820_area_def)
    show ?thesis
    proof (cases "r_ebx r = 0")
      case True
      then have "as = e820_area r" using Cons.prems(2) False by simp
      then show ?thesis unfolding step using True by (cases "run_areas cb as s") auto
    next
      case ne: False
      then obtain as' where as: "e820_areas rs = Some as'" "as = e820_area r @ as'" using Cons.prems(2) False by auto
      have "e820_scan cb (r # rs) memfound s = Option.bind (run_areas cb (e820_area r) s) (\<lambda>s. map_option (E820_done (memfound \<or> as \<noteq> [])) (run_areas cb as' s))"
        unfolding step using Cons.IH [OF Cons.prems(1) as(1)] ne as(2) by simp
      then show ?thesis unfolding as(2) run_areas_append by (cases "run_areas cb (e820_area r) s") simp_all
    qed
  qed
qed simp

lemma old_scan_areas: "quiet cb \<Longrightarrow> old_scan b cb s = map_option (Pair 0) (run_areas cb (old_areas b) s)"
proof -
  assume q: "quiet cb"
  obtain cf cx dx where e: "bm_e801 b = (cf, cx, dx)" by (cases "bm_e801 b")
  obtain cf' ax cx' where e': "bm_e88 b = (cf', ax, cx')" by (cases "bm_e88 b")
  have p: "push_bit 20 (1 :: u32) = 0x100000" "push_bit 20 (16 :: u32) = 0x1000000" by simp_all
  note Q = quiet_cases [OF q]
  show ?thesis
  proof (cases "\<not> cf \<and> cx \<noteq> 0")
    case True
    from Q [of "0x100000" "push_bit 10 (ucast cx)" SMT_FREE s] show ?thesis
    proof (elim disjE exE)
      fix s'
      assume s': "cb 0x100000 (push_bit 10 (ucast cx)) SMT_FREE s = Some (0, s')"
      show ?thesis unfolding old_scan_def old_areas_def e e' prod.case p
        using True s' Q [of "0x1000000" "push_bit 16 (ucast dx)" SMT_FREE s'] by auto
    qed (use True in \<open>simp add: old_scan_def old_areas_def e e' p\<close>)
  next
    case False
    then show ?thesis unfolding old_scan_def old_areas_def e e' prod.case p
      using Q [of "0x100000" "push_bit 10 (ucast cx')" SMT_FREE s] by auto
  qed
qed

lemma bios_scan_memory_areas:
  assumes q: "quiet cb" and as: "e820_areas (bm_e820 b) = Some as"
  shows "bios_scan_memory b lz lf cb s =
    do { s \<leftarrow> run_areas cb [(0x510, dos_memory (bm_int12 b) (bm_ebda b) - 0x510, SMT_FREE)] s; (p, s) \<leftarrow> lz 20 s;
         if p = 0 then Some (- 1, s)
         else do { s \<leftarrow> run_areas cb as s; s \<leftarrow> run_areas cb (if as = [] then old_areas b else []) (lf p s); Some (0, s) } }"
proof -
  let ?d = "dos_memory (bm_int12 b) (bm_ebda b) - 0x510"
  have e: "Option.bind (e820_scan cb (bm_e820 b) False s) (\<lambda>r. case r of E820_return rv s \<Rightarrow> Some (rv, s)
       | E820_done memfound s \<Rightarrow> let s = lf p s in if memfound then Some (0, s) else old_scan b cb s) =
     do { s \<leftarrow> run_areas cb as s; s \<leftarrow> run_areas cb (if as = [] then old_areas b else []) (lf p s); Some (0, s) }" for p s
    unfolding e820_scan_areas [OF q as]
    by (cases "run_areas cb as s") (auto simp: old_scan_areas [OF q] map_conv_bind_option comp_def)
  from quiet_cases [OF q, of "0x510" ?d SMT_FREE s] show ?thesis
    unfolding bios_scan_memory_def e by auto
qed

subsection \<open>New memory for a heap\<close>

lemma inject_view:
  assumes v: "heap_view st h al fr A" and new: "new_block st h ah n" and disj: "A \<inter> {ah..<ah + n} = {}"
  shows "\<exists>st'. inject_free_block ah st = Some st' \<and> heap_view st' h al (fr \<union> {ah..<ah + n}) (A \<union> {ah..<ah + n}) \<and> outside st st' (A \<union> {ah..<ah + n})"
proof -
  obtain bs fs where b: "heap_ok st h bs fs" "al = alloc st bs" "fr = free_mem st bs" "A = span st h bs" using v by (rule heap_viewE)
  from inject_free_block_effect [OF b(1) new disj [unfolded b(4)]] show ?thesis unfolding heap_view_def b(2-4) by blast
qed

lemma fill_inject:
  fixes len :: u32
  assumes v: "heap_view st h al fr A" and h: "h = HEAP_MAIN \<or> h = HEAP_LOWMEM" and b: "32 \<le> fp" "32 \<le> unat len" "fp + unat len < 2 ^ 32"
    and n: "n = unat len div 16 * 16" and disj: "A \<inter> {fp..<fp + n} = {}"
  defines "st1 \<equiv> set_size fp len (st\<lparr>attrs := (attrs st)(fp := ARENA_TYPE_USED OR push_bit 2 h)\<rparr>)"
  shows "\<exists>st'. inject_free_block fp st1 = Some st' \<and> heap_view st' h al (fr \<union> {fp..<fp + n}) (A \<union> {fp..<fp + n}) \<and> outside st st' (A \<union> {fp..<fp + n})"
proof -
  have n32: "32 \<le> n" "n \<le> unat len" using b(2) n by auto
  have at: "attrs st1 fp = ARENA_SIZE_SET (ARENA_TYPE_USED OR push_bit 2 h) len" by (simp add: st1_def set_size_def)
  have g: "ARENA_HEAP_GET (ARENA_TYPE_USED OR push_bit 2 h) = h" "ARENA_TYPE_GET (ARENA_TYPE_USED OR push_bit 2 h) = ARENA_TYPE_USED"
    using h by (auto simp: HEAP_MAIN_def HEAP_LOWMEM_def ARENA_TYPE_USED_def arena_gets arena_masks)
  have new: "new_block st1 h fp n"
    using b n n32 by (simp add: new_block_def at asize_def arena_simps g unat_size_mask)
  have out: "outside st st1 {fp}" by (auto simp: outside_def st1_def set_size_def)
  have "fp \<in> {fp..<fp + n}" using n32 by simp
  then have "A \<inter> {fp} = {}" using disj by auto
  from heap_view_outside [OF v out this] have v1: "heap_view st1 h al fr A" .
  have "outside st st1 (A \<union> {fp..<fp + n})" using out n32 by (auto simp: outside_def)
  then show ?thesis using inject_view [OF v1 new disj] outside_trans by blast
qed

text \<open>The part of an area that goes to the heap, in whole units of 16 bytes, when \<open>m\<close> is the end of the memory in use.\<close>

definition high_block :: "nat \<Rightarrow> area \<Rightarrow> ptr set" where
  "high_block m = (\<lambda>(start, len, type).
     let b = max (unat start) m; e = min (unat start + unat len) (unat E820_MEM_MAX)
     in if 0x100000 \<le> start \<and> start \<le> E820_MEM_MAX \<and> type = SMT_FREE \<and> b + 32 \<le> e then {b..<b + (e - b) div 16 * 16} else {})"

lemma scan_highmem_area_step:
  fixes len :: u32
  assumes v: "heap_view st HEAP_MAIN al fr A" and A: "A \<subseteq> {..<unat m}" and m: "m \<le> E820_MEM_MAX"
    and s: "0x100000 \<le> start" "start \<le> E820_MEM_MAX"
  defines "b \<equiv> max (unat start) (unat m)"
  defines "n \<equiv> min (unat (if start < m then len - (m - start) else len)) (unat E820_MEM_MAX - b)"
  defines "B \<equiv> if 32 \<le> n then {b..<b + n div 16 * 16} else {}"
  shows "b \<le> b + n" and "b + n \<le> unat E820_MEM_MAX"
    and "\<exists>st'. scan_highmem_area start len SMT_FREE (m, st) = Some (0, word_of_nat (b + n), st') \<and> heap_view st' HEAP_MAIN al (fr \<union> B) (A \<union> B) \<and>
      outside st st' (A \<union> B)"
proof -
  define w where "w = (if start < m then m else start)"
  define l0 where "l0 = (if start < m then len - (m - start) else len)"
  define l where "l = (if l0 > E820_MEM_MAX - w then E820_MEM_MAX - w else l0)"
  have w: "unat w = b" "w \<le> E820_MEM_MAX" using m s by (auto simp: w_def b_def word_less_nat_alt max_def)
  then have bm: "b \<le> unat E820_MEM_MAX" by (auto simp: word_le_nat_alt)
  have "n = min (unat l0) (unat E820_MEM_MAX - b)" by (simp add: n_def l0_def)
  then have l: "unat l = n" using w bm by (auto simp: l_def unat_sub word_less_nat_alt)
  show le: "b \<le> b + n" "b + n \<le> unat E820_MEM_MAX" using bm by (auto simp: n_def)
  have mx: "unat E820_MEM_MAX = 0xfff00000" by (simp add: E820_MEM_MAX_def)
  have wl: "w + l = word_of_nat (b + n)" by (simp flip: w(1) l)
  have c: "\<not> (start < 0x100000 \<or> start > E820_MEM_MAX \<or> SMT_FREE \<noteq> SMT_FREE)" using s by auto
  let ?st1 = "set_size (unat w) l (st\<lparr>attrs := (attrs st)(unat w := ARENA_TYPE_USED OR push_bit 2 HEAP_MAIN)\<rparr>)"
  have eq: "scan_highmem_area start len SMT_FREE (m, st) =
    Option.bind (if l \<ge> 2 * sizeof_arena_header then inject_free_block (unat w) ?st1 else Some st) (\<lambda>st. Some (0, w + l, st))"
    unfolding scan_highmem_area_def prod.case if_not_P [OF c] by (simp add: w_def l_def l0_def Let_def)
  have big: "l \<ge> 2 * sizeof_arena_header \<longleftrightarrow> 32 \<le> n" by (simp add: l [symmetric] word_le_nat_alt sizeof_arena_header_def)
  show "\<exists>st'. scan_highmem_area start len SMT_FREE (m, st) = Some (0, word_of_nat (b + n), st') \<and> heap_view st' HEAP_MAIN al (fr \<union> B) (A \<union> B) \<and>
      outside st st' (A \<union> B)"
  proof (cases "32 \<le> n")
    case True
    have 1: "32 \<le> unat w" using s(1) w(1) by (auto simp: b_def word_le_nat_alt)
    have 2: "32 \<le> unat l" "unat w + unat l < 2 ^ 32" using True l w(1) le(2) mx by auto
    have 3: "A \<inter> {unat w..<unat w + n div 16 * 16} = {}" using A w(1) by (auto simp: b_def)
    from fill_inject [OF v _ 1 2 _ 3] l obtain st' where "inject_free_block (unat w) ?st1 = Some st'"
      "heap_view st' HEAP_MAIN al (fr \<union> {b..<b + n div 16 * 16}) (A \<union> {b..<b + n div 16 * 16})" "outside st st' (A \<union> {b..<b + n div 16 * 16})"
      unfolding w(1) by auto
    then show ?thesis unfolding eq big wl using True by (simp add: B_def)
  next
    case False
    then show ?thesis unfolding eq big wl using v by (simp add: B_def outside_def)
  qed
qed

text \<open>
  The areas that count are in order and do not overlap, and none of them ends below the memory in use: the subtraction of the part in
  use does not wrap.
\<close>

definition usable :: "area \<Rightarrow> bool" where
  "usable = (\<lambda>(start, len, type). 0x100000 \<le> start \<and> start \<le> E820_MEM_MAX \<and> type = SMT_FREE)"

definition area_end :: "area \<Rightarrow> nat" where
  "area_end = (\<lambda>(start, len, type). unat start + unat len)"

definition areas_ok :: "nat \<Rightarrow> area list \<Rightarrow> bool" where
  "areas_ok m as \<longleftrightarrow> sorted_wrt (\<lambda>a c. area_end a \<le> unat (fst c)) (filter usable as) \<and> (\<forall>a \<in> set as. usable a \<longrightarrow> m \<le> area_end a)"

lemma scan_usable:
  assumes v: "heap_view st HEAP_MAIN al fr A" and A: "A \<subseteq> {..<unat m}" and m: "m \<le> E820_MEM_MAX" "unat f \<le> unat m"
    and u: "usable (start, len, type)" "unat f \<le> unat start + unat len" and mf: "m = f \<or> unat m \<le> unat start"
  shows "\<exists>m' st'. scan_highmem_area start len type (m, st) = Some (0, m', st') \<and> unat m' = min (unat start + unat len) (unat E820_MEM_MAX) \<and>
    heap_view st' HEAP_MAIN al (fr \<union> high_block (unat f) (start, len, type)) (A \<union> high_block (unat f) (start, len, type)) \<and>
    outside st st' (A \<union> high_block (unat f) (start, len, type)) \<and> A \<union> high_block (unat f) (start, len, type) \<subseteq> {..<unat m'}"
proof -
  have s: "0x100000 \<le> start" "start \<le> E820_MEM_MAX" "type = SMT_FREE" using u(1) by (auto simp: usable_def)
  define b where "b = max (unat start) (unat m)"
  define n where "n = min (unat (if start < m then len - (m - start) else len)) (unat E820_MEM_MAX - b)"
  note S = scan_highmem_area_step [OF v A m(1) s(1,2), folded b_def, where len = len, folded n_def]
  have mx: "unat m \<le> unat E820_MEM_MAX" "unat start \<le> unat E820_MEM_MAX" "unat E820_MEM_MAX = 0xfff00000"
    using m(1) s(2) by (auto simp: word_le_nat_alt E820_MEM_MAX_def)
  have l: "b + unat (if start < m then len - (m - start) else len) = unat start + unat len \<and> b = max (unat start) (unat f)"
  proof (cases "start < m")
    case True
    then have lt: "unat start < unat m" "m = f" using mf by (auto simp: word_less_nat_alt)
    have "unat (m - start) = unat m - unat start" using True by (simp add: unat_sub)
    moreover from this have "m - start \<le> len" using u(2) lt by (simp add: word_le_nat_alt)
    ultimately show ?thesis using True lt u(2) by (simp add: unat_sub b_def)
  next
    case False
    then show ?thesis using m(2) by (simp add: word_less_nat_alt b_def)
  qed
  have bn: "b + n = min (unat start + unat len) (unat E820_MEM_MAX)" using l mx by (auto simp: n_def b_def min_def)
  have B: "high_block (unat f) (start, len, type) = (if 32 \<le> n then {b..<b + n div 16 * 16} else {})"
  proof -
    have "high_block (unat f) (start, len, type) = (if b + 32 \<le> b + n then {b..<b + (b + n - b) div 16 * 16} else {})"
      unfolding bn using s l by (simp add: high_block_def Let_def)
    then show ?thesis by simp
  qed
  have m': "unat (word_of_nat (b + n) :: u32) = b + n" using S(2) mx(3) by (simp add: unsigned_of_nat take_bit_nat_eq_self del: of_nat_add)
  have "A \<subseteq> {..<b + n}" using A by (auto simp: b_def)
  moreover have "{b..<b + n div 16 * 16} \<subseteq> {..<b + n}" using div_times_less_eq_dividend [of n 16] by auto
  ultimately have sub: "A \<union> high_block (unat f) (start, len, type) \<subseteq> {..<b + n}" unfolding B by auto
  from S(3) obtain st' where "scan_highmem_area start len SMT_FREE (m, st) = Some (0, word_of_nat (b + n), st')"
    "heap_view st' HEAP_MAIN al (fr \<union> high_block (unat f) (start, len, type)) (A \<union> high_block (unat f) (start, len, type))"
    "outside st st' (A \<union> high_block (unat f) (start, len, type))" unfolding B by blast
  then show ?thesis using m' sub bn s(3) by (intro exI [of _ "word_of_nat (b + n)"] exI [of _ st']) simp
qed

lemma high_block_unusable: "\<not> usable a \<Longrightarrow> high_block m a = {}"
  by (auto simp: usable_def high_block_def split: prod.splits)

lemma high_block_ge: "high_block m a \<subseteq> {m..}"
  by (auto simp: high_block_def Let_def split: prod.splits if_splits)

lemma scan_unusable: "\<not> usable (start, len, type) \<Longrightarrow> scan_highmem_area start len type s = Some (0, s)"
  by (cases s) (auto simp: usable_def scan_highmem_area_def)

lemma run_high_areas:
  assumes "heap_view st HEAP_MAIN al fr A" and "A \<subseteq> {..<unat m}" and "m \<le> E820_MEM_MAX" "unat f \<le> unat m"
    and "areas_ok (unat f) as" and "m = f \<or> (\<forall>a \<in> set as. usable a \<longrightarrow> unat m \<le> unat (fst a))"
    and "heap_view st HEAP_LOWMEM al' fr' A'" and "A' \<subseteq> {..<unat f}" and "A \<inter> A' = {}"
  shows "\<exists>m' st' A''. run_areas scan_highmem_area as (m, st) = Some (m', st') \<and>
    heap_view st' HEAP_MAIN al (fr \<union> \<Union> (high_block (unat f) ` set as)) A'' \<and> heap_view st' HEAP_LOWMEM al' fr' A' \<and> A'' \<inter> A' = {} \<and>
    unat f \<le> unat m' \<and> m' \<le> E820_MEM_MAX"
  using assms
proof (induction as arbitrary: m st fr A)
  case Nil
  then show ?case by auto
next
  case (Cons a as)
  obtain start len type where a: "a = (start, len, type)" by (cases a)
  have ok: "areas_ok (unat f) as" using Cons.prems(5) by (auto simp: areas_ok_def split: if_splits)
  show ?case
  proof (cases "usable a")
    case False
    then have "run_areas scan_highmem_area (a # as) (m, st) = run_areas scan_highmem_area as (m, st)" using scan_unusable a by simp
    moreover have "m = f \<or> (\<forall>a \<in> set as. usable a \<longrightarrow> unat m \<le> unat (fst a))" using Cons.prems(6) by auto
    ultimately show ?thesis using Cons.IH [OF Cons.prems(1-4) ok _ Cons.prems(7-9)] high_block_unusable [OF False] by simp
  next
    case True
    have u: "unat f \<le> unat start + unat len" using Cons.prems(5) True a by (simp add: areas_ok_def area_end_def)
    have mf: "m = f \<or> unat m \<le> unat start" using Cons.prems(6) True a by auto
    let ?B = "high_block (unat f) a"
    from scan_usable [OF Cons.prems(1-4) True [unfolded a] u mf] obtain m' st' where
      s: "scan_highmem_area start len type (m, st) = Some (0, m', st')" and m': "unat m' = min (unat start + unat len) (unat E820_MEM_MAX)"
      and v: "heap_view st' HEAP_MAIN al (fr \<union> ?B) (A \<union> ?B)" and out: "outside st st' (A \<union> ?B)" and sub: "A \<union> ?B \<subseteq> {..<unat m'}"
      unfolding a by blast
    have dis: "(A \<union> ?B) \<inter> A' = {}" using Cons.prems(8,9) high_block_ge [of "unat f" a] by fastforce
    then have "A' \<inter> (A \<union> ?B) = {}" by auto
    from heap_view_outside [OF Cons.prems(7) out this] have low: "heap_view st' HEAP_LOWMEM al' fr' A'" .
    have le: "m' \<le> E820_MEM_MAX" "unat f \<le> unat m'" using m' u Cons.prems(3,4) by (auto simp: word_le_nat_alt)
    have "\<forall>c \<in> set as. usable c \<longrightarrow> unat m' \<le> unat (fst c)"
    proof (intro ballI impI)
      fix c
      assume "c \<in> set as" "usable c"
      then have "c \<in> set (filter usable as)" by simp
      moreover have "\<forall>c \<in> set (filter usable as). area_end a \<le> unat (fst c)"
        using Cons.prems(5) True unfolding areas_ok_def filter.simps by simp
      ultimately have "area_end a \<le> unat (fst c)" by blast
      then show "unat m' \<le> unat (fst c)" using m' a by (simp add: area_end_def)
    qed
    then have "m' = f \<or> (\<forall>c \<in> set as. usable c \<longrightarrow> unat m' \<le> unat (fst c))" by blast
    from Cons.IH [OF v sub le ok this low Cons.prems(8) dis] show ?thesis using s a by (simp add: Un_assoc)
  qed
qed

subsection \<open>Initialisation\<close>

lemma init_heads:
  assumes ne: "mhead st HEAP_MAIN \<noteq> mhead st HEAP_LOWMEM" and h: "h = HEAP_MAIN \<or> h = HEAP_LOWMEM"
  shows "heap_view (init_head HEAP_LOWMEM (init_head HEAP_MAIN st)) h Map.empty {} {mhead st h}"
proof -
  let ?st = "init_head HEAP_LOWMEM (init_head HEAP_MAIN st)"
  have hv: "HEAP_LOWMEM \<noteq> HEAP_MAIN" by (simp add: HEAP_MAIN_def HEAP_LOWMEM_def)
  have l: "anext ?st (mhead st h) = mhead st h" "aprev ?st (mhead st h) = mhead st h" "fnext ?st (mhead st h) = mhead st h"
    "fprev ?st (mhead st h) = mhead st h" "attrs ?st (mhead st h) = ARENA_TYPE_HEAD OR push_bit 2 h" "mhead ?st = mhead st"
    using ne h hv by (auto simp: init_head_def Let_def)
  have "\<not> is_free ?st (mhead st h)"
    using h unfolding is_free_def l by (auto simp: HEAP_MAIN_def HEAP_LOWMEM_def ARENA_TYPE_HEAD_def ARENA_TYPE_FREE_def arena_gets arena_masks)
  then have "heap_ok ?st h [] []" using l by (simp add: heap_okx_def ring_def)
  from heap_viewI [OF this] show ?thesis using l(6) by (simp add: alloc_def [abs_def] free_mem_def span_def)
qed

text \<open>The buffer for the answers of the BIOS comes from the low heap, and goes back there.\<close>

lemma lzalloc_view:
  assumes v: "heap_view st HEAP_LOWMEM al fr A" and run: "{a..<a + 48} \<subseteq> fr"
  shows "\<exists>q m st'. lzalloc 20 st = Some (q + 16, st') \<and> al q = None \<and> {q..<q + m} \<subseteq> fr \<and>
    heap_view st' HEAP_LOWMEM (al(q \<mapsto> (m, MALLOC_CORE))) (fr - {q..<q + m}) A \<and> (\<forall>h al' fr' B. heap_view st h al' fr' B \<longrightarrow> A \<inter> B = {} \<longrightarrow> heap_view st' h al' fr' B)"
proof -
  have n: "need 20 = 48" by (simp add: need_def)
  from malloc_view(2) [OF v, of 20 a MALLOC_CORE] run n obtain q m s where m: "bios_malloc 20 HEAP_LOWMEM MALLOC_CORE st = Some (q + 16, s)"
    "48 \<le> m" "{q..<q + m} \<subseteq> fr" "heap_view s HEAP_LOWMEM (al(q \<mapsto> (m, MALLOC_CORE))) (fr - {q..<q + m}) A" and out: "outside st s A" by auto
  have "q \<in> fr" using m(2,3) by auto
  moreover have "q \<notin> fr" if "al q = Some (k, t)" for k t
    using heap_view_disjoint(2,3) [OF v that] by (metis IntI atLeastLessThan_iff empty_iff le_refl less_add_same_cancel1 less_le_trans zero_less_numeral)
  ultimately have "al q = None" by (cases "al q") auto
  moreover have "heap_view s h al' fr' B" if "heap_view st h al' fr' B" "A \<inter> B = {}" for h al' fr' B
    using heap_view_outside [OF that(1) out] that(2) by blast
  ultimately show ?thesis using m by (auto simp: lzalloc_def lmalloc_def heap_view_amem)
qed

definition lz_heap :: "u32 \<Rightarrow> u32 \<times> arena \<Rightarrow> (ptr \<times> u32 \<times> arena) option" where
  "lz_heap sz = (\<lambda>(memsize, st). map_option (\<lambda>(p, st). (p, memsize, st)) (lzalloc sz st))"

definition lf_heap :: "ptr \<Rightarrow> u32 \<times> arena \<Rightarrow> u32 \<times> arena" where
  "lf_heap p = (\<lambda>(memsize, st). (memsize, lfree p st))"

lemma quiet_scan: "quiet scan_highmem_area"
  unfolding quiet_def scan_highmem_area_def by (auto simp: Let_def split: if_splits Option.bind_splits prod.splits)

text \<open>The ranges that the scan reports above 1 MB.\<close>

definition bios_areas :: "bios_mem \<Rightarrow> area list option" where
  "bios_areas b = map_option (\<lambda>as. if as = [] then old_areas b else as) (e820_areas (bm_e820 b))"

lemma bios_scan_heap:
  assumes v: "heap_view st HEAP_MAIN al fr A" and A: "A \<subseteq> {..<unat f}" and f: "f \<le> E820_MEM_MAX"
    and as: "bios_areas b = Some as" "areas_ok (unat f) as"
    and low: "heap_view st HEAP_LOWMEM Map.empty fr' A'" and A': "A' \<subseteq> {..<unat f}" "A \<inter> A' = {}" and run: "{a..<a + 48} \<subseteq> fr'"
  shows "\<exists>m' st' A''. bios_scan_memory b lz_heap lf_heap scan_highmem_area (f, st) = Some (0, m', st') \<and>
    heap_view st' HEAP_MAIN al (fr \<union> \<Union> (high_block (unat f) ` set as)) A'' \<and> heap_view st' HEAP_LOWMEM Map.empty fr' A'"
proof -
  obtain es where es: "e820_areas (bm_e820 b) = Some es" "as = (if es = [] then old_areas b else es)" using as(1) by (auto simp: bios_areas_def)
  have nu: "\<not> usable (0x510, len, SMT_FREE)" for len by (simp add: usable_def)
  have dos: "run_areas scan_highmem_area [(0x510, len, SMT_FREE)] (f, st) = Some (f, st)" for len using scan_unusable [OF nu] by simp
  obtain q m s1 where q: "lzalloc 20 st = Some (q + 16, s1)" "{q..<q + m} \<subseteq> fr'"
    "heap_view s1 HEAP_LOWMEM [q \<mapsto> (m, MALLOC_CORE)] (fr' - {q..<q + m}) A'"
    and o1: "\<forall>h al' fr' B. heap_view st h al' fr' B \<longrightarrow> A' \<inter> B = {} \<longrightarrow> heap_view s1 h al' fr' B"
    using lzalloc_view [OF low run] by blast
  have v1: "heap_view s1 HEAP_MAIN al fr A" using o1 v A'(2) by (simp add: Int_commute)
  have lz: "lz_heap 20 (f, st) = Some (q + 16, f, s1)" by (simp add: lz_heap_def q(1))
  have fr': "fr' - {q..<q + m} \<union> {q..<q + m} = fr'" using q(2) by auto
  have free: "heap_view (lfree (q + 16) s) HEAP_LOWMEM Map.empty fr' A'" "outside s (lfree (q + 16) s) A'"
    if "heap_view s HEAP_LOWMEM [q \<mapsto> (m, MALLOC_CORE)] (fr' - {q..<q + m}) A'" for s
    using free_view [OF that, of q m MALLOC_CORE] fr' by (simp_all add: lfree_def)
  note B = bios_scan_memory_areas [OF quiet_scan es(1), of lz_heap lf_heap "(f, st)", unfolded dos, simplified, unfolded lz, simplified]
  show ?thesis
  proof (cases "es = []")
    case True
    note F = free [OF q(3)]
    have v2: "heap_view (lfree (q + 16) s1) HEAP_MAIN al fr A" using heap_view_outside [OF v1 F(2) A'(2)] .
    have ok: "areas_ok (unat f) (old_areas b)" using as(2) es(2) True by simp
    from run_high_areas [OF v2 A f order_refl ok _ F(1) A'] True es(2) show ?thesis unfolding B by (auto simp: lf_heap_def)
  next
    case False
    have ok: "areas_ok (unat f) es" using as(2) es(2) False by simp
    from run_high_areas [OF v1 A f order_refl ok _ q(3) A'] obtain m' st' A'' where
      r: "run_areas scan_highmem_area es (f, s1) = Some (m', st')" "heap_view st' HEAP_MAIN al (fr \<union> \<Union> (high_block (unat f) ` set es)) A''"
        "heap_view st' HEAP_LOWMEM [q \<mapsto> (m, MALLOC_CORE)] (fr' - {q..<q + m}) A'" "A'' \<inter> A' = {}" by blast
    note F = free [OF r(3)]
    have "heap_view (lfree (q + 16) st') HEAP_MAIN al (fr \<union> \<Union> (high_block (unat f) ` set es)) A''" using heap_view_outside [OF r(2) F(2) r(4)] .
    then show ?thesis unfolding B using False r(1) F(1) es(2) by (auto simp: lf_heap_def)
  qed
qed

subsection \<open>Properties\<close>

text \<open>C17. \<open>mem_init\<close> with the scan of the BIOS memory ends with two well-formed heaps in which nothing is allocated, not even the buffer of the scan: the low
  heap is the memory from its start to the limit of the BIOS, the main heap consists of the free ranges that the BIOS reports, from
  \<open>free_high_memory\<close> up to 4 GB less 1 MB, in whole units of 16 bytes. The ranges of the BIOS are in order, do not overlap and do not end below
  \<open>free_high_memory\<close>.\<close>

theorem mem_init_correct:
  assumes "mhead st HEAP_MAIN \<noteq> mhead st HEAP_LOWMEM" and "mhead st HEAP_MAIN < unat fhm" and "mhead st HEAP_LOWMEM < unat fhm"
    and "mhead st HEAP_MAIN \<notin> {unat low..<unat bfm * 1024}" and "mhead st HEAP_LOWMEM \<notin> {unat low..<unat bfm * 1024}"
    and low: "32 \<le> unat low" "unat low + 48 \<le> unat bfm * 1024" "unat bfm * 1024 \<le> unat fhm" and fhm: "fhm \<le> E820_MEM_MAX"
    and as: "bios_areas b = Some as" "areas_ok (unat fhm) as"
  shows "\<exists>m st' A B. mem_init low bfm fhm (bios_scan_memory b lz_heap lf_heap) st = Some (m, st') \<and>
    heap_view st' HEAP_MAIN Map.empty (\<Union> (high_block (unat fhm) ` set as)) A \<and>
    heap_view st' HEAP_LOWMEM Map.empty {unat low..<unat low + (unat bfm * 1024 - unat low) div 16 * 16} B"
proof -
  let ?st = "init_head HEAP_LOWMEM (init_head HEAP_MAIN st)"
  let ?len = "push_bit 10 (ucast bfm) - low"
  define n where "n = (unat bfm * 1024 - unat low) div 16 * 16"
  have b16: "unat bfm < 2 ^ 16" using unat_less [of bfm] by simp
  have len: "unat ?len = unat bfm * 1024 - unat low"
  proof -
    have u: "unat (ucast bfm :: u32) = unat bfm" using b16 by (simp add: unat_ucast)
    have "unat (push_bit 10 (ucast bfm :: u32)) = unat bfm * 1024" using b16 by (simp add: unat_push_bit u)
    then show ?thesis using low(2) by (simp add: unat_sub word_le_nat_alt)
  qed
  have n: "48 \<le> n" "unat low + n \<le> unat bfm * 1024" using low(2) div_times_less_eq_dividend [of "unat bfm * 1024 - unat low" 16] by (auto simp: n_def)
  note H = init_heads [OF assms(1), of HEAP_MAIN] init_heads [OF assms(1), of HEAP_LOWMEM]
  have dis: "{mhead st HEAP_LOWMEM} \<inter> {unat low..<unat low + n} = {}" using assms(5) n(2) by auto
  have nl: "n = unat ?len div 16 * 16" by (simp add: len n_def)
  have "32 \<le> unat ?len" "unat low + unat ?len < 2 ^ 32" using len low(2) b16 by auto
  from fill_inject [OF H(2) _ low(1) this nl dis] obtain s where
    s: "inject_free_block (unat low) (set_size (unat low) ?len (?st\<lparr>attrs := (attrs ?st)(unat low := ARENA_TYPE_USED OR push_bit 2 HEAP_LOWMEM)\<rparr>)) = Some s"
    and v: "heap_view s HEAP_LOWMEM Map.empty {unat low..<unat low + n} (insert (mhead st HEAP_LOWMEM) {unat low..<unat low + n})"
    and out: "outside ?st s (insert (mhead st HEAP_LOWMEM) {unat low..<unat low + n})" by auto
  have d2: "{mhead st HEAP_MAIN} \<inter> insert (mhead st HEAP_LOWMEM) {unat low..<unat low + n} = {}" using assms(1,4) n(2) by auto
  have v0: "heap_view s HEAP_MAIN Map.empty {} {mhead st HEAP_MAIN}" using heap_view_outside [OF H(1) out d2] by simp
  have "{unat low..<unat low + 48} \<subseteq> {unat low..<unat low + n}" using n(1) by auto
  moreover have "insert (mhead st HEAP_LOWMEM) {unat low..<unat low + n} \<subseteq> {..<unat fhm}" using assms(3) n(2) low(3) by auto
  moreover have "{mhead st HEAP_MAIN} \<subseteq> {..<unat fhm}" using assms(2) by simp
  ultimately obtain m st' A where "bios_scan_memory b lz_heap lf_heap scan_highmem_area (fhm, s) = Some (0, m, st')"
    "heap_view st' HEAP_MAIN Map.empty (\<Union> (high_block (unat fhm) ` set as)) A"
    "heap_view st' HEAP_LOWMEM Map.empty {unat low..<unat low + n} (insert (mhead st HEAP_LOWMEM) {unat low..<unat low + n})"
    using bios_scan_heap [OF v0 _ fhm as v _ d2, of "unat low"] by auto
  then show ?thesis using s by (auto simp: mem_init_def Let_def n_def)
qed

definition demo_bios :: bios_mem where
  "demo_bios = \<lparr>bm_int12 = 639, bm_ebda = 0x9fc0, bm_e820 =
     [\<lparr>r_cf = False, r_eax = 0x534d4150, r_ebx = 1, r_ecx = 20, b_base = 0, b_len = 0x9fc00, b_type = 1\<rparr>,
      \<lparr>r_cf = False, r_eax = 0x534d4150, r_ebx = 0, r_ecx = 20, b_base = 0x100000, b_len = 0x7f00000, b_type = 1\<rparr>],
     bm_e801 = (True, 0, 0), bm_e88 = (True, 0, 0)\<rparr>"

lemma demo_bios_areas: "bios_areas demo_bios = Some [(0x100000, 0x7f00000, SMT_FREE)]"
  by (simp add: bios_areas_def demo_bios_def e820_area_def e820_clip_def Let_def)

theorem mem_init_correct_witness:
  "\<exists>m st' A B. mem_init 0x10000 639 0x110000 (bios_scan_memory demo_bios lz_heap lf_heap) demo_arena = Some (m, st') \<and>
    heap_view st' HEAP_MAIN Map.empty {0x110000..<0x8000000} A \<and> heap_view st' HEAP_LOWMEM Map.empty {0x10000..<0x9fc00} B"
proof -
  have "areas_ok 0x110000 [(0x100000, 0x7f00000, SMT_FREE)]" by (simp add: areas_ok_def usable_def area_end_def E820_MEM_MAX_def)
  moreover have "\<Union> (high_block 0x110000 ` set [(0x100000, 0x7f00000, SMT_FREE)]) = {0x110000..<0x8000000}"
    by (simp add: high_block_def Let_def E820_MEM_MAX_def)
  ultimately show ?thesis
    using mem_init_correct [of demo_arena "0x110000" "0x10000" 639, OF _ _ _ _ _ _ _ _ _ demo_bios_areas]
    by (simp add: demo_arena_def HEAP_MAIN_def HEAP_LOWMEM_def E820_MEM_MAX_def)
qed

text \<open>C39. When the BIOS reports a free range that lies between 1 MB and the memory in use, the length of the rest wraps around below 0: all
  memory from there to 4 GB less 1 MB is entered as free, whether it exists or not.\<close>

theorem scan_highmem_area_underflow:
  assumes v: "heap_view st HEAP_MAIN al fr A" and A: "A \<subseteq> {..<unat m}" and m: "unat m + 32 \<le> unat E820_MEM_MAX"
    and s: "0x100000 \<le> start" "unat start + unat len < unat m"
  shows "\<exists>st'. scan_highmem_area start len SMT_FREE (m, st) = Some (0, E820_MEM_MAX, st') \<and>
    (\<exists>B. heap_view st' HEAP_MAIN al (fr \<union> {unat m..<unat m + (unat E820_MEM_MAX - unat m) div 16 * 16}) B)"
proof -
  have lt: "start < m" using s(2) by (simp add: word_less_nat_alt)
  have le: "m \<le> E820_MEM_MAX" "start \<le> E820_MEM_MAX" using m s(2) by (auto simp: word_le_nat_alt)
  have mx: "unat E820_MEM_MAX = 0xfff00000" by (simp add: E820_MEM_MAX_def)
  have "unat (m - start) = unat m - unat start" using lt by (simp add: unat_sub)
  then have "unat (len - (m - start)) = unat len + 2 ^ 32 - (unat m - unat start)"
    using s(2) by (subst unat_sub_if') (auto simp: word_le_nat_alt)
  then have n: "min (unat (if start < m then len - (m - start) else len)) (unat E820_MEM_MAX - max (unat start) (unat m)) = unat E820_MEM_MAX - unat m"
    using lt s(2) m mx by auto
  have b: "max (unat start) (unat m) = unat m" using s(2) by simp
  have e: "unat m + (unat E820_MEM_MAX - unat m) = unat E820_MEM_MAX" "32 \<le> unat E820_MEM_MAX - unat m" using m by simp_all
  from scan_highmem_area_step(3) [OF v A le(1) s(1) le(2), of len, unfolded n, unfolded b e(1)] show ?thesis
    unfolding if_P [OF e(2)] by auto
qed

theorem scan_highmem_area_underflow_witness:
  "\<exists>st'. scan_highmem_area 0x100000 0x1000 SMT_FREE (0x200000, demo_arena) = Some (0, E820_MEM_MAX, st')"
proof -
  have "insert 64 {1024..<1216} \<subseteq> {..<unat (0x200000 :: u32)}" by auto
  then show ?thesis using scan_highmem_area_underflow [OF demo_main, of "0x200000" "0x100000" "0x1000"] by (auto simp: E820_MEM_MAX_def)
qed

text \<open>C40. A request of nearly 4 GB is granted: the size with its header wraps around to 0, the first free block is handed out with no room for the
  request, and its link to the next block points to itself, so that later walks over the blocks of the heap do not end.\<close>

theorem malloc_size_wraps:
  assumes ok: "heap_ok st h bs (fp # fs)" and sz: "2 ^ 32 - 31 \<le> unat sz" "unat sz \<le> 2 ^ 32 - 17"
  shows "\<exists>st'. bios_malloc sz h tag st = Some (fp + 16, st') \<and> asize st' fp = 0 \<and> anext st' fp = fp"
proof -
  note D = heap_okD [OF ok]
  have "fp \<in> set bs" using D(3) by auto
  then have "32 \<le> asize st fp" using D(5) by (simp add: block_ok_def)
  then have big: "ARENA_SIZE_GET (attrs st fp) \<ge> 0 + 2 * sizeof_arena_header"
    by (simp add: word_le_nat_alt asize_def sizeof_arena_header_def)
  have sz0: "sz \<noteq> 0" using sz(1) by auto
  have r: "arena_round sz = 0"
  proof -
    have e: "sz + 2 * sizeof_arena_header - 1 = sz + 31" by (simp add: sizeof_arena_header_def)
    have "unat (arena_round sz) = unat (sz + 31) div 16 * 16" unfolding arena_round_def e unat_size_mask ..
    moreover have "unat (sz + 31) < 16" using sz by (simp add: unat_word_ariths mod_if) arith
    ultimately have "unat (arena_round sz) = 0" by simp
    then show ?thesis by (simp add: unat_eq_0)
  qed
  have "fp \<noteq> mhead st h" "fnext st (mhead st h) = fp" using D(2) by (auto simp: ring_def)
  then have f: "find_fit st (mhead st h) 0 (fnext st (mhead st h)) = Some (Some fp)" by (subst find_fit.simps) simp
  define st1 where "st1 = split_headers fp fp 0 tag st"
  have "ARENA_SIZE_GET (attrs st1 fp) = 0"
    by (simp add: st1_def split_headers_def Let_def set_type_def set_heap_def set_size_def set_tag_def arena_simps)
  then have a: "asize (replace_free fp fp (link_block fp fp st1)) fp = 0"
    by (simp add: asize_def replace_free_def link_block_def Let_def)
  have l: "anext (replace_free fp fp (link_block fp fp st1)) fp = fp" by (simp add: replace_free_def link_block_def Let_def)
  have "malloc_from_block fp 0 tag st = (fp + 16, replace_free fp fp (link_block fp fp st1))"
    unfolding malloc_from_block_def if_P [OF big] by (simp add: Let_def st1_def)
  then show ?thesis using sz0 r f a l by (simp add: bios_malloc_def Let_def)
qed

theorem malloc_size_wraps_witness:
  "\<exists>st'. bios_malloc 0xffffffe1 HEAP_MAIN MALLOC_CORE demo_arena = Some (1104, st') \<and> anext st' 1088 = 1088"
  using malloc_size_wraps [OF demo_heap_ok, of "0xffffffe1" MALLOC_CORE] by auto

end
