(* ===== verification/Spec2Isabelle.thy ===== *)
theory Spec2Isabelle
  imports Rllpack Shuffle E820 Adv Dhcp DhcpOption UrlParse LibFat Mangle FatReaddir Mailbox HeapInit
begin

text \<open>
  A verification library for syslinux, a family of boot loaders. The program consists of a core (\<open>core/\<close>) that runs on the bare
  machine, reads files from a FAT or another file system or over the network, and starts kernels and modules; of a library for the modules
  (\<open>com32/\<close>); of installers (\<open>libinstaller/\<close>, \<open>libfat/\<close>) that run under an operating system; and of memdisk (\<open>memdisk/\<close>), which
  emulates a disk in memory. The C sources are translated function by function; names are those of the sources where the logic allows it.

  \<^bold>\<open>Conventions.\<close> The code is that of the 32-bit target: \<open>uint8_t\<close> to \<open>uint64_t\<close>, \<open>size_t\<close> and pointers that are computed with are words of their
  width, with wrap-around. A C buffer is a list with checked accesses: \<open>None\<close> is an access outside of it, so a theorem that a function returns
  \<open>Some\<close> says that it stays in bounds. Linked structures are functions from addresses to fields, with the null pointer 0; the theory \<open>Ring\<close>
  relates them to lists. A loop that provably ends is a \<open>fun\<close> or a \<open>function\<close> with its measure; a loop that follows pointers or the data of a disk is a
  \<open>partial_function\<close> in the option monad, in which not ending is \<open>None\<close>, and its theorems state that it returns \<open>Some\<close>. There is no fuel. What is not in the
  sources is an argument: the bytes of the disk, the answers of the BIOS, the answer of each call of \<open>malloc\<close>, the code page, the timer.

  \<^bold>\<open>Shared theories.\<close> \<open>Prelude\<close>: types, checked buffers, little-endian access, lemmas on lists and words. \<open>CStr\<close>: C strings in buffers. \<open>Ring\<close>: circular
  doubly-linked lists. \<open>RangeMap\<close>: sorted lists of ranges as maps from addresses to types, and the locale \<open>memory_map\<close>, what a client of such a map
  relies on. \<open>Tlv\<close>: items of tag, length and data. \<open>FatTable\<close>: the file allocation table as a function, independent of both readers.

  \<^bold>\<open>Files.\<close>
  \<^item> \<open>LibFat\<close>: \<open>libfat/\<close>, the FAT reader of the installers: opening, the sector cache, cluster chains, the search of a directory. It is shown that an accepted
    file system has a consistent layout, that \<open>libfat_nextsector\<close> visits the sectors of a chain, and what the search returns.
  \<^item> \<open>Cache\<close>: \<open>core/fs/cache.c\<close>, the block cache. The chain is a least-recently-used queue, each block has the bytes of the disk. The locale \<open>block_reader\<close> is what
    the file systems rely on; its interpretation \<open>cr\<close> is the cache, and \<open>cache_read\<close> is verified inside it.
  \<^item> \<open>GetFsSec\<close>: \<open>core/fs/getfssec.c\<close>, the reading of files extent by extent, against the locale \<open>extent_map\<close> of a file system.
  \<^item> \<open>FatFs\<close>, \<open>FatDir\<close>, \<open>FatReaddir\<close>, \<open>Mangle\<close>: \<open>core/fs/fat/fat.c\<close> and \<open>core/fs/lib/mangle.c\<close>: super block, extents, lookup of short and long names,
    reading of directories, path names. \<open>fx\<close> interprets \<open>extent_map\<close> on \<open>fat_next_extent\<close>, and so a read of a file returns the bytes of its cluster chain.

  \<^bold>\<open>Memory.\<close>
  \<^item> \<open>Zonelist\<close>: \<open>com32/lib/syslinux/zonelist.c\<close> and \<open>memmap.c\<close>, the memory map of the loader, a linked list of zones; \<open>zl\<close> interprets \<open>memory_map\<close> on it.
  \<^item> \<open>E820\<close>: \<open>memdisk/e820func.c\<close> and \<open>memdisk/msetup.c\<close>, the map that memdisk hands on, an array; \<open>e8\<close> interprets the same locale. Building the map from the BIOS calls.
  \<^item> \<open>Heap\<close>, \<open>HeapOps\<close>, \<open>HeapSpec\<close>, \<open>HeapInit\<close>: \<open>core/mem/\<close>, the memory allocator with its two heaps, and \<open>bios_scan_memory\<close> of \<open>core/bios.c\<close>, which feeds it. \<open>Heap\<close> has the
    definitions, the invariant (blocks in the order of their addresses, disjoint, no two free neighbours; the free chain holds the free blocks) and the lemmas on single
    blocks; \<open>HeapOps\<close> the effect of each operation on the allocated blocks and the free memory; \<open>HeapSpec\<close> the locale \<open>allocator\<close>, interpreted on both heaps
    as \<open>heap\<close>, and the properties of allocation, release and \<open>realloc\<close>; \<open>HeapInit\<close> the scan and \<open>mem_init\<close>. Since neighbours are merged, \<open>malloc\<close> fails only when
    no free range holds the request.

  \<^item> \<open>Movebits\<close>, \<open>MovePlan\<close>: \<open>com32/lib/syslinux/movebits.c\<close>, the planner of the moves that bring a kernel and its data into place. \<open>Movebits\<close> has the definitions;
    \<open>MovePlan\<close> the meaning of a list of moves on the contents of the memory, the invariant of the planner (no source of a fragment lies in free memory, what has arrived is not
    overwritten) and its preservation. Eviction, the last resort of the planner, is an argument of the main loop: the plans without it are shown correct, fragments that can be brought into an
    order in which no destination meets a later source (\<open>orderly\<close>) are shown to be planned without it, and a theorem says when a round with it loses a fragment.
  \<^item> \<open>Shuffle\<close>: \<open>com32/lib/syslinux/shuffle.c\<close> and \<open>addlist.c\<close>: the zone for the descriptors is found with \<open>Zonelist\<close>, the moves are planned around it with \<open>Movebits\<close>, and the
    descriptors are handed to the code of \<open>core/bcopyxx.inc\<close>. The theorem composes the three for \<open>orderly\<close> fragments: executed, the descriptors move every fragment, zero the marked memory
    and leave themselves alone. There are at most 80000 fragments and zones to be zeroed, so that the room for the descriptors stays below 1 MB and does not wrap around. A
    second theorem shows that the stack of the code that executes them lies outside of that room when the room is used up.

  \<^bold>\<open>Threads.\<close>
  \<^item> \<open>Thread\<close>: \<open>core/thread/\<close> and the scheduler hook of \<open>core/fs/pxe/\<close>: the scheduler, semaphores with time-outs, start, exit and kill. A call is a resumption:
    it returns, stops the machine, hangs or switches to another thread. The locales \<open>scheduler_hook\<close> and \<open>exit_hook\<close> are what the scheduler needs of
    the hook; \<open>nohook\<close> and \<open>pxe\<close> interpret them.
  \<^item> \<open>ThreadSteps\<close>: the calls as steps of one machine in which an interrupt may call the scheduler between any two steps. The lists are changed with interrupts locked out, so
    a call is one step, except that the \<open>decl\<close> or \<open>incl\<close> of a semaphore is a step of its own, before the slow path. Shown are the invariant of the reachable states, the choice
    of the next thread, and that a waiting thread is woken when the slow path of \<open>sem_up\<close> is executed as often as threads wait; a reachable state in which the count of the semaphore
    is smaller than their number is given.
  \<^item> \<open>Mailbox\<close>: \<open>core/thread/mbox.c\<close>; the locale \<open>bounded_fifo\<close> is interpreted on it as \<open>mbox\<close>.

  \<^bold>\<open>Formats.\<close>
  \<^item> \<open>Adv\<close>: the auxiliary data vector, a persistent store of tagged items kept in two copies, as \<open>com32/elflink/ldlinux/setadv.c\<close> and \<open>getadv.c\<close> and the installers (\<open>libinstaller/setadv.c\<close>) use it.
  \<^item> \<open>Dhcp\<close>, \<open>DhcpOption\<close>: \<open>com32/lib/dhcppack.c\<close>, \<open>com32/lib/dhcpunpack.c\<close> and \<open>core/fs/pxe/dhcp_option.c\<close>: packing, unpacking and parsing of DHCP options.
  \<^item> \<open>UrlParse\<close>: \<open>core/fs/pxe/urlparse.c\<close>.
  \<^item> \<open>Rllpack\<close>: \<open>core/rllpack.c\<close>, the run-length packer of the core.

  \<^bold>\<open>What the theorems show.\<close> Most are the complete behaviour of an operation under its invariant, on every branch, and that it ends and stays in bounds. Some
  are refinements: the extents of a FAT file to its cluster chain, both memory maps to the map of \<open>RangeMap\<close>, the mailbox to a queue. Some are round trips: packing and
  unpacking, storing and fetching, allocation and release. Where the code does not do what it means to, a theorem shows how: a read of a boot file name that runs over,
  an installer that never returns, sizes that wrap around in the allocator, an eviction that overwrites a
  fragment, a stack outside of the memory reserved for it, a thread that hangs while it ends.

  \<^bold>\<open>Not modelled.\<close> Assembly code and the calls of the BIOS and of the network card; code that only talks to devices (screen, keyboard, serial line); the file systems
  beside FAT, which have the same interface to \<open>getfssec\<close>; the loading of kernels and of ELF modules; the menu modules; vendored code (gPXE, lwIP, zlib, libpng, LZO); the
  EFI port. In the allocator the contents of the memory are kept apart from the headers, so the model does not show a program that overwrites a header.
  Whole calls of \<open>sem_down\<close> and \<open>sem_up\<close> occur where the code has interrupts off, and in \<open>Mailbox\<close>, whose sequences of operations are those of one thread.
\<close>

end
